(* ===== verification/Prelude.thy ===== *)
theory Prelude
  imports Main "HOL-Library.Word" "HOL-Library.Monad_Syntax"
begin

unbundle bit_operations_syntax

text \<open>
  Prelude: the machine types of the LP64 platform that fio is built for, the model of
  undefined behaviour, checked array accesses, and the generic lemmas on words, lists and
  options that the component theories share.

  A C function that can run into undefined behaviour (an access outside an array, a failed
  \<open>assert\<close>, a NULL dereference) returns an \<open>option\<close>: \<open>None\<close> is the run
  that C does not define or that aborts, \<open>Some r\<close> the run that returns \<open>r\<close>.
  Error codes that the C function itself returns are ordinary values inside \<open>Some\<close>.
\<close>

section \<open>Machine types\<close>

type_synonym u8 = "8 word"    \<comment> \<open>\<open>uint8_t\<close>, \<open>unsigned char\<close>\<close>
type_synonym u16 = "16 word"  \<comment> \<open>\<open>uint16_t\<close>, \<open>unsigned short\<close>\<close>
type_synonym u32 = "32 word"  \<comment> \<open>\<open>uint32_t\<close>, \<open>unsigned int\<close>\<close>
type_synonym u64 = "64 word"  \<comment> \<open>\<open>uint64_t\<close>, \<open>unsigned long\<close>, \<open>size_t\<close>\<close>

named_theorems word_nat "unat of the word operations the components use"
named_theorems wf_intro "introduction rules of the well-formedness invariants"

section \<open>Checked array accesses and assertions\<close>

definition rd :: "'a list \<Rightarrow> nat \<Rightarrow> 'a option" where
  "rd xs i = (if i < length xs then Some (xs ! i) else None)"

definition wr :: "'a list \<Rightarrow> nat \<Rightarrow> 'a \<Rightarrow> 'a list option" where
  "wr xs i v = (if i < length xs then Some (xs[i := v]) else None)"

definition c_assert :: "bool \<Rightarrow> unit option" where
  "c_assert b = (if b then Some () else None)"

lemma rd_in [simp]: "i < length xs \<Longrightarrow> rd xs i = Some (xs ! i)"
  by (simp add: rd_def)

lemma wr_in [simp]: "i < length xs \<Longrightarrow> wr xs i v = Some (xs[i := v])"
  by (simp add: wr_def)

lemma rd_Some_iff: "rd xs i = Some v \<longleftrightarrow> i < length xs \<and> xs ! i = v"
  by (auto simp: rd_def)

lemma wr_Some_iff: "wr xs i v = Some ys \<longleftrightarrow> i < length xs \<and> ys = xs[i := v]"
  by (auto simp: wr_def)

lemma c_assert_True [simp]: "c_assert True = Some ()"
  by (simp add: c_assert_def)

lemma c_assert_Some_iff: "c_assert b = Some u \<longleftrightarrow> b"
  by (simp add: c_assert_def)

section \<open>Words\<close>

lemma unat_drop_bit_6 [word_nat]: "unat (drop_bit 6 (w :: u64)) = unat w div 64"
proof -
  have "unat (drop_bit 6 w) = drop_bit 6 (unat w)"
    by (rule unat_drop_bit_eq)
  then show ?thesis by (simp only: drop_bit_eq_div) simp
qed

lemma unat_and_63 [word_nat]: "unat (w AND 63 :: u64) = unat w mod 64"
proof -
  have "w AND 63 = take_bit 6 w"
    by (simp only: take_bit_eq_mask mask_eq_exp_minus_1) simp
  then have "unat (w AND 63) = take_bit 6 (unat w)"
    by (simp only: unsigned_take_bit_eq)
  then show ?thesis by (simp only: take_bit_eq_mod) simp
qed

lemma unat_ucast_32 [word_nat]: "unat (ucast (x :: u64) :: u32) = unat x mod 2 ^ 32"
  by (simp add: unsigned_ucast_eq take_bit_eq_mod)

lemma unat_ucast_64 [word_nat]: "unat (ucast (x :: u32) :: u64) = unat x"
proof -
  have "unat x < 2 ^ 32" using unsigned_less [of x] by simp
  then show ?thesis by (simp add: unsigned_ucast_eq take_bit_nat_eq_self)
qed

lemma word_eq_minus_1_iff: "(w :: 'a::len word) = - 1 \<longleftrightarrow> (\<forall>i < LENGTH('a). bit w i)"
  by (auto simp: bit_eq_iff bit_minus_1_iff dest: bit_imp_le_length)

lemma unat_minus_1_64: "unat (-1 :: u64) = 2 ^ 64 - 1"
  by (simp add: unsigned_minus_1_eq_mask mask_eq_exp_minus_1)

lemma not_bit_neq_minus_1: "\<not> bit (w :: 'a::len word) k \<Longrightarrow> k < LENGTH('a) \<Longrightarrow> w \<noteq> -1"
  by (auto simp: word_eq_minus_1_iff)

lemma word_eq_0_iff_bit: "(w :: 'a::len word) = 0 \<longleftrightarrow> (\<forall>i < LENGTH('a). \<not> bit w i)"
  by (auto simp: bit_eq_iff dest: bit_imp_le_length)

declare bit.de_Morgan_conj [simp del] bit.de_Morgan_disj [simp del]

lemmas bitwise = bit_and_iff bit_or_iff bit_xor_iff bit_not_iff

lemma xor_eq_0_iff: "(a :: 'a::len word) XOR b = 0 \<longleftrightarrow> a = b"
  by (metis bit.xor_left_self bit.xor_self xor.right_neutral)

lemma xor_eq_iff: "(a :: 'a::len word) XOR b = c \<longleftrightarrow> a = b XOR c"
proof -
  have "a XOR b = c \<longleftrightarrow> (a XOR b) XOR c = 0" by (simp only: xor_eq_0_iff)
  also have "\<dots> \<longleftrightarrow> a XOR (b XOR c) = 0" by (simp only: xor.assoc)
  also have "\<dots> \<longleftrightarrow> a = b XOR c" by (simp only: xor_eq_0_iff)
  finally show ?thesis .
qed

lemmas xor_ac = xor.assoc xor.commute xor.left_commute

text \<open>\<open>1UL << k\<close>, for a shift count below the width.\<close>

definition bitval :: "nat \<Rightarrow> 'a::len word" where
  "bitval k = push_bit k 1"

lemma bit_bitval [simp]: "bit (bitval k :: 'a::len word) i \<longleftrightarrow> i = k \<and> k < LENGTH('a)"
  by (simp only: bitval_def bit_push_bit_iff bit_1_iff possible_bit_word) auto

lemma unat_bitval_32: "k < 32 \<Longrightarrow> unat (bitval k :: u32) = 2 ^ k"
proof -
  assume "k < 32"
  then have "(2 :: nat) ^ k < 2 ^ 32" by (intro power_strict_increasing) simp_all
  moreover have "(bitval k :: u32) = of_nat (2 ^ k)" by (simp add: bitval_def)
  ultimately show ?thesis by (simp only: unat_of_nat) simp
qed

lemma unat_and_size:
  assumes "k < 32"
  shows "unat ((x :: u32) AND (bitval k - 1)) = unat x mod unat (bitval k :: u32)"
proof -
  have "bitval k - 1 = (mask k :: u32)" by (simp add: bitval_def mask_eq_exp_minus_1)
  then have "unat (x AND (bitval k - 1)) = unat (take_bit k x)" by (simp add: take_bit_eq_mask)
  also have "\<dots> = take_bit k (unat x)" by (rule unsigned_take_bit_eq)
  also have "\<dots> = unat x mod 2 ^ k" by (rule take_bit_eq_mod)
  also have "(2 :: nat) ^ k = unat (bitval k :: u32)" using unat_bitval_32 [OF assms] by simp
  finally show ?thesis .
qed

lemma and_bitval_eq_0_iff: "k < LENGTH('a) \<Longrightarrow> (w :: 'a::len word) AND bitval k = 0 \<longleftrightarrow> \<not> bit w k"
proof
  assume "k < LENGTH('a)" "w AND bitval k = 0"
  then have "\<not> bit (w AND bitval k) k" by simp
  with \<open>k < LENGTH('a)\<close> show "\<not> bit w k" by (simp add: bit_and_iff)
next
  assume "\<not> bit w k"
  then show "w AND bitval k = 0" by (intro bit_eqI) (auto simp: bit_and_iff)
qed

lemma unat_less_of_le_neq: "(v :: 'a::len word) \<le> w \<Longrightarrow> v \<noteq> w \<Longrightarrow> unat v < unat w"
  by (simp add: word_le_nat_alt order_less_le word_unat_eq_iff)

lemma div_mod_64_less: "i < 64 * n \<Longrightarrow> i div 64 < (n::nat)"
  by (simp add: less_mult_imp_div_less mult.commute)

lemma div_mod_64_eq_iff: "(b::nat) div 64 = c div 64 \<and> b mod 64 = c mod 64 \<longleftrightarrow> b = c"
  by (metis div_mult_mod_eq)

lemma unat_less_pow_iff: "unat (v :: 'a::len word) < 2 ^ n \<longleftrightarrow> (\<forall>i. n \<le> i \<longrightarrow> \<not> bit v i)"
proof -
  have "unat v < 2 ^ n \<longleftrightarrow> take_bit n (unat v) = unat v"
    by (simp add: take_bit_nat_eq_self_iff)
  also have "\<dots> \<longleftrightarrow> take_bit n v = v"
    by (simp only: unsigned_take_bit_eq [symmetric] word_unat_eq_iff)
  also have "\<dots> \<longleftrightarrow> (\<forall>i. n \<le> i \<longrightarrow> \<not> bit v i)"
  proof
    assume "take_bit n v = v"
    then show "\<forall>i. n \<le> i \<longrightarrow> \<not> bit v i" by (metis bit_take_bit_iff not_le)
  next
    assume "\<forall>i. n \<le> i \<longrightarrow> \<not> bit v i"
    then show "take_bit n v = v" by (intro bit_eqI) (metis bit_take_bit_iff not_le)
  qed
  finally show ?thesis .
qed

lemma option_eqI: "(\<And>x. a = Some x \<longleftrightarrow> b = Some x) \<Longrightarrow> a = b"
  by (cases a; cases b) auto

section \<open>Bytes in memory\<close>

text \<open>
  A buffer is the list of its bytes. \<open>put_bytes\<close> stores into it; a store that reaches
  past the end is undefined, \<open>None\<close>. A word is stored with its least significant byte
  first, the order of the hosts the program is built for.
\<close>

definition le_bytes :: "nat \<Rightarrow> 'a::len word \<Rightarrow> u8 list" where
  "le_bytes n w = map (\<lambda>i. ucast (drop_bit (8 * i) w)) [0..<n]"

definition put_bytes :: "u8 list \<Rightarrow> nat \<Rightarrow> u8 list \<Rightarrow> u8 list option" where
  "put_bytes mem p bs =
     (if p + length bs \<le> length mem
      then Some (take p mem @ bs @ drop (p + length bs) mem) else None)"

lemma length_le_bytes [simp]: "length (le_bytes n w) = n"
  by (simp add: le_bytes_def)

definition get_bytes :: "u8 list \<Rightarrow> nat \<Rightarrow> nat \<Rightarrow> u8 list option" where
  "get_bytes mem p n = (if p + n \<le> length mem then Some (take n (drop p mem)) else None)"

lemma put_bytes_length: "put_bytes mem p bs = Some mem' \<Longrightarrow> length mem' = length mem"
  by (auto simp: put_bytes_def split: if_splits)

lemma put_bytes_defined: "p + length bs \<le> length mem \<Longrightarrow> \<exists>mem'. put_bytes mem p bs = Some mem'"
  by (simp add: put_bytes_def)

section \<open>Words\<close>

text \<open>How many values a word bounds.\<close>

lemma image_unat_atMost: "unat ` {v. v \<le> (w :: 'a::len word)} = {..unat w}"
proof (rule set_eqI)
  fix x
  have "x = unat (of_nat x :: 'a word)" if "x \<le> unat w"
  proof -
    have "unat w < 2 ^ LENGTH('a)" by (rule unsigned_less)
    with that have "x < 2 ^ LENGTH('a)" by (rule le_less_trans)
    then show ?thesis by (simp only: unat_of_nat mod_less)
  qed
  then show "x \<in> unat ` {v. v \<le> w} \<longleftrightarrow> x \<in> {..unat w}"
    by (metis (mono_tags, lifting) atMost_iff imageE image_eqI mem_Collect_eq word_le_nat_alt)
qed

lemma card_word_atMost: "card {v. v \<le> (w :: 'a::len word)} = unat w + 1"
proof -
  have "inj_on unat {v. v \<le> w}" by (simp add: inj_on_def word_unat_eq_iff)
  then have "card {v. v \<le> w} = card {..unat w}" by (metis card_image image_unat_atMost)
  then show ?thesis by simp
qed

end
