(* ===== verification/Bitops.thy ===== *)
theory Bitops
  imports Prelude
begin

text \<open>
  Bit searches: \<^verbatim>\<open>lib/ffz.h\<close> (\<open>__ffs\<close>, \<open>ffz\<close>) and
  \<^verbatim>\<open>lib/fls.h\<close> (\<open>__fls\<close>). Every step of the binary search is one
  \<open>ffs_step\<close> (\<open>fls_step\<close>); the lemmas state that the result is the index of the
  lowest set bit, of the lowest clear bit, and one more than the index of the highest set bit.
\<close>

section \<open>Find first set\<close>

definition ffs_step :: "nat \<Rightarrow> nat \<times> u64 \<Rightarrow> nat \<times> u64" where
  "ffs_step k s = (case s of (r, word) \<Rightarrow>
     if word AND mask k = 0 then (r + k, drop_bit k word) else (r, word))"

definition ffs :: "u64 \<Rightarrow> nat" where
  "ffs word =
     fst (ffs_step 1 (ffs_step 2 (ffs_step 4 (ffs_step 8 (ffs_step 16 (ffs_step 32 (0, word)))))))"

definition ffz :: "u64 \<Rightarrow> nat" where
  "ffz bitmask = ffs (NOT bitmask)"

text \<open>
  The invariant of the search over \<open>word\<close> after the step of width \<open>k\<close>: the \<open>r\<close>
  low bits are clear, \<open>w\<close> is what is left above them, and its \<open>k\<close> low bits hold a
  set bit.
\<close>

definition ffs_inv :: "u64 \<Rightarrow> nat \<Rightarrow> nat \<times> u64 \<Rightarrow> bool" where
  "ffs_inv word k s \<longleftrightarrow> snd s = drop_bit (fst s) word \<and> (\<forall>i < fst s. \<not> bit word i)
     \<and> (\<exists>i < k. bit (snd s) i)"

lemma and_mask_eq_0_iff: "(w :: 'a::len word) AND mask k = 0 \<longleftrightarrow> (\<forall>i < k. \<not> bit w i)"
  by (auto simp: bit_eq_iff bit_and_iff bit_mask_iff dest: bit_imp_le_length)

lemma ffs_step_inv:
  assumes "ffs_inv word (k + k) s"
  shows "ffs_inv word k (ffs_step k s)"
proof -
  obtain r w where s: "s = (r, w)" by (cases s)
  from assms obtain i where i: "i < k + k" "bit w i"
    and w: "w = drop_bit r word" and z: "\<forall>i < r. \<not> bit word i"
    by (auto simp: s ffs_inv_def)
  show ?thesis
  proof (cases "w AND mask k = 0")
    case True
    then have low: "\<forall>i < k. \<not> bit w i" by (simp add: and_mask_eq_0_iff)
    have "\<not> bit word j" if "j < r + k" for j
    proof (cases "j < r")
      case False
      with that low have "\<not> bit w (j - r)" by auto
      with False show ?thesis by (simp add: w bit_drop_bit_eq)
    qed (use z in simp)
    moreover from low i have "k \<le> i" by (metis not_le)
    with i have "i - k < k \<and> bit (drop_bit k w) (i - k)"
      by (auto simp: bit_drop_bit_eq)
    ultimately show ?thesis using True
      by (auto simp: s ffs_inv_def ffs_step_def w drop_bit_drop_bit ac_simps)
  next
    case False
    then obtain j where "j < k" "bit w j" by (auto simp: and_mask_eq_0_iff)
    with False z w show ?thesis by (auto simp: s ffs_inv_def ffs_step_def)
  qed
qed

lemma ffs_correct:
  assumes "word \<noteq> 0"
  shows "bit word (ffs word)" and "i < ffs word \<Longrightarrow> \<not> bit word i"
proof -
  obtain b where "b < 64" "bit word b" using assms by (auto simp: word_eq_0_iff_bit)
  then have 0: "ffs_inv word 64 (0, word)" by (auto simp: ffs_inv_def)
  note st = ffs_step_inv [of word 32 "(0, word)", simplified, OF 0]
  note st = ffs_step_inv [of word 16, simplified, OF st]
  note st = ffs_step_inv [of word 8, simplified, OF st]
  note st = ffs_step_inv [of word 4, simplified, OF st]
  note st = ffs_step_inv [of word 2, simplified, OF st]
  have "ffs_inv word 1 (ffs_step 1 (ffs_step 2 (ffs_step 4 (ffs_step 8 (ffs_step 16
          (ffs_step 32 (0, word)))))))"
    by (rule ffs_step_inv) (use st in \<open>simp add: numeral_2_eq_2\<close>)
  then have low: "\<forall>i < ffs word. \<not> bit word i" and b: "bit (drop_bit (ffs word) word) 0"
    by (auto simp: ffs_inv_def ffs_def)
  from b show "bit word (ffs word)" by (simp only: bit_drop_bit_eq o_def add_0_right)
  show "i < ffs word \<Longrightarrow> \<not> bit word i" using low by simp
qed

lemma ffs_less_64: "word \<noteq> 0 \<Longrightarrow> ffs word < 64"
  using ffs_correct(1) [of word] by (auto dest: bit_imp_le_length)

lemma ffs_0: "ffs 0 = 63"
  by (simp add: ffs_def ffs_step_def)

lemma ffs_eqI:
  assumes "bit word i" and "\<And>j. j < i \<Longrightarrow> \<not> bit word j"
  shows "ffs word = i"
proof -
  have "word \<noteq> 0" using assms(1) by auto
  note c = ffs_correct [OF this]
  show ?thesis
  proof (rule linorder_cases [of "ffs word" i])
    assume "ffs word < i"
    then show ?thesis using assms(2) c(1) by blast
  next
    assume "i < ffs word"
    then show ?thesis using assms(1) c(2) by blast
  qed
qed

lemma ffz_correct:
  assumes "word \<noteq> -1"
  shows "\<not> bit word (ffz word)" and "ffz word < 64" and "i < ffz word \<Longrightarrow> bit word i"
proof -
  have ne: "NOT word \<noteq> 0" using assms by (metis bit.compl_zero bit.double_compl)
  show "ffz word < 64" using ffs_less_64 [OF ne] by (simp add: ffz_def)
  then show "\<not> bit word (ffz word)" "i < ffz word \<Longrightarrow> bit word i"
    using ffs_correct [OF ne] by (auto simp: ffz_def bit_not_iff)
qed

section \<open>Find last set\<close>

definition fls_step :: "nat \<Rightarrow> nat \<times> u32 \<Rightarrow> nat \<times> u32" where
  "fls_step k s = (case s of (r, x) \<Rightarrow>
     if x AND push_bit (32 - k) (mask k) = 0 then (r - k, push_bit k x) else (r, x))"

definition fls :: "u32 \<Rightarrow> nat" where
  "fls x = (if x = 0 then 0
     else fst (fls_step 1 (fls_step 2 (fls_step 4 (fls_step 8 (fls_step 16 (32, x)))))))"

text \<open>
  Before the step of width \<open>k\<close> one of the top \<open>2 k\<close> bits of what is left is set;
  what is left is the argument shifted up by \<open>32 - r\<close>, nothing lost.
\<close>

definition fls_inv :: "u32 \<Rightarrow> nat \<Rightarrow> nat \<times> u32 \<Rightarrow> bool" where
  "fls_inv x k s \<longleftrightarrow> fst s \<le> 32 \<and> k \<le> fst s \<and> snd s = push_bit (32 - fst s) x
     \<and> (\<forall>i. fst s \<le> i \<longrightarrow> \<not> bit x i) \<and> (\<exists>i < k. bit (snd s) (31 - i))"

lemma and_high_mask_eq_0_iff:
  "k \<le> 32 \<Longrightarrow> (w :: u32) AND push_bit (32 - k) (mask k) = 0 \<longleftrightarrow> (\<forall>i < k. \<not> bit w (31 - i))"
  (is "_ \<Longrightarrow> ?l \<longleftrightarrow> ?r")
proof
  assume k: "k \<le> 32" and l: ?l
  show ?r
  proof (intro allI impI notI)
    fix i assume "i < k" "bit w (31 - i)"
    then have "bit (w AND push_bit (32 - k) (mask k)) (31 - i)"
      using k by (auto simp: bit_and_iff bit_push_bit_iff bit_mask_iff)
    with l show False by simp
  qed
next
  assume k: "k \<le> 32" and r: ?r
  show ?l
  proof (rule bit_eqI)
    fix n
    have "\<not> bit w n" if "32 - k \<le> n" "n < 32"
      using r that spec [OF r, of "31 - n"] by auto
    then show "bit (w AND push_bit (32 - k) (mask k)) n = bit (0::u32) n"
      by (auto simp: bit_and_iff bit_push_bit_iff dest: bit_imp_le_length)
  qed
qed

lemma fls_step_inv:
  assumes inv: "fls_inv x (k + k) s" and k: "0 < k"
  shows "fls_inv x k (fls_step k s)"
proof -
  obtain r w where s: "s = (r, w)" by (cases s)
  from inv obtain i where i: "i < k + k" "bit w (31 - i)"
    and r: "r \<le> 32" "k + k \<le> r" and w: "w = push_bit (32 - r) x"
    and z: "\<And>j. r \<le> j \<Longrightarrow> \<not> bit x j"
    by (auto simp: s fls_inv_def)
  show ?thesis
  proof (cases "w AND push_bit (32 - k) (mask k) = 0")
    case True
    then have top: "\<And>j. j < k \<Longrightarrow> \<not> bit w (31 - j)"
      using r by (simp add: and_high_mask_eq_0_iff)
    have "\<not> bit x j" if "r - k \<le> j" for j
    proof (cases "r \<le> j")
      case False
      with that r have "31 - (r - 1 - j) = 32 - r + j" "r - 1 - j < k" by auto
      with top [of "r - 1 - j"] have "\<not> bit w (32 - r + j)" by metis
      with False r show ?thesis by (auto simp: w bit_push_bit_iff)
    qed (use z in simp)
    moreover have "bit (push_bit k w) (31 - (i - k))" "i - k < k"
    proof -
      have "k \<le> i" using top i by (metis not_le)
      with i r show "i - k < k" by simp
      from \<open>k \<le> i\<close> i r have "31 - (i - k) = k + (31 - i)" "31 - (i - k) < 32" by auto
      then show "bit (push_bit k w) (31 - (i - k))"
        using i by (auto simp: bit_push_bit_iff)
    qed
    moreover have "push_bit k w = push_bit (32 - (r - k)) x"
      using r by (simp add: w add.commute)
    ultimately show ?thesis using True r
      by (auto simp: s fls_inv_def fls_step_def)
  next
    case False
    then obtain j where "j < k" "bit w (31 - j)"
      using r by (auto simp: and_high_mask_eq_0_iff)
    with False z w r k show ?thesis by (auto simp: s fls_inv_def fls_step_def)
  qed
qed

lemma fls_correct:
  assumes "x \<noteq> 0"
  shows "1 \<le> fls x" and "fls x \<le> 32" and "bit x (fls x - 1)" and "fls x \<le> i \<Longrightarrow> \<not> bit x i"
proof -
  obtain b where b: "b < 32" "bit x b" using assms by (auto simp: word_eq_0_iff_bit)
  then have "bit x (31 - (31 - b))" "31 - b < 32" by auto
  then have 0: "fls_inv x 32 (32, x)"
    by (auto simp: fls_inv_def dest: bit_imp_le_length)
  note st = fls_step_inv [of x 16 "(32, x)", simplified, OF 0]
  note st = fls_step_inv [of x 8, simplified, OF st]
  note st = fls_step_inv [of x 4, simplified, OF st]
  note st = fls_step_inv [of x 2, simplified, OF st]
  let ?s = "fls_step 1 (fls_step 2 (fls_step 4 (fls_step 8 (fls_step 16 (32, x)))))"
  have "fls_inv x 1 ?s"
    by (rule fls_step_inv) (use st in \<open>simp_all add: numeral_2_eq_2\<close>)
  moreover have f: "fls x = fst ?s" using assms by (simp add: fls_def)
  ultimately have r: "fls x \<le> 32" "1 \<le> fls x" and z: "\<And>i. fls x \<le> i \<Longrightarrow> \<not> bit x i"
    and "bit (push_bit (32 - fls x) x) 31"
    by (auto simp: fls_inv_def f)
  then have "bit x (31 - (32 - fls x))" by (auto simp: bit_push_bit_iff)
  moreover have "31 - (32 - fls x) = fls x - 1" using r by simp
  ultimately show "bit x (fls x - 1)" by simp
  show "1 \<le> fls x" "fls x \<le> 32" "fls x \<le> i \<Longrightarrow> \<not> bit x i" using r z by auto
qed

end
