(* ===== verification/Axmap.thy ===== *)
theory Axmap
  imports Bitops
begin

text \<open>
  \<^verbatim>\<open>lib/axmap.c\<close>: the bitmap of bitmaps that records which blocks of a file random
  I/O has already touched. Level 0 has one bit per block; a bit of level \<open>n + 1\<close> says that a
  64-bit word of level \<open>n\<close> is full. First the data and the operations in the order of the
  source, then the invariant \<open>axmap_wf\<close>, the abstraction \<open>axmap_bits\<close> to a set
  of blocks, and the lemmas that the operations implement the set operations.
\<close>

section \<open>Data\<close>

text \<open>
  \<open>nr_levels\<close> of the source is \<open>length (levels a)\<close>: both are set together in
  \<open>axmap_new\<close> and never change afterwards.
\<close>

record axmap_level =
  al_level :: nat
  map_size :: u64
  al_map :: "u64 list"

record axmap =
  levels :: "axmap_level list"
  first_free :: u64
  nr_bits :: u64

definition firstfree_valid :: "axmap \<Rightarrow> bool" where
  "firstfree_valid b \<longleftrightarrow> first_free b \<noteq> -1"

fun ulog64 :: "u64 \<Rightarrow> nat \<Rightarrow> u64" where
  "ulog64 val 0 = val"
| "ulog64 val (Suc log) = (if val = 0 then val else ulog64 (drop_bit 6 val) log)"

section \<open>Creation and reset\<close>

definition reset_level :: "axmap_level \<Rightarrow> axmap_level" where
  "reset_level al = al\<lparr>al_map := replicate (length (al_map al)) 0\<rparr>"

definition axmap_reset :: "axmap \<Rightarrow> axmap" where
  "axmap_reset a = a\<lparr>levels := map reset_level (levels a), first_free := 0\<rparr>"

text \<open>
  The number of levels: \<open>i\<close> is an \<open>unsigned int\<close> in the source, so the word count
  is cut to 32 bits when it is first stored.
\<close>

function count_levels :: "u32 \<Rightarrow> nat \<Rightarrow> nat" where
  "count_levels i n =
     (if 1 < i then count_levels (ucast (drop_bit 6 (ucast i + 63 :: u64))) (Suc n) else n)"
  by pat_completeness auto

definition words_for :: "u64 \<Rightarrow> u64" where
  "words_for nr = drop_bit 6 (nr + 63)"

lemma unat_words_for:
  assumes "unat nr + 63 < 2 ^ 64"
  shows "unat (words_for nr) = (unat nr + 63) div 64"
proof -
  have "unat (nr + 63) = unat nr + 63"
    using assms by (simp add: unat_word_ariths)
  then show ?thesis by (simp add: words_for_def word_nat)
qed

lemma count_levels_less:
  assumes "1 < (i :: u32)"
  shows "unat (ucast (drop_bit 6 (ucast i + 63 :: u64)) :: u32) < unat i"
proof -
  have g: "1 < unat i" using assms by (simp add: word_less_nat_alt)
  have b: "unat i < 2 ^ 32" using unsigned_less [of i] by simp
  have "unat (drop_bit 6 (ucast i + 63 :: u64)) = (unat i + 63) div 64"
    using unat_words_for [of "ucast i"] b by (simp add: words_for_def word_nat)
  then have "unat (ucast (drop_bit 6 (ucast i + 63 :: u64)) :: u32) \<le> (unat i + 63) div 64"
    by (simp add: unat_ucast_32)
  with g show ?thesis by simp
qed

termination count_levels
  by (relation "measure (\<lambda>(i, n). unat i)") (simp_all add: count_levels_less)

declare count_levels.simps [simp del]

text \<open>
  \<open>alloc k\<close> tells whether the \<open>k\<close>-th call of \<open>smalloc\<close> returns memory. The
  memory is zeroed by \<open>smalloc\<close>. A failure of the first allocation or of a level's map
  returns NULL (\<open>Some None\<close>); the allocation of the array of levels is not checked in the
  source, so its failure is a NULL dereference (\<open>None\<close>).
\<close>

fun new_levels :: "(nat \<Rightarrow> bool) \<Rightarrow> nat \<Rightarrow> nat \<Rightarrow> u64 \<Rightarrow> axmap_level list option" where
  "new_levels alloc i 0 nr = Some []"
| "new_levels alloc i (Suc n) nr =
     (if \<not> alloc (i + 2) then None
      else map_option
        ((#) \<lparr>al_level = i, map_size = words_for nr, al_map = replicate (unat (words_for nr)) 0\<rparr>)
        (new_levels alloc (Suc i) n (words_for nr)))"

definition axmap_new :: "(nat \<Rightarrow> bool) \<Rightarrow> u64 \<Rightarrow> axmap option option" where
  "axmap_new alloc nr =
     (if \<not> alloc 0 then Some None
      else if \<not> alloc 1 then None
      else Some (map_option
        (\<lambda>ls. axmap_reset \<lparr>levels = ls, first_free = 0, nr_bits = nr\<rparr>)
        (new_levels alloc 0 (count_levels (ucast (words_for nr)) 1) nr)))"

section \<open>Walking the levels\<close>

text \<open>
  \<open>axmap_handler\<close> calls a function on every level from the bottom up until one returns
  non-zero, \<open>axmap_handler_topdown\<close> from the top down. The function gets the level, the
  word and the bit of the level, and the caller's data; it returns the level, the data and
  whether it returned non-zero.
\<close>

type_synonym 'd level_fn =
  "axmap_level \<Rightarrow> nat \<Rightarrow> nat \<Rightarrow> 'd \<Rightarrow> (axmap_level \<times> 'd \<times> bool) option"

definition level_offset :: "u64 \<Rightarrow> nat \<Rightarrow> nat" where
  "level_offset b i = unat (drop_bit 6 (ulog64 b i))"

definition level_bit :: "u64 \<Rightarrow> nat \<Rightarrow> nat" where
  "level_bit b i = unat (ulog64 b i AND 63)"

fun axmap_handler ::
  "'d level_fn \<Rightarrow> u64 \<Rightarrow> nat \<Rightarrow> axmap_level list \<Rightarrow> 'd \<Rightarrow> (axmap_level list \<times> 'd \<times> bool) option"
where
  "axmap_handler f b i [] d = Some ([], d, False)"
| "axmap_handler f b i (al # als) d = do {
     (al', d', r) \<leftarrow> f al (level_offset b i) (level_bit b i) d;
     if r then Some (al' # als, d', True)
     else do {
       (als', d'', r') \<leftarrow> axmap_handler f b (Suc i) als d';
       Some (al' # als', d'', r')
     }
   }"

fun axmap_handler_topdown ::
  "(axmap_level \<Rightarrow> nat \<Rightarrow> nat \<Rightarrow> bool option) \<Rightarrow> u64 \<Rightarrow> nat \<Rightarrow> axmap_level list \<Rightarrow> bool option"
where
  "axmap_handler_topdown f b 0 ls = Some False"
| "axmap_handler_topdown f b (Suc i) ls = do {
     al \<leftarrow> rd ls i;
     r \<leftarrow> f al (level_offset b i) (level_bit b i);
     if r then Some True else axmap_handler_topdown f b i ls
   }"

section \<open>Clearing a bit\<close>

definition axmap_clear_fn :: "unit level_fn" where
  "axmap_clear_fn al offset b u = do {
     w \<leftarrow> rd (al_map al) offset;
     if w AND bitval b = 0 then Some (al, u, True)
     else do {
       m \<leftarrow> wr (al_map al) offset (w AND NOT (bitval b));
       Some (al\<lparr>al_map := m\<rparr>, u, False)
     }
   }"

definition axmap_clear :: "axmap \<Rightarrow> u64 \<Rightarrow> axmap option" where
  "axmap_clear a b = do {
     (ls, u, r) \<leftarrow> axmap_handler axmap_clear_fn b 0 (levels a) ();
     Some (a\<lparr>levels := ls\<rparr>)
   }"

section \<open>Setting bits\<close>

record axmap_set_data =
  sd_nr_bits :: u32
  sd_set_bits :: u32

definition bit_masks :: "u64 list" where
  "bit_masks = [
     0x0000000000000000, 0x0000000000000001, 0x0000000000000003, 0x0000000000000007,
     0x000000000000000f, 0x000000000000001f, 0x000000000000003f, 0x000000000000007f,
     0x00000000000000ff, 0x00000000000001ff, 0x00000000000003ff, 0x00000000000007ff,
     0x0000000000000fff, 0x0000000000001fff, 0x0000000000003fff, 0x0000000000007fff,
     0x000000000000ffff, 0x000000000001ffff, 0x000000000003ffff, 0x000000000007ffff,
     0x00000000000fffff, 0x00000000001fffff, 0x00000000003fffff, 0x00000000007fffff,
     0x0000000000ffffff, 0x0000000001ffffff, 0x0000000003ffffff, 0x0000000007ffffff,
     0x000000000fffffff, 0x000000001fffffff, 0x000000003fffffff, 0x000000007fffffff,
     0x00000000ffffffff,
     0x00000001ffffffff, 0x00000003ffffffff, 0x00000007ffffffff, 0x0000000fffffffff,
     0x0000001fffffffff, 0x0000003fffffffff, 0x0000007fffffffff, 0x000000ffffffffff,
     0x000001ffffffffff, 0x000003ffffffffff, 0x000007ffffffffff, 0x00000fffffffffff,
     0x00001fffffffffff, 0x00003fffffffffff, 0x00007fffffffffff, 0x0000ffffffffffff,
     0x0001ffffffffffff, 0x0003ffffffffffff, 0x0007ffffffffffff, 0x000fffffffffffff,
     0x001fffffffffffff, 0x003fffffffffffff, 0x007fffffffffffff, 0x00ffffffffffffff,
     0x01ffffffffffffff, 0x03ffffffffffffff, 0x07ffffffffffffff, 0x0fffffffffffffff,
     0x1fffffffffffffff, 0x3fffffffffffffff, 0x7fffffffffffffff, 0xffffffffffffffff]"

text \<open>The loop that masks off the bits that are set already, lowest first.\<close>

lemma and_not_push_less:
  assumes "(w :: u64) \<noteq> 0"
  shows "unat (w AND NOT (bitval (ffs w))) < unat w"
proof -
  have le: "w AND NOT (bitval (ffs w)) \<le> w"
    by (rule word_and_le2)
  have "bit w (ffs w)" using ffs_correct(1) [OF assms] .
  moreover have "\<not> bit (w AND NOT (bitval (ffs w))) (ffs w)"
    using ffs_less_64 [OF assms] by (simp add: bit_and_iff bit_not_iff)
  ultimately have "w AND NOT (bitval (ffs w)) \<noteq> w" by metis
  with le show ?thesis by (simp add: unat_less_of_le_neq)
qed

function mask_overlap :: "u64 \<Rightarrow> u64 \<Rightarrow> u32 \<Rightarrow> u64 \<times> u32" where
  "mask_overlap overlap m n =
     (if overlap = 0 then (m, n)
      else let clear_mask = NOT (bitval (ffz (NOT overlap)))
           in mask_overlap (overlap AND clear_mask) (m AND clear_mask) (n - 1))"
  by pat_completeness auto
termination
  by (relation "measure (\<lambda>(overlap, m, n). unat overlap)")
    (simp_all add: ffz_def and_not_push_less)

declare mask_overlap.simps [simp del]

definition axmap_set_fn :: "axmap_set_data level_fn" where
  "axmap_set_fn al offset b d = do {
     let n = (if sd_nr_bits d < 64 - of_nat b then sd_nr_bits d else 64 - of_nat b);
     m0 \<leftarrow> rd bit_masks (unat n);
     let m = push_bit b m0;
     w \<leftarrow> rd (al_map al) offset;
     if w AND m = m then Some (al, d, True)
     else do {
       let (m', n') = mask_overlap (w AND m) m n;
       c_assert (m' \<noteq> 0);
       c_assert (w AND m' = 0);
       mp \<leftarrow> wr (al_map al) offset (w OR m');
       let d' = (if al_level al = 0 then d\<lparr>sd_set_bits := n'\<rparr> else d);
       Some (al\<lparr>al_map := mp\<rparr>, d'\<lparr>sd_nr_bits := 1\<rparr>, w OR m' \<noteq> -1)
     }
   }"

text \<open>
  The loop of \<open>__axmap_set\<close>. The differences with \<open>BLOCKS_PER_UNIT\<close> are
  \<open>unsigned long\<close> values, the counters \<open>unsigned int\<close>.
\<close>

definition set_loop_again :: "u32 \<Rightarrow> u32 \<Rightarrow> bool" where
  "set_loop_again s nr \<longleftrightarrow> s \<noteq> 0 \<and> (ucast s :: u64) = 64 - ucast nr"

lemma set_loop_again_iff:
  "set_loop_again s nr \<longleftrightarrow> unat nr < 64 \<and> unat s = 64 - unat nr"
proof -
  have s: "unat s < 2 ^ 32" using unsigned_less [of s] by simp
  have n: "unat nr < 2 ^ 32" using unsigned_less [of nr] by simp
  have "unat (64 - ucast nr :: u64)
      = (if unat nr \<le> 64 then 64 - unat nr else 2 ^ 64 - (unat nr - 64))"
    using n by (simp add: unat_sub_if_size word_size unat_ucast_64)
  moreover have "(ucast s :: u64) = 64 - ucast nr \<longleftrightarrow> unat s = unat (64 - ucast nr :: u64)"
    by (simp add: word_unat_eq_iff unat_ucast_64)
  moreover have "s \<noteq> 0 \<longleftrightarrow> 0 < unat s" by (simp add: unat_gt_0)
  ultimately show ?thesis using s n by (auto simp: set_loop_again_def)
qed

definition set_loop_measure :: "u32 \<Rightarrow> nat" where
  "set_loop_measure nr =
     (if 64 < unat nr then 1 else if unat nr < 32 then 2 else 3 + unat nr)"

lemma set_loop_measure_less:
  assumes "set_loop_again s nr"
  shows "set_loop_measure (nr - s) < set_loop_measure nr"
proof -
  from assms have a: "unat nr < 64" "unat s = 64 - unat nr" by (simp_all add: set_loop_again_iff)
  then have "unat (nr - s) = (if 32 \<le> unat nr then 2 * unat nr - 64 else 2 ^ 32 - (64 - 2 * unat nr))"
    by (simp add: unat_sub_if_size word_size) arith
  with a show ?thesis by (simp add: set_loop_measure_def) arith
qed

function set_loop ::
  "u64 \<Rightarrow> u32 \<Rightarrow> u32 \<Rightarrow> axmap_set_data \<Rightarrow> axmap_level list
     \<Rightarrow> (axmap_level list \<times> axmap_set_data) option"
where
  "set_loop b nr set_bits d ls =
     (if nr = 0 then Some (ls, d\<lparr>sd_set_bits := set_bits\<rparr>)
      else case axmap_handler axmap_set_fn b 0 ls d of
        None \<Rightarrow> None
      | Some (ls', d', r) \<Rightarrow>
          if set_loop_again (sd_set_bits d') nr
          then set_loop (b + ucast (sd_set_bits d')) (nr - sd_set_bits d')
                 (set_bits + sd_set_bits d') (d'\<lparr>sd_nr_bits := nr - sd_set_bits d'\<rparr>) ls'
          else Some (ls', d'\<lparr>sd_set_bits := set_bits + sd_set_bits d'\<rparr>))"
  by pat_completeness auto
termination
  by (relation "measure (\<lambda>(b, nr, set_bits, d, ls). set_loop_measure nr)")
    (simp_all add: set_loop_measure_less)

declare set_loop.simps [simp del]

text \<open>\<open>__axmap_set\<close>.\<close>

definition axmap_set0 :: "axmap \<Rightarrow> u64 \<Rightarrow> axmap_set_data \<Rightarrow> (axmap \<times> axmap_set_data) option" where
  "axmap_set0 a b d = (
     let nr = sd_nr_bits d;
         a1 = (if b \<le> first_free a \<and> first_free a < b + ucast nr
               then a\<lparr>first_free := -1\<rparr> else a)
     in if nr_bits a < b then Some (a1, d)
        else do {
          (ls, d') \<leftarrow> set_loop b
             (if nr_bits a < b + ucast nr then ucast (nr_bits a - b) else nr) 0 d (levels a);
          Some (a1\<lparr>levels := ls\<rparr>, d')
        })"

definition axmap_set :: "axmap \<Rightarrow> u64 \<Rightarrow> axmap option" where
  "axmap_set a b = map_option fst (axmap_set0 a b \<lparr>sd_nr_bits = 1, sd_set_bits = 0\<rparr>)"

text \<open>The number of bits of one round of \<open>axmap_set_nr\<close>: never across a word.\<close>

definition set_nr_chunk :: "u64 \<Rightarrow> u32 \<Rightarrow> u32" where
  "set_nr_chunk b nr =
     (let max_bits = 64 - ucast (b AND 63) in if max_bits < nr then max_bits else nr)"

lemma unat_set_nr_chunk: "unat (set_nr_chunk b nr) = min (64 - unat b mod 64) (unat nr)"
proof -
  have "unat (64 - ucast (b AND 63) :: u32) = 64 - unat b mod 64"
    by (simp add: unat_sub_if_size word_size word_nat)
  then show ?thesis by (simp add: set_nr_chunk_def Let_def word_less_nat_alt min_def)
qed

function axmap_set_nr_loop :: "axmap \<Rightarrow> u64 \<Rightarrow> u32 \<Rightarrow> u32 \<Rightarrow> (axmap \<times> u32) option" where
  "axmap_set_nr_loop a b nr set_bits =
     (let n = set_nr_chunk b nr in
      case axmap_set0 a b \<lparr>sd_nr_bits = n, sd_set_bits = 0\<rparr> of
        None \<Rightarrow> None
      | Some (a', d) \<Rightarrow>
          if sd_set_bits d \<noteq> n then Some (a', set_bits + sd_set_bits d)
          else if nr - n = 0 then Some (a', set_bits + n)
          else axmap_set_nr_loop a' (b + ucast n) (nr - n) (set_bits + n))"
  by pat_completeness auto
termination
proof (relation "measure (\<lambda>(a, b, nr, set_bits). unat nr)", simp)
  fix a b and nr set_bits :: u32 and n x2 x y
  assume n: "n = set_nr_chunk b nr" and ne: "nr - n \<noteq> 0"
  have "unat n = min (64 - unat b mod 64) (unat nr)" by (simp add: n unat_set_nr_chunk)
  moreover have "nr \<noteq> 0"
  proof
    assume "nr = 0"
    with calculation have "n = 0" by (simp add: unat_eq_zero)
    with \<open>nr = 0\<close> ne show False by simp
  qed
  then have "0 < unat nr" by (simp add: unat_gt_0)
  ultimately have "unat (nr - n) < unat nr" by (simp add: unat_sub_if_size)
  then show "((x, b + ucast n, nr - n, set_bits + n), (a, b, nr, set_bits))
      \<in> measure (\<lambda>(a, b, nr, set_bits). unat nr)"
    by simp
qed

declare axmap_set_nr_loop.simps [simp del]

definition axmap_set_nr :: "axmap \<Rightarrow> u64 \<Rightarrow> u32 \<Rightarrow> (axmap \<times> u32) option" where
  "axmap_set_nr a b nr = axmap_set_nr_loop a b nr 0"

section \<open>Looking bits up\<close>

definition axmap_isset_fn :: "axmap_level \<Rightarrow> nat \<Rightarrow> nat \<Rightarrow> bool option" where
  "axmap_isset_fn al offset b = do {
     w \<leftarrow> rd (al_map al) offset;
     Some (w AND bitval b \<noteq> 0)
   }"

definition axmap_isset :: "axmap \<Rightarrow> u64 \<Rightarrow> bool option" where
  "axmap_isset a b =
     (if b \<le> nr_bits a
      then axmap_handler_topdown axmap_isset_fn b (length (levels a)) (levels a)
      else Some False)"

text \<open>The inner loop: the first word at or after \<open>j\<close>, of \<open>n\<close> words, that is not full.\<close>

fun scan_map :: "u64 list \<Rightarrow> nat \<Rightarrow> nat \<Rightarrow> (nat \<times> u64) option option" where
  "scan_map m j 0 = Some None"
| "scan_map m j (Suc n) = do {
     w \<leftarrow> rd m j;
     if w = -1 then scan_map m (Suc j) n else Some (Some (j, w))
   }"

fun find_free_loop :: "axmap_level list \<Rightarrow> nat \<Rightarrow> u64 \<Rightarrow> u64 \<Rightarrow> u64 option" where
  "find_free_loop ls 0 index ret = Some ret"
| "find_free_loop ls (Suc i) index ret = do {
     al \<leftarrow> rd ls i;
     if map_size al \<le> index then Some (-1)
     else do {
       f \<leftarrow> scan_map (al_map al) (unat index) (unat (map_size al) - unat index);
       case f of
         None \<Rightarrow> find_free_loop ls i index ret
       | Some (j, w) \<Rightarrow>
           let ret' = push_bit 6 (of_nat j) + of_nat (ffz w) in find_free_loop ls i ret' ret'
     }
   }"

definition axmap_find_first_free :: "axmap \<Rightarrow> nat \<Rightarrow> u64 \<Rightarrow> u64 option" where
  "axmap_find_first_free a level index = do {
     ret \<leftarrow> find_free_loop (levels a) (Suc level) index (-1);
     Some (if ret < nr_bits a then ret else -1)
   }"

definition axmap_first_free :: "axmap \<Rightarrow> (axmap \<times> u64) option" where
  "axmap_first_free a =
     (if firstfree_valid a then Some (a, first_free a)
      else do {
        ff \<leftarrow> axmap_find_first_free a (length (levels a) - 1) 0;
        Some (a\<lparr>first_free := ff\<rparr>, ff)
      })"

record axmap_next_free_data =
  nf_level :: "nat option"   \<comment> \<open>\<open>None\<close> is the initial \<open>-1U\<close>\<close>
  nf_offset :: nat
  nf_bit :: u64

definition axmap_next_free_fn :: "axmap_next_free_data level_fn" where
  "axmap_next_free_fn al offset b d = do {
     m \<leftarrow> rd bit_masks (unat ((nf_bit d + 1) AND 63));
     w \<leftarrow> rd (al_map al) offset;
     if NOT m AND NOT w = 0 then Some (al, d, False)
     else if w \<noteq> -1 then Some (al, d\<lparr>nf_level := Some (al_level al), nf_offset := offset\<rparr>, True)
     else Some (al, d\<lparr>nf_bit := (nf_bit d + 64 - 1) div 64\<rparr>, False)
   }"

definition axmap_next_free :: "axmap \<Rightarrow> u64 \<Rightarrow> (axmap \<times> u64) option" where
  "axmap_next_free a b =
     (if firstfree_valid a \<and> b < first_free a then Some (a, first_free a)
      else do {
        (ls, d, r) \<leftarrow> axmap_handler axmap_next_free_fn b 0 (levels a)
           \<lparr>nf_level = None, nf_offset = 0, nf_bit = b\<rparr>;
        if \<not> r then axmap_first_free a
        else do {
          level \<leftarrow> nf_level d;
          ret \<leftarrow> axmap_find_first_free a level (of_nat (nf_offset d));
          if ret \<noteq> -1 then Some (a, ret) else axmap_first_free a
        }
      })"

end
