(* ===== verification/Axmap_Correct.thy ===== *)
theory Axmap_Correct
  imports Axmap
begin

text \<open>
  Correctness of \<^verbatim>\<open>lib/axmap.c\<close>: the invariant that links the levels of the map,
  the abstraction of a map to the set of blocks marked in it, and the refinement of set, clear,
  lookup and free-block search to that set.
\<close>

section \<open>The invariant and the abstraction\<close>

definition mbit :: "u64 list \<Rightarrow> nat \<Rightarrow> bool" where
  "mbit m j \<longleftrightarrow> bit (m ! (j div 64)) (j mod 64)"

text \<open>A level \<open>m1\<close> summarises the level \<open>m0\<close> below it.\<close>

definition linked :: "u64 list \<Rightarrow> u64 list \<Rightarrow> bool" where
  "linked m0 m1 \<longleftrightarrow> length m1 = (length m0 + 63) div 64
     \<and> (\<forall>j < 64 * length m1. mbit m1 j \<longleftrightarrow> j < length m0 \<and> m0 ! j = -1)"

definition level_ok :: "nat \<Rightarrow> axmap_level \<Rightarrow> bool" where
  "level_ok i al \<longleftrightarrow> al_level al = i \<and> unat (map_size al) = length (al_map al)"

fun levels_wf :: "nat \<Rightarrow> axmap_level list \<Rightarrow> bool" where
  "levels_wf i [] \<longleftrightarrow> False"
| "levels_wf i [al] \<longleftrightarrow> level_ok i al \<and> length (al_map al) \<le> 1"
| "levels_wf i (al # al' # als) \<longleftrightarrow>
     level_ok i al \<and> linked (al_map al) (al_map al') \<and> levels_wf (Suc i) (al' # als)"

definition base_map :: "axmap_level list \<Rightarrow> u64 list" where
  "base_map ls = al_map (hd ls)"

definition map_bits :: "u64 list \<Rightarrow> nat set" where
  "map_bits m = {j. j < 64 * length m \<and> mbit m j}"

definition axmap_bits :: "axmap \<Rightarrow> nat set" where
  "axmap_bits a = map_bits (base_map (levels a))"

definition free_hint_ok :: "u64 \<Rightarrow> u64 \<Rightarrow> nat set \<Rightarrow> bool" where
  "free_hint_ok ff nr B \<longleftrightarrow> ff \<noteq> -1 \<longrightarrow> unat ff \<notin> B \<and> (ff < nr \<or> ff = 0)"

definition axmap_wf :: "axmap \<Rightarrow> bool" where
  "axmap_wf a \<longleftrightarrow> levels_wf 0 (levels a) \<and> unat (nr_bits a) < 2 ^ 63
     \<and> length (base_map (levels a)) = (unat (nr_bits a) + 63) div 64
     \<and> free_hint_ok (first_free a) (nr_bits a) (axmap_bits a)"

text \<open>Facts about a single level.\<close>

lemma unat_ulog64: "unat (ulog64 b i) = unat b div 64 ^ i"
  by (induction b i rule: ulog64.induct) (auto simp: word_nat div_mult2_eq [symmetric])

lemma level_offset_eq: "level_offset b i = unat b div 64 ^ Suc i"
  by (simp add: level_offset_def word_nat unat_ulog64 div_mult2_eq [symmetric] mult.commute)

lemma level_bit_eq: "level_bit b i = unat b div 64 ^ i mod 64"
  by (simp add: level_bit_def word_nat unat_ulog64)

lemma mbit_update:
  assumes "o' < length m"
  shows "mbit (m[o' := w]) j \<longleftrightarrow> (if j div 64 = o' then bit w (j mod 64) else mbit m j)"
  using assms by (auto simp: mbit_def nth_list_update)

lemma linkedD:
  "linked m0 m1 \<Longrightarrow> j < length m0 \<Longrightarrow> mbit m1 j \<longleftrightarrow> m0 ! j = -1"
  "linked m0 m1 \<Longrightarrow> j < length m0 \<Longrightarrow> j div 64 < length m1"
  by (auto simp: linked_def)

text \<open>A word that is not full before and after a change keeps the level above linked.\<close>

lemma linked_same:
  "linked m0 m1 \<Longrightarrow> k < length m0 \<Longrightarrow> m0 ! k \<noteq> -1 \<Longrightarrow> w \<noteq> -1 \<Longrightarrow> linked (m0[k := w]) m1"
  by (auto simp: linked_def nth_list_update)

lemma mbit_or_bitval:
  assumes "k div 64 < length m"
  shows "mbit (m[k div 64 := m ! (k div 64) OR bitval (k mod 64)]) j \<longleftrightarrow> j = k \<or> mbit m j"
proof (cases "j div 64 = k div 64")
  case True
  then have "j = k \<longleftrightarrow> j mod 64 = k mod 64" using div_mod_64_eq_iff [of j k] by simp
  then show ?thesis using True assms by (auto simp: mbit_update bitwise mbit_def)
next
  case False
  then have "j \<noteq> k" by auto
  with False assms show ?thesis by (simp add: mbit_update)
qed

lemma mbit_and_not_bitval:
  assumes "k div 64 < length m"
  shows "mbit (m[k div 64 := m ! (k div 64) AND NOT (bitval (k mod 64))]) j \<longleftrightarrow> j \<noteq> k \<and> mbit m j"
proof (cases "j div 64 = k div 64")
  case True
  then have "j = k \<longleftrightarrow> j mod 64 = k mod 64" using div_mod_64_eq_iff [of j k] by simp
  then show ?thesis using True assms by (auto simp: mbit_update bitwise mbit_def)
next
  case False
  then have "j \<noteq> k" by auto
  with False assms show ?thesis by (simp add: mbit_update)
qed

lemma linked_fill:
  assumes "linked m0 m1" "k < length m0"
  shows "linked (m0[k := -1]) (m1[k div 64 := m1 ! (k div 64) OR bitval (k mod 64)])"
  using assms linkedD(2) [OF assms]
  by (simp add: linked_def mbit_or_bitval nth_list_update)

lemma linked_unfill:
  assumes "linked m0 m1" "k < length m0" "w \<noteq> -1"
  shows "linked (m0[k := w]) (m1[k div 64 := m1 ! (k div 64) AND NOT (bitval (k mod 64))])"
  using assms linkedD(2) [OF assms(1,2)]
  by (simp add: linked_def mbit_and_not_bitval nth_list_update)

lemma levels_wf_nonempty: "levels_wf i ls \<Longrightarrow> ls \<noteq> []"
  by (cases ls) auto

lemma levels_wf_Cons:
  "levels_wf i (al # als) \<longleftrightarrow> level_ok i al
     \<and> (if als = [] then length (al_map al) \<le> 1
        else linked (al_map al) (base_map als) \<and> levels_wf (Suc i) als)"
  by (cases als) (auto simp: base_map_def)

lemma levels_wf_ok: "levels_wf k ls \<Longrightarrow> i < length ls \<Longrightarrow> level_ok (k + i) (ls ! i)"
proof (induction ls arbitrary: k i)
  case (Cons al als)
  then show ?case using Cons.IH [where k = "Suc k" and i = "i - 1"]
    by (cases i) (auto simp: levels_wf_Cons split: if_splits)
qed simp

lemma levels_wf_linked:
  "levels_wf k ls \<Longrightarrow> Suc i < length ls \<Longrightarrow> linked (al_map (ls ! i)) (al_map (ls ! Suc i))"
proof (induction ls arbitrary: k i)
  case (Cons al als)
  then have "als \<noteq> []" by auto
  show ?case
  proof (cases i)
    case 0
    with Cons.prems \<open>als \<noteq> []\<close> show ?thesis
      by (simp add: levels_wf_Cons base_map_def hd_conv_nth)
  next
    case (Suc i')
    with Cons.prems \<open>als \<noteq> []\<close> show ?thesis
      using Cons.IH [where k = "Suc k" and i = i'] by (simp add: levels_wf_Cons)
  qed
qed simp

lemma levels_wf_last: "levels_wf k ls \<Longrightarrow> length (al_map (last ls)) \<le> 1"
proof (induction ls arbitrary: k)
  case (Cons al als)
  then show ?case by (auto simp: levels_wf_Cons split: if_splits)
qed simp

lemma levels_wf_map_size:
  "levels_wf 0 ls \<Longrightarrow> i < length ls \<Longrightarrow> unat (map_size (ls ! i)) = length (al_map (ls ! i))"
  using levels_wf_ok [of 0 ls i] by (simp add: level_ok_def)

text \<open>The index of a block at every level stays inside the level's map.\<close>

lemma level_index_less:
  assumes "levels_wf 0 ls" "unat b < 64 * length (base_map ls)" "i < length ls"
  shows "unat b div 64 ^ i < 64 * length (al_map (ls ! i))"
  using assms(3)
proof (induction i)
  case 0
  then show ?case using assms(2) by (simp add: base_map_def hd_conv_nth)
next
  case (Suc i)
  then have lk: "linked (al_map (ls ! i)) (al_map (ls ! Suc i))"
    using levels_wf_linked [OF assms(1)] by simp
  from Suc have "unat b div 64 ^ i div 64 < length (al_map (ls ! i))"
    by (simp add: div_mod_64_less)
  moreover have "length (al_map (ls ! i)) \<le> 64 * length (al_map (ls ! Suc i))"
    using lk by (simp add: linked_def)
  moreover have "unat b div 64 ^ Suc i = unat b div 64 ^ i div 64"
    by (simp add: div_mult2_eq [symmetric] mult.commute)
  ultimately show ?case by simp
qed

section \<open>Lookup\<close>

lemma axmap_isset_fn_eq:
  assumes "j < 64 * length (al_map al)"
  shows "axmap_isset_fn al (j div 64) (j mod 64) = Some (mbit (al_map al) j)"
proof -
  have "j div 64 < length (al_map al)" using assms by (rule div_mod_64_less)
  then show ?thesis by (simp add: axmap_isset_fn_def and_bitval_eq_0_iff mbit_def)
qed

text \<open>
  A set bit above means that the word below is full, so it forces every bit on the way down:
  stopping at the first set level is right.
\<close>

lemma mbit_step_down:
  assumes "linked m0 m1" "j < 64 * length m0" "mbit m1 (j div 64)"
  shows "mbit m0 j"
proof -
  have "j div 64 < length m0" using assms(2) by (rule div_mod_64_less)
  with assms(1,3) have "m0 ! (j div 64) = -1" by (simp add: linkedD)
  then show ?thesis by (simp add: mbit_def bit_minus_1_iff)
qed

lemma mbit_down:
  assumes "levels_wf 0 ls" "unat b < 64 * length (base_map ls)" "i < length ls"
    "mbit (al_map (ls ! i)) (unat b div 64 ^ i)"
  shows "mbit (base_map ls) (unat b)"
  using assms(3,4)
proof (induction i)
  case 0
  then show ?case by (simp add: base_map_def hd_conv_nth)
next
  case (Suc i)
  have "unat b div 64 ^ Suc i = unat b div 64 ^ i div 64"
    by (simp add: div_mult2_eq [symmetric] mult.commute)
  then have "mbit (al_map (ls ! i)) (unat b div 64 ^ i)"
    using Suc.prems mbit_step_down levels_wf_linked [OF assms(1)]
      level_index_less [OF assms(1,2), of i] by force
  with Suc show ?case by simp
qed

lemma isset_topdown:
  assumes "levels_wf 0 ls" "unat b < 64 * length (base_map ls)"
  shows "i \<le> length ls \<Longrightarrow> \<not> mbit (base_map ls) (unat b) \<Longrightarrow>
      axmap_handler_topdown axmap_isset_fn b i ls = Some False"
    and "0 < i \<Longrightarrow> i \<le> length ls \<Longrightarrow> mbit (base_map ls) (unat b) \<Longrightarrow>
      axmap_handler_topdown axmap_isset_fn b i ls = Some True"
proof -
  have fn: "axmap_isset_fn (ls ! k) (level_offset b k) (level_bit b k)
      = Some (mbit (al_map (ls ! k)) (unat b div 64 ^ k))" if "k < length ls" for k
  proof -
    have "level_offset b k = unat b div 64 ^ k div 64"
      by (simp add: level_offset_eq div_mult2_eq [symmetric] mult.commute)
    then show ?thesis
      using axmap_isset_fn_eq [OF level_index_less [OF assms that]] by (simp add: level_bit_eq)
  qed
  show "i \<le> length ls \<Longrightarrow> \<not> mbit (base_map ls) (unat b) \<Longrightarrow>
      axmap_handler_topdown axmap_isset_fn b i ls = Some False"
  proof (induction i)
    case (Suc i)
    then have i: "i < length ls" by simp
    then have "\<not> mbit (al_map (ls ! i)) (unat b div 64 ^ i)"
      using mbit_down [OF assms i] Suc.prems by blast
    with Suc i show ?case by (simp add: fn)
  qed simp
  show "0 < i \<Longrightarrow> i \<le> length ls \<Longrightarrow> mbit (base_map ls) (unat b) \<Longrightarrow>
      axmap_handler_topdown axmap_isset_fn b i ls = Some True"
  proof (induction i)
    case (Suc i)
    then show ?case
    proof (cases "i = 0")
      case True
      with Suc have "ls \<noteq> []" by auto
      with Suc True show ?thesis by (simp add: fn base_map_def hd_conv_nth)
    next
      case False
      with Suc show ?thesis by (simp add: fn)
    qed
  qed simp
qed

lemma axmap_wfD:
  assumes "axmap_wf a"
  shows "levels_wf 0 (levels a)"
    and "length (base_map (levels a)) = (unat (nr_bits a) + 63) div 64"
    and "unat b < unat (nr_bits a) \<Longrightarrow> unat b < 64 * length (base_map (levels a))"
  using assms by (auto simp: axmap_wf_def)

lemma isset_refines:
  assumes "axmap_wf a" "b < nr_bits a"
  shows "axmap_isset a b = Some (unat b \<in> axmap_bits a)"
proof -
  have wf: "levels_wf 0 (levels a)" using axmap_wfD(1) [OF assms(1)] .
  have b: "unat b < 64 * length (base_map (levels a))"
    using axmap_wfD(3) [OF assms(1)] assms(2) by (simp add: word_less_nat_alt)
  have "0 < length (levels a)" using levels_wf_nonempty [OF wf] by simp
  then show ?thesis
    using isset_topdown [OF wf b, of "length (levels a)"] assms(2) b
    by (cases "mbit (base_map (levels a)) (unat b)")
      (auto simp: axmap_isset_def axmap_bits_def map_bits_def)
qed

section \<open>Setting\<close>

lemma bit_masks_nth:
  assumes "n \<le> 64"
  shows "bit_masks ! n = mask n"
proof -
  have "bit_masks = map mask [0..<65]"
    by (simp add: bit_masks_def upt_rec mask_eq_exp_minus_1)
  then have "bit_masks ! n = map mask [0..<65] ! n" by (simp only:)
  also have "\<dots> = mask n" using assms by (subst nth_map) (simp_all del: upt_Suc)
  finally show ?thesis .
qed

lemma length_bit_masks: "length bit_masks = 65"
  by (simp add: bit_masks_def)

text \<open>The bits that \<open>axmap_set_fn\<close> asks for.\<close>

definition range_mask :: "nat \<Rightarrow> nat \<Rightarrow> u64" where
  "range_mask k n = push_bit k (mask n)"

lemma bit_range_mask [simp]: "bit (range_mask k n) i \<longleftrightarrow> k \<le> i \<and> i < k + n \<and> i < 64"
  by (auto simp: range_mask_def bit_push_bit_iff bit_mask_iff)

definition popc :: "u64 \<Rightarrow> nat" where
  "popc w = card {i. bit w i}"

lemma finite_bits [simp]: "finite {i. bit (w :: 'a::len word) i}"
  by (rule finite_subset [of _ "{..<LENGTH('a)}"]) (auto dest: bit_imp_le_length)

lemma popc_0 [simp]: "popc 0 = 0"
  by (simp add: popc_def)

lemma popc_remove:
  assumes "bit w k"
  shows "popc w = Suc (popc (w AND NOT (bitval k)))"
proof -
  have "{i. bit (w AND NOT (bitval k)) i} = {i. bit w i} - {k}"
    using assms by (auto simp: bitwise dest: bit_imp_le_length)
  then show ?thesis
    using assms card.remove [of "{i. bit w i}" k] by (simp add: popc_def)
qed

lemma mask_overlap_eq:
  "mask_overlap ov m n = (m AND NOT ov, n - of_nat (popc ov))"
proof (induction ov m n rule: mask_overlap.induct)
  case (1 ov m n)
  show ?case
  proof (cases "ov = 0")
    case True
    then show ?thesis by (simp add: mask_overlap.simps)
  next
    case False
    let ?c = "NOT (bitval (ffs ov)) :: u64"
    have b: "bit ov (ffs ov)" using ffs_correct(1) [OF False] .
    have "ffs ov < 64" using ffs_less_64 [OF False] .
    with b have "(m AND ?c) AND NOT (ov AND ?c) = m AND NOT ov"
      by (intro bit_eqI) (auto simp: bitwise)
    moreover have "n - 1 - of_nat (popc (ov AND ?c)) = n - of_nat (popc ov)"
      by (simp add: popc_remove [OF b])
    ultimately show ?thesis
      using 1 [OF False refl] False by (simp add: mask_overlap.simps [of ov] ffz_def Let_def)
  qed
qed

lemma word_and_eq_iff: "(w :: 'a::len word) AND m = m \<longleftrightarrow> (\<forall>i. bit m i \<longrightarrow> bit w i)"
  by (auto simp: bit_eq_iff bit_and_iff dest: bit_imp_le_length)

text \<open>
  One call of \<open>axmap_set_fn\<close> on \<open>n\<close> bits that fit the word: it does nothing when they
  are all set, else it sets exactly them and reports how many were clear.
\<close>

lemma min_chunk:
  assumes "k < 64" "k + unat (n :: u32) \<le> 64"
  shows "(if n < 64 - of_nat k then n else 64 - of_nat k) = n"
proof -
  have "unat (of_nat k :: u32) = k" using assms by (simp add: unat_of_nat)
  then have "unat (64 - of_nat k :: u32) = 64 - k" using assms by (simp add: unat_sub_if_size)
  with assms show ?thesis by (auto simp: word_less_nat_alt word_unat_eq_iff)
qed

lemma axmap_set_fn_unfold:
  assumes "o' < length (al_map al)" "k < 64" "k + unat (sd_nr_bits d) \<le> 64"
  shows "axmap_set_fn al o' k d = (
     let m = range_mask k (unat (sd_nr_bits d)); w = al_map al ! o' in
     if w AND m = m then Some (al, d, True)
     else Some (al\<lparr>al_map := (al_map al)[o' := w OR m]\<rparr>,
       \<lparr>sd_nr_bits = 1,
        sd_set_bits = (if al_level al = 0 then sd_nr_bits d - of_nat (popc (w AND m))
                       else sd_set_bits d)\<rparr>,
       w OR m \<noteq> -1))"
proof -
  let ?m = "range_mask k (unat (sd_nr_bits d))" and ?w = "al_map al ! o'"
  have rm: "rd bit_masks (unat (sd_nr_bits d)) = Some (mask (unat (sd_nr_bits d)))"
    using assms by (simp add: rd_def length_bit_masks bit_masks_nth)
  have m': "?m AND NOT (?w AND ?m) \<noteq> 0" if "?w AND ?m \<noteq> ?m"
  proof
    assume z: "?m AND NOT (?w AND ?m) = 0"
    have "?w AND ?m = ?m"
    proof (rule bit_eqI)
      fix i
      from z have "\<not> bit (?m AND NOT (?w AND ?m)) i" by simp
      then show "bit (?w AND ?m) i = bit ?m i"
        by (auto simp: bitwise)
    qed
    with that show False by simp
  qed
  have dj: "?w AND (?m AND NOT (?w AND ?m)) = 0"
    by (intro bit_eqI) (auto simp: bitwise)
  have or: "?w OR (?m AND NOT (?w AND ?m)) = ?w OR ?m"
    by (intro bit_eqI) (auto simp: bitwise)
  show ?thesis
    using assms m' by (simp add: axmap_set_fn_def Let_def min_chunk rm mask_overlap_eq dj or
        range_mask_def [symmetric])
qed

text \<open>At the upper levels one bit is set at a time.\<close>

lemma range_mask_1: "k < 64 \<Longrightarrow> range_mask k (Suc 0) = bitval k"
  by (intro bit_eqI) auto

lemma axmap_set_fn_1:
  assumes "o' < length (al_map al)" "k < 64" "sd_nr_bits d = 1" "al_level al \<noteq> 0"
    "\<not> bit (al_map al ! o') k"
  shows "axmap_set_fn al o' k d =
    Some (al\<lparr>al_map := (al_map al)[o' := al_map al ! o' OR bitval k]\<rparr>, d,
      al_map al ! o' OR bitval k \<noteq> -1)"
proof -
  have "al_map al ! o' AND bitval k \<noteq> bitval k"
    using assms by (auto simp: word_and_eq_iff)
  with assms show ?thesis
    by (simp add: axmap_set_fn_unfold Let_def range_mask_1)
qed

text \<open>
  A word \<open>k\<close> of the level below (\<open>m0\<close>) has just become full: walking up marks it in
  the level above, and goes on as long as words become full.
\<close>

lemma set_upper:
  assumes "levels_wf (Suc i) als" "linked m0 (base_map als)"
    "unat b div 64 ^ Suc i < length m0" "m0 ! (unat b div 64 ^ Suc i) \<noteq> -1" "sd_nr_bits d = 1"
  shows "\<exists>als' d' r. axmap_handler axmap_set_fn b (Suc i) als d = Some (als', d', r)
    \<and> levels_wf (Suc i) als' \<and> linked (m0[unat b div 64 ^ Suc i := -1]) (base_map als')
    \<and> sd_set_bits d' = sd_set_bits d"
  using assms
proof (induction als arbitrary: i m0 d)
  case (Cons al als)
  define j where "j = unat b div 64 ^ Suc i"
  let ?m1 = "al_map al"
  let ?w = "?m1 ! (j div 64) OR bitval (j mod 64)"
  let ?m1' = "?m1[j div 64 := ?w]"
  have lk: "linked m0 ?m1" using Cons.prems(2) by (simp add: base_map_def)
  have j: "j < length m0" "m0 ! j \<noteq> -1" using Cons.prems(3,4) by (simp_all add: j_def)
  have k: "j div 64 < length ?m1" using linkedD(2) [OF lk j(1)] .
  have clear: "\<not> bit (?m1 ! (j div 64)) (j mod 64)"
    using linkedD(1) [OF lk j(1)] j(2) by (simp add: mbit_def)
  have off: "level_offset b (Suc i) = j div 64" "level_bit b (Suc i) = j mod 64"
    by (simp_all add: level_offset_eq level_bit_eq j_def div_mult2_eq [symmetric] mult.commute)
  have ok: "level_ok (Suc i) al" using Cons.prems(1) by (simp add: levels_wf_Cons)
  have fn: "axmap_set_fn al (level_offset b (Suc i)) (level_bit b (Suc i)) d
      = Some (al\<lparr>al_map := ?m1'\<rparr>, d, ?w \<noteq> -1)"
    using ok Cons.prems(5) clear k by (simp add: off axmap_set_fn_1 level_ok_def)
  have lk': "linked (m0[j := -1]) ?m1'" by (rule linked_fill [OF lk j(1)])
  have ok': "level_ok (Suc i) (al\<lparr>al_map := ?m1'\<rparr>)" using ok by (simp add: level_ok_def)
  show ?case
  proof (cases "?w = -1 \<and> als \<noteq> []")
    case False
    have "axmap_handler axmap_set_fn b (Suc i) (al # als) d
        = Some (al\<lparr>al_map := ?m1'\<rparr> # als, d, ?w \<noteq> -1)"
      using False by (auto simp: fn)
    moreover have "levels_wf (Suc i) (al\<lparr>al_map := ?m1'\<rparr> # als)"
      using Cons.prems(1) False ok' k clear
      by (auto simp: levels_wf_Cons bit_minus_1_iff intro!: linked_same)
    ultimately show ?thesis using lk' by (auto simp: base_map_def j_def)
  next
    case True
    have j': "unat b div 64 ^ Suc (Suc i) = j div 64"
      by (simp add: j_def div_mult2_eq [symmetric] mult.commute)
    have "?m1 ! (j div 64) \<noteq> -1" using clear by (auto simp: bit_minus_1_iff)
    then obtain als' d' r where
      "axmap_handler axmap_set_fn b (Suc (Suc i)) als d = Some (als', d', r)"
      "levels_wf (Suc (Suc i)) als'" "linked ?m1' (base_map als')" "sd_set_bits d' = sd_set_bits d"
      using Cons.IH [of "Suc i" ?m1 d] Cons.prems(1,5) True k
      by (auto simp: levels_wf_Cons j' simp del: power_Suc)
    then show ?thesis using True fn lk' ok' levels_wf_nonempty
      by (auto simp: levels_wf_Cons base_map_def j_def)
  qed
qed simp

text \<open>The effect on the set of marked blocks of a change to one word.\<close>

lemma map_bits_update:
  assumes "o' < length m"
  shows "map_bits (m[o' := w])
    = {j \<in> map_bits m. j div 64 \<noteq> o'} \<union> {j. j div 64 = o' \<and> bit w (j mod 64)}"
proof -
  have "j < 64 * length m" if "j div 64 = o'" for j
    using assms that by (metis div_less_iff_less_mult mult.commute zero_less_numeral)
  then show ?thesis using assms
    by (auto simp: map_bits_def mbit_update split: if_splits)
qed

lemma in_map_bits_iff:
  "j div 64 < length m \<Longrightarrow> j \<in> map_bits m \<longleftrightarrow> bit (m ! (j div 64)) (j mod 64)"
  by (simp add: map_bits_def mbit_def div_less_iff_less_mult mult.commute)

lemma chunk_word:
  assumes "(b :: nat) mod 64 + n \<le> 64" "b \<le> j" "j < b + n"
  shows "j div 64 = b div 64" "j mod 64 = b mod 64 + (j - b)"
proof -
  have "j = 64 * (b div 64) + (b mod 64 + (j - b))"
    using assms(2) mult_div_mod_eq [of 64 b] by arith
  moreover have "b mod 64 + (j - b) < 64" using assms by arith
  ultimately show "j div 64 = b div 64" "j mod 64 = b mod 64 + (j - b)"
    by (metis div_mult_self4 div_less add_0_right zero_neq_numeral)
       (metis \<open>b mod 64 + (j - b) < 64\<close> \<open>j = 64 * (b div 64) + (b mod 64 + (j - b))\<close>
         mod_mult_self4 mod_less)
qed

lemma map_bits_or_range:
  assumes "b div 64 < length m" "b mod 64 + n \<le> 64"
  shows "map_bits (m[b div 64 := m ! (b div 64) OR range_mask (b mod 64) n])
    = map_bits m \<union> {b..<b + n}"
proof -
  have "j \<in> map_bits (m[b div 64 := m ! (b div 64) OR range_mask (b mod 64) n])
      \<longleftrightarrow> j \<in> map_bits m \<union> {b..<b + n}" for j
  proof (cases "j div 64 = b div 64")
    case True
    then have "(b mod 64 \<le> j mod 64 \<longleftrightarrow> b \<le> j) \<and> (j mod 64 < b mod 64 + n \<longleftrightarrow> j < b + n)"
      using mult_div_mod_eq [of 64 b] mult_div_mod_eq [of 64 j] by arith
    with True assms show ?thesis
      by (auto simp: map_bits_update bitwise in_map_bits_iff)
  next
    case False
    then have "j \<notin> {b..<b + n}" using chunk_word(1) [OF assms(2)] by auto
    with False assms show ?thesis by (auto simp: map_bits_update)
  qed
  then show ?thesis by blast
qed

lemma range_full_iff:
  assumes "b div 64 < length m" "b mod 64 + n \<le> 64"
  shows "m ! (b div 64) AND range_mask (b mod 64) n = range_mask (b mod 64) n
    \<longleftrightarrow> {b..<b + n} \<subseteq> map_bits m" (is "?l \<longleftrightarrow> ?r")
proof
  assume l: ?l
  show ?r
  proof
    fix j assume "j \<in> {b..<b + n}"
    then have j: "b \<le> j" "j < b + n" by auto
    note c = chunk_word [OF assms(2) j]
    have "bit (range_mask (b mod 64) n) (j mod 64)" using j c(2) by auto
    with l have "bit (m ! (b div 64)) (j mod 64)" by (simp only: word_and_eq_iff)
    then show "j \<in> map_bits m" using assms(1) c(1) by (simp add: in_map_bits_iff)
  qed
next
  assume r: ?r
  show ?l unfolding word_and_eq_iff
  proof (intro allI impI)
    fix i assume "bit (range_mask (b mod 64) n) i"
    then have i: "b mod 64 \<le> i" "i < b mod 64 + n" "i < 64" by auto
    define j where "j = b + (i - b mod 64)"
    have j: "b \<le> j" "j < b + n" using i by (auto simp: j_def)
    with r have "j \<in> map_bits m" by auto
    moreover have "j mod 64 = i" using chunk_word(2) [OF assms(2) j] i by (simp add: j_def)
    ultimately show "bit (m ! (b div 64)) i"
      using chunk_word(1) [OF assms(2) j] assms(1) by (simp add: in_map_bits_iff)
  qed
qed

lemma popc_overlap:
  assumes "b div 64 < length m" "b mod 64 + n \<le> 64"
  shows "popc (m ! (b div 64) AND range_mask (b mod 64) n) = card ({b..<b + n} \<inter> map_bits m)"
proof -
  let ?f = "\<lambda>j. j mod 64 :: nat"
  have "{i. bit (m ! (b div 64) AND range_mask (b mod 64) n) i} = ?f ` ({b..<b + n} \<inter> map_bits m)"
  proof (intro set_eqI iffI)
    fix i assume "i \<in> {i. bit (m ! (b div 64) AND range_mask (b mod 64) n) i}"
    then have i: "bit (m ! (b div 64)) i" "b mod 64 \<le> i" "i < b mod 64 + n" "i < 64"
      by (auto simp: bitwise)
    define j where "j = b + (i - b mod 64)"
    have j: "b \<le> j" "j < b + n" using i by (auto simp: j_def)
    note c = chunk_word [OF assms(2) j]
    have "j mod 64 = i" using c(2) i by (simp add: j_def)
    with j c(1) i(1) assms(1) have "j \<in> {b..<b + n} \<inter> map_bits m" "?f j = i"
      by (auto simp: in_map_bits_iff)
    then show "i \<in> ?f ` ({b..<b + n} \<inter> map_bits m)" by blast
  next
    fix i assume "i \<in> ?f ` ({b..<b + n} \<inter> map_bits m)"
    then obtain j where j: "b \<le> j" "j < b + n" "j \<in> map_bits m" "i = j mod 64" by auto
    note c = chunk_word [OF assms(2) j(1,2)]
    have "bit (m ! (b div 64)) i" using j c assms(1) by (simp add: in_map_bits_iff)
    moreover have "j - b < n" using j(1,2) by simp
    then have "b mod 64 + (j - b) < b mod 64 + n" "b mod 64 + (j - b) < 64"
      using assms(2) by simp_all
    then have "b mod 64 \<le> i \<and> i < b mod 64 + n \<and> i < 64"
      unfolding j(4) c(2) by simp
    ultimately show "i \<in> {i. bit (m ! (b div 64) AND range_mask (b mod 64) n) i}"
      by (simp add: bitwise)
  qed
  moreover have "inj_on ?f ({b..<b + n} \<inter> map_bits m)"
  proof (rule inj_onI)
    fix x y assume x: "x \<in> {b..<b + n} \<inter> map_bits m" and y: "y \<in> {b..<b + n} \<inter> map_bits m"
      and eq: "x mod 64 = y mod 64"
    have "x div 64 = b div 64" by (rule chunk_word(1) [OF assms(2)]) (use x in simp_all)
    moreover have "y div 64 = b div 64" by (rule chunk_word(1) [OF assms(2)]) (use y in simp_all)
    ultimately have "x div 64 = y div 64" by simp
    with eq show "x = y" by (metis div_mult_mod_eq)
  qed
  ultimately show ?thesis by (simp add: popc_def card_image)
qed

text \<open>What one pass over the levels does to a map that is not full in the range.\<close>

lemma set_handler:
  assumes wf: "levels_wf 0 ls" and b: "unat b < 64 * length (base_map ls)"
    and n: "unat b mod 64 + unat (sd_nr_bits d) \<le> 64"
    and R: "R = {unat b..<unat b + unat (sd_nr_bits d)}"
    and nf: "\<not> R \<subseteq> map_bits (base_map ls)"
  obtains ls' d' r where "axmap_handler axmap_set_fn b 0 ls d = Some (ls', d', r)"
    "levels_wf 0 ls'" "length (base_map ls') = length (base_map ls)"
    "map_bits (base_map ls') = map_bits (base_map ls) \<union> R"
    "unat (sd_set_bits d') = card (R - map_bits (base_map ls))"
proof -
  obtain al als where ls: "ls = al # als" using levels_wf_nonempty [OF wf] by (cases ls) auto
  define c where "c = unat b"
  let ?n = "unat (sd_nr_bits d)" and ?m = "al_map al"
  let ?w = "?m ! (c div 64) OR range_mask (c mod 64) ?n"
  let ?m' = "?m[c div 64 := ?w]"
  let ?s = "sd_nr_bits d - of_nat (popc (?m ! (c div 64) AND range_mask (c mod 64) ?n))"
  let ?d' = "\<lparr>sd_nr_bits = 1, sd_set_bits = ?s\<rparr>"
  have base: "base_map ls = ?m" by (simp add: ls base_map_def)
  have o: "c div 64 < length ?m" using b by (simp add: base c_def div_mod_64_less)
  have k: "c mod 64 + ?n \<le> 64" using n by (simp add: c_def)
  have R': "R = {c..<c + ?n}" by (simp add: R c_def)
  have off: "level_offset b 0 = c div 64" "level_bit b 0 = c mod 64"
    by (simp_all add: level_offset_eq level_bit_eq c_def)
  have ok: "level_ok 0 al" using wf by (simp add: ls levels_wf_Cons)
  have "\<not> ?m ! (c div 64) AND range_mask (c mod 64) ?n = range_mask (c mod 64) ?n"
    using range_full_iff [OF o k] nf by (simp add: base R')
  then have fn: "axmap_set_fn al (level_offset b 0) (level_bit b 0) d
      = Some (al\<lparr>al_map := ?m'\<rparr>, ?d', ?w \<noteq> -1)"
    using o k ok by (simp add: off axmap_set_fn_unfold Let_def level_ok_def)
  have bits: "map_bits ?m' = map_bits ?m \<union> R" by (simp add: map_bits_or_range [OF o k] R')
  have "card (R \<inter> map_bits ?m) + card (R - map_bits ?m) = ?n"
    using card_Int_Diff [of R "map_bits ?m"] by (simp add: R')
  then have "popc (?m ! (c div 64) AND range_mask (c mod 64) ?n) \<le> ?n"
    and s: "?n - popc (?m ! (c div 64) AND range_mask (c mod 64) ?n) = card (R - map_bits ?m)"
    by (simp_all add: popc_overlap [OF o k] R' [symmetric])
  then have set: "unat ?s = card (R - map_bits ?m)"
    using k by (simp add: unat_sub_if_size unat_of_nat)
  have ok': "level_ok 0 (al\<lparr>al_map := ?m'\<rparr>)" using ok by (simp add: level_ok_def)
  have old: "?m ! (c div 64) \<noteq> -1"
  proof
    assume "?m ! (c div 64) = -1"
    then have "?m ! (c div 64) AND range_mask (c mod 64) ?n = range_mask (c mod 64) ?n" by simp
    with range_full_iff [OF o k] nf show False by (simp add: base R')
  qed
  show ?thesis
  proof (cases "?w = -1 \<and> als \<noteq> []")
    case False
    have "axmap_handler axmap_set_fn b 0 ls d = Some (al\<lparr>al_map := ?m'\<rparr> # als, ?d', ?w \<noteq> -1)"
      using False by (auto simp: ls fn)
    moreover have "levels_wf 0 (al\<lparr>al_map := ?m'\<rparr> # als)"
      using wf False ok' o old by (auto simp: ls levels_wf_Cons intro!: linked_same)
    ultimately show ?thesis
      by (rule that) (simp_all add: base_map_def ls bits set)
  next
    case True
    have "unat b div 64 ^ Suc 0 = c div 64" by (simp add: c_def)
    then obtain als' d' r where up:
      "axmap_handler axmap_set_fn b (Suc 0) als ?d' = Some (als', d', r)"
      "levels_wf (Suc 0) als'" "linked (?m[c div 64 := -1]) (base_map als')"
      "sd_set_bits d' = ?s"
      using set_upper [of 0 als ?m b ?d'] wf True o old
      by (auto simp: ls levels_wf_Cons)
    have "axmap_handler axmap_set_fn b 0 ls d = Some (al\<lparr>al_map := ?m'\<rparr> # als', d', r)"
      using True up(1) by (simp add: ls fn)
    moreover have "levels_wf 0 (al\<lparr>al_map := ?m'\<rparr> # als')"
      using up(2,3) True ok' levels_wf_nonempty [OF up(2)] by (simp add: levels_wf_Cons)
    ultimately show ?thesis
      by (rule that) (simp_all add: base_map_def ls bits set up(4))
  qed
qed

lemma set_handler_full:
  assumes wf: "levels_wf 0 ls" and b: "unat b < 64 * length (base_map ls)"
    and n: "unat b mod 64 + unat (sd_nr_bits d) \<le> 64"
    and full: "{unat b..<unat b + unat (sd_nr_bits d)} \<subseteq> map_bits (base_map ls)"
  shows "axmap_handler axmap_set_fn b 0 ls d = Some (ls, d, True)"
proof -
  obtain al als where ls: "ls = al # als" using levels_wf_nonempty [OF wf] by (cases ls) auto
  have o: "unat b div 64 < length (al_map al)"
    using b by (simp add: ls base_map_def div_mod_64_less)
  have "al_map al ! (unat b div 64) AND range_mask (unat b mod 64) (unat (sd_nr_bits d))
      = range_mask (unat b mod 64) (unat (sd_nr_bits d))"
    using range_full_iff [OF o n] full by (simp add: ls base_map_def)
  then show ?thesis
    using o n by (simp add: ls level_offset_eq level_bit_eq axmap_set_fn_unfold Let_def)
qed

text \<open>
  What \<open>__axmap_set\<close> reports for a range of \<open>n\<close> bits, \<open>s\<close> of them clear:
  \<open>s\<close>, but twice \<open>s\<close> when \<open>s\<close> happens to be \<open>64 - n\<close> and the loop runs a
  second time.
\<close>

definition set_report :: "nat \<Rightarrow> nat \<Rightarrow> nat" where
  "set_report n s = (if 0 < s \<and> n < 64 \<and> n \<noteq> 32 \<and> s = 64 - n then 2 * s else s)"

lemma set_report_full: "n \<le> 64 \<Longrightarrow> set_report n n = n"
  by (auto simp: set_report_def)

lemma set_report_eq_iff: "s \<le> n \<Longrightarrow> set_report n s = n \<longleftrightarrow> s = n"
  unfolding set_report_def by presburger

lemma set_loop_correct:
  assumes wf: "levels_wf 0 ls" and b: "unat b < 64 * length (base_map ls)"
    and n: "unat b mod 64 + unat nr \<le> 64" "0 < unat nr"
    and R: "R = {unat b..<unat b + unat nr}"
    and max: "unat b + 64 < 2 ^ 64"
    and d: "d = \<lparr>sd_nr_bits = nr, sd_set_bits = 0\<rparr>"
  obtains ls' d' where "set_loop b nr 0 d ls = Some (ls', d')" "levels_wf 0 ls'"
    "length (base_map ls') = length (base_map ls)"
    "map_bits (base_map ls') = map_bits (base_map ls) \<union> R"
    "unat (sd_set_bits d') = set_report (unat nr) (card (R - map_bits (base_map ls)))"
proof -
  have nr: "nr \<noteq> 0" using n(2) by auto
  let ?B = "map_bits (base_map ls)"
  show ?thesis
  proof (cases "R \<subseteq> ?B")
    case True
    then have "axmap_handler axmap_set_fn b 0 ls d = Some (ls, d, True)"
      using set_handler_full [OF wf b] n R by (auto simp: d)
    moreover have "card (R - ?B) = 0" using True by (simp only: Diff_eq_empty_iff [THEN iffD2] card.empty)
    moreover from calculation have "set_loop b nr 0 d ls = Some (ls, d)"
      using nr by (simp add: set_loop.simps [of b nr] set_loop_again_def d)
    ultimately show ?thesis
      by (intro that [of ls d]) (use wf True in \<open>auto simp: d set_report_def\<close>)
  next
    case False
    obtain ls1 d1 r where h: "axmap_handler axmap_set_fn b 0 ls d = Some (ls1, d1, r)"
      and ls1: "levels_wf 0 ls1" "length (base_map ls1) = length (base_map ls)"
      and bits: "map_bits (base_map ls1) = ?B \<union> R"
      and s: "unat (sd_set_bits d1) = card (R - ?B)"
      using set_handler [OF wf b, of d R] n R False by (auto simp: d)
    let ?s = "sd_set_bits d1"
    have pos: "0 < unat ?s" using False s R by (simp add: card_gt_0_iff)
    have le: "unat ?s \<le> unat nr"
      using s card_mono [of R "R - ?B"] R by simp
    show ?thesis
    proof (cases "set_loop_again ?s nr")
      case again: False
      then have "set_loop b nr 0 d ls = Some (ls1, d1\<lparr>sd_set_bits := 0 + ?s\<rparr>)"
        using nr h by (simp add: set_loop.simps [of b nr])
      then show ?thesis
        by (rule that)
          (use ls1 bits s pos again in \<open>auto simp: set_report_def set_loop_again_iff\<close>)
    next
      case again: True
      then have a: "unat nr < 64" "unat ?s = 64 - unat nr" by (simp_all add: set_loop_again_iff)
      let ?nr = "nr - ?s" and ?b = "b + ucast ?s"
      let ?d = "d1\<lparr>sd_nr_bits := ?nr\<rparr>"
      have unr: "unat ?nr = unat nr - unat ?s" using le by (simp add: unat_sub_if_size)
      have first: "set_loop b nr 0 d ls = set_loop ?b ?nr ?s ?d ls1"
        using nr h again by (simp add: set_loop.simps [of b nr])
      show ?thesis
      proof (cases "unat nr = 32")
        case True
        with a unr have "?nr = 0" by (simp add: unat_eq_zero)
        then have "set_loop b nr 0 d ls = Some (ls1, ?d\<lparr>sd_set_bits := ?s\<rparr>)"
          unfolding first by (simp only: set_loop.simps [of _ 0]) simp
        then show ?thesis
          by (rule that) (use ls1 bits s True in \<open>simp_all add: set_report_def\<close>)
      next
        case n32: False
        have nz: "?nr \<noteq> 0" using a unr n32 le by (auto simp: unat_eq_zero)
        have ub: "unat ?b = unat b + unat ?s"
          using max le a by (simp add: unat_word_ariths unat_ucast_64)
        have m: "unat ?b mod 64 + unat ?nr \<le> 64"
        proof -
          have "0 < unat ?nr" using nz by (metis unat_eq_zero neq0_conv)
          then have "unat b mod 64 + unat ?s < 64" using n(1) unr by linarith
          moreover have "unat ?s < unat nr" using \<open>0 < unat ?nr\<close> unr by simp
          ultimately have "unat ?b mod 64 = unat b mod 64 + unat ?s"
            using chunk_word(2) [of "unat b" "unat nr" "unat b + unat ?s"] n(1) by (simp add: ub)
          then show ?thesis using n(1) unr le by simp
        qed
        have "{unat ?b..<unat ?b + unat ?nr} \<subseteq> map_bits (base_map ls1)"
          using ub unr le by (auto simp: bits R)
        moreover from this have "unat ?b < 64 * length (base_map ls1)"
          using nz unat_gt_0 [of ?nr] by (force simp: map_bits_def)
        ultimately have "axmap_handler axmap_set_fn ?b 0 ls1 ?d = Some (ls1, ?d, True)"
          using m by (intro set_handler_full [OF ls1(1)]) simp_all
        moreover have "\<not> set_loop_again ?s ?nr"
          using a unr le pos unfolding set_loop_again_iff by arith
        ultimately have "set_loop b nr 0 d ls = Some (ls1, ?d\<lparr>sd_set_bits := ?s + ?s\<rparr>)"
          using nz by (simp add: first set_loop.simps [of ?b ?nr])
        moreover have "unat (?s + ?s) = 2 * unat ?s"
          using a by (simp add: unat_word_ariths)
        ultimately show ?thesis
          by (intro that [of ls1 "?d\<lparr>sd_set_bits := ?s + ?s\<rparr>"])
            (use ls1 bits s a n32 pos in \<open>simp_all add: set_report_def\<close>)
      qed
    qed
  qed
qed

lemma axmap_set0_correct:
  assumes wf: "axmap_wf a" and n: "unat b mod 64 + unat nr \<le> 64" "0 < unat nr"
    and le: "unat b + unat nr \<le> unat (nr_bits a)"
    and R: "R = {unat b..<unat b + unat nr}"
  obtains a' d' where "axmap_set0 a b \<lparr>sd_nr_bits = nr, sd_set_bits = 0\<rparr> = Some (a', d')"
    "axmap_wf a'" "nr_bits a' = nr_bits a" "axmap_bits a' = axmap_bits a \<union> R"
    "unat (sd_set_bits d') = set_report (unat nr) (card (R - axmap_bits a))"
proof -
  have lv: "levels_wf 0 (levels a)" and len: "length (base_map (levels a)) = (unat (nr_bits a) + 63) div 64"
    using axmap_wfD [OF wf] by simp_all
  have bd: "unat (nr_bits a) < 2 ^ 63" and hint: "free_hint_ok (first_free a) (nr_bits a) (axmap_bits a)"
    using wf by (simp_all add: axmap_wf_def)
  have b: "unat b < 64 * length (base_map (levels a))"
    using axmap_wfD(3) [OF wf, of b] le n(2) by simp
  obtain ls' d' where L: "set_loop b nr 0 \<lparr>sd_nr_bits = nr, sd_set_bits = 0\<rparr> (levels a) = Some (ls', d')"
    "levels_wf 0 ls'" "length (base_map ls') = length (base_map (levels a))"
    "map_bits (base_map ls') = map_bits (base_map (levels a)) \<union> R"
    "unat (sd_set_bits d') = set_report (unat nr) (card (R - map_bits (base_map (levels a))))"
    using set_loop_correct [OF lv b n R _ refl] bd le by auto
  let ?c = "b \<le> first_free a \<and> first_free a < b + ucast nr"
  let ?a = "(if ?c then a\<lparr>first_free := -1\<rparr> else a)\<lparr>levels := ls'\<rparr>"
  have ub: "unat (b + ucast nr) = unat b + unat nr"
    using le bd by (simp add: unat_word_ariths unat_ucast_64)
  have c: "?c \<longleftrightarrow> unat (first_free a) \<in> R"
    by (simp add: word_le_nat_alt word_less_nat_alt ub R)
  have "\<not> nr_bits a < b" "\<not> nr_bits a < b + ucast nr"
    using le by (simp_all add: word_less_nat_alt ub)
  then have "axmap_set0 a b \<lparr>sd_nr_bits = nr, sd_set_bits = 0\<rparr> = Some (?a, d')"
    by (simp add: axmap_set0_def Let_def L(1))
  moreover have bits: "axmap_bits ?a = axmap_bits a \<union> R"
    by (simp add: axmap_bits_def L(4))
  moreover have "free_hint_ok (first_free ?a) (nr_bits a) (axmap_bits ?a)"
    using hint c unfolding bits by (auto simp: free_hint_ok_def)
  then have "axmap_wf ?a"
    using L(2,3) len bd by (auto simp: axmap_wf_def axmap_bits_def)
  ultimately show ?thesis
    by (intro that [of ?a d']) (simp_all add: L(5) axmap_bits_def)
qed

lemma set_refines:
  assumes "axmap_wf a" "b < nr_bits a"
  obtains a' where "axmap_set a b = Some a'" "axmap_wf a'" "nr_bits a' = nr_bits a"
    "axmap_bits a' = insert (unat b) (axmap_bits a)"
proof -
  have b: "unat b < unat (nr_bits a)" using assms(2) by (simp add: word_less_nat_alt)
  show ?thesis
  proof (rule axmap_set0_correct [OF assms(1), of b 1, OF _ _ _ refl])
    fix a' d'
    assume "axmap_set0 a b \<lparr>sd_nr_bits = 1, sd_set_bits = 0\<rparr> = Some (a', d')"
      and a': "axmap_wf a'" "nr_bits a' = nr_bits a"
        "axmap_bits a' = axmap_bits a \<union> {unat b..<unat b + unat (1 :: u32)}"
    then have "axmap_set a b = Some a'" by (simp add: axmap_set_def)
    then show ?thesis by (rule that) (use a' in simp_all)
  qed (use b in \<open>simp_all add: Suc_leI\<close>)
qed

text \<open>
  \<open>axmap_set_nr\<close>: the blocks marked are a prefix of the range; when no block of the range
  was marked before, the whole range is marked and its length reported.
\<close>

lemma set_nr_loop_correct:
  assumes "axmap_wf a" "0 < unat nr" "unat b + unat nr \<le> unat (nr_bits a)"
  shows "\<exists>a' r k. axmap_set_nr_loop a b nr acc = Some (a', r) \<and> axmap_wf a'
    \<and> nr_bits a' = nr_bits a \<and> 0 < k \<and> k \<le> unat nr
    \<and> axmap_bits a' = axmap_bits a \<union> {unat b..<unat b + k}
    \<and> ({unat b..<unat b + unat nr} \<inter> axmap_bits a = {} \<longrightarrow> k = unat nr \<and> r = acc + nr)"
  using assms
proof (induction a b nr acc rule: axmap_set_nr_loop.induct)
  case (1 a b nr acc)
  define n where "n = set_nr_chunk b nr"
  have un: "unat n = min (64 - unat b mod 64) (unat nr)" by (simp add: n_def unat_set_nr_chunk)
  define x where "x = unat b mod 64"
  have "x < 64" "unat n = min (64 - x) (unat nr)" by (simp_all add: x_def un)
  then have "x + unat n \<le> 64" "0 < unat n" "unat n \<le> unat nr"
    using "1.prems"(2) by auto
  then have n: "unat b mod 64 + unat n \<le> 64" "0 < unat n" "unat n \<le> unat nr"
    by (simp_all add: x_def)
  let ?R = "{unat b..<unat b + unat n}"
  have le: "unat b + unat n \<le> unat (nr_bits a)" using "1.prems"(3) n(3) by simp
  obtain a1 d1 where s0: "axmap_set0 a b \<lparr>sd_nr_bits = n, sd_set_bits = 0\<rparr> = Some (a1, d1)"
    and a1: "axmap_wf a1" "nr_bits a1 = nr_bits a" "axmap_bits a1 = axmap_bits a \<union> ?R"
    and s: "unat (sd_set_bits d1) = set_report (unat n) (card (?R - axmap_bits a))"
    using axmap_set0_correct [OF "1.prems"(1) n(1,2) le refl] by auto
  have cle: "card (?R - axmap_bits a) \<le> unat n"
    using card_mono [of ?R "?R - axmap_bits a"] by simp
  have full: "sd_set_bits d1 = n \<longleftrightarrow> card (?R - axmap_bits a) = unat n"
    using s set_report_eq_iff [OF cle] by (simp add: word_unat_eq_iff)
  have disj: "sd_set_bits d1 = n" if "{unat b..<unat b + unat nr} \<inter> axmap_bits a = {}"
  proof -
    from that n(3) have "?R - axmap_bits a = ?R" by force
    then show ?thesis by (simp add: full)
  qed
  note st = axmap_set_nr_loop.simps [of a b nr acc, unfolded n_def [symmetric] Let_def s0]
  have unr: "unat (nr - n) = unat nr - unat n" using n(3) by (simp add: unat_sub_if_size)
  consider "sd_set_bits d1 \<noteq> n" | "sd_set_bits d1 = n" "nr - n = 0"
    | "sd_set_bits d1 = n" "nr - n \<noteq> 0" by blast
  then show ?case
  proof cases
    case c: 1
    then show ?thesis using st a1 n disj by auto
  next
    case c: 2
    then have "nr = n" by simp
    then show ?thesis using c st a1 n by auto
  next
    case c: 3
    then have pos: "0 < unat (nr - n)" by (simp add: unat_gt_0)
    have ub: "unat (b + ucast n) = unat b + unat n"
      using le "1.prems"(1) by (simp add: axmap_wf_def unat_word_ariths unat_ucast_64)
    have "unat (b + ucast n) + unat (nr - n) \<le> unat (nr_bits a1)"
      using "1.prems"(3) n(3) by (simp add: ub unr a1)
    note IH = "1.IH" [OF n_def s0 refl _ c(2) a1(1) pos this]
    obtain a' r k where a':
      "axmap_set_nr_loop a1 (b + ucast n) (nr - n) (acc + n) = Some (a', r)" "axmap_wf a'"
      "nr_bits a' = nr_bits a" "0 < k" "k \<le> unat nr - unat n"
      "axmap_bits a' = axmap_bits a1 \<union> {unat b + unat n..<unat b + unat n + k}"
      "{unat b + unat n..<unat b + unat nr} \<inter> axmap_bits a1 = {}
         \<longrightarrow> k = unat nr - unat n \<and> r = acc + n + (nr - n)"
      using IH c(1) n(3) by (auto simp: ub unr a1)
    have "axmap_bits a' = axmap_bits a \<union> {unat b..<unat b + (unat n + k)}"
      unfolding a'(6) a1(3) by auto
    moreover have "axmap_set_nr_loop a b nr acc = Some (a', r)"
      using c st a'(1) by simp
    moreover have "unat n + k = unat nr \<and> r = acc + nr"
      if "{unat b..<unat b + unat nr} \<inter> axmap_bits a = {}"
    proof -
      have "{unat b + unat n..<unat b + unat nr} \<inter> axmap_bits a1 = {}"
        using that unfolding a1(3) by (fastforce simp: disjoint_iff)
      then show ?thesis using a'(7) n(3) by simp
    qed
    ultimately show ?thesis
      using a'(2-5) n by (intro exI [of _ a'] exI [of _ r] exI [of _ "unat n + k"]) simp
  qed
qed

section \<open>Clearing\<close>

lemma axmap_clear_fn_eq:
  assumes "o' < length (al_map al)" "k < 64"
  shows "axmap_clear_fn al o' k u = (
    if bit (al_map al ! o') k
    then Some (al\<lparr>al_map := (al_map al)[o' := al_map al ! o' AND NOT (bitval k)]\<rparr>, u, False)
    else Some (al, u, True))"
  using assms by (simp add: axmap_clear_fn_def and_bitval_eq_0_iff)

lemma clear_upper:
  assumes "levels_wf (Suc i) als" "linked m0 (base_map als)"
    "unat b div 64 ^ Suc i < length m0" "w \<noteq> -1"
  shows "\<exists>als' r. axmap_handler axmap_clear_fn b (Suc i) als () = Some (als', (), r)
    \<and> levels_wf (Suc i) als' \<and> linked (m0[unat b div 64 ^ Suc i := w]) (base_map als')"
  using assms
proof (induction als arbitrary: i m0 w)
  case (Cons al als)
  define j where "j = unat b div 64 ^ Suc i"
  let ?m1 = "al_map al"
  let ?w = "?m1 ! (j div 64) AND NOT (bitval (j mod 64))"
  let ?m1' = "?m1[j div 64 := ?w]"
  have lk: "linked m0 ?m1" using Cons.prems(2) by (simp add: base_map_def)
  have j: "j < length m0" using Cons.prems(3) by (simp add: j_def)
  have k: "j div 64 < length ?m1" using linkedD(2) [OF lk j] .
  have off: "level_offset b (Suc i) = j div 64" "level_bit b (Suc i) = j mod 64"
    by (simp_all add: level_offset_eq level_bit_eq j_def div_mult2_eq [symmetric] mult.commute)
  have ok: "level_ok (Suc i) al" using Cons.prems(1) by (simp add: levels_wf_Cons)
  note fn = axmap_clear_fn_eq [of "j div 64" al "j mod 64" "()", OF k]
  show ?case
  proof (cases "m0 ! j = -1")
    case False
    then have "\<not> bit (?m1 ! (j div 64)) (j mod 64)"
      using linkedD(1) [OF lk j] by (simp add: mbit_def)
    then have "axmap_handler axmap_clear_fn b (Suc i) (al # als) () = Some (al # als, (), True)"
      by (simp add: off fn)
    moreover have "linked (m0[j := w]) (base_map (al # als))"
      using lk j False Cons.prems(4) by (simp add: base_map_def linked_same)
    ultimately show ?thesis using Cons.prems(1) by (auto simp: j_def)
  next
    case True
    then have set: "bit (?m1 ! (j div 64)) (j mod 64)"
      using linkedD(1) [OF lk j] by (simp add: mbit_def)
    have lk': "linked (m0[j := w]) ?m1'" by (rule linked_unfill [OF lk j Cons.prems(4)])
    have ok': "level_ok (Suc i) (al\<lparr>al_map := ?m1'\<rparr>)" using ok by (simp add: level_ok_def)
    have "\<not> bit ?w (j mod 64)" by (simp add: bitwise)
    then have w: "?w \<noteq> -1" by (rule not_bit_neq_minus_1) simp
    have h: "axmap_clear_fn al (level_offset b (Suc i)) (level_bit b (Suc i)) ()
        = Some (al\<lparr>al_map := ?m1'\<rparr>, (), False)"
      using set by (simp add: off fn)
    show ?thesis
    proof (cases "als = []")
      case True
      then show ?thesis unfolding j_def [symmetric] using lk' ok' Cons.prems(1)
        by (auto simp: h levels_wf_Cons base_map_def)
    next
      case False
      have j': "unat b div 64 ^ Suc (Suc i) = j div 64"
        by (simp add: j_def div_mult2_eq [symmetric] mult.commute)
      obtain als' r where
        "axmap_handler axmap_clear_fn b (Suc (Suc i)) als () = Some (als', (), r)"
        "levels_wf (Suc (Suc i)) als'" "linked ?m1' (base_map als')"
        using Cons.IH [of "Suc i" ?m1 ?w] Cons.prems(1) False k w
        by (auto simp: levels_wf_Cons j' simp del: power_Suc)
      then show ?thesis unfolding j_def [symmetric] using lk' ok' levels_wf_nonempty
        by (auto simp: h levels_wf_Cons base_map_def)
    qed
  qed
qed simp

lemma clear_levels:
  assumes wf: "levels_wf 0 ls" and b: "unat b < 64 * length (base_map ls)"
  obtains ls' r where "axmap_handler axmap_clear_fn b 0 ls () = Some (ls', (), r)"
    "levels_wf 0 ls'" "length (base_map ls') = length (base_map ls)"
    "map_bits (base_map ls') = map_bits (base_map ls) - {unat b}"
proof -
  obtain al als where ls: "ls = al # als" using levels_wf_nonempty [OF wf] by (cases ls) auto
  define c where "c = unat b"
  let ?m = "al_map al"
  let ?w = "?m ! (c div 64) AND NOT (bitval (c mod 64))"
  let ?m' = "?m[c div 64 := ?w]"
  have base: "base_map ls = ?m" by (simp add: ls base_map_def)
  have o: "c div 64 < length ?m" using b by (simp add: base c_def div_mod_64_less)
  have off: "level_offset b 0 = c div 64" "level_bit b 0 = c mod 64"
    by (simp_all add: level_offset_eq level_bit_eq c_def)
  have ok: "level_ok 0 al" using wf by (simp add: ls levels_wf_Cons)
  note fn = axmap_clear_fn_eq [of "c div 64" al "c mod 64" "()", OF o]
  show ?thesis
  proof (cases "bit (?m ! (c div 64)) (c mod 64)")
    case False
    then have "axmap_handler axmap_clear_fn b 0 ls () = Some (ls, (), True)"
      by (simp add: ls off fn)
    moreover have "c \<notin> map_bits ?m" using False o by (simp add: in_map_bits_iff)
    ultimately show ?thesis
      by (intro that [of ls True]) (use wf in \<open>auto simp: base c_def [symmetric]\<close>)
  next
    case True
    then have h: "axmap_clear_fn al (level_offset b 0) (level_bit b 0) ()
        = Some (al\<lparr>al_map := ?m'\<rparr>, (), False)"
      by (simp add: off fn)
    have ok': "level_ok 0 (al\<lparr>al_map := ?m'\<rparr>)" using ok by (simp add: level_ok_def)
    have bits: "map_bits ?m' = map_bits ?m - {c}"
    proof (rule set_eqI)
      fix j
      have jc: "j = c \<longleftrightarrow> j div 64 = c div 64 \<and> j mod 64 = c mod 64"
        by (rule div_mod_64_eq_iff [symmetric])
      show "j \<in> map_bits ?m' \<longleftrightarrow> j \<in> map_bits ?m - {c}"
      proof (cases "j div 64 = c div 64")
        case True
        then show ?thesis using o jc
          by (simp add: map_bits_update bitwise in_map_bits_iff)
      next
        case False
        then show ?thesis using o jc by (auto simp: map_bits_update)
      qed
    qed
    have w: "?w \<noteq> -1" by (rule not_bit_neq_minus_1 [of _ "c mod 64"]) (simp_all add: bitwise)
    show ?thesis
    proof (cases "als = []")
      case True
      then have "axmap_handler axmap_clear_fn b 0 ls () = Some ([al\<lparr>al_map := ?m'\<rparr>], (), False)"
        by (simp add: ls h)
      then show ?thesis
        by (rule that) (use True wf ok' in \<open>simp_all add: ls base_map_def bits flip: c_def\<close>)
    next
      case False
      have "unat b div 64 ^ Suc 0 = c div 64" by (simp add: c_def)
      then obtain als' r where up: "axmap_handler axmap_clear_fn b (Suc 0) als () = Some (als', (), r)"
        "levels_wf (Suc 0) als'" "linked ?m' (base_map als')"
        using clear_upper [of 0 als ?m b ?w] wf False o w by (auto simp: ls levels_wf_Cons)
      have "axmap_handler axmap_clear_fn b 0 ls () = Some (al\<lparr>al_map := ?m'\<rparr> # als', (), r)"
        by (simp add: ls h up(1))
      then show ?thesis
        by (rule that)
          (use up(2,3) ok' levels_wf_nonempty [OF up(2)]
            in \<open>simp_all add: ls levels_wf_Cons base_map_def bits flip: c_def\<close>)
    qed
  qed
qed

lemma clear_refines:
  assumes wf: "axmap_wf a" and b: "b < nr_bits a"
  obtains a' where "axmap_clear a b = Some a'" "axmap_wf a'" "nr_bits a' = nr_bits a"
    "axmap_bits a' = axmap_bits a - {unat b}"
proof -
  have "unat b < 64 * length (base_map (levels a))"
    using axmap_wfD(3) [OF wf] b by (simp add: word_less_nat_alt)
  then obtain ls' r where c: "axmap_handler axmap_clear_fn b 0 (levels a) () = Some (ls', (), r)"
    "levels_wf 0 ls'" "length (base_map ls') = length (base_map (levels a))"
    "map_bits (base_map ls') = map_bits (base_map (levels a)) - {unat b}"
    using clear_levels [OF axmap_wfD(1) [OF wf]] by blast
  have "axmap_clear a b = Some (a\<lparr>levels := ls'\<rparr>)" by (simp add: axmap_clear_def c(1))
  then show ?thesis
    by (rule that) (use wf c(2-4) in \<open>auto simp: axmap_wf_def axmap_bits_def free_hint_ok_def\<close>)
qed

section \<open>Searching for a free block\<close>

lemma scan_map_full:
  "j + n \<le> length m \<Longrightarrow> (\<forall>k. j \<le> k \<and> k < j + n \<longrightarrow> m ! k = -1) \<Longrightarrow> scan_map m j n = Some None"
  by (induction m j n rule: scan_map.induct) auto

lemma scan_map_hit: "j < length m \<Longrightarrow> m ! j \<noteq> -1 \<Longrightarrow> 0 < n \<Longrightarrow> scan_map m j n = Some (Some (j, m ! j))"
  by (cases n) auto

text \<open>All words of a level are full: so are all words of the levels below.\<close>

definition all_full :: "u64 list \<Rightarrow> bool" where
  "all_full m \<longleftrightarrow> (\<forall>k < length m. m ! k = -1)"

lemma all_full_down:
  assumes "linked m0 m1" "all_full m1"
  shows "all_full m0"
  unfolding all_full_def
proof (intro allI impI)
  fix k assume k: "k < length m0"
  then have "k div 64 < length m1" using linkedD(2) [OF assms(1)] by simp
  with assms(2) have "mbit m1 k" by (simp add: all_full_def mbit_def bit_minus_1_iff)
  with k show "m0 ! k = -1" using linkedD(1) [OF assms(1)] by simp
qed

lemma all_full_base:
  assumes "levels_wf 0 ls" "i < length ls" "all_full (al_map (ls ! i))"
  shows "j \<le> i \<Longrightarrow> all_full (al_map (ls ! (i - j)))"
proof (induction j)
  case (Suc j)
  then have "linked (al_map (ls ! (i - Suc j))) (al_map (ls ! (i - j)))"
    using levels_wf_linked [OF assms(1), of "i - Suc j"] assms(2) by (simp add: Suc_diff_Suc)
  with Suc show ?case by (auto intro: all_full_down)
qed (use assms in simp)

lemma all_full_bits: "all_full m \<Longrightarrow> map_bits m = {..<64 * length m}"
  by (auto simp: all_full_def map_bits_def mbit_def bit_minus_1_iff div_mod_64_less)

lemma level_length_le:
  assumes "levels_wf 0 ls" "i < length ls"
  shows "length (al_map (ls ! i)) \<le> length (base_map ls)"
  using assms(2)
proof (induction i)
  case 0
  then show ?case by (simp add: base_map_def hd_conv_nth)
next
  case (Suc i)
  have "length (al_map (ls ! Suc i)) = (length (al_map (ls ! i)) + 63) div 64"
    using levels_wf_linked [OF assms(1) Suc.prems] by (simp add: linked_def)
  also have "\<dots> \<le> length (al_map (ls ! i))" by simp
  finally show ?case using Suc by simp
qed

text \<open>
  The state of the search before level \<open>i - 1\<close>: the word \<open>index\<close> of that level is not
  full, or past its end, and every word before it is full.
\<close>

definition search_at :: "axmap_level list \<Rightarrow> nat \<Rightarrow> u64 \<Rightarrow> bool" where
  "search_at ls i index \<longleftrightarrow>
     (unat index < length (al_map (ls ! i)) \<longrightarrow> al_map (ls ! i) ! unat index \<noteq> -1)"

definition prefix_full :: "axmap_level list \<Rightarrow> nat \<Rightarrow> u64 \<Rightarrow> bool" where
  "prefix_full ls i index \<longleftrightarrow>
     (\<forall>k < length (al_map (ls ! i)). k < unat index \<longrightarrow> al_map (ls ! i) ! k = -1)"

lemma find_free_step:
  assumes wf: "levels_wf 0 ls" and i: "i < length ls"
    and small: "64 * length (base_map ls) < 2 ^ 64"
    and at: "search_at ls i index" and lt: "unat index < length (al_map (ls ! i))"
  obtains r where
    "find_free_loop ls (Suc i) index ret = find_free_loop ls i r r"
    "unat r = 64 * unat index + ffz (al_map (ls ! i) ! unat index)"
    "unat r < 64 * length (al_map (ls ! i))" "\<not> mbit (al_map (ls ! i)) (unat r)"
    "prefix_full ls i index \<Longrightarrow> \<forall>k < unat r. mbit (al_map (ls ! i)) k"
proof -
  let ?m = "al_map (ls ! i)"
  let ?w = "?m ! unat index"
  define r :: u64 where "r = push_bit 6 (of_nat (unat index)) + of_nat (ffz ?w)"
  have ms: "unat (map_size (ls ! i)) = length ?m" by (rule levels_wf_map_size [OF wf i])
  have w: "?w \<noteq> -1" using at lt by (simp add: search_at_def)
  note z = ffz_correct [OF w]
  have "64 * length ?m < 2 ^ 64" using level_length_le [OF wf i] small by simp
  then have bound: "64 * unat index + ffz ?w < 2 ^ 64" using lt z(2) by simp
  have r64: "r = of_nat (64 * unat index + ffz ?w)"
    by (simp add: r_def push_bit_eq_mult mult.commute)
  have ur: "unat r = 64 * unat index + ffz ?w"
    unfolding r64 using bound by (simp only: unat_of_nat) simp
  have scan: "scan_map ?m (unat index) (unat (map_size (ls ! i)) - unat index)
      = Some (Some (unat index, ?w))"
    using lt w by (simp add: ms scan_map_hit)
  have "\<not> map_size (ls ! i) \<le> index" using lt by (simp add: word_le_nat_alt ms)
  then have "find_free_loop ls (Suc i) index ret = find_free_loop ls i r r"
    using i scan by (simp add: Let_def r_def)
  moreover have "unat r < 64 * length ?m" using ur lt z(2) by simp
  moreover have d: "unat r div 64 = unat index" "unat r mod 64 = ffz ?w"
    using ur z(2) by simp_all
  then have "\<not> mbit ?m (unat r)" using z(1) by (simp add: mbit_def)
  moreover have "mbit ?m k" if p: "prefix_full ls i index" and k: "k < unat r" for k
  proof (cases "k div 64 < unat index")
    case True
    then have "?m ! (k div 64) = -1" using p lt by (simp add: prefix_full_def)
    then show ?thesis by (simp add: mbit_def bit_minus_1_iff)
  next
    case False
    with k ur z(2) have "k div 64 = unat index" "k mod 64 < ffz ?w"
      using mult_div_mod_eq [of 64 k] by linarith+
    then show ?thesis using z(3) by (simp add: mbit_def)
  qed
  ultimately show ?thesis using that ur by blast
qed

lemma find_free_loop_correct:
  assumes wf: "levels_wf 0 ls" and small: "64 * length (base_map ls) < 2 ^ 64"
  shows "i < length ls \<Longrightarrow> search_at ls i index \<Longrightarrow>
    \<exists>r. find_free_loop ls (Suc i) index ret = Some r
      \<and> (r = -1 \<or> unat r < 64 * length (base_map ls) \<and> unat r \<notin> map_bits (base_map ls))
      \<and> (prefix_full ls i index \<longrightarrow>
           (if r = -1 then all_full (base_map ls) else \<forall>k < unat r. k \<in> map_bits (base_map ls)))"
proof (induction i arbitrary: index ret)
  case (0 index ret)
  then have base: "al_map (ls ! 0) = base_map ls" by (simp add: base_map_def hd_conv_nth)
  show ?case
  proof (cases "unat index < length (base_map ls)")
    case True
    then obtain r where r: "find_free_loop ls (Suc 0) index ret = find_free_loop ls 0 r r"
      "unat r < 64 * length (base_map ls)" "\<not> mbit (base_map ls) (unat r)"
      "prefix_full ls 0 index \<Longrightarrow> \<forall>k < unat r. mbit (base_map ls) k"
      using find_free_step [OF wf 0(1) small 0(2)] by (metis base)
    moreover have "r \<noteq> -1"
    proof
      assume "r = -1"
      then have "unat r = 2 ^ 64 - 1" by (simp only: unat_minus_1_64)
      with r(2) small show False by simp
    qed
    ultimately show ?thesis by (auto simp: map_bits_def)
  next
    case False
    moreover have "unat (map_size (ls ! 0)) = length (base_map ls)"
      using levels_wf_map_size [OF wf 0(1)] base by simp
    ultimately have "find_free_loop ls (Suc 0) index ret = Some (-1)"
      using 0(1) by (simp add: word_le_nat_alt)
    moreover have "prefix_full ls 0 index \<longrightarrow> all_full (base_map ls)"
      using False by (simp add: prefix_full_def all_full_def base)
    ultimately show ?thesis by simp
  qed
next
  case (Suc i index ret)
  let ?m = "al_map (ls ! Suc i)"
  have lk: "linked (al_map (ls ! i)) ?m" using levels_wf_linked [OF wf Suc.prems(1)] .
  show ?case
  proof (cases "unat index < length ?m")
    case True
    then obtain r where r: "find_free_loop ls (Suc (Suc i)) index ret = find_free_loop ls (Suc i) r r"
      "unat r < 64 * length ?m" "\<not> mbit ?m (unat r)"
      "prefix_full ls (Suc i) index \<Longrightarrow> \<forall>k < unat r. mbit ?m k"
      using find_free_step [OF wf Suc.prems(1) small Suc.prems(2)] by metis
    have "search_at ls i r"
      using linkedD(1) [OF lk] r(3) by (auto simp: search_at_def)
    moreover have "prefix_full ls i r" if "prefix_full ls (Suc i) index"
      using linkedD(1) [OF lk] r(4) [OF that] by (auto simp: prefix_full_def)
    ultimately show ?thesis
      unfolding r(1) using Suc.IH [of r r] Suc.prems(1) by auto
  next
    case False
    moreover have "unat (map_size (ls ! Suc i)) = length ?m"
      using levels_wf_map_size [OF wf Suc.prems(1)] .
    ultimately have "find_free_loop ls (Suc (Suc i)) index ret = Some (-1)"
      using Suc.prems(1) by (simp add: word_le_nat_alt)
    moreover have "all_full (base_map ls)" if "prefix_full ls (Suc i) index"
    proof -
      have "all_full ?m" using that False by (simp add: prefix_full_def all_full_def)
      then have "all_full (al_map (ls ! (Suc i - Suc i)))"
        by (rule all_full_base [OF wf Suc.prems(1)]) simp
      moreover have "ls \<noteq> []" using Suc.prems(1) by auto
      ultimately show ?thesis by (simp add: base_map_def hd_conv_nth)
    qed
    ultimately show ?thesis by simp
  qed
qed

lemma find_free_loop_all_full:
  assumes wf: "levels_wf 0 ls" and full: "\<forall>k < i. all_full (al_map (ls ! k))" and i: "i \<le> length ls"
  shows "find_free_loop ls i 0 (-1) = Some (-1)"
  using full i
proof (induction i)
  case (Suc i)
  then have "i < length ls" by simp
  then have ms: "unat (map_size (ls ! i)) = length (al_map (ls ! i))"
    by (rule levels_wf_map_size [OF wf])
  have "scan_map (al_map (ls ! i)) 0 (unat (map_size (ls ! i))) = Some None"
    using Suc.prems(1) by (intro scan_map_full) (auto simp: ms all_full_def)
  with Suc show ?case by simp
qed simp

lemma axmap_find_first_free_top:
  assumes wf: "axmap_wf a"
  obtains r where "axmap_find_first_free a (length (levels a) - 1) 0 = Some r"
    "if r = -1 then {..<unat (nr_bits a)} \<subseteq> axmap_bits a
     else r < nr_bits a \<and> unat r \<notin> axmap_bits a \<and> (\<forall>k < unat r. k \<in> axmap_bits a)"
proof -
  let ?ls = "levels a"
  have lv: "levels_wf 0 ?ls" and len: "length (base_map ?ls) = (unat (nr_bits a) + 63) div 64"
    using axmap_wfD [OF wf] by simp_all
  have nr: "unat (nr_bits a) < 2 ^ 63" using wf by (simp add: axmap_wf_def)
  have small: "64 * length (base_map ?ls) < 2 ^ 64" using nr by (simp add: len)
  have nr_le: "unat (nr_bits a) \<le> 64 * length (base_map ?ls)" by (simp add: len)
  have ne: "?ls \<noteq> []" using levels_wf_nonempty [OF lv] .
  let ?t = "length ?ls - 1"
  have t: "?t < length ?ls" "Suc ?t = length ?ls" using ne by simp_all
  note res = that
  have all: ?thesis if "all_full (base_map ?ls)" "axmap_find_first_free a ?t 0 = Some (-1)"
    using that nr_le by (intro res [of "-1"]) (auto simp: axmap_bits_def all_full_bits)
  show ?thesis
  proof (cases "search_at ?ls ?t 0")
    case True
    then obtain r where r: "find_free_loop ?ls (Suc ?t) 0 (-1) = Some r"
      "r = -1 \<or> unat r < 64 * length (base_map ?ls) \<and> unat r \<notin> map_bits (base_map ?ls)"
      "if r = -1 then all_full (base_map ?ls) else \<forall>k < unat r. k \<in> map_bits (base_map ?ls)"
      using find_free_loop_correct [OF lv small t(1)] by (fastforce simp: prefix_full_def)
    then have f: "axmap_find_first_free a ?t 0 = Some (if r < nr_bits a then r else -1)"
      by (simp add: axmap_find_first_free_def)
    have m1: "\<not> (-1 :: u64) < nr_bits a" by (simp only: not_less word_n1_ge)
    consider "r = -1" | "r \<noteq> -1" "r < nr_bits a" | "r \<noteq> -1" "\<not> r < nr_bits a" by blast
    then show ?thesis
    proof cases
      case 1
      then show ?thesis using r(3) f m1 all by simp
    next
      case 2
      then show ?thesis using r f by (intro that [of r]) (auto simp: axmap_bits_def)
    next
      case 3
      then show ?thesis using r f by (intro that [of "-1"])
          (auto simp: axmap_bits_def word_less_nat_alt not_less)
    qed
  next
    case False
    then have "0 < length (al_map (?ls ! ?t))" "al_map (?ls ! ?t) ! 0 = -1"
      by (simp_all add: search_at_def)
    moreover have "length (al_map (?ls ! ?t)) \<le> 1"
      using levels_wf_last [OF lv] ne by (simp add: last_conv_nth)
    ultimately have top: "all_full (al_map (?ls ! ?t))"
      unfolding all_full_def by (metis less_one order.strict_trans2)
    have full: "\<forall>k < length ?ls. all_full (al_map (?ls ! k))"
    proof (intro allI impI)
      fix k assume "k < length ?ls"
      then show "all_full (al_map (?ls ! k))"
        using all_full_base [OF lv t(1) top, of "?t - k"] by simp
    qed
    then have "all_full (base_map ?ls)" using ne by (simp add: base_map_def hd_conv_nth)
    moreover have "find_free_loop ?ls (Suc ?t) 0 (-1) = Some (-1)"
      using find_free_loop_all_full [OF lv full] t(2) by simp
    then have "axmap_find_first_free a ?t 0 = Some (-1)"
      by (simp add: axmap_find_first_free_def)
    ultimately show ?thesis by (rule all)
  qed
qed

text \<open>The result of a search: a free block, or \<open>-1\<close> and every block is in use.\<close>

definition free_result :: "axmap \<Rightarrow> u64 \<Rightarrow> bool" where
  "free_result a r \<longleftrightarrow> (if r = -1 then {..<unat (nr_bits a)} \<subseteq> axmap_bits a
     else r < nr_bits a \<and> unat r \<notin> axmap_bits a)"

lemma first_free_refines:
  assumes wf: "axmap_wf a" and nr: "0 < nr_bits a"
  obtains a' r where "axmap_first_free a = Some (a', r)" "axmap_wf a'" "levels a' = levels a"
    "nr_bits a' = nr_bits a" "free_result a r" "first_free a' = r"
    "first_free a = -1 \<Longrightarrow> \<forall>k < unat r. k < unat (nr_bits a) \<longrightarrow> k \<in> axmap_bits a"
proof (cases "firstfree_valid a")
  case True
  then have "axmap_first_free a = Some (a, first_free a)" by (simp add: axmap_first_free_def)
  then show ?thesis
    by (rule that) (use wf nr True in \<open>auto simp: axmap_wf_def free_hint_ok_def free_result_def firstfree_valid_def\<close>)
next
  case False
  obtain r where r: "axmap_find_first_free a (length (levels a) - 1) 0 = Some r"
    "if r = -1 then {..<unat (nr_bits a)} \<subseteq> axmap_bits a
     else r < nr_bits a \<and> unat r \<notin> axmap_bits a \<and> (\<forall>k < unat r. k \<in> axmap_bits a)"
    using axmap_find_first_free_top [OF wf] by blast
  then have "axmap_first_free a = Some (a\<lparr>first_free := r\<rparr>, r)"
    using False by (simp add: axmap_first_free_def)
  then show ?thesis
    by (rule that)
      (use wf r(2) in \<open>auto simp: axmap_wf_def axmap_bits_def free_hint_ok_def free_result_def
          split: if_splits\<close>)
qed

lemma next_free_handler:
  assumes wf: "levels_wf k ls"
    and idx: "\<And>i. i < length ls \<Longrightarrow> unat b div 64 ^ (k + i) < 64 * length (al_map (ls ! i))"
  shows "\<exists>d' r. axmap_handler axmap_next_free_fn b k ls d = Some (ls, d', r)
    \<and> (r \<longrightarrow> (\<exists>i < length ls. nf_level d' = Some (k + i) \<and> nf_offset d' < length (al_map (ls ! i))
         \<and> al_map (ls ! i) ! nf_offset d' \<noteq> -1))"
  using assms
proof (induction ls arbitrary: k d)
  case (Cons al als)
  have "level_offset b k = unat b div 64 ^ k div 64"
    by (simp add: level_offset_eq div_mult2_eq [symmetric] mult.commute)
  then have o: "level_offset b k < length (al_map al)"
    using Cons.prems(2) [of 0] by (simp add: div_mod_64_less)
  have lvl: "al_level al = k" using Cons.prems(1) by (simp add: levels_wf_Cons level_ok_def)
  have m: "unat ((nf_bit d + 1) AND 63) < length bit_masks"
    by (simp add: length_bit_masks word_nat less_imp_le_nat less_SucI)
  let ?w = "al_map al ! level_offset b k"
  let ?m = "bit_masks ! unat ((nf_bit d + 1) AND 63)"
  show ?case
  proof (cases "NOT ?m AND NOT ?w \<noteq> 0 \<and> ?w \<noteq> -1")
    case True
    then have "axmap_handler axmap_next_free_fn b k (al # als) d = Some (al # als,
        d\<lparr>nf_level := Some k, nf_offset := level_offset b k\<rparr>, True)"
      using o m lvl by (simp add: axmap_next_free_fn_def)
    then show ?thesis using True o by (auto intro!: exI [of _ 0])
  next
    case False
    then obtain d' where d': "axmap_next_free_fn al (level_offset b k) (level_bit b k) d
        = Some (al, d', False)"
      using o m by (auto simp: axmap_next_free_fn_def)
    show ?thesis
    proof (cases "als = []")
      case True
      then show ?thesis by (intro exI [of _ d'] exI [of _ False]) (simp add: d')
    next
      case False
      have "levels_wf (Suc k) als" using Cons.prems(1) False by (simp add: levels_wf_Cons)
      moreover have "unat b div 64 ^ (Suc k + i) < 64 * length (al_map (als ! i))"
        if "i < length als" for i
        using Cons.prems(2) [of "Suc i"] that by simp
      ultimately obtain d'' r where "axmap_handler axmap_next_free_fn b (Suc k) als d' = Some (als, d'', r)"
        "r \<longrightarrow> (\<exists>i < length als. nf_level d'' = Some (Suc k + i)
           \<and> nf_offset d'' < length (al_map (als ! i)) \<and> al_map (als ! i) ! nf_offset d'' \<noteq> -1)"
        using Cons.IH [of "Suc k" d'] by blast
      then show ?thesis by (force simp: d')
    qed
  qed
qed simp

lemma next_free_refines:
  assumes wf: "axmap_wf a" and b: "b < nr_bits a"
  obtains a' r where "axmap_next_free a b = Some (a', r)" "axmap_wf a'" "levels a' = levels a"
    "nr_bits a' = nr_bits a" "free_result a r"
proof (cases "firstfree_valid a \<and> b < first_free a")
  case True
  then have "axmap_next_free a b = Some (a, first_free a)" by (simp add: axmap_next_free_def)
  then show ?thesis
    by (rule that) (use wf b True in \<open>auto simp: axmap_wf_def free_hint_ok_def free_result_def firstfree_valid_def\<close>)
next
  case False
  note nf = axmap_next_free_def [of a b, unfolded if_not_P [OF False]]
  have lv: "levels_wf 0 (levels a)" using axmap_wfD [OF wf] by simp
  have ub: "unat b < 64 * length (base_map (levels a))"
    using axmap_wfD(3) [OF wf] b by (simp add: word_less_nat_alt)
  let ?d = "\<lparr>nf_level = None, nf_offset = 0, nf_bit = b\<rparr>"
  obtain d' r where h: "axmap_handler axmap_next_free_fn b 0 (levels a) ?d = Some (levels a, d', r)"
    "r \<longrightarrow> (\<exists>i < length (levels a). nf_level d' = Some i
       \<and> nf_offset d' < length (al_map (levels a ! i)) \<and> al_map (levels a ! i) ! nf_offset d' \<noteq> -1)"
    using next_free_handler [OF lv, of b ?d] level_index_less [OF lv ub] by auto
  have "0 < nr_bits a" using b by (metis word_not_simps(1) word_neq_0_conv)
  then obtain a1 r1 where ff: "axmap_first_free a = Some (a1, r1)" "axmap_wf a1"
    "levels a1 = levels a" "nr_bits a1 = nr_bits a" "free_result a r1"
    using first_free_refines [OF wf] by blast
  show ?thesis
  proof (cases r)
    case r: False
    then have "axmap_next_free a b = Some (a1, r1)" using h ff by (simp add: nf)
    then show ?thesis by (rule that) (use ff in simp_all)
  next
    case r: True
    with h(2) obtain i where i: "i < length (levels a)" "nf_level d' = Some i"
      "nf_offset d' < length (al_map (levels a ! i))" "al_map (levels a ! i) ! nf_offset d' \<noteq> -1"
      by blast
    have nr: "unat (nr_bits a) < 2 ^ 63" using wf by (simp add: axmap_wf_def)
    have small: "64 * length (base_map (levels a)) < 2 ^ 64"
      using nr by (simp add: axmap_wfD(2) [OF wf])
    then have "nf_offset d' < 2 ^ 64" using i(3) level_length_le [OF lv i(1)] by simp
    then have "unat (of_nat (nf_offset d') :: u64) = nf_offset d'" by (simp add: unat_of_nat)
    then have "search_at (levels a) i (of_nat (nf_offset d'))" using i(4) by (simp add: search_at_def)
    then obtain q where q: "find_free_loop (levels a) (Suc i) (of_nat (nf_offset d')) (-1) = Some q"
      "q = -1 \<or> unat q \<notin> map_bits (base_map (levels a))"
      using find_free_loop_correct [OF lv small i(1)] by blast
    let ?q = "if q < nr_bits a then q else -1"
    have f: "axmap_find_first_free a i (of_nat (nf_offset d')) = Some ?q"
      by (simp add: axmap_find_first_free_def q(1) del: find_free_loop.simps)
    show ?thesis
    proof (cases "?q = -1")
      case True
      then have "axmap_next_free a b = Some (a1, r1)"
        using h(1) r i(2) f ff(1) by (simp add: nf)
      then show ?thesis by (rule that) (use ff in simp_all)
    next
      case q1: False
      then have "axmap_next_free a b = Some (a, ?q)"
        using h(1) r i(2) f by (simp add: nf)
      then show ?thesis
        by (rule that) (use wf q1 q(2) in \<open>auto simp: free_result_def axmap_bits_def split: if_splits\<close>)
    qed
  qed
qed

section \<open>Creation\<close>

lemma count_levels_acc: "count_levels i n = n + count_levels i 0"
proof (induction "unat i" arbitrary: i n rule: less_induct)
  case less
  show ?case
  proof (cases "1 < i")
    case True
    let ?i = "ucast (drop_bit 6 (ucast i + 63 :: u64)) :: u32"
    note lt = count_levels_less [OF True]
    have "count_levels i n = count_levels ?i (Suc n)" "count_levels i 0 = count_levels ?i (Suc 0)"
      using True by (simp_all add: count_levels.simps [of i])
    then show ?thesis using less [OF lt, of "Suc n"] less [OF lt, of "Suc 0"] by simp
  qed (simp add: count_levels.simps)
qed

text \<open>For maps of up to \<open>2 ^ 37\<close> blocks the word counts fit the 32 bits they are cut to.\<close>

lemma words_for_words_for:
  assumes "unat s < 2 ^ 32"
  shows "drop_bit 6 (ucast (ucast s :: u32) + 63 :: u64) = words_for s"
proof -
  have "(ucast (ucast s :: u32) :: u64) = s"
    using assms by (simp add: word_unat_eq_iff word_nat)
  then show ?thesis by (simp add: words_for_def)
qed

lemma mbit_zero: "j < 64 * n \<Longrightarrow> \<not> mbit (replicate n 0) j"
  by (simp add: mbit_def div_mod_64_less)

lemma linked_zero: "m = (n + 63) div 64 \<Longrightarrow> linked (replicate n 0) (replicate m 0)"
  by (simp add: linked_def mbit_zero)

lemma new_levels_correct:
  assumes "\<And>k. alloc k" "unat (words_for nr) < 2 ^ 32"
  shows "\<exists>ls. new_levels alloc i (Suc (count_levels (ucast (words_for nr)) 0)) nr = Some ls
    \<and> levels_wf i ls \<and> base_map ls = replicate (unat (words_for nr)) 0 \<and> map reset_level ls = ls"
  using assms
proof (induction "unat (words_for nr)" arbitrary: nr i rule: less_induct)
  case (less nr i)
  let ?w = "ucast (words_for nr) :: u32"
  let ?al = "\<lparr>al_level = i, map_size = words_for nr, al_map = replicate (unat (words_for nr)) 0\<rparr>"
  have uw: "unat ?w = unat (words_for nr)" using less.prems(2) by (simp add: word_nat)
  show ?case
  proof (cases "1 < ?w")
    case False
    then have c: "count_levels ?w 0 = 0" by (simp add: count_levels.simps [of ?w])
    then have "new_levels alloc i (Suc (count_levels ?w 0)) nr = Some [?al]"
      using less.prems(1) by simp
    moreover have "unat (words_for nr) \<le> 1" using False uw by (simp add: word_less_nat_alt)
    ultimately show ?thesis by (auto simp: level_ok_def base_map_def reset_level_def)
  next
    case True
    let ?v = "words_for (words_for nr)"
    have b: "unat (words_for nr) < 2 ^ 32" by (rule less.prems(2))
    have uv: "unat ?v = (unat (words_for nr) + 63) div 64" using b by (simp add: unat_words_for)
    have "count_levels ?w 0 = count_levels (ucast ?v) (Suc 0)"
      using True words_for_words_for [OF b] by (simp add: count_levels.simps [of ?w])
    then have c: "count_levels ?w 0 = Suc (count_levels (ucast ?v) 0)"
      using count_levels_acc [of "ucast ?v" "Suc 0"] by simp
    have "1 < unat (words_for nr)" using True uw by (simp add: word_less_nat_alt)
    then have lt: "unat ?v < unat (words_for nr)" by (simp add: uv)
    have "unat ?v < 2 ^ 32" using lt b by simp
    then obtain ls where ls: "new_levels alloc (Suc i) (Suc (count_levels (ucast ?v) 0)) (words_for nr) = Some ls"
      "levels_wf (Suc i) ls" "base_map ls = replicate (unat ?v) 0" "map reset_level ls = ls"
      using less.hyps [OF lt less.prems(1)] by blast
    have "new_levels alloc i (Suc (count_levels ?w 0)) nr = Some (?al # ls)"
      using less.prems(1) ls(1) by (simp add: c)
    moreover have "levels_wf i (?al # ls)"
      using ls(2,3) levels_wf_nonempty [OF ls(2)]
      by (simp add: levels_wf_Cons level_ok_def linked_zero uv)
    ultimately show ?thesis using ls(4) by (auto simp: base_map_def reset_level_def)
  qed
qed

lemma map_bits_zero: "map_bits (replicate n 0) = {}"
  by (auto simp: map_bits_def mbit_zero)

lemma new_correct:
  assumes "\<And>k. alloc k" "unat nr < 2 ^ 37"
  obtains a where "axmap_new alloc nr = Some (Some a)" "axmap_wf a" "nr_bits a = nr"
    "axmap_bits a = {}" "first_free a = 0"
proof -
  have uw: "unat (words_for nr) = (unat nr + 63) div 64" using assms(2) by (simp add: unat_words_for)
  then have "unat (words_for nr) < 2 ^ 32" using assms(2) by simp
  then obtain ls where ls: "new_levels alloc 0 (Suc (count_levels (ucast (words_for nr)) 0)) nr = Some ls"
    "levels_wf 0 ls" "base_map ls = replicate (unat (words_for nr)) 0" "map reset_level ls = ls"
    using new_levels_correct [of alloc, OF assms(1)] by blast
  have "count_levels (ucast (words_for nr)) 1 = Suc (count_levels (ucast (words_for nr)) 0)"
    using count_levels_acc [of "ucast (words_for nr)" 1] by simp
  then have "axmap_new alloc nr = Some (Some \<lparr>levels = ls, first_free = 0, nr_bits = nr\<rparr>)"
    using assms(1) ls(1,4) by (simp add: axmap_new_def axmap_reset_def del: new_levels.simps)
  then show ?thesis
    by (rule that) (use ls(2,3) assms(2) in
      \<open>simp_all add: axmap_wf_def axmap_bits_def map_bits_zero free_hint_ok_def uw\<close>)
qed

text \<open>Reset empties the map and keeps its size.\<close>

lemma reset_level_simps [simp]:
  "al_level (reset_level al) = al_level al" "map_size (reset_level al) = map_size al"
  "al_map (reset_level al) = replicate (length (al_map al)) 0"
  by (simp_all add: reset_level_def)

lemma levels_wf_reset: "levels_wf i ls \<Longrightarrow> levels_wf i (map reset_level ls)"
proof (induction ls arbitrary: i)
  case (Cons al als)
  have "linked (replicate (length (al_map al)) 0) (base_map (map reset_level als))"
    if "als \<noteq> []" "linked (al_map al) (base_map als)"
    using that by (cases als) (auto simp: base_map_def linked_def [of "al_map al"] intro: linked_zero)
  with Cons show ?case
    by (auto simp: levels_wf_Cons level_ok_def split: if_splits)
qed simp

lemma reset_correct:
  assumes "axmap_wf a"
  shows "axmap_wf (axmap_reset a)" "axmap_bits (axmap_reset a) = {}"
    "nr_bits (axmap_reset a) = nr_bits a"
proof -
  have "levels a \<noteq> []" using axmap_wfD(1) [OF assms] levels_wf_nonempty by blast
  then have base: "base_map (levels (axmap_reset a)) = replicate (length (base_map (levels a))) 0"
    by (simp add: axmap_reset_def base_map_def hd_map)
  show "axmap_bits (axmap_reset a) = {}" by (simp add: axmap_bits_def base map_bits_zero)
  then show "axmap_wf (axmap_reset a)"
    using assms levels_wf_reset [OF axmap_wfD(1) [OF assms]]
    by (simp add: axmap_wf_def base free_hint_ok_def) (simp add: axmap_reset_def)
  show "nr_bits (axmap_reset a) = nr_bits a" by (simp add: axmap_reset_def)
qed

section \<open>Properties\<close>

text \<open>
  C16: a lookup in a well-formed map answers, for every block of the map, whether the block is in
  the set the map stands for; the top-down shortcut through full words never changes the answer.
\<close>

theorem axmap_isset_member:
  assumes "axmap_wf a" "b < nr_bits a"
  shows "axmap_isset a b = Some (unat b \<in> axmap_bits a)"
  using isset_refines [OF assms] .

theorem axmap_isset_member_witness:
  "\<exists>a. axmap_new (\<lambda>_. True) 5000 = Some (Some a) \<and> axmap_isset a 4711 = Some False"
proof -
  obtain a where a: "axmap_new (\<lambda>_. True) 5000 = Some (Some a)" "axmap_wf a" "nr_bits a = 5000"
    "axmap_bits a = {}"
    by (rule new_correct [of "\<lambda>_. True" 5000]) simp_all
  then have "axmap_isset a 4711 = Some False"
    using axmap_isset_member [of a 4711] by simp
  with a(1) show ?thesis by blast
qed

text \<open>
  C17: setting a block of a well-formed map never runs out of the maps or into an assertion, keeps
  the map well-formed (all summary levels included) and adds exactly that block to the set.
\<close>

theorem axmap_set_inserts:
  assumes "axmap_wf a" "b < nr_bits a"
  shows "\<exists>a'. axmap_set a b = Some a' \<and> axmap_wf a' \<and> nr_bits a' = nr_bits a
    \<and> axmap_bits a' = insert (unat b) (axmap_bits a)"
  using set_refines [OF assms] by metis

theorem axmap_set_inserts_witness:
  "\<exists>a a'. axmap_new (\<lambda>_. True) 5000 = Some (Some a) \<and> axmap_set a 63 = Some a' \<and> axmap_bits a' = {63}"
proof -
  obtain a where a: "axmap_new (\<lambda>_. True) 5000 = Some (Some a)" "axmap_wf a" "nr_bits a = 5000"
    "axmap_bits a = {}"
    by (rule new_correct [of "\<lambda>_. True" 5000]) simp_all
  then show ?thesis using axmap_set_inserts [of a 63] by auto
qed

text \<open>
  C18: clearing a block of a well-formed map keeps the map well-formed, also where the block was
  part of full words of any level, and removes exactly that block from the set.
\<close>

theorem axmap_clear_removes:
  assumes "axmap_wf a" "b < nr_bits a"
  shows "\<exists>a'. axmap_clear a b = Some a' \<and> axmap_wf a' \<and> nr_bits a' = nr_bits a
    \<and> axmap_bits a' = axmap_bits a - {unat b}"
  using clear_refines [OF assms] by metis

theorem axmap_clear_removes_witness:
  "\<exists>a a'. axmap_new (\<lambda>_. True) 100 = Some (Some a) \<and> axmap_clear a 3 = Some a' \<and> axmap_bits a' = {}"
proof -
  obtain a where a: "axmap_new (\<lambda>_. True) 100 = Some (Some a)" "axmap_wf a" "nr_bits a = 100"
    "axmap_bits a = {}"
    by (rule new_correct [of "\<lambda>_. True" 100]) simp_all
  then show ?thesis using axmap_clear_removes [of a 3] by auto
qed

text \<open>
  C20: \<open>axmap_set_nr\<close> on a range inside the map returns, keeps the map well-formed and marks a
  non-empty prefix of the range and nothing else; if the whole range was free, it marks the whole
  range and reports its length.
\<close>

theorem axmap_set_nr_marks_range:
  assumes "axmap_wf a" "0 < unat nr" "unat b + unat nr \<le> unat (nr_bits a)"
  shows "\<exists>a' r k. axmap_set_nr a b nr = Some (a', r) \<and> axmap_wf a' \<and> nr_bits a' = nr_bits a
    \<and> 0 < k \<and> k \<le> unat nr \<and> axmap_bits a' = axmap_bits a \<union> {unat b..<unat b + k}
    \<and> ({unat b..<unat b + unat nr} \<inter> axmap_bits a = {} \<longrightarrow> k = unat nr \<and> r = nr)"
  using set_nr_loop_correct [OF assms, of 0] by (simp add: axmap_set_nr_def)

theorem axmap_set_nr_marks_range_witness:
  "\<exists>a a'. axmap_new (\<lambda>_. True) 5000 = Some (Some a) \<and> axmap_set_nr a 60 70 = Some (a', 70)
    \<and> axmap_bits a' = {60..<130}"
proof -
  obtain a where a: "axmap_new (\<lambda>_. True) 5000 = Some (Some a)" "axmap_wf a" "nr_bits a = 5000"
    "axmap_bits a = {}"
    by (rule new_correct [of "\<lambda>_. True" 5000]) simp_all
  then show ?thesis using axmap_set_nr_marks_range [of a 70 60] by auto
qed

text \<open>
  C21: both searches of a non-empty well-formed map return and leave the marked set as it is; what
  they return is a block of the map that is free, or \<open>-1\<close> exactly because every block is
  marked.
\<close>

theorem axmap_free_search:
  assumes "axmap_wf a" "b < nr_bits a"
  shows "(\<exists>a' r. axmap_first_free a = Some (a', r) \<and> axmap_wf a' \<and> levels a' = levels a
      \<and> free_result a r)
    \<and> (\<exists>a' r. axmap_next_free a b = Some (a', r) \<and> axmap_wf a' \<and> levels a' = levels a
      \<and> free_result a r)"
proof
  have "0 < nr_bits a" using assms(2) by (metis word_not_simps(1) word_neq_0_conv)
  then show "\<exists>a' r. axmap_first_free a = Some (a', r) \<and> axmap_wf a' \<and> levels a' = levels a
      \<and> free_result a r"
    using first_free_refines [OF assms(1)] by metis
  show "\<exists>a' r. axmap_next_free a b = Some (a', r) \<and> axmap_wf a' \<and> levels a' = levels a
      \<and> free_result a r"
    using next_free_refines [OF assms] by metis
qed

theorem axmap_free_search_witness:
  "\<exists>a a' r. axmap_new (\<lambda>_. True) 100 = Some (Some a) \<and> axmap_next_free a 7 = Some (a', r)
    \<and> free_result a r"
proof -
  obtain a where a: "axmap_new (\<lambda>_. True) 100 = Some (Some a)" "axmap_wf a" "nr_bits a = 100"
    "axmap_bits a = {}"
    by (rule new_correct [of "\<lambda>_. True" 100]) simp_all
  then show ?thesis using axmap_free_search [of a 7] by auto
qed



end
