(* ===== verification/Lfsr.thy ===== *)
theory Lfsr
  imports Prelude
begin

text \<open>
  \<^verbatim>\<open>lib/lfsr.c\<close>: the linear feedback shift register that yields the blocks of a file in a
  pseudo-random order without keeping a map of them. First the operations in the order of the
  source, then the algebra of one step (a permutation of the register's states), then the walk of
  \<open>lfsr_next\<close> with its spins and skipped values.
\<close>

section \<open>The tap table\<close>

text \<open>
  \<open>taps[64][FIO_MAX_TAPS]\<close>; a row shorter than \<open>FIO_MAX_TAPS\<close> is filled with zeroes.
\<close>

definition FIO_MAX_TAPS :: nat where
  "FIO_MAX_TAPS = 6"

definition taps :: "nat list list" where
  "taps = map (\<lambda>r. take FIO_MAX_TAPS (r @ replicate FIO_MAX_TAPS 0)) [
    [0], [0], [0], [3, 2], [4, 3], [5, 3], [6, 5], [7, 6], [8, 6, 5, 4], [9, 5], [10, 7],
    [11, 9], [12, 6, 4, 1], [13, 4, 3, 1], [14, 5, 3, 1], [15, 14], [16, 15, 13, 4], [17, 14],
    [18, 11], [19, 6, 2, 1], [20, 17], [21, 19], [22, 21], [23, 18], [24, 23, 22, 17],
    [25, 22], [26, 6, 2, 1], [27, 5, 2, 1], [28, 25], [29, 27], [30, 6, 4, 1], [31, 28],
    [32, 31, 29, 1], [33, 20], [34, 27, 2, 1], [35, 33], [36, 25], [37, 5, 4, 3, 2, 1],
    [38, 6, 5, 1], [39, 35], [40, 38, 21, 19], [41, 38], [42, 41, 20, 19], [43, 42, 38, 37],
    [44, 43, 18, 17], [45, 44, 42, 41], [46, 45, 26, 25], [47, 42], [48, 47, 21, 20], [49, 40],
    [50, 49, 24, 23], [51, 50, 36, 35], [52, 49], [53, 52, 38, 37], [54, 53, 18, 17], [55, 31],
    [56, 55, 35, 34], [57, 50], [58, 39], [59, 58, 38, 37], [60, 59], [61, 60, 46, 45],
    [62, 61, 6, 5], [63, 62]]"

section \<open>Stepping\<close>

record fio_lfsr =
  xormask :: u64
  last_val :: u64
  cached_bit :: u64
  max_val :: u64
  num_vals :: u64
  cycle_length :: u64
  cached_cycle_length :: u64
  lspin :: u32

text \<open>A generator in memory that is all zero.\<close>

definition fio_lfsr_zero :: fio_lfsr where
  "fio_lfsr_zero = \<lparr>xormask = 0, last_val = 0, cached_bit = 0, max_val = 0, num_vals = 0,
     cycle_length = 0, cached_cycle_length = 0, lspin = 0\<rparr>"

text \<open>\<open>__LFSR_NEXT\<close>: one shift of the register.\<close>

definition lfsr_shift :: "u64 \<Rightarrow> u64 \<Rightarrow> u64 \<Rightarrow> u64" where
  "lfsr_shift cb xm v = (drop_bit 1 v OR cb) XOR (((v AND 1) - 1) AND xm)"

text \<open>
  \<open>__lfsr_next\<close>: the cases of the switch fall through, so \<open>spin\<close> in \<open>0..15\<close> shifts
  \<open>spin + 1\<close> times; every other value takes the default and does nothing.
\<close>

definition lfsr_spin :: "fio_lfsr \<Rightarrow> nat \<Rightarrow> fio_lfsr" where
  "lfsr_spin fl s = (if s \<le> 15
     then fl\<lparr>last_val := (lfsr_shift (cached_bit fl) (xormask fl) ^^ Suc s) (last_val fl)\<rparr>
     else fl)"

text \<open>The body of the loop of \<open>lfsr_next\<close>.\<close>

definition lfsr_advance :: "fio_lfsr \<Rightarrow> fio_lfsr" where
  "lfsr_advance fl =
     (if cycle_length fl = 0 then lfsr_spin fl (unat (lspin fl))
      else if cycle_length fl - 1 = 0
      then (lfsr_spin fl (unat (lspin fl + 1)))\<lparr>cycle_length := cached_cycle_length fl\<rparr>
      else (lfsr_spin fl (unat (lspin fl)))\<lparr>cycle_length := cycle_length fl - 1\<rparr>)"

partial_function (option) lfsr_loop :: "fio_lfsr \<Rightarrow> fio_lfsr option" where
  "lfsr_loop fl =
     (if max_val fl < last_val (lfsr_advance fl) then lfsr_loop (lfsr_advance fl)
      else Some (lfsr_advance fl))"

declare lfsr_loop.simps [code]

text \<open>
  The outer option is whether the call returns, the inner one is the value: \<open>None\<close> for the
  return value 1 (no value left).
\<close>

definition lfsr_next :: "fio_lfsr \<Rightarrow> (fio_lfsr \<times> u64 option) option" where
  "lfsr_next fl =
     (let fl1 = fl\<lparr>num_vals := num_vals fl + 1\<rparr> in
      if max_val fl < num_vals fl then Some (fl1, None)
      else map_option (\<lambda>fl2. (fl2, Some (last_val fl2))) (lfsr_loop fl1))"

section \<open>Initialisation\<close>

fun xormask_loop :: "nat list \<Rightarrow> u64 \<Rightarrow> u64" where
  "xormask_loop [] m = m"
| "xormask_loop (t # ts) m = (if t = 0 then m else xormask_loop ts (m OR bitval (t - 1)))"

definition lfsr_create_xormask :: "nat list \<Rightarrow> u64" where
  "lfsr_create_xormask ts = xormask_loop (take FIO_MAX_TAPS ts) 0"

definition find_lfsr :: "u64 \<Rightarrow> nat list option" where
  "find_lfsr sz = map_option (\<lambda>i. taps ! i) (find (\<lambda>i. sz < bitval i) [3..<64])"

text \<open>The cycle length of a spin: the first \<open>i\<close> from 1 to \<open>spin\<close> that closes a cycle.\<close>

definition spin_cycle :: "u64 \<Rightarrow> nat \<Rightarrow> u64" where
  "spin_cycle m s = (
     let k = of_nat (s + 1); x = m div k; y = m mod k in
     case find (\<lambda>i. (y * of_nat i) mod k = 0) [1..<s + 1] of
       Some i \<Rightarrow> x * of_nat i + (y * of_nat i) div k
     | None \<Rightarrow> 0)"

definition prepare_spin :: "fio_lfsr \<Rightarrow> u32 \<Rightarrow> fio_lfsr \<times> bool" where
  "prepare_spin fl s =
     (if 15 < s then (fl, True)
      else let c = spin_cycle (push_bit 1 (cached_bit fl) - 1) (unat s)
           in (fl\<lparr>lspin := s, cached_cycle_length := c, cycle_length := c + 1\<rparr>, False))"

definition lfsr_reset :: "fio_lfsr \<Rightarrow> u64 \<Rightarrow> fio_lfsr \<times> bool" where
  "lfsr_reset fl seed =
     (let bitmask = push_bit 1 (cached_bit fl) - 1
      in (fl\<lparr>num_vals := 0, last_val := seed AND bitmask\<rparr>, seed AND bitmask = bitmask))"

text \<open>The Boolean is the return value: \<open>True\<close> is the error return 1.\<close>

definition lfsr_init :: "fio_lfsr \<Rightarrow> u64 \<Rightarrow> u64 \<Rightarrow> u32 \<Rightarrow> fio_lfsr \<times> bool" where
  "lfsr_init fl nums seed s = (case find_lfsr nums of
     None \<Rightarrow> (fl, True)
   | Some ts \<Rightarrow>
       let fl1 = fl\<lparr>max_val := nums - 1, xormask := lfsr_create_xormask ts,
                    cached_bit := bitval (hd ts - 1)\<rparr>;
           (fl2, e2) = prepare_spin fl1 s
       in if e2 then (fl2, True) else lfsr_reset fl2 seed)"

section \<open>One shift\<close>

text \<open>
  The registers of the table: \<open>n\<close> bits, the tap \<open>n\<close> among the taps and no tap above
  \<open>n\<close>.
\<close>

definition reg_mask :: "nat \<Rightarrow> u64" where
  "reg_mask n = lfsr_create_xormask (taps ! n)"

definition reg_shift :: "nat \<Rightarrow> u64 \<Rightarrow> u64" where
  "reg_shift n = lfsr_shift (bitval (n - 1)) (reg_mask n)"

lemma length_taps: "length taps = 64"
  by (simp add: taps_def)

lemma taps_rows: "\<forall>n \<in> set [3..<64]. hd (taps ! n) = n \<and> (\<forall>t \<in> set (taps ! n). t \<le> n)
    \<and> length (taps ! n) = 6"
  by code_simp

lemma bit_xormask_loop:
  "bit (xormask_loop ts m) i \<longleftrightarrow>
     bit m i \<or> (\<exists>t \<in> set (takeWhile (\<lambda>t. t \<noteq> 0) ts). t - 1 = i \<and> i < 64)"
  by (induction ts m rule: xormask_loop.induct) (auto simp: bitwise)

lemma reg_mask_bits:
  assumes "3 \<le> n" "n < 64"
  shows "bit (reg_mask n) (n - 1)" and "bit (reg_mask n) i \<Longrightarrow> i < n"
proof -
  have r: "hd (taps ! n) = n" "\<forall>t \<in> set (taps ! n). t \<le> n" "length (taps ! n) = 6"
  proof -
    have "n \<in> set [3..<64]" using assms by (simp only: set_upt) simp
    from bspec [OF taps_rows this]
    show "hd (taps ! n) = n" "\<forall>t \<in> set (taps ! n). t \<le> n" "length (taps ! n) = 6" by blast+
  qed
  then obtain xs where xs: "taps ! n = n # xs" by (cases "taps ! n") auto
  have t: "take FIO_MAX_TAPS (taps ! n) = taps ! n" using r(3) by (simp add: FIO_MAX_TAPS_def)
  have m: "bit (reg_mask n) j \<longleftrightarrow>
      (\<exists>t \<in> set (takeWhile (\<lambda>t. t \<noteq> 0) (taps ! n)). t - 1 = j \<and> j < 64)" for j
    by (simp add: reg_mask_def lfsr_create_xormask_def t bit_xormask_loop)
  show "bit (reg_mask n) (n - 1)" using assms by (auto simp: m xs)
  show "i < n" if i: "bit (reg_mask n) i"
  proof -
    from i obtain t where t: "t \<in> set (takeWhile (\<lambda>t. t \<noteq> 0) (taps ! n))" "t - 1 = i"
      by (auto simp: m)
    then have "t \<in> set (taps ! n)" "t \<noteq> 0" by (auto dest: set_takeWhileD)
    with r(2) t(2) show ?thesis by fastforce
  qed
qed

lemma lfsr_shift_eq:
  "lfsr_shift cb xm v = (drop_bit 1 v OR cb) XOR (if bit v 0 then 0 else xm)"
proof -
  have "v AND 1 = (if bit v 0 then 1 else 0)"
    by (intro bit_eqI) (auto simp: bitwise bit_1_iff intro: gr0I)
  then show ?thesis by (simp add: lfsr_shift_def)
qed

lemma bit_reg_shift:
  "bit (reg_shift n v) i \<longleftrightarrow>
     (bit v (Suc i) \<or> (i = n - 1 \<and> n - 1 < 64)) \<noteq> (\<not> bit v 0 \<and> bit (reg_mask n) i)"
proof -
  have "bit (drop_bit 1 v) i = bit v (Suc i)"
    by (simp only: bit_drop_bit_eq) simp
  then show ?thesis
    by (simp only: reg_shift_def lfsr_shift_eq bitwise bit_bitval) auto
qed

text \<open>The states of the \<open>n\<close>-bit register: all \<open>n\<close>-bit values but the all-ones one.\<close>

definition reg_states :: "nat \<Rightarrow> u64 set" where
  "reg_states n = {v. unat v < 2 ^ n - 1}"

lemma unat_less_exp_iff: "n < 64 \<Longrightarrow> unat (v :: u64) < 2 ^ n \<longleftrightarrow> (\<forall>i. n \<le> i \<longrightarrow> \<not> bit v i)"
proof -
  have "unat v < 2 ^ n \<longleftrightarrow> take_bit n (unat v) = unat v"
    by (simp add: take_bit_nat_eq_self_iff)
  also have "\<dots> \<longleftrightarrow> take_bit n v = v"
    by (simp only: unsigned_take_bit_eq [symmetric] word_unat_eq_iff)
  also have "\<dots> \<longleftrightarrow> (\<forall>i. n \<le> i \<longrightarrow> \<not> bit v i)"
  proof
    assume "take_bit n v = v"
    then show "\<forall>i. n \<le> i \<longrightarrow> \<not> bit v i" by (metis bit_take_bit_iff not_le)
  next
    assume "\<forall>i. n \<le> i \<longrightarrow> \<not> bit v i"
    then show "take_bit n v = v" by (intro bit_eqI) (metis bit_take_bit_iff not_le)
  qed
  finally show ?thesis .
qed

lemma unat_mask_64:
  assumes "n < 64"
  shows "unat (mask n :: u64) = 2 ^ n - 1"
proof -
  have "(2 :: nat) ^ n < 2 ^ 64" using assms by (intro power_strict_increasing) simp_all
  then have "(2 :: nat) ^ n - 1 < 2 ^ 64" by simp
  moreover have "(mask n :: u64) = of_nat (2 ^ n - 1)"
    by (simp add: mask_eq_exp_minus_1 of_nat_diff)
  ultimately show ?thesis by (simp only: unat_of_nat) simp
qed

lemma reg_states_iff:
  assumes "n < 64"
  shows "v \<in> reg_states n \<longleftrightarrow> (\<forall>i. n \<le> i \<longrightarrow> \<not> bit v i) \<and> (\<exists>i < n. \<not> bit v i)"
proof -
  have "unat v < 2 ^ n - 1 \<longleftrightarrow> unat v < 2 ^ n \<and> v \<noteq> mask n"
    using assms unat_mask_64 [OF assms] by (auto simp: word_unat_eq_iff)
  moreover have "v \<noteq> mask n \<longleftrightarrow> (\<exists>i < n. \<not> bit v i)" if "\<forall>i. n \<le> i \<longrightarrow> \<not> bit v i"
  proof
    assume ne: "v \<noteq> mask n"
    show "\<exists>i < n. \<not> bit v i"
    proof (rule ccontr)
      assume "\<not> (\<exists>i < n. \<not> bit v i)"
      then have "v = mask n"
        using that assms by (intro bit_eqI) (metis bit_mask_iff not_le possible_bit_word order.strict_trans)
      with ne show False by simp
    qed
  next
    assume "\<exists>i < n. \<not> bit v i"
    then show "v \<noteq> mask n" using assms by (auto simp: bit_mask_iff)
  qed
  ultimately show ?thesis by (auto simp: reg_states_def unat_less_exp_iff [OF assms])
qed

lemma card_reg_states:
  assumes "n < 64"
  shows "finite (reg_states n)" "card (reg_states n) = 2 ^ n - 1"
proof -
  have lt: "(2 :: nat) ^ n < 2 ^ 64" using assms by (intro power_strict_increasing) simp_all
  have "bij_betw unat (reg_states n) {..<2 ^ n - 1}"
  proof (intro bij_betw_imageI set_eqI iffI)
    show "inj_on unat (reg_states n)" by (simp add: inj_on_def word_unat_eq_iff)
    show "x \<in> {..<2 ^ n - 1}" if "x \<in> unat ` reg_states n" for x
      using that by (auto simp: reg_states_def)
    show "x \<in> unat ` reg_states n" if "x \<in> {..<2 ^ n - 1}" for x
    proof -
      have "unat (of_nat x :: u64) = x" using that lt by (simp add: unat_of_nat)
      then show ?thesis using that
        by (intro image_eqI [of _ _ "of_nat x"]) (simp_all add: reg_states_def)
    qed
  qed
  then show "finite (reg_states n)" "card (reg_states n) = 2 ^ n - 1"
    using bij_betw_finite bij_betw_same_card by fastforce+
qed

text \<open>One shift is a permutation of the states, and never reaches the all-ones value.\<close>

lemma reg_shift_states:
  assumes n: "3 \<le> n" "n < 64" and v: "v \<in> reg_states n"
  shows "reg_shift n v \<in> reg_states n"
proof -
  note rm = reg_mask_bits [OF n]
  from v have hi: "\<not> bit v i" if "n \<le> i" for i using that by (simp add: reg_states_iff n)
  from v obtain k where k: "k < n" "\<not> bit v k" by (auto simp: reg_states_iff n)
  have "\<not> bit (reg_shift n v) i" if "n \<le> i" for i
    using that n hi [of "Suc i"] rm(2) [of i] by (auto simp: bit_reg_shift)
  moreover have "\<exists>i < n. \<not> bit (reg_shift n v) i"
  proof (cases "bit v 0")
    case False
    then show ?thesis using n rm(1) by (intro exI [of _ "n - 1"]) (auto simp: bit_reg_shift)
  next
    case True
    with k have "0 < k" by (metis gr0I)
    then show ?thesis using k True n by (intro exI [of _ "k - 1"]) (auto simp: bit_reg_shift)
  qed
  ultimately show ?thesis by (simp add: reg_states_iff n)
qed

lemma reg_shift_inj:
  assumes n: "3 \<le> n" "n < 64" and uv: "u \<in> reg_states n" "v \<in> reg_states n"
    and eq: "reg_shift n u = reg_shift n v"
  shows "u = v"
proof -
  note rm = reg_mask_bits [OF n]
  from uv have hi: "\<not> bit u i" "\<not> bit v i" if "n \<le> i" for i
    using that by (simp_all add: reg_states_iff n)
  have e: "bit (reg_shift n u) i \<longleftrightarrow> bit (reg_shift n v) i" for i using eq by simp
  have low: "bit u 0 \<longleftrightarrow> bit v 0"
  proof -
    have "n - 1 < 64" "Suc (n - 1) = n" using n by simp_all
    then show ?thesis using e [of "n - 1"] rm(1) hi [of n] by (simp add: bit_reg_shift)
  qed
  show ?thesis
  proof (rule bit_eqI)
    fix i
    show "bit u i = bit v i"
    proof (cases i)
      case (Suc j)
      show ?thesis
      proof (cases "n \<le> i")
        case False
        then have "j \<noteq> n - 1" using Suc by simp
        then show ?thesis using e [of j] low Suc by (auto simp: bit_reg_shift)
      qed (simp add: hi)
    qed (use low in simp)
  qed
qed

end
