(* ===== verification/Orders.thy ===== *)
theory Orders
  imports Prelude
begin

text \<open>
  How long an iterated function takes to come back to where it started, and the prime numbers that
  answer needs. If \<open>f\<close> returns to \<open>x\<close> after \<open>M\<close> steps, and not after
  \<open>M div q\<close> steps for any prime factor \<open>q\<close> of \<open>M\<close>, it does not return before
  \<open>M\<close>. Applied to the shift register of \<^verbatim>\<open>lib/lfsr.c\<close> this gives the length of its
  cycle, and applied to multiplication modulo \<open>p\<close> it gives a test that \<open>p\<close> is prime.
\<close>

section \<open>Prime numbers\<close>

definition is_prime :: "nat \<Rightarrow> bool" where
  "is_prime p \<longleftrightarrow> 1 < p \<and> (\<forall>m. m dvd p \<longrightarrow> m = 1 \<or> m = p)"

lemma is_prime_gt_1: "is_prime p \<Longrightarrow> 1 < p"
  by (simp add: is_prime_def)

lemma prime_factor:
  assumes "1 < n"
  shows "\<exists>p. is_prime p \<and> p dvd n"
  using assms
proof (induction n rule: less_induct)
  case (less n)
  show ?case
  proof (cases "is_prime n")
    case False
    then obtain m where m: "m dvd n" "m \<noteq> 1" "m \<noteq> n" using less.prems by (auto simp: is_prime_def)
    have "m \<le> n" "m \<noteq> 0" using m(1) less.prems by (auto dest: dvd_imp_le intro: gr0I)
    then have "m < n" "1 < m" using m(2,3) by linarith+
    then show ?thesis using less.IH m(1) by (meson dvd_trans)
  qed auto
qed

lemma is_prime_dvd_mult:
  assumes "is_prime p" "p dvd a * b"
  shows "p dvd a \<or> p dvd b"
proof (cases "p dvd a")
  case False
  have "gcd p a = 1 \<or> gcd p a = p" using assms(1) by (simp add: is_prime_def)
  then have "coprime p a" using False by (metis coprime_iff_gcd_eq_1 gcd_dvd2)
  then show ?thesis using assms(2) by (simp add: coprime_dvd_mult_right_iff)
qed simp

lemma is_prime_dvd_prod_list:
  assumes "is_prime p" "p dvd prod_list qs" "\<forall>q \<in> set qs. is_prime q"
  shows "p \<in> set qs"
  using assms(2,3)
proof (induction qs)
  case Nil
  then show ?case using is_prime_gt_1 [OF assms(1)] by simp
next
  case (Cons q qs)
  have "p dvd q \<or> p dvd prod_list qs" using is_prime_dvd_mult [OF assms(1)] Cons.prems(1) by simp
  then show ?case
  proof
    assume "p dvd q"
    then have "p = q" using Cons.prems(2) is_prime_gt_1 [OF assms(1)] by (auto simp: is_prime_def)
    then show ?thesis by simp
  qed (use Cons in simp)
qed

section \<open>The first return of an iterated function\<close>

lemma funpow_mult_fix: "(f ^^ d) x = x \<Longrightarrow> (f ^^ (k * d)) x = x"
  by (induction k) (simp_all add: funpow_add)

lemma first_return:
  assumes M: "0 < M" "(f ^^ M) x = x"
    and q: "\<And>q. is_prime q \<Longrightarrow> q dvd M \<Longrightarrow> (f ^^ (M div q)) x \<noteq> x"
    and k: "0 < k" "k < M"
  shows "(f ^^ k) x \<noteq> x"
proof
  assume "(f ^^ k) x = x"
  define d where "d = (LEAST d. 0 < d \<and> (f ^^ d) x = x)"
  have d: "0 < d" "(f ^^ d) x = x" "d \<le> k"
    using LeastI [of "\<lambda>d. 0 < d \<and> (f ^^ d) x = x" k] k(1) \<open>(f ^^ k) x = x\<close>
    by (auto simp: d_def intro: Least_le)
  have "(f ^^ (M mod d)) x = x"
  proof -
    have "M mod d + M div d * d = M" by (rule mod_div_mult_eq)
    then have "(f ^^ M) x = (f ^^ (M mod d)) ((f ^^ (M div d * d)) x)"
      using funpow_add [of "M mod d" "M div d * d" f] by (metis comp_apply)
    then show ?thesis using M(2) funpow_mult_fix [OF d(2)] by simp
  qed
  then have "\<not> 0 < M mod d"
    using not_less_Least [of "M mod d" "\<lambda>d. 0 < d \<and> (f ^^ d) x = x"] d(1) by (auto simp: d_def [symmetric])
  then obtain e where e: "M = d * e" by (auto elim: dvdE)
  have "e \<noteq> 0" "e \<noteq> 1" using e d(3) k(2) by (auto intro: gr0I)
  then have "1 < e" by simp
  then obtain p where p: "is_prime p" "p dvd e" using prime_factor by blast
  then obtain c where "e = p * c" by (auto elim: dvdE)
  then have "M div p = c * d" using e is_prime_gt_1 [OF p(1)] by simp
  moreover have "p dvd M" using p(2) e by simp
  ultimately show False using q [OF p(1)] funpow_mult_fix [OF d(2)] by simp
qed

section \<open>A test for primes\<close>

definition pow_mod_step :: "int \<Rightarrow> int \<Rightarrow> int \<Rightarrow> int \<Rightarrow> int" where
  "pow_mod_step p a e h = (if e mod 2 = 1 then (h * h mod p) * a mod p else h * h mod p)"

function pow_mod :: "int \<Rightarrow> int \<Rightarrow> int \<Rightarrow> int" where
  "pow_mod p a e =
     (if e \<le> 0 then 1 else pow_mod_step p a e (pow_mod p a (e div 2)))"
  by auto
termination by (relation "measure (\<lambda>(p, a, e). nat e)") auto

declare pow_mod.simps [simp del]

lemma pow_mod_eq: "1 < p \<Longrightarrow> pow_mod p a (int e) = a ^ e mod p"
proof (induction e rule: less_induct)
  case (less e)
  show ?case
  proof (cases "e = 0")
    case False
    have h: "pow_mod p a (int e div 2) = a ^ (e div 2) mod p"
      using less.IH [of "e div 2"] False less.prems by (simp add: zdiv_int)
    have "int e mod 2 = 1 \<longleftrightarrow> odd e" by (metis even_iff_mod_2_eq_zero even_of_nat odd_iff_mod_2_eq_one)
    moreover have "a ^ e = a ^ (e div 2) * a ^ (e div 2) * (if odd e then a else 1)"
      by (cases "even e") (auto elim!: evenE oddE simp: power_add mult_2)
    moreover have "(a ^ (e div 2) mod p) * (a ^ (e div 2) mod p) mod p = a ^ (e div 2) * a ^ (e div 2) mod p"
      by (rule mod_mult_eq)
    ultimately show ?thesis using False
      by (subst pow_mod.simps) (simp only: h pow_mod_step_def, simp add: mod_mult_left_eq)
  qed (use less.prems in \<open>simp add: pow_mod.simps\<close>)
qed

text \<open>
  Pocklington's test: some \<open>c\<close> has order \<open>F\<close> modulo every prime factor of \<open>n\<close>, so all of
  them are above \<open>F\<close>, and \<open>n \<le> F * F\<close>. The list has the prime factors of \<open>F\<close>.
\<close>

lemma order_le:
  assumes r: "1 < r" and one: "a ^ m mod r = (1 :: nat)" and "0 < m"
    and distinct: "\<And>k. 0 < k \<Longrightarrow> k < m \<Longrightarrow> a ^ k mod r \<noteq> 1"
  shows "m < r"
proof -
  have inj: "inj_on (\<lambda>k. a ^ k mod r) {..<m}"
  proof (rule linorder_inj_onI)
    fix i j assume ij: "i < j" "i \<in> {..<m}" "j \<in> {..<m}"
    show "a ^ i mod r \<noteq> a ^ j mod r"
    proof
      assume e: "a ^ i mod r = a ^ j mod r"
      let ?d = "m - j"
      have "a ^ (i + ?d) mod r = a ^ i mod r * a ^ ?d mod r" by (simp add: power_add mod_mult_left_eq)
      also have "\<dots> = a ^ (j + ?d) mod r" unfolding e by (simp add: power_add mod_mult_left_eq)
      also have "j + ?d = m" using ij(3) by simp
      finally have "a ^ (i + ?d) mod r = 1" using one by simp
      moreover have "0 < i + ?d" "i + ?d < m" using ij by auto
      ultimately show False using distinct [of "i + ?d"] by simp
    qed
  qed auto
  have "a ^ k mod r \<noteq> 0" if "k < m" for k
  proof
    assume "a ^ k mod r = 0"
    then have "a ^ k * a ^ (m - k) mod r = 0" by (simp add: mod_eq_0_iff_dvd)
    then show False using one that by (simp flip: power_add)
  qed
  then have "(\<lambda>k. a ^ k mod r) ` {..<m} \<subseteq> {1..<r}" using r by (auto simp: Suc_le_eq)
  then have "card ((\<lambda>k. a ^ k mod r) ` {..<m}) \<le> card {1..<r}" by (rule card_mono [rotated]) simp
  then show ?thesis using r by (simp add: card_image [OF inj])
qed

lemma funpow_pow_mod:
  "1 < p \<Longrightarrow> ((\<lambda>x. x * a mod p) ^^ k) 1 = a ^ k mod (p :: nat)"
proof (induction k)
  case (Suc k)
  then show ?case by (simp add: mod_mult_left_eq mult.commute [of a])
qed simp

lemma pocklington:
  assumes n: "1 < n" "n \<le> F * F" and one: "c ^ F mod n = (1 :: nat)" and "0 < F"
    and q: "\<And>q r. is_prime q \<Longrightarrow> q dvd F \<Longrightarrow> is_prime r \<Longrightarrow> r dvd n \<Longrightarrow> c ^ (F div q) mod r \<noteq> 1"
  shows "is_prime n"
proof (rule ccontr)
  assume "\<not> is_prime n"
  then obtain m where m: "m dvd n" "m \<noteq> 1" "m \<noteq> n" using n(1) by (auto simp: is_prime_def)
  then obtain k where k: "n = m * k" by (auto elim: dvdE)
  have "m \<noteq> 0" "k \<noteq> 0" "k \<noteq> 1" using k m(3) n(1) by (auto intro: gr0I)
  then have "1 < min m k" "min m k dvd n" using m(2) k by (auto simp: min_def)
  then obtain r where r: "is_prime r" "r dvd min m k" using prime_factor by blast
  then have rn: "r dvd n" using \<open>min m k dvd n\<close> by (blast intro: dvd_trans)
  note r1 = is_prime_gt_1 [OF r(1)]
  have one_r: "c ^ F mod r = 1"
  proof -
    have "c ^ F mod r = c ^ F mod n mod r" using rn by (simp add: mod_mod_cancel)
    then show ?thesis using one r1 by simp
  qed
  have "F < r"
  proof (rule order_le [OF r1 one_r \<open>0 < F\<close>])
    fix k assume k: "0 < k" "k < F"
    have "((\<lambda>x. x * c mod r) ^^ k) 1 \<noteq> 1"
    proof (rule first_return [OF \<open>0 < F\<close> _ _ k])
      show "((\<lambda>x. x * c mod r) ^^ F) 1 = 1" by (simp only: funpow_pow_mod [OF r1] one_r)
      fix q' assume "is_prime q'" "q' dvd F"
      from q [OF this r(1) rn] show "((\<lambda>x. x * c mod r) ^^ (F div q')) 1 \<noteq> 1"
        unfolding funpow_pow_mod [OF r1] .
    qed
    then show "c ^ k mod r \<noteq> 1" unfolding funpow_pow_mod [OF r1] .
  qed
  moreover have "r \<le> m" "r \<le> k" using r(2) \<open>1 < min m k\<close> by (auto dest!: dvd_imp_le)
  ultimately have "F * F < m * k" by (intro mult_strict_mono) auto
  then show False using n(2) k by simp
qed

fun cofactors_ok :: "int \<Rightarrow> int \<Rightarrow> int list \<Rightarrow> bool" where
  "cofactors_ok n c [] \<longleftrightarrow> c = 1"
| "cofactors_ok n c (q # qs) \<longleftrightarrow>
     gcd (pow_mod n c (prod_list qs) - 1) n = 1 \<and> cofactors_ok n (pow_mod n c q) qs"

definition pocklington_ok :: "int \<Rightarrow> int \<Rightarrow> int list \<Rightarrow> int list \<Rightarrow> bool" where
  "pocklington_ok n a qs es \<longleftrightarrow>
     1 < n \<and> (n - 1) mod (prod_list qs * prod_list es) = 0
     \<and> n \<le> (prod_list qs * prod_list es) * (prod_list qs * prod_list es)
     \<and> list_all (\<lambda>e. e \<in> set qs) es
     \<and> cofactors_ok n (pow_mod n a ((n - 1) div prod_list qs)) qs"

lemma cofactors_ok_powers:
  assumes "1 < n" "cofactors_ok n c (map int ks)" "\<forall>k \<in> set ks. 0 < k"
  shows "c ^ prod_list ks mod n = 1 \<and> (\<forall>k \<in> set ks. gcd (c ^ (prod_list ks div k) mod n - 1) n = 1)"
  using assms(2,3)
proof (induction ks arbitrary: c)
  case Nil
  then show ?case using assms(1) by simp
next
  case (Cons k ks)
  have pl: "prod_list (map int xs) = int (prod_list xs)" for xs by (induction xs) simp_all
  let ?P = "prod_list ks"
  have k: "0 < k" using Cons.prems by simp
  have pw: "(c ^ k mod n) ^ m mod n = c ^ (k * m) mod n" for m
    by (simp only: power_mod power_mult)
  have "cofactors_ok n (c ^ k mod n) (map int ks)" "gcd (c ^ ?P mod n - 1) n = 1"
    using Cons.prems(1) by (simp_all add: pow_mod_eq [OF assms(1)] pl)
  moreover from Cons.IH [OF this(1)] Cons.prems(2) have
    "c ^ (k * ?P) mod n = 1" "\<forall>j \<in> set ks. gcd (c ^ (k * (?P div j)) mod n - 1) n = 1"
    by (simp_all add: pw)
  moreover have "k * (?P div j) = k * ?P div j" if "j \<in> set ks" for j
    using that by (simp add: div_mult_swap [OF prod_list_dvd])
  ultimately show ?case using k by simp
qed

lemma map_nat_int: "\<forall>q \<in> set qs. is_prime (nat q) \<Longrightarrow> map int (map nat qs) = qs"
proof (induction qs)
  case (Cons q qs)
  then show ?case using is_prime_gt_1 [of "nat q"] by simp
qed simp

lemma prod_list_int: "prod_list (map int ks) = int (prod_list ks)"
  by (induction ks) simp_all

lemma gcd_pred_mod_ne_1:
  assumes "gcd (int x - 1) (int n) = 1" "is_prime r" "r dvd n"
  shows "x mod r \<noteq> 1"
proof
  assume "x mod r = 1"
  then have "int x mod int r = 1" by (simp flip: zmod_int)
  then have "int r dvd int x - 1" by (metis mod_eq_dvd_iff mod_mod_trivial)
  then have "int r dvd 1" using assms(1,3) by (metis gcd_greatest int_dvd_int_iff)
  then show False using is_prime_gt_1 [OF assms(2)] by simp
qed

lemma pocklington_ok_prime:
  assumes ok: "pocklington_ok (int n) (int a) (map int ks) (map int es)" and ks: "\<forall>k \<in> set ks. is_prime k"
  shows "is_prime n"
proof -
  define P E R where PER: "P = prod_list ks" "E = prod_list es" "R = (n - 1) div (P * E)"
  have n: "1 < n" and es: "set es \<subseteq> set ks" and sq: "n \<le> (P * E) * (P * E)"
    and d: "(int n - 1) mod (int P * int E) = 0"
    and co: "cofactors_ok (int n) (pow_mod (int n) (int a) ((int n - 1) div int P)) (map int ks)"
  proof -
    note ok = ok [unfolded pocklington_ok_def prod_list_int, folded PER(1,2)]
    show "1 < n" "set es \<subseteq> set ks" using ok by (auto simp: list_all_iff)
    have "int n \<le> int ((P * E) * (P * E))" using ok by (simp only: of_nat_mult)
    then show "n \<le> (P * E) * (P * E)" by linarith
    show "(int n - 1) mod (int P * int E) = 0"
      "cofactors_ok (int n) (pow_mod (int n) (int a) ((int n - 1) div int P)) (map int ks)"
      using ok by blast+
  qed
  have n1: "int n - 1 = int (n - 1)" using n by simp
  have "P * E dvd n - 1" using d by (simp only: n1 of_nat_mult [symmetric] mod_0_imp_dvd int_dvd_int_iff [symmetric])
  then have R: "n - 1 = P * E * R" by (simp add: PER)
  have pos: "0 < P" "0 < E" using n R by (auto intro: gr0I)
  have "(n - 1) div P = E * R" using R pos by simp
  then have e: "(int n - 1) div int P = int (E * R)" by (simp only: n1 flip: zdiv_int)
  define c where "c = a ^ R mod n"
  have c: "int (c ^ E mod n) = pow_mod (int n) (int a) ((int n - 1) div int P)"
  proof -
    have "pow_mod (int n) (int a) (int (E * R)) = int a ^ (E * R) mod int n" by (rule pow_mod_eq) (use n in simp)
    then show ?thesis
      unfolding e c_def by (simp add: zmod_int power_mod mult.commute [of E] flip: power_mult)
  qed
  have k0: "\<forall>k \<in> set ks. 0 < k" using ks is_prime_gt_1 by fastforce
  note p = cofactors_ok_powers [OF _ co [folded c] k0, folded PER]
  have pw: "int (c ^ E mod n) ^ m mod int n = int (c ^ (E * m) mod n)" for m
    by (simp only: of_nat_power [symmetric] zmod_int [symmetric] power_mod power_mult)
  show ?thesis
  proof (rule pocklington [OF n sq])
    show "c ^ (P * E) mod n = 1" using p n unfolding pw by (simp add: mult.commute)
    show "0 < P * E" using pos by simp
    fix q r assume q: "is_prime q" "q dvd P * E" and r: "is_prime r" "r dvd n"
    have "\<forall>e \<in> set es. is_prime e" using es ks by blast
    then have qk: "q \<in> set ks"
      using is_prime_dvd_mult [OF q] is_prime_dvd_prod_list [OF q(1)] ks es by (auto simp: PER)
    then have "P * E div q = E * (P div q)"
      using div_mult_swap [OF prod_list_dvd, of q ks E] by (simp add: PER mult.commute)
    then have "gcd (int (c ^ (P * E div q) mod n) - 1) (int n) = 1" using p n qk unfolding pw by simp
    then have "c ^ (P * E div q) mod n mod r \<noteq> 1" by (rule gcd_pred_mod_ne_1 [OF _ r])
    then show "c ^ (P * E div q) mod r \<noteq> 1" using r(2) by (simp add: mod_mod_cancel)
  qed
qed

section \<open>A table of primes\<close>

text \<open>Each row is a prime, a base, and prime factors of its predecessor from the rows before.\<close>

fun rows_ok :: "int list \<Rightarrow> (int \<times> int \<times> int list \<times> int list) list \<Rightarrow> bool" where
  "rows_ok ps [] \<longleftrightarrow> True"
| "rows_ok ps ((p, a, qs, es) # rs) \<longleftrightarrow>
     list_all (\<lambda>q. q \<in> set ps) qs \<and> pocklington_ok p a qs es \<and> 0 \<le> a \<and> rows_ok (p # ps) rs"

lemma rows_ok_primes:
  "rows_ok ps rs \<Longrightarrow> list_all (is_prime \<circ> nat) ps \<Longrightarrow> list_all (is_prime \<circ> nat) (map fst rs)"
proof (induction ps rs rule: rows_ok.induct)
  case (2 ps p a qs es rs)
  have qs: "\<forall>q \<in> set qs. is_prime (nat q)" and ok: "pocklington_ok p a qs es" and a: "0 \<le> a"
    using "2.prems" by (auto simp: list_all_iff)
  have "\<forall>e \<in> set es. is_prime (nat e)" using qs ok by (auto simp: pocklington_ok_def list_all_iff)
  note mni = map_nat_int [OF qs] map_nat_int [OF this]
  have "1 < p" using ok by (simp add: pocklington_ok_def)
  then have "pocklington_ok (int (nat p)) (int (nat a)) (map int (map nat qs)) (map int (map nat es))"
    unfolding mni using ok a by simp
  then have "is_prime (nat p)" by (rule pocklington_ok_prime) (use qs in auto)
  then show ?case using 2 by simp
qed simp

definition small_primes :: "int list" where
  "small_primes = [2, 3, 5, 7, 11, 13, 17, 19, 23, 29, 31, 37, 41, 43, 47]"

lemma small_primes_trial: "list_all (\<lambda>p. 1 < p \<and> list_all (\<lambda>d. p mod d \<noteq> 0 \<or> p = d) [2, 3, 4, 5, 6]) small_primes"
  by code_simp

lemma trial_prime:
  assumes "1 < p" "p < 49" "\<And>d. 2 \<le> d \<Longrightarrow> d \<le> 6 \<Longrightarrow> \<not> d dvd p \<or> p = d"
  shows "is_prime p"
proof (rule ccontr)
  assume "\<not> is_prime p"
  then obtain m where m: "m dvd p" "m \<noteq> 1" "m \<noteq> p" using assms(1) by (auto simp: is_prime_def)
  then obtain k where k: "p = m * k" by (auto elim: dvdE)
  have "m \<noteq> 0" "k \<noteq> 0" "k \<noteq> 1" using k m(3) assms(1) by (auto intro: gr0I)
  moreover have "\<not> (7 \<le> m \<and> 7 \<le> k)"
  proof
    assume "7 \<le> m \<and> 7 \<le> k"
    then have "7 * 7 \<le> m * k" by (intro mult_le_mono) simp_all
    then show False using assms(2) k by simp
  qed
  ultimately consider "2 \<le> m" "m \<le> 6" | "2 \<le> k" "k \<le> 6" using m(2) by linarith
  then show False
  proof cases
    case 2
    then have "\<not> k dvd p \<or> p = k" by (rule assms(3))
    then show ?thesis using k m(2) \<open>k \<noteq> 0\<close> by simp
  qed (use assms(3) m in blast)
qed

lemma small_primes: "list_all (is_prime \<circ> nat) small_primes"
proof -
  have "is_prime (nat p)" if "p \<in> set small_primes" for p
  proof (rule trial_prime)
    have t: "1 < p" "p < 49" "\<forall>d \<in> {2, 3, 4, 5, 6}. p mod d \<noteq> 0 \<or> p = d"
      using small_primes_trial that by (auto simp: list_all_iff small_primes_def)
    then show "1 < nat p" "nat p < 49" by simp_all
    fix d :: nat assume d: "2 \<le> d" "d \<le> 6"
    then have "int d \<in> {2, 3, 4, 5, 6}" by auto
    from bspec [OF t(3) this] have "p mod int d \<noteq> 0 \<or> p = int d" .
    moreover have "int (nat p) = p" using t(1) by simp
    then have "d dvd nat p \<longleftrightarrow> p mod int d = 0" by (metis int_dvd_int_iff dvd_eq_mod_eq_0)
    ultimately show "\<not> d dvd nat p \<or> nat p = d" by auto
  qed
  then show ?thesis by (simp add: list_all_iff)
qed

definition prime_rows :: "(int \<times> int \<times> int list \<times> int list) list" where
  "prime_rows = [
     (53, 2, [13], []), (59, 2, [29], []), (61, 2, [3, 2], [2]), (71, 7, [5, 2], []), (73, 2, [3], [3]),
     (79, 2, [13], []), (89, 2, [11], []), (97, 5, [2], [2, 2, 2]), (103, 2, [17], []),
     (109, 3, [3], [3, 3]), (113, 3, [2], [2, 2, 2]), (127, 3, [3, 2], [3]), (151, 3, [5], [5]),
     (157, 2, [13], []), (163, 2, [3], [3, 3]), (173, 2, [43], []), (197, 2, [7], [7]), (223, 2, [37], []),
     (233, 2, [29], []), (241, 7, [2], [2, 2, 2]), (251, 3, [5], [5]), (257, 3, [2], [2, 2, 2, 2]),
     (293, 2, [73], []), (331, 3, [11, 2], []), (337, 10, [3, 2], [2, 2]), (389, 2, [97], []),
     (397, 5, [3, 2], [3, 2]), (431, 2, [43], []), (439, 2, [73], []), (569, 2, [71], []),
     (601, 2, [5], [5]), (617, 3, [7, 2], [2]), (631, 3, [7, 5], []), (673, 5, [2], [2, 2, 2, 2]),
     (683, 3, [31], []), (881, 3, [5, 2], [2, 2]), (1039, 2, [173], []), (1103, 5, [19, 2], []),
     (1289, 6, [7, 2], [2, 2]), (1321, 13, [5, 2], [2, 2]), (1613, 2, [13, 2], [2]),
     (1801, 11, [3, 2], [3, 2, 2]), (2089, 7, [3, 2], [3, 2, 2]), (2113, 5, [2], [2, 2, 2, 2, 2]),
     (2143, 3, [7, 3], [3]), (2179, 2, [11], [11]), (2351, 13, [5, 2], [5]), (2713, 2, [113], []),
     (2731, 3, [13, 5], []), (3191, 11, [29, 2], []), (4051, 3, [3], [3, 3, 3]),
     (4513, 7, [3, 2], [2, 2, 2, 2]), (5419, 3, [43, 2], []), (6361, 7, [53, 2], []),
     (8191, 3, [13, 7], []), (8501, 3, [5], [5, 5]), (9719, 3, [113], []), (10639, 2, [197], []),
     (11119, 3, [109], []), (13367, 3, [163], []), (23311, 3, [37, 5], []), (32377, 5, [71, 3], []),
     (43691, 3, [257], []), (61681, 3, [257], []), (65537, 3, [2], [2, 2, 2, 2, 2, 2, 2, 2]),
     (69431, 3, [53, 5], []), (87211, 3, [19, 17], []), (92737, 5, [3, 2], [3, 2, 2, 2, 2, 2])]"

definition large_prime_rows :: "(int \<times> int \<times> int list \<times> int list) list" where
  "large_prime_rows = [
     (121369, 3, [389], []), (122921, 3, [439], []), (131071, 3, [257, 2], []), (174763, 3, [73, 7], []),
     (178481, 3, [97, 5], []), (179951, 3, [61, 59], []), (201961, 5, [17, 3], [3, 3]),
     (262657, 5, [3, 2], [3, 3, 2, 2, 2, 2]), (524287, 3, [73, 19], []), (599479, 6, [293, 3], []),
     (649657, 3, [1289], []), (1212847, 3, [10639], []), (2099863, 3, [2713], []),
     (2796203, 3, [89, 23], []), (3033169, 3, [2179], []), (8060489, 2, [617, 23], []),
     (13264529, 3, [569, 31], []), (15790321, 19, [241, 3, 2], [3]),
     (20394401, 3, [13, 5, 2], [5, 2, 2, 2]), (164511353, 3, [8501, 2], []),
     (616318177, 3, [1039, 37], []), (715827883, 3, [331, 151], []), (2147483647, 3, [331, 151], []),
     (3203431780337, 3, [8060489], []), (4432676798593, 5, [337, 7, 2], [7, 2, 2, 2, 2, 2, 2])]"

definition mersenne_row :: "(int \<times> int \<times> int list \<times> int list) list" where
  "mersenne_row = [(2305843009213693951, 3, [1321, 331, 151, 31], [])]"

lemma prime_rows_ok: "rows_ok small_primes prime_rows"
  by code_simp

lemma large_prime_rows_ok: "rows_ok (rev (map fst prime_rows) @ small_primes) large_prime_rows"
  by code_simp

lemma mersenne_row_ok: "rows_ok (rev (map fst prime_rows) @ small_primes) mersenne_row"
  by code_simp

definition known_primes :: "int list" where
  "known_primes = small_primes @ map fst (prime_rows @ large_prime_rows @ mersenne_row)"

lemma known_primes: "\<forall>p \<in> set known_primes. is_prime (nat p)"
proof -
  note 1 = rows_ok_primes [OF prime_rows_ok small_primes]
  then have "list_all (is_prime \<circ> nat) (rev (map fst prime_rows) @ small_primes)"
    using small_primes by (auto simp: list_all_iff)
  note 2 = rows_ok_primes [OF large_prime_rows_ok this] rows_ok_primes [OF mersenne_row_ok this]
  show ?thesis using 1 2 small_primes by (auto simp: known_primes_def list_all_iff)
qed

end
