(* ===== verification/Lfsr_Maximal.thy ===== *)
theory Lfsr_Maximal
  imports Lfsr Orders
begin

text \<open>
  Every row of the tap table of \<^verbatim>\<open>lib/lfsr.c\<close> has maximal length: from 0 the register of
  \<open>n\<close> bits first meets 0 again after \<open>2 ^ n - 1\<close> shifts. Seen from the complement of its
  value, a shift is linear over exclusive or. Its powers are therefore polynomials in the shift,
  kept reduced as lists of \<open>n\<close> bits and raised to powers by squaring; by the theorem on first
  returns it is enough to compute the powers \<open>2 ^ n - 1\<close> and \<open>(2 ^ n - 1) div q\<close> for the
  prime factors \<open>q\<close>.
\<close>

section \<open>The register and its complement\<close>

definition reg_period :: "nat \<Rightarrow> nat" where
  "reg_period n = 2 ^ n - 1"

definition reg_pos :: "nat \<Rightarrow> nat \<Rightarrow> u64" where
  "reg_pos n k = (reg_shift n ^^ k) 0"

definition reg_maximal :: "nat \<Rightarrow> bool" where
  "reg_maximal n \<longleftrightarrow> (\<forall>k. 0 < k \<and> k < reg_period n \<longrightarrow> reg_pos n k \<noteq> 0)"

lemma reg_period_pos: "3 \<le> n \<Longrightarrow> 6 < reg_period n"
proof -
  assume "3 \<le> n"
  then have "(2 :: nat) ^ 3 \<le> 2 ^ n" by (intro power_increasing) simp_all
  then show ?thesis by (simp add: reg_period_def)
qed

lemma reg_pos_states:
  assumes n: "3 \<le> n" "n < 64"
  shows "reg_pos n k \<in> reg_states n"
proof (induction k)
  case 0
  show ?case using reg_period_pos [OF n(1)] by (simp add: reg_pos_def reg_states_def reg_period_def)
next
  case (Suc k)
  then show ?case using reg_shift_states [OF n] by (simp add: reg_pos_def)
qed

definition int_shr :: "int \<Rightarrow> int \<Rightarrow> int" where
  "int_shr m w = (if w mod 2 = 1 then (w div 2) XOR m else w div 2)"

lemma bit_int_shr: "bit (int_shr m w) i \<longleftrightarrow> bit w (Suc i) \<noteq> (bit w 0 \<and> bit m i)"
proof -
  have "w mod 2 = 1 \<longleftrightarrow> bit w 0" by (simp only: odd_iff_mod_2_eq_one [symmetric] bit_0)
  moreover have "bit (w div 2) i = bit w (Suc i)" by (simp only: bit_Suc)
  ultimately show ?thesis by (simp add: int_shr_def bit_xor_iff)
qed

text \<open>The way back, for a register whose last bit is \<open>k\<close> and in the mask.\<close>

definition int_shl :: "nat \<Rightarrow> int \<Rightarrow> int \<Rightarrow> int" where
  "int_shl k m w = (if bit w k then (2 * w) XOR (2 * m + 1) else 2 * w)"

lemma bit_double: "bit (2 * w :: int) i \<longleftrightarrow> (\<exists>j. i = Suc j \<and> bit w j)"
  "bit (2 * w + 1 :: int) i \<longleftrightarrow> i = 0 \<or> (\<exists>j. i = Suc j \<and> bit w j)"
  by (cases i; simp add: bit_Suc bit_0)+

lemma bit_int_shl: "bit (int_shl k m w) i \<longleftrightarrow>
    (\<exists>j. i = Suc j \<and> bit w j) \<noteq> (bit w k \<and> (i = 0 \<or> (\<exists>j. i = Suc j \<and> bit m j)))"
  by (simp add: int_shl_def bit_double bit_xor_iff)

lemma int_shl_shr:
  assumes "\<And>i. Suc k \<le> i \<Longrightarrow> \<not> bit w i" "bit m k" "\<And>i. Suc k \<le> i \<Longrightarrow> \<not> bit m i"
  shows "int_shl k m (int_shr m w) = w"
proof (rule bit_eqI)
  fix i
  have k: "bit (int_shr m w) k \<longleftrightarrow> bit w 0" using assms(1,2) by (simp add: bit_int_shr)
  show "bit (int_shl k m (int_shr m w)) i = bit w i"
    by (cases i) (auto simp: bit_int_shl k, auto simp: bit_int_shr)
qed

definition reg_int :: "nat \<Rightarrow> int" where
  "reg_int n = uint (reg_mask n)"

lemma bit_uint64: "bit (uint (v :: u64)) j = bit v j"
  by (auto simp: bit_uint_iff dest: bit_imp_le_length)

lemma reg_shift_complement:
  assumes n: "3 \<le> n" "n < 64" and v: "v \<in> reg_states n"
  shows "uint (reg_shift n v) XOR mask n = int_shr (reg_int n) (uint v XOR mask n)"
proof (rule bit_eqI)
  fix i
  have hi: "\<not> bit v j" if "n \<le> j" for j using v that by (simp add: reg_states_iff n)
  have hs: "\<not> bit (reg_shift n v) j" if "n \<le> j" for j
    using reg_shift_states [OF n v] that by (simp add: reg_states_iff n)
  note rm = reg_mask_bits [OF n]
  have "bit (uint v) j = bit v j" "bit (uint (reg_shift n v)) j = bit (reg_shift n v) j"
      "bit (reg_int n) j = bit (reg_mask n) j" for j
    by (simp_all only: reg_int_def bit_uint64)
  then show "bit (uint (reg_shift n v) XOR mask n) i = bit (int_shr (reg_int n) (uint v XOR mask n)) i"
    using n rm(1) rm(2) [of i] hi [of "Suc i"]
    by (cases "i = n - 1") (auto simp: bit_int_shr bit_xor_iff bit_mask_iff bit_reg_shift)
qed

lemma reg_pos_complement:
  assumes n: "3 \<le> n" "n < 64"
  shows "uint (reg_pos n k) XOR mask n = (int_shr (reg_int n) ^^ k) (mask n)"
proof (induction k)
  case (Suc k)
  have "reg_pos n (Suc k) = reg_shift n (reg_pos n k)" by (simp add: reg_pos_def)
  then show ?case
    using reg_shift_complement [OF n reg_pos_states [OF n, of k]] Suc.IH by (simp only: funpow.simps comp_apply)
next
  case 0
  show ?case by (simp only: reg_pos_def funpow.simps id_apply unsigned_0 xor.left_neutral)
qed

lemma reg_pos_0_iff:
  assumes n: "3 \<le> n" "n < 64"
  shows "reg_pos n k = 0 \<longleftrightarrow> (int_shr (reg_int n) ^^ k) (mask n) = mask n"
proof -
  have "uint (reg_pos n k) XOR mask n = mask n \<longleftrightarrow> uint (reg_pos n k) = 0"
    by (metis xor.assoc xor.left_neutral xor_self_eq xor.right_neutral)
  then show ?thesis by (simp add: reg_pos_complement [OF n] uint_0_iff)
qed

lemma shl_power_returns:
  assumes n: "3 \<le> n" "n < 64" and "reg_pos n k = 0"
  shows "(int_shl (n - 1) (reg_int n) ^^ k) (mask n) = mask n"
proof -
  note rm = reg_mask_bits [OF n]
  have inv: "int_shl (n - 1) (reg_int n) ((int_shr (reg_int n) ^^ Suc j) (mask n)) = (int_shr (reg_int n) ^^ j) (mask n)" for j
  proof -
    have "\<not> bit ((int_shr (reg_int n) ^^ j) (mask n)) i" if "Suc (n - 1) \<le> i" for i
      using reg_pos_states [OF n, of j] that n
      by (auto simp: reg_pos_complement [OF n, symmetric] bit_xor_iff bit_mask_iff bit_uint_iff reg_states_iff)
    moreover have "bit (reg_int n) (n - 1)" using rm(1) n by (simp add: reg_int_def bit_uint_iff)
    moreover have "\<not> bit (reg_int n) i" if "Suc (n - 1) \<le> i" for i
      using that rm(2) [of i] n by (auto simp: reg_int_def bit_uint_iff)
    ultimately show ?thesis unfolding funpow.simps comp_apply by (rule int_shl_shr)
  qed
  have "(int_shl (n - 1) (reg_int n) ^^ j) ((int_shr (reg_int n) ^^ j) (mask n)) = mask n" for j
  proof (induction j)
    case (Suc j)
    then show ?case using inv [of j] by (simp add: funpow_swap1)
  qed simp
  then show ?thesis using assms(3) by (metis reg_pos_0_iff [OF n])
qed

section \<open>Polynomials in a linear function\<close>

definition linear_xor :: "(int \<Rightarrow> int) \<Rightarrow> bool" where
  "linear_xor f \<longleftrightarrow> (\<forall>v w. f (v XOR w) = f v XOR f w)"

lemma linear_xorD: "linear_xor f \<Longrightarrow> f (v XOR w) = f v XOR f w"
  by (simp add: linear_xor_def)

lemma linear_xor_0: "linear_xor f \<Longrightarrow> f 0 = 0"
  by (metis linear_xorD xor_self_eq)

lemma linear_int_shr: "linear_xor (int_shr m)"
  unfolding linear_xor_def by (intro allI bit_eqI) (auto simp: bit_int_shr bit_xor_iff)

lemma linear_int_shl: "linear_xor (int_shl k m)"
  unfolding linear_xor_def by (intro allI bit_eqI) (auto simp: bit_int_shl bit_xor_iff)

text \<open>The coefficient of \<open>x ^ i\<close> is the element \<open>i\<close>; what is missing is 0.\<close>

fun pxor :: "bool list \<Rightarrow> bool list \<Rightarrow> bool list" where
  "pxor [] q = q"
| "pxor (b # p) [] = b # p"
| "pxor (True # p) (True # q) = False # pxor p q"
| "pxor (True # p) (False # q) = True # pxor p q"
| "pxor (False # p) (b # q) = b # pxor p q"

fun add_if :: "bool \<Rightarrow> int \<Rightarrow> int \<Rightarrow> int" where
  "add_if True w v = w XOR v"
| "add_if False w v = v"

fun pact :: "(int \<Rightarrow> int) \<Rightarrow> bool list \<Rightarrow> int \<Rightarrow> int" where
  "pact f [] w = 0"
| "pact f (b # p) w = add_if b w (f (pact f p w))"

lemma add_if_xor: "add_if b w v = (if b then w else 0) XOR v"
  by (cases b) simp_all

lemma xor_cancel: "(a :: int) XOR (a XOR b) = b"
  by (simp flip: xor.assoc)

lemma pact_pxor: "linear_xor f \<Longrightarrow> pact f (pxor p q) w = pact f p w XOR pact f q w"
  by (induction p q rule: pxor.induct) (simp_all add: linear_xorD xor.assoc xor.left_commute xor_cancel add_if_xor)

lemma pact_xor: "linear_xor f \<Longrightarrow> pact f p (v XOR w) = pact f p v XOR pact f p w"
  by (induction p) (simp_all add: linear_xorD xor.assoc xor.left_commute add_if_xor)

lemma pact_0: "linear_xor f \<Longrightarrow> pact f p 0 = 0"
  by (induction p) (simp_all add: linear_xor_0 add_if_xor)

lemma pact_f: "linear_xor f \<Longrightarrow> pact f p (f w) = f (pact f p w)"
  by (induction p) (simp_all add: linear_xorD linear_xor_0 add_if_xor)

lemma pact_shifted: "linear_xor f \<Longrightarrow> pact f (replicate k False @ p) w = (f ^^ k) (pact f p w)"
  by (induction k) simp_all

fun psquare :: "bool list \<Rightarrow> bool list" where
  "psquare [] = []"
| "psquare (b # p) = b # False # psquare p"

lemma pact_psquare: "linear_xor f \<Longrightarrow> pact f (psquare p) w = pact f p (pact f p w)"
  by (induction p) (simp_all add: linear_xor_0 linear_xorD pact_0 pact_xor pact_f xor.assoc xor_cancel add_if_xor)

text \<open>
  Reduction by \<open>x ^ n\<close> for the length \<open>n\<close> of the list \<open>zs\<close>: the part of \<open>p\<close> from
  \<open>x ^ n\<close> on is added again at each of the exponents that replace \<open>x ^ n\<close>.
\<close>

fun pcons :: "bool \<Rightarrow> bool list \<times> bool list \<Rightarrow> bool list \<times> bool list" where
  "pcons b (l, h) = (b # l, h)"

fun psplit :: "bool list \<Rightarrow> bool list \<Rightarrow> bool list \<times> bool list" where
  "psplit [] p = ([], p)"
| "psplit (z # zs) [] = ([], [])"
| "psplit (z # zs) (b # p) = pcons b (psplit zs p)"

fun pspread :: "bool list list \<Rightarrow> bool list \<Rightarrow> bool list" where
  "pspread [] p = []"
| "pspread (zs # zss) p = pxor (zs @ p) (pspread zss p)"

fun preduce :: "bool list \<Rightarrow> bool list list \<Rightarrow> bool list \<Rightarrow> bool list \<times> bool list \<Rightarrow> bool list" where
  "preduce zs zss [] (l, h) = l @ h"
| "preduce zs zss (c # fs) (l, []) = l"
| "preduce zs zss (c # fs) (l, b # h) = preduce zs zss fs (psplit zs (pxor l (pspread zss (b # h))))"

fun tap_sum :: "(int \<Rightarrow> int) \<Rightarrow> nat list \<Rightarrow> int \<Rightarrow> int" where
  "tap_sum f [] w = 0"
| "tap_sum f (k # ks) w = (f ^^ k) w XOR tap_sum f ks w"

lemma pact_funpow: "linear_xor f \<Longrightarrow> pact f p ((f ^^ k) w) = (f ^^ k) (pact f p w)"
  by (induction k) (simp_all add: pact_f)

lemma pact_tap_sum: "linear_xor f \<Longrightarrow> pact f p (tap_sum f ks w) = tap_sum f ks (pact f p w)"
  by (induction ks) (simp_all add: pact_0 pact_xor pact_funpow)

lemma pact_pspread: "linear_xor f \<Longrightarrow> pact f (pspread (map (\<lambda>k. replicate k False) ks) p) w = tap_sum f ks (pact f p w)"
  by (induction ks) (simp_all add: pact_pxor pact_shifted)

lemma pact_append: "linear_xor f \<Longrightarrow> pact f (l @ h) w = pact f l w XOR (f ^^ length l) (pact f h w)"
  by (induction l) (simp_all add: linear_xorD xor.assoc add_if_xor)

lemma psplit_append: "psplit zs p = (l, h) \<Longrightarrow> p = l @ h \<and> (h \<noteq> [] \<longrightarrow> length l = length zs)"
proof (induction zs p arbitrary: l h rule: psplit.induct)
  case (3 z zs b p)
  then show ?case by (cases "psplit zs p") auto
qed auto

lemma pact_preduce:
  assumes lin: "linear_xor f" and replaced: "(f ^^ length zs) w = tap_sum f ks w"
  shows "(h \<noteq> [] \<longrightarrow> length l = length zs) \<Longrightarrow>
    pact f (preduce zs (map (\<lambda>k. replicate k False) ks) fs (l, h)) w = pact f (l @ h) w"
proof (induction fs arbitrary: l h)
  case (Cons c fs)
  show ?case
  proof (cases h)
    case (Cons b h')
    let ?zss = "map (\<lambda>k. replicate k False) ks"
    let ?p = "pxor l (pspread ?zss h)"
    obtain l2 h2 where s: "psplit zs ?p = (l2, h2)" by fastforce
    note a = psplit_append [OF s]
    have l: "length l = length zs" using Cons Cons.prems by simp
    have "preduce zs ?zss (c # fs) (l, h) = preduce zs ?zss fs (l2, h2)" using s by (simp add: Cons)
    then have "pact f (preduce zs ?zss (c # fs) (l, h)) w = pact f ?p w" using Cons.IH [of h2 l2] a by simp
    also have "\<dots> = pact f l w XOR pact f h (tap_sum f ks w)"
      by (simp only: lin pact_pxor pact_pspread pact_tap_sum)
    also have "\<dots> = pact f (l @ h) w"
      by (simp only: lin replaced [symmetric] pact_funpow pact_append l)
    finally show ?thesis .
  qed simp
qed simp

text \<open>The power \<open>x ^ e\<close>, reduced.\<close>

fun pstep :: "bool \<Rightarrow> bool list \<Rightarrow> bool list" where
  "pstep True p = False # psquare p"
| "pstep False p = psquare p"

function ppower :: "bool list \<Rightarrow> bool list list \<Rightarrow> int \<Rightarrow> bool list" where
  "ppower zs zss e = (if e \<le> 0 then [True]
     else preduce zs zss zs (psplit zs (pstep (e mod 2 = 1) (ppower zs zss (e div 2)))))"
  by auto
termination by (relation "measure (\<lambda>(zs, zss, e). nat e)") auto

declare ppower.simps [simp del]

lemma pact_ppower:
  assumes lin: "linear_xor f" and replaced: "(f ^^ length zs) w = tap_sum f ks w"
  shows "pact f (ppower zs (map (\<lambda>k. replicate k False) ks) (int e)) w = (f ^^ e) w"
proof (induction e rule: less_induct)
  case (less e)
  let ?zss = "map (\<lambda>k. replicate k False) ks"
  show ?case
  proof (cases "e = 0")
    case True
    then show ?thesis by (simp add: ppower.simps linear_xor_0 [OF lin])
  next
    case False
    define p where "p = ppower zs ?zss (int e div 2)"
    have "pact f p w = (f ^^ (e div 2)) w"
      using less.IH [of "e div 2"] False by (simp add: p_def zdiv_int)
    then have sq: "pact f (psquare p) w = (f ^^ (e div 2 + e div 2)) w"
      by (simp add: lin pact_psquare pact_funpow funpow_add)
    obtain l h where s: "psplit zs (pstep (int e mod 2 = 1) p) = (l, h)" by fastforce
    have "ppower zs ?zss (int e) = preduce zs ?zss zs (l, h)"
      using False by (subst ppower.simps) (simp only: p_def [symmetric] s, simp)
    then have "pact f (ppower zs ?zss (int e)) w = pact f (pstep (int e mod 2 = 1) p) w"
      using pact_preduce [OF lin replaced, of h l zs] psplit_append [OF s] by simp
    also have "\<dots> = (f ^^ e) w"
    proof (cases "odd e")
      case True
      then have "int e mod 2 = 1" by (metis even_of_nat odd_iff_mod_2_eq_one)
      moreover have "e = Suc (e div 2 + e div 2)" using True by (auto elim: oddE)
      then have "(f ^^ e) w = f ((f ^^ (e div 2 + e div 2)) w)"
        by (metis comp_apply funpow.simps(2))
      ultimately show ?thesis using sq by simp
    next
      case False
      then have "int e mod 2 \<noteq> 1" by (metis even_of_nat odd_iff_mod_2_eq_one)
      moreover have "e div 2 + e div 2 = e" using False by (auto elim: evenE)
      ultimately show ?thesis using sq by simp
    qed
    finally show ?thesis .
  qed
qed

section \<open>The check of a row\<close>

text \<open>
  \<open>f\<close> is the shift or the way back, \<open>ks\<close> the exponents that replace \<open>x ^ n\<close> in it, and
  \<open>qs\<close> and \<open>es\<close> together the prime factors of \<open>2 ^ n - 1\<close>, \<open>qs\<close> without repetitions.
\<close>

definition powers_ok :: "int \<Rightarrow> (int \<Rightarrow> int) \<Rightarrow> bool list \<Rightarrow> bool list list \<Rightarrow> int list \<Rightarrow> int list \<Rightarrow> bool" where
  "powers_ok M f zs zss qs es \<longleftrightarrow>
     prod_list qs * prod_list es = M \<and> list_all (\<lambda>e. e \<in> set qs) es
     \<and> pact f (zs @ [True]) M = pact f (pspread zss [True]) M
     \<and> pact f (ppower zs zss M) M = M
     \<and> list_all (\<lambda>q. pact f (ppower zs zss (M div q)) M \<noteq> M) qs"

lemma powers_ok_first_return:
  assumes f: "linear_xor f" and M: "0 < M"
    and ok: "powers_ok (int M) f (replicate d False) (map (\<lambda>k. replicate k False) ks) qs es"
    and qs: "\<forall>q \<in> set qs. is_prime (nat q)"
    and k: "0 < k" "k < M"
  shows "(f ^^ k) (int M) \<noteq> int M"
proof (rule first_return [OF M _ _ k])
  let ?zss = "map (\<lambda>k. replicate k False) ks"
  have one: "pact f [True] w = w" for w by (simp add: linear_xor_0 [OF f])
  have "pact f (replicate d False @ [True]) (int M) = pact f (pspread ?zss [True]) (int M)"
    using ok by (simp only: powers_ok_def)
  then have "(f ^^ length (replicate d False)) (int M) = tap_sum f ks (int M)"
    by (simp only: pact_shifted [OF f] pact_pspread [OF f] one length_replicate)
  note pw = pact_ppower [OF f this]
  show "(f ^^ M) (int M) = int M" using ok pw [of M] by (simp only: powers_ok_def)
  fix q assume q: "is_prime q" "q dvd M"
  have es: "\<forall>e \<in> set es. is_prime (nat e)" and es_qs: "set es \<subseteq> set qs"
    using ok qs by (auto simp: powers_ok_def list_all_iff)
  note i = map_nat_int [OF qs] map_nat_int [OF es]
  have "prod_list (map int (map nat qs)) * prod_list (map int (map nat es)) = int M"
    unfolding i using ok by (simp only: powers_ok_def)
  then have "prod_list (map nat qs) * prod_list (map nat es) = M"
    by (simp only: prod_list_int of_nat_mult [symmetric] of_nat_eq_iff)
  then have "q \<in> set (map nat qs) \<union> set (map nat es)"
  proof -
    have "q dvd prod_list (map nat qs) \<or> q dvd prod_list (map nat es)"
      using is_prime_dvd_mult [OF q(1)] q(2) \<open>prod_list (map nat qs) * prod_list (map nat es) = M\<close> by blast
    moreover have "\<forall>q \<in> set (map nat qs). is_prime q" "\<forall>q \<in> set (map nat es). is_prime q" using qs es by simp_all
    ultimately show ?thesis using is_prime_dvd_prod_list [OF q(1)] by blast
  qed
  then have "q \<in> set (map nat qs)" using es_qs by auto
  then have "int q \<in> set (map int (map nat qs))" by (simp only: list.set_map [of int] imageI)
  then have "int q \<in> set qs" unfolding i .
  then have "pact f (ppower (replicate d False) ?zss (int M div int q)) (int M) \<noteq> int M"
    using ok by (simp add: powers_ok_def list_all_iff)
  then show "(f ^^ (M div q)) (int M) \<noteq> int M" unfolding pw [of "M div q", unfolded zdiv_int] .
qed

definition zeros :: "nat \<Rightarrow> bool list" where
  "zeros k = replicate k False"

text \<open>A row: the width, whether the way back is taken, the exponents, and the primes.\<close>

definition row_ok :: "nat \<times> bool \<times> nat \<times> nat list \<times> int list \<times> int list \<Rightarrow> bool" where
  "row_ok row = (case row of (n, lft, d, ks, qs, es) \<Rightarrow> 3 \<le> n \<and> n < 64 \<and>
     (if lft then powers_ok (2 ^ n - 1) (int_shl (n - 1) (reg_int n)) (zeros d) (map zeros ks) qs es
      else powers_ok (2 ^ n - 1) (int_shr (reg_int n)) (zeros d) (map zeros ks) qs es))"

lemma row_ok_maximal:
  assumes ok: "row_ok (n, lft, d, ks, qs, es)" and qs: "\<forall>q \<in> set qs. is_prime (nat q)"
  shows "reg_maximal n"
  unfolding reg_maximal_def
proof (intro allI impI notI)
  fix k assume k: "0 < k \<and> k < reg_period n" and z: "reg_pos n k = 0"
  have n: "3 \<le> n" "n < 64" using ok by (simp_all add: row_ok_def)
  have M: "0 < reg_period n" using reg_period_pos [OF n(1)] by simp
  have m: "(2 :: int) ^ n - 1 = int (reg_period n)" "(mask n :: int) = int (reg_period n)"
    by (simp_all add: reg_period_def of_nat_diff mask_eq_exp_minus_1)
  have zs: "zeros = (\<lambda>k. replicate k False)" by (intro ext) (simp add: zeros_def)
  show False
  proof (cases lft)
    case True
    then have "powers_ok (int (reg_period n)) (int_shl (n - 1) (reg_int n)) (replicate d False)
        (map (\<lambda>k. replicate k False) ks) qs es"
      using ok by (simp add: row_ok_def m zs)
    from powers_ok_first_return [OF linear_int_shl M this qs] k
    show ?thesis using shl_power_returns [OF n z] by (simp add: m)
  next
    case False
    then have "powers_ok (int (reg_period n)) (int_shr (reg_int n)) (replicate d False)
        (map (\<lambda>k. replicate k False) ks) qs es"
      using ok by (simp add: row_ok_def m zs)
    from powers_ok_first_return [OF linear_int_shr M this qs] k
    show ?thesis using reg_pos_0_iff [OF n, of k] z by (simp add: m)
  qed
qed

section \<open>All rows\<close>

text \<open>
  The polynomial of width 32 is replaced by its multiple by \<open>x ^ 4 + x ^ 3 + x ^ 2 + 1\<close>, whose
  degree is farther from that of the term below it.
\<close>

type_synonym row = "nat \<times> bool \<times> nat \<times> nat list \<times> int list \<times> int list"

definition rows_3_20 :: "row list" where
  "rows_3_20 = [
     (3, False, 3, [0, 1], [7], []),
     (4, False, 4, [0, 1], [3, 5], []),
     (5, False, 5, [0, 2], [31], []),
     (6, False, 6, [0, 1], [3, 7], [3]),
     (7, False, 7, [0, 1], [127], []),
     (8, False, 8, [0, 2, 3, 4], [3, 5, 17], []),
     (9, False, 9, [0, 4], [7, 73], []),
     (10, False, 10, [0, 3], [3, 11, 31], []),
     (11, False, 11, [0, 2], [23, 89], []),
     (12, True, 12, [0, 1, 4, 6], [3, 5, 7, 13], [3]),
     (13, True, 13, [0, 1, 3, 4], [8191], []),
     (14, True, 14, [0, 1, 3, 5], [3, 43, 127], []),
     (15, False, 15, [0, 1], [7, 31, 151], []),
     (16, False, 16, [0, 1, 3, 12], [3, 5, 17, 257], []),
     (17, False, 17, [0, 3], [131071], []),
     (18, False, 18, [0, 7], [3, 7, 19, 73], [3, 3]),
     (19, True, 19, [0, 1, 2, 6], [524287], []),
     (20, False, 20, [0, 3], [3, 5, 11, 31, 41], [5])]"

definition rows_21_30 :: "row list" where
  "rows_21_30 = [
     (21, False, 21, [0, 2], [7, 127, 337], [7]),
     (22, False, 22, [0, 1], [3, 23, 89, 683], []),
     (23, False, 23, [0, 5], [47, 178481], []),
     (24, False, 24, [0, 1, 2, 7], [3, 5, 7, 13, 17, 241], [3]),
     (25, False, 25, [0, 3], [31, 601, 1801], []),
     (26, True, 26, [0, 1, 2, 6], [3, 2731, 8191], []),
     (27, True, 27, [0, 1, 2, 5], [7, 73, 262657], []),
     (28, False, 28, [0, 3], [3, 5, 29, 43, 113, 127], []),
     (29, False, 29, [0, 2], [233, 1103, 2089], []),
     (30, True, 30, [0, 1, 4, 6], [3, 7, 11, 31, 151, 331], [3])]"

definition rows_31_36 :: "row list" where
  "rows_31_36 = [
     (31, False, 31, [0, 3], [2147483647], []),
     (32, False, 36, [0, 3, 4, 6, 7, 31], [3, 5, 17, 257, 65537], []),
     (33, False, 33, [0, 13], [7, 23, 89, 599479], []),
     (34, True, 34, [0, 1, 2, 27], [3, 43691, 131071], []),
     (35, False, 35, [0, 2], [31, 71, 127, 122921], []),
     (36, False, 36, [0, 11], [3, 5, 7, 13, 19, 37, 73, 109], [3, 3])]"

definition rows_37_42 :: "row list" where
  "rows_37_42 = [
     (37, True, 37, [0, 1, 2, 3, 4, 5], [223, 616318177], []),
     (38, True, 38, [0, 1, 5, 6], [3, 174763, 524287], []),
     (39, False, 39, [0, 4], [7, 79, 8191, 121369], []),
     (40, False, 40, [0, 2, 19, 21], [3, 5, 11, 17, 31, 41, 61681], [5]),
     (41, False, 41, [0, 3], [13367, 164511353], []),
     (42, False, 42, [0, 1, 22, 23], [3, 7, 43, 127, 337, 5419], [3, 7])]"

definition rows_43_47 :: "row list" where
  "rows_43_47 = [
     (43, False, 43, [0, 1, 5, 6], [431, 9719, 2099863], []),
     (44, False, 44, [0, 1, 26, 27], [3, 5, 23, 89, 397, 683, 2113], []),
     (45, False, 45, [0, 1, 3, 4], [7, 31, 73, 151, 631, 23311], []),
     (46, False, 46, [0, 1, 20, 21], [3, 47, 178481, 2796203], []),
     (47, False, 47, [0, 5], [2351, 4513, 13264529], [])]"

definition rows_48_52 :: "row list" where
  "rows_48_52 = [
     (48, False, 48, [0, 1, 27, 28], [3, 5, 7, 13, 17, 97, 241, 257, 673], [3]),
     (49, False, 49, [0, 9], [127, 4432676798593], []),
     (50, False, 50, [0, 1, 26, 27], [3, 11, 31, 251, 601, 1801, 4051], []),
     (51, False, 51, [0, 1, 15, 16], [7, 103, 2143, 11119, 131071], []),
     (52, False, 52, [0, 3], [3, 5, 53, 157, 1613, 2731, 8191], [])]"

definition rows_53_56 :: "row list" where
  "rows_53_56 = [
     (53, False, 53, [0, 1, 15, 16], [6361, 69431, 20394401], []),
     (54, False, 54, [0, 1, 36, 37], [3, 7, 19, 73, 87211, 262657], [3, 3, 3]),
     (55, False, 55, [0, 24], [23, 31, 89, 881, 3191, 201961], []),
     (56, False, 56, [0, 1, 21, 22], [3, 5, 17, 29, 43, 113, 127, 15790321], [])]"

definition rows_57_60 :: "row list" where
  "rows_57_60 = [
     (57, False, 57, [0, 7], [7, 32377, 524287, 1212847], []),
     (58, False, 58, [0, 19], [3, 59, 233, 1103, 2089, 3033169], []),
     (59, False, 59, [0, 1, 21, 22], [179951, 3203431780337], []),
     (60, False, 60, [0, 1], [3, 5, 7, 11, 13, 31, 41, 61, 151, 331, 1321], [3, 5])]"

definition rows_61_63 :: "row list" where
  "rows_61_63 = [
     (61, False, 61, [0, 1, 15, 16], [2305843009213693951], []),
     (62, False, 62, [0, 1, 56, 57], [3, 715827883, 2147483647], []),
     (63, False, 63, [0, 1], [7, 73, 127, 337, 92737, 649657], [7])]"

lemma rows_3_20_ok: "list_all row_ok rows_3_20"
  by code_simp

lemma rows_21_30_ok: "list_all row_ok rows_21_30"
  by code_simp

lemma rows_31_36_ok: "list_all row_ok rows_31_36"
  by code_simp

lemma rows_37_42_ok: "list_all row_ok rows_37_42"
  by code_simp

lemma rows_43_47_ok: "list_all row_ok rows_43_47"
  by code_simp

lemma rows_48_52_ok: "list_all row_ok rows_48_52"
  by code_simp

lemma rows_53_56_ok: "list_all row_ok rows_53_56"
  by code_simp

lemma rows_57_60_ok: "list_all row_ok rows_57_60"
  by code_simp

lemma rows_61_63_ok: "list_all row_ok rows_61_63"
  by code_simp

definition all_rows :: "row list" where
  "all_rows = rows_3_20 @ rows_21_30 @ rows_31_36 @ rows_37_42 @ rows_43_47 @ rows_48_52 @ rows_53_56 @ rows_57_60 @ rows_61_63"

lemma all_rows_ok: "list_all row_ok all_rows"
  by (simp only: all_rows_def list_all_append rows_3_20_ok rows_21_30_ok rows_31_36_ok rows_37_42_ok rows_43_47_ok rows_48_52_ok rows_53_56_ok rows_57_60_ok rows_61_63_ok simp_thms)

lemma all_rows_widths: "map fst all_rows = [3..<64]"
  by code_simp

lemma all_rows_primes: "list_all (\<lambda>(n, lft, d, ks, qs, es). list_all (\<lambda>q. List.member known_primes q) qs) all_rows"
  by code_simp

lemma all_rows_maximal:
  assumes "3 \<le> n" "n < 64"
  shows "reg_maximal n"
proof -
  have "n \<in> fst ` set all_rows" using assms all_rows_widths by (metis atLeastLessThan_iff set_map set_upt)
  then obtain lft d ks qs es where row: "(n, lft, d, ks, qs, es) \<in> set all_rows" by force
  then have "row_ok (n, lft, d, ks, qs, es)" using all_rows_ok by (auto simp: list_all_iff)
  moreover have "\<forall>q \<in> set qs. is_prime (nat q)"
    using row all_rows_primes known_primes by (fastforce simp: list_all_iff)
  ultimately show ?thesis by (rule row_ok_maximal)
qed

end
