(* ===== verification/Lfsr_Correct.thy ===== *)
theory Lfsr_Correct
  imports Lfsr_Maximal
begin

text \<open>
  Correctness of \<^verbatim>\<open>lib/lfsr.c\<close>: with taps of maximal length, \<open>lfsr_next\<close> started by
  \<open>lfsr_init\<close> terminates on every call and yields every block number below the requested
  size exactly once, for every admissible spin and seed.
\<close>

section \<open>Registers of maximal length\<close>

lemma reg_pos_add: "(reg_shift n ^^ j) (reg_pos n k) = reg_pos n (k + j)"
  by (simp add: reg_pos_def funpow_add add.commute)

lemma reg_pos_cancel:
  assumes n: "3 \<le> n" "n < 64" and eq: "reg_pos n (a + c) = reg_pos n (b + c)"
  shows "reg_pos n a = reg_pos n b"
  using eq
proof (induction c)
  case (Suc c)
  then have "reg_shift n (reg_pos n (a + c)) = reg_shift n (reg_pos n (b + c))"
    by (simp add: reg_pos_def)
  then have "reg_pos n (a + c) = reg_pos n (b + c)"
    using reg_shift_inj [OF n] reg_pos_states [OF n] by blast
  then show ?case by (rule Suc.IH)
qed simp

lemma reg_pos_inj:
  assumes n: "3 \<le> n" "n < 64" and m: "reg_maximal n"
  shows "inj_on (reg_pos n) {..<reg_period n}"
proof -
  have "reg_pos n a \<noteq> reg_pos n b" if "a < b" "b < reg_period n" for a b
  proof
    assume "reg_pos n a = reg_pos n b"
    then have "reg_pos n (0 + a) = reg_pos n ((b - a) + a)" using that by simp
    then have "reg_pos n 0 = reg_pos n (b - a)" by (rule reg_pos_cancel [OF n])
    moreover have "reg_pos n (b - a) \<noteq> 0" using m that by (auto simp: reg_maximal_def)
    ultimately show False by (simp add: reg_pos_def)
  qed
  then show ?thesis by (intro inj_onI) (metis lessThan_iff linorder_neqE_nat)
qed

lemma reg_pos_surj:
  assumes n: "3 \<le> n" "n < 64" and m: "reg_maximal n"
  shows "reg_pos n ` {..<reg_period n} = reg_states n"
proof (rule card_subset_eq)
  show "finite (reg_states n)" by (rule card_reg_states [OF n(2)])
  show "reg_pos n ` {..<reg_period n} \<subseteq> reg_states n" using reg_pos_states [OF n] by auto
  show "card (reg_pos n ` {..<reg_period n}) = card (reg_states n)"
    using card_image [OF reg_pos_inj [OF n m]] card_reg_states [OF n(2)]
    by (simp add: reg_period_def)
qed

lemma reg_pos_period:
  assumes n: "3 \<le> n" "n < 64" and m: "reg_maximal n"
  shows "reg_pos n (reg_period n) = 0"
proof -
  obtain a where a: "a < reg_period n" "reg_pos n (reg_period n) = reg_pos n a"
    using reg_pos_surj [OF n m] reg_pos_states [OF n, of "reg_period n"] by auto
  show ?thesis
  proof (cases "a = 0")
    case False
    have "reg_pos n ((reg_period n - a) + a) = reg_pos n (0 + a)" using a by simp
    then have "reg_pos n (reg_period n - a) = reg_pos n 0" by (rule reg_pos_cancel [OF n])
    moreover have "reg_pos n (reg_period n - a) \<noteq> 0"
      using m a False by (auto simp: reg_maximal_def)
    ultimately show ?thesis by (simp add: reg_pos_def)
  qed (use a in \<open>simp add: reg_pos_def\<close>)
qed

lemma reg_pos_mod:
  assumes n: "3 \<le> n" "n < 64" and m: "reg_maximal n"
  shows "reg_pos n (k mod reg_period n) = reg_pos n k"
proof -
  have "reg_pos n (j + reg_period n * q) = reg_pos n j" for j q
  proof (induction q)
    case (Suc q)
    have "reg_pos n (reg_period n + (j + reg_period n * q)) = reg_pos n (0 + (j + reg_period n * q))"
      using reg_pos_add [of "j + reg_period n * q" n "reg_period n"] reg_pos_period [OF n m]
      by (simp add: reg_pos_def)
    with Suc show ?case by (simp add: algebra_simps)
  qed simp
  from this [of "k mod reg_period n" "k div reg_period n"] show ?thesis by simp
qed

lemma reg_pos_eq_iff:
  assumes n: "3 \<le> n" "n < 64" and m: "reg_maximal n"
  shows "reg_pos n a = reg_pos n b \<longleftrightarrow> a mod reg_period n = b mod reg_period n"
proof -
  have "0 < reg_period n" using reg_period_pos [OF n(1)] by simp
  then have "reg_pos n (a mod reg_period n) = reg_pos n (b mod reg_period n)
      \<longleftrightarrow> a mod reg_period n = b mod reg_period n"
    using inj_on_eq_iff [OF reg_pos_inj [OF n m]] by simp
  then show ?thesis by (simp add: reg_pos_mod [OF n m])
qed

section \<open>The cycle of a spin\<close>

text \<open>\<open>spin_cycle_nat p k\<close>: the length of the cycle that steps of \<open>k\<close> run through in a
  register of period \<open>p\<close>, or 0 when they run through the whole register.\<close>

definition spin_cycle_nat :: "nat \<Rightarrow> nat \<Rightarrow> nat" where
  "spin_cycle_nat p k = (if gcd p k = 1 then 0 else p div gcd p k)"

lemma dvd_mult_gcd_iff: "0 < k \<Longrightarrow> (k :: nat) dvd p * i \<longleftrightarrow> (k div gcd p k) dvd i"
proof -
  assume k: "0 < k"
  define g where "g = gcd p k"
  have g: "0 < g" using k by (simp add: g_def)
  obtain a b where ab: "p = g * a" "k = g * b" "coprime a b"
    using gcd_coprime_exists [of p k] k unfolding g_def by (metis gcd_eq_0_iff mult.commute not_gr0)
  have "k dvd p * i \<longleftrightarrow> b dvd a * i" using g by (simp add: ab(1,2) mult.assoc)
  also have "\<dots> \<longleftrightarrow> b dvd i" using ab(3) by (simp add: coprime_dvd_mult_right_iff coprime_commute)
  also have "b = k div g" using g by (simp add: ab(2))
  also have "g = gcd p k" by (rule g_def)
  finally show ?thesis .
qed

lemma find_upt_Some:
  "find P [a..<b] = Some i \<Longrightarrow> a \<le> i \<and> i < b \<and> P i \<and> (\<forall>j. a \<le> j \<and> j < i \<longrightarrow> \<not> P j)"
proof -
  assume "find P [a..<b] = Some i"
  then obtain k where k: "k < b - a" "P (a + k)" "i = a + k" "\<forall>j < k. \<not> P (a + j)"
    by (auto simp: find_Some_iff)
  have "\<not> P j" if "a \<le> j" "j < i" for j
    using k(3,4) that spec [OF k(4), of "j - a"] by simp
  with k show ?thesis by auto
qed

lemma find_upt_None: "find P [a..<b] = None \<longleftrightarrow> (\<forall>j. a \<le> j \<and> j < b \<longrightarrow> \<not> P j)"
  by (auto simp: find_None_iff)

lemma spin_cycle_correct:
  assumes p: "unat p < 2 ^ 63" and s: "s \<le> 15"
  shows "unat (spin_cycle p s) = spin_cycle_nat (unat p) (s + 1)"
proof -
  define k where "k = s + 1"
  have k: "0 < k" "k \<le> 16" using s by (simp_all add: k_def)
  let ?P = "unat p"
  let ?y = "p mod of_nat k" and ?x = "p div of_nat k"
  have uk: "unat (of_nat k :: u64) = k" using k by (simp add: unat_of_nat)
  have ui: "unat (of_nat i :: u64) = i" if "i < k" for i using that k by (simp add: unat_of_nat)
  have uy: "unat ?y = ?P mod k" by (simp add: unat_mod uk)
  have ux: "unat ?x = ?P div k" by (simp add: unat_div uk)
  have yi: "unat (?y * of_nat i) = (?P mod k) * i" if "i < k" for i
  proof -
    have "?P mod k < 16" using mod_less_divisor [OF k(1), of ?P] k(2) by linarith
    moreover from this have "(?P mod k) * i < 16 * 16" using that k by (intro mult_strict_mono) simp_all
    ultimately show ?thesis using that by (simp add: unat_word_ariths uk ui)
  qed
  have test: "(?y * of_nat i) mod of_nat k = 0 \<longleftrightarrow> k dvd ?P * i" if "i < k" for i
  proof -
    have "(?y * of_nat i) mod of_nat k = 0 \<longleftrightarrow> unat ((?y * of_nat i) mod of_nat k) = 0"
      by (simp add: unat_eq_zero)
    also have "\<dots> \<longleftrightarrow> (?P mod k * i) mod k = 0" using that by (simp add: unat_mod uk yi)
    also have "\<dots> \<longleftrightarrow> k dvd ?P * i" by (simp add: mod_mult_left_eq dvd_eq_mod_eq_0)
    finally show ?thesis .
  qed
  define g where "g = gcd ?P k"
  have g: "0 < g" "g dvd k" "g dvd ?P" using k by (simp_all add: g_def)
  have div: "k dvd ?P * i \<longleftrightarrow> (k div g) dvd i" for i
    using dvd_mult_gcd_iff [OF k(1)] by (simp add: g_def)
  have kg: "0 < k div g" using g k by (simp add: dvd_imp_le div_greater_zero_iff)
  let ?f = "find (\<lambda>i. (?y * of_nat i) mod of_nat k = 0) [1..<k]"
  have sc: "spin_cycle p s = (case ?f of
      Some i \<Rightarrow> ?x * of_nat i + (?y * of_nat i) div of_nat k | None \<Rightarrow> 0)"
    by (simp only: spin_cycle_def Let_def k_def)
  have "unat (spin_cycle p s) = spin_cycle_nat ?P k"
  proof (cases ?f)
    case None
    then have no: "\<not> k dvd ?P * j" if "1 \<le> j" "j < k" for j
      using that test by (simp add: find_upt_None)
    have "g = 1"
    proof (rule ccontr)
      assume "g \<noteq> 1"
      then have "k div g < k" using g k by (intro div_less_dividend) simp_all
      then show False using no [of "k div g"] kg div by simp
    qed
    then show ?thesis using None by (simp add: sc spin_cycle_nat_def g_def)
  next
    case (Some i)
    then have F: "1 \<le> i \<and> i < k \<and> (?y * of_nat i) mod of_nat k = 0
        \<and> (\<forall>j. 1 \<le> j \<and> j < i \<longrightarrow> \<not> (?y * of_nat j) mod of_nat k = 0)"
      by (rule find_upt_Some)
    note i = F [THEN conjunct1] F [THEN conjunct2, THEN conjunct1]
      F [THEN conjunct2, THEN conjunct2, THEN conjunct1]
      F [THEN conjunct2, THEN conjunct2, THEN conjunct2, rule_format]
    have "(k div g) dvd i" using i(3) test [OF i(2)] div by simp
    then have le: "k div g \<le> i" using i(1) by (auto dest: dvd_imp_le)
    have "\<not> k div g < i"
      using i(2) i(4) [of "k div g"] test [of "k div g"] div kg by auto
    then have ieq: "i = k div g" using le by simp
    have g1: "g \<noteq> 1" using ieq i(2) by auto
    have "?P * i = (?P div g) * k"
      using g by (simp add: ieq) (metis dvd_div_mult_self div_mult_swap mult.commute)
    then have Pi: "?P * i div k = ?P div g" using k by simp
    have "?P = k * (?P div k) + ?P mod k" by simp
    then have "?P * i = k * ((?P div k) * i) + (?P mod k) * i"
      by (metis add_mult_distrib mult.assoc)
    then have split: "?P * i div k = (?P div k) * i + ((?P mod k) * i) div k"
      using k by simp
    have "(?P div k) * i + ((?P mod k) * i) div k = ?P div g" using split Pi by simp
    also have "\<dots> \<le> ?P" by simp
    also have "\<dots> < 2 ^ 64" using p by simp
    finally have b: "(?P div k) * i + ((?P mod k) * i) div k < 2 ^ 64" .
    then have "(?P div k) * i < 2 ^ 64" by simp
    then have u1: "unat (?x * of_nat i) = (?P div k) * i"
      by (simp only: unat_word_ariths(2) ux ui [OF i(2)]) simp
    have u2: "unat ((?y * of_nat i) div of_nat k) = ((?P mod k) * i) div k"
      by (simp only: unat_div yi [OF i(2)] uk)
    have "unat (?x * of_nat i + (?y * of_nat i) div of_nat k)
        = (?P div k) * i + ((?P mod k) * i) div k"
      using b by (simp only: unat_word_ariths(1) u1 u2) simp
    then show ?thesis using Some split Pi g1
      by (simp add: sc spin_cycle_nat_def g_def)
  qed
  then show ?thesis by (simp only: k_def)
qed

section \<open>The walk of \<open>lfsr_next\<close>\<close>

text \<open>
  After \<open>k\<close> passes through the loop body the register has made \<open>walk_pos l s k\<close> shifts
  since the seed (\<open>s\<close> the spin, \<open>l\<close> the cycle length) and the cycle counter is
  \<open>walk_cycle l k\<close>.
\<close>

definition walk_pos :: "nat \<Rightarrow> nat \<Rightarrow> nat \<Rightarrow> nat" where
  "walk_pos l s k = (if k = 0 then 0
     else if l = 0 then (if s < 15 then s + 2 else 0) + (s + 1) * (k - 1)
     else (s + 1) * k + (k - 1) div l)"

definition walk_cycle :: "nat \<Rightarrow> nat \<Rightarrow> nat" where
  "walk_cycle l k = (if k = 0 then l + 1 else if l = 0 then 0 else l - (k - 1) mod l)"

definition walk_state :: "fio_lfsr \<Rightarrow> nat \<Rightarrow> nat \<Rightarrow> nat \<Rightarrow> fio_lfsr" where
  "walk_state fl n t k = (let l = unat (cached_cycle_length fl); s = unat (lspin fl) in
     fl\<lparr>last_val := reg_pos n (t + walk_pos l s k), cycle_length := of_nat (walk_cycle l k)\<rparr>)"

definition lfsr_ready :: "nat \<Rightarrow> nat \<Rightarrow> fio_lfsr \<Rightarrow> bool" where
  "lfsr_ready n t fl \<longleftrightarrow> 3 \<le> n \<and> n < 64 \<and> reg_maximal n
     \<and> cached_bit fl = bitval (n - 1) \<and> xormask fl = reg_mask n \<and> unat (lspin fl) \<le> 15
     \<and> unat (cached_cycle_length fl) = spin_cycle_nat (reg_period n) (unat (lspin fl) + 1)
     \<and> cycle_length fl = cached_cycle_length fl + 1 \<and> last_val fl = reg_pos n t"

lemma spin_cycle_nat_less: "2 \<le> p \<Longrightarrow> spin_cycle_nat p k < p"
  by (auto simp: spin_cycle_nat_def intro!: div_less_dividend)
     (metis One_nat_def Suc_lessI gcd_pos_nat neq0_conv not_numeral_le_zero)

lemma odd_reg_period: "3 \<le> n \<Longrightarrow> odd (reg_period n)"
  by (simp add: reg_period_def)

text \<open>The top spin never closes a cycle early: the period is odd.\<close>

lemma spin_cycle_nat_16: "3 \<le> n \<Longrightarrow> spin_cycle_nat (reg_period n) 16 = 0"
proof -
  assume "3 \<le> n"
  then have "coprime (reg_period n) 2" using odd_reg_period by simp
  then have "coprime (reg_period n) (2 ^ 4)" by (simp only: coprime_power_right_iff simp_thms)
  then have "gcd (reg_period n) 16 = 1" by (simp add: coprime_iff_gcd_eq_1)
  then show ?thesis by (simp add: spin_cycle_nat_def)
qed

lemma reg_period_bound: "n < 64 \<Longrightarrow> reg_period n < 2 ^ 63"
proof -
  assume "n < 64"
  then have "(2 :: nat) ^ n \<le> 2 ^ 63" by (intro power_increasing) simp_all
  then show ?thesis by (simp add: reg_period_def)
qed

lemma walk_pos_Suc:
  assumes "s \<le> 15" "l = 0 \<or> s < 15"
  shows "walk_pos l s (Suc k) = walk_pos l s k
    + (if walk_cycle l k = 1 then (if s < 15 then s + 2 else 0) else s + 1)"
proof (cases "k = 0")
  case True
  then show ?thesis using assms by (auto simp: walk_pos_def walk_cycle_def)
next
  case False
  then obtain j where j: "k = Suc j" by (cases k) auto
  show ?thesis
  proof (cases "l = 0")
    case True
    then show ?thesis by (simp add: walk_pos_def walk_cycle_def j)
  next
    case l: False
    have "l - j mod l = 1 \<longleftrightarrow> Suc (j mod l) = l"
      using mod_less_divisor [of l j] l by linarith
    then show ?thesis using l assms
      by (auto simp: walk_pos_def walk_cycle_def j div_Suc mod_Suc)
  qed
qed

lemma walk_cycle_Suc:
  "walk_cycle l (Suc k) =
     (if walk_cycle l k = 0 then 0 else if walk_cycle l k = 1 then l else walk_cycle l k - 1)"
proof (cases "k = 0 \<or> l = 0")
  case True
  then show ?thesis by (auto simp: walk_cycle_def)
next
  case False
  then obtain j where j: "k = Suc j" by (cases k) auto
  have "j mod l < l" using False by simp
  then show ?thesis using False
    by (auto simp: walk_cycle_def j mod_Suc)
qed

lemma walk_cycle_le: "walk_cycle l k \<le> l + 1"
  by (simp add: walk_cycle_def le_SucI)

lemma lfsr_spin_eq:
  assumes "cached_bit fl = bitval (n - 1)" "xormask fl = reg_mask n" "last_val fl = reg_pos n a"
  shows "lfsr_spin fl s = fl\<lparr>last_val := reg_pos n (a + (if s \<le> 15 then s + 1 else 0))\<rparr>"
proof -
  have "(reg_shift n ^^ Suc s) (last_val fl) = reg_pos n (a + Suc s)"
    unfolding assms(3) by (rule reg_pos_add)
  then show ?thesis using assms by (simp add: lfsr_spin_def reg_shift_def del: funpow.simps)
qed

lemma walk_state_0: "lfsr_ready n t fl \<Longrightarrow> walk_state fl n t 0 = fl"
proof -
  assume r: "lfsr_ready n t fl"
  then have "cycle_length fl = cached_cycle_length fl + 1" "last_val fl = reg_pos n t"
    by (simp_all only: lfsr_ready_def)
  then have "of_nat (unat (cached_cycle_length fl) + 1) = cycle_length fl"
    "reg_pos n (t + 0) = last_val fl"
    by simp_all
  then show ?thesis by (simp only: walk_state_def Let_def walk_pos_def walk_cycle_def if_True refl) simp
qed

lemma lfsr_advance_walk:
  assumes r: "lfsr_ready n t fl"
  shows "lfsr_advance (walk_state fl n t k) = walk_state fl n t (Suc k)"
proof -
  define l where "l = unat (cached_cycle_length fl)"
  define s where "s = unat (lspin fl)"
  have n: "3 \<le> n" "n < 64" and s: "s \<le> 15" and l: "l = spin_cycle_nat (reg_period n) (s + 1)"
    using r by (simp_all add: lfsr_ready_def s_def l_def)
  have ls: "l = 0 \<or> s < 15"
  proof (cases "s = 15")
    case True
    then show ?thesis using spin_cycle_nat_16 [OF n(1)] l by simp
  qed (use s in simp)
  have lb: "l < 2 ^ 63"
    using spin_cycle_nat_less [of "reg_period n" "s + 1"] reg_period_pos [OF n(1)]
      reg_period_bound [OF n(2)] by (simp add: l)
  have us: "unat (lspin fl + 1) = s + 1"
    using s by (simp add: s_def unat_word_ariths)
  have cb: "walk_cycle l k < 2 ^ 64" using walk_cycle_le [of l k] lb by simp
  let ?c = "of_nat (walk_cycle l k) :: u64"
  have uc: "unat ?c = walk_cycle l k" using cb by (simp add: unat_of_nat)
  have c0: "?c = 0 \<longleftrightarrow> walk_cycle l k = 0" by (simp only: word_unat_eq_iff [of ?c 0] uc unat_0)
  have c1: "?c - 1 = 0 \<longleftrightarrow> walk_cycle l k = 1" if "walk_cycle l k \<noteq> 0"
    by (simp only: eq_iff_diff_eq_0 [symmetric] word_unat_eq_iff [of ?c 1] uc unat_1)
  let ?w = "walk_state fl n t k"
  have w: "cached_bit ?w = bitval (n - 1)" "xormask ?w = reg_mask n"
    "last_val ?w = reg_pos n (t + walk_pos l s k)" "cycle_length ?w = ?c"
    "cached_cycle_length ?w = cached_cycle_length fl" "lspin ?w = lspin fl"
    using r by (simp_all add: walk_state_def lfsr_ready_def l_def s_def Let_def)
  have lw: "of_nat l = cached_cycle_length fl" by (simp add: l_def)
  note sp = lfsr_spin_eq [OF w(1-3)]
  note step = walk_pos_Suc [OF s ls, of k] walk_cycle_Suc [of l k]
  have W: "walk_state fl n t (Suc k) = ?w\<lparr>last_val := reg_pos n (t + walk_pos l s (Suc k)),
      cycle_length := of_nat (walk_cycle l (Suc k))\<rparr>"
    by (simp add: walk_state_def l_def s_def Let_def)
  consider "walk_cycle l k = 0" | "walk_cycle l k = 1" | "walk_cycle l k \<noteq> 0" "walk_cycle l k \<noteq> 1"
    by blast
  then show ?thesis
  proof cases
    case 1
    then have "lfsr_advance ?w = ?w\<lparr>last_val := reg_pos n (t + walk_pos l s k + (s + 1))\<rparr>"
      using s by (simp add: lfsr_advance_def w sp s_def [symmetric])
    then show ?thesis using 1 step w(4) by (simp add: W add.assoc)
  next
    case 2
    then have "lfsr_advance ?w = ?w\<lparr>last_val := reg_pos n (t + walk_pos l s k
        + (if s + 1 \<le> 15 then s + 1 + 1 else 0)), cycle_length := of_nat l\<rparr>"
      using s by (simp add: lfsr_advance_def w sp us lw)
    then show ?thesis using 2 step by (simp add: W add.assoc Suc_le_eq)
  next
    case 3
    then have "lfsr_advance ?w = ?w\<lparr>last_val := reg_pos n (t + walk_pos l s k + (s + 1)),
        cycle_length := ?c - 1\<rparr>"
      using s c0 c1 by (simp add: lfsr_advance_def w sp s_def [symmetric])
    moreover have "?c - 1 = of_nat (walk_cycle l k - 1)"
    proof -
      have "1 \<le> walk_cycle l k" using 3 by simp
      then show ?thesis by (simp only: of_nat_diff of_nat_1)
    qed
    moreover have "walk_pos l s (Suc k) = walk_pos l s k + (s + 1)"
      "walk_cycle l (Suc k) = walk_cycle l k - 1"
      using 3 step by simp_all
    ultimately show ?thesis by (simp only: W add.assoc)
  qed
qed

text \<open>Within one period no two passes leave the register at the same state.\<close>

lemma walk_pos_distinct:
  assumes p: "0 < p" and l: "l = spin_cycle_nat p (s + 1)" and j: "0 < j" "j < k" "k \<le> p"
  shows "walk_pos l s j mod p \<noteq> walk_pos l s k mod p"
proof
  assume eq: "walk_pos l s j mod p = walk_pos l s k mod p"
  define g where "g = gcd p (s + 1)"
  have g: "0 < g" "g dvd p" "g dvd s + 1" by (simp_all add: g_def)
  show False
  proof (cases "g = 1")
    case True
    then have "l = 0" by (simp add: l spin_cycle_nat_def g_def)
    then obtain c where c: "walk_pos l s j = c + (s + 1) * (j - 1)" "walk_pos l s k = c + (s + 1) * (k - 1)"
      using j by (simp add: walk_pos_def)
    then have "p dvd walk_pos l s k - walk_pos l s j"
      using eq j unfolding c
      by (intro mod_eq_dvd_iff_nat [THEN iffD1]) (simp_all only: add_le_cancel_left mult_le_mono2 diff_le_mono less_imp_le)
    then have "p dvd (s + 1) * (k - 1) - (s + 1) * (j - 1)" by (simp add: c)
    then have "p dvd (s + 1) * ((k - 1) - (j - 1))" by (simp only: diff_mult_distrib2)
    moreover have "(k - 1) - (j - 1) = k - j" using j by simp
    ultimately have "p dvd (s + 1) * (k - j)" by (simp only:)
    moreover have "coprime p (s + 1)" using True by (simp add: g_def coprime_iff_gcd_eq_1)
    ultimately have "p dvd k - j" by (simp only: coprime_dvd_mult_right_iff)
    then show False using j by (auto dest: dvd_imp_le)
  next
    case False
    then have lp: "l = p div g" by (simp add: l spin_cycle_nat_def g_def)
    have lpos: "0 < l" using g p by (simp add: lp dvd_imp_le div_greater_zero_iff)
    have pl: "p = g * l" using g by (simp add: lp)
    have w: "walk_pos l s i = (s + 1) * i + (i - 1) div l" if "0 < i" for i
      using that lpos by (simp add: walk_pos_def)
    have blk: "(i - 1) div l < g" if "0 < i" "i \<le> p" for i
    proof -
      have "i - 1 < g * l" using that pl by simp
      then show ?thesis by (simp add: less_mult_imp_div_less)
    qed
    have "walk_pos l s j mod g = walk_pos l s k mod g"
      using eq g(2) by (metis mod_mod_cancel)
    moreover have "walk_pos l s i mod g = (i - 1) div l" if "0 < i" "i \<le> p" for i
    proof -
      have "walk_pos l s i mod g = ((s + 1) * i mod g + (i - 1) div l) mod g"
        by (simp add: w that mod_add_left_eq)
      also have "(s + 1) * i mod g = 0" by (rule dvd_imp_mod_0) (rule dvd_mult2 [OF g(3)])
      finally show ?thesis using blk [OF that] by simp
    qed
    ultimately have same: "(j - 1) div l = (k - 1) div l" using j by simp
    have "p dvd walk_pos l s k - walk_pos l s j"
    proof (rule mod_eq_dvd_iff_nat [THEN iffD1])
      have "(s + 1) * j \<le> (s + 1) * k" using j by (intro mult_le_mono2) simp
      then show "walk_pos l s j \<le> walk_pos l s k" using j same by (simp add: w)
    qed (use eq in simp)
    then have "p dvd (s + 1) * k - (s + 1) * j" using j same by (simp add: w)
    then have "p dvd (s + 1) * (k - j)" by (simp add: diff_mult_distrib2)
    moreover obtain a where a: "s + 1 = g * a" "coprime l a"
    proof -
      obtain a b where "p = g * a" "s + 1 = g * b" "coprime a b"
        using gcd_coprime_exists [of p "s + 1"] unfolding g_def by (metis gcd_eq_0_iff mult.commute p not_gr0)
      with that [of b] pl g show ?thesis by simp
    qed
    ultimately have "g * l dvd g * (a * (k - j))" by (simp only: pl mult.assoc)
    then have "l dvd a * (k - j)" using g by (simp only: nat_mult_dvd_cancel1)
    then have "l dvd k - j" using a(2) by (simp add: coprime_dvd_mult_right_iff)
    then have le: "l \<le> k - j" using j by (auto dest: dvd_imp_le)
    have "k - 1 = l * ((k - 1) div l) + (k - 1) mod l" "j - 1 = l * ((k - 1) div l) + (j - 1) mod l"
      using mult_div_mod_eq [of l "k - 1"] mult_div_mod_eq [of l "j - 1"] same by (simp_all only:)
    then have "(k - 1) - (j - 1) = (k - 1) mod l - (j - 1) mod l" by (metis diff_add_inverse2 diff_cancel2 add.commute diff_diff_left)
    also have "\<dots> < l" using mod_less_divisor [OF lpos, of "k - 1"] by (rule less_imp_diff_less)
    finally have "(k - 1) - (j - 1) < l" .
    with le j show False by simp
  qed
qed

text \<open>So the first \<open>2 ^ n - 1\<close> passes visit every state once.\<close>

definition walk_val :: "fio_lfsr \<Rightarrow> nat \<Rightarrow> nat \<Rightarrow> nat \<Rightarrow> u64" where
  "walk_val fl n t k = last_val (walk_state fl n t k)"

lemma walk_val_inj:
  assumes r: "lfsr_ready n t fl"
  shows "inj_on (walk_val fl n t) {1..reg_period n}"
proof -
  let ?p = "reg_period n" and ?l = "unat (cached_cycle_length fl)" and ?s = "unat (lspin fl)"
  have n: "3 \<le> n" "n < 64" and m: "reg_maximal n" and l: "?l = spin_cycle_nat ?p (?s + 1)"
    using r by (simp_all only: lfsr_ready_def)
  have p: "0 < ?p" using reg_period_pos [OF n(1)] by simp
  have "walk_val fl n t j \<noteq> walk_val fl n t k" if "0 < j" "j < k" "k \<le> ?p" for j k
  proof
    assume "walk_val fl n t j = walk_val fl n t k"
    then have "reg_pos n (t + walk_pos ?l ?s j) = reg_pos n (t + walk_pos ?l ?s k)"
      by (simp add: walk_val_def walk_state_def Let_def)
    then have "(walk_pos ?l ?s j + t) mod ?p = (walk_pos ?l ?s k + t) mod ?p"
      by (simp add: reg_pos_eq_iff [OF n m] add.commute)
    then have "walk_pos ?l ?s j mod ?p = walk_pos ?l ?s k mod ?p"
      by (simp add: nat_mod_eq_iff)
    then show False using walk_pos_distinct [OF p l that] by simp
  qed
  then show ?thesis
    by (intro inj_onI) (metis atLeastAtMost_iff linorder_neqE_nat less_eq_Suc_le One_nat_def)
qed

lemma walk_val_surj:
  assumes r: "lfsr_ready n t fl"
  shows "walk_val fl n t ` {1..reg_period n} = reg_states n"
proof (rule card_subset_eq)
  have n: "3 \<le> n" "n < 64" using r by (simp_all add: lfsr_ready_def)
  show "finite (reg_states n)" by (rule card_reg_states [OF n(2)])
  show "walk_val fl n t ` {1..reg_period n} \<subseteq> reg_states n"
    using reg_pos_states [OF n] by (auto simp: walk_val_def walk_state_def Let_def)
  show "card (walk_val fl n t ` {1..reg_period n}) = card (reg_states n)"
    using card_image [OF walk_val_inj [OF r]] card_reg_states [OF n(2)]
    by (simp add: reg_period_def)
qed

section \<open>Successive calls\<close>

text \<open>\<open>lfsr_run fl k\<close>: the results of \<open>k\<close> calls of \<open>lfsr_next\<close>.\<close>

fun lfsr_run :: "fio_lfsr \<Rightarrow> nat \<Rightarrow> (fio_lfsr \<times> u64 option list) option" where
  "lfsr_run fl 0 = Some (fl, [])"
| "lfsr_run fl (Suc k) = (case lfsr_next fl of
     None \<Rightarrow> None
   | Some (fl', v) \<Rightarrow> map_option (\<lambda>(fl'', vs). (fl'', v # vs)) (lfsr_run fl' k))"

text \<open>The state after \<open>k\<close> passes and \<open>c\<close> calls.\<close>

definition call_state :: "fio_lfsr \<Rightarrow> nat \<Rightarrow> nat \<Rightarrow> nat \<Rightarrow> nat \<Rightarrow> fio_lfsr" where
  "call_state fl n t k c = (walk_state fl n t k)\<lparr>num_vals := of_nat c\<rparr>"

lemma lfsr_spin_num_vals: "lfsr_spin (fl\<lparr>num_vals := c\<rparr>) s = (lfsr_spin fl s)\<lparr>num_vals := c\<rparr>"
  by (simp add: lfsr_spin_def)

lemma lfsr_advance_num_vals:
  "lfsr_advance (fl\<lparr>num_vals := c\<rparr>) = (lfsr_advance fl)\<lparr>num_vals := c\<rparr>"
  by (simp add: lfsr_advance_def lfsr_spin_num_vals)

lemma call_state_advance:
  "lfsr_ready n t fl \<Longrightarrow> lfsr_advance (call_state fl n t k c) = call_state fl n t (Suc k) c"
  by (simp add: call_state_def lfsr_advance_num_vals lfsr_advance_walk)

lemma call_state_simps:
  "last_val (call_state fl n t k c) = walk_val fl n t k"
  "max_val (call_state fl n t k c) = max_val fl"
  "num_vals (call_state fl n t k c) = of_nat c"
  "(call_state fl n t k c)\<lparr>num_vals := of_nat c'\<rparr> = call_state fl n t k c'"
  by (simp_all add: call_state_def walk_val_def walk_state_def Let_def)

text \<open>The loop stops at the first pass whose value is in the range.\<close>

lemma lfsr_loop_stops:
  assumes r: "lfsr_ready n t fl"
  shows "k < m \<Longrightarrow> walk_val fl n t m \<le> max_val fl \<Longrightarrow>
    (\<forall>j. k < j \<and> j < m \<longrightarrow> \<not> walk_val fl n t j \<le> max_val fl) \<Longrightarrow>
    lfsr_loop (call_state fl n t k c) = Some (call_state fl n t m c)"
proof (induction "m - k" arbitrary: k)
  case (Suc d)
  note step = lfsr_loop.simps [of "call_state fl n t k c", unfolded call_state_advance [OF r]
      call_state_simps(1,2)]
  show ?case
  proof (cases "Suc k = m")
    case True
    then show ?thesis using leD [OF Suc.prems(2)] by (simp add: step)
  next
    case False
    then have "\<not> walk_val fl n t (Suc k) \<le> max_val fl" using Suc.prems by simp
    moreover have "lfsr_loop (call_state fl n t (Suc k) c) = Some (call_state fl n t m c)"
      using Suc.hyps(1) [of "Suc k"] Suc.hyps(2) Suc.prems False by simp
    ultimately show ?thesis by (simp add: step not_le)
  qed
qed simp

definition in_range :: "fio_lfsr \<Rightarrow> nat \<Rightarrow> nat \<Rightarrow> nat list \<Rightarrow> u64 list" where
  "in_range fl n t ks = filter (\<lambda>v. v \<le> max_val fl) (map (walk_val fl n t) ks)"

text \<open>The values of the passes after the \<open>k\<close>-th, split at the next one in the range.\<close>

lemma in_range_next:
  assumes "in_range fl n t [Suc k..<Suc p] \<noteq> []"
  obtains m where "k < m" "m \<le> p" "walk_val fl n t m \<le> max_val fl"
    "\<forall>j. k < j \<and> j < m \<longrightarrow> \<not> walk_val fl n t j \<le> max_val fl"
    "in_range fl n t [Suc k..<Suc p] = walk_val fl n t m # in_range fl n t [Suc m..<Suc p]"
proof -
  let ?P = "\<lambda>m. k < m \<and> m \<le> p \<and> walk_val fl n t m \<le> max_val fl"
  define m where "m = (LEAST m. ?P m)"
  have "\<exists>m. ?P m"
    using assms by (auto simp: in_range_def filter_empty_conv Suc_le_eq less_Suc_eq_le)
  then have m: "?P m" unfolding m_def by (rule LeastI_ex)
  have no: "\<forall>j. k < j \<and> j < m \<longrightarrow> \<not> walk_val fl n t j \<le> max_val fl"
  proof (intro allI impI)
    fix j assume j: "k < j \<and> j < m"
    then have "\<not> ?P j" unfolding m_def by (intro not_less_Least) simp
    with j m show "\<not> walk_val fl n t j \<le> max_val fl" by simp
  qed
  have "[Suc k..<Suc p] = [Suc k..<m] @ [m..<Suc p]"
    using m upt_add_eq_append [of "Suc k" m "Suc p - m"] by simp
  also have "[m..<Suc p] = m # [Suc m..<Suc p]" using m by (simp add: upt_conv_Cons)
  finally have "in_range fl n t [Suc k..<Suc p]
      = in_range fl n t [Suc k..<m] @ walk_val fl n t m # in_range fl n t [Suc m..<Suc p]"
    using m by (simp add: in_range_def)
  moreover have "in_range fl n t [Suc k..<m] = []"
    using no by (auto simp: in_range_def filter_empty_conv)
  ultimately have "in_range fl n t [Suc k..<Suc p] = walk_val fl n t m # in_range fl n t [Suc m..<Suc p]"
    by (simp only: append_Nil)
  with m no show ?thesis by (intro that [of m]) simp_all
qed

lemma lfsr_run_in_range:
  assumes r: "lfsr_ready n t fl"
  shows "d \<le> length (in_range fl n t [Suc k..<Suc p]) \<Longrightarrow> c + d \<le> unat (max_val fl) + 1 \<Longrightarrow>
    \<exists>m. lfsr_run (call_state fl n t k c) d
      = Some (call_state fl n t m (c + d), map Some (take d (in_range fl n t [Suc k..<Suc p])))"
proof (induction d arbitrary: k c)
  case 0
  show ?case by auto
next
  case (Suc d)
  from Suc.prems(1) have "in_range fl n t [Suc k..<Suc p] \<noteq> []" by auto
  then obtain m where m: "k < m" "walk_val fl n t m \<le> max_val fl"
    "\<forall>j. k < j \<and> j < m \<longrightarrow> \<not> walk_val fl n t j \<le> max_val fl"
    "in_range fl n t [Suc k..<Suc p] = walk_val fl n t m # in_range fl n t [Suc m..<Suc p]"
    by (rule in_range_next)
  have c: "c \<le> unat (max_val fl)" using Suc.prems(2) by simp
  moreover have "unat (max_val fl) < 2 ^ 64" using unsigned_less [of "max_val fl"] by simp
  ultimately have "unat (of_nat c :: u64) = c" by (simp add: unat_of_nat)
  then have "\<not> max_val fl < of_nat c" using c by (simp only: word_less_nat_alt not_less)
  then have "lfsr_next (call_state fl n t k c)
      = Some (call_state fl n t m (Suc c), Some (walk_val fl n t m))"
    using lfsr_loop_stops [OF r m(1-3), of "Suc c"] call_state_simps(4) [where fl = fl and n = n and t = t and k = k and c = c and c' = "Suc c"]
    by (simp add: lfsr_next_def call_state_simps(1-3) add.commute)
  moreover obtain m' where "lfsr_run (call_state fl n t m (Suc c)) d
      = Some (call_state fl n t m' (Suc c + d), map Some (take d (in_range fl n t [Suc m..<Suc p])))"
    using Suc.IH [of m "Suc c"] Suc.prems m(4) by (auto simp del: upt_Suc)
  ultimately show ?case by (auto simp: m(4) simp del: upt_Suc)
qed

lemma in_range_all:
  assumes r: "lfsr_ready n t fl" and max: "unat (max_val fl) < reg_period n"
  shows "distinct (in_range fl n t [Suc 0..<Suc (reg_period n)])"
    and "set (in_range fl n t [Suc 0..<Suc (reg_period n)]) = {v. v \<le> max_val fl}"
    and "length (in_range fl n t [Suc 0..<Suc (reg_period n)]) = unat (max_val fl) + 1"
proof -
  let ?ks = "[Suc 0..<Suc (reg_period n)]"
  have ks: "set ?ks = {1..reg_period n}" by auto
  show d: "distinct (in_range fl n t ?ks)"
    using walk_val_inj [OF r] unfolding in_range_def
    by (intro distinct_filter) (simp add: distinct_map ks del: upt_Suc set_upt)
  have "set (map (walk_val fl n t) ?ks) = reg_states n"
    using walk_val_surj [OF r] by (simp add: ks del: upt_Suc set_upt)
  moreover have "v \<in> reg_states n" if "v \<le> max_val fl" for v
    using that max by (simp add: reg_states_def reg_period_def word_le_nat_alt)
  ultimately show s: "set (in_range fl n t ?ks) = {v. v \<le> max_val fl}"
    unfolding in_range_def by auto
  have "card {v. v \<le> max_val fl} = unat (max_val fl) + 1" by (rule card_word_atMost)
  then show "length (in_range fl n t ?ks) = unat (max_val fl) + 1"
    using distinct_card [OF d] s by simp
qed

section \<open>Initialisation\<close>

lemma bitval_unat: "i < 64 \<Longrightarrow> unat (bitval i :: u64) = 2 ^ i"
proof -
  assume "i < 64"
  then have "(2 :: nat) ^ i < 2 ^ 64" by (intro power_strict_increasing) simp_all
  moreover have "(bitval i :: u64) = of_nat (2 ^ i)" by (simp add: bitval_def)
  ultimately show ?thesis by (simp only: unat_of_nat) simp
qed

lemma find_lfsr_Some:
  assumes "find_lfsr sz = Some ts"
  obtains n where "3 \<le> n" "n < 64" "ts = taps ! n" "unat sz < 2 ^ n"
proof -
  from assms obtain n where n: "find (\<lambda>i. sz < bitval i) [3..<64] = Some n" "ts = taps ! n"
    unfolding find_lfsr_def by (cases "find (\<lambda>i. sz < bitval i) [3..<64]") (simp_all only: option.map, blast+)
  note f = find_upt_Some [OF n(1)]
  then have b: "3 \<le> n" "n < 64" "sz < bitval n" by blast+
  then have "unat sz < 2 ^ n" by (simp add: word_less_nat_alt bitval_unat)
  with b n(2) that show ?thesis by blast
qed

lemma reg_bitmask:
  assumes "3 \<le> n" "n < 64"
  shows "push_bit 1 (bitval (n - 1)) - 1 = (mask n :: u64)"
proof -
  have "push_bit 1 (bitval (n - 1)) = (push_bit (Suc (n - 1)) 1 :: u64)"
    by (simp only: bitval_def push_bit_push_bit) simp
  also have "Suc (n - 1) = n" using assms by simp
  finally show ?thesis by (simp add: mask_eq_exp_minus_1)
qed

lemma lfsr_init_eq:
  assumes f: "find_lfsr nums = Some (taps ! n)" and n: "3 \<le> n" "n < 64"
  shows "lfsr_init fl0 nums seed s =
    (if 15 < s then (fl0\<lparr>max_val := nums - 1, xormask := reg_mask n, cached_bit := bitval (n - 1)\<rparr>, True)
     else (fl0\<lparr>max_val := nums - 1, xormask := reg_mask n, cached_bit := bitval (n - 1), lspin := s,
        cached_cycle_length := spin_cycle (mask n) (unat s),
        cycle_length := spin_cycle (mask n) (unat s) + 1, num_vals := 0, last_val := seed AND mask n\<rparr>,
        seed AND mask n = mask n))"
proof -
  have "n \<in> set [3..<64]" using n by (simp only: set_upt) simp
  then have hd: "hd (taps ! n) = n" using taps_rows by blast
  let ?cb = "bitval (n - 1) :: u64"
  note bm = reg_bitmask [OF n(1,2)]
  let ?c = "spin_cycle (mask n) (unat s)"
  let ?f = "fl0\<lparr>max_val := nums - 1, xormask := reg_mask n, cached_bit := ?cb\<rparr>"
  let ?g = "?f\<lparr>lspin := s, cached_cycle_length := ?c, cycle_length := ?c + 1\<rparr>"
  have pi: "lfsr_init fl0 nums seed s = (let (f, e) = prepare_spin ?f s
      in if e then (f, True) else lfsr_reset f seed)"
    unfolding lfsr_init_def f option.case Let_def hd reg_mask_def ..
  have "cached_bit ?f = ?cb" by simp
  then have ps: "prepare_spin ?f s = (if 15 < s then (?f, True) else (?g, False))"
    unfolding prepare_spin_def by (simp only: bm Let_def)
  have "cached_bit ?g = ?cb" by simp
  then have rs: "lfsr_reset ?g seed
      = (?g\<lparr>num_vals := 0, last_val := seed AND mask n\<rparr>, seed AND mask n = mask n)"
    unfolding lfsr_reset_def by (simp only: bm Let_def)
  show ?thesis
  proof (cases "15 < s")
    case False
    then show ?thesis unfolding pi ps if_not_P [OF False] Let_def prod.case rs by simp
  next
    case True
    then show ?thesis unfolding pi ps if_P [OF True] Let_def prod.case by simp
  qed
qed

lemma lfsr_init_ready:
  assumes init: "lfsr_init fl0 nums seed s = (fl, False)" and nums: "0 < nums"
    and m: "\<And>n. find_lfsr nums = Some (taps ! n) \<Longrightarrow> 3 \<le> n \<Longrightarrow> n < 64 \<Longrightarrow> reg_maximal n"
  obtains n t where "lfsr_ready n t fl" "max_val fl = nums - 1" "num_vals fl = 0"
    "unat (max_val fl) < reg_period n"
proof -
  from init obtain ts where ts: "find_lfsr nums = Some ts"
    by (auto simp: lfsr_init_def split: option.splits)
  then obtain n where n: "3 \<le> n" "n < 64" "ts = taps ! n" "unat nums < 2 ^ n"
    by (rule find_lfsr_Some)
  have mx: "reg_maximal n" using m ts n by simp
  let ?c = "spin_cycle (mask n) (unat s)"
  note eq = lfsr_init_eq [OF ts [unfolded n(3)] n(1,2), of fl0 seed s]
  have s: "\<not> 15 < s" using init unfolding eq by (simp split: if_splits)
  have fl: "fl = fl0\<lparr>max_val := nums - 1, xormask := reg_mask n, cached_bit := bitval (n - 1),
      lspin := s, cached_cycle_length := ?c, cycle_length := ?c + 1, num_vals := 0,
      last_val := seed AND mask n\<rparr>"
    and ok: "seed AND mask n \<noteq> mask n"
    using init s unfolding eq by auto
  have s15: "unat s \<le> 15" using s by (simp add: word_less_nat_alt)
  have pm: "unat (mask n :: u64) = reg_period n" using unat_mask_64 [OF n(2)] by (simp add: reg_period_def)
  have "seed AND mask n \<in> reg_states n"
  proof -
    have "seed AND mask n \<le> mask n" by (rule word_and_le1)
    with ok have "unat (seed AND mask n) < unat (mask n :: u64)" by (intro unat_less_of_le_neq)
    then show ?thesis by (simp only: reg_states_def pm reg_period_def mem_Collect_eq)
  qed
  then obtain t where t: "seed AND mask n = reg_pos n t"
    using reg_pos_surj [OF n(1,2) mx] by blast
  have c: "unat ?c = spin_cycle_nat (reg_period n) (unat s + 1)"
    using spin_cycle_correct [of "mask n" "unat s"] s15 reg_period_bound [OF n(2)] by (simp add: pm)
  have "lfsr_ready n t fl"
    using n s15 mx c t by (simp add: lfsr_ready_def fl)
  moreover have "unat (nums - 1) < reg_period n"
  proof -
    have "0 < unat nums" using nums by (simp add: word_less_nat_alt)
    then have "unat (nums - 1) = unat nums - 1" by (simp add: unat_sub_if_size Suc_leI)
    with n(4) \<open>0 < unat nums\<close> show ?thesis by (simp add: reg_period_def)
  qed
  ultimately show ?thesis by (intro that [of n t]) (simp_all add: fl)
qed

lemma find_lfsr_least:
  assumes "find_lfsr sz = Some ts"
  obtains n where "3 \<le> n" "n < 64" "ts = taps ! n" "unat sz < 2 ^ n" "n = 3 \<or> 2 ^ (n - 1) \<le> unat sz"
proof -
  from assms obtain n where n: "find (\<lambda>i. sz < bitval i) [3..<64] = Some n" "ts = taps ! n"
    unfolding find_lfsr_def by (cases "find (\<lambda>i. sz < bitval i) [3..<64]") (simp_all only: option.map, blast+)
  note f = find_upt_Some [OF n(1)]
  then have b: "3 \<le> n" "n < 64" "sz < bitval n" by blast+
  then have "unat sz < 2 ^ n" by (simp add: word_less_nat_alt bitval_unat)
  moreover have "n = 3 \<or> 2 ^ (n - 1) \<le> unat sz"
  proof (cases "n = 3")
    case False
    then have "\<not> sz < bitval (n - 1)" using f b(1) by auto
    moreover have "n - 1 < 64" using b(2) by simp
    ultimately show ?thesis by (simp only: word_less_nat_alt bitval_unat not_less simp_thms)
  qed simp
  ultimately show ?thesis using b n(2) that by blast
qed

lemma find_lfsr_None: "find_lfsr sz = None \<longleftrightarrow> 2 ^ 63 \<le> unat sz"
proof -
  have "find_lfsr sz = None \<longleftrightarrow> (\<forall>j. 3 \<le> j \<and> j < 64 \<longrightarrow> \<not> sz < bitval j)"
    by (simp only: find_lfsr_def option.map_disc_iff find_upt_None)
  also have "\<dots> \<longleftrightarrow> (\<forall>j. 3 \<le> j \<and> j < 64 \<longrightarrow> 2 ^ j \<le> unat sz)"
    by (auto simp: word_less_nat_alt bitval_unat)
  also have "\<dots> \<longleftrightarrow> 2 ^ 63 \<le> unat sz"
  proof (intro iffI allI impI)
    assume le: "2 ^ 63 \<le> unat sz"
    fix j :: nat assume "3 \<le> j \<and> j < 64"
    then have "(2 :: nat) ^ j \<le> 2 ^ 63" by (intro power_increasing) simp_all
    from this le show "2 ^ j \<le> unat sz" by (rule order_trans)
  qed (drule spec [of _ 63], simp)
  finally show ?thesis .
qed

text \<open>
  C15: a generator whose initialisation for a range that is not empty reports no error, whatever the
  range, the seed and the spin, hands out every number below \<open>nums\<close> exactly once, each call
  returning; the call after that reports the end.
\<close>

theorem lfsr_visits_every_offset_once:
  assumes init: "lfsr_init fl0 nums seed s = (fl, False)" and nums: "0 < nums"
  shows "\<exists>fl' fl'' vs. lfsr_run fl (unat nums) = Some (fl', map Some vs) \<and> distinct vs
    \<and> set vs = {v. v < nums} \<and> lfsr_next fl' = Some (fl'', None)"
proof -
  obtain n t where r: "lfsr_ready n t fl" and mv: "max_val fl = nums - 1" and nv: "num_vals fl = 0"
    and max: "unat (max_val fl) < reg_period n"
    by (rule lfsr_init_ready [OF init nums all_rows_maximal])
  let ?vs = "in_range fl n t [Suc 0..<Suc (reg_period n)]"
  note all = in_range_all [OF r max]
  have u: "unat (max_val fl) + 1 = unat nums"
    using nums by (simp add: mv unat_sub_if_size word_less_nat_alt Suc_leI)
  have fl: "call_state fl n t 0 0 = fl"
    using nv by (simp add: call_state_def walk_state_0 [OF r])
  obtain k where run: "lfsr_run fl (unat nums) = Some (call_state fl n t k (unat nums), map Some ?vs)"
    using lfsr_run_in_range [OF r, of "unat nums" 0 "reg_period n" 0] all(3)
    by (auto simp only: fl u add_0 le_refl take_all)
  have "max_val fl < of_nat (unat nums)" using u by (simp only: word_less_nat_alt of_nat_unat ucast_id)
  then have "\<exists>fl''. lfsr_next (call_state fl n t k (unat nums)) = Some (fl'', None)"
    by (simp add: lfsr_next_def call_state_simps Let_def)
  moreover have "set ?vs = {v. v < nums}"
  proof -
    have "v \<le> max_val fl \<longleftrightarrow> v < nums" for v
      using u by (simp only: word_le_nat_alt word_less_nat_alt) linarith
    then show ?thesis using all(2) by simp
  qed
  ultimately show ?thesis using run all(1) by blast
qed

theorem lfsr_visits_every_offset_once_witness:
  "\<exists>fl' fl'' vs. lfsr_run (fst (lfsr_init fio_lfsr_zero 5000000000 5 2)) 5000000000 = Some (fl', map Some vs)
    \<and> distinct vs \<and> set vs = {v. v < 5000000000} \<and> lfsr_next fl' = Some (fl'', None)"
proof -
  have "\<not> snd (lfsr_init fio_lfsr_zero 5000000000 5 2)" by code_simp
  then have "lfsr_init fio_lfsr_zero 5000000000 5 2 = (fst (lfsr_init fio_lfsr_zero 5000000000 5 2), False)"
    by (simp add: prod_eq_iff)
  from lfsr_visits_every_offset_once [OF this] show ?thesis by simp
qed

text \<open>
  C28: the initialisation reports an error exactly when the range needs more than 63 bits, the spin
  is above 15, or the seed fills all bits of the register, the one state an XNOR register never
  leaves.
\<close>

theorem lfsr_init_error_iff:
  "snd (lfsr_init fl0 nums seed s) \<longleftrightarrow> 2 ^ 63 \<le> unat nums \<or> 15 < s
    \<or> (\<exists>n. 3 \<le> n \<and> unat nums < 2 ^ n \<and> (n = 3 \<or> 2 ^ (n - 1) \<le> unat nums)
         \<and> seed AND mask n = mask n)"
proof (cases "find_lfsr nums")
  case None
  then have "2 ^ 63 \<le> unat nums" using find_lfsr_None by blast
  moreover have "lfsr_init fl0 nums seed s = (fl0, True)" unfolding lfsr_init_def None by simp
  ultimately show ?thesis by simp
next
  case (Some ts)
  then obtain n where n: "3 \<le> n" "n < 64" "ts = taps ! n" "unat nums < 2 ^ n"
    "n = 3 \<or> 2 ^ (n - 1) \<le> unat nums"
    by (rule find_lfsr_least)
  have uniq: "k = n" if k: "3 \<le> k" "unat nums < 2 ^ k" "k = 3 \<or> 2 ^ (k - 1) \<le> unat nums" for k
  proof (rule ccontr)
    assume "k \<noteq> n"
    then consider "k < n" | "n < k" by linarith
    then show False
    proof cases
      case 1
      then have "(2 :: nat) ^ k \<le> 2 ^ (n - 1)" by (intro power_increasing) simp_all
      then show ?thesis using 1 k n(1,5) by linarith
    next
      case 2
      then have "(2 :: nat) ^ n \<le> 2 ^ (k - 1)" by (intro power_increasing) simp_all
      then show ?thesis using 2 k n(1,4) by linarith
    qed
  qed
  have "\<not> 2 ^ 63 \<le> unat nums" using Some find_lfsr_None [of nums] by simp
  moreover have "snd (lfsr_init fl0 nums seed s) \<longleftrightarrow> 15 < s \<or> seed AND mask n = mask n"
    by (simp add: lfsr_init_eq [OF Some [unfolded n(3)] n(1,2), of fl0 seed s])
  ultimately show ?thesis using n(1,4,5) uniq by blast
qed

end
