(* ===== verification/Rand.thy ===== *)
theory Rand
  imports Hash
begin

text \<open>
  \<^verbatim>\<open>lib/rand.c\<close>, \<^verbatim>\<open>lib/rand.h\<close>: the combined Tausworthe generator, its
  seeding, and the routines that fill I/O buffers from it. The lemmas show that the three
  component generators never fall into their zero cycle when they start outside it, for which
  seeds they start inside it, and when the buffer routines stay in the buffer and return.
\<close>

section \<open>The generator\<close>

record frand_state =
  fr_s1 :: u32
  fr_s2 :: u32
  fr_s3 :: u32

definition tausworthe :: "u32 \<Rightarrow> nat \<Rightarrow> nat \<Rightarrow> u32 \<Rightarrow> nat \<Rightarrow> u32" where
  "tausworthe s a b c d = push_bit d (s AND c) XOR drop_bit b (push_bit a s XOR s)"

text \<open>\<open>__rand\<close>: the next state and the number.\<close>

definition fio_rand :: "frand_state \<Rightarrow> frand_state \<times> u32" where
  "fio_rand st =
     (let s1 = tausworthe (fr_s1 st) 13 19 4294967294 12;
          s2 = tausworthe (fr_s2 st) 2 25 4294967288 4;
          s3 = tausworthe (fr_s3 st) 3 11 4294967280 17
      in (\<lparr>fr_s1 = s1, fr_s2 = s2, fr_s3 = s3\<rparr>, s1 XOR s2 XOR s3))"

definition seed_min :: "u32 \<Rightarrow> u32 \<Rightarrow> u32" where
  "seed_min x m = (if x < m then x + m else x)"

definition lcg :: "u32 \<Rightarrow> u32 \<Rightarrow> u32" where
  "lcg x seed = (x * 69069) XOR seed"

text \<open>
  The first multiplicand is \<open>(2^31) + (2^17) + (2^7)\<close> in the source, where the operator is
  exclusive or.
\<close>

definition rand_start :: "u32 \<Rightarrow> frand_state" where
  "rand_start seed =
     (let s1 = seed_min (lcg ((2 XOR 31) + (2 XOR 17) + (2 XOR 7)) seed) 1;
          s2 = seed_min (lcg s1 seed) 7;
          s3 = seed_min (lcg s2 seed) 15
      in \<lparr>fr_s1 = s1, fr_s2 = s2, fr_s3 = s3\<rparr>)"

definition init_rand_seed :: "u32 \<Rightarrow> frand_state" where
  "init_rand_seed seed = ((\<lambda>st. fst (fio_rand st)) ^^ 6) (rand_start seed)"

definition init_rand :: frand_state where
  "init_rand = init_rand_seed 1"

section \<open>The component generators stay alive\<close>

lemma bit_tausworthe:
  "bit (tausworthe s a b c d) i \<longleftrightarrow> i < 32 \<and>
     ((d \<le> i \<and> bit s (i - d) \<and> bit c (i - d)) \<noteq>
      (i + b < 32 \<and> ((a \<le> i + b \<and> bit s (i + b - a)) \<noteq> bit s (i + b))))"
  by (auto simp: tausworthe_def bitwise bit_push_bit_iff bit_drop_bit_eq add.commute
      dest: bit_imp_le_length)

text \<open>\<open>live k s\<close>: some bit of the component from the \<open>k\<close>-th up is set.\<close>

definition live :: "nat \<Rightarrow> u32 \<Rightarrow> bool" where
  "live k s \<longleftrightarrow> drop_bit k s \<noteq> 0"

lemma bit_u32_less: "bit (s :: u32) i \<Longrightarrow> i < 32"
  using bit_imp_le_length [of s i] by simp

lemma live_iff_bit: "live k s \<longleftrightarrow> (\<exists>i \<ge> k. bit s i)"
proof -
  have "drop_bit k s = 0 \<longleftrightarrow> (\<forall>i. \<not> bit s (k + i))"
    unfolding bit_eq_iff by (auto simp: bit_drop_bit_eq dest: bit_u32_less)
      (metis add_lessD1 add.commute bit_u32_less)
  also have "\<dots> \<longleftrightarrow> (\<forall>i \<ge> k. \<not> bit s i)"
    by (metis le_add1 le_Suc_ex)
  finally show ?thesis by (auto simp: live_def)
qed

lemma live_iff_less: "live k s \<longleftrightarrow> 2 ^ k \<le> unat s"
  using unat_less_pow_iff [of s k] by (auto simp: live_iff_bit not_less [symmetric])

lemma low_mask_bits:
  "bit (4294967294 :: u32) i \<longleftrightarrow> 1 \<le> i \<and> i < 32"
  "bit (4294967288 :: u32) i \<longleftrightarrow> 3 \<le> i \<and> i < 32"
  "bit (4294967280 :: u32) i \<longleftrightarrow> 4 \<le> i \<and> i < 32"
proof -
  have m: "(4294967294 :: u32) = NOT (mask 1)" "(4294967288 :: u32) = NOT (mask 3)"
    "(4294967280 :: u32) = NOT (mask 4)"
    by (simp_all add: mask_eq_exp_minus_1)
  show "bit (4294967294 :: u32) i \<longleftrightarrow> 1 \<le> i \<and> i < 32"
    "bit (4294967288 :: u32) i \<longleftrightarrow> 3 \<le> i \<and> i < 32"
    "bit (4294967280 :: u32) i \<longleftrightarrow> 4 \<le> i \<and> i < 32"
    unfolding m bit_not_iff bit_mask_iff by auto
qed

lemmas bit_components = bit_tausworthe [of _ 13 19 4294967294 12, unfolded low_mask_bits]
  bit_tausworthe [of _ 2 25 4294967288 4, unfolded low_mask_bits]
  bit_tausworthe [of _ 3 11 4294967280 17, unfolded low_mask_bits]

lemma live_s1:
  assumes "live 1 s" shows "live 1 (tausworthe s 13 19 4294967294 12)"
proof (rule ccontr)
  let ?t = "tausworthe s 13 19 4294967294 12"
  assume "\<not> ?thesis"
  then have t: "\<not> bit ?t i" if "1 \<le> i" for i using that by (auto simp: live_iff_bit)
  have lo: "\<not> bit s i" if "1 \<le> i" "i < 20" for i
    using t [of "i + 12"] that by (simp add: bit_components)
  have "\<not> bit s i" if "20 \<le> i" "i < 32" for i
    using t [of "i - 19"] lo [of "i - 13"] that by (simp add: bit_components)
  with lo assms show False by (auto simp: live_iff_bit) (metis bit_u32_less not_le)
qed

lemma live_s2:
  assumes "live 3 s" shows "live 3 (tausworthe s 2 25 4294967288 4)"
proof (rule ccontr)
  let ?t = "tausworthe s 2 25 4294967288 4"
  assume "\<not> ?thesis"
  then have t: "\<not> bit ?t i" if "3 \<le> i" for i using that by (auto simp: live_iff_bit)
  have lo: "\<not> bit s i" if "3 \<le> i" "i < 28" for i
    using t [of "i + 4"] that by (simp add: bit_components)
  have mid: "\<not> bit s i" if "28 \<le> i" "i < 30" for i
    using t [of "i - 25"] lo [of "i - 2"] that by (simp add: bit_components)
  have hi: "\<not> bit s i" if "30 \<le> i" "i < 32" for i
  proof -
    have "3 \<le> i - 25" "28 \<le> i - 2" "i - 2 < 30" "\<not> 3 \<le> i - 29" using that by arith+
    then show ?thesis using t [of "i - 25"] mid [of "i - 2"] that by (simp add: bit_components)
  qed
  have "\<not> bit s i" if "3 \<le> i" for i
    using lo [of i] mid [of i] hi [of i] bit_u32_less [of s i] that by fastforce
  with assms show False by (auto simp: live_iff_bit)
qed

lemma live_s3:
  assumes "live 4 s" shows "live 4 (tausworthe s 3 11 4294967280 17)"
proof (rule ccontr)
  let ?t = "tausworthe s 3 11 4294967280 17"
  assume "\<not> ?thesis"
  then have t: "\<not> bit ?t i" if "4 \<le> i" for i using that by (auto simp: live_iff_bit)
  have lo: "\<not> bit s i" if "4 \<le> i" "i < 15" for i
    using t [of "i + 17"] that by (simp add: bit_components)
  have "\<not> bit s i" if "4 \<le> i" for i
    using that
  proof (induction i rule: less_induct)
    case (less i)
    show ?case
    proof (cases "i < 15")
      case False
      have "\<not> bit s (i - 3)" using less False by simp
      moreover have "i < 32 \<Longrightarrow> \<not> 4 \<le> i - 28" "4 \<le> i - 11" using False by arith+
      ultimately show ?thesis using t [of "i - 11"] False bit_u32_less [of s i]
        by (auto simp: bit_components)
    qed (use less lo in simp)
  qed
  with assms show False by (auto simp: live_iff_bit)
qed

definition rand_live :: "frand_state \<Rightarrow> bool" where
  "rand_live st \<longleftrightarrow> 1 < fr_s1 st \<and> 7 < fr_s2 st \<and> 15 < fr_s3 st"

lemma rand_live_iff: "rand_live st \<longleftrightarrow> live 1 (fr_s1 st) \<and> live 3 (fr_s2 st) \<and> live 4 (fr_s3 st)"
  by (auto simp: rand_live_def live_iff_less word_less_nat_alt)

lemma rand_live_step: "rand_live st \<Longrightarrow> rand_live (fst (fio_rand st))"
  by (simp only: rand_live_iff fio_rand_def Let_def fst_conv frand_state.select_convs live_s1 live_s2 live_s3 simp_thms)

lemma rand_live_steps: "rand_live st \<Longrightarrow> rand_live (((\<lambda>st. fst (fio_rand st)) ^^ n) st)"
  by (induction n) (simp_all add: rand_live_step)

text \<open>A component outside the live states is stuck at zero.\<close>

lemma dead_s1: "\<not> live 1 s \<Longrightarrow> tausworthe s 13 19 4294967294 12 = 0"
proof (rule bit_eqI)
  fix i assume "\<not> live 1 s"
  then have "\<not> bit s j" if "1 \<le> j" for j using that by (auto simp: live_iff_bit)
  then show "bit (tausworthe s 13 19 4294967294 12) i = bit 0 i"
    by (auto simp: bit_components)
qed

lemma seed_min_less: "unat m < 2 ^ 31 \<Longrightarrow> seed_min x m < y \<longleftrightarrow> (if x < m then x + m < y else x < y)"
  by (simp add: seed_min_def)

lemma rand_start_s1: "live 1 (fr_s1 (rand_start seed)) \<longleftrightarrow> seed \<noteq> 3660656 \<and> seed \<noteq> 3660657"
proof -
  have l: "lcg 53 seed = 3660657 XOR seed"
    by (simp add: lcg_def)
  have "\<not> live 1 (seed_min x 1) \<longleftrightarrow> x = 0 \<or> x = 1" for x
  proof -
    have "\<not> live 1 (seed_min x 1) \<longleftrightarrow> unat (seed_min x 1) < 2" unfolding live_iff_less by (simp add: not_le)
    also have "\<dots> \<longleftrightarrow> unat x = 0 \<or> unat x = 1"
      using unat_gt_0 [of x] by (auto simp: seed_min_def word_less_nat_alt)
    also have "\<dots> \<longleftrightarrow> x = 0 \<or> x = 1" by (auto simp: word_unat_eq_iff)
    finally show ?thesis .
  qed
  moreover have "3660657 XOR seed = (x :: u32) \<longleftrightarrow> seed = 3660657 XOR x" for x
    by (metis bit.xor_left_self)
  ultimately have "\<not> live 1 (fr_s1 (rand_start seed)) \<longleftrightarrow> seed = 3660657 \<or> seed = 3660656"
    by (simp add: rand_start_def Let_def l disj_commute)
  then show ?thesis by blast
qed

abbreviation rand_step :: "frand_state \<Rightarrow> frand_state" where
  "rand_step st \<equiv> fst (fio_rand st)"

lemma fr_s1_step: "fr_s1 (rand_step st) = tausworthe (fr_s1 st) 13 19 4294967294 12"
  by (simp add: fio_rand_def Let_def)

lemma fr_s1_steps:
  "fr_s1 ((rand_step ^^ n) st) = ((\<lambda>s. tausworthe s 13 19 4294967294 12) ^^ n) (fr_s1 st)"
  by (induction n) (simp_all only: funpow.simps o_apply id_apply fr_s1_step)

lemma live_s1_steps: "live 1 s \<Longrightarrow> live 1 (((\<lambda>s. tausworthe s 13 19 4294967294 12) ^^ n) s)"
proof (induction n)
  case (Suc n)
  then show ?case unfolding funpow.simps o_apply by (intro live_s1)
qed simp

lemma dead_s1_steps:
  "\<not> live 1 s \<Longrightarrow> 0 < n \<Longrightarrow> ((\<lambda>s. tausworthe s 13 19 4294967294 12) ^^ n) s = 0"
proof (induction n)
  case (Suc n)
  have "\<not> live 1 (0 :: u32)" by (simp add: live_def)
  then have "\<not> live 1 (((\<lambda>s. tausworthe s 13 19 4294967294 12) ^^ n) s)"
    using Suc by (cases "n = 0") simp_all
  then show ?case unfolding funpow.simps o_apply by (rule dead_s1)
qed simp

section \<open>Filling buffers\<close>

text \<open>
  \<open>__fill_random_buf\<close> on the part of \<open>len\<close> bytes at \<open>base\<close>; \<open>p\<close> is
  \<open>ptr - buf\<close>. Each pass stores a whole \<open>long\<close>.
\<close>

function fill_random_words :: "u8 list \<Rightarrow> nat \<Rightarrow> nat \<Rightarrow> nat \<Rightarrow> u64 \<Rightarrow> u8 list option" where
  "fill_random_words mem base p len seed =
     (if p < len
      then Option.bind (put_bytes mem (base + p) (le_bytes 8 seed))
        (\<lambda>mem'. fill_random_words mem' base (p + 8) len (drop_bit 3 (seed * GOLDEN_RATIO_PRIME)))
      else Some mem)"
  by pat_completeness auto
termination
  by (relation "measure (\<lambda>(mem, base, p, len, seed). len - p)") auto

declare fill_random_words.simps [simp del]

definition fill_random_buf0 :: "u8 list \<Rightarrow> nat \<Rightarrow> u32 \<Rightarrow> u64 \<Rightarrow> u8 list option" where
  "fill_random_buf0 mem base len seed = fill_random_words mem base 0 (unat len) seed"

text \<open>The seed of a buffer: the product of two numbers, for a \<open>long\<close> wider than an int.\<close>

definition fill_seed :: "frand_state \<Rightarrow> frand_state \<times> u64" where
  "fill_seed st =
     (let (st1, r1) = fio_rand st; (st2, r2) = fio_rand st1 in (st2, ucast r1 * ucast r2))"

definition fill_random_buf :: "frand_state \<Rightarrow> u8 list \<Rightarrow> u32 \<Rightarrow> (frand_state \<times> u8 list \<times> u64) option" where
  "fill_random_buf st mem len =
     (let (st', r) = fill_seed st
      in map_option (\<lambda>mem'. (st', mem', r)) (fill_random_buf0 mem 0 len r))"

definition zero_bytes :: "u8 list \<Rightarrow> nat \<Rightarrow> u32 \<Rightarrow> u8 list option" where
  "zero_bytes mem base len = put_bytes mem base (replicate (unat len) 0)"

text \<open>One pass of the loop of \<open>fill_random_buf_percentage\<close>.\<close>

definition fill_pct_chunk :: "u32 \<Rightarrow> u32 \<Rightarrow> u32 \<Rightarrow> u32" where
  "fill_pct_chunk seg pct len = min ((seg * (100 - pct)) div 100) len"

partial_function (option) fill_pct_loop ::
  "u8 list \<Rightarrow> nat \<Rightarrow> u32 \<Rightarrow> u32 \<Rightarrow> u32 \<Rightarrow> u64 \<Rightarrow> u8 list option"
where
  "fill_pct_loop mem base seg pct len r =
     (if len = 0 then Some mem
      else Option.bind (fill_random_buf0 mem base (fill_pct_chunk seg pct len) r) (\<lambda>mem1.
        Option.bind (zero_bytes mem1 (base + unat (fill_pct_chunk seg pct len))
            (min (fill_pct_chunk seg pct len) (len - fill_pct_chunk seg pct len))) (\<lambda>mem2.
          fill_pct_loop mem2
            (base + unat (fill_pct_chunk seg pct len)
              + unat (min (fill_pct_chunk seg pct len) (len - fill_pct_chunk seg pct len)))
            seg pct
            (len - fill_pct_chunk seg pct len
              - min (fill_pct_chunk seg pct len) (len - fill_pct_chunk seg pct len)) r)))"

declare fill_pct_loop.simps [code]

definition fill_random_buf_percentage ::
  "frand_state \<Rightarrow> u8 list \<Rightarrow> u32 \<Rightarrow> u32 \<Rightarrow> u32 \<Rightarrow> (frand_state \<times> u8 list \<times> u64) option"
where
  "fill_random_buf_percentage st mem pct segment len =
     (let (st1, r1) = fio_rand st in
      if pct = 100 then map_option (\<lambda>mem'. (st1, mem', 0)) (zero_bytes mem 0 len)
      else let seg = (if len < segment then len else segment);
               (st2, r2) = fio_rand st1; r = ucast r1 * ucast r2
           in map_option (\<lambda>mem'. (st2, mem', r)) (fill_pct_loop mem 0 seg pct len r))"

lemma fill_random_words_defined:
  "base + ((len + 7) div 8) * 8 \<le> length mem \<Longrightarrow> 8 dvd p \<Longrightarrow>
    \<exists>mem'. fill_random_words mem base p len seed = Some mem' \<and> length mem' = length mem"
proof (induction mem base p len seed rule: fill_random_words.induct)
  case (1 mem base p len seed)
  show ?case
  proof (cases "p < len")
    case True
    obtain q where q: "p = 8 * q" using 1(3) by (elim dvdE)
    with True have "q < (len + 7) div 8" by simp
    then have "p + 8 \<le> ((len + 7) div 8) * 8" using q by simp
    with 1(2) have "base + p + length (le_bytes 8 seed) \<le> length mem" by simp
    from put_bytes_defined [OF this] obtain mem' where m: "put_bytes mem (base + p) (le_bytes 8 seed) = Some mem'" ..
    note l = put_bytes_length [OF m]
    show ?thesis using 1(1) [OF True m] 1(2,3) True m l
      by (simp add: fill_random_words.simps [of mem])
  qed (simp add: fill_random_words.simps)
qed

lemma fill_random_words_overflow:
  "p < len \<Longrightarrow> 8 dvd p \<Longrightarrow> \<not> 8 dvd len \<Longrightarrow> length mem = base + len \<Longrightarrow>
    fill_random_words mem base p len seed = None"
proof (induction mem base p len seed rule: fill_random_words.induct)
  case (1 mem base p len seed)
  show ?case
  proof (cases "put_bytes mem (base + p) (le_bytes 8 seed)")
    case (Some mem')
    then have "base + p + 8 \<le> length mem" by (simp add: put_bytes_def split: if_splits)
    moreover have "p + 8 \<noteq> len" using 1(3,4) by (metis dvd_add_triv_right_iff)
    ultimately have "p + 8 < len" using 1(5) by simp
    then have "fill_random_words mem' base (p + 8) len (drop_bit 3 (seed * GOLDEN_RATIO_PRIME)) = None"
      using 1(1) [OF 1(2) Some] 1 put_bytes_length [OF Some] by simp
    then show ?thesis using 1(2) by (simp add: fill_random_words.simps [of mem] Some)
  qed (simp add: fill_random_words.simps [of mem] 1(2))
qed

lemma fill_pct_no_progress:
  assumes "fill_pct_loop mem base seg pct len r = Some mem'"
  shows "(seg * (100 - pct)) div 100 = 0 \<longrightarrow> len = 0"
proof (rule fill_pct_loop.raw_induct [OF _ assms,
      where P = "\<lambda>mem base seg pct len r mem'. (seg * (100 - pct)) div 100 = 0 \<longrightarrow> len = 0"])
  fix f :: "u8 list \<Rightarrow> nat \<Rightarrow> u32 \<Rightarrow> u32 \<Rightarrow> u32 \<Rightarrow> u64 \<Rightarrow> u8 list option" and mem base seg pct len r mem'
  assume IH: "\<And>mem base seg pct len r mem'. f mem base seg pct len r = Some mem' \<Longrightarrow>
      (seg * (100 - pct)) div 100 = 0 \<longrightarrow> len = 0"
    and eq: "(if len = 0 then Some mem
      else Option.bind (fill_random_buf0 mem base (fill_pct_chunk seg pct len) r) (\<lambda>mem1.
        Option.bind (zero_bytes mem1 (base + unat (fill_pct_chunk seg pct len))
            (min (fill_pct_chunk seg pct len) (len - fill_pct_chunk seg pct len))) (\<lambda>mem2.
          f mem2
            (base + unat (fill_pct_chunk seg pct len)
              + unat (min (fill_pct_chunk seg pct len) (len - fill_pct_chunk seg pct len)))
            seg pct
            (len - fill_pct_chunk seg pct len
              - min (fill_pct_chunk seg pct len) (len - fill_pct_chunk seg pct len)) r))) = Some mem'"
  show "(seg * (100 - pct)) div 100 = 0 \<longrightarrow> len = 0"
  proof
    assume z: "(seg * (100 - pct)) div 100 = 0"
    then have c: "fill_pct_chunk seg pct len = 0" by (simp add: fill_pct_chunk_def)
    show "len = 0"
    proof (rule ccontr)
      assume "len \<noteq> 0"
      then obtain m where "f m (base + 0 + 0) seg pct len r = Some mem'"
        using eq by (auto simp: c bind_eq_Some_conv)
      then show False using IH z \<open>len \<noteq> 0\<close> by blast
    qed
  qed
qed

lemma fill_pct_loop_defined:
  assumes c: "(seg * (100 - pct)) div 100 = chunk" "chunk \<noteq> 0" "8 dvd unat chunk"
  shows "8 dvd unat len \<Longrightarrow> base + unat len \<le> length mem \<Longrightarrow>
    \<exists>mem'. fill_pct_loop mem base seg pct len r = Some mem' \<and> length mem' = length mem"
proof (induction "unat len" arbitrary: len base mem rule: less_induct)
  case less
  show ?case
  proof (cases "len = 0")
    case False
    define a where "a = min chunk len"
    define b where "b = min a (len - a)"
    have ch: "fill_pct_chunk seg pct len = a" by (simp add: fill_pct_chunk_def c a_def)
    have ua: "unat a = min (unat chunk) (unat len)"
      by (simp add: a_def min_def word_le_nat_alt)
    have ula: "unat (len - a) = unat len - unat a" using ua by (simp add: unat_sub_if_size)
    have ub: "unat b = min (unat a) (unat len - unat a)"
      unfolding b_def min_def word_le_nat_alt ula by (simp add: ula)
    have ulb: "unat (len - a - b) = unat len - unat a - unat b"
      using ub ula by (simp add: unat_sub_if_size)
    have a8: "8 dvd unat a" "0 < unat a"
      using c(2,3) less.prems(1) False ua unat_gt_0 [of chunk] unat_gt_0 [of len] by (auto simp: min_def)
    have ab: "unat a + unat b \<le> unat len"
    proof -
      have "unat a \<le> unat len" "unat b \<le> unat len - unat a" by (simp_all only: ua ub min.cobounded2)
      then show ?thesis by linarith
    qed
    have "((unat a + 7) div 8) * 8 = unat a" using a8(1) by (elim dvdE) simp
    then obtain m1 where m1: "fill_random_buf0 mem base a r = Some m1" "length m1 = length mem"
      using fill_random_words_defined [of base "unat a" mem 0 r] less.prems(2) ab
      by (auto simp: fill_random_buf0_def)
    obtain m2 where m2: "zero_bytes m1 (base + unat a) b = Some m2"
      using put_bytes_defined [of "base + unat a" "replicate (unat b) 0" m1] less.prems(2) ab m1(2)
      by (auto simp: zero_bytes_def)
    then have l2: "length m2 = length mem" using m1(2) by (simp add: zero_bytes_def put_bytes_length)
    have "8 dvd unat b" using a8(1) less.prems(1) ub by (simp add: min_def dvd_diff_nat)
    then have "8 dvd unat (len - a - b)" using a8(1) less.prems(1) by (simp add: ulb dvd_diff_nat)
    moreover have "base + unat a + unat b + unat (len - a - b) \<le> length m2"
      using less.prems(2) ab by (simp add: ulb l2)
    moreover have "unat (len - a - b) < unat len"
      using a8(2) ab by (simp only: ulb)
    ultimately obtain m3 where "fill_pct_loop m2 (base + unat a + unat b) seg pct (len - a - b) r = Some m3"
      "length m3 = length mem"
      using less.hyps [of "len - a - b" "base + unat a + unat b" m2] l2 by auto
    then show ?thesis
      using m1 m2 False by (subst fill_pct_loop.simps) (simp add: ch b_def [symmetric])
  qed (simp add: fill_pct_loop.simps)
qed

text \<open>
  C34: for every seed but the two that make the multiplier of the first component cancel, the first
  component of the generator is never zero, however many numbers are drawn; for those two it is
  zero for ever.
\<close>

theorem rand_first_component_dead_iff:
  "fr_s1 ((rand_step ^^ n) (init_rand_seed seed)) = 0 \<longleftrightarrow> seed = 3660656 \<or> seed = 3660657"
proof -
  have eq: "fr_s1 ((rand_step ^^ n) (init_rand_seed seed))
      = ((\<lambda>s. tausworthe s 13 19 4294967294 12) ^^ (n + 6)) (fr_s1 (rand_start seed))"
    by (simp only: init_rand_seed_def fr_s1_steps funpow_add o_apply)
  show ?thesis
  proof (cases "live 1 (fr_s1 (rand_start seed))")
    case True
    then have "live 1 (fr_s1 ((rand_step ^^ n) (init_rand_seed seed)))"
      unfolding eq by (rule live_s1_steps)
    moreover have "\<not> live 1 (0 :: u32)" by (simp add: live_def)
    ultimately have "fr_s1 ((rand_step ^^ n) (init_rand_seed seed)) \<noteq> 0" by metis
    moreover have "\<not> (seed = 3660656 \<or> seed = 3660657)" using True rand_start_s1 by blast
    ultimately show ?thesis by blast
  next
    case False
    then have "fr_s1 ((rand_step ^^ n) (init_rand_seed seed)) = 0"
      unfolding eq by (rule dead_s1_steps) simp
    moreover have "seed = 3660656 \<or> seed = 3660657" using False rand_start_s1 by blast
    ultimately show ?thesis by blast
  qed
qed

text \<open>
  A generator whose components all start above their bounds, as the source asks for, never
  leaves such states.
\<close>

theorem rand_stays_live:
  assumes "rand_live (rand_start seed)"
  shows "rand_live ((rand_step ^^ n) (init_rand_seed seed))"
proof -
  have "rand_live ((rand_step ^^ (n + 6)) (rand_start seed))" using assms by (rule rand_live_steps)
  then show ?thesis by (simp only: init_rand_seed_def funpow_add o_apply)
qed

theorem rand_stays_live_witness: "rand_live (rand_start 1) \<and> rand_live ((rand_step ^^ 5) (init_rand_seed 1))"
proof
  show l: "rand_live (rand_start 1)" by code_simp
  show "rand_live ((rand_step ^^ 5) (init_rand_seed 1))" by (rule rand_stays_live [OF l])
qed

text \<open>
  C35: filling a buffer of exactly \<open>len\<close> bytes is defined exactly when \<open>len\<close> is a multiple
  of the size of a \<open>long\<close>; for any other length the last store passes the end of the buffer.
\<close>

theorem fill_random_buf_in_bounds_iff:
  "fill_random_buf st (replicate (unat len) x) len \<noteq> None \<longleftrightarrow> 8 dvd unat len"
proof -
  obtain st' r where s: "fill_seed st = (st', r)" by fastforce
  show ?thesis
  proof (cases "8 dvd unat len")
    case True
    then have "((unat len + 7) div 8) * 8 = unat len" by (elim dvdE) simp
    then show ?thesis using True
        fill_random_words_defined [of 0 "unat len" "replicate (unat len) x" 0 r]
      by (auto simp: fill_random_buf_def fill_random_buf0_def s)
  next
    case False
    then have "0 < unat len" by (auto intro: gr0I)
    then show ?thesis using False
        fill_random_words_overflow [of 0 "unat len" "replicate (unat len) x" 0 r]
      by (simp add: fill_random_buf_def fill_random_buf0_def s)
  qed
qed



end
