(* ===== verification/Filehash.thy ===== *)
theory Filehash
  imports Hash
begin

text \<open>
  \<^verbatim>\<open>filehash.c\<close> and its callers in \<^verbatim>\<open>filesetup.c\<close>: the hash table that finds an
  open file by its name. The buckets are the linked lists of the source, as lists of file identities;
  the files live in a store. The interface the rest of the program relies on is the locale
  \<open>name_registry\<close>, interpreted at the end on the table.
\<close>

section \<open>The interface\<close>

text \<open>
  A registry maps names to files. \<open>find\<close> looks a name up, \<open>add\<close> enters a file under its own
  name and returns the file that is there already, \<open>del\<close> removes a file.
\<close>

locale name_registry =
  fixes ok :: "'t \<Rightarrow> bool"
    and view :: "'t \<Rightarrow> 'n \<Rightarrow> 'f option"
    and key :: "'t \<Rightarrow> 'f \<Rightarrow> 'n option"
    and usable :: "'t \<Rightarrow> 'f \<Rightarrow> bool"
    and find_file :: "'t \<Rightarrow> 'n \<Rightarrow> 'f option option"
    and add :: "'t \<Rightarrow> 'f \<Rightarrow> ('t \<times> 'f option) option"
    and del :: "'t \<Rightarrow> 'f \<Rightarrow> 't option"
  assumes find_view: "ok t \<Longrightarrow> find_file t n = Some (view t n)"
    and view_key: "ok t \<Longrightarrow> view t n = Some f \<Longrightarrow> key t f = Some n"
    and add_view: "ok t \<Longrightarrow> key t f = Some n \<Longrightarrow> usable t f \<Longrightarrow> view t n \<noteq> Some f \<Longrightarrow>
      \<exists>t'. add t f = Some (t', view t n) \<and> ok t' \<and> key t' = key t \<and> usable t' = usable t
        \<and> view t' = (if view t n = None then (view t)(n \<mapsto> f) else view t)"
    and del_view: "ok t \<Longrightarrow> key t f = Some n \<Longrightarrow>
      \<exists>t'. del t f = Some t' \<and> ok t' \<and> key t' = key t \<and> usable t' = usable t
        \<and> view t' = (if view t n = Some f then (view t)(n := None) else view t)"
begin

text \<open>A file that was entered is found until it is removed, and the removal frees the name.\<close>

lemma add_find_del:
  assumes "ok t" "key t f = Some n" "usable t f" "view t n = None"
  shows "\<exists>t' t''. add t f = Some (t', None) \<and> find_file t' n = Some (Some f)
    \<and> del t' f = Some t'' \<and> find_file t'' n = Some None \<and> view t'' = view t"
proof -
  obtain t' where t': "add t f = Some (t', None)" "ok t'" "key t' = key t" "view t' = (view t)(n \<mapsto> f)"
    using add_view [OF assms(1-3)] assms(4) by auto
  obtain t'' where t'': "del t' f = Some t''" "ok t''" "view t'' = (view t')(n := None)"
    using del_view [of t' f n] t' assms(2) by auto
  have "view t'' = view t" using t''(3) t'(4) assms(4) by (auto simp: fun_eq_iff)
  then show ?thesis using t' t'' assms(4) by (simp add: find_view)
qed

text \<open>A second file of the same name is not entered, and both see the first one.\<close>

lemma add_alias:
  assumes "ok t" "key t f = Some n" "usable t f" "view t n = Some g" "g \<noteq> f"
  shows "\<exists>t'. add t f = Some (t', Some g) \<and> ok t' \<and> view t' = view t \<and> find_file t' n = Some (Some g)"
  using add_view [OF assms(1-3)] assms(4,5) by (auto simp: find_view)

end

section \<open>The table\<close>

record fio_file =
  f_fd :: int
  f_shadow_fd :: int
  f_name :: "u8 list option"
  f_hashed :: bool

record file_table =
  ft_file :: "nat \<Rightarrow> fio_file"
  ft_hash :: "nat list list"

definition HASH_BUCKETS :: nat where
  "HASH_BUCKETS = 512"

definition file_name_hash :: "u8 list \<Rightarrow> nat" where
  "file_name_hash name = unat (ucast (jhash name 0 AND 511) :: u16)"

definition file_hash_init :: "(nat \<Rightarrow> fio_file) \<Rightarrow> file_table" where
  "file_hash_init files = \<lparr>ft_file = files, ft_hash = replicate HASH_BUCKETS []\<rparr>"

text \<open>The walk over a bucket; the assertion that a hit has a descriptor is the outer option.\<close>

fun bucket_find :: "(nat \<Rightarrow> fio_file) \<Rightarrow> u8 list \<Rightarrow> nat list \<Rightarrow> nat option option" where
  "bucket_find files name [] = Some None"
| "bucket_find files name (f # fs) =
     (if f_name (files f) = Some name
      then (if f_fd (files f) \<noteq> -1 then Some (Some f) else None)
      else bucket_find files name fs)"

definition lookup_file_hash :: "file_table \<Rightarrow> u8 list \<Rightarrow> nat option option" where
  "lookup_file_hash t name = do {
     bucket \<leftarrow> rd (ft_hash t) (file_name_hash name);
     bucket_find (ft_file t) name bucket
   }"

definition set_hashed :: "file_table \<Rightarrow> nat \<Rightarrow> bool \<Rightarrow> file_table" where
  "set_hashed t f h = t\<lparr>ft_file := (ft_file t)(f := (ft_file t f)\<lparr>f_hashed := h\<rparr>)\<rparr>"

text \<open>Hashing the name of a file that has none reads through a null pointer, \<open>None\<close>.\<close>

definition add_file_hash :: "file_table \<Rightarrow> nat \<Rightarrow> (file_table \<times> nat option) option" where
  "add_file_hash t f =
     (if f_hashed (ft_file t f) then Some (t, None)
      else do {
        name \<leftarrow> f_name (ft_file t f);
        alias \<leftarrow> lookup_file_hash t name;
        if alias \<noteq> None then Some (t, alias)
        else do {
          bucket \<leftarrow> rd (ft_hash t) (file_name_hash name);
          h \<leftarrow> wr (ft_hash t) (file_name_hash name) (bucket @ [f]);
          Some ((set_hashed t f True)\<lparr>ft_hash := h\<rparr>, None)
        }
      })"

text \<open>\<open>flist_del_init\<close> unlinks the file from the list it is on.\<close>

definition remove_file_hash :: "file_table \<Rightarrow> nat \<Rightarrow> file_table option" where
  "remove_file_hash t f =
     (if f_hashed (ft_file t f)
      then do {
        c_assert (f \<in> set (concat (ft_hash t)));
        Some ((set_hashed t f False)\<lparr>ft_hash := map (removeAll f) (ft_hash t)\<rparr>)
      }
      else Some t)"

definition file_hash_has_entries :: "file_table \<Rightarrow> bool" where
  "file_hash_has_entries t \<longleftrightarrow> (\<exists>bucket \<in> set (ft_hash t). bucket \<noteq> [])"

text \<open>
  \<open>generic_close_file\<close>: the file leaves the table before its descriptor is closed. What
  \<open>close\<close> returns is a parameter.
\<close>

definition generic_close_file :: "(int \<Rightarrow> int) \<Rightarrow> file_table \<Rightarrow> nat \<Rightarrow> (file_table \<times> int) option" where
  "generic_close_file close_result t f = do {
     t1 \<leftarrow> remove_file_hash t f;
     let ret = close_result (f_fd (ft_file t1 f));
     Some (t1\<lparr>ft_file := (ft_file t1)(f := (ft_file t1 f)\<lparr>f_fd := -1, f_shadow_fd := -1\<rparr>)\<rparr>, ret)
   }"

section \<open>The invariant\<close>

definition bucket_of :: "file_table \<Rightarrow> u8 list \<Rightarrow> nat list" where
  "bucket_of t name = ft_hash t ! file_name_hash name"

definition file_view :: "file_table \<Rightarrow> u8 list \<Rightarrow> nat option" where
  "file_view t name = find (\<lambda>f. f_name (ft_file t f) = Some name) (bucket_of t name)"

definition file_table_ok :: "file_table \<Rightarrow> bool" where
  "file_table_ok t \<longleftrightarrow> length (ft_hash t) = HASH_BUCKETS
     \<and> (\<forall>i < HASH_BUCKETS. \<forall>f. f \<in> set (ft_hash t ! i) \<longleftrightarrow> f_hashed (ft_file t f)
          \<and> map_option file_name_hash (f_name (ft_file t f)) = Some i)
     \<and> (\<forall>f. f_hashed (ft_file t f) \<longrightarrow> f_name (ft_file t f) \<noteq> None \<and> f_fd (ft_file t f) \<noteq> -1)
     \<and> (\<forall>f g. f_hashed (ft_file t f) \<and> f_hashed (ft_file t g)
          \<and> f_name (ft_file t f) = f_name (ft_file t g) \<longrightarrow> f = g)"

lemma file_name_hash_less: "file_name_hash name < HASH_BUCKETS"
proof -
  have "jhash name 0 AND 511 \<le> 511" by (rule word_and_le1)
  then have "unat (jhash name 0 AND 511) \<le> 511" by (simp add: word_le_nat_alt)
  moreover have "unat (ucast (jhash name 0 AND 511) :: u16) = unat (jhash name 0 AND 511) mod 2 ^ 16"
    by (simp add: unsigned_ucast_eq take_bit_eq_mod)
  ultimately show ?thesis by (simp add: file_name_hash_def HASH_BUCKETS_def)
qed

lemma file_view_iff:
  assumes "file_table_ok t"
  shows "file_view t name = Some f \<longleftrightarrow> f_hashed (ft_file t f) \<and> f_name (ft_file t f) = Some name"
proof
  assume "file_view t name = Some f"
  then have "f \<in> set (bucket_of t name)" "f_name (ft_file t f) = Some name"
    by (auto simp: file_view_def find_Some_iff)
  then show "f_hashed (ft_file t f) \<and> f_name (ft_file t f) = Some name"
    using assms file_name_hash_less [of name] by (auto simp: file_table_ok_def bucket_of_def)
next
  assume f: "f_hashed (ft_file t f) \<and> f_name (ft_file t f) = Some name"
  then have "f \<in> set (bucket_of t name)"
    using assms file_name_hash_less [of name] by (simp add: file_table_ok_def bucket_of_def)
  then obtain g where g: "file_view t name = Some g"
    using f by (cases "file_view t name") (auto simp: file_view_def find_None_iff)
  then have "g \<in> set (bucket_of t name)" "f_name (ft_file t g) = Some name"
    by (auto simp: file_view_def find_Some_iff)
  then have "f_hashed (ft_file t g)" using assms file_name_hash_less [of name]
    by (auto simp: file_table_ok_def bucket_of_def)
  then have "g = f" using assms f \<open>f_name (ft_file t g) = Some name\<close> by (simp add: file_table_ok_def)
  with g show "file_view t name = Some f" by simp
qed

lemma bucket_find_eq:
  "(\<forall>f \<in> set fs. f_fd (files f) \<noteq> -1) \<Longrightarrow>
    bucket_find files name fs = Some (find (\<lambda>f. f_name (files f) = Some name) fs)"
  by (induction fs) auto

lemma lookup_view:
  assumes "file_table_ok t"
  shows "lookup_file_hash t name = Some (file_view t name)"
proof -
  have "\<forall>f \<in> set (bucket_of t name). f_fd (ft_file t f) \<noteq> -1"
    using assms file_name_hash_less [of name] by (auto simp: file_table_ok_def bucket_of_def)
  then show ?thesis
    using assms file_name_hash_less [of name] bucket_find_eq
    by (simp add: lookup_file_hash_def rd_def file_table_ok_def bucket_of_def file_view_def)
qed

lemma file_table_init_ok:
  "(\<And>f. \<not> f_hashed (files f)) \<Longrightarrow> file_table_ok (file_hash_init files)"
  by (simp add: file_table_ok_def file_hash_init_def)

lemma remove_ok:
  assumes ok: "file_table_ok t"
  shows "\<exists>t'. remove_file_hash t f = Some t' \<and> file_table_ok t' \<and> \<not> f_hashed (ft_file t' f)
    \<and> (\<forall>g. f_name (ft_file t' g) = f_name (ft_file t g) \<and> f_fd (ft_file t' g) = f_fd (ft_file t g)
        \<and> (g \<noteq> f \<longrightarrow> ft_file t' g = ft_file t g))"
proof (cases "f_hashed (ft_file t f)")
  case True
  then obtain name where name: "f_name (ft_file t f) = Some name"
    using ok by (auto simp: file_table_ok_def)
  then have "f \<in> set (bucket_of t name)" "bucket_of t name \<in> set (ft_hash t)"
    using True ok file_name_hash_less [of name] by (simp_all add: file_table_ok_def bucket_of_def)
  then have "c_assert (f \<in> set (concat (ft_hash t))) = Some ()" by (auto simp: c_assert_def)
  moreover have "file_table_ok ((set_hashed t f False)\<lparr>ft_hash := map (removeAll f) (ft_hash t)\<rparr>)"
    using ok by (auto simp: file_table_ok_def set_hashed_def)
  ultimately show ?thesis using True by (simp add: remove_file_hash_def set_hashed_def)
qed (use ok in \<open>simp add: remove_file_hash_def\<close>)

lemma add_ok:
  assumes ok: "file_table_ok t" and name: "f_name (ft_file t f) = Some name"
    and fd: "f_fd (ft_file t f) \<noteq> -1" and new: "\<not> f_hashed (ft_file t f)"
  shows "\<exists>t'. add_file_hash t f = Some (t', file_view t name) \<and> file_table_ok t'
    \<and> (\<forall>g. f_name (ft_file t' g) = f_name (ft_file t g) \<and> f_fd (ft_file t' g) = f_fd (ft_file t g)
        \<and> (f_hashed (ft_file t' g) \<longleftrightarrow> f_hashed (ft_file t g) \<or> file_view t name = None \<and> g = f))"
proof (cases "file_view t name")
  case None
  let ?h = "(ft_hash t)[file_name_hash name := bucket_of t name @ [f]]"
  have l: "length (ft_hash t) = HASH_BUCKETS" using ok by (simp add: file_table_ok_def)
  have n: "f_name (ft_file t g) \<noteq> Some name" if "f_hashed (ft_file t g)" for g
    using None that file_view_iff [OF ok, of name g] by auto
  have uniq: "f_hashed (ft_file t g) \<Longrightarrow> f_hashed (ft_file t k)
      \<Longrightarrow> f_name (ft_file t g) = f_name (ft_file t k) \<Longrightarrow> g = k" for g k
    using ok unfolding file_table_ok_def by blast
  have "file_table_ok ((set_hashed t f True)\<lparr>ft_hash := ?h\<rparr>)"
    unfolding file_table_ok_def
  proof (intro conjI allI impI)
    fix i g assume i: "i < HASH_BUCKETS"
    have old: "g \<in> set (ft_hash t ! i) \<longleftrightarrow> f_hashed (ft_file t g)
        \<and> map_option file_name_hash (f_name (ft_file t g)) = Some i"
      using ok i by (simp add: file_table_ok_def)
    have "g \<in> set (?h ! i) \<longleftrightarrow> g \<in> set (ft_hash t ! i) \<or> g = f \<and> i = file_name_hash name"
      using i l by (cases "i = file_name_hash name") (auto simp: bucket_of_def)
    then show "g \<in> set (ft_hash ((set_hashed t f True)\<lparr>ft_hash := ?h\<rparr>) ! i)
        \<longleftrightarrow> f_hashed (ft_file ((set_hashed t f True)\<lparr>ft_hash := ?h\<rparr>) g)
        \<and> map_option file_name_hash (f_name (ft_file ((set_hashed t f True)\<lparr>ft_hash := ?h\<rparr>) g)) = Some i"
      using old name new by (auto simp: set_hashed_def)
  next
    show "length (ft_hash ((set_hashed t f True)\<lparr>ft_hash := ?h\<rparr>)) = HASH_BUCKETS" using l by simp
  next
    fix g assume "f_hashed (ft_file ((set_hashed t f True)\<lparr>ft_hash := ?h\<rparr>) g)"
    then show "f_name (ft_file ((set_hashed t f True)\<lparr>ft_hash := ?h\<rparr>) g) \<noteq> None"
      "f_fd (ft_file ((set_hashed t f True)\<lparr>ft_hash := ?h\<rparr>) g) \<noteq> -1"
      using ok name fd by (simp_all add: file_table_ok_def set_hashed_def split: if_splits)
  next
    fix g k
    assume "f_hashed (ft_file ((set_hashed t f True)\<lparr>ft_hash := ?h\<rparr>) g)
      \<and> f_hashed (ft_file ((set_hashed t f True)\<lparr>ft_hash := ?h\<rparr>) k)
      \<and> f_name (ft_file ((set_hashed t f True)\<lparr>ft_hash := ?h\<rparr>) g)
        = f_name (ft_file ((set_hashed t f True)\<lparr>ft_hash := ?h\<rparr>) k)"
    moreover have "f_hashed (ft_file ((set_hashed t f True)\<lparr>ft_hash := ?h\<rparr>) x) \<Longrightarrow> x = f \<or> f_hashed (ft_file t x)"
      "f_name (ft_file ((set_hashed t f True)\<lparr>ft_hash := ?h\<rparr>) x) = f_name (ft_file t x)" for x
      by (auto simp: set_hashed_def split: if_splits)
    ultimately have "g = f \<or> f_hashed (ft_file t g)" "k = f \<or> f_hashed (ft_file t k)"
      "f_name (ft_file t g) = f_name (ft_file t k)" by (blast, blast, simp only:)
    with n name uniq show "g = k" by metis
  qed
  then show ?thesis
    using None new name lookup_view [OF ok, of name] file_name_hash_less [of name] l
    by (simp add: add_file_hash_def rd_def wr_def bucket_of_def set_hashed_def)
next
  case (Some g)
  then show ?thesis using new name ok lookup_view [OF ok, of name] by (simp add: add_file_hash_def)
qed

lemma file_view_eqI:
  assumes ok: "file_table_ok t"
    and v: "\<And>m f. v m = Some f \<longleftrightarrow> f_hashed (ft_file t f) \<and> f_name (ft_file t f) = Some m"
  shows "file_view t = v"
proof
  fix m
  show "file_view t m = v m"
    by (rule option_eqI) (simp only: file_view_iff [OF ok] v)
qed

lemma view_key: "file_table_ok t \<Longrightarrow> file_view t n = Some f \<Longrightarrow> f_name (ft_file t f) = Some n"
  by (simp only: file_view_iff)

lemma add_view:
  assumes a: "file_table_ok t" "f_name (ft_file t f) = Some n" "f_fd (ft_file t f) \<noteq> -1"
    "file_view t n \<noteq> Some f"
  shows "\<exists>t'. add_file_hash t f = Some (t', file_view t n) \<and> file_table_ok t'
      \<and> (\<lambda>f. f_name (ft_file t' f)) = (\<lambda>f. f_name (ft_file t f))
      \<and> (\<lambda>f. f_fd (ft_file t' f) \<noteq> -1) = (\<lambda>f. f_fd (ft_file t f) \<noteq> -1)
      \<and> file_view t' = (if file_view t n = None then (file_view t)(n \<mapsto> f) else file_view t)"
proof -
  from a have new: "\<not> f_hashed (ft_file t f)" by (simp add: file_view_iff)
  obtain t' where t': "add_file_hash t f = Some (t', file_view t n)" "file_table_ok t'"
    and s: "\<And>g. f_name (ft_file t' g) = f_name (ft_file t g)" "\<And>g. f_fd (ft_file t' g) = f_fd (ft_file t g)"
      "\<And>g. f_hashed (ft_file t' g) \<longleftrightarrow> f_hashed (ft_file t g) \<or> file_view t n = None \<and> g = f"
    using add_ok [OF a(1-3) new] by blast
  have "file_view t' = (if file_view t n = None then (file_view t)(n \<mapsto> f) else file_view t)"
  proof (rule file_view_eqI [OF t'(2)])
    fix m g
    show "((if file_view t n = None then (file_view t)(n \<mapsto> f) else file_view t) m = Some g)
        \<longleftrightarrow> f_hashed (ft_file t' g) \<and> f_name (ft_file t' g) = Some m"
      using file_view_iff [OF a(1), of m g] file_view_iff [OF a(1), of n g] a(2) new
      by (auto simp: s)
  qed
  with t' s show ?thesis by auto
qed

lemma del_view:
  assumes a: "file_table_ok t" "f_name (ft_file t f) = Some n"
  shows "\<exists>t'. remove_file_hash t f = Some t' \<and> file_table_ok t'
      \<and> (\<lambda>f. f_name (ft_file t' f)) = (\<lambda>f. f_name (ft_file t f))
      \<and> (\<lambda>f. f_fd (ft_file t' f) \<noteq> -1) = (\<lambda>f. f_fd (ft_file t f) \<noteq> -1)
      \<and> file_view t' = (if file_view t n = Some f then (file_view t)(n := None) else file_view t)"
proof -
  obtain t' where t': "remove_file_hash t f = Some t'" "file_table_ok t'" "\<not> f_hashed (ft_file t' f)"
    and s: "\<And>g. f_name (ft_file t' g) = f_name (ft_file t g)" "\<And>g. f_fd (ft_file t' g) = f_fd (ft_file t g)"
      "\<And>g. g \<noteq> f \<Longrightarrow> ft_file t' g = ft_file t g"
    using remove_ok [OF a(1)] by blast
  have "file_view t' = (if file_view t n = Some f then (file_view t)(n := None) else file_view t)"
  proof (rule file_view_eqI [OF t'(2)])
    fix m g
    show "((if file_view t n = Some f then (file_view t)(n := None) else file_view t) m = Some g)
        \<longleftrightarrow> f_hashed (ft_file t' g) \<and> f_name (ft_file t' g) = Some m"
      using file_view_iff [OF a(1), of m g] file_view_iff [OF a(1), of n g]
        file_view_iff [OF a(1), of n f] a t'(3) s(3) [of g]
      by (cases "g = f") (auto simp: file_table_ok_def)
  qed
  with t' s show ?thesis by auto
qed

interpretation fh: name_registry file_table_ok file_view "\<lambda>t f. f_name (ft_file t f)"
  "\<lambda>t f. f_fd (ft_file t f) \<noteq> -1" lookup_file_hash add_file_hash remove_file_hash
  by unfold_locales (rule lookup_view view_key add_view del_view; assumption)+


definition two_files :: "nat \<Rightarrow> fio_file" where
  "two_files f = \<lparr>f_fd = 3, f_shadow_fd = -1, f_name = Some [97, of_nat f], f_hashed = False\<rparr>"


text \<open>
  Every operation of the table keeps it in a good state, never trips over its assertions, and a
  second open file of a name that is taken gets the first one back and is not entered itself.
\<close>

theorem file_hash_alias:
  assumes "file_table_ok t" "f_name (ft_file t f) = Some name" "f_fd (ft_file t f) \<noteq> -1"
    and "lookup_file_hash t name = Some (Some g)" "g \<noteq> f"
  shows "\<exists>t'. add_file_hash t f = Some (t', Some g) \<and> file_table_ok t'
    \<and> (\<forall>m. lookup_file_hash t' m = lookup_file_hash t m)"
proof -
  have "file_view t name = Some g" using assms(1,4) by (simp add: lookup_view)
  from fh.add_alias [OF assms(1-3) this assms(5)] show ?thesis
    using assms(1) by (auto simp: lookup_view)
qed

theorem file_hash_alias_witness:
  "\<exists>t t'. add_file_hash (file_hash_init (\<lambda>f. two_files 7)) 1 = Some (t, None)
    \<and> add_file_hash t 2 = Some (t', Some 1)"
proof -
  let ?t = "file_hash_init (\<lambda>f. two_files 7)" and ?n = "[97, 7] :: u8 list"
  have ok: "file_table_ok ?t" by (rule file_table_init_ok) (simp add: two_files_def)
  have f: "f_name (ft_file ?t g) = Some ?n" "f_fd (ft_file ?t g) \<noteq> -1" for g
    by (simp_all add: file_hash_init_def two_files_def)
  have v: "file_view ?t ?n = None"
    using file_view_iff [OF ok, of ?n]
    by (cases "file_view ?t ?n") (auto simp: file_hash_init_def two_files_def)
  obtain t where t: "add_file_hash ?t 1 = Some (t, None)" "file_table_ok t"
    "f_name (ft_file t 2) = Some ?n" "f_fd (ft_file t 2) \<noteq> -1" "file_view t ?n = Some 1"
    using add_view [OF ok f [of 1]] v f [of 2] by (auto simp: fun_eq_iff)
  have "lookup_file_hash t ?n = Some (Some 1)" using t(2,5) by (simp add: lookup_view)
  from file_hash_alias [OF t(2-4) this] t(1) show ?thesis by auto
qed

end
