(* ===== verification/Fifo.thy ===== *)
theory Fifo
  imports Prelude
begin

text \<open>
  \<^verbatim>\<open>fifo.c\<close>, \<^verbatim>\<open>fifo.h\<close>: the byte ring behind the trace reader, whose indices run
  freely through the 32-bit numbers and are masked on access. The interface its client relies on is the
  locale \<open>byte_channel\<close>: writing appends, reading takes from the front. The client of
  \<^verbatim>\<open>blktrace.c\<close> follows, with the lemmas it gets from the interface.
\<close>

section \<open>The interface\<close>

locale byte_channel =
  fixes ok :: "'c \<Rightarrow> bool"
    and content :: "'c \<Rightarrow> u8 list"
    and capacity :: "'c \<Rightarrow> nat"
    and put :: "'c \<Rightarrow> u8 list \<Rightarrow> u32 \<Rightarrow> ('c \<times> u32) option"
    and get :: "'c \<Rightarrow> u32 \<Rightarrow> ('c \<times> u8 list \<times> u32) option"
  assumes content_le: "ok c \<Longrightarrow> length (content c) \<le> capacity c"
    and put_appends: "ok c \<Longrightarrow> unat len \<le> length bs \<Longrightarrow>
      \<exists>c' n. put c bs len = Some (c', n) \<and> ok c' \<and> capacity c' = capacity c
        \<and> unat n = min (unat len) (capacity c - length (content c))
        \<and> content c' = content c @ take (unat n) bs"
    and get_takes: "ok c \<Longrightarrow>
      \<exists>c' n. get c len = Some (c', take (unat n) (content c), n) \<and> ok c' \<and> capacity c' = capacity c
        \<and> unat n = min (unat len) (length (content c)) \<and> content c' = drop (unat n) (content c)"
begin

text \<open>What is put in whole comes out again, after what was there before.\<close>

lemma put_get:
  assumes "ok c" "unat len = length bs" "length (content c) + length bs \<le> capacity c"
    and "unat m = length (content c)"
  shows "\<exists>c1 c2. put c bs len = Some (c1, len) \<and> get c1 m = Some (c2, content c, m)
    \<and> ok c2 \<and> content c2 = bs"
proof -
  obtain c1 n where 1: "put c bs len = Some (c1, n)" "ok c1"
    "unat n = min (unat len) (capacity c - length (content c))"
    "content c1 = content c @ take (unat n) bs"
    using put_appends [OF assms(1), of len bs] assms(2) by auto
  have "n = len" using 1(3) assms(2,3) by (simp add: word_unat_eq_iff)
  obtain c2 k where 2: "get c1 m = Some (c2, take (unat k) (content c1), k)" "ok c2"
    "unat k = min (unat m) (length (content c1))" "content c2 = drop (unat k) (content c1)"
    using get_takes [OF 1(2), of m] by auto
  have "k = m" using 2(3) 1(4) assms(4) by (simp add: word_unat_eq_iff)
  then show ?thesis using 1 2 \<open>n = len\<close> assms(2,4) by simp
qed

end

section \<open>The ring\<close>

record fifo =
  ff_buffer :: "u8 list"
  ff_size :: u32
  ff_in :: u32
  ff_out :: u32

text \<open>\<open>mem\<close>: the memory \<open>malloc\<close> returned for the buffer, with whatever bytes it holds.\<close>

definition fifo_alloc :: "u8 list \<Rightarrow> u32 \<Rightarrow> fifo" where
  "fifo_alloc mem sz = \<lparr>ff_buffer = mem, ff_size = sz, ff_in = 0, ff_out = 0\<rparr>"

definition fifo_len :: "fifo \<Rightarrow> u32" where
  "fifo_len f = ff_in f - ff_out f"

definition fifo_room :: "fifo \<Rightarrow> u32" where
  "fifo_room f = ff_size f - ff_in f + ff_out f"

definition fifo_put :: "fifo \<Rightarrow> u8 list \<Rightarrow> u32 \<Rightarrow> (fifo \<times> u32) option" where
  "fifo_put f buf len0 =
     (let len = min len0 (fifo_room f);
          l = min len (ff_size f - (ff_in f AND (ff_size f - 1)))
      in do {
        d1 \<leftarrow> get_bytes buf 0 (unat l);
        b1 \<leftarrow> put_bytes (ff_buffer f) (unat (ff_in f AND (ff_size f - 1))) d1;
        d2 \<leftarrow> get_bytes buf (unat l) (unat (len - l));
        b2 \<leftarrow> put_bytes b1 0 d2;
        Some (f\<lparr>ff_buffer := b2, ff_in := ff_in f + len\<rparr>, len)
      })"

text \<open>The bytes copied out; \<open>fifo_skip\<close> is the call with a null buffer, which copies none.\<close>

definition fifo_advance :: "fifo \<Rightarrow> u32 \<Rightarrow> fifo" where
  "fifo_advance f len =
     (let out = ff_out f + len
      in if ff_in f = out then f\<lparr>ff_in := 0, ff_out := 0\<rparr> else f\<lparr>ff_out := out\<rparr>)"

definition fifo_get :: "fifo \<Rightarrow> u32 \<Rightarrow> (fifo \<times> u8 list \<times> u32) option" where
  "fifo_get f len0 =
     (let len = min len0 (ff_in f - ff_out f);
          l = min len (ff_size f - (ff_out f AND (ff_size f - 1)))
      in do {
        d1 \<leftarrow> get_bytes (ff_buffer f) (unat (ff_out f AND (ff_size f - 1))) (unat l);
        d2 \<leftarrow> get_bytes (ff_buffer f) 0 (unat (len - l));
        Some (fifo_advance f len, d1 @ d2, len)
      })"

definition fifo_skip :: "fifo \<Rightarrow> u32 \<Rightarrow> fifo \<times> u32" where
  "fifo_skip f len0 = (let len = min len0 (ff_in f - ff_out f) in (fifo_advance f len, len))"

section \<open>Rings of bytes\<close>

definition ring_content :: "u8 list \<Rightarrow> nat \<Rightarrow> nat \<Rightarrow> u8 list" where
  "ring_content b p c = map (\<lambda>j. b ! ((p + j) mod length b)) [0..<c]"

text \<open>The two stores of \<open>fifo_put\<close>, and the two reads of \<open>fifo_get\<close>.\<close>

definition ring_store :: "u8 list \<Rightarrow> nat \<Rightarrow> u8 list \<Rightarrow> u8 list" where
  "ring_store b i d =
     (let l = min (length d) (length b - i); b1 = take i b @ take l d @ drop (i + l) b
      in drop l d @ drop (length d - l) b1)"

lemma length_ring_store [simp]: "i < length b \<Longrightarrow> length d \<le> length b \<Longrightarrow> length (ring_store b i d) = length b"
  by (simp add: ring_store_def Let_def min_def)

lemma ring_dist:
  assumes "i < N" "t < N"
  shows "((i + t) mod N + N - i) mod N = (t :: nat)"
proof (cases "i + t < N")
  case False
  then have "(i + t) mod N = i + t - N" using assms by (simp add: mod_if)
  then show ?thesis using assms False by simp
qed (use assms in simp)

lemma nth_ring_store:
  assumes "i < length b" "length d \<le> length b" "t < length b"
  shows "ring_store b i d ! ((i + t) mod length b)
    = (if t < length d then d ! t else b ! ((i + t) mod length b))"
proof -
  let ?N = "length b" and ?l = "min (length d) (length b - i)"
  show ?thesis
  proof (cases "i + t < ?N")
    case True
    have "length d - ?l \<le> i" using assms by (simp add: min_def) arith
    then show ?thesis using True assms
      by (auto simp: ring_store_def Let_def nth_append min_def)
  next
    case False
    then have m: "(i + t) mod ?N = i + t - ?N" using assms by (simp add: mod_if)
    have l: "t < length d \<Longrightarrow> ?l = ?N - i" using False assms by (simp add: min_def) arith
    show ?thesis
    proof (cases "t < length d")
      case True
      moreover have "i + t - ?N < length d + i - ?N" using True False by arith
      ultimately show ?thesis using False assms l m by (simp add: ring_store_def Let_def nth_append)
    next
      case td: False
      have "i + t - ?N < i" using assms False by linarith
      moreover have "length d - ?l \<le> i + t - ?N" using td False assms by (simp add: min_def) arith
      ultimately show ?thesis using td False assms m
        by (auto simp: ring_store_def Let_def nth_append min_def)
    qed
  qed
qed

lemma ring_content_store:
  assumes "0 < length b" "c + length d \<le> length b"
  shows "ring_content (ring_store b ((p + c) mod length b) d) p (c + length d) = ring_content b p c @ d"
proof (rule nth_equalityI)
  fix j assume "j < length (ring_content (ring_store b ((p + c) mod length b) d) p (c + length d))"
  then have j: "j < c + length d" by (simp add: ring_content_def)
  let ?N = "length b" and ?i = "(p + c) mod length b"
  have i: "?i < ?N" using assms by simp
  have d: "length d \<le> ?N" using assms by simp
  define t where "t = (if j < c then ?N - c + j else j - c)"
  have t: "t < ?N" using j assms by (auto simp: t_def)
  have "(?i + t) mod ?N = (p + c + t) mod ?N" by (simp add: mod_add_left_eq)
  also have "\<dots> = (p + j) mod ?N"
  proof (cases "j < c")
    case True
    then have "p + c + t = p + j + ?N" using assms by (simp add: t_def)
    then show ?thesis by (simp only: mod_add_self2)
  qed (simp add: t_def)
  finally have pos: "(p + j) mod ?N = (?i + t) mod ?N" by simp
  have "t < length d \<longleftrightarrow> \<not> j < c" using j assms by (auto simp: t_def)
  then show "ring_content (ring_store b ?i d) p (c + length d) ! j = (ring_content b p c @ d) ! j"
    using j nth_ring_store [OF i d t] i d
    by (auto simp: ring_content_def nth_append pos t_def)
qed (simp add: ring_content_def)

lemma ring_content_take:
  assumes "i < length b" "n \<le> length b"
  shows "take (min n (length b - i)) (drop i b) @ take (n - min n (length b - i)) b = ring_content b i n"
proof (rule nth_equalityI)
  fix j assume "j < length (take (min n (length b - i)) (drop i b) @ take (n - min n (length b - i)) b)"
  then have j: "j < n" using assms by (simp add: min_def split: if_splits)
  show "(take (min n (length b - i)) (drop i b) @ take (n - min n (length b - i)) b) ! j
      = ring_content b i n ! j"
  proof (cases "i + j < length b")
    case False
    then have "(i + j) mod length b = i + j - length b" using assms j by (simp add: mod_if)
    then show ?thesis using False j assms
      by (auto simp: ring_content_def nth_append min_def add.commute [of j i])
  qed (use j assms in \<open>auto simp: ring_content_def nth_append min_def\<close>)
qed (use assms in \<open>cases "n \<le> length b - i"; auto simp: ring_content_def min_def\<close>)

lemma ring_content_mod: "ring_content b (p mod length b) c = ring_content b p c"
  by (simp add: ring_content_def mod_add_left_eq)

lemma ring_content_drop: "n \<le> c \<Longrightarrow> ring_content b (p + n) (c - n) = drop n (ring_content b p c)"
  by (rule nth_equalityI) (simp_all add: ring_content_def add.assoc less_diff_conv add.commute [of n])

lemma ring_content_take_prefix: "n \<le> c \<Longrightarrow> take n (ring_content b p c) = ring_content b p n"
  by (simp add: ring_content_def take_map)

section \<open>The ring implements the channel\<close>

definition fifo_ok :: "fifo \<Rightarrow> bool" where
  "fifo_ok f \<longleftrightarrow> (\<exists>k < 32. ff_size f = bitval k) \<and> length (ff_buffer f) = unat (ff_size f)
     \<and> unat (fifo_len f) \<le> unat (ff_size f)"

definition fifo_content :: "fifo \<Rightarrow> u8 list" where
  "fifo_content f = ring_content (ff_buffer f) (unat (ff_out f)) (unat (fifo_len f))"

definition fifo_capacity :: "fifo \<Rightarrow> nat" where
  "fifo_capacity f = unat (ff_size f)"

lemma unat_bitval_dvd: "k < 32 \<Longrightarrow> unat (bitval k :: u32) dvd 2 ^ 32 \<and> 0 < unat (bitval k :: u32)"
proof -
  assume k: "k < 32"
  have "(2 :: nat) ^ k < 2 ^ 32" using k by (intro power_strict_increasing) simp_all
  moreover have "(bitval k :: u32) = of_nat (2 ^ k)" by (simp add: bitval_def)
  ultimately have "unat (bitval k :: u32) = 2 ^ k" by (simp only: unat_of_nat) simp
  moreover have "(2 :: nat) ^ k dvd 2 ^ 32" using k by (intro le_imp_power_dvd) simp
  ultimately show ?thesis by simp
qed

text \<open>Masked indices do not notice the wrap-around of the 32-bit counters.\<close>

lemma unat_plus_mod:
  assumes "k < 32"
  shows "unat ((x :: u32) + y) mod unat (bitval k :: u32) = (unat x + unat y) mod unat (bitval k :: u32)"
  using unat_bitval_dvd [OF assms] by (simp only: unat_word_ariths len_of_numeral_defs) (simp add: mod_mod_cancel)

lemma fifo_put_correct:
  assumes ok: "fifo_ok f" and len: "unat len \<le> length bs"
  shows "\<exists>f' n. fifo_put f bs len = Some (f', n) \<and> fifo_ok f' \<and> fifo_capacity f' = fifo_capacity f
    \<and> unat n = min (unat len) (fifo_capacity f - length (fifo_content f))
    \<and> fifo_content f' = fifo_content f @ take (unat n) bs"
proof -
  obtain k where k: "k < 32" "ff_size f = bitval k" and lb: "length (ff_buffer f) = unat (ff_size f)"
    and le: "unat (fifo_len f) \<le> unat (ff_size f)"
    using ok by (auto simp: fifo_ok_def)
  note S = unat_bitval_dvd [OF k(1)]
  let ?N = "unat (ff_size f)" and ?b = "ff_buffer f" and ?o = "unat (ff_out f)" and ?c = "unat (fifo_len f)"
  have "fifo_room f = ff_size f - fifo_len f" by (simp add: fifo_room_def fifo_len_def)
  then have room: "unat (fifo_room f) = ?N - ?c" using le by (simp add: unat_sub_if_size)
  define n where "n = min len (fifo_room f)"
  have un: "unat n = min (unat len) (?N - ?c)" by (simp add: n_def min_def word_le_nat_alt room)
  define i where "i = ff_in f AND (ff_size f - 1)"
  have "ff_in f = ff_out f + fifo_len f" by (simp add: fifo_len_def)
  then have ui: "unat i = (?o + ?c) mod ?N"
    using unat_and_size [OF k(1), of "ff_in f"] unat_plus_mod [OF k(1), of "ff_out f" "fifo_len f"]
    by (simp add: i_def k(2))
  have iN: "unat i < ?N" using S by (simp add: ui k(2))
  define l where "l = min n (ff_size f - i)"
  have ul: "unat l = min (unat n) (?N - unat i)"
    using iN by (simp add: l_def min_def word_le_nat_alt unat_sub_if_size)
  have unl: "unat (n - l) = unat n - unat l" using ul by (simp add: unat_sub_if_size)
  let ?d = "take (unat n) bs"
  have ld: "length ?d = unat n" using len un by simp
  have "fifo_put f bs len = Some (f\<lparr>ff_buffer := ring_store ?b (unat i) ?d, ff_in := ff_in f + n\<rparr>, n)"
  proof -
    have ll: "length (take (unat l) ?d) = unat l" using ul ld by simp
    have il: "unat i + unat l \<le> ?N" using ul iN by (simp add: min_def) arith
    have 1: "get_bytes bs 0 (unat l) = Some (take (unat l) ?d)"
      using ul len un by (simp add: get_bytes_def min_def)
    have 2: "put_bytes ?b (unat i) (take (unat l) ?d)
        = Some (take (unat i) ?b @ take (unat l) ?d @ drop (unat i + unat l) ?b)"
      using iN lb ll il by (simp add: put_bytes_def del: take_take)
    have 3: "get_bytes bs (unat l) (unat (n - l)) = Some (drop (unat l) ?d)"
    proof -
      have "unat l \<le> unat n" "unat n \<le> length bs" using len by (simp_all only: ul un min.cobounded1 min.coboundedI1)
      then show ?thesis by (simp only: get_bytes_def unl) (simp add: drop_take)
    qed
    have 4: "put_bytes (take (unat i) ?b @ take (unat l) ?d @ drop (unat i + unat l) ?b) 0 (drop (unat l) ?d)
        = Some (ring_store ?b (unat i) ?d)"
    proof -
      define b1 where "b1 = take (unat i) ?b @ take (unat l) ?d @ drop (unat i + unat l) ?b"
      have "length b1 = ?N" unfolding b1_def length_append length_drop ll lb using iN il lb by simp
      moreover have "unat n \<le> ?N" by (simp add: un)
      ultimately have "length (drop (unat l) ?d) \<le> length b1" by (simp only: length_drop ld)
      then have "put_bytes b1 0 (drop (unat l) ?d) = Some (drop (unat l) ?d @ drop (length ?d - unat l) b1)"
        by (simp only: put_bytes_def add_0 if_True take_0 append_Nil length_drop)
      moreover have "min (length ?d) (length ?b - unat i) = unat l" by (simp only: ld lb ul)
      ultimately show ?thesis by (simp only: ring_store_def Let_def b1_def)
    qed
    show ?thesis
      by (simp add: fifo_put_def Let_def n_def [symmetric] i_def [symmetric] l_def [symmetric] 1 2 3 4 del: take_take)
  qed
  moreover have lst: "length (ring_store ?b (unat i) ?d) = ?N" using iN lb ld un by simp
  moreover have fl: "unat (ff_in f + n - ff_out f) = ?c + unat n"
  proof -
    have eq: "ff_in f + n - ff_out f = fifo_len f + n" by (simp add: fifo_len_def)
    have "unat n \<le> ?N - ?c" by (simp add: un)
    moreover have "?N < 2 ^ LENGTH(32)" by (rule unsigned_less)
    ultimately have "?c + unat n < 2 ^ LENGTH(32)" using le by linarith
    then show ?thesis unfolding eq unat_word_ariths by (rule mod_less)
  qed
  moreover have "ring_content (ring_store ?b (unat i) ?d) ?o (?c + unat n) = ring_content ?b ?o ?c @ ?d"
    using ring_content_store [of ?b ?c ?d ?o] S lb un ld le by (simp add: ui k(2))
  moreover have "length (fifo_content f) = ?c" by (simp add: fifo_content_def ring_content_def)
  ultimately show ?thesis
    using k lb le un by (auto simp: fifo_ok_def fifo_content_def fifo_capacity_def fifo_len_def)
qed

lemma fifo_advance_correct:
  assumes ok: "fifo_ok f" and n: "unat n \<le> length (fifo_content f)"
  shows "fifo_ok (fifo_advance f n)" "fifo_capacity (fifo_advance f n) = fifo_capacity f"
    "fifo_content (fifo_advance f n) = drop (unat n) (fifo_content f)"
proof -
  obtain k where k: "k < 32" "ff_size f = bitval k" and lb: "length (ff_buffer f) = unat (ff_size f)"
    and le: "unat (fifo_len f) \<le> unat (ff_size f)"
    using ok by (auto simp: fifo_ok_def)
  have nc: "unat n \<le> unat (fifo_len f)" using n by (simp add: fifo_content_def ring_content_def)
  have fl: "unat (ff_in f - (ff_out f + n)) = unat (fifo_len f) - unat n"
  proof -
    have "ff_in f - (ff_out f + n) = fifo_len f - n" by (simp add: fifo_len_def)
    then show ?thesis using nc by (simp only: unat_sub_if_size if_True)
  qed
  have e: "ff_in f = ff_out f + n \<longleftrightarrow> unat n = unat (fifo_len f)"
    by (auto simp: fifo_len_def word_unat_eq_iff [symmetric])
  have c: "ring_content (ff_buffer f) (unat (ff_out f + n)) (unat (fifo_len f) - unat n)
      = drop (unat n) (ring_content (ff_buffer f) (unat (ff_out f)) (unat (fifo_len f)))"
    using ring_content_drop [OF nc] ring_content_mod [of "ff_buffer f"] unat_plus_mod [OF k(1), of "ff_out f" n]
    by (metis k(2) lb)
  show "fifo_ok (fifo_advance f n)" "fifo_capacity (fifo_advance f n) = fifo_capacity f"
    "fifo_content (fifo_advance f n) = drop (unat n) (fifo_content f)"
    using k lb le fl e c
    by (auto simp: fifo_advance_def Let_def fifo_ok_def fifo_capacity_def fifo_content_def fifo_len_def
        ring_content_def)
qed

lemma fifo_get_correct:
  assumes ok: "fifo_ok f"
  shows "\<exists>f' n. fifo_get f len = Some (f', take (unat n) (fifo_content f), n) \<and> fifo_ok f'
    \<and> fifo_capacity f' = fifo_capacity f
    \<and> unat n = min (unat len) (length (fifo_content f)) \<and> fifo_content f' = drop (unat n) (fifo_content f)"
proof -
  obtain k where k: "k < 32" "ff_size f = bitval k" and lb: "length (ff_buffer f) = unat (ff_size f)"
    and le: "unat (fifo_len f) \<le> unat (ff_size f)"
    using ok by (auto simp: fifo_ok_def)
  note S = unat_bitval_dvd [OF k(1)]
  let ?N = "unat (ff_size f)" and ?b = "ff_buffer f"
  define n where "n = min len (ff_in f - ff_out f)"
  have lc: "length (fifo_content f) = unat (fifo_len f)" by (simp add: fifo_content_def ring_content_def)
  have un: "unat n = min (unat len) (length (fifo_content f))"
    by (simp add: n_def min_def word_le_nat_alt lc fifo_len_def)
  define i where "i = ff_out f AND (ff_size f - 1)"
  have ui: "unat i = unat (ff_out f) mod ?N" using unat_and_size [OF k(1)] by (simp add: i_def k(2))
  have iN: "unat i < ?N" using S by (simp add: ui k(2))
  define l where "l = min n (ff_size f - i)"
  have ul: "unat l = min (unat n) (?N - unat i)"
    using iN by (simp add: l_def min_def word_le_nat_alt unat_sub_if_size)
  have unl: "unat (n - l) = unat n - unat l" using ul by (simp add: unat_sub_if_size)
  have nN: "unat n \<le> ?N" using un le lc by simp
  have "unat i + unat l \<le> ?N" using ul iN by (simp add: min_def) arith
  then have "get_bytes ?b (unat i) (unat l) = Some (take (unat l) (drop (unat i) ?b))"
    by (simp add: get_bytes_def lb)
  moreover have "get_bytes ?b 0 (unat (n - l)) = Some (take (unat n - unat l) ?b)"
    using unl nN lb by (simp add: get_bytes_def)
  moreover have "take (unat l) (drop (unat i) ?b) @ take (unat n - unat l) ?b = take (unat n) (fifo_content f)"
  proof -
    have "unat n \<le> unat (fifo_len f)" by (simp only: un lc min.cobounded2)
    then have "take (unat n) (fifo_content f) = ring_content ?b (unat (ff_out f)) (unat n)"
      by (simp only: fifo_content_def ring_content_take_prefix)
    also have "\<dots> = ring_content ?b (unat i) (unat n)"
      using ring_content_mod [of ?b "unat (ff_out f)"] by (simp only: ui lb)
    finally show ?thesis
      using ring_content_take [of "unat i" ?b "unat n"] iN nN by (simp only: lb ul)
  qed
  ultimately have "fifo_get f len = Some (fifo_advance f n, take (unat n) (fifo_content f), n)"
    by (simp add: fifo_get_def Let_def n_def [symmetric] i_def [symmetric] l_def [symmetric])
  then show ?thesis using fifo_advance_correct [OF ok, of n] un by simp
qed

interpretation ff: byte_channel fifo_ok fifo_content fifo_capacity fifo_put fifo_get
proof unfold_locales
  fix c assume "fifo_ok c"
  then show "length (fifo_content c) \<le> fifo_capacity c"
    by (simp add: fifo_ok_def fifo_content_def ring_content_def fifo_capacity_def)
qed (rule fifo_put_correct fifo_get_correct; assumption)+

text \<open>
  C32: on a ring whose size is a power of two, writing appends the longest prefix that fits and
  reading hands out the oldest bytes, whatever the position of the free-running indices; both keep the
  ring well-formed and stay in the buffer.
\<close>

theorem fifo_put_get_queue:
  assumes "fifo_ok f" "unat len \<le> length bs"
  shows "(\<exists>f' n. fifo_put f bs len = Some (f', n) \<and> fifo_ok f'
      \<and> unat n = min (unat len) (unat (ff_size f) - length (fifo_content f))
      \<and> fifo_content f' = fifo_content f @ take (unat n) bs)
    \<and> (\<exists>f' n. fifo_get f len = Some (f', take (unat n) (fifo_content f), n) \<and> fifo_ok f'
      \<and> unat n = min (unat len) (length (fifo_content f))
      \<and> fifo_content f' = drop (unat n) (fifo_content f))"
  using fifo_put_correct [OF assms] fifo_get_correct [OF assms(1), of len]
  by (auto simp: fifo_capacity_def)

definition fifo_example :: fifo where
  "fifo_example = \<lparr>ff_buffer = [1, 2, 3, 4, 5, 6, 7, 8], ff_size = 8, ff_in = 3, ff_out = -3\<rparr>"

lemma fifo_example_ok: "fifo_ok fifo_example"
proof -
  have "ff_size fifo_example = bitval 3" by code_simp
  moreover have "length (ff_buffer fifo_example) = unat (ff_size fifo_example)" by (simp add: fifo_example_def)
  moreover have "fifo_len fifo_example \<le> ff_size fifo_example" by code_simp
  then have "unat (fifo_len fifo_example) \<le> unat (ff_size fifo_example)" by (simp only: word_le_nat_alt)
  moreover have "(3 :: nat) < 32" by simp
  ultimately show ?thesis unfolding fifo_ok_def by blast
qed

theorem fifo_put_get_queue_witness:
  "fifo_content fifo_example = [6, 7, 8, 1, 2, 3]
    \<and> (\<exists>f' n. fifo_put fifo_example [70, 71, 72] 3 = Some (f', n) \<and> unat n = 2
      \<and> fifo_content f' = [6, 7, 8, 1, 2, 3, 70, 71])"
proof -
  have u: "[0..<6] = [0, 1, 2, 3, 4, 5 :: nat]" by code_simp
  have c: "fifo_content fifo_example = [6, 7, 8, 1, 2, 3]"
    by (simp add: fifo_content_def ring_content_def fifo_len_def fifo_example_def u)
  have sz: "unat (ff_size fifo_example) = 8" by (simp add: fifo_example_def)
  have "unat (3 :: u32) \<le> length [70 :: u8, 71, 72]" by simp
  from fifo_put_get_queue [OF fifo_example_ok this] obtain f' n where
    f: "fifo_put fifo_example [70, 71, 72] 3 = Some (f', n)"
    and n: "unat n = min (unat (3 :: u32)) (unat (ff_size fifo_example) - length (fifo_content fifo_example))"
    and c': "fifo_content f' = fifo_content fifo_example @ take (unat n) [70, 71, 72]" by blast
  have "unat n = 2" unfolding n c sz by simp
  then have "fifo_content f' = [6, 7, 8, 1, 2, 3, 70, 71]" unfolding c' c by (simp add: numeral_2_eq_2)
  with f c \<open>unat n = 2\<close> show ?thesis by blast
qed

end
