(* ===== verification/Checksum.thy ===== *)
theory Checksum
  imports Prelude
begin

text \<open>
  What the checksums of \<^verbatim>\<open>crc/\<close> share. The interface \<open>byte_crc\<close> is a state that
  absorbs one byte at a time without losing information; from it follows that a change of one byte
  changes the checksum. \<open>linear_crc\<close> adds that the step respects exclusive or. Then the
  bit-serial division by a polynomial, in both bit orders, which provides both.
\<close>

section \<open>Interfaces\<close>

locale byte_crc =
  fixes crc_step :: "'s \<Rightarrow> u8 \<Rightarrow> 's"
  assumes step_inj: "crc_step s b = crc_step s' b' \<Longrightarrow> s = s' \<longleftrightarrow> b = b'"
begin

lemma foldl_inj: "foldl crc_step s xs = foldl crc_step s' xs \<Longrightarrow> s = s'"
  by (induction xs arbitrary: s s') (auto dest: step_inj)

text \<open>Two buffers that differ in one byte have different checksums.\<close>

lemma one_byte_changes:
  assumes "x \<noteq> y"
  shows "foldl crc_step s (us @ x # vs) \<noteq> foldl crc_step s (us @ y # vs)"
proof
  assume "foldl crc_step s (us @ x # vs) = foldl crc_step s (us @ y # vs)"
  then have "crc_step (foldl crc_step s us) x = crc_step (foldl crc_step s us) y"
    by (auto dest: foldl_inj)
  then show False using assms by (auto dest: step_inj)
qed

end

locale linear_crc = byte_crc crc_step for crc_step :: "'a::len word \<Rightarrow> u8 \<Rightarrow> 'a word" +
  assumes step_xor: "crc_step (s XOR s') (b XOR b') = crc_step s b XOR crc_step s' b'"
begin

lemma foldl_xor:
  "length xs = length ys \<Longrightarrow>
    foldl crc_step (s XOR s') (map2 (XOR) xs ys) = foldl crc_step s xs XOR foldl crc_step s' ys"
  by (induction xs ys arbitrary: s s' rule: list_induct2) (simp_all add: step_xor)

end

section \<open>Division, least significant bit first\<close>

definition rbit :: "'a::len word \<Rightarrow> 'a word \<Rightarrow> 'a word" where
  "rbit p v = (if bit v 0 then drop_bit 1 v XOR p else drop_bit 1 v)"

definition rbyte :: "'a::len word \<Rightarrow> 'a word \<Rightarrow> 'a word" where
  "rbyte p v = (rbit p ^^ 8) v"

lemma rbit_xor: "rbit p (v XOR w) = rbit p v XOR rbit p w"
  by (auto simp: rbit_def bit_xor_iff drop_bit_xor xor_ac)

lemma rbits_xor: "(rbit p ^^ n) (v XOR w) = (rbit p ^^ n) v XOR (rbit p ^^ n) w"
  by (induction n) (simp_all add: rbit_xor)

lemma rbyte_xor: "rbyte p (v XOR w) = rbyte p v XOR rbyte p w"
  unfolding rbyte_def by (rule rbits_xor)

lemma rbit_eq_0: "bit p (LENGTH('a) - 1) \<Longrightarrow> rbit p v = 0 \<longleftrightarrow> (v :: 'a::len word) = 0"
proof
  assume p: "bit p (LENGTH('a) - 1)" and z: "rbit p v = 0"
  show "v = 0"
  proof (cases "bit v 0")
    case True
    then have "drop_bit 1 v = p" using z by (simp add: rbit_def xor_eq_0_iff)
    then have "bit (drop_bit 1 v) (LENGTH('a) - 1)" using p by simp
    then have False by (auto simp: bit_drop_bit_eq dest: bit_imp_le_length)
    then show ?thesis ..
  next
    case False
    then have d: "drop_bit 1 v = 0" using z by (simp add: rbit_def)
    show ?thesis
    proof (rule bit_eqI)
      fix n
      show "bit v n = bit 0 n"
      proof (cases n)
        case (Suc m)
        have "bit v (1 + m) = bit (drop_bit 1 v) m" by (simp add: bit_drop_bit_eq)
        then show ?thesis using d Suc by simp
      qed (use False in simp)
    qed
  qed
qed (simp add: rbit_def)

lemma rbyte_inj: "bit p (LENGTH('a) - 1) \<Longrightarrow> rbyte p v = rbyte p w \<longleftrightarrow> (v :: 'a::len word) = w"
proof
  assume p: "bit p (LENGTH('a) - 1)" and eq: "rbyte p v = rbyte p w"
  have "(rbit p ^^ n) x = 0 \<Longrightarrow> x = 0" for n and x :: "'a word"
    by (induction n) (simp_all add: rbit_eq_0 [OF p])
  moreover have "rbyte p (v XOR w) = 0" using eq by (simp add: rbyte_xor)
  ultimately have "v XOR w = 0" by (simp add: rbyte_def)
  then show "v = w" by (simp add: xor_eq_0_iff)
qed simp

lemma rbits_low: "(\<And>i. i < n \<Longrightarrow> \<not> bit v i) \<Longrightarrow> (rbit p ^^ n) v = drop_bit n v"
proof (induction n)
  case (Suc n)
  have "\<not> bit (drop_bit n v) 0" using Suc.prems by (simp add: bit_drop_bit_eq)
  then show ?case using Suc by (simp add: rbit_def)
qed simp

text \<open>The table form of a byte step: only the low byte goes through the division.\<close>

lemma rbyte_table:
  "rbyte p (v XOR ucast (b :: u8)) = rbyte p ((v XOR ucast b) AND 255) XOR drop_bit 8 v"
proof -
  let ?x = "v XOR ucast b"
  define lo where "lo = (mask 8 :: 'a word)"
  have m: "bit lo i \<longleftrightarrow> i < 8 \<and> i < LENGTH('a)" for i
    by (simp only: lo_def bit_mask_iff possible_bit_word) auto
  have "?x = (?x AND lo) XOR (?x AND NOT lo)"
    by (rule bit_eqI) (auto simp: bitwise)
  then have "rbyte p ?x = rbyte p (?x AND lo) XOR rbyte p (?x AND NOT lo)" by (metis rbyte_xor)
  also have "rbyte p (?x AND NOT lo) = drop_bit 8 (?x AND NOT lo)"
    unfolding rbyte_def by (rule rbits_low) (auto simp: bitwise m dest: bit_imp_le_length)
  also have "drop_bit 8 (?x AND NOT lo) = drop_bit 8 v"
    by (rule bit_eqI) (auto simp: bit_drop_bit_eq bitwise m bit_ucast_iff dest: bit_imp_le_length)
  also have "lo = 255" by (simp add: lo_def mask_eq_exp_minus_1)
  finally show ?thesis .
qed

section \<open>Division, most significant bit first\<close>

definition nbit :: "'a::len word \<Rightarrow> 'a word \<Rightarrow> 'a word" where
  "nbit p v = (if bit v (LENGTH('a) - 1) then push_bit 1 v XOR p else push_bit 1 v)"

definition nbyte :: "'a::len word \<Rightarrow> 'a word \<Rightarrow> 'a word" where
  "nbyte p v = (nbit p ^^ 8) v"

lemma nbit_xor: "nbit p (v XOR w) = nbit p v XOR nbit p w"
  unfolding nbit_def bit_xor_iff push_bit_xor by (auto simp: xor_ac)

lemma nbits_xor: "(nbit p ^^ n) (v XOR w) = (nbit p ^^ n) v XOR (nbit p ^^ n) w"
  by (induction n) (simp_all add: nbit_xor)

lemma nbyte_xor: "nbyte p (v XOR w) = nbyte p v XOR nbyte p w"
  unfolding nbyte_def by (rule nbits_xor)

lemma nbit_eq_0:
  assumes p: "bit (p :: 'a::len word) 0" and z: "nbit p v = 0"
  shows "v = 0"
proof (cases "bit v (LENGTH('a) - 1)")
  case True
  then have "push_bit 1 v = p" using z unfolding nbit_def by (simp add: xor_eq_0_iff del: push_bit_Suc)
  moreover have "\<not> bit (push_bit 1 v) 0" by (simp only: bit_push_bit_iff) simp
  ultimately show ?thesis using p by metis
next
  case False
  then have d: "push_bit 1 v = 0" using z unfolding nbit_def by simp
  show ?thesis
  proof (rule bit_eqI)
    fix n
    show "bit v n = bit 0 n"
    proof (cases "n < LENGTH('a) - 1")
      case True
      then have "bit v n = bit (push_bit 1 v) (Suc n)" by (simp only: bit_push_bit_iff possible_bit_word) auto
      then show ?thesis unfolding d by simp
    next
      case ge: False
      show ?thesis
      proof (cases "n = LENGTH('a) - 1")
        case neq: False
        then have "LENGTH('a) \<le> n" using ge by simp
        then show ?thesis by (auto dest: bit_imp_le_length)
      qed (use False in simp)
    qed
  qed
qed

lemma nbyte_inj: "bit p 0 \<Longrightarrow> nbyte p v = nbyte p w \<longleftrightarrow> (v :: 'a::len word) = w"
proof
  assume p: "bit p 0" and eq: "nbyte p v = nbyte p w"
  have "(nbit p ^^ n) x = 0 \<Longrightarrow> x = 0" for n and x :: "'a word"
    by (induction n) (auto dest: nbit_eq_0 [OF p])
  moreover have "nbyte p (v XOR w) = 0" using eq by (simp add: nbyte_xor)
  ultimately have "v XOR w = 0" by (simp add: nbyte_def)
  then show "v = w" by (simp add: xor_eq_0_iff)
qed simp

lemma nbits_high:
  "n \<le> LENGTH('a) \<Longrightarrow> (\<And>i. LENGTH('a) - n \<le> i \<Longrightarrow> \<not> bit (v :: 'a::len word) i) \<Longrightarrow> (nbit p ^^ n) v = push_bit n v"
proof (induction n)
  case (Suc n)
  have IH: "(nbit p ^^ n) v = push_bit n v" using Suc by simp
  have "\<not> bit (push_bit n v) (LENGTH('a) - 1)"
    using Suc.prems(2) [of "LENGTH('a) - 1 - n"] by (simp only: bit_push_bit_iff) simp
  then have "nbit p (push_bit n v) = push_bit 1 (push_bit n v)" by (simp only: nbit_def if_False)
  then show ?case unfolding funpow.simps o_apply IH push_bit_push_bit by simp
qed simp

end
