(* ===== verification/Blockhash.thy ===== *)
theory Blockhash
  imports Prelude
begin

text \<open>
  What the block hashes of \<^verbatim>\<open>crc/\<close> share: words read from bytes, the memory copies of
  their update functions, and the contract \<open>block_hash\<close> of a hash that takes its input in pieces.
  The contract says that an update absorbs exactly the bytes it is given; its lemmas say that the pieces
  do not matter, and which bytes a digest without finalisation does not depend on.
\<close>

section \<open>Words from bytes\<close>

definition le_word :: "u8 list \<Rightarrow> 'a::len word" where
  "le_word bs = foldr (\<lambda>b w. push_bit 8 w OR ucast b) bs 0"

definition be_word :: "u8 list \<Rightarrow> 'a::len word" where
  "be_word bs = le_word (rev bs)"

text \<open>\<open>((uint32_t *) mem)[i]\<close> on the little-endian hosts, the same in network order, and the
  64-bit form.\<close>

definition le32 :: "u8 list \<Rightarrow> nat \<Rightarrow> u32" where
  "le32 mem i = le_word (take 4 (drop (4 * i) mem))"

definition be32 :: "u8 list \<Rightarrow> nat \<Rightarrow> u32" where
  "be32 mem i = be_word (take 4 (drop (4 * i) mem))"

definition be64 :: "u8 list \<Rightarrow> nat \<Rightarrow> u64" where
  "be64 mem i = be_word (take 8 (drop (8 * i) mem))"

definition rotl :: "nat \<Rightarrow> 'a::len word \<Rightarrow> 'a word" where
  "rotl k x = push_bit k x OR drop_bit (LENGTH('a) - k) x"

definition rotr :: "nat \<Rightarrow> 'a::len word \<Rightarrow> 'a word" where
  "rotr k x = drop_bit k x OR push_bit (LENGTH('a) - k) x"

lemma rot_32:
  "rotl k (x :: u32) = push_bit k x OR drop_bit (32 - k) x"
  "rotr k (x :: u32) = drop_bit k x OR push_bit (32 - k) x"
  by (simp_all add: rotl_def rotr_def)

text \<open>The choice and majority functions of the standards, and the forms in which the code has them.\<close>

definition fips_ch :: "'a::len word \<Rightarrow> 'a word \<Rightarrow> 'a word \<Rightarrow> 'a word" where
  "fips_ch x y z = (x AND y) XOR (NOT x AND z)"

definition fips_maj :: "'a::len word \<Rightarrow> 'a word \<Rightarrow> 'a word \<Rightarrow> 'a word" where
  "fips_maj x y z = (x AND y) XOR (x AND z) XOR (y AND z)"

lemma ch_forms:
  "z XOR (x AND (y XOR z)) = fips_ch x y z"
  "((y XOR z) AND x) XOR z = fips_ch x y z"
  by (intro bit_word_eqI; auto simp: fips_ch_def bitwise)+

lemma maj_forms:
  "(x AND y) OR (z AND (x OR y)) = fips_maj x y z"
  "(x AND y) + (z AND (x XOR y)) = fips_maj x y z"
proof -
  show "(x AND y) OR (z AND (x OR y)) = fips_maj x y z"
    by (intro bit_word_eqI) (auto simp: fips_maj_def bitwise)
  have "(x AND y) + (z AND (x XOR y)) = (x AND y) OR (z AND (x XOR y))"
    by (rule disjunctive_add_eq_or) (auto intro!: bit_word_eqI simp: bitwise)
  also have "\<dots> = fips_maj x y z" by (intro bit_word_eqI) (auto simp: fips_maj_def bitwise)
  finally show "(x AND y) + (z AND (x XOR y)) = fips_maj x y z" .
qed

section \<open>Copies\<close>

text \<open>\<open>memcpy (dst + p, src, n)\<close>\<close>

definition copy_bytes :: "u8 list \<Rightarrow> nat \<Rightarrow> u8 list \<Rightarrow> nat \<Rightarrow> u8 list option" where
  "copy_bytes dst p src n = do { d \<leftarrow> get_bytes src 0 n; put_bytes dst p d }"

lemma copy_bytes_eq:
  "n \<le> length src \<Longrightarrow> p + n \<le> length dst \<Longrightarrow>
    copy_bytes dst p src n = Some (take p dst @ take n src @ drop (p + n) dst)"
  by (simp add: copy_bytes_def get_bytes_def put_bytes_def)

lemma copy_bytes_prefix:
  "n \<le> length src \<Longrightarrow> p + n \<le> length dst \<Longrightarrow>
    \<exists>m. copy_bytes dst p src n = Some m \<and> length m = length dst \<and> take (p + n) m = take p dst @ take n src"
  by (simp add: copy_bytes_eq)

lemma copy_bytes_length: "copy_bytes dst p src n = Some m \<Longrightarrow> length m = length dst"
  by (auto simp: copy_bytes_def dest: put_bytes_length split: Option.bind_splits)

lemma take_front: "length xs = n \<Longrightarrow> take n (xs @ ys) = xs"
  by simp

lemma unat_and_mask_less: "unat (w AND mask n :: 'a::len word) = unat w mod 2 ^ n"
  by (simp only: unsigned_and_eq flip: take_bit_eq_mask take_bit_eq_mod) (simp add: unsigned_take_bit_eq)

lemma fill_mod: "n < B \<Longrightarrow> B - n \<le> l \<Longrightarrow> (n + l) mod B = (l - (B - n)) mod (B :: nat)"
proof -
  assume "n < B" "B - n \<le> l"
  then have "n + l = (l - (B - n)) + B" by simp
  then show ?thesis by (simp only: mod_add_self2)
qed

section \<open>Absorbing bytes block by block\<close>

function absorb :: "nat \<Rightarrow> ('h \<Rightarrow> u8 list \<Rightarrow> 'h) \<Rightarrow> 'h \<Rightarrow> u8 list \<Rightarrow> 'h \<times> u8 list" where
  "absorb B f h xs =
     (if 0 < B \<and> B \<le> length xs then absorb B f (f h (take B xs)) (drop B xs) else (h, xs))"
  by auto
termination by (relation "measure (\<lambda>(B, f, h, xs). length xs)") auto

declare absorb.simps [simp del]

lemma absorb_short [simp]: "length xs < B \<Longrightarrow> absorb B f h xs = (h, xs)"
  by (subst absorb.simps) simp

lemma absorb_block: "0 < B \<Longrightarrow> length b = B \<Longrightarrow> absorb B f h (b @ xs) = absorb B f (f h b) xs"
  by (subst absorb.simps) simp

lemma absorb_step:
  "0 < B \<Longrightarrow> B \<le> length xs \<Longrightarrow> absorb B f h xs = absorb B f (f h (take B xs)) (drop B xs)"
  by (subst absorb.simps) simp

lemma absorb_append:
  "0 < B \<Longrightarrow> absorb B f h (xs @ ys) = (let (h', r) = absorb B f h xs in absorb B f h' (r @ ys))"
proof (induction B f h xs rule: absorb.induct)
  case (1 B f h xs)
  show ?case
  proof (cases "B \<le> length xs")
    case True
    have "absorb B f h (xs @ ys) = absorb B f (f h (take B xs)) (drop B xs @ ys)"
      using absorb_step [of B "xs @ ys" f h] 1(2) True by simp
    also have "\<dots> = (let (h', r) = absorb B f (f h (take B xs)) (drop B xs) in absorb B f h' (r @ ys))"
      using 1 True by simp
    finally show ?thesis using absorb_step [of B xs f h] 1(2) True by simp
  qed simp
qed

lemma absorb_continue:
  "0 < B \<Longrightarrow> (h', r) = absorb B f h xs \<Longrightarrow> absorb B f h (xs @ ys) = absorb B f h' (r @ ys)"
  using absorb_append [of B f h xs ys] by (metis (no_types, lifting) case_prod_conv)

lemma absorb_rest: "0 < B \<Longrightarrow> length (snd (absorb B f h xs)) = length xs mod B"
proof (induction B f h xs rule: absorb.induct)
  case (1 B f h xs)
  show ?case
  proof (cases "B \<le> length xs")
    case True
    then have "length (snd (absorb B f h xs)) = (length xs - B) mod B"
      using 1 absorb_step [of B xs f h] by simp
    then show ?thesis using True by (simp add: le_mod_geq)
  qed simp
qed

lemma absorb_rest_less: "0 < B \<Longrightarrow> length (snd (absorb B f h xs)) < B"
  by (simp add: absorb_rest)

lemma absorb_rest_suffix: "0 < B \<Longrightarrow> \<exists>us. xs = us @ snd (absorb B f h xs)"
proof (induction B f h xs rule: absorb.induct)
  case (1 B f h xs)
  show ?case
  proof (cases "B \<le> length xs")
    case True
    then obtain us where "drop B xs = us @ snd (absorb B f (f h (take B xs)) (drop B xs))"
      using 1 by blast
    then have "xs = (take B xs @ us) @ snd (absorb B f h xs)"
      using absorb_step [of B xs f h] 1(2) True by (metis append.assoc append_take_drop_id)
    then show ?thesis ..
  qed simp
qed

text \<open>A compression on a larger state that is one on the part \<open>g\<close> of it.\<close>

lemma absorb_part:
  assumes "\<And>h b. P h \<Longrightarrow> P (f h b) \<and> g (f h b) = f' (g h) b" "P h"
  shows "P (fst (absorb B f h xs)) \<and> absorb B f' (g h) xs = map_prod g id (absorb B f h xs)"
  using assms
proof (induction B f h xs rule: absorb.induct)
  case (1 B f h xs)
  show ?case
  proof (cases "0 < B \<and> B \<le> length xs")
    case True
    have e: "P (f h (take B xs))" "g (f h (take B xs)) = f' (g h) (take B xs)"
      using 1(2) [OF 1(3), of "take B xs"] by auto
    show ?thesis using 1(1) [OF True 1(2) e(1)] True by (simp add: absorb_step [of B xs] e(2))
  next
    case False
    then have "absorb B f h xs = (h, xs)" "absorb B f' (g h) xs = (g h, xs)"
      by (simp_all only: absorb.simps [of B _ _ xs] if_False)
    then show ?thesis using 1(3) by simp
  qed
qed

section \<open>The contract\<close>

text \<open>A sequence of updates, one for each piece of the input.\<close>

fun feed :: "('c \<Rightarrow> u8 list \<Rightarrow> 'c option) \<Rightarrow> 'c \<Rightarrow> u8 list list \<Rightarrow> 'c option" where
  "feed update c [] = Some c"
| "feed update c (d # ds) = do { c' \<leftarrow> update c d; feed update c' ds }"

text \<open>
  \<open>digest\<close> and \<open>pending\<close> are what a context stands for: the compressed blocks, and the
  bytes that wait for the rest of their block. \<open>lim\<close> bounds the length of one piece.
\<close>

locale block_hash =
  fixes B :: nat
    and compress :: "'h \<Rightarrow> u8 list \<Rightarrow> 'h"
    and digest :: "'c \<Rightarrow> 'h"
    and pending :: "'c \<Rightarrow> u8 list"
    and wf :: "'c \<Rightarrow> bool"
    and update :: "'c \<Rightarrow> u8 list \<Rightarrow> 'c option"
    and lim :: nat
  assumes block_pos: "0 < B"
    and update_absorbs: "wf c \<Longrightarrow> length d < lim \<Longrightarrow>
      \<exists>c'. update c d = Some c' \<and> wf c' \<and> (digest c', pending c') = absorb B compress (digest c) (pending c @ d)"
begin

lemma pending_short: "wf c \<Longrightarrow> length d < lim \<Longrightarrow> update c d = Some c' \<Longrightarrow> length (pending c') < B"
  using update_absorbs [of c d] absorb_rest_less [OF block_pos] by (metis option.inject snd_conv)

text \<open>Every way to cut the input into pieces gives the same digest and the same waiting bytes.\<close>

lemma feed_absorbs:
  assumes "wf c" "\<forall>d \<in> set ds. length d < lim" "length (pending c) < B"
  shows "\<exists>c'. feed update c ds = Some c' \<and> wf c' \<and>
    (digest c', pending c') = absorb B compress (digest c) (pending c @ concat ds)"
  using assms
proof (induction ds arbitrary: c)
  case (Cons d ds)
  from update_absorbs [of c d] Cons.prems obtain c1 where
    c1: "update c d = Some c1" "wf c1" "(digest c1, pending c1) = absorb B compress (digest c) (pending c @ d)"
    by auto
  have "length (pending c1) < B" using pending_short [OF _ _ c1(1)] Cons.prems by simp
  with Cons.IH [OF c1(2)] Cons.prems obtain c2 where
    c2: "feed update c1 ds = Some c2" "wf c2"
    "(digest c2, pending c2) = absorb B compress (digest c1) (pending c1 @ concat ds)"
    by auto
  have "absorb B compress (digest c) (pending c @ concat (d # ds)) = absorb B compress (digest c1) (pending c1 @ concat ds)"
    using absorb_continue [OF block_pos c1(3), of "concat ds"] by simp
  then show ?case using c1(1) c2 by simp
qed simp

lemma two_pieces:
  assumes "wf c" "length (x @ y) < lim" "update c x = Some c1" "update c1 y = Some c2" "update c (x @ y) = Some c3"
  shows "digest c2 = digest c3 \<and> pending c2 = pending c3"
proof -
  have x: "length x < lim" and y: "length y < lim" using assms(2) by simp_all
  from update_absorbs [OF assms(1) x] assms(3) have
    1: "wf c1" "(digest c1, pending c1) = absorb B compress (digest c) (pending c @ x)" by auto
  from update_absorbs [OF 1(1) y] assms(4) have
    2: "(digest c2, pending c2) = absorb B compress (digest c1) (pending c1 @ y)" by auto
  from update_absorbs [OF assms(1) assms(2)] assms(5) have
    3: "(digest c3, pending c3) = absorb B compress (digest c) ((pending c @ x) @ y)" by auto
  have "(digest c3, pending c3) = (digest c2, pending c2)"
    unfolding 2 3 by (rule absorb_continue [OF block_pos 1(2)])
  then show ?thesis by simp
qed

lemma digest_of_pieces:
  assumes "wf c" "pending c = []" "\<forall>d \<in> set ds. length d < lim"
  shows "\<exists>c'. feed update c ds = Some c' \<and> wf c'
    \<and> (digest c', pending c') = absorb B compress (digest c) (concat ds)"
  using feed_absorbs [OF assms(1,3)] assms(2) block_pos by simp

text \<open>The bytes after the last full block do not reach the digest.\<close>

lemma tail_ignored:
  assumes "wf c" "pending c = []" "length xs mod B = 0" "length ys < B" "length (xs @ ys) < lim"
    and "update c (xs @ ys) = Some c1" "update c xs = Some c2"
  shows "digest c1 = digest c2"
proof -
  have x: "length xs < lim" using assms(5) by simp
  from update_absorbs [OF assms(1) x] assms(2,7) have
    2: "(digest c2, pending c2) = absorb B compress (digest c) xs" by simp
  have "length (pending c2) = 0"
    using absorb_rest [OF block_pos, of compress "digest c" xs] assms(3) 2 by (metis snd_conv)
  then have p: "pending c2 = []" by simp
  from update_absorbs [OF assms(1) assms(5)] assms(2,6) have
    1: "(digest c1, pending c1) = absorb B compress (digest c) (xs @ ys)" by simp
  also have "\<dots> = absorb B compress (digest c2) (pending c2 @ ys)"
    by (rule absorb_continue [OF block_pos 2])
  also have "\<dots> = (digest c2, ys)" using p assms(4) by simp
  finally show ?thesis by simp
qed

end

end
