(* ===== verification/Md5.thy ===== *)
theory Md5
  imports Blockhash
begin

text \<open>
  \<^verbatim>\<open>crc/md5.c\<close> and \<^verbatim>\<open>crc/md5.h\<close>: the digest of the \<open>md5\<close>
  verify header, which is the compression of the full blocks, without the padding of the standard.
  The lemmas show that the unrolled rounds are the rounds of RFC 1321 and that
  \<open>fio_md5_update\<close> fulfils the contract of a block hash.
\<close>

section \<open>The compression function\<close>

text \<open>
  One entry for each \<open>MD5STEP\<close> of the source: the function, the order in which the step names
  the registers, the word of the block, the constant and the rotation.
\<close>

datatype md5_fn = F1 | F2 | F3 | F4
datatype md5_order = ABCD | DABC | CDAB | BCDA

type_synonym md5_row = "md5_fn \<times> md5_order \<times> nat \<times> u32 \<times> nat"
type_synonym md5_state = "u32 \<times> u32 \<times> u32 \<times> u32"

definition md5_rows :: "md5_row list" where
  "md5_rows = [
     (F1, ABCD, 0, 0xd76aa478, 7), (F1, DABC, 1, 0xe8c7b756, 12),
     (F1, CDAB, 2, 0x242070db, 17), (F1, BCDA, 3, 0xc1bdceee, 22),
     (F1, ABCD, 4, 0xf57c0faf, 7), (F1, DABC, 5, 0x4787c62a, 12),
     (F1, CDAB, 6, 0xa8304613, 17), (F1, BCDA, 7, 0xfd469501, 22),
     (F1, ABCD, 8, 0x698098d8, 7), (F1, DABC, 9, 0x8b44f7af, 12),
     (F1, CDAB, 10, 0xffff5bb1, 17), (F1, BCDA, 11, 0x895cd7be, 22),
     (F1, ABCD, 12, 0x6b901122, 7), (F1, DABC, 13, 0xfd987193, 12),
     (F1, CDAB, 14, 0xa679438e, 17), (F1, BCDA, 15, 0x49b40821, 22),
     (F2, ABCD, 1, 0xf61e2562, 5), (F2, DABC, 6, 0xc040b340, 9),
     (F2, CDAB, 11, 0x265e5a51, 14), (F2, BCDA, 0, 0xe9b6c7aa, 20),
     (F2, ABCD, 5, 0xd62f105d, 5), (F2, DABC, 10, 0x02441453, 9),
     (F2, CDAB, 15, 0xd8a1e681, 14), (F2, BCDA, 4, 0xe7d3fbc8, 20),
     (F2, ABCD, 9, 0x21e1cde6, 5), (F2, DABC, 14, 0xc33707d6, 9),
     (F2, CDAB, 3, 0xf4d50d87, 14), (F2, BCDA, 8, 0x455a14ed, 20),
     (F2, ABCD, 13, 0xa9e3e905, 5), (F2, DABC, 2, 0xfcefa3f8, 9),
     (F2, CDAB, 7, 0x676f02d9, 14), (F2, BCDA, 12, 0x8d2a4c8a, 20),
     (F3, ABCD, 5, 0xfffa3942, 4), (F3, DABC, 8, 0x8771f681, 11),
     (F3, CDAB, 11, 0x6d9d6122, 16), (F3, BCDA, 14, 0xfde5380c, 23),
     (F3, ABCD, 1, 0xa4beea44, 4), (F3, DABC, 4, 0x4bdecfa9, 11),
     (F3, CDAB, 7, 0xf6bb4b60, 16), (F3, BCDA, 10, 0xbebfbc70, 23),
     (F3, ABCD, 13, 0x289b7ec6, 4), (F3, DABC, 0, 0xeaa127fa, 11),
     (F3, CDAB, 3, 0xd4ef3085, 16), (F3, BCDA, 6, 0x04881d05, 23),
     (F3, ABCD, 9, 0xd9d4d039, 4), (F3, DABC, 12, 0xe6db99e5, 11),
     (F3, CDAB, 15, 0x1fa27cf8, 16), (F3, BCDA, 2, 0xc4ac5665, 23),
     (F4, ABCD, 0, 0xf4292244, 6), (F4, DABC, 7, 0x432aff97, 10),
     (F4, CDAB, 14, 0xab9423a7, 15), (F4, BCDA, 5, 0xfc93a039, 21),
     (F4, ABCD, 12, 0x655b59c3, 6), (F4, DABC, 3, 0x8f0ccc92, 10),
     (F4, CDAB, 10, 0xffeff47d, 15), (F4, BCDA, 1, 0x85845dd1, 21),
     (F4, ABCD, 8, 0x6fa87e4f, 6), (F4, DABC, 15, 0xfe2ce6e0, 10),
     (F4, CDAB, 6, 0xa3014314, 15), (F4, BCDA, 13, 0x4e0811a1, 21),
     (F4, ABCD, 4, 0xf7537e82, 6), (F4, DABC, 11, 0xbd3af235, 10),
     (F4, CDAB, 2, 0x2ad7d2bb, 15), (F4, BCDA, 9, 0xeb86d391, 21)]"

definition md5_F1 :: "u32 \<Rightarrow> u32 \<Rightarrow> u32 \<Rightarrow> u32" where
  "md5_F1 x y z = z XOR (x AND (y XOR z))"

fun md5_f :: "md5_fn \<Rightarrow> u32 \<Rightarrow> u32 \<Rightarrow> u32 \<Rightarrow> u32" where
  "md5_f F1 x y z = md5_F1 x y z"
| "md5_f F2 x y z = md5_F1 z x y"
| "md5_f F3 x y z = x XOR y XOR z"
| "md5_f F4 x y z = y XOR (x OR NOT z)"

definition MD5STEP :: "md5_fn \<Rightarrow> u32 \<Rightarrow> u32 \<Rightarrow> u32 \<Rightarrow> u32 \<Rightarrow> u32 \<Rightarrow> nat \<Rightarrow> u32" where
  "MD5STEP f w x y z inp s =
     (let w = w + (md5_f f x y z + inp) in (push_bit s w OR drop_bit (32 - s) w) + x)"

fun md5_step :: "(nat \<Rightarrow> u32) \<Rightarrow> md5_row \<Rightarrow> md5_state \<Rightarrow> md5_state" where
  "md5_step inp (f, ABCD, i, t, s) (a, b, c, d) = (MD5STEP f a b c d (inp i + t) s, b, c, d)"
| "md5_step inp (f, DABC, i, t, s) (a, b, c, d) = (a, b, c, MD5STEP f d a b c (inp i + t) s)"
| "md5_step inp (f, CDAB, i, t, s) (a, b, c, d) = (a, b, MD5STEP f c d a b (inp i + t) s, d)"
| "md5_step inp (f, BCDA, i, t, s) (a, b, c, d) = (a, MD5STEP f b c d a (inp i + t) s, c, d)"

definition md5_transform :: "md5_state \<Rightarrow> u8 list \<Rightarrow> md5_state" where
  "md5_transform hash block =
     (let (h0, h1, h2, h3) = hash;
          (a, b, c, d) = fold (md5_step (le32 block)) md5_rows (h0, h1, h2, h3)
      in (h0 + a, h1 + b, h2 + c, h3 + d))"

section \<open>Contexts\<close>

text \<open>\<open>md5_block\<close> is memory: the bytes of the sixteen words.\<close>

record fio_md5_ctx =
  md5_hash :: md5_state
  md5_block :: "u8 list"
  md5_byte_count :: u64

definition fio_md5_init :: "fio_md5_ctx \<Rightarrow> fio_md5_ctx" where
  "fio_md5_init mctx = mctx\<lparr>md5_hash := (0x67452301, 0xefcdab89, 0x98badcfe, 0x10325476)\<rparr>"

function md5_update_loop :: "fio_md5_ctx \<Rightarrow> u8 list \<Rightarrow> u32 \<Rightarrow> fio_md5_ctx option" where
  "md5_update_loop mctx data len =
     (if 64 \<le> len
      then do {
        b \<leftarrow> copy_bytes (md5_block mctx) 0 data 64;
        md5_update_loop (mctx\<lparr>md5_block := b, md5_hash := md5_transform (md5_hash mctx) b\<rparr>) (drop 64 data) (len - 64) }
      else do {
        b \<leftarrow> copy_bytes (md5_block mctx) 0 data (unat len);
        Some (mctx\<lparr>md5_block := b\<rparr>) })"
  by auto
termination
  by (relation "measure (\<lambda>(_, _, len). unat len)") (auto simp: word_le_nat_alt unat_sub)

definition fio_md5_update :: "fio_md5_ctx \<Rightarrow> u8 list \<Rightarrow> u32 \<Rightarrow> fio_md5_ctx option" where
  "fio_md5_update mctx data len =
     (let avail = ucast (64 - (md5_byte_count mctx AND 0x3f)) :: u32;
          mctx = mctx\<lparr>md5_byte_count := md5_byte_count mctx + ucast len\<rparr>
      in if len < avail
         then do {
           b \<leftarrow> copy_bytes (md5_block mctx) (64 - unat avail) data (unat len);
           Some (mctx\<lparr>md5_block := b\<rparr>) }
         else do {
           b \<leftarrow> copy_bytes (md5_block mctx) (64 - unat avail) data (unat avail);
           md5_update_loop (mctx\<lparr>md5_block := b, md5_hash := md5_transform (md5_hash mctx) b\<rparr>)
             (drop (unat avail) data) (len - avail) })"

declare md5_update_loop.simps [simp del]

section \<open>The rounds are those of RFC 1321\<close>

text \<open>
  The standard's round \<open>i\<close> over one fixed order of the registers. It draws the constants
  \<open>T i\<close> from the source.
\<close>

definition rfc1321_f :: "nat \<Rightarrow> u32 \<Rightarrow> u32 \<Rightarrow> u32 \<Rightarrow> u32" where
  "rfc1321_f i x y z =
     (if i < 16 then (x AND y) OR (NOT x AND z)
      else if i < 32 then (x AND z) OR (y AND NOT z)
      else if i < 48 then x XOR y XOR z
      else y XOR (x OR NOT z))"

definition rfc1321_word :: "nat \<Rightarrow> nat" where
  "rfc1321_word i =
     (if i < 16 then i else if i < 32 then (5 * i + 1) mod 16
      else if i < 48 then (3 * i + 5) mod 16 else (7 * i) mod 16)"

definition rfc1321_shift :: "nat \<Rightarrow> nat" where
  "rfc1321_shift i = [7, 12, 17, 22, 5, 9, 14, 20, 4, 11, 16, 23, 6, 10, 15, 21] ! (4 * (i div 16) + i mod 4)"

definition md5_T :: "nat \<Rightarrow> u32" where
  "md5_T i = (case md5_rows ! i of (_, _, _, t, _) \<Rightarrow> t)"

fun rfc1321_round :: "(nat \<Rightarrow> u32) \<Rightarrow> nat \<Rightarrow> md5_state \<Rightarrow> md5_state" where
  "rfc1321_round M i (a, b, c, d) =
     (d, b + rotl (rfc1321_shift i) (a + rfc1321_f i b c d + M (rfc1321_word i) + md5_T i), b, c)"

definition rfc1321_compress :: "md5_state \<Rightarrow> u8 list \<Rightarrow> md5_state" where
  "rfc1321_compress H m =
     (let (h0, h1, h2, h3) = H; (a, b, c, d) = fold (rfc1321_round (le32 m)) [0..<64] H
      in (h0 + a, h1 + b, h2 + c, h3 + d))"

text \<open>The registers in the order in which a step names them.\<close>

fun md5_view :: "md5_order \<Rightarrow> md5_state \<Rightarrow> md5_state" where
  "md5_view ABCD (a, b, c, d) = (a, b, c, d)"
| "md5_view DABC (a, b, c, d) = (d, a, b, c)"
| "md5_view CDAB (a, b, c, d) = (c, d, a, b)"
| "md5_view BCDA (a, b, c, d) = (b, c, d, a)"

definition md5_order_at :: "nat \<Rightarrow> md5_order" where
  "md5_order_at i = [ABCD, DABC, CDAB, BCDA] ! (i mod 4)"

definition md5_fn_at :: "nat \<Rightarrow> md5_fn" where
  "md5_fn_at i = [F1, F2, F3, F4] ! (i div 16)"

definition md5_row_at :: "nat \<Rightarrow> bool" where
  "md5_row_at i \<longleftrightarrow> (case md5_rows ! i of (f, r, k, t, s) \<Rightarrow>
     f = md5_fn_at i \<and> r = md5_order_at i \<and> k = rfc1321_word i \<and> s = rfc1321_shift i)"

lemma md5_rows_at: "list_all md5_row_at [0..<64]"
  by code_simp

lemma md5_row:
  "i < 64 \<Longrightarrow> md5_rows ! i = (md5_fn_at i, md5_order_at i, rfc1321_word i, md5_T i, rfc1321_shift i)"
  using md5_rows_at by (auto simp: list_all_iff md5_row_at_def md5_T_def split: prod.splits)

lemma md5_order_Suc:
  obtains "md5_order_at i = ABCD" "md5_order_at (Suc i) = DABC"
  | "md5_order_at i = DABC" "md5_order_at (Suc i) = CDAB"
  | "md5_order_at i = CDAB" "md5_order_at (Suc i) = BCDA"
  | "md5_order_at i = BCDA" "md5_order_at (Suc i) = ABCD"
proof -
  have "i mod 4 = 0 \<or> i mod 4 = 1 \<or> i mod 4 = 2 \<or> i mod 4 = 3" by arith
  then show ?thesis
    by (elim disjE; simp add: md5_order_at_def mod_Suc that)
qed

lemma md5_F1_eq: "md5_F1 x y z = (x AND y) OR (NOT x AND z)"
  by (intro bit_word_eqI) (auto simp: md5_F1_def bitwise)

lemma md5_f_eq:
  assumes "i < 64"
  shows "md5_f (md5_fn_at i) x y z = rfc1321_f i x y z"
proof -
  have "i div 16 = 0 \<or> i div 16 = 1 \<or> i div 16 = 2 \<or> i div 16 = 3" using assms by arith
  moreover have "(z AND x) OR (NOT z AND y) = (x AND z) OR (y AND NOT z)" by (simp only: and.commute)
  ultimately show ?thesis
    by (elim disjE) (simp_all add: md5_fn_at_def rfc1321_f_def md5_F1_eq div_eq_0_iff, arith+)
qed

lemma md5_step_view:
  assumes "i < 64"
  shows "md5_view (md5_order_at (Suc i)) (md5_step inp (md5_rows ! i) st)
    = rfc1321_round inp i (md5_view (md5_order_at i) st)"
proof -
  obtain a b c d where st: "st = (a, b, c, d)" by (cases st)
  show ?thesis unfolding md5_row [OF assms] st
    by (rule md5_order_Suc [of i])
      (simp_all add: MD5STEP_def Let_def rot_32 md5_f_eq [OF assms] ac_simps)
qed

lemma md5_rounds:
  "n \<le> 64 \<Longrightarrow> md5_view (md5_order_at n) (fold (md5_step inp) (take n md5_rows) st)
    = fold (rfc1321_round inp) [0..<n] st"
proof (induction n)
  case 0
  then show ?case by (cases st) (simp add: md5_order_at_def)
next
  case (Suc n)
  then have "n < length md5_rows" by (simp add: md5_rows_def)
  then show ?case using Suc md5_step_view [of n inp "fold (md5_step inp) (take n md5_rows) st"]
    by (simp add: take_Suc_conv_app_nth)
qed

lemma md5_transform_eq: "md5_transform H m = rfc1321_compress H m"
proof -
  have "take 64 md5_rows = md5_rows" "md5_order_at 64 = ABCD"
    by (simp_all add: md5_rows_def md5_order_at_def)
  moreover have "md5_view ABCD st = st" for st by (cases st) simp
  ultimately have "fold (md5_step (le32 m)) md5_rows H = fold (rfc1321_round (le32 m)) [0..<64] H"
    using md5_rounds [of 64 "le32 m" H] by simp
  then show ?thesis by (cases H) (simp add: md5_transform_def rfc1321_compress_def)
qed

section \<open>The contract of a block hash\<close>

definition md5_pending :: "fio_md5_ctx \<Rightarrow> u8 list" where
  "md5_pending c = take (unat (md5_byte_count c) mod 64) (md5_block c)"

definition md5_wf :: "fio_md5_ctx \<Rightarrow> bool" where
  "md5_wf c \<longleftrightarrow> length (md5_block c) = 64"

definition md5_feed :: "fio_md5_ctx \<Rightarrow> u8 list \<Rightarrow> fio_md5_ctx option" where
  "md5_feed c d = fio_md5_update c d (of_nat (length d))"

lemma md5_loop_absorbs:
  assumes "length (md5_block c) = 64" "unat len = length data"
  shows "\<exists>c' p. md5_update_loop c data len = Some c' \<and> length (md5_block c') = 64 \<and> md5_byte_count c' = md5_byte_count c
    \<and> absorb 64 md5_transform (md5_hash c) data = (md5_hash c', p) \<and> take (length data mod 64) (md5_block c') = p"
  using assms
proof (induction c data len rule: md5_update_loop.induct)
  case (1 c data len)
  show ?case
  proof (cases "64 \<le> len")
    case True
    then have ge: "64 \<le> length data" using 1(3) by (simp add: word_le_nat_alt)
    have b: "copy_bytes (md5_block c) 0 data 64 = Some (take 64 data)"
      using ge 1(2) by (simp add: copy_bytes_eq)
    have "unat (len - 64) = length (drop 64 data)" using True 1(3) by (simp add: unat_sub)
    from 1(1) [OF True b _ this] ge obtain c' p where
      "md5_update_loop (c\<lparr>md5_block := take 64 data, md5_hash := md5_transform (md5_hash c) (take 64 data)\<rparr>) (drop 64 data) (len - 64) = Some c'"
      "length (md5_block c') = 64" "md5_byte_count c' = md5_byte_count c"
      "absorb 64 md5_transform (md5_transform (md5_hash c) (take 64 data)) (drop 64 data) = (md5_hash c', p)"
      "take ((length data - 64) mod 64) (md5_block c') = p"
      by auto
    then show ?thesis using True b ge absorb_step [of 64 data md5_transform "md5_hash c"]
      by (subst md5_update_loop.simps) (simp add: le_mod_geq)
  next
    case False
    then have lt: "length data < 64" using 1(3) by (simp add: word_le_nat_alt not_le)
    then have "copy_bytes (md5_block c) 0 data (length data) = Some (data @ drop (length data) (md5_block c))"
      using 1(2) by (simp add: copy_bytes_eq)
    then show ?thesis using False lt 1(2,3)
      by (subst md5_update_loop.simps) simp
  qed
qed

lemma md5_avail: "unat (ucast (64 - (w AND 0x3f) :: u64) :: u32) = 64 - unat (w :: u64) mod 64"
proof -
  have 63: "unat (w AND 0x3f) = unat w mod 64" by (rule unat_and_63)
  then have "w AND 0x3f \<le> 64" by (simp add: word_le_nat_alt less_imp_le)
  then have "unat (64 - (w AND 0x3f)) = 64 - unat w mod 64" using 63 by (simp add: unat_sub)
  then show ?thesis by (simp add: unat_ucast_32)
qed

lemma md5_update_absorbs:
  assumes "md5_wf c" "length d < 2 ^ 32"
  shows "\<exists>c'. md5_feed c d = Some c' \<and> md5_wf c'
    \<and> (md5_hash c', md5_pending c') = absorb 64 md5_transform (md5_hash c) (md5_pending c @ d)"
proof -
  define n where "n = unat (md5_byte_count c) mod 64"
  have n: "n < 64" by (simp add: n_def)
  have blk: "length (md5_block c) = 64" using assms(1) by (simp add: md5_wf_def)
  have len: "unat (of_nat (length d) :: u32) = length d" using assms(2) by (simp add: unat_of_nat)
  have av: "unat (ucast (64 - (md5_byte_count c AND 0x3f)) :: u32) = 64 - n"
    unfolding n_def by (rule md5_avail)
  define bc where "bc = md5_byte_count c + ucast (of_nat (length d) :: u32)"
  have bc: "unat bc mod 64 = (n + length d) mod 64"
    unfolding bc_def n_def by (simp add: unat_word_ariths unat_ucast_64 len mod_mod_cancel mod_add_left_eq)
  show ?thesis
  proof (cases "length d < 64 - n")
    case True
    then have "n + length d < 64" by simp
    then show ?thesis using True n blk av len bc n_def
      by (simp add: md5_feed_def fio_md5_update_def Let_def word_less_nat_alt copy_bytes_eq md5_wf_def
          md5_pending_def flip: bc_def)
  next
    case False
    let ?b = "take n (md5_block c) @ take (64 - n) d" and ?r = "drop (64 - n) d"
    have b: "copy_bytes (md5_block c) n d (64 - n) = Some ?b" "length ?b = 64"
      using False n blk by (simp_all add: copy_bytes_eq)
    let ?c = "c\<lparr>md5_byte_count := bc, md5_block := ?b, md5_hash := md5_transform (md5_hash c) ?b\<rparr>"
    let ?l = "of_nat (length d) - ucast (64 - (md5_byte_count c AND 0x3f)) :: u32"
    have l: "unat ?l = length ?r" using False len av by (simp add: unat_sub word_le_nat_alt)
    have "length (md5_block ?c) = 64" using b(2) by simp
    from md5_loop_absorbs [OF this l] obtain c' p where
      c': "md5_update_loop ?c ?r ?l = Some c'" "length (md5_block c') = 64" "md5_byte_count c' = bc"
      "absorb 64 md5_transform (md5_transform (md5_hash c) ?b) ?r = (md5_hash c', p)"
      "take (length ?r mod 64) (md5_block c') = p"
      by auto
    have "absorb 64 md5_transform (md5_hash c) (md5_pending c @ d) = absorb 64 md5_transform (md5_hash c) (?b @ ?r)"
      by (simp add: md5_pending_def n_def)
    also have "\<dots> = absorb 64 md5_transform (md5_transform (md5_hash c) ?b) ?r"
      by (rule absorb_block [OF _ b(2)]) simp
    also have "\<dots> = (md5_hash c', p)" by (rule c'(4))
    finally have a: "absorb 64 md5_transform (md5_hash c) (md5_pending c @ d) = (md5_hash c', p)" .
    have "(n + length d) mod 64 = length ?r mod 64" using False fill_mod [OF n] by simp
    then have "md5_pending c' = p" using c'(3,5) bc by (simp add: md5_pending_def)
    then have r: "(md5_hash c', md5_pending c') = absorb 64 md5_transform (md5_hash c) (md5_pending c @ d)"
      using a by (simp only:)
    have "\<not> (of_nat (length d) :: u32) < ucast (64 - (md5_byte_count c AND 0x3f))"
      unfolding word_less_nat_alt av len by (rule False)
    moreover have "64 - (64 - n) = n" using n by simp
    moreover have "md5_byte_count c + ucast (of_nat (length d) :: u32) = bc" by (simp only: bc_def)
    ultimately have "md5_feed c d = Some c'"
      unfolding md5_feed_def fio_md5_update_def Let_def av using b(1) c'(1)
      by simp
    then show ?thesis using r c'(2) by (simp only: md5_wf_def) blast
  qed
qed

interpretation md5: block_hash 64 md5_transform md5_hash md5_pending md5_wf md5_feed "2 ^ 32"
  by unfold_locales (simp, rule md5_update_absorbs)



end
