(* ===== verification/Sha1.thy ===== *)
theory Sha1
  imports Blockhash
begin

text \<open>
  \<^verbatim>\<open>crc/sha1.c\<close>: the digest of the \<open>sha1\<close> verify header. The lemmas show that
  the unrolled rounds over a rolling array of sixteen words are the eighty rounds of FIPS 180, that
  \<open>fio_sha1_update\<close> fulfils the contract of a block hash, and that
  \<open>fio_sha1_final\<close> computes the digest of the standard.
\<close>

section \<open>The compression function\<close>

text \<open>
  One entry for each round of the source: the macro, the round number and the order in which it names
  the registers.
\<close>

datatype sha1_macro = T_0_15 | T_16_19 | T_20_39 | T_40_59 | T_60_79
datatype sha1_order = ABCDE | EABCD | DEABC | CDEAB | BCDEA

type_synonym sha1_row = "sha1_macro \<times> nat \<times> sha1_order"
type_synonym sha1_state = "u32 \<times> u32 \<times> u32 \<times> u32 \<times> u32"

definition sha1_rows :: "sha1_row list" where
  "sha1_rows = [
     (T_0_15, 0, ABCDE), (T_0_15, 1, EABCD), (T_0_15, 2, DEABC), (T_0_15, 3, CDEAB), (T_0_15, 4, BCDEA),
     (T_0_15, 5, ABCDE), (T_0_15, 6, EABCD), (T_0_15, 7, DEABC), (T_0_15, 8, CDEAB), (T_0_15, 9, BCDEA),
     (T_0_15, 10, ABCDE), (T_0_15, 11, EABCD), (T_0_15, 12, DEABC), (T_0_15, 13, CDEAB), (T_0_15, 14, BCDEA),
     (T_0_15, 15, ABCDE), (T_16_19, 16, EABCD), (T_16_19, 17, DEABC), (T_16_19, 18, CDEAB), (T_16_19, 19, BCDEA),
     (T_20_39, 20, ABCDE), (T_20_39, 21, EABCD), (T_20_39, 22, DEABC), (T_20_39, 23, CDEAB), (T_20_39, 24, BCDEA),
     (T_20_39, 25, ABCDE), (T_20_39, 26, EABCD), (T_20_39, 27, DEABC), (T_20_39, 28, CDEAB), (T_20_39, 29, BCDEA),
     (T_20_39, 30, ABCDE), (T_20_39, 31, EABCD), (T_20_39, 32, DEABC), (T_20_39, 33, CDEAB), (T_20_39, 34, BCDEA),
     (T_20_39, 35, ABCDE), (T_20_39, 36, EABCD), (T_20_39, 37, DEABC), (T_20_39, 38, CDEAB), (T_20_39, 39, BCDEA),
     (T_40_59, 40, ABCDE), (T_40_59, 41, EABCD), (T_40_59, 42, DEABC), (T_40_59, 43, CDEAB), (T_40_59, 44, BCDEA),
     (T_40_59, 45, ABCDE), (T_40_59, 46, EABCD), (T_40_59, 47, DEABC), (T_40_59, 48, CDEAB), (T_40_59, 49, BCDEA),
     (T_40_59, 50, ABCDE), (T_40_59, 51, EABCD), (T_40_59, 52, DEABC), (T_40_59, 53, CDEAB), (T_40_59, 54, BCDEA),
     (T_40_59, 55, ABCDE), (T_40_59, 56, EABCD), (T_40_59, 57, DEABC), (T_40_59, 58, CDEAB), (T_40_59, 59, BCDEA),
     (T_60_79, 60, ABCDE), (T_60_79, 61, EABCD), (T_60_79, 62, DEABC), (T_60_79, 63, CDEAB), (T_60_79, 64, BCDEA),
     (T_60_79, 65, ABCDE), (T_60_79, 66, EABCD), (T_60_79, 67, DEABC), (T_60_79, 68, CDEAB), (T_60_79, 69, BCDEA),
     (T_60_79, 70, ABCDE), (T_60_79, 71, EABCD), (T_60_79, 72, DEABC), (T_60_79, 73, CDEAB), (T_60_79, 74, BCDEA),
     (T_60_79, 75, ABCDE), (T_60_79, 76, EABCD), (T_60_79, 77, DEABC), (T_60_79, 78, CDEAB), (T_60_79, 79, BCDEA)]"

fun sha1_fn :: "sha1_macro \<Rightarrow> u32 \<Rightarrow> u32 \<Rightarrow> u32 \<Rightarrow> u32" where
  "sha1_fn T_0_15 B C D = ((C XOR D) AND B) XOR D"
| "sha1_fn T_16_19 B C D = ((C XOR D) AND B) XOR D"
| "sha1_fn T_20_39 B C D = B XOR C XOR D"
| "sha1_fn T_40_59 B C D = (B AND C) + (D AND (B XOR C))"
| "sha1_fn T_60_79 B C D = B XOR C XOR D"

fun sha1_const :: "sha1_macro \<Rightarrow> u32" where
  "sha1_const T_0_15 = 0x5a827999"
| "sha1_const T_16_19 = 0x5a827999"
| "sha1_const T_20_39 = 0x6ed9eba1"
| "sha1_const T_40_59 = 0x8f1bbcdc"
| "sha1_const T_60_79 = 0xca62c1d6"

text \<open>\<open>array[(x) & 15]\<close>\<close>

definition sha1_src :: "u8 list \<Rightarrow> nat \<Rightarrow> u32" where
  "sha1_src data t = be32 data t"

definition sha1_mix :: "u32 list \<Rightarrow> nat \<Rightarrow> u32" where
  "sha1_mix array t = rotl 1 (array ! ((t + 13) mod 16) XOR array ! ((t + 8) mod 16)
                               XOR array ! ((t + 2) mod 16) XOR array ! (t mod 16))"

definition sha1_input :: "u8 list \<Rightarrow> u32 list \<Rightarrow> sha1_macro \<Rightarrow> nat \<Rightarrow> u32" where
  "sha1_input data array m t = (if m = T_0_15 then sha1_src data t else sha1_mix array t)"

text \<open>The new values of the registers that the macro names \<open>E\<close> and \<open>B\<close>.\<close>

definition sha1_E :: "sha1_macro \<Rightarrow> u32 \<Rightarrow> u32 \<Rightarrow> u32 \<Rightarrow> u32 \<Rightarrow> u32 \<Rightarrow> u32 \<Rightarrow> u32" where
  "sha1_E m temp A B C D E = E + (temp + rotl 5 A + sha1_fn m B C D + sha1_const m)"

definition sha1_B :: "u32 \<Rightarrow> u32" where
  "sha1_B B = rotr 2 B"

fun sha1_regs :: "sha1_macro \<Rightarrow> u32 \<Rightarrow> sha1_order \<Rightarrow> sha1_state \<Rightarrow> sha1_state" where
  "sha1_regs m temp ABCDE (A, B, C, D, E) = (A, sha1_B B, C, D, sha1_E m temp A B C D E)"
| "sha1_regs m temp EABCD (A, B, C, D, E) = (sha1_B A, B, C, sha1_E m temp E A B C D, E)"
| "sha1_regs m temp DEABC (A, B, C, D, E) = (A, B, sha1_E m temp D E A B C, D, sha1_B E)"
| "sha1_regs m temp CDEAB (A, B, C, D, E) = (A, sha1_E m temp C D E A B, C, sha1_B D, E)"
| "sha1_regs m temp BCDEA (A, B, C, D, E) = (sha1_E m temp B C D E A, B, sha1_B C, D, E)"

definition SHA_ROUND :: "u8 list \<Rightarrow> sha1_row \<Rightarrow> u32 list \<times> sha1_state \<Rightarrow> u32 list \<times> sha1_state" where
  "SHA_ROUND data row st =
     (let (m, t, r) = row; (array, regs) = st; temp = sha1_input data array m t
      in (array[t mod 16 := temp], sha1_regs m temp r regs))"

text \<open>The array is not initialised; each of its words is stored before it is read.\<close>

definition blk_SHA1Block :: "sha1_state \<Rightarrow> u8 list \<Rightarrow> sha1_state" where
  "blk_SHA1Block H data =
     (let (h0, h1, h2, h3, h4) = H;
          (array, A, B, C, D, E) = fold (SHA_ROUND data) sha1_rows (replicate 16 0, h0, h1, h2, h3, h4)
      in (h0 + A, h1 + B, h2 + C, h3 + D, h4 + E))"

section \<open>Contexts\<close>

text \<open>\<open>sha1_W\<close> is memory: the bytes of the sixteen words.\<close>

record fio_sha1_ctx =
  sha1_H :: sha1_state
  sha1_W :: "u8 list"
  sha1_size :: u64

definition fio_sha1_init :: "fio_sha1_ctx \<Rightarrow> fio_sha1_ctx" where
  "fio_sha1_init ctx =
     ctx\<lparr>sha1_size := 0, sha1_H := (0x67452301, 0xefcdab89, 0x98badcfe, 0x10325476, 0xc3d2e1f0)\<rparr>"

function sha1_update_loop :: "fio_sha1_ctx \<Rightarrow> u8 list \<Rightarrow> u64 \<Rightarrow> fio_sha1_ctx option" where
  "sha1_update_loop ctx data len =
     (if 64 \<le> len
      then do {
        b \<leftarrow> get_bytes data 0 64;
        sha1_update_loop (ctx\<lparr>sha1_H := blk_SHA1Block (sha1_H ctx) b\<rparr>) (drop 64 data) (len - 64) }
      else if len \<noteq> 0
      then do {
        w \<leftarrow> copy_bytes (sha1_W ctx) 0 data (unat len);
        Some (ctx\<lparr>sha1_W := w\<rparr>) }
      else Some ctx)"
  by auto
termination
  by (relation "measure (\<lambda>(_, _, len). unat len)") (auto simp: word_le_nat_alt unat_sub)

declare sha1_update_loop.simps [simp del]

definition fio_sha1_update :: "fio_sha1_ctx \<Rightarrow> u8 list \<Rightarrow> u64 \<Rightarrow> fio_sha1_ctx option" where
  "fio_sha1_update ctx data len =
     (let lenW = sha1_size ctx AND 63; ctx = ctx\<lparr>sha1_size := sha1_size ctx + len\<rparr>
      in if lenW \<noteq> 0
         then let left = (if len < 64 - lenW then len else 64 - lenW) in do {
           w \<leftarrow> copy_bytes (sha1_W ctx) (unat lenW) data (unat left);
           if (lenW + left) AND 63 \<noteq> 0 then Some (ctx\<lparr>sha1_W := w\<rparr>)
           else sha1_update_loop (ctx\<lparr>sha1_W := w, sha1_H := blk_SHA1Block (sha1_H ctx) w\<rparr>)
                  (drop (unat left) data) (len - left) }
         else sha1_update_loop ctx data len)"

text \<open>\<open>htonl\<close> of a word, as the bytes it has in memory.\<close>

definition htonl_bytes :: "u32 \<Rightarrow> u8 list" where
  "htonl_bytes w = rev (le_bytes 4 w)"

definition sha1_pad :: "u8 list" where
  "sha1_pad = 0x80 # replicate 63 0"

definition fio_sha1_final :: "fio_sha1_ctx \<Rightarrow> (fio_sha1_ctx \<times> u8 list) option" where
  "fio_sha1_final ctx =
     (let padlen = htonl_bytes (ucast (drop_bit 29 (sha1_size ctx))) @ htonl_bytes (ucast (push_bit 3 (sha1_size ctx)));
          i = sha1_size ctx AND 63
      in do {
        ctx \<leftarrow> fio_sha1_update ctx sha1_pad (1 + (63 AND (55 - i)));
        ctx \<leftarrow> fio_sha1_update ctx padlen 8;
        let (h0, h1, h2, h3, h4) = sha1_H ctx;
        Some (ctx, concat (map htonl_bytes [h0, h1, h2, h3, h4])) })"

section \<open>The rounds are those of FIPS 180\<close>

text \<open>
  The standard keeps a schedule of eighty words and rotates the registers instead of renaming them.
\<close>

function fips180_w :: "u8 list \<Rightarrow> nat \<Rightarrow> u32" where
  "fips180_w m t =
     (if t < 16 then be32 m t
      else rotl 1 (fips180_w m (t - 3) XOR fips180_w m (t - 8)
                   XOR fips180_w m (t - 14) XOR fips180_w m (t - 16)))"
  by auto
termination by (relation "measure snd") auto

declare fips180_w.simps [simp del]

definition fips180_f :: "nat \<Rightarrow> u32 \<Rightarrow> u32 \<Rightarrow> u32 \<Rightarrow> u32" where
  "fips180_f t x y z =
     (if t < 20 then fips_ch x y z else if t < 40 then x XOR y XOR z
      else if t < 60 then fips_maj x y z else x XOR y XOR z)"

definition fips180_k :: "nat \<Rightarrow> u32" where
  "fips180_k t = [0x5a827999, 0x6ed9eba1, 0x8f1bbcdc, 0xca62c1d6] ! (t div 20)"

fun fips180_round :: "u8 list \<Rightarrow> nat \<Rightarrow> sha1_state \<Rightarrow> sha1_state" where
  "fips180_round m t (a, b, c, d, e) =
     (rotl 5 a + fips180_f t b c d + e + fips180_k t + fips180_w m t, a, rotl 30 b, c, d)"

definition fips180_compress :: "sha1_state \<Rightarrow> u8 list \<Rightarrow> sha1_state" where
  "fips180_compress H m =
     (let (h0, h1, h2, h3, h4) = H; (a, b, c, d, e) = fold (fips180_round m) [0..<80] H
      in (h0 + a, h1 + b, h2 + c, h3 + d, h4 + e))"

fun sha1_view :: "sha1_order \<Rightarrow> sha1_state \<Rightarrow> sha1_state" where
  "sha1_view ABCDE (A, B, C, D, E) = (A, B, C, D, E)"
| "sha1_view EABCD (A, B, C, D, E) = (E, A, B, C, D)"
| "sha1_view DEABC (A, B, C, D, E) = (D, E, A, B, C)"
| "sha1_view CDEAB (A, B, C, D, E) = (C, D, E, A, B)"
| "sha1_view BCDEA (A, B, C, D, E) = (B, C, D, E, A)"

definition sha1_order_at :: "nat \<Rightarrow> sha1_order" where
  "sha1_order_at t = [ABCDE, EABCD, DEABC, CDEAB, BCDEA] ! (t mod 5)"

definition sha1_macro_at :: "nat \<Rightarrow> sha1_macro" where
  "sha1_macro_at t =
     (if t < 16 then T_0_15 else if t < 20 then T_16_19 else if t < 40 then T_20_39
      else if t < 60 then T_40_59 else T_60_79)"

lemma sha1_rows_eq: "sha1_rows = map (\<lambda>t. (sha1_macro_at t, t, sha1_order_at t)) [0..<80]"
  by code_simp

lemma sha1_row: "t < 80 \<Longrightarrow> sha1_rows ! t = (sha1_macro_at t, t, sha1_order_at t)"
  by (simp add: sha1_rows_eq)

lemma sha1_order_Suc:
  obtains "sha1_order_at t = ABCDE" "sha1_order_at (Suc t) = EABCD"
  | "sha1_order_at t = EABCD" "sha1_order_at (Suc t) = DEABC"
  | "sha1_order_at t = DEABC" "sha1_order_at (Suc t) = CDEAB"
  | "sha1_order_at t = CDEAB" "sha1_order_at (Suc t) = BCDEA"
  | "sha1_order_at t = BCDEA" "sha1_order_at (Suc t) = ABCDE"
proof -
  have "t mod 5 = 0 \<or> t mod 5 = 1 \<or> t mod 5 = 2 \<or> t mod 5 = 3 \<or> t mod 5 = 4" by arith
  then show ?thesis
    by (elim disjE; simp add: sha1_order_at_def mod_Suc that)
qed

lemma sha1_fn_at: "sha1_fn (sha1_macro_at t) x y z = fips180_f t x y z"
  by (simp add: sha1_macro_at_def fips180_f_def ch_forms maj_forms)

lemma sha1_const_at: "t < 80 \<Longrightarrow> sha1_const (sha1_macro_at t) = fips180_k t"
proof -
  assume "t < 80"
  then have "t div 20 = 0 \<and> t < 20 \<or> t div 20 = 1 \<and> 20 \<le> t \<and> t < 40 \<or> t div 20 = 2 \<and> 40 \<le> t \<and> t < 60
    \<or> t div 20 = 3 \<and> 60 \<le> t" by arith
  then show ?thesis by (elim disjE) (simp_all add: sha1_macro_at_def fips180_k_def)
qed

lemma sha1_regs_view:
  assumes "t < 80" "temp = fips180_w m t"
  shows "sha1_view (sha1_order_at (Suc t)) (sha1_regs (sha1_macro_at t) temp (sha1_order_at t) regs)
    = fips180_round m t (sha1_view (sha1_order_at t) regs)"
proof -
  obtain A B C D E where r: "regs = (A, B, C, D, E)" by (cases regs)
  have rot: "rotr 2 x = rotl 30 x" for x :: u32 by (simp add: rot_32 or.commute)
  show ?thesis unfolding r assms(2)
    by (rule sha1_order_Suc [of t])
      (simp_all add: sha1_E_def sha1_B_def rot sha1_fn_at sha1_const_at [OF assms(1)] ac_simps)
qed

text \<open>The rolling array holds the last sixteen words of the schedule.\<close>

definition rolls :: "u8 list \<Rightarrow> nat \<Rightarrow> u32 list \<Rightarrow> bool" where
  "rolls m n array \<longleftrightarrow> length array = 16 \<and> (\<forall>t < n. n \<le> t + 16 \<longrightarrow> array ! (t mod 16) = fips180_w m t)"

lemma rolls_at: "rolls m n array \<Longrightarrow> 0 < k \<Longrightarrow> k \<le> 16 \<Longrightarrow> 16 \<le> n \<Longrightarrow>
    array ! ((n + (16 - k)) mod 16) = fips180_w m (n - k)"
proof -
  assume r: "rolls m n array" and k: "0 < k" "k \<le> 16" and n: "16 \<le> n"
  have "n + (16 - k) = (n - k) + 16" using k n by simp
  then have "(n + (16 - k)) mod 16 = (n - k) mod 16" by simp
  then show ?thesis using r k n by (simp add: rolls_def)
qed

lemma sha1_input_eq:
  assumes "rolls m n array" "n < 80"
  shows "sha1_input m array (sha1_macro_at n) n = fips180_w m n"
proof (cases "n < 16")
  case True
  then show ?thesis by (simp add: sha1_input_def sha1_macro_at_def sha1_src_def fips180_w.simps)
next
  case False
  then have "sha1_input m array (sha1_macro_at n) n = sha1_mix array n"
    by (simp add: sha1_input_def sha1_macro_at_def)
  also have "\<dots> = fips180_w m n"
    using False rolls_at [OF assms(1), of 3] rolls_at [OF assms(1), of 8] rolls_at [OF assms(1), of 14]
      rolls_at [OF assms(1), of 16]
    by (subst fips180_w.simps) (simp add: sha1_mix_def)
  finally show ?thesis .
qed

lemma rolls_update:
  assumes "rolls m n array" "v = fips180_w m n"
  shows "rolls m (Suc n) (array[n mod 16 := v])"
proof -
  have "array[n mod 16 := v] ! (t mod 16) = fips180_w m t" if t: "t < Suc n" "Suc n \<le> t + 16" for t
  proof (cases "t = n")
    case False
    have "t mod 16 \<noteq> n mod 16"
    proof
      assume "t mod 16 = n mod 16"
      then have "16 dvd n - t" using t by (metis dvd_minus_mod mod_eq_dvd_iff_nat less_Suc_eq_le)
      then show False using t False by (auto dest: dvd_imp_le)
    qed
    then show ?thesis using assms t False by (simp add: rolls_def)
  qed (use assms in \<open>simp add: rolls_def\<close>)
  then show ?thesis using assms(1) by (simp add: rolls_def)
qed

lemma sha1_rounds:
  assumes "n \<le> 80" "fold (SHA_ROUND m) (take n sha1_rows) (replicate 16 0, regs) = (array, regs')"
  shows "rolls m n array \<and> sha1_view (sha1_order_at n) regs' = fold (fips180_round m) [0..<n] regs"
  using assms
proof (induction n arbitrary: array regs')
  case 0
  then show ?case by (cases regs) (auto simp: rolls_def sha1_order_at_def)
next
  case (Suc n)
  obtain a0 r0 where s: "fold (SHA_ROUND m) (take n sha1_rows) (replicate 16 0, regs) = (a0, r0)"
    by (rule prod.exhaust)
  have n: "n < 80" using Suc.prems(1) by simp
  then have IH: "rolls m n a0" "sha1_view (sha1_order_at n) r0 = fold (fips180_round m) [0..<n] regs"
    using Suc.IH s by auto
  have "length sha1_rows = 80" by (simp add: sha1_rows_eq)
  then have "(array, regs') = SHA_ROUND m (sha1_macro_at n, n, sha1_order_at n) (a0, r0)"
    using Suc.prems(2) s n sha1_row [OF n] by (simp add: take_Suc_conv_app_nth)
  then have "array = a0[n mod 16 := fips180_w m n]"
    "regs' = sha1_regs (sha1_macro_at n) (fips180_w m n) (sha1_order_at n) r0"
    by (simp_all add: SHA_ROUND_def Let_def sha1_input_eq [OF IH(1) n])
  then show ?case using rolls_update [OF IH(1)] sha1_regs_view [OF n] IH(2) by simp
qed

lemma blk_SHA1Block_eq: "blk_SHA1Block H m = fips180_compress H m"
proof -
  have v: "sha1_view ABCDE st = st" for st by (cases st) simp
  obtain array regs where s: "fold (SHA_ROUND m) sha1_rows (replicate 16 0, H) = (array, regs)"
    by (rule prod.exhaust)
  have "take 80 sha1_rows = sha1_rows" "sha1_order_at 80 = ABCDE"
    by (simp_all add: sha1_rows_eq sha1_order_at_def)
  then have "regs = fold (fips180_round m) [0..<80] H"
    using sha1_rounds [of 80 m H array regs] s v by simp
  then show ?thesis using s by (cases H) (simp add: blk_SHA1Block_def fips180_compress_def)
qed

section \<open>The contract of a block hash\<close>

definition sha1_pending :: "fio_sha1_ctx \<Rightarrow> u8 list" where
  "sha1_pending c = take (unat (sha1_size c) mod 64) (sha1_W c)"

definition sha1_wf :: "fio_sha1_ctx \<Rightarrow> bool" where
  "sha1_wf c \<longleftrightarrow> length (sha1_W c) = 64"

definition sha1_feed :: "fio_sha1_ctx \<Rightarrow> u8 list \<Rightarrow> fio_sha1_ctx option" where
  "sha1_feed c d = fio_sha1_update c d (of_nat (length d))"

lemma sha1_loop_absorbs:
  assumes "length (sha1_W c) = 64" "unat len \<le> length data"
  shows "\<exists>c' p. sha1_update_loop c data len = Some c' \<and> length (sha1_W c') = 64 \<and> sha1_size c' = sha1_size c
    \<and> absorb 64 blk_SHA1Block (sha1_H c) (take (unat len) data) = (sha1_H c', p)
    \<and> take (unat len mod 64) (sha1_W c') = p"
  using assms
proof (induction c data len rule: sha1_update_loop.induct)
  case (1 c data len)
  show ?case
  proof (cases "64 \<le> len")
    case True
    then have ge: "64 \<le> unat len" "unat (len - 64) = unat len - 64"
      by (simp_all add: word_le_nat_alt unat_sub)
    let ?b = "take 64 data"
    have b: "get_bytes data 0 64 = Some ?b" using ge 1(3) by (simp add: get_bytes_def)
    have "unat (len - 64) \<le> length (drop 64 data)" using ge 1(3) by simp
    from 1(1) [OF True b _ this] 1(2) obtain c' p where
      c': "sha1_update_loop (c\<lparr>sha1_H := blk_SHA1Block (sha1_H c) ?b\<rparr>) (drop 64 data) (len - 64) = Some c'"
      "length (sha1_W c') = 64" "sha1_size c' = sha1_size c"
      "absorb 64 blk_SHA1Block (blk_SHA1Block (sha1_H c) ?b) (take (unat len - 64) (drop 64 data)) = (sha1_H c', p)"
      "take ((unat len - 64) mod 64) (sha1_W c') = p"
      by (auto simp: ge(2))
    have "absorb 64 blk_SHA1Block (sha1_H c) (take (unat len) data) = (sha1_H c', p)"
      using absorb_step [of 64 "take (unat len) data" blk_SHA1Block "sha1_H c"] ge(1) 1(3) c'(4)
      by (simp add: min_def drop_take)
    then show ?thesis using True b c' ge
      by (subst sha1_update_loop.simps) (simp add: le_mod_geq)
  next
    case False
    then have lt: "unat len < 64" by (simp add: word_le_nat_alt not_le)
    then have "copy_bytes (sha1_W c) 0 data (unat len) = Some (take (unat len) data @ drop (unat len) (sha1_W c))"
      using 1(2,3) by (simp add: copy_bytes_eq)
    then show ?thesis using False lt 1(2,3)
      by (subst sha1_update_loop.simps) (auto simp: min_def)
  qed
qed

lemma sha1_update_absorbs:
  assumes "sha1_wf c" "unat len \<le> length data"
  shows "\<exists>c'. fio_sha1_update c data len = Some c' \<and> sha1_wf c' \<and> sha1_size c' = sha1_size c + len
    \<and> (sha1_H c', sha1_pending c') = absorb 64 blk_SHA1Block (sha1_H c) (sha1_pending c @ take (unat len) data)"
proof -
  define n where "n = unat (sha1_size c) mod 64"
  define sz where "sz = sha1_size c + len"
  have n: "n < 64" by (simp add: n_def)
  have W: "length (sha1_W c) = 64" using assms(1) by (simp add: sha1_wf_def)
  have lw: "unat (sha1_size c AND 63) = n" unfolding n_def by (rule unat_and_63)
  have lw0: "sha1_size c AND 63 \<noteq> 0 \<longleftrightarrow> n \<noteq> 0" using lw by (metis unat_eq_zero)
  have sz: "unat sz mod 64 = (n + unat len) mod 64"
    unfolding sz_def n_def by (simp add: unat_word_ariths mod_mod_cancel mod_add_left_eq)
  show ?thesis
  proof (cases "n = 0")
    case True
    from sha1_loop_absorbs [of "c\<lparr>sha1_size := sz\<rparr>" len data] W assms(2) obtain c' p where
      c': "sha1_update_loop (c\<lparr>sha1_size := sz\<rparr>) data len = Some c'" "length (sha1_W c') = 64" "sha1_size c' = sz"
      "absorb 64 blk_SHA1Block (sha1_H c) (take (unat len) data) = (sha1_H c', p)"
      "take (unat len mod 64) (sha1_W c') = p"
      by auto
    moreover have "sha1_pending c = []" using True by (simp add: sha1_pending_def n_def)
    moreover have "sha1_pending c' = p" using c' sz True by (simp add: sha1_pending_def)
    ultimately show ?thesis using lw0 True
      by (simp add: fio_sha1_update_def Let_def sha1_wf_def flip: sz_def)
  next
    case False
    have l64: "unat (64 - (sha1_size c AND 63)) = 64 - n" using n lw by (simp add: unat_sub word_le_nat_alt)
    show ?thesis
    proof (cases "unat len < 64 - n")
      case True
      then have "len < 64 - (sha1_size c AND 63)" using l64 by (simp add: word_less_nat_alt)
      moreover have "(sha1_size c AND 63) + len AND 63 \<noteq> 0"
      proof
        assume "(sha1_size c AND 63) + len AND 63 = 0"
        then have "unat ((sha1_size c AND 63) + len) mod 64 = 0" by (metis unat_and_63 unat_0)
        moreover have "unat ((sha1_size c AND 63) + len) = n + unat len"
          using True n lw by (simp add: unat_word_ariths)
        ultimately show False using True False by simp
      qed
      ultimately show ?thesis using True False lw0 lw W assms(2) sz
        by (simp add: fio_sha1_update_def Let_def copy_bytes_eq sha1_wf_def sha1_pending_def n_def flip: sz_def)
    next
      case ge: False
      let ?b = "take n (sha1_W c) @ take (64 - n) data" and ?r = "drop (64 - n) data"
      define left where "left = 64 - (sha1_size c AND 63)"
      have left: "unat left = 64 - n" unfolding left_def by (rule l64)
      have b: "copy_bytes (sha1_W c) n data (64 - n) = Some ?b" "length ?b = 64"
        using ge n W assms(2) by (simp_all add: copy_bytes_eq)
      have l: "unat (len - left) = unat len - (64 - n)" using ge left by (simp add: unat_sub word_le_nat_alt)
      let ?c = "c\<lparr>sha1_size := sz, sha1_W := ?b, sha1_H := blk_SHA1Block (sha1_H c) ?b\<rparr>"
      have "length (sha1_W ?c) = 64" "unat (len - left) \<le> length ?r" using b(2) l assms(2) by simp_all
      from sha1_loop_absorbs [OF this] obtain c' p where
        c': "sha1_update_loop ?c ?r (len - left) = Some c'" "length (sha1_W c') = 64" "sha1_size c' = sz"
        "absorb 64 blk_SHA1Block (blk_SHA1Block (sha1_H c) ?b) (take (unat len - (64 - n)) ?r) = (sha1_H c', p)"
        "take ((unat len - (64 - n)) mod 64) (sha1_W c') = p"
        by (auto simp: l)
      have "take (unat len) data = take (64 - n) data @ take (unat len - (64 - n)) ?r"
        using ge by (metis add_diff_inverse_nat take_add)
      then have "absorb 64 blk_SHA1Block (sha1_H c) (sha1_pending c @ take (unat len) data)
          = absorb 64 blk_SHA1Block (sha1_H c) (?b @ take (unat len - (64 - n)) ?r)"
        by (simp add: sha1_pending_def n_def)
      also have "\<dots> = absorb 64 blk_SHA1Block (blk_SHA1Block (sha1_H c) ?b) (take (unat len - (64 - n)) ?r)"
        by (rule absorb_block [OF _ b(2)]) simp
      also have "\<dots> = (sha1_H c', p)" by (rule c'(4))
      finally have a: "absorb 64 blk_SHA1Block (sha1_H c) (sha1_pending c @ take (unat len) data) = (sha1_H c', p)" .
      have "(n + unat len) mod 64 = (unat len - (64 - n)) mod 64" using ge fill_mod [OF n] by simp
      then have p: "sha1_pending c' = p" using c'(3,5) sz by (simp add: sha1_pending_def)
      have nl: "\<not> len < left" unfolding word_less_nat_alt left by (rule ge)
      have z: "(sha1_size c AND 63) + left AND 63 = 0" by (simp add: left_def)
      have "fio_sha1_update c data len = Some c'"
        unfolding fio_sha1_update_def Let_def
        using lw0 False nl z b(1) c'(1) by (simp add: left lw flip: left_def sz_def)
      then show ?thesis using p a c'(2,3) by (simp only: sha1_wf_def sz_def) blast
    qed
  qed
qed

lemma sha1_feed_absorbs:
  assumes "sha1_wf c" "length d < 2 ^ 64"
  shows "\<exists>c'. sha1_feed c d = Some c' \<and> sha1_wf c'
    \<and> (sha1_H c', sha1_pending c') = absorb 64 blk_SHA1Block (sha1_H c) (sha1_pending c @ d)"
proof -
  have "unat (of_nat (length d) :: u64) = length d" using assms(2) by (simp add: unat_of_nat)
  then show ?thesis using sha1_update_absorbs [OF assms(1), of "of_nat (length d)" d]
    unfolding sha1_feed_def by auto
qed

interpretation sha1: block_hash 64 blk_SHA1Block sha1_H sha1_pending sha1_wf sha1_feed "2 ^ 64"
  by unfold_locales (simp, rule sha1_feed_absorbs)

section \<open>The digest of the standard\<close>

definition fips180_pad :: "u8 list \<Rightarrow> u8 list" where
  "fips180_pad m = m @ 0x80 # replicate (nat ((55 - int (length m)) mod 64)) 0
                     @ rev (le_bytes 8 (of_nat (8 * length m) :: u64))"

definition fips180_sha1 :: "u8 list \<Rightarrow> u8 list" where
  "fips180_sha1 m =
     (case fst (absorb 64 fips180_compress (0x67452301, 0xefcdab89, 0x98badcfe, 0x10325476, 0xc3d2e1f0) (fips180_pad m))
      of (h0, h1, h2, h3, h4) \<Rightarrow> concat (map htonl_bytes [h0, h1, h2, h3, h4]))"

lemma fips180_pad_blocks: "length (fips180_pad m) mod 64 = 0"
proof -
  have "int (length (fips180_pad m)) = int (length m) + 9 + (55 - int (length m)) mod 64"
    by (simp add: fips180_pad_def)
  then have "int (length (fips180_pad m)) mod 64 = (int (length m) + 9 + (55 - int (length m))) mod 64"
    by (simp only: mod_add_right_eq)
  then have "int (length (fips180_pad m) mod 64) = 0" by (simp add: zmod_int)
  then show ?thesis by simp
qed

lemma le_bytes_4: "le_bytes 4 w = map (\<lambda>k. ucast (drop_bit k w)) [0, 8, 16, 24]"
  by (simp add: le_bytes_def upt_rec)

lemma le_bytes_8: "le_bytes 8 w =
    map (\<lambda>k. ucast (drop_bit k w)) [0, 8, 16, 24] @ map (\<lambda>k. ucast (drop_bit (32 + k) w)) [0, 8, 16, 24]"
  by (simp add: le_bytes_def upt_rec)

lemma padlen_bytes:
  "htonl_bytes (ucast (drop_bit 29 s)) @ htonl_bytes (ucast (push_bit 3 s)) = rev (le_bytes 8 (push_bit 3 (s :: u64)))"
proof -
  let ?ks = "[0, 8, 16, 24] :: nat list"
  have "map (\<lambda>k. ucast (drop_bit k (ucast (drop_bit 29 s) :: u32)) :: u8) ?ks
    = map (\<lambda>k. ucast (drop_bit (32 + k) (push_bit 3 s))) ?ks"
    by (rule map_cong [OF refl]) (intro bit_word_eqI, auto simp: bit_simps)
  moreover have "map (\<lambda>k. ucast (drop_bit k (ucast (push_bit 3 s) :: u32)) :: u8) ?ks
    = map (\<lambda>k. ucast (drop_bit k (push_bit 3 s))) ?ks"
    by (rule map_cong [OF refl]) (intro bit_word_eqI, auto simp: bit_simps)
  ultimately show ?thesis
    unfolding htonl_bytes_def le_bytes_4 le_bytes_8 by (simp only: rev_append)
qed

lemma sha1_feed_size: "sha1_wf c \<Longrightarrow> length d < 2 ^ 64 \<Longrightarrow> sha1_feed c d = Some c' \<Longrightarrow>
    sha1_size c' = sha1_size c + of_nat (length d)"
proof -
  assume a: "sha1_wf c" "length d < 2 ^ 64" "sha1_feed c d = Some c'"
  have "unat (of_nat (length d) :: u64) = length d" using a(2) by (simp add: unat_of_nat)
  then show ?thesis using sha1_update_absorbs [OF a(1), of "of_nat (length d)" d] a(3)
    unfolding sha1_feed_def by auto
qed

lemma sha1_feeds:
  assumes "sha1_wf c" "\<forall>d \<in> set ds. length d < 2 ^ 64" "feed sha1_feed c ds = Some c'"
  shows "sha1_wf c' \<and> sha1_size c' = sha1_size c + of_nat (length (concat ds))"
  using assms
proof (induction ds arbitrary: c)
  case (Cons d ds)
  then obtain c1 where c1: "sha1_feed c d = Some c1" "feed sha1_feed c1 ds = Some c'"
    by (auto split: Option.bind_splits)
  moreover have "sha1_wf c1" using sha1_feed_absorbs [of c d] Cons.prems c1(1) by auto
  ultimately show ?case using Cons.IH [of c1] Cons.prems sha1_feed_size [of c d c1] by simp
qed simp

lemma sha1_pad_length:
  assumes "unat s = n"
  shows "unat (63 AND (55 - (s AND 63)) :: u64) = nat ((55 - int n) mod 64)"
proof -
  have "unat (63 AND (55 - (s AND 63))) = unat (55 - (s AND 63)) mod 64"
    by (subst and.commute) (rule unat_and_63)
  then have "int (unat (63 AND (55 - (s AND 63)))) = uint (55 - (s AND 63)) mod 64"
    by (simp add: zmod_int)
  also have "uint (55 - (s AND 63)) mod 64 = (55 - uint (s AND 63)) mod 2 ^ 64 mod 64"
    by (simp add: uint_word_ariths)
  also have "\<dots> = (55 - uint (s AND 63)) mod 64" by (simp add: mod_mod_cancel)
  also have "uint (s AND 63) = int (unat s mod 64)" using unat_and_63 [of s] by (metis uint_nat)
  also have "(55 - int (unat s mod 64)) mod 64 = (55 - int n) mod 64"
    unfolding assms by (simp add: zmod_int mod_diff_right_eq)
  finally show ?thesis by (metis nat_int)
qed

lemma sha1_final_eq:
  assumes "sha1_wf c"
    and "(sha1_H c, sha1_pending c) = absorb 64 fips180_compress (0x67452301, 0xefcdab89, 0x98badcfe, 0x10325476, 0xc3d2e1f0) m"
    and "sha1_size c = of_nat (length m)" "length m < 2 ^ 61"
  shows "\<exists>c'. fio_sha1_final c = Some (c', fips180_sha1 m)"
proof -
  let ?I = "(0x67452301, 0xefcdab89, 0x98badcfe, 0x10325476, 0xc3d2e1f0) :: sha1_state"
  let ?s = "sha1_size c"
  define k where "k = 1 + (63 AND (55 - (?s AND 63)))"
  define pl where "pl = htonl_bytes (ucast (drop_bit 29 ?s)) @ htonl_bytes (ucast (push_bit 3 ?s))"
  define zs where "zs = nat ((55 - int (length m)) mod 64)"
  have blk: "blk_SHA1Block = fips180_compress" by (intro ext) (rule blk_SHA1Block_eq)
  have "unat (63 AND (55 - (?s AND 63))) = zs"
    unfolding zs_def using assms(3,4) by (intro sha1_pad_length) (simp add: unat_of_nat)
  moreover have zs: "zs < 64" unfolding zs_def by (simp add: nat_less_iff)
  ultimately have k: "unat k = 1 + zs" unfolding k_def by (simp add: unat_word_ariths)
  have pad: "take (unat k) sha1_pad = 0x80 # replicate zs 0" using zs k by (simp add: sha1_pad_def)
  have "unat k \<le> length sha1_pad" using zs k by (simp add: sha1_pad_def)
  from sha1_update_absorbs [OF assms(1) this] obtain c1 where
    c1: "fio_sha1_update c sha1_pad k = Some c1" "sha1_wf c1"
    "(sha1_H c1, sha1_pending c1) = absorb 64 fips180_compress (sha1_H c) (sha1_pending c @ 0x80 # replicate zs 0)"
    unfolding pad blk by auto
  have pl: "length pl = 8" by (simp add: pl_def htonl_bytes_def)
  then have "unat (8 :: u64) \<le> length pl" "take (unat (8 :: u64)) pl = pl" by simp_all
  with sha1_update_absorbs [OF c1(2), of 8 pl] obtain c2 where
    c2: "fio_sha1_update c1 pl 8 = Some c2"
    "(sha1_H c2, sha1_pending c2) = absorb 64 fips180_compress (sha1_H c1) (sha1_pending c1 @ pl)"
    unfolding blk by auto
  have "push_bit 3 ?s = of_nat (8 * length m)" using assms(3) by (simp add: push_bit_eq_mult mult.commute)
  then have "pl = rev (le_bytes 8 (of_nat (8 * length m) :: u64))"
    unfolding pl_def padlen_bytes by (simp only:)
  then have "fips180_pad m = (m @ 0x80 # replicate zs 0) @ pl"
    unfolding fips180_pad_def zs_def by simp
  then have "absorb 64 fips180_compress ?I (fips180_pad m) = (sha1_H c2, sha1_pending c2)"
    using absorb_continue [OF _ absorb_continue [OF _ assms(2), of "0x80 # replicate zs 0", folded c1(3), symmetric], of pl] c2(2)
    by simp
  then have "fips180_sha1 m = (case sha1_H c2 of (h0, h1, h2, h3, h4) \<Rightarrow> concat (map htonl_bytes [h0, h1, h2, h3, h4]))"
    by (simp add: fips180_sha1_def)
  then show ?thesis using c1(1) c2(1)
    by (simp add: fio_sha1_final_def Let_def split: prod.splits flip: k_def pl_def)
qed

text \<open>
  C26: a SHA-1 context that was initialised, fed with pieces of any lengths and finalised, yields the
  digest that FIPS 180 defines for their concatenation.
\<close>

theorem sha1_of_pieces:
  assumes "length (sha1_W c) = 64" "length (concat ds) < 2 ^ 61"
  shows "\<exists>c1 c2. feed sha1_feed (fio_sha1_init c) ds = Some c1
    \<and> fio_sha1_final c1 = Some (c2, fips180_sha1 (concat ds))"
proof -
  let ?c = "fio_sha1_init c"
  have "length d \<le> length (concat ds)" if "d \<in> set ds" for d
    using that by (induction ds) auto
  then have ds: "\<forall>d \<in> set ds. length d < 2 ^ 64" using assms(2) by fastforce
  have c: "sha1_wf ?c" "sha1_pending ?c = []" "sha1_size ?c = 0"
    "sha1_H ?c = (0x67452301, 0xefcdab89, 0x98badcfe, 0x10325476, 0xc3d2e1f0)"
    using assms(1) by (simp_all add: sha1_wf_def sha1_pending_def fio_sha1_init_def)
  from sha1.digest_of_pieces [OF c(1,2) ds] obtain c1 where
    c1: "feed sha1_feed ?c ds = Some c1" "sha1_wf c1"
    "(sha1_H c1, sha1_pending c1) = absorb 64 blk_SHA1Block (sha1_H ?c) (concat ds)"
    by auto
  have "sha1_size c1 = of_nat (length (concat ds))" using sha1_feeds [OF c(1) ds c1(1)] c(3) by simp
  moreover have "blk_SHA1Block = fips180_compress" by (intro ext) (rule blk_SHA1Block_eq)
  ultimately have "\<exists>c2. fio_sha1_final c1 = Some (c2, fips180_sha1 (concat ds))"
    using sha1_final_eq [OF c1(2) _ _ assms(2)] c1(3) c(4) by simp
  then show ?thesis using c1(1) by blast
qed

theorem sha1_of_pieces_witness:
  "\<exists>c1 c2. feed sha1_feed (fio_sha1_init \<lparr>sha1_H = (0, 0, 0, 0, 0), sha1_W = replicate 64 0, sha1_size = 9\<rparr>) [[0x61], [0x62, 0x63]] = Some c1
    \<and> fio_sha1_final c1 = Some (c2, fips180_sha1 (concat [[0x61], [0x62, 0x63]]))"
  by (rule sha1_of_pieces) simp_all

end
