(* ===== verification/Sha2.thy ===== *)
theory Sha2
  imports Blockhash
begin

text \<open>
  \<^verbatim>\<open>crc/sha256.c\<close> and \<^verbatim>\<open>crc/sha512.c\<close>. The two files have the same code over
  words of 32 and of 64 bits, so the steps they share are stated once for words of any length. The lemmas
  show that the rounds with renamed registers are the rounds of FIPS 180 with rotated registers, and
  that both update functions fulfil the contract of a block hash.
\<close>

section \<open>Rounds\<close>

text \<open>The order in which a round names the registers, as \<open>a\<close> to \<open>h\<close> of the first round.\<close>

datatype sha2_order = ABCDEFGH | HABCDEFG | GHABCDEF | FGHABCDE | EFGHABCD | DEFGHABC | CDEFGHAB | BCDEFGHA

type_synonym 'w sha2_state = "'w \<times> 'w \<times> 'w \<times> 'w \<times> 'w \<times> 'w \<times> 'w \<times> 'w"

definition sha2_Ch :: "'a::len word \<Rightarrow> 'a word \<Rightarrow> 'a word \<Rightarrow> 'a word" where
  "sha2_Ch x y z = z XOR (x AND (y XOR z))"

definition sha2_Maj :: "'a::len word \<Rightarrow> 'a word \<Rightarrow> 'a word \<Rightarrow> 'a word" where
  "sha2_Maj x y z = (x AND y) OR (z AND (x OR y))"

text \<open>\<open>d += t1; h = t1 + t2;\<close> for registers named \<open>a\<close> to \<open>h\<close>; \<open>k\<close> and
  \<open>w\<close> are the constant and the word of the schedule.\<close>

definition sha2_t1 :: "('a::len word \<Rightarrow> 'a word) \<Rightarrow> 'a word \<Rightarrow> 'a word \<Rightarrow> 'a word \<Rightarrow> 'a word \<Rightarrow> 'a word \<Rightarrow> 'a word \<Rightarrow> 'a word" where
  "sha2_t1 e1 e f g h k w = h + e1 e + sha2_Ch e f g + k + w"

definition sha2_t2 :: "('a::len word \<Rightarrow> 'a word) \<Rightarrow> 'a word \<Rightarrow> 'a word \<Rightarrow> 'a word \<Rightarrow> 'a word" where
  "sha2_t2 e0 a b c = e0 a + sha2_Maj a b c"

fun sha2_round :: "('a::len word \<Rightarrow> 'a word) \<Rightarrow> ('a word \<Rightarrow> 'a word) \<Rightarrow> sha2_order \<Rightarrow> 'a word \<Rightarrow> 'a word
    \<Rightarrow> 'a word sha2_state \<Rightarrow> 'a word sha2_state" where
  "sha2_round e0 e1 ABCDEFGH k w (a, b, c, d, e, f, g, h) =
     (let t1 = sha2_t1 e1 e f g h k w; t2 = sha2_t2 e0 a b c in (a, b, c, d + t1, e, f, g, t1 + t2))"
| "sha2_round e0 e1 HABCDEFG k w (a, b, c, d, e, f, g, h) =
     (let t1 = sha2_t1 e1 d e f g k w; t2 = sha2_t2 e0 h a b in (a, b, c + t1, d, e, f, t1 + t2, h))"
| "sha2_round e0 e1 GHABCDEF k w (a, b, c, d, e, f, g, h) =
     (let t1 = sha2_t1 e1 c d e f k w; t2 = sha2_t2 e0 g h a in (a, b + t1, c, d, e, t1 + t2, g, h))"
| "sha2_round e0 e1 FGHABCDE k w (a, b, c, d, e, f, g, h) =
     (let t1 = sha2_t1 e1 b c d e k w; t2 = sha2_t2 e0 f g h in (a + t1, b, c, d, t1 + t2, f, g, h))"
| "sha2_round e0 e1 EFGHABCD k w (a, b, c, d, e, f, g, h) =
     (let t1 = sha2_t1 e1 a b c d k w; t2 = sha2_t2 e0 e f g in (a, b, c, t1 + t2, e, f, g, h + t1))"
| "sha2_round e0 e1 DEFGHABC k w (a, b, c, d, e, f, g, h) =
     (let t1 = sha2_t1 e1 h a b c k w; t2 = sha2_t2 e0 d e f in (a, b, t1 + t2, d, e, f, g + t1, h))"
| "sha2_round e0 e1 CDEFGHAB k w (a, b, c, d, e, f, g, h) =
     (let t1 = sha2_t1 e1 g h a b k w; t2 = sha2_t2 e0 c d e in (a, t1 + t2, c, d, e, f + t1, g, h))"
| "sha2_round e0 e1 BCDEFGHA k w (a, b, c, d, e, f, g, h) =
     (let t1 = sha2_t1 e1 f g h a k w; t2 = sha2_t2 e0 b c d in (t1 + t2, b, c, d, e + t1, f, g, h))"

fun sha2_add :: "'a::len word sha2_state \<Rightarrow> 'a word sha2_state \<Rightarrow> 'a word sha2_state" where
  "sha2_add (a, b, c, d, e, f, g, h) (a', b', c', d', e', f', g', h') =
     (a + a', b + b', c + c', d + d', e + e', f + f', g + g', h + h')"

definition sha2_BLEND_OP :: "('a::len word \<Rightarrow> 'a word) \<Rightarrow> ('a word \<Rightarrow> 'a word) \<Rightarrow> nat \<Rightarrow> 'a word list \<Rightarrow> 'a word list" where
  "sha2_BLEND_OP s0 s1 I W = W[I := s1 (W ! (I - 2)) + W ! (I - 7) + s0 (W ! (I - 15)) + W ! (I - 16)]"

section \<open>SHA-256\<close>

definition sha256_e0 :: "u32 \<Rightarrow> u32" where "sha256_e0 x = rotr 2 x XOR rotr 13 x XOR rotr 22 x"
definition sha256_e1 :: "u32 \<Rightarrow> u32" where "sha256_e1 x = rotr 6 x XOR rotr 11 x XOR rotr 25 x"
definition sha256_s0 :: "u32 \<Rightarrow> u32" where "sha256_s0 x = rotr 7 x XOR rotr 18 x XOR drop_bit 3 x"
definition sha256_s1 :: "u32 \<Rightarrow> u32" where "sha256_s1 x = rotr 17 x XOR rotr 19 x XOR drop_bit 10 x"

definition sha256_H :: "u32 sha2_state" where
  "sha256_H = (0x6a09e667, 0xbb67ae85, 0x3c6ef372, 0xa54ff53a, 0x510e527f, 0x9b05688c, 0x1f83d9ab, 0x5be0cd19)"

text \<open>One entry for each round of the source: the order, the constant and the word of the schedule.\<close>

definition sha256_rows :: "(sha2_order \<times> u32 \<times> nat) list" where
  "sha256_rows = [
     (ABCDEFGH, 0x428a2f98, 0), (HABCDEFG, 0x71374491, 1),
     (GHABCDEF, 0xb5c0fbcf, 2), (FGHABCDE, 0xe9b5dba5, 3),
     (EFGHABCD, 0x3956c25b, 4), (DEFGHABC, 0x59f111f1, 5),
     (CDEFGHAB, 0x923f82a4, 6), (BCDEFGHA, 0xab1c5ed5, 7),
     (ABCDEFGH, 0xd807aa98, 8), (HABCDEFG, 0x12835b01, 9),
     (GHABCDEF, 0x243185be, 10), (FGHABCDE, 0x550c7dc3, 11),
     (EFGHABCD, 0x72be5d74, 12), (DEFGHABC, 0x80deb1fe, 13),
     (CDEFGHAB, 0x9bdc06a7, 14), (BCDEFGHA, 0xc19bf174, 15),
     (ABCDEFGH, 0xe49b69c1, 16), (HABCDEFG, 0xefbe4786, 17),
     (GHABCDEF, 0x0fc19dc6, 18), (FGHABCDE, 0x240ca1cc, 19),
     (EFGHABCD, 0x2de92c6f, 20), (DEFGHABC, 0x4a7484aa, 21),
     (CDEFGHAB, 0x5cb0a9dc, 22), (BCDEFGHA, 0x76f988da, 23),
     (ABCDEFGH, 0x983e5152, 24), (HABCDEFG, 0xa831c66d, 25),
     (GHABCDEF, 0xb00327c8, 26), (FGHABCDE, 0xbf597fc7, 27),
     (EFGHABCD, 0xc6e00bf3, 28), (DEFGHABC, 0xd5a79147, 29),
     (CDEFGHAB, 0x06ca6351, 30), (BCDEFGHA, 0x14292967, 31),
     (ABCDEFGH, 0x27b70a85, 32), (HABCDEFG, 0x2e1b2138, 33),
     (GHABCDEF, 0x4d2c6dfc, 34), (FGHABCDE, 0x53380d13, 35),
     (EFGHABCD, 0x650a7354, 36), (DEFGHABC, 0x766a0abb, 37),
     (CDEFGHAB, 0x81c2c92e, 38), (BCDEFGHA, 0x92722c85, 39),
     (ABCDEFGH, 0xa2bfe8a1, 40), (HABCDEFG, 0xa81a664b, 41),
     (GHABCDEF, 0xc24b8b70, 42), (FGHABCDE, 0xc76c51a3, 43),
     (EFGHABCD, 0xd192e819, 44), (DEFGHABC, 0xd6990624, 45),
     (CDEFGHAB, 0xf40e3585, 46), (BCDEFGHA, 0x106aa070, 47),
     (ABCDEFGH, 0x19a4c116, 48), (HABCDEFG, 0x1e376c08, 49),
     (GHABCDEF, 0x2748774c, 50), (FGHABCDE, 0x34b0bcb5, 51),
     (EFGHABCD, 0x391c0cb3, 52), (DEFGHABC, 0x4ed8aa4a, 53),
     (CDEFGHAB, 0x5b9cca4f, 54), (BCDEFGHA, 0x682e6ff3, 55),
     (ABCDEFGH, 0x748f82ee, 56), (HABCDEFG, 0x78a5636f, 57),
     (GHABCDEF, 0x84c87814, 58), (FGHABCDE, 0x8cc70208, 59),
     (EFGHABCD, 0x90befffa, 60), (DEFGHABC, 0xa4506ceb, 61),
     (CDEFGHAB, 0xbef9a3f7, 62), (BCDEFGHA, 0xc67178f2, 63)]"

definition sha256_LOAD_OP :: "u8 list \<Rightarrow> nat \<Rightarrow> u32 list \<Rightarrow> u32 list" where
  "sha256_LOAD_OP input I W = W[I := be32 input I]"

text \<open>The schedule is not initialised; each of its words is stored before it is read.\<close>

definition sha256_schedule :: "u8 list \<Rightarrow> u32 list" where
  "sha256_schedule input =
     fold (sha2_BLEND_OP sha256_s0 sha256_s1) [16..<64]
       (fold (sha256_LOAD_OP input) [0..<16] (replicate 64 0))"

definition sha256_step :: "u32 list \<Rightarrow> sha2_order \<times> u32 \<times> nat \<Rightarrow> u32 sha2_state \<Rightarrow> u32 sha2_state" where
  "sha256_step W row = (case row of (r, k, i) \<Rightarrow> sha2_round sha256_e0 sha256_e1 r k (W ! i))"

definition sha256_transform :: "u32 sha2_state \<Rightarrow> u8 list \<Rightarrow> u32 sha2_state" where
  "sha256_transform state input =
     sha2_add state (fold (sha256_step (sha256_schedule input)) sha256_rows state)"

section \<open>SHA-512\<close>

definition sha512_e0 :: "u64 \<Rightarrow> u64" where "sha512_e0 x = rotr 28 x XOR rotr 34 x XOR rotr 39 x"
definition sha512_e1 :: "u64 \<Rightarrow> u64" where "sha512_e1 x = rotr 14 x XOR rotr 18 x XOR rotr 41 x"
definition sha512_s0 :: "u64 \<Rightarrow> u64" where "sha512_s0 x = rotr 1 x XOR rotr 8 x XOR drop_bit 7 x"
definition sha512_s1 :: "u64 \<Rightarrow> u64" where "sha512_s1 x = rotr 19 x XOR rotr 61 x XOR drop_bit 6 x"

definition sha512_H :: "u64 sha2_state" where
  "sha512_H = (0x6a09e667f3bcc908, 0xbb67ae8584caa73b, 0x3c6ef372fe94f82b, 0xa54ff53a5f1d36f1,
               0x510e527fade682d1, 0x9b05688c2b3e6c1f, 0x1f83d9abfb41bd6b, 0x5be0cd19137e2179)"

text \<open>The constants, with the high half of each before its low half.\<close>

definition sha512_K :: "u64 list" where
  "sha512_K = map (\<lambda>(hi, lo). push_bit 32 hi OR lo) [
     (0x428a2f98, 0xd728ae22), (0x71374491, 0x23ef65cd), (0xb5c0fbcf, 0xec4d3b2f),
     (0xe9b5dba5, 0x8189dbbc), (0x3956c25b, 0xf348b538), (0x59f111f1, 0xb605d019),
     (0x923f82a4, 0xaf194f9b), (0xab1c5ed5, 0xda6d8118), (0xd807aa98, 0xa3030242),
     (0x12835b01, 0x45706fbe), (0x243185be, 0x4ee4b28c), (0x550c7dc3, 0xd5ffb4e2),
     (0x72be5d74, 0xf27b896f), (0x80deb1fe, 0x3b1696b1), (0x9bdc06a7, 0x25c71235),
     (0xc19bf174, 0xcf692694), (0xe49b69c1, 0x9ef14ad2), (0xefbe4786, 0x384f25e3),
     (0x0fc19dc6, 0x8b8cd5b5), (0x240ca1cc, 0x77ac9c65), (0x2de92c6f, 0x592b0275),
     (0x4a7484aa, 0x6ea6e483), (0x5cb0a9dc, 0xbd41fbd4), (0x76f988da, 0x831153b5),
     (0x983e5152, 0xee66dfab), (0xa831c66d, 0x2db43210), (0xb00327c8, 0x98fb213f),
     (0xbf597fc7, 0xbeef0ee4), (0xc6e00bf3, 0x3da88fc2), (0xd5a79147, 0x930aa725),
     (0x06ca6351, 0xe003826f), (0x14292967, 0x0a0e6e70), (0x27b70a85, 0x46d22ffc),
     (0x2e1b2138, 0x5c26c926), (0x4d2c6dfc, 0x5ac42aed), (0x53380d13, 0x9d95b3df),
     (0x650a7354, 0x8baf63de), (0x766a0abb, 0x3c77b2a8), (0x81c2c92e, 0x47edaee6),
     (0x92722c85, 0x1482353b), (0xa2bfe8a1, 0x4cf10364), (0xa81a664b, 0xbc423001),
     (0xc24b8b70, 0xd0f89791), (0xc76c51a3, 0x0654be30), (0xd192e819, 0xd6ef5218),
     (0xd6990624, 0x5565a910), (0xf40e3585, 0x5771202a), (0x106aa070, 0x32bbd1b8),
     (0x19a4c116, 0xb8d2d0c8), (0x1e376c08, 0x5141ab53), (0x2748774c, 0xdf8eeb99),
     (0x34b0bcb5, 0xe19b48a8), (0x391c0cb3, 0xc5c95a63), (0x4ed8aa4a, 0xe3418acb),
     (0x5b9cca4f, 0x7763e373), (0x682e6ff3, 0xd6b2b8a3), (0x748f82ee, 0x5defb2fc),
     (0x78a5636f, 0x43172f60), (0x84c87814, 0xa1f0ab72), (0x8cc70208, 0x1a6439ec),
     (0x90befffa, 0x23631e28), (0xa4506ceb, 0xde82bde9), (0xbef9a3f7, 0xb2c67915),
     (0xc67178f2, 0xe372532b), (0xca273ece, 0xea26619c), (0xd186b8c7, 0x21c0c207),
     (0xeada7dd6, 0xcde0eb1e), (0xf57d4f7f, 0xee6ed178), (0x06f067aa, 0x72176fba),
     (0x0a637dc5, 0xa2c898a6), (0x113f9804, 0xbef90dae), (0x1b710b35, 0x131c471b),
     (0x28db77f5, 0x23047d84), (0x32caab7b, 0x40c72493), (0x3c9ebe0a, 0x15c9bebc),
     (0x431d67c4, 0x9c100d4c), (0x4cc5d4be, 0xcb3e42b6), (0x597f299c, 0xfc657e2a),
     (0x5fcb6fab, 0x3ad6faec), (0x6c44198c, 0x4a475817)]"

definition sha512_LOAD_OP :: "u8 list \<Rightarrow> nat \<Rightarrow> u64 list \<Rightarrow> u64 list" where
  "sha512_LOAD_OP input I W = W[I := be64 input I]"

definition sha512_schedule :: "u64 list \<Rightarrow> u8 list \<Rightarrow> u64 list" where
  "sha512_schedule W input =
     fold (sha2_BLEND_OP sha512_s0 sha512_s1) [16..<80] (fold (sha512_LOAD_OP input) [0..<16] W)"

text \<open>The eight rounds in the body of the loop, and the offset of each to the loop counter.\<close>

definition sha512_rows :: "(sha2_order \<times> nat) list" where
  "sha512_rows = [
     (ABCDEFGH, 0), (HABCDEFG, 1), (GHABCDEF, 2), (FGHABCDE, 3),
     (EFGHABCD, 4), (DEFGHABC, 5), (CDEFGHAB, 6), (BCDEFGHA, 7)]"

definition sha512_step :: "u64 list \<Rightarrow> nat \<Rightarrow> sha2_order \<times> nat \<Rightarrow> u64 sha2_state \<Rightarrow> u64 sha2_state" where
  "sha512_step W i row =
     (case row of (r, j) \<Rightarrow> sha2_round sha512_e0 sha512_e1 r (sha512_K ! (i + j)) (W ! (i + j)))"

definition sha512_body :: "u64 list \<Rightarrow> nat \<Rightarrow> u64 sha2_state \<Rightarrow> u64 sha2_state" where
  "sha512_body W i = fold (sha512_step W i) sha512_rows"

text \<open>The schedule is in the context, \<open>W\<close>.\<close>

definition sha512_transform :: "u64 sha2_state \<times> u64 list \<Rightarrow> u8 list \<Rightarrow> u64 sha2_state \<times> u64 list" where
  "sha512_transform sW input =
     (let (state, W) = sW; W = sha512_schedule W input
      in (sha2_add state (fold (sha512_body W) (map ((*) 8) [0..<10]) state), W))"

section \<open>Contexts and updates\<close>

text \<open>
  \<open>for (i = part_len; i + 63 < len; i += 64)\<close> on 32-bit counters, with the block size as a
  parameter. \<open>None\<close> is a read past the end of the data, or a loop that does not end.
\<close>

partial_function (option) sha2_blocks ::
    "u32 \<Rightarrow> ('h \<Rightarrow> u8 list \<Rightarrow> 'h) \<Rightarrow> u8 list \<Rightarrow> u32 \<Rightarrow> u32 \<Rightarrow> 'h \<Rightarrow> ('h \<times> u32) option" where
  "sha2_blocks B f data len i h =
     (if i + (B - 1) < len
      then do { b \<leftarrow> get_bytes data (unat i) (unat B); sha2_blocks B f data len (i + B) (f h b) }
      else Some (h, i))"

declare sha2_blocks.simps [code]

definition sha2_absorb :: "u32 \<Rightarrow> ('h \<Rightarrow> u8 list \<Rightarrow> 'h) \<Rightarrow> 'h \<Rightarrow> u8 list \<Rightarrow> u32 \<Rightarrow> u8 list \<Rightarrow> u32 \<Rightarrow> ('h \<times> u8 list) option" where
  "sha2_absorb B f h buf idx data len =
     (let part_len = B - idx
      in if part_len \<le> len
         then do {
           buf \<leftarrow> copy_bytes buf (unat idx) data (unat part_len);
           (h, i) \<leftarrow> sha2_blocks B f data len part_len (f h buf);
           buf \<leftarrow> copy_bytes buf 0 (drop (unat i) data) (unat (len - i));
           Some (h, buf) }
         else do {
           buf \<leftarrow> copy_bytes buf (unat idx) data (unat len);
           Some (h, buf) })"

record fio_sha256_ctx =
  sha256_count :: "u32 \<times> u32"
  sha256_state :: "u32 sha2_state"
  sha256_buf :: "u8 list"

definition fio_sha256_init :: "fio_sha256_ctx \<Rightarrow> fio_sha256_ctx" where
  "fio_sha256_init sctx = sctx\<lparr>sha256_state := sha256_H, sha256_count := (0, 0)\<rparr>"

definition fio_sha256_update :: "fio_sha256_ctx \<Rightarrow> u8 list \<Rightarrow> u32 \<Rightarrow> fio_sha256_ctx option" where
  "fio_sha256_update sctx data len =
     (let (c0, c1) = sha256_count sctx;
          idx = drop_bit 3 c0 AND 0x3f;
          c0 = c0 + push_bit 3 len;
          c1 = (if c0 < push_bit 3 len then c1 + 1 + drop_bit 29 len else c1)
      in do {
        (h, buf) \<leftarrow> sha2_absorb 64 sha256_transform (sha256_state sctx) (sha256_buf sctx) idx data len;
        Some (sctx\<lparr>sha256_count := (c0, c1), sha256_state := h, sha256_buf := buf\<rparr>) })"

record fio_sha512_ctx =
  sha512_state :: "u64 sha2_state"
  sha512_count :: "u32 \<times> u32 \<times> u32 \<times> u32"
  sha512_buf :: "u8 list"
  sha512_W :: "u64 list"

definition fio_sha512_init :: "fio_sha512_ctx \<Rightarrow> fio_sha512_ctx" where
  "fio_sha512_init sctx = sctx\<lparr>sha512_state := sha512_H, sha512_count := (0, 0, 0, 0)\<rparr>"

definition sha512_carry :: "u32 \<times> u32 \<times> u32 \<times> u32 \<Rightarrow> u32 \<Rightarrow> u32 \<times> u32 \<times> u32 \<times> u32" where
  "sha512_carry cs len =
     (let (c0, c1, c2, c3) = cs; c0 = c0 + push_bit 3 len
      in if c0 < push_bit 3 len
         then let c1 = c1 + 1;
                  (c2, c3) = (if c1 < 1 then let c2 = c2 + 1 in (c2, if c2 < 1 then c3 + 1 else c3) else (c2, c3))
              in (c0, c1 + drop_bit 29 len, c2, c3)
         else (c0, c1, c2, c3))"

definition fio_sha512_update :: "fio_sha512_ctx \<Rightarrow> u8 list \<Rightarrow> u32 \<Rightarrow> fio_sha512_ctx option" where
  "fio_sha512_update sctx data len =
     (let idx = drop_bit 3 (fst (sha512_count sctx)) AND 0x7f
      in do {
        ((h, W), buf) \<leftarrow> sha2_absorb 128 sha512_transform (sha512_state sctx, sha512_W sctx) (sha512_buf sctx) idx data len;
        Some (sctx\<lparr>sha512_count := sha512_carry (sha512_count sctx) len, sha512_state := h, sha512_buf := buf,
                   sha512_W := replicate 80 0\<rparr>) })"

section \<open>The rounds are those of FIPS 180\<close>

function fips_w :: "('a::len word \<Rightarrow> 'a word) \<Rightarrow> ('a word \<Rightarrow> 'a word) \<Rightarrow> (nat \<Rightarrow> 'a word) \<Rightarrow> nat \<Rightarrow> 'a word" where
  "fips_w s0 s1 M t =
     (if t < 16 then M t
      else s1 (fips_w s0 s1 M (t - 2)) + fips_w s0 s1 M (t - 7) + s0 (fips_w s0 s1 M (t - 15)) + fips_w s0 s1 M (t - 16))"
  by auto
termination by (relation "measure (\<lambda>(_, _, _, t). t)") auto

declare fips_w.simps [simp del]

fun fips_round :: "('a::len word \<Rightarrow> 'a word) \<Rightarrow> ('a word \<Rightarrow> 'a word) \<Rightarrow> 'a word \<Rightarrow> 'a word
    \<Rightarrow> 'a word sha2_state \<Rightarrow> 'a word sha2_state" where
  "fips_round e0 e1 k w (a, b, c, d, e, f, g, h) =
     (let t1 = h + e1 e + fips_ch e f g + k + w; t2 = e0 a + fips_maj a b c
      in (t1 + t2, a, b, c, d + t1, e, f, g))"

definition fips_compress :: "('a::len word \<Rightarrow> 'a word) \<Rightarrow> ('a word \<Rightarrow> 'a word) \<Rightarrow> (nat \<Rightarrow> 'a word) \<Rightarrow> (nat \<Rightarrow> 'a word) \<Rightarrow> nat
    \<Rightarrow> 'a word sha2_state \<Rightarrow> 'a word sha2_state" where
  "fips_compress e0 e1 K w n st = sha2_add st (fold (\<lambda>t. fips_round e0 e1 (K t) (w t)) [0..<n] st)"

definition fips_sha256 :: "u32 sha2_state \<Rightarrow> u8 list \<Rightarrow> u32 sha2_state" where
  "fips_sha256 st m =
     fips_compress sha256_e0 sha256_e1 (\<lambda>t. fst (snd (sha256_rows ! t))) (fips_w sha256_s0 sha256_s1 (be32 m)) 64 st"

definition fips_sha512 :: "u64 sha2_state \<Rightarrow> u8 list \<Rightarrow> u64 sha2_state" where
  "fips_sha512 st m =
     fips_compress sha512_e0 sha512_e1 (\<lambda>t. sha512_K ! t) (fips_w sha512_s0 sha512_s1 (be64 m)) 80 st"

text \<open>Registers.\<close>

fun sha2_view :: "sha2_order \<Rightarrow> 'w sha2_state \<Rightarrow> 'w sha2_state" where
  "sha2_view ABCDEFGH (a, b, c, d, e, f, g, h) = (a, b, c, d, e, f, g, h)"
| "sha2_view HABCDEFG (a, b, c, d, e, f, g, h) = (h, a, b, c, d, e, f, g)"
| "sha2_view GHABCDEF (a, b, c, d, e, f, g, h) = (g, h, a, b, c, d, e, f)"
| "sha2_view FGHABCDE (a, b, c, d, e, f, g, h) = (f, g, h, a, b, c, d, e)"
| "sha2_view EFGHABCD (a, b, c, d, e, f, g, h) = (e, f, g, h, a, b, c, d)"
| "sha2_view DEFGHABC (a, b, c, d, e, f, g, h) = (d, e, f, g, h, a, b, c)"
| "sha2_view CDEFGHAB (a, b, c, d, e, f, g, h) = (c, d, e, f, g, h, a, b)"
| "sha2_view BCDEFGHA (a, b, c, d, e, f, g, h) = (b, c, d, e, f, g, h, a)"

fun sha2_next :: "sha2_order \<Rightarrow> sha2_order" where
  "sha2_next ABCDEFGH = HABCDEFG"
| "sha2_next HABCDEFG = GHABCDEF"
| "sha2_next GHABCDEF = FGHABCDE"
| "sha2_next FGHABCDE = EFGHABCD"
| "sha2_next EFGHABCD = DEFGHABC"
| "sha2_next DEFGHABC = CDEFGHAB"
| "sha2_next CDEFGHAB = BCDEFGHA"
| "sha2_next BCDEFGHA = ABCDEFGH"

definition sha2_order_at :: "nat \<Rightarrow> sha2_order" where
  "sha2_order_at t = (sha2_next ^^ (t mod 8)) ABCDEFGH"

lemma sha2_order_Suc: "sha2_order_at (Suc t) = sha2_next (sha2_order_at t)"
proof -
  have 7: "(sha2_next ^^ 7) ABCDEFGH = BCDEFGHA" by code_simp
  show ?thesis
  proof (cases "t mod 8 = 7")
    case True
    then show ?thesis using 7 by (simp add: sha2_order_at_def mod_Suc)
  qed (simp add: sha2_order_at_def mod_Suc)
qed

lemma sha2_state_cases:
  obtains a b c d e f g h where "(st :: 'w sha2_state) = (a, b, c, d, e, f, g, h)"
  by (metis surj_pair)

lemma sha2_round_view:
  "sha2_view (sha2_next r) (sha2_round e0 e1 r k w st) = fips_round e0 e1 k w (sha2_view r st)"
proof -
  obtain a b c d e f g h where st: "st = (a, b, c, d, e, f, g, h)" by (rule sha2_state_cases)
  show ?thesis unfolding st
    by (cases r) (simp_all add: Let_def sha2_t1_def sha2_t2_def sha2_Ch_def sha2_Maj_def ch_forms maj_forms)
qed

lemma sha2_rounds:
  assumes "\<And>t. t < n \<Longrightarrow> step (rows ! t) = sha2_round e0 e1 (sha2_order_at t) (K t) (w t)" "n \<le> length rows"
  shows "sha2_view (sha2_order_at n) (fold step (take n rows) st) = fold (\<lambda>t. fips_round e0 e1 (K t) (w t)) [0..<n] st"
  using assms
proof (induction n)
  case 0
  then show ?case by (cases st rule: sha2_state_cases) (simp add: sha2_order_at_def)
next
  case (Suc n)
  then have "n < length rows" by simp
  then show ?case using Suc
    by (simp add: take_Suc_conv_app_nth sha2_order_Suc sha2_round_view)
qed

lemma sha2_view_ABCDEFGH [simp]: "sha2_view ABCDEFGH st = st"
  by (cases st rule: sha2_state_cases) simp

text \<open>The schedule.\<close>

lemma fold_length: "(\<And>I V. length (f I V) = length V) \<Longrightarrow> length (fold f xs V) = length V"
  by (induction xs arbitrary: V) simp_all

lemma schedule_load:
  assumes "length W0 = n" "16 \<le> n" "j \<le> 16"
  shows "length (fold (\<lambda>I W. W[I := M I]) [0..<j] W0) = n
    \<and> (\<forall>t < j. fold (\<lambda>I W. W[I := M I]) [0..<j] W0 ! t = M t)"
  using assms by (induction j) (auto simp: nth_list_update less_Suc_eq)

lemma schedule_blend:
  assumes "length W0 = n" "\<And>t. t < 16 \<Longrightarrow> W0 ! t = M t" "16 \<le> j" "j \<le> n"
  shows "length (fold (sha2_BLEND_OP s0 s1) [16..<j] W0) = n
    \<and> (\<forall>t < j. fold (sha2_BLEND_OP s0 s1) [16..<j] W0 ! t = fips_w s0 s1 M t)"
  using assms(3,4)
proof (induction j rule: dec_induct)
  case base
  then show ?case using assms(1,2) by (simp add: fips_w.simps)
next
  case (step j)
  let ?W = "fold (sha2_BLEND_OP s0 s1) [16..<j] W0"
  have IH: "length ?W = n" "\<And>t. t < j \<Longrightarrow> ?W ! t = fips_w s0 s1 M t" using step by auto
  have "fold (sha2_BLEND_OP s0 s1) [16..<Suc j] W0 = ?W[j := fips_w s0 s1 M j]"
    using step.hyps IH by (simp add: sha2_BLEND_OP_def fips_w.simps [of s0 s1 M j])
  then show ?case using IH step.prems by (auto simp: nth_list_update less_Suc_eq)
qed

lemma schedule_eq:
  assumes "length W0 = n" "16 \<le> n" "\<And>I W. load I W = W[I := M I]" "t < n"
  shows "fold (sha2_BLEND_OP s0 s1) [16..<n] (fold load [0..<16] W0) ! t = fips_w s0 s1 M t"
proof -
  have "load = (\<lambda>I W. W[I := M I])" by (intro ext) (rule assms(3))
  then show ?thesis
    using schedule_load [OF assms(1,2), of 16 M] schedule_blend [of _ n M n s0 s1] assms(2,4) by simp
qed

definition sha256_row_at :: "nat \<Rightarrow> bool" where
  "sha256_row_at t \<longleftrightarrow> fst (sha256_rows ! t) = sha2_order_at t \<and> snd (snd (sha256_rows ! t)) = t"

lemma sha256_rows_at: "list_all sha256_row_at [0..<64]"
  by code_simp

lemma sha512_rows_eq: "sha512_rows = map (\<lambda>j. (sha2_order_at j, j)) [0..<8]"
  by code_simp

lemma sha256_transform_eq: "sha256_transform st m = fips_sha256 st m"
proof -
  let ?K = "\<lambda>t. fst (snd (sha256_rows ! t))" and ?w = "fips_w sha256_s0 sha256_s1 (be32 m)"
  have len: "length sha256_rows = 64" by (simp add: sha256_rows_def)
  have w: "sha256_schedule m ! t = ?w t" if "t < 64" for t
    unfolding sha256_schedule_def
    by (rule schedule_eq) (use that in \<open>simp_all add: sha256_LOAD_OP_def\<close>)
  have row: "sha256_step (sha256_schedule m) (sha256_rows ! t)
      = sha2_round sha256_e0 sha256_e1 (sha2_order_at t) (?K t) (?w t)" if "t < 64" for t
  proof -
    have "fst (sha256_rows ! t) = sha2_order_at t" "snd (snd (sha256_rows ! t)) = t"
      using sha256_rows_at that by (simp_all add: list_all_iff sha256_row_at_def)
    then show ?thesis by (simp add: sha256_step_def prod.case_eq_if w [OF that])
  qed
  have "sha2_order_at 64 = ABCDEFGH" by (simp add: sha2_order_at_def)
  then have "fold (sha256_step (sha256_schedule m)) (take 64 sha256_rows) st
      = fold (\<lambda>t. fips_round sha256_e0 sha256_e1 (?K t) (?w t)) [0..<64] st"
    using sha2_rounds [of 64 "sha256_step (sha256_schedule m)" sha256_rows sha256_e0 sha256_e1 ?K ?w st] row len by simp
  then show ?thesis
    unfolding sha256_transform_def fips_sha256_def fips_compress_def using len by simp
qed

lemma sha512_body_eq:
  assumes "\<And>t. t < i + 8 \<Longrightarrow> W ! t = w t"
  shows "sha512_body W i st = fold (\<lambda>t. fips_round sha512_e0 sha512_e1 (sha512_K ! t) (w t)) [i..<i + 8] st"
proof -
  have row: "sha512_step W i (sha512_rows ! t)
      = sha2_round sha512_e0 sha512_e1 (sha2_order_at t) (sha512_K ! (i + t)) (w (i + t))" if "t < 8" for t
    using that assms by (simp add: sha512_rows_eq sha512_step_def)
  have "length sha512_rows = 8" "sha2_order_at 8 = ABCDEFGH" by (simp_all add: sha512_rows_eq sha2_order_at_def)
  then have "fold (sha512_step W i) (take 8 sha512_rows) st
      = fold (\<lambda>t. fips_round sha512_e0 sha512_e1 (sha512_K ! (i + t)) (w (i + t))) [0..<8] st"
    using sha2_rounds [of 8 "sha512_step W i" sha512_rows sha512_e0 sha512_e1 "\<lambda>t. sha512_K ! (i + t)" "\<lambda>t. w (i + t)" st] row
    by simp
  also have "\<dots> = fold (\<lambda>t. fips_round sha512_e0 sha512_e1 (sha512_K ! t) (w t)) (map ((+) i) [0..<8]) st"
    by (simp add: fold_map comp_def)
  also have "map ((+) i) [0..<8] = [i..<i + 8]" by (rule nth_equalityI) simp_all
  finally show ?thesis using \<open>length sha512_rows = 8\<close> by (simp add: sha512_body_def)
qed

lemma sha512_bodies_eq:
  assumes "\<And>t. t < 8 * n \<Longrightarrow> W ! t = w t"
  shows "fold (sha512_body W) (map ((*) 8) [0..<n]) st
    = fold (\<lambda>t. fips_round sha512_e0 sha512_e1 (sha512_K ! t) (w t)) [0..<8 * n] st"
  using assms
proof (induction n)
  case (Suc n)
  have "[0..<8 * Suc n] = [0..<8 * n] @ [8 * n..<8 * n + 8]"
    by (metis add.commute mult_Suc_right upt_add_eq_append zero_le)
  then show ?case using Suc sha512_body_eq [of "8 * n" W w] by simp
qed simp

lemma sha512_transform_eq:
  assumes "length W = 80"
  shows "fst (sha512_transform (st, W) m) = fips_sha512 st m \<and> length (snd (sha512_transform (st, W) m)) = 80"
proof -
  let ?w = "fips_w sha512_s0 sha512_s1 (be64 m)"
  have w: "sha512_schedule W m ! t = ?w t" if "t < 80" for t
    unfolding sha512_schedule_def
    by (rule schedule_eq [OF assms]) (use that in \<open>simp_all add: sha512_LOAD_OP_def\<close>)
  have "length (sha512_schedule W m) = 80"
    unfolding sha512_schedule_def
    by (subst fold_length, simp add: sha2_BLEND_OP_def)
      (subst fold_length, simp_all only: sha512_LOAD_OP_def length_list_update assms)
  moreover have 80: "8 * 10 = (80 :: nat)" by simp
  have "fold (sha512_body (sha512_schedule W m)) (map ((*) 8) [0..<10]) st
      = fold (\<lambda>t. fips_round sha512_e0 sha512_e1 (sha512_K ! t) (?w t)) [0..<80] st"
    using sha512_bodies_eq [of 10 "sha512_schedule W m" ?w st, unfolded 80] w by blast
  ultimately show ?thesis
    unfolding sha512_transform_def fips_sha512_def fips_compress_def Let_def prod.case fst_conv snd_conv by (simp only:)
qed

section \<open>The contract of a block hash\<close>

lemma sha2_blocks_eq:
  assumes "0 < B" "unat len + unat B < 2 ^ 32" "unat len \<le> length data" "unat i \<le> unat len"
  shows "\<exists>h' i'. sha2_blocks B f data len i h = Some (h', i') \<and> unat i' \<le> unat len \<and> unat len - unat i' < unat B
    \<and> absorb (unat B) f h (drop (unat i) (take (unat len) data)) = (h', drop (unat i') (take (unat len) data))"
  using assms(4)
proof (induction "unat len - unat i" arbitrary: i h rule: less_induct)
  case less
  have B: "0 < unat B" using assms(1) by (simp add: word_less_nat_alt)
  have B1: "unat (B - 1) = unat B - 1" using assms(1) by (simp add: unat_minus_one word_gt_0)
  have "unat (i + (B - 1)) = unat i + (unat B - 1)"
    using less.prems assms(2) B B1 by (subst unat_add_lem [THEN iffD1]) simp_all
  then have c: "i + (B - 1) < len \<longleftrightarrow> unat i + unat B \<le> unat len" using B by (auto simp: word_less_nat_alt)
  show ?case
  proof (cases "unat i + unat B \<le> unat len")
    case True
    have iB: "unat (i + B) = unat i + unat B"
      using True assms(2) by (subst unat_add_lem [THEN iffD1]) simp_all
    have smaller: "unat len - unat (i + B) < unat len - unat i" using True iB B by simp
    let ?b = "take (unat B) (drop (unat i) data)" and ?xs = "drop (unat i) (take (unat len) data)"
    have b: "get_bytes data (unat i) (unat B) = Some ?b" using True assms(3) by (simp add: get_bytes_def)
    have xs: "unat B \<le> length ?xs" "take (unat B) ?xs = ?b" "drop (unat B) ?xs = drop (unat (i + B)) (take (unat len) data)"
      using True assms(3) iB by (simp_all add: drop_take add.commute)
    obtain h' i' where s: "sha2_blocks B f data len (i + B) (f h ?b) = Some (h', i')" "unat i' \<le> unat len"
      "unat len - unat i' < unat B"
      "absorb (unat B) f (f h ?b) (drop (unat (i + B)) (take (unat len) data)) = (h', drop (unat i') (take (unat len) data))"
      using less.hyps [OF smaller, of "f h ?b"] True iB by auto
    then show ?thesis
      using absorb_step [OF B xs(1), of f h] xs(2,3) b True c by (subst sha2_blocks.simps) simp
  next
    case False
    then have "length (drop (unat i) (take (unat len) data)) < unat B" using assms(3) less.prems by simp
    then show ?thesis using False c less.prems by (subst sha2_blocks.simps) simp
  qed
qed

lemma sha2_absorb_eq:
  assumes "idx < B" "length buf = unat B" "unat len + unat B < 2 ^ 32" "unat len \<le> length data"
  shows "\<exists>h' buf'. sha2_absorb B f h buf idx data len = Some (h', buf') \<and> length buf' = unat B
    \<and> absorb (unat B) f h (take (unat idx) buf @ take (unat len) data)
      = (h', take ((unat idx + unat len) mod unat B) buf')"
proof -
  have B: "0 < B" "0 < unat B" and n: "unat idx < unat B" using assms(1) by (auto simp: word_less_nat_alt)
  have pl: "unat (B - idx) = unat B - unat idx" using n by (simp add: unat_sub word_le_nat_alt)
  show ?thesis
  proof (cases "B - idx \<le> len")
    case False
    then have "unat idx + unat len < unat B" using pl n by (simp add: word_le_nat_alt)
    then show ?thesis using False assms(2,4)
      by (simp add: sha2_absorb_def Let_def copy_bytes_eq)
  next
    case True
    then have ge: "unat B - unat idx \<le> unat len" using pl by (simp add: word_le_nat_alt)
    let ?b = "take (unat idx) buf @ take (unat B - unat idx) data"
    have b: "copy_bytes buf (unat idx) data (unat B - unat idx) = Some ?b" "length ?b = unat B"
      using ge n assms(2,4) by (simp_all add: copy_bytes_eq)
    have "unat (B - idx) \<le> unat len" using ge pl by simp
    from sha2_blocks_eq [OF B(1) assms(3,4) this, of f "f h ?b"] obtain h' i where
      i: "sha2_blocks B f data len (B - idx) (f h ?b) = Some (h', i)" "unat i \<le> unat len" "unat len - unat i < unat B"
      "absorb (unat B) f (f h ?b) (drop (unat B - unat idx) (take (unat len) data)) = (h', drop (unat i) (take (unat len) data))"
      by (auto simp: pl)
    let ?r = "drop (unat i) (take (unat len) data)"
    have li: "unat (len - i) = unat len - unat i" using i(2) by (simp add: unat_sub word_le_nat_alt)
    have c: "copy_bytes ?b 0 (drop (unat i) data) (unat (len - i)) = Some (?r @ drop (unat len - unat i) ?b)"
      using i(2,3) assms(4) b(2) unfolding li by (subst copy_bytes_eq) (simp_all add: drop_take)
    have "take (unat idx) buf @ take (unat len) data = ?b @ drop (unat B - unat idx) (take (unat len) data)"
    proof -
      have "take (unat len) data = take (unat B - unat idx) (take (unat len) data) @ drop (unat B - unat idx) (take (unat len) data)"
        by (simp only: append_take_drop_id)
      also have "take (unat B - unat idx) (take (unat len) data) = take (unat B - unat idx) data"
        using ge by (simp add: min_def)
      finally show ?thesis by simp
    qed
    then have a: "absorb (unat B) f h (take (unat idx) buf @ take (unat len) data) = (h', ?r)"
      using absorb_block [OF B(2) b(2), of f h] i(4) by (simp only:)
    then have "length ?r = (unat idx + unat len) mod unat B"
      using absorb_rest [OF B(2), of f h "take (unat idx) buf @ take (unat len) data"] n assms(2,4) by simp
    then have "absorb (unat B) f h (take (unat idx) buf @ take (unat len) data)
        = (h', take ((unat idx + unat len) mod unat B) (?r @ drop (unat len - unat i) ?b))"
      by (simp only: a take_front)
    moreover have "sha2_absorb B f h buf idx data len = Some (h', ?r @ drop (unat len - unat i) ?b)"
      unfolding sha2_absorb_def Let_def pl using True b(1) i(1) c by simp
    moreover have "length (?r @ drop (unat len - unat i) ?b) = unat B"
      using copy_bytes_length [OF c] b(2) by (simp only:)
    ultimately show ?thesis by blast
  qed
qed

text \<open>What a fresh context leaves in its buffer: the bytes after the last full block, and behind them
  what the first block had there.\<close>

definition sha2_leftover :: "nat \<Rightarrow> u8 list \<Rightarrow> u8 list" where
  "sha2_leftover B d =
     (let r = drop (length d - length d mod B) d in r @ drop (length r) (take B d))"

lemma sha2_absorb_fresh:
  assumes "0 < B" "length buf = unat B" "length data + unat B < 2 ^ 32" "unat len = length data" "unat B \<le> length data"
  shows "\<exists>h'. sha2_absorb B f h buf 0 data len = Some (h', sha2_leftover (unat B) data)"
proof -
  have B: "0 < unat B" using assms(1) by (simp add: word_less_nat_alt)
  let ?b = "take (unat B) data"
  have b: "copy_bytes buf 0 data (unat B) = Some ?b" "length ?b = unat B"
    using assms(2,5) by (simp_all add: copy_bytes_eq)
  have "unat len + unat B < 2 ^ 32" "unat len \<le> length data" "unat B \<le> unat len" using assms(3-5) by simp_all
  from sha2_blocks_eq [OF assms(1) this, of f "f h ?b"] obtain h' i where
    i: "sha2_blocks B f data len B (f h ?b) = Some (h', i)" "unat i \<le> unat len" "unat len - unat i < unat B"
    "absorb (unat B) f (f h ?b) (drop (unat B) (take (unat len) data)) = (h', drop (unat i) (take (unat len) data))"
    by blast
  let ?r = "drop (unat i) data"
  have "length ?r = (length data - unat B) mod unat B"
    using absorb_rest [OF B, of f "f h ?b" "drop (unat B) data"] i(4) assms(4) by simp
  also have "\<dots> = length data mod unat B" using assms(5) by (simp add: le_mod_geq)
  finally have ui: "unat i = length data - length data mod unat B" using i(2) assms(4) by simp
  have li: "unat (len - i) = length ?r" using i(2) assms(4) by (simp add: unat_sub word_le_nat_alt)
  have "length ?r \<le> length ?b" using i(3) assms(4) b(2) by simp
  then have "copy_bytes ?b 0 ?r (unat (len - i)) = Some (?r @ drop (length ?r) ?b)"
    unfolding li by (subst copy_bytes_eq) simp_all
  moreover have "B \<le> len" using assms(4,5) by (simp add: word_le_nat_alt)
  ultimately have "sha2_absorb B f h buf 0 data len = Some (h', ?r @ drop (length ?r) ?b)"
    unfolding sha2_absorb_def Let_def using b(1) i(1) by simp
  then show ?thesis unfolding sha2_leftover_def Let_def ui by blast
qed

text \<open>The low counter counts bits; \<open>idx\<close> is read from it.\<close>

lemma sha2_count:
  assumes "unat c mod 8 = 0" "n dvd 2 ^ 29"
  shows "unat (c + push_bit 3 len :: u32) mod 8 = 0
    \<and> unat (c + push_bit 3 len) div 8 mod n = (unat c div 8 mod n + unat len) mod n"
proof -
  define q where "q = unat c div 8"
  have c: "unat c = 8 * q" using assms(1) unfolding q_def by presburger
  have "unat (c + push_bit 3 len) = (8 * q + 8 * unat len mod 2 ^ 32) mod 2 ^ 32"
    by (simp add: unat_word_ariths push_bit_eq_mult c mult.commute)
  also have "\<dots> = (8 * (q + unat len)) mod (8 * 2 ^ 29)" by (simp add: mod_add_right_eq distrib_left)
  also have "\<dots> = 8 * ((q + unat len) mod 2 ^ 29)" by (simp only: mult_mod_right)
  finally have "unat (c + push_bit 3 len) = 8 * ((q + unat len) mod 2 ^ 29)" .
  then show ?thesis unfolding c using assms(2) by (simp add: mod_mod_cancel mod_add_left_eq)
qed

lemma sha2_idx: "unat (drop_bit 3 c AND mask k :: u32) = unat c div 8 mod 2 ^ k"
proof -
  have "unat (drop_bit 3 c) = drop_bit 3 (unat c)" by (rule unat_drop_bit_eq)
  also have "\<dots> = unat c div 8" by (simp only: drop_bit_eq_div) simp
  finally have "unat (drop_bit 3 c) = unat c div 8" .
  then show ?thesis by (simp only: unat_and_mask_less)
qed

lemma masks: "(0x3f :: u32) = mask 6" "(0x7f :: u32) = mask 7"
  by (simp_all add: mask_eq_exp_minus_1)

definition sha256_pending :: "fio_sha256_ctx \<Rightarrow> u8 list" where
  "sha256_pending c = take (unat (fst (sha256_count c)) div 8 mod 64) (sha256_buf c)"

definition sha256_wf :: "fio_sha256_ctx \<Rightarrow> bool" where
  "sha256_wf c \<longleftrightarrow> length (sha256_buf c) = 64 \<and> unat (fst (sha256_count c)) mod 8 = 0"

definition sha256_feed :: "fio_sha256_ctx \<Rightarrow> u8 list \<Rightarrow> fio_sha256_ctx option" where
  "sha256_feed c d = fio_sha256_update c d (of_nat (length d))"

lemma sha256_update_absorbs:
  assumes "sha256_wf c" "length d < 2 ^ 32 - 64"
  shows "\<exists>c'. sha256_feed c d = Some c' \<and> sha256_wf c'
    \<and> (sha256_state c', sha256_pending c') = absorb 64 sha256_transform (sha256_state c) (sha256_pending c @ d)"
proof -
  obtain c0 c1 where cs: "sha256_count c = (c0, c1)" by (cases "sha256_count c")
  let ?len = "of_nat (length d) :: u32" and ?idx = "drop_bit 3 c0 AND 0x3f :: u32"
  have len: "unat ?len = length d" using assms(2) by (simp add: unat_of_nat)
  have idx: "unat ?idx = unat c0 div 8 mod 64" using sha2_idx [of c0 6] by (simp add: masks)
  then have i: "?idx < 64" by (simp add: word_less_nat_alt)
  have b: "length (sha256_buf c) = unat (64 :: u32)" using assms(1) by (simp add: sha256_wf_def)
  have unat64: "unat (64 :: u32) = 64" by simp
  have l: "unat ?len + unat (64 :: u32) < 2 ^ 32" "unat ?len \<le> length d" using assms(2) len by simp_all
  from sha2_absorb_eq [OF i b l, of sha256_transform "sha256_state c"] obtain h' b' where
    a: "sha2_absorb 64 sha256_transform (sha256_state c) (sha256_buf c) ?idx d ?len = Some (h', b')"
    "length b' = unat (64 :: u32)"
    "absorb (unat (64 :: u32)) sha256_transform (sha256_state c) (take (unat ?idx) (sha256_buf c) @ take (unat ?len) d)
      = (h', take ((unat ?idx + unat ?len) mod unat (64 :: u32)) b')"
    by blast
  have "unat c0 mod 8 = 0" using assms(1) by (simp add: sha256_wf_def cs)
  then have "unat (c0 + push_bit 3 ?len) mod 8 = 0"
    "unat (c0 + push_bit 3 ?len) div 8 mod 64 = (unat c0 div 8 mod 64 + unat ?len) mod 64"
    using sha2_count [of c0 64 ?len] by simp_all
  then have "sha256_wf (c\<lparr>sha256_count := (c0 + push_bit 3 ?len, c1'), sha256_state := h', sha256_buf := b'\<rparr>)"
    "sha256_pending (c\<lparr>sha256_count := (c0 + push_bit 3 ?len, c1'), sha256_state := h', sha256_buf := b'\<rparr>)
      = take ((unat c0 div 8 mod 64 + length d) mod 64) b'" for c1'
    using a(2) by (simp_all add: sha256_wf_def sha256_pending_def len)
  moreover have "sha256_pending c = take (unat c0 div 8 mod 64) (sha256_buf c)"
    by (simp add: sha256_pending_def cs)
  moreover note a(1) a(3) [unfolded idx len unat64 take_all [OF order_refl]]
  ultimately show ?thesis
    unfolding sha256_feed_def fio_sha256_update_def Let_def cs prod.case by simp
qed

interpretation sha256: block_hash 64 sha256_transform sha256_state sha256_pending sha256_wf sha256_feed "2 ^ 32 - 64"
  by unfold_locales (simp, rule sha256_update_absorbs)

definition sha512_pending :: "fio_sha512_ctx \<Rightarrow> u8 list" where
  "sha512_pending c = take (unat (fst (sha512_count c)) div 8 mod 128) (sha512_buf c)"

definition sha512_wf :: "fio_sha512_ctx \<Rightarrow> bool" where
  "sha512_wf c \<longleftrightarrow> length (sha512_buf c) = 128 \<and> length (sha512_W c) = 80 \<and> unat (fst (sha512_count c)) mod 8 = 0"

definition sha512_feed :: "fio_sha512_ctx \<Rightarrow> u8 list \<Rightarrow> fio_sha512_ctx option" where
  "sha512_feed c d = fio_sha512_update c d (of_nat (length d))"

lemma sha512_carry_fst: "fst (sha512_carry cs len) = fst cs + push_bit 3 len"
  by (simp add: sha512_carry_def Let_def split: prod.splits)

lemma sha512_update_absorbs:
  assumes "sha512_wf c" "length d < 2 ^ 32 - 128"
  shows "\<exists>c'. sha512_feed c d = Some c' \<and> sha512_wf c'
    \<and> (sha512_state c', sha512_pending c') = absorb 128 fips_sha512 (sha512_state c) (sha512_pending c @ d)"
proof -
  let ?c0 = "fst (sha512_count c)" and ?st = "(sha512_state c, sha512_W c)"
  let ?len = "of_nat (length d) :: u32" and ?idx = "drop_bit 3 ?c0 AND 0x7f :: u32"
  have len: "unat ?len = length d" using assms(2) by (simp add: unat_of_nat)
  have idx: "unat ?idx = unat ?c0 div 8 mod 128" using sha2_idx [of ?c0 7] by (simp add: masks)
  then have i: "?idx < 128" by (simp add: word_less_nat_alt)
  have b: "length (sha512_buf c) = unat (128 :: u32)" using assms(1) by (simp add: sha512_wf_def)
  have l: "unat ?len + unat (128 :: u32) < 2 ^ 32" "unat ?len \<le> length d" using assms(2) len by simp_all
  from sha2_absorb_eq [OF i b l, of sha512_transform ?st] obtain h' b' where
    a: "sha2_absorb 128 sha512_transform ?st (sha512_buf c) ?idx d ?len = Some (h', b')"
    "length b' = unat (128 :: u32)"
    "absorb (unat (128 :: u32)) sha512_transform ?st (take (unat ?idx) (sha512_buf c) @ take (unat ?len) d)
      = (h', take ((unat ?idx + unat ?len) mod unat (128 :: u32)) b')"
    by blast
  have "absorb 128 fips_sha512 (fst ?st) xs = map_prod fst id (absorb 128 sha512_transform ?st xs)" for xs
  proof (rule absorb_part [where P = "\<lambda>sW. length (snd sW) = 80", THEN conjunct2])
    fix h :: "u64 sha2_state \<times> u64 list" and b
    assume "length (snd h) = 80"
    then show "length (snd (sha512_transform h b)) = 80 \<and> fst (sha512_transform h b) = fips_sha512 (fst h) b"
      using sha512_transform_eq [of "snd h" "fst h" b] by simp
  qed (use assms(1) in \<open>simp add: sha512_wf_def\<close>)
  then have f: "absorb 128 fips_sha512 (sha512_state c) (sha512_pending c @ d)
      = (fst h', take ((unat ?idx + unat ?len) mod 128) b')"
    using a(3) by (simp add: sha512_pending_def idx len)
  have "unat ?c0 mod 8 = 0" using assms(1) by (simp add: sha512_wf_def)
  then have "unat (?c0 + push_bit 3 ?len) mod 8 = 0"
    "unat (?c0 + push_bit 3 ?len) div 8 mod 128 = (unat ?c0 div 8 mod 128 + unat ?len) mod 128"
    using sha2_count [of ?c0 128 ?len] by simp_all
  moreover define c' where "c' = c\<lparr>sha512_count := sha512_carry (sha512_count c) ?len, sha512_state := fst h',
    sha512_buf := b', sha512_W := replicate 80 0\<rparr>"
  ultimately have "sha512_wf c'" "sha512_pending c' = take ((unat ?c0 div 8 mod 128 + length d) mod 128) b'"
    using a(2) by (simp_all add: sha512_wf_def sha512_pending_def sha512_carry_fst len)
  moreover have "sha512_feed c d = Some c'"
    unfolding sha512_feed_def fio_sha512_update_def Let_def using a(1) by (simp add: c'_def split: prod.splits)
  moreover have "sha512_state c' = fst h'" by (simp add: c'_def)
  ultimately show ?thesis using f unfolding idx len by auto
qed

interpretation sha512: block_hash 128 fips_sha512 sha512_state sha512_pending sha512_wf sha512_feed "2 ^ 32 - 128"
  by unfold_locales (simp, rule sha512_update_absorbs)



end
