(* ===== verification/Xxhash.thy ===== *)
theory Xxhash
  imports Blockhash
begin

text \<open>
  \<^verbatim>\<open>crc/xxhash.c\<close>: the checksum of the \<open>xxhash\<close> verify header. The code has the
  hash twice: \<open>XXH32_endian_align\<close> hashes a buffer, \<open>XXH32_update_endian\<close> and
  \<open>XXH32_intermediateDigest_endian\<close> hash a stream. The lemmas show that they agree.
\<close>

section \<open>Reading and mixing\<close>

datatype XXH_endianess = XXH_bigEndian | XXH_littleEndian

definition PRIME32_1 :: u32 where "PRIME32_1 = 2654435761"
definition PRIME32_2 :: u32 where "PRIME32_2 = 2246822519"
definition PRIME32_3 :: u32 where "PRIME32_3 = 3266489917"
definition PRIME32_4 :: u32 where "PRIME32_4 = 668265263"
definition PRIME32_5 :: u32 where "PRIME32_5 = 374761393"

definition XXH_swap32 :: "u32 \<Rightarrow> u32" where
  "XXH_swap32 x = (push_bit 24 x AND 0xff000000) OR (push_bit 8 x AND 0x00ff0000)
                  OR (drop_bit 8 x AND 0x0000ff00) OR (drop_bit 24 x AND 0x000000ff)"

text \<open>\<open>endian\<close> is what the caller says of the host; the word is read as a little-endian host
  reads it. The aligned and the unaligned read do the same.\<close>

definition XXH_word :: "XXH_endianess \<Rightarrow> u8 list \<Rightarrow> u32" where
  "XXH_word endian b = (if endian = XXH_littleEndian then le_word b else XXH_swap32 (le_word b))"

definition XXH_readLE32 :: "u8 list \<Rightarrow> nat \<Rightarrow> XXH_endianess \<Rightarrow> u32 option" where
  "XXH_readLE32 mem p endian = do { b \<leftarrow> get_bytes mem p 4; Some (XXH_word endian b) }"

type_synonym xxh_lanes = "u32 \<times> u32 \<times> u32 \<times> u32"

definition xxh_lane :: "u32 \<Rightarrow> u32 \<Rightarrow> u32" where
  "xxh_lane v x = rotl 13 (v + x * PRIME32_2) * PRIME32_1"

definition xxh_stripe :: "XXH_endianess \<Rightarrow> u8 list \<Rightarrow> nat \<Rightarrow> xxh_lanes \<Rightarrow> xxh_lanes option" where
  "xxh_stripe endian mem p v = (case v of (v1, v2, v3, v4) \<Rightarrow> do {
     x1 \<leftarrow> XXH_readLE32 mem p endian;
     x2 \<leftarrow> XXH_readLE32 mem (p + 4) endian;
     x3 \<leftarrow> XXH_readLE32 mem (p + 8) endian;
     x4 \<leftarrow> XXH_readLE32 mem (p + 12) endian;
     Some (xxh_lane v1 x1, xxh_lane v2 x2, xxh_lane v3 x3, xxh_lane v4 x4) })"

text \<open>\<open>do ... while (p <= limit)\<close>\<close>

function xxh_stripes :: "XXH_endianess \<Rightarrow> u8 list \<Rightarrow> nat \<Rightarrow> nat \<Rightarrow> xxh_lanes \<Rightarrow> (xxh_lanes \<times> nat) option" where
  "xxh_stripes endian mem bEnd p v = do {
     v \<leftarrow> xxh_stripe endian mem p v;
     if p + 16 + 16 \<le> bEnd then xxh_stripes endian mem bEnd (p + 16) v else Some (v, p + 16) }"
  by auto
termination by (relation "measure (\<lambda>(_, _, bEnd, p, _). bEnd - p)") auto

definition xxh_merge :: "xxh_lanes \<Rightarrow> u32" where
  "xxh_merge v = (case v of (v1, v2, v3, v4) \<Rightarrow> rotl 1 v1 + rotl 7 v2 + rotl 12 v3 + rotl 18 v4)"

function xxh_tail_words :: "XXH_endianess \<Rightarrow> u8 list \<Rightarrow> nat \<Rightarrow> nat \<Rightarrow> u32 \<Rightarrow> (u32 \<times> nat) option" where
  "xxh_tail_words endian mem bEnd p h32 =
     (if p + 4 \<le> bEnd
      then do {
        x \<leftarrow> XXH_readLE32 mem p endian;
        xxh_tail_words endian mem bEnd (p + 4) (rotl 17 (h32 + x * PRIME32_3) * PRIME32_4) }
      else Some (h32, p))"
  by auto
termination by (relation "measure (\<lambda>(_, _, bEnd, p, _). bEnd - p)") auto

function xxh_tail_bytes :: "u8 list \<Rightarrow> nat \<Rightarrow> nat \<Rightarrow> u32 \<Rightarrow> u32 option" where
  "xxh_tail_bytes mem bEnd p h32 =
     (if p < bEnd
      then do {
        x \<leftarrow> rd mem p;
        xxh_tail_bytes mem bEnd (p + 1) (rotl 11 (h32 + ucast x * PRIME32_5) * PRIME32_1) }
      else Some h32)"
  by auto
termination by (relation "measure (\<lambda>(_, bEnd, p, _). bEnd - p)") auto

declare xxh_stripes.simps [simp del] xxh_tail_words.simps [simp del] xxh_tail_bytes.simps [simp del]

definition xxh_avalanche :: "u32 \<Rightarrow> u32" where
  "xxh_avalanche h32 =
     (let h32 = h32 XOR drop_bit 15 h32; h32 = h32 * PRIME32_2;
          h32 = h32 XOR drop_bit 13 h32; h32 = h32 * PRIME32_3
      in h32 XOR drop_bit 16 h32)"

definition xxh_start :: "u32 \<Rightarrow> xxh_lanes" where
  "xxh_start seed = (seed + PRIME32_1 + PRIME32_2, seed + PRIME32_2, seed + 0, seed - PRIME32_1)"

section \<open>A buffer\<close>

definition XXH32_endian_align :: "u8 list \<Rightarrow> nat \<Rightarrow> u32 \<Rightarrow> XXH_endianess \<Rightarrow> u32 option" where
  "XXH32_endian_align input len seed endian = do {
     (h32, p) \<leftarrow> (if 16 \<le> len
                  then do { (v, p) \<leftarrow> xxh_stripes endian input len 0 (xxh_start seed); Some (xxh_merge v, p) }
                  else Some (seed + PRIME32_5, 0));
     let h32 = h32 + of_nat len;
     (h32, p) \<leftarrow> xxh_tail_words endian input len p h32;
     h32 \<leftarrow> xxh_tail_bytes input len p h32;
     Some (xxh_avalanche h32) }"

section \<open>A stream\<close>

record XXH_state32_t =
  xxh_total_len :: u64
  xxh_seed :: u32
  xxh_v :: xxh_lanes
  xxh_memsize :: nat
  xxh_memory :: "u8 list"

definition XXH32_resetState :: "XXH_state32_t \<Rightarrow> u32 \<Rightarrow> XXH_state32_t" where
  "XXH32_resetState state seed =
     state\<lparr>xxh_seed := seed, xxh_v := xxh_start seed, xxh_total_len := 0, xxh_memsize := 0\<rparr>"

text \<open>The three parts of an update that has enough bytes for a block: complete the block that an
  earlier update left, hash the full blocks, keep the rest.\<close>

definition xxh_fill :: "XXH_state32_t \<Rightarrow> u8 list \<Rightarrow> XXH_endianess \<Rightarrow> (XXH_state32_t \<times> nat) option" where
  "xxh_fill state input endian =
     (if xxh_memsize state \<noteq> 0
      then do {
        m \<leftarrow> copy_bytes (xxh_memory state) (xxh_memsize state) input (16 - xxh_memsize state);
        v \<leftarrow> xxh_stripe endian m 0 (xxh_v state);
        Some (state\<lparr>xxh_memory := m, xxh_v := v, xxh_memsize := 0\<rparr>, 16 - xxh_memsize state) }
      else Some (state, 0))"

definition xxh_bulk :: "XXH_state32_t \<Rightarrow> u8 list \<Rightarrow> nat \<Rightarrow> nat \<Rightarrow> XXH_endianess \<Rightarrow> (XXH_state32_t \<times> nat) option" where
  "xxh_bulk state input len p endian =
     (if p + 16 \<le> len
      then do { (v, p) \<leftarrow> xxh_stripes endian input len p (xxh_v state); Some (state\<lparr>xxh_v := v\<rparr>, p) }
      else Some (state, p))"

definition xxh_keep :: "XXH_state32_t \<Rightarrow> u8 list \<Rightarrow> nat \<Rightarrow> nat \<Rightarrow> XXH_state32_t option" where
  "xxh_keep state input len p =
     (if p < len
      then do {
        m \<leftarrow> copy_bytes (xxh_memory state) 0 (drop p input) (len - p);
        Some (state\<lparr>xxh_memory := m, xxh_memsize := len - p\<rparr>) }
      else Some state)"

definition XXH32_update_endian :: "XXH_state32_t \<Rightarrow> u8 list \<Rightarrow> nat \<Rightarrow> XXH_endianess \<Rightarrow> XXH_state32_t option" where
  "XXH32_update_endian state input len endian =
     (let state = state\<lparr>xxh_total_len := xxh_total_len state + of_nat len\<rparr>
      in if xxh_memsize state + len < 16
         then do {
           m \<leftarrow> copy_bytes (xxh_memory state) (xxh_memsize state) input len;
           Some (state\<lparr>xxh_memory := m, xxh_memsize := xxh_memsize state + len\<rparr>) }
         else do {
           (state, p) \<leftarrow> xxh_fill state input endian;
           (state, p) \<leftarrow> xxh_bulk state input len p endian;
           xxh_keep state input len p })"

definition XXH32_intermediateDigest_endian :: "XXH_state32_t \<Rightarrow> XXH_endianess \<Rightarrow> u32 option" where
  "XXH32_intermediateDigest_endian state endian =
     (let h32 = (if 16 \<le> xxh_total_len state then xxh_merge (xxh_v state) else xxh_seed state + PRIME32_5);
          h32 = h32 + ucast (xxh_total_len state)
      in do {
        (h32, p) \<leftarrow> xxh_tail_words endian (xxh_memory state) (xxh_memsize state) 0 h32;
        h32 \<leftarrow> xxh_tail_bytes (xxh_memory state) (xxh_memsize state) p h32;
        Some (xxh_avalanche h32) })"

section \<open>The loops on lists of bytes\<close>

definition xxh_block :: "XXH_endianess \<Rightarrow> xxh_lanes \<Rightarrow> u8 list \<Rightarrow> xxh_lanes" where
  "xxh_block e v b = (case v of (v1, v2, v3, v4) \<Rightarrow>
     (xxh_lane v1 (XXH_word e (take 4 b)), xxh_lane v2 (XXH_word e (take 4 (drop 4 b))),
      xxh_lane v3 (XXH_word e (take 4 (drop 8 b))), xxh_lane v4 (XXH_word e (take 4 (drop 12 b)))))"

definition xxh_byte :: "u32 \<Rightarrow> u8 \<Rightarrow> u32" where
  "xxh_byte h x = rotl 11 (h + ucast x * PRIME32_5) * PRIME32_1"

function xxh_tail :: "XXH_endianess \<Rightarrow> u32 \<Rightarrow> u8 list \<Rightarrow> u32" where
  "xxh_tail e h r =
     (if 4 \<le> length r
      then xxh_tail e (rotl 17 (h + XXH_word e (take 4 r) * PRIME32_3) * PRIME32_4) (drop 4 r)
      else foldl xxh_byte h r)"
  by auto
termination by (relation "measure (\<lambda>(_, _, r). length r)") auto

declare xxh_tail.simps [simp del]

definition xxh32 :: "XXH_endianess \<Rightarrow> u32 \<Rightarrow> u8 list \<Rightarrow> u32" where
  "xxh32 e seed m =
     (let (v, r) = absorb 16 (xxh_block e) (xxh_start seed) m;
          h = (if 16 \<le> length m then xxh_merge v else seed + PRIME32_5) + of_nat (length m)
      in xxh_avalanche (xxh_tail e h r))"

lemma readLE32_eq: "p + 4 \<le> length mem \<Longrightarrow> XXH_readLE32 mem p e = Some (XXH_word e (take 4 (drop p mem)))"
  by (simp add: XXH_readLE32_def get_bytes_def)

lemma stripe_eq: "p + 16 \<le> length mem \<Longrightarrow> xxh_stripe e mem p v = Some (xxh_block e v (take 16 (drop p mem)))"
  by (simp add: xxh_stripe_def xxh_block_def readLE32_eq drop_take min_def add.commute split: prod.splits)

lemma stripes_eq:
  assumes "p + 16 \<le> bEnd" "bEnd \<le> length mem"
  shows "\<exists>v' p'. xxh_stripes e mem bEnd p v = Some (v', p') \<and> p' \<le> bEnd \<and> bEnd - p' < 16
    \<and> absorb 16 (xxh_block e) v (drop p (take bEnd mem)) = (v', drop p' (take bEnd mem))"
  using assms
proof (induction e mem bEnd p v rule: xxh_stripes.induct)
  case (1 e mem bEnd p v)
  let ?xs = "drop p (take bEnd mem)" and ?b = "take 16 (drop p mem)"
  have s: "xxh_stripe e mem p v = Some (xxh_block e v ?b)" using 1(2,3) by (simp add: stripe_eq)
  have "16 \<le> length ?xs" "take 16 ?xs = ?b" "drop 16 ?xs = drop (p + 16) (take bEnd mem)"
    using 1(2,3) by (simp_all add: drop_take add.commute)
  then have a: "absorb 16 (xxh_block e) v ?xs = absorb 16 (xxh_block e) (xxh_block e v ?b) (drop (p + 16) (take bEnd mem))"
    using absorb_step [of 16 ?xs "xxh_block e" v] by simp
  show ?case
  proof (cases "p + 16 + 16 \<le> bEnd")
    case True
    from 1(1) [OF s True True 1(3)] show ?thesis
      unfolding a using s True by (subst xxh_stripes.simps) simp
  next
    case False
    then have "length (drop (p + 16) (take bEnd mem)) < 16" using 1(3) by simp
    then show ?thesis using False s a 1(2) by (subst xxh_stripes.simps) simp
  qed
qed

lemma tail_bytes_eq:
  "p \<le> bEnd \<Longrightarrow> bEnd \<le> length mem \<Longrightarrow>
    xxh_tail_bytes mem bEnd p h = Some (foldl xxh_byte h (drop p (take bEnd mem)))"
proof (induction mem bEnd p h rule: xxh_tail_bytes.induct)
  case (1 mem bEnd p h)
  show ?case
  proof (cases "p < bEnd")
    case True
    then have "drop p (take bEnd mem) = mem ! p # drop (p + 1) (take bEnd mem)"
      using 1(3) by (subst Cons_nth_drop_Suc [symmetric]) simp_all
    then show ?thesis using 1 True
      by (subst xxh_tail_bytes.simps) (simp flip: xxh_byte_def)
  next
    case False
    then show ?thesis using 1(2,3) by (subst xxh_tail_bytes.simps) simp
  qed
qed

lemma tail_eq:
  "p \<le> bEnd \<Longrightarrow> bEnd \<le> length mem \<Longrightarrow>
    do { (h, p) \<leftarrow> xxh_tail_words e mem bEnd p h; xxh_tail_bytes mem bEnd p h }
      = Some (xxh_tail e h (drop p (take bEnd mem)))"
proof (induction e mem bEnd p h rule: xxh_tail_words.induct)
  case (1 e mem bEnd p h)
  let ?xs = "drop p (take bEnd mem)"
  show ?case
  proof (cases "p + 4 \<le> bEnd")
    case True
    let ?h = "rotl 17 (h + XXH_word e (take 4 (drop p mem)) * PRIME32_3) * PRIME32_4"
    have r: "XXH_readLE32 mem p e = Some (XXH_word e (take 4 (drop p mem)))" using True 1(3) by (simp add: readLE32_eq)
    have "4 \<le> length ?xs" "take 4 ?xs = take 4 (drop p mem)" "drop 4 ?xs = drop (p + 4) (take bEnd mem)"
      using True 1(3) by (simp_all add: drop_take add.commute)
    then have "xxh_tail e h ?xs = xxh_tail e ?h (drop (p + 4) (take bEnd mem))"
      by (subst xxh_tail.simps) simp
    then show ?thesis using 1(1) [OF True r True 1(3)] r True
      by (subst xxh_tail_words.simps) simp
  next
    case False
    then have "\<not> 4 \<le> length ?xs" using 1(3) by simp
    then show ?thesis using False 1(2,3)
      by (subst xxh_tail_words.simps, subst xxh_tail.simps) (simp add: tail_bytes_eq)
  qed
qed

lemma tail_words_bind:
  assumes "p \<le> bEnd" "bEnd \<le> length mem"
  shows "do { (h, p) \<leftarrow> xxh_tail_words e mem bEnd p h; h \<leftarrow> xxh_tail_bytes mem bEnd p h; k h }
    = k (xxh_tail e h (drop p (take bEnd mem)))"
proof -
  have "do { (h, p) \<leftarrow> xxh_tail_words e mem bEnd p h; h \<leftarrow> xxh_tail_bytes mem bEnd p h; k h }
    = do { h \<leftarrow> do { (h, p) \<leftarrow> xxh_tail_words e mem bEnd p h; xxh_tail_bytes mem bEnd p h }; k h }"
    by (cases "xxh_tail_words e mem bEnd p h") auto
  then show ?thesis using tail_eq [OF assms, of e h] by simp
qed

lemma XXH32_eq: "XXH32_endian_align m (length m) seed e = Some (xxh32 e seed m)"
proof (cases "16 \<le> length m")
  case True
  then obtain v p where
    s: "xxh_stripes e m (length m) 0 (xxh_start seed) = Some (v, p)" "p \<le> length m"
    "absorb 16 (xxh_block e) (xxh_start seed) m = (v, drop p m)"
    using stripes_eq [of 0 "length m" m e "xxh_start seed"] by auto
  then show ?thesis using True tail_words_bind [OF s(2) order_refl]
    by (simp add: XXH32_endian_align_def xxh32_def)
next
  case False
  then show ?thesis using tail_words_bind [of 0 "length m" m]
    by (simp add: XXH32_endian_align_def xxh32_def)
qed

section \<open>The contract of a block hash\<close>

definition xxh_pending :: "XXH_state32_t \<Rightarrow> u8 list" where
  "xxh_pending s = take (xxh_memsize s) (xxh_memory s)"

definition xxh_wf :: "XXH_state32_t \<Rightarrow> bool" where
  "xxh_wf s \<longleftrightarrow> xxh_memsize s < 16 \<and> length (xxh_memory s) = 16"

definition xxh_feed :: "XXH_endianess \<Rightarrow> XXH_state32_t \<Rightarrow> u8 list \<Rightarrow> XXH_state32_t option" where
  "xxh_feed e s d = XXH32_update_endian s d (length d) e"

lemma xxh_fill_eq:
  assumes "xxh_wf s" "16 \<le> xxh_memsize s + length d"
  shows "\<exists>s' p. xxh_fill s d e = Some (s', p) \<and> p \<le> length d \<and> xxh_memsize s' = 0 \<and> length (xxh_memory s') = 16
    \<and> xxh_total_len s' = xxh_total_len s \<and> xxh_seed s' = xxh_seed s
    \<and> absorb 16 (xxh_block e) (xxh_v s) (xxh_pending s @ d) = absorb 16 (xxh_block e) (xxh_v s') (drop p d)"
proof (cases "xxh_memsize s = 0")
  case True
  then show ?thesis using assms(1) by (simp add: xxh_fill_def xxh_pending_def xxh_wf_def)
next
  case False
  let ?n = "xxh_memsize s"
  let ?b = "take ?n (xxh_memory s) @ take (16 - ?n) d"
  have b: "copy_bytes (xxh_memory s) ?n d (16 - ?n) = Some ?b" "length ?b = 16"
    using assms by (simp_all add: copy_bytes_eq xxh_wf_def)
  have st: "xxh_stripe e ?b 0 (xxh_v s) = Some (xxh_block e (xxh_v s) ?b)"
    using stripe_eq [of 0 ?b e "xxh_v s"] unfolding b(2) drop_0 take_all [OF eq_refl [OF b(2)]] by simp
  have "xxh_pending s @ d = ?b @ drop (16 - ?n) d" by (simp add: xxh_pending_def)
  then have "absorb 16 (xxh_block e) (xxh_v s) (xxh_pending s @ d)
      = absorb 16 (xxh_block e) (xxh_block e (xxh_v s) ?b) (drop (16 - ?n) d)"
    using absorb_block [OF _ b(2), of "xxh_block e"] by (simp only: zero_less_numeral)
  moreover have "16 - ?n \<le> length d" using assms(2) by simp
  ultimately show ?thesis using False b st by (simp add: xxh_fill_def)
qed

lemma xxh_bulk_eq:
  assumes "p \<le> length d"
  shows "\<exists>s' p'. xxh_bulk s d (length d) p e = Some (s', p') \<and> p' \<le> length d \<and> length d - p' < 16
    \<and> xxh_memsize s' = xxh_memsize s \<and> xxh_memory s' = xxh_memory s
    \<and> xxh_total_len s' = xxh_total_len s \<and> xxh_seed s' = xxh_seed s
    \<and> absorb 16 (xxh_block e) (xxh_v s) (drop p d) = (xxh_v s', drop p' d)"
proof (cases "p + 16 \<le> length d")
  case True
  then show ?thesis using stripes_eq [of p "length d" d e "xxh_v s"]
    by (auto simp: xxh_bulk_def)
qed (use assms in \<open>simp add: xxh_bulk_def\<close>)

lemma xxh_keep_eq:
  assumes "p \<le> length d" "length d - p < 16" "xxh_memsize s = 0" "length (xxh_memory s) = 16"
  shows "\<exists>s'. xxh_keep s d (length d) p = Some s' \<and> xxh_wf s' \<and> xxh_pending s' = drop p d
    \<and> xxh_total_len s' = xxh_total_len s \<and> xxh_seed s' = xxh_seed s \<and> xxh_v s' = xxh_v s"
proof (cases "p < length d")
  case True
  have "copy_bytes (xxh_memory s) 0 (drop p d) (length d - p) = Some (drop p d @ drop (length d - p) (xxh_memory s))"
    using assms(2,4) by (simp add: copy_bytes_eq)
  then show ?thesis using True assms by (simp add: xxh_keep_def xxh_wf_def xxh_pending_def)
qed (use assms in \<open>simp add: xxh_keep_def xxh_wf_def xxh_pending_def\<close>)

lemma xxh_update_absorbs:
  assumes "xxh_wf s"
  shows "\<exists>s'. xxh_feed e s d = Some s' \<and> xxh_wf s'
    \<and> xxh_total_len s' = xxh_total_len s + of_nat (length d) \<and> xxh_seed s' = xxh_seed s
    \<and> (xxh_v s', xxh_pending s') = absorb 16 (xxh_block e) (xxh_v s) (xxh_pending s @ d)"
proof -
  define s0 where "s0 = s\<lparr>xxh_total_len := xxh_total_len s + of_nat (length d)\<rparr>"
  have s0: "xxh_wf s0" "xxh_memsize s0 = xxh_memsize s" "xxh_pending s0 = xxh_pending s" "xxh_v s0 = xxh_v s"
    "xxh_total_len s0 = xxh_total_len s + of_nat (length d)" "xxh_seed s0 = xxh_seed s"
    using assms by (simp_all add: s0_def xxh_wf_def xxh_pending_def)
  have f: "xxh_feed e s d = (if xxh_memsize s0 + length d < 16
         then do {
           m \<leftarrow> copy_bytes (xxh_memory s0) (xxh_memsize s0) d (length d);
           Some (s0\<lparr>xxh_memory := m, xxh_memsize := xxh_memsize s0 + length d\<rparr>) }
         else do {
           (s1, p) \<leftarrow> xxh_fill s0 d e;
           (s2, p) \<leftarrow> xxh_bulk s1 d (length d) p e;
           xxh_keep s2 d (length d) p })"
    by (simp only: xxh_feed_def XXH32_update_endian_def Let_def s0_def)
  show ?thesis
  proof (cases "xxh_memsize s0 + length d < 16")
    case True
    have "copy_bytes (xxh_memory s0) (xxh_memsize s0) d (length d)
        = Some (take (xxh_memsize s0) (xxh_memory s0) @ d @ drop (xxh_memsize s0 + length d) (xxh_memory s0))"
      using True s0(1) by (simp add: copy_bytes_eq xxh_wf_def)
    then show ?thesis using True f s0 assms by (simp add: xxh_wf_def) (simp add: xxh_pending_def)
  next
    case False
    then have "16 \<le> xxh_memsize s0 + length d" by simp
    from xxh_fill_eq [OF s0(1) this, of e] obtain s1 p where s1: "xxh_fill s0 d e = Some (s1, p)" "p \<le> length d"
      "xxh_memsize s1 = 0" "length (xxh_memory s1) = 16" "xxh_total_len s1 = xxh_total_len s0" "xxh_seed s1 = xxh_seed s0"
      "absorb 16 (xxh_block e) (xxh_v s0) (xxh_pending s0 @ d) = absorb 16 (xxh_block e) (xxh_v s1) (drop p d)" by auto
    from xxh_bulk_eq [OF s1(2), of s1 e] obtain s2 q where s2: "xxh_bulk s1 d (length d) p e = Some (s2, q)"
      "q \<le> length d" "length d - q < 16" "xxh_memsize s2 = 0" "length (xxh_memory s2) = 16"
      "xxh_total_len s2 = xxh_total_len s0" "xxh_seed s2 = xxh_seed s0"
      "absorb 16 (xxh_block e) (xxh_v s1) (drop p d) = (xxh_v s2, drop q d)" using s1 by auto
    from xxh_keep_eq [OF s2(2-5)] show ?thesis
      using f False s0 s1(1,7) s2 by auto
  qed
qed

lemma xxh_feed_absorbs:
  assumes "xxh_wf s" "length d < 2 ^ 31 - 16"
  shows "\<exists>s'. xxh_feed e s d = Some s' \<and> xxh_wf s'
    \<and> (xxh_v s', xxh_pending s') = absorb 16 (xxh_block e) (xxh_v s) (xxh_pending s @ d)"
  using xxh_update_absorbs [OF assms(1), of e d] by blast

interpretation xxh: block_hash 16 "xxh_block e" xxh_v xxh_pending xxh_wf "xxh_feed e" "2 ^ 31 - 16" for e
  by unfold_locales (simp, rule xxh_feed_absorbs)

lemma xxh_feeds:
  assumes "xxh_wf s" "feed (xxh_feed e) s ds = Some s'"
  shows "xxh_wf s' \<and> xxh_total_len s' = xxh_total_len s + of_nat (length (concat ds)) \<and> xxh_seed s' = xxh_seed s"
  using assms
proof (induction ds arbitrary: s)
  case (Cons d ds)
  then obtain s1 where "xxh_feed e s d = Some s1" "feed (xxh_feed e) s1 ds = Some s'"
    by (auto split: Option.bind_splits)
  moreover from this have "xxh_wf s1" "xxh_total_len s1 = xxh_total_len s + of_nat (length d)" "xxh_seed s1 = xxh_seed s"
    using xxh_update_absorbs [of s e d] Cons.prems by auto
  ultimately show ?case using Cons.IH [of s1] by simp
qed simp

lemma xxh_digest_eq:
  assumes "xxh_wf s" "xxh_total_len s = of_nat (length m)" "length m < 2 ^ 64" "xxh_seed s = seed"
    and "(xxh_v s, xxh_pending s) = absorb 16 (xxh_block e) (xxh_start seed) m"
  shows "XXH32_intermediateDigest_endian s e = Some (xxh32 e seed m)"
proof -
  have "unat (of_nat (length m) :: u64) = length m" using assms(3) by (simp add: unat_of_nat)
  then have c: "16 \<le> xxh_total_len s \<longleftrightarrow> 16 \<le> length m" using assms(2) by (simp add: word_le_nat_alt)
  have t: "ucast (xxh_total_len s) = (of_nat (length m) :: u32)"
  proof (rule word_unat_eq_iff [THEN iffD2])
    show "unat (ucast (xxh_total_len s) :: u32) = unat (of_nat (length m) :: u32)"
      unfolding assms(2) unat_ucast_32 \<open>unat (of_nat (length m) :: u64) = length m\<close> by (simp add: unat_of_nat)
  qed
  have b: "(0 :: nat) \<le> xxh_memsize s" "xxh_memsize s \<le> length (xxh_memory s)" using assms(1) by (simp_all add: xxh_wf_def)
  show ?thesis
    unfolding XXH32_intermediateDigest_endian_def Let_def tail_words_bind [OF b] c t assms(4)
    unfolding xxh32_def assms(5) [symmetric] drop_0 Let_def prod.case xxh_pending_def ..
qed

text \<open>
  C31: hashing a stream in pieces of any lengths gives the hash of the whole buffer, in both byte orders.
\<close>

theorem xxh_stream_is_oneshot:
  assumes "length (xxh_memory s) = 16" "length (concat ds) < 2 ^ 31 - 16"
  shows "\<exists>s'. feed (xxh_feed e) (XXH32_resetState s seed) ds = Some s'
    \<and> XXH32_intermediateDigest_endian s' e = XXH32_endian_align (concat ds) (length (concat ds)) seed e"
proof -
  let ?s = "XXH32_resetState s seed"
  have "length d \<le> length (concat ds)" if "d \<in> set ds" for d
    using that by (induction ds) auto
  then have ds: "\<forall>d \<in> set ds. length d < 2 ^ 31 - 16" using assms(2) by fastforce
  have s: "xxh_wf ?s" "xxh_pending ?s = []" "xxh_total_len ?s = 0" "xxh_seed ?s = seed" "xxh_v ?s = xxh_start seed"
    using assms(1) by (simp_all add: xxh_wf_def xxh_pending_def XXH32_resetState_def)
  from xxh.digest_of_pieces [OF s(1,2) ds] obtain s' where
    s': "feed (xxh_feed e) ?s ds = Some s'" "xxh_wf s'"
    "(xxh_v s', xxh_pending s') = absorb 16 (xxh_block e) (xxh_start seed) (concat ds)"
    using s(5) by auto
  have "xxh_total_len s' = of_nat (length (concat ds))" "xxh_seed s' = seed"
    using xxh_feeds [OF s(1) s'(1)] s(3,4) by simp_all
  then have "XXH32_intermediateDigest_endian s' e = Some (xxh32 e seed (concat ds))"
    using xxh_digest_eq [OF s'(2) _ _ _ s'(3)] assms(2) by simp
  then show ?thesis using s'(1) XXH32_eq [of "concat ds" seed e] by auto
qed

theorem xxh_stream_is_oneshot_witness:
  "\<exists>s'. feed (xxh_feed XXH_littleEndian) (XXH32_resetState
      \<lparr>xxh_total_len = 7, xxh_seed = 7, xxh_v = (0, 0, 0, 0), xxh_memsize = 3, xxh_memory = replicate 16 9\<rparr> 1)
      [[1, 2, 3], replicate 20 4] = Some s'
    \<and> XXH32_intermediateDigest_endian s' XXH_littleEndian
      = XXH32_endian_align (concat [[1, 2, 3], replicate 20 4]) (length (concat [[1, 2, 3], replicate 20 (4 :: u8)])) 1 XXH_littleEndian"
  by (rule xxh_stream_is_oneshot) simp_all

end
