(* ===== verification/Verify.thy ===== *)
theory Verify
  imports Rand Crc Md5 Sha1 Sha2 Xxhash
begin

text \<open>
  \<^verbatim>\<open>verify.c\<close> and \<^verbatim>\<open>verify.h\<close>: the headers that a verifying job
  puts into what it writes, and the checks of what it reads back. A buffer is the list of its bytes,
  headers and their fields are offsets into it. Logging and the dumps of bad buffers are left out.
  \<open>None\<close> is an access past the end of a buffer, a failed \<open>assert\<close> or a loop that does
  not end.
\<close>

section \<open>Types\<close>

datatype verify_type = VERIFY_NONE | VERIFY_MD5 | VERIFY_CRC64 | VERIFY_CRC32 | VERIFY_CRC32C
  | VERIFY_CRC32C_INTEL | VERIFY_CRC16 | VERIFY_CRC7 | VERIFY_SHA256 | VERIFY_SHA512 | VERIFY_XXHASH
  | VERIFY_META | VERIFY_SHA1 | VERIFY_PATTERN | VERIFY_NULL

definition verify_types :: "verify_type list" where
  "verify_types = [VERIFY_NONE, VERIFY_MD5, VERIFY_CRC64, VERIFY_CRC32, VERIFY_CRC32C,
     VERIFY_CRC32C_INTEL, VERIFY_CRC16, VERIFY_CRC7, VERIFY_SHA256, VERIFY_SHA512, VERIFY_XXHASH,
     VERIFY_META, VERIFY_SHA1, VERIFY_PATTERN, VERIFY_NULL]"

text \<open>The number of a type, and the type of a number read from a header.\<close>

primrec verify_code :: "verify_type \<Rightarrow> u16" where
  "verify_code VERIFY_NONE = 0"
| "verify_code VERIFY_MD5 = 1"
| "verify_code VERIFY_CRC64 = 2"
| "verify_code VERIFY_CRC32 = 3"
| "verify_code VERIFY_CRC32C = 4"
| "verify_code VERIFY_CRC32C_INTEL = 5"
| "verify_code VERIFY_CRC16 = 6"
| "verify_code VERIFY_CRC7 = 7"
| "verify_code VERIFY_SHA256 = 8"
| "verify_code VERIFY_SHA512 = 9"
| "verify_code VERIFY_XXHASH = 10"
| "verify_code VERIFY_META = 11"
| "verify_code VERIFY_SHA1 = 12"
| "verify_code VERIFY_PATTERN = 13"
| "verify_code VERIFY_NULL = 14"

definition verify_of_code :: "u16 \<Rightarrow> verify_type option" where
  "verify_of_code c = List.find (\<lambda>t. verify_code t = c) verify_types"

datatype fio_ddir = DDIR_READ | DDIR_WRITE | DDIR_TRIM

text \<open>What the code uses of \<open>struct thread_options\<close>, \<open>struct thread_data\<close> and
  \<open>struct io_u\<close>; \<open>vt_writes\<close> is \<open>td_write (td) || td_rw (td)\<close>.\<close>

record verify_options =
  vo_verify :: verify_type
  vo_interval :: u32
  vo_offset :: u32
  vo_pattern :: "u8 list"
  vo_pattern_bytes :: u32
  vo_sort :: bool
  vo_fatal :: bool
  vo_only :: bool
  vo_loops :: u32
  vo_trim_zero :: bool

record verify_td =
  vt_o :: verify_options
  vt_thread :: u8
  vt_backlog :: bool
  vt_issues :: "fio_ddir \<Rightarrow> u64"
  vt_state :: frand_state
  vt_writes :: bool
  vt_terminate :: bool

record vio_u =
  iu_buf :: "u8 list"
  iu_buflen :: u64
  iu_offset :: u64
  iu_numberio :: u16
  iu_rand_seed :: u64
  iu_filled :: u64
  iu_ddir :: fio_ddir
  iu_trimmed :: bool
  iu_start :: "u64 \<times> u64"

definition FIO_HDR_MAGIC :: u16 where "FIO_HDR_MAGIC = 0xacca"
definition MAX_PATTERN_SIZE :: u32 where "MAX_PATTERN_SIZE = 512"
definition EILSEQ :: u32 where "EILSEQ = 84"
definition EINVAL :: u32 where "EINVAL = 22"

section \<open>Fields of a header\<close>

definition get_word :: "u8 list \<Rightarrow> nat \<Rightarrow> nat \<Rightarrow> 'a::len word option" where
  "get_word mem p n = map_option le_word (get_bytes mem p n)"

text \<open>\<open>struct verify_header\<close>: the offsets of its fields, and its size with the padding that
  aligns it.\<close>

definition hdr_magic :: "u8 list \<Rightarrow> nat \<Rightarrow> u16 option" where "hdr_magic mem hdr = get_word mem hdr 2"
definition hdr_verify_type :: "u8 list \<Rightarrow> nat \<Rightarrow> u16 option" where "hdr_verify_type mem hdr = get_word mem (hdr + 2) 2"
definition hdr_len :: "u8 list \<Rightarrow> nat \<Rightarrow> u32 option" where "hdr_len mem hdr = get_word mem (hdr + 4) 4"
definition hdr_rand_seed :: "u8 list \<Rightarrow> nat \<Rightarrow> u64 option" where "hdr_rand_seed mem hdr = get_word mem (hdr + 8) 8"
definition hdr_crc32 :: "u8 list \<Rightarrow> nat \<Rightarrow> u32 option" where "hdr_crc32 mem hdr = get_word mem (hdr + 16) 4"

text \<open>The checksum specific header comes after it; its size by type.\<close>

definition hdr_priv :: "nat \<Rightarrow> nat" where "hdr_priv hdr = hdr + 24"

primrec vhdr_size :: "verify_type \<Rightarrow> nat" where
  "vhdr_size VERIFY_NONE = 0"
| "vhdr_size VERIFY_MD5 = 16"
| "vhdr_size VERIFY_CRC64 = 8"
| "vhdr_size VERIFY_CRC32 = 4"
| "vhdr_size VERIFY_CRC32C = 4"
| "vhdr_size VERIFY_CRC32C_INTEL = 4"
| "vhdr_size VERIFY_CRC16 = 2"
| "vhdr_size VERIFY_CRC7 = 1"
| "vhdr_size VERIFY_SHA256 = 64"
| "vhdr_size VERIFY_SHA512 = 128"
| "vhdr_size VERIFY_XXHASH = 4"
| "vhdr_size VERIFY_META = 32"
| "vhdr_size VERIFY_SHA1 = 20"
| "vhdr_size VERIFY_PATTERN = 0"
| "vhdr_size VERIFY_NULL = 0"

definition hdr_size0 :: "verify_type \<Rightarrow> u32" where
  "hdr_size0 t = of_nat (vhdr_size t) + 24"

definition hdr_size :: "u8 list \<Rightarrow> nat \<Rightarrow> u32 option" where
  "hdr_size mem hdr = do { c \<leftarrow> hdr_verify_type mem hdr; t \<leftarrow> verify_of_code c; Some (hdr_size0 t) }"

section \<open>Patterns\<close>

partial_function (option) fill_pattern_loop :: "u8 list \<Rightarrow> u32 \<Rightarrow> u32 \<Rightarrow> u8 list \<Rightarrow> u32 \<Rightarrow> u8 list option" where
  "fill_pattern_loop mem i len pattern pattern_bytes =
     (if i < len
      then let size = (if len - i < pattern_bytes then len - i else pattern_bytes) in do {
        mem \<leftarrow> copy_bytes mem (unat i) pattern (unat size);
        fill_pattern_loop mem (i + size) len pattern pattern_bytes }
      else Some mem)"

declare fill_pattern_loop.simps [code]

definition fill_pattern :: "u8 list \<Rightarrow> u32 \<Rightarrow> u8 list \<Rightarrow> u32 \<Rightarrow> u8 list option" where
  "fill_pattern mem len pattern pattern_bytes =
     (if pattern_bytes = 0 then None
      else if pattern_bytes = 1 then do { b \<leftarrow> rd pattern 0; put_bytes mem 0 (replicate (unat len) b) }
      else fill_pattern_loop mem 0 len pattern pattern_bytes)"

text \<open>\<open>use_seed\<close> is the seed for a buffer that is to be generated again.\<close>

definition fill_verify_pattern ::
    "verify_td \<Rightarrow> vio_u \<Rightarrow> u32 \<Rightarrow> u64 option \<Rightarrow> (verify_td \<times> vio_u) option" where
  "fill_verify_pattern td io_u len use_seed =
     (if vo_pattern_bytes (vt_o td) = 0
      then (case use_seed of
          Some seed \<Rightarrow> do { b \<leftarrow> fill_random_buf0 (iu_buf io_u) 0 len seed; Some (td, io_u\<lparr>iu_buf := b\<rparr>) }
        | None \<Rightarrow> do {
            (st, b, seed) \<leftarrow> fill_random_buf (vt_state td) (iu_buf io_u) len;
            Some (td\<lparr>vt_state := st\<rparr>, io_u\<lparr>iu_buf := b, iu_rand_seed := seed\<rparr>) })
      else if ucast len \<le> iu_filled io_u then Some (td, io_u)
      else do {
        b \<leftarrow> fill_pattern (iu_buf io_u) len (vo_pattern (vt_o td)) (vo_pattern_bytes (vt_o td));
        Some (td, io_u\<lparr>iu_buf := b, iu_filled := ucast len\<rparr>) })"

definition get_hdr_inc :: "verify_td \<Rightarrow> vio_u \<Rightarrow> u32" where
  "get_hdr_inc td io_u =
     (if vo_interval (vt_o td) \<noteq> 0 \<and> ucast (vo_interval (vt_o td)) \<le> iu_buflen io_u
      then vo_interval (vt_o td) else ucast (iu_buflen io_u))"

text \<open>Two memory areas change places; overlapping areas are undefined in the source's
  \<open>memcpy\<close>.\<close>

definition memswp :: "u8 list \<Rightarrow> nat \<Rightarrow> nat \<Rightarrow> u32 \<Rightarrow> u8 list option" where
  "memswp mem buf1 buf2 len = do {
     _ \<leftarrow> c_assert (len \<le> 200);
     _ \<leftarrow> c_assert (buf1 + unat len \<le> buf2 \<or> buf2 + unat len \<le> buf1);
     c1 \<leftarrow> get_bytes mem buf1 (unat len);
     c2 \<leftarrow> get_bytes mem buf2 (unat len);
     mem \<leftarrow> put_bytes mem buf1 c2;
     put_bytes mem buf2 c1 }"

section \<open>Digests\<close>

text \<open>
  Contexts with the designated initialisers of the source: what is not named is zero, and the buffer of
  a SHA-2 context is where the caller says. \<open>junk\<close> is memory that is not initialised: an array on
  the stack, or what \<open>malloc\<close> returns.
\<close>

definition uninit :: "(nat \<Rightarrow> u8) \<Rightarrow> nat \<Rightarrow> u8 list" where
  "uninit junk n = map junk [0..<n]"

lemma length_uninit [simp]: "length (uninit junk n) = n"
  by (simp add: uninit_def)

definition md5_bytes :: "md5_state \<Rightarrow> u8 list" where
  "md5_bytes h = (case h of (a, b, c, d) \<Rightarrow> concat (map (le_bytes 4) [a, b, c, d]))"

definition md5_sum :: "u8 list \<Rightarrow> u32 \<Rightarrow> u8 list option" where
  "md5_sum data len = do {
     c \<leftarrow> fio_md5_update (fio_md5_init \<lparr>md5_hash = (0, 0, 0, 0), md5_block = replicate 64 0, md5_byte_count = 0\<rparr>) data len;
     Some (md5_bytes (md5_hash c)) }"

definition sha1_bytes :: "sha1_state \<Rightarrow> u8 list" where
  "sha1_bytes h = (case h of (a, b, c, d, e) \<Rightarrow> concat (map (le_bytes 4) [a, b, c, d, e]))"

definition sha1_sum :: "u8 list \<Rightarrow> u32 \<Rightarrow> u8 list option" where
  "sha1_sum data len = do {
     c \<leftarrow> fio_sha1_update (fio_sha1_init \<lparr>sha1_H = (0, 0, 0, 0, 0), sha1_W = replicate 64 0, sha1_size = 0\<rparr>) data (ucast len);
     Some (sha1_bytes (sha1_H c)) }"

text \<open>For SHA-256 and SHA-512 the code uses the buffer of the context, not its state.\<close>

definition sha256_left :: "u8 list \<Rightarrow> u8 list \<Rightarrow> u32 \<Rightarrow> u8 list option" where
  "sha256_left buf data len = do {
     c \<leftarrow> fio_sha256_update (fio_sha256_init \<lparr>sha256_count = (0, 0), sha256_state = sha256_H, sha256_buf = buf\<rparr>) data len;
     Some (sha256_buf c) }"

definition sha512_left :: "u8 list \<Rightarrow> u8 list \<Rightarrow> u32 \<Rightarrow> u8 list option" where
  "sha512_left buf data len = do {
     c \<leftarrow> fio_sha512_update (fio_sha512_init \<lparr>sha512_state = sha512_H, sha512_count = (0, 0, 0, 0), sha512_buf = buf,
            sha512_W = replicate 80 0\<rparr>) data len;
     Some (sha512_buf c) }"

text \<open>The length is an int to the hash.\<close>

definition xxhash_sum :: "(nat \<Rightarrow> u8) \<Rightarrow> u8 list \<Rightarrow> u32 \<Rightarrow> u32 option" where
  "xxhash_sum junk data len = do {
     _ \<leftarrow> c_assert (len < 0x80000000);
     s \<leftarrow> XXH32_update_endian (XXH32_resetState \<lparr>xxh_total_len = 0, xxh_seed = 0, xxh_v = (0, 0, 0, 0),
            xxh_memsize = 0, xxh_memory = uninit junk 16\<rparr> 1) data (unat len) XXH_littleEndian;
     XXH32_intermediateDigest_endian s XXH_littleEndian }"

section \<open>Filling headers\<close>

text \<open>\<open>hdr\<close> is the offset of the header, \<open>p\<close> that of the data, \<open>len\<close> its length.\<close>

definition fill_xxhash :: "(nat \<Rightarrow> u8) \<Rightarrow> u8 list \<Rightarrow> nat \<Rightarrow> nat \<Rightarrow> u32 \<Rightarrow> u8 list option" where
  "fill_xxhash junk mem hdr p len = do {
     d \<leftarrow> get_bytes mem p (unat len);
     h \<leftarrow> xxhash_sum junk d len;
     put_bytes mem (hdr_priv hdr) (le_bytes 4 h) }"

definition fill_sha512 :: "u8 list \<Rightarrow> nat \<Rightarrow> nat \<Rightarrow> u32 \<Rightarrow> u8 list option" where
  "fill_sha512 mem hdr p len = do {
     d \<leftarrow> get_bytes mem p (unat len);
     v \<leftarrow> get_bytes mem (hdr_priv hdr) 128;
     b \<leftarrow> sha512_left v d len;
     put_bytes mem (hdr_priv hdr) b }"

definition fill_sha256 :: "u8 list \<Rightarrow> nat \<Rightarrow> nat \<Rightarrow> u32 \<Rightarrow> u8 list option" where
  "fill_sha256 mem hdr p len = do {
     d \<leftarrow> get_bytes mem p (unat len);
     v \<leftarrow> get_bytes mem (hdr_priv hdr) 64;
     b \<leftarrow> sha256_left v d len;
     put_bytes mem (hdr_priv hdr) b }"

definition fill_sha1 :: "u8 list \<Rightarrow> nat \<Rightarrow> nat \<Rightarrow> u32 \<Rightarrow> u8 list option" where
  "fill_sha1 mem hdr p len = do {
     d \<leftarrow> get_bytes mem p (unat len); b \<leftarrow> sha1_sum d len; put_bytes mem (hdr_priv hdr) b }"

definition fill_crc7 :: "u8 list \<Rightarrow> nat \<Rightarrow> nat \<Rightarrow> u32 \<Rightarrow> u8 list option" where
  "fill_crc7 mem hdr p len = do {
     d \<leftarrow> get_bytes mem p (unat len); put_bytes mem (hdr_priv hdr) (le_bytes 1 (fio_crc7 d)) }"

definition fill_crc16 :: "u8 list \<Rightarrow> nat \<Rightarrow> nat \<Rightarrow> u32 \<Rightarrow> u8 list option" where
  "fill_crc16 mem hdr p len = do {
     d \<leftarrow> get_bytes mem p (unat len); put_bytes mem (hdr_priv hdr) (le_bytes 2 (fio_crc16 d)) }"

definition fill_crc32 :: "u8 list \<Rightarrow> nat \<Rightarrow> nat \<Rightarrow> u32 \<Rightarrow> u8 list option" where
  "fill_crc32 mem hdr p len = do {
     d \<leftarrow> get_bytes mem p (unat len); put_bytes mem (hdr_priv hdr) (le_bytes 4 (fio_crc32 d)) }"

definition fill_crc32c :: "u8 list \<Rightarrow> nat \<Rightarrow> nat \<Rightarrow> u32 \<Rightarrow> u8 list option" where
  "fill_crc32c mem hdr p len = do {
     d \<leftarrow> get_bytes mem p (unat len); put_bytes mem (hdr_priv hdr) (le_bytes 4 (crc32c_sw d)) }"

definition fill_crc64 :: "u8 list \<Rightarrow> nat \<Rightarrow> nat \<Rightarrow> u32 \<Rightarrow> u8 list option" where
  "fill_crc64 mem hdr p len = do {
     d \<leftarrow> get_bytes mem p (unat len); put_bytes mem (hdr_priv hdr) (le_bytes 8 (fio_crc64 d)) }"

definition fill_md5 :: "u8 list \<Rightarrow> nat \<Rightarrow> nat \<Rightarrow> u32 \<Rightarrow> u8 list option" where
  "fill_md5 mem hdr p len = do {
     d \<leftarrow> get_bytes mem p (unat len); b \<leftarrow> md5_sum d len; put_bytes mem (hdr_priv hdr) b }"

text \<open>\<open>struct vhdr_meta\<close>: the offset at 0, the thread at 8, the number at 10, the times at 16 and 24.\<close>

definition meta_offset :: "verify_td \<Rightarrow> vio_u \<Rightarrow> u32 \<Rightarrow> u64" where
  "meta_offset td io_u header_num = iu_offset io_u + ucast (header_num * vo_interval (vt_o td))"

definition fill_meta :: "verify_td \<Rightarrow> vio_u \<Rightarrow> u8 list \<Rightarrow> nat \<Rightarrow> u32 \<Rightarrow> u8 list option" where
  "fill_meta td io_u mem hdr header_num = do {
     mem \<leftarrow> put_bytes mem (hdr_priv hdr + 8) [vt_thread td];
     mem \<leftarrow> put_bytes mem (hdr_priv hdr + 16) (le_bytes 8 (fst (iu_start io_u)));
     mem \<leftarrow> put_bytes mem (hdr_priv hdr + 24) (le_bytes 8 (snd (iu_start io_u)));
     mem \<leftarrow> put_bytes mem (hdr_priv hdr + 10) (le_bytes 2 (iu_numberio io_u));
     put_bytes mem (hdr_priv hdr) (le_bytes 8 (meta_offset td io_u header_num)) }"

definition populate_csum :: "(nat \<Rightarrow> u8) \<Rightarrow> verify_td \<Rightarrow> vio_u \<Rightarrow> u8 list \<Rightarrow> nat \<Rightarrow> nat \<Rightarrow> u32 \<Rightarrow> u32 \<Rightarrow> u8 list option" where
  "populate_csum junk td io_u mem hdr data data_len header_num = (case vo_verify (vt_o td) of
     VERIFY_MD5 \<Rightarrow> fill_md5 mem hdr data data_len
   | VERIFY_CRC64 \<Rightarrow> fill_crc64 mem hdr data data_len
   | VERIFY_CRC32C \<Rightarrow> fill_crc32c mem hdr data data_len
   | VERIFY_CRC32C_INTEL \<Rightarrow> fill_crc32c mem hdr data data_len
   | VERIFY_CRC32 \<Rightarrow> fill_crc32 mem hdr data data_len
   | VERIFY_CRC16 \<Rightarrow> fill_crc16 mem hdr data data_len
   | VERIFY_CRC7 \<Rightarrow> fill_crc7 mem hdr data data_len
   | VERIFY_SHA256 \<Rightarrow> fill_sha256 mem hdr data data_len
   | VERIFY_SHA512 \<Rightarrow> fill_sha512 mem hdr data data_len
   | VERIFY_XXHASH \<Rightarrow> fill_xxhash junk mem hdr data data_len
   | VERIFY_META \<Rightarrow> fill_meta td io_u mem hdr header_num
   | VERIFY_SHA1 \<Rightarrow> fill_sha1 mem hdr data data_len
   | VERIFY_PATTERN \<Rightarrow> Some mem
   | _ \<Rightarrow> None)"

definition populate_fields :: "verify_td \<Rightarrow> vio_u \<Rightarrow> u8 list \<Rightarrow> nat \<Rightarrow> u32 \<Rightarrow> u8 list option" where
  "populate_fields td io_u mem hdr header_len = do {
     mem \<leftarrow> put_bytes mem hdr (le_bytes 2 FIO_HDR_MAGIC);
     mem \<leftarrow> put_bytes mem (hdr + 2) (le_bytes 2 (verify_code (vo_verify (vt_o td))));
     mem \<leftarrow> put_bytes mem (hdr + 4) (le_bytes 4 header_len);
     mem \<leftarrow> put_bytes mem (hdr + 8) (le_bytes 8 (iu_rand_seed io_u));
     h \<leftarrow> get_bytes mem hdr 16;
     put_bytes mem (hdr + 16) (le_bytes 4 (crc32c_sw h)) }"

definition populate_hdr :: "(nat \<Rightarrow> u8) \<Rightarrow> verify_td \<Rightarrow> vio_u \<Rightarrow> u8 list \<Rightarrow> nat \<Rightarrow> u32 \<Rightarrow> u32 \<Rightarrow> u8 list option" where
  "populate_hdr junk td io_u mem hdr header_num header_len = do {
     mem \<leftarrow> populate_fields td io_u mem hdr header_len;
     hs \<leftarrow> hdr_size mem hdr;
     mem \<leftarrow> populate_csum junk td io_u mem hdr (hdr + unat hs) (header_len - hs) header_num;
     if vo_offset (vt_o td) \<noteq> 0
     then do { hs \<leftarrow> hdr_size mem hdr; memswp mem hdr (hdr + unat (vo_offset (vt_o td))) hs }
     else Some mem }"

partial_function (option) populate_loop ::
    "(nat \<Rightarrow> u8) \<Rightarrow> verify_td \<Rightarrow> vio_u \<Rightarrow> u32 \<Rightarrow> u8 list \<Rightarrow> nat \<Rightarrow> u32 \<Rightarrow> u8 list option" where
  "populate_loop junk td io_u hdr_inc mem p header_num =
     (if p < unat (iu_buflen io_u)
      then do {
        mem \<leftarrow> populate_hdr junk td io_u mem p header_num hdr_inc;
        populate_loop junk td io_u hdr_inc mem (p + unat hdr_inc) (header_num + 1) }
      else Some mem)"

declare populate_loop.simps [code]

definition fill_pattern_headers ::
    "(nat \<Rightarrow> u8) \<Rightarrow> verify_td \<Rightarrow> vio_u \<Rightarrow> u64 option \<Rightarrow> (verify_td \<times> vio_u) option" where
  "fill_pattern_headers junk td io_u use_seed = do {
     (td, io_u) \<leftarrow> fill_verify_pattern td io_u (ucast (iu_buflen io_u)) use_seed;
     b \<leftarrow> populate_loop junk td io_u (get_hdr_inc td io_u) (iu_buf io_u) 0 0;
     Some (td, io_u\<lparr>iu_buf := b\<rparr>) }"

definition populate_verify_io_u :: "(nat \<Rightarrow> u8) \<Rightarrow> verify_td \<Rightarrow> vio_u \<Rightarrow> (verify_td \<times> vio_u) option" where
  "populate_verify_io_u junk td io_u =
     (if vo_verify (vt_o td) = VERIFY_NULL then Some (td, io_u)
      else fill_pattern_headers junk td (io_u\<lparr>iu_numberio := ucast (vt_issues td (iu_ddir io_u))\<rparr>) None)"

section \<open>Checking headers\<close>

text \<open>\<open>io_u_verify_off\<close>, and the data that a check reads there.\<close>

definition io_u_verify_off :: "u8 list \<Rightarrow> nat \<Rightarrow> u32 \<Rightarrow> nat option" where
  "io_u_verify_off mem hdr hdr_num = do {
     l \<leftarrow> hdr_len mem hdr; hs \<leftarrow> hdr_size mem hdr; Some (unat (hdr_num * l) + unat hs) }"

definition verify_data :: "u8 list \<Rightarrow> nat \<Rightarrow> u32 \<Rightarrow> (u8 list \<times> u32) option" where
  "verify_data mem hdr hdr_num = do {
     p \<leftarrow> io_u_verify_off mem hdr hdr_num;
     l \<leftarrow> hdr_len mem hdr;
     hs \<leftarrow> hdr_size mem hdr;
     d \<leftarrow> get_bytes mem p (unat (l - hs));
     Some (d, l - hs) }"

definition verify_io_u_xxhash :: "(nat \<Rightarrow> u8) \<Rightarrow> u8 list \<Rightarrow> nat \<Rightarrow> u32 \<Rightarrow> u32 option" where
  "verify_io_u_xxhash junk mem hdr hdr_num = do {
     (d, len) \<leftarrow> verify_data mem hdr hdr_num;
     h \<leftarrow> xxhash_sum junk d len;
     v \<leftarrow> get_word mem (hdr_priv hdr) 4;
     Some (if v = h then 0 else EILSEQ) }"

definition verify_io_u_sha512 :: "(nat \<Rightarrow> u8) \<Rightarrow> u8 list \<Rightarrow> nat \<Rightarrow> u32 \<Rightarrow> u32 option" where
  "verify_io_u_sha512 junk mem hdr hdr_num = do {
     (d, len) \<leftarrow> verify_data mem hdr hdr_num;
     b \<leftarrow> sha512_left (uninit junk 128) d len;
     v \<leftarrow> get_bytes mem (hdr_priv hdr) 128;
     Some (if v = b then 0 else EILSEQ) }"

definition verify_io_u_sha256 :: "(nat \<Rightarrow> u8) \<Rightarrow> u8 list \<Rightarrow> nat \<Rightarrow> u32 \<Rightarrow> u32 option" where
  "verify_io_u_sha256 junk mem hdr hdr_num = do {
     (d, len) \<leftarrow> verify_data mem hdr hdr_num;
     b \<leftarrow> sha256_left (uninit junk 64) d len;
     v \<leftarrow> get_bytes mem (hdr_priv hdr) 64;
     Some (if v = b then 0 else EILSEQ) }"

definition verify_io_u_sha1 :: "u8 list \<Rightarrow> nat \<Rightarrow> u32 \<Rightarrow> u32 option" where
  "verify_io_u_sha1 mem hdr hdr_num = do {
     (d, len) \<leftarrow> verify_data mem hdr hdr_num;
     b \<leftarrow> sha1_sum d len;
     v \<leftarrow> get_bytes mem (hdr_priv hdr) 20;
     Some (if v = b then 0 else EILSEQ) }"

definition verify_io_u_crc7 :: "u8 list \<Rightarrow> nat \<Rightarrow> u32 \<Rightarrow> u32 option" where
  "verify_io_u_crc7 mem hdr hdr_num = do {
     (d, len) \<leftarrow> verify_data mem hdr hdr_num;
     v \<leftarrow> get_word mem (hdr_priv hdr) 1;
     Some (if fio_crc7 d = v then 0 else EILSEQ) }"

definition verify_io_u_crc16 :: "u8 list \<Rightarrow> nat \<Rightarrow> u32 \<Rightarrow> u32 option" where
  "verify_io_u_crc16 mem hdr hdr_num = do {
     (d, len) \<leftarrow> verify_data mem hdr hdr_num;
     v \<leftarrow> get_word mem (hdr_priv hdr) 2;
     Some (if fio_crc16 d = v then 0 else EILSEQ) }"

definition verify_io_u_crc64 :: "u8 list \<Rightarrow> nat \<Rightarrow> u32 \<Rightarrow> u32 option" where
  "verify_io_u_crc64 mem hdr hdr_num = do {
     (d, len) \<leftarrow> verify_data mem hdr hdr_num;
     v \<leftarrow> get_word mem (hdr_priv hdr) 8;
     Some (if fio_crc64 d = v then 0 else EILSEQ) }"

definition verify_io_u_crc32 :: "u8 list \<Rightarrow> nat \<Rightarrow> u32 \<Rightarrow> u32 option" where
  "verify_io_u_crc32 mem hdr hdr_num = do {
     (d, len) \<leftarrow> verify_data mem hdr hdr_num;
     v \<leftarrow> get_word mem (hdr_priv hdr) 4;
     Some (if fio_crc32 d = v then 0 else EILSEQ) }"

definition verify_io_u_crc32c :: "u8 list \<Rightarrow> nat \<Rightarrow> u32 \<Rightarrow> u32 option" where
  "verify_io_u_crc32c mem hdr hdr_num = do {
     (d, len) \<leftarrow> verify_data mem hdr hdr_num;
     v \<leftarrow> get_word mem (hdr_priv hdr) 4;
     Some (if crc32c_sw d = v then 0 else EILSEQ) }"

definition verify_io_u_md5 :: "u8 list \<Rightarrow> nat \<Rightarrow> u32 \<Rightarrow> u32 option" where
  "verify_io_u_md5 mem hdr hdr_num = do {
     (d, len) \<leftarrow> verify_data mem hdr hdr_num;
     b \<leftarrow> md5_sum d len;
     v \<leftarrow> get_bytes mem (hdr_priv hdr) 16;
     Some (if v = b then 0 else EILSEQ) }"

text \<open>The compare by pattern lengths, then the slow compare from where it stopped.\<close>

partial_function (option) pattern_fast :: "u8 list \<Rightarrow> nat \<Rightarrow> u8 list \<Rightarrow> u32 \<Rightarrow> u32 \<Rightarrow> u32 \<Rightarrow> u32 \<Rightarrow> (u32 \<times> u32) option" where
  "pattern_fast mem buf pattern pattern_size len i m =
     (if i < len
      then let size = (if len - i < pattern_size - m then len - i else pattern_size - m) in do {
        x \<leftarrow> get_bytes mem (buf + unat i) (unat size);
        y \<leftarrow> get_bytes pattern (unat m) (unat size);
        if x \<noteq> y then Some (i, m) else pattern_fast mem buf pattern pattern_size len (i + size) 0 }
      else Some (i, m))"

declare pattern_fast.simps [code]

partial_function (option) pattern_slow :: "u8 list \<Rightarrow> nat \<Rightarrow> u8 list \<Rightarrow> u32 \<Rightarrow> u32 \<Rightarrow> u32 \<Rightarrow> u32 \<Rightarrow> u32 option" where
  "pattern_slow mem buf pattern pattern_bytes len i m =
     (if i < len
      then do {
        x \<leftarrow> rd mem (buf + unat i);
        y \<leftarrow> rd pattern (unat m);
        if x \<noteq> y then Some EILSEQ
        else pattern_slow mem buf pattern pattern_bytes len (i + 1) (if m + 1 = pattern_bytes then 0 else m + 1) }
      else Some 0)"

declare pattern_slow.simps [code]

definition verify_io_u_pattern :: "verify_td \<Rightarrow> vio_u \<Rightarrow> u8 list \<Rightarrow> nat \<Rightarrow> u32 option" where
  "verify_io_u_pattern td io_u mem hdr =
     (let header_size = hdr_size0 (vo_verify (vt_o td));
          pattern = vo_pattern (vt_o td);
          pattern_size = (if vo_pattern_bytes (vt_o td) \<le> 1 then MAX_PATTERN_SIZE else vo_pattern_bytes (vt_o td));
          buf = hdr + unat header_size;
          len = get_hdr_inc td io_u - header_size
      in do {
        (i, m) \<leftarrow> pattern_fast mem buf pattern pattern_size len 0 (header_size mod pattern_size);
        pattern_slow mem buf pattern (vo_pattern_bytes (vt_o td)) len i m })"

definition verify_io_u_meta :: "verify_td \<Rightarrow> vio_u \<Rightarrow> u8 list \<Rightarrow> nat \<Rightarrow> u32 \<Rightarrow> u32 option" where
  "verify_io_u_meta td io_u mem hdr hdr_num = do {
     off \<leftarrow> get_word mem (hdr_priv hdr) 8;
     let ret = (if off = meta_offset td io_u hdr_num then 0 else EILSEQ);
     ret \<leftarrow> (if vo_pattern_bytes (vt_o td) \<noteq> 0
             then do { r \<leftarrow> verify_io_u_pattern td io_u mem hdr; Some (ret OR r) } else Some ret);
     nr \<leftarrow> get_word mem (hdr_priv hdr + 10) 2;
     Some (if vt_writes td \<and> (\<not> vo_only (vt_o td) \<or> vo_loops (vt_o td) = 0) \<and> nr \<noteq> iu_numberio io_u
           then EILSEQ else ret) }"

definition verify_header :: "vio_u \<Rightarrow> u8 list \<Rightarrow> nat \<Rightarrow> nat option" where
  "verify_header io_u mem hdr = do {
     magic \<leftarrow> hdr_magic mem hdr;
     if magic \<noteq> FIO_HDR_MAGIC then Some 1
     else do {
       len \<leftarrow> hdr_len mem hdr;
       if iu_buflen io_u < ucast len then Some 2
       else do {
         seed \<leftarrow> hdr_rand_seed mem hdr;
         if seed \<noteq> iu_rand_seed io_u then Some 3
         else do {
           h \<leftarrow> get_bytes mem hdr 16;
           c \<leftarrow> hdr_crc32 mem hdr;
           Some (if crc32c_sw h = c then 0 else 4) } } } }"

definition verify_csum :: "(nat \<Rightarrow> u8) \<Rightarrow> verify_td \<Rightarrow> vio_u \<Rightarrow> u8 list \<Rightarrow> nat \<Rightarrow> u32 \<Rightarrow> verify_type option \<Rightarrow> u32 option" where
  "verify_csum junk td io_u mem hdr hdr_num t = (case t of
     Some VERIFY_MD5 \<Rightarrow> verify_io_u_md5 mem hdr hdr_num
   | Some VERIFY_CRC64 \<Rightarrow> verify_io_u_crc64 mem hdr hdr_num
   | Some VERIFY_CRC32C \<Rightarrow> verify_io_u_crc32c mem hdr hdr_num
   | Some VERIFY_CRC32C_INTEL \<Rightarrow> verify_io_u_crc32c mem hdr hdr_num
   | Some VERIFY_CRC32 \<Rightarrow> verify_io_u_crc32 mem hdr hdr_num
   | Some VERIFY_CRC16 \<Rightarrow> verify_io_u_crc16 mem hdr hdr_num
   | Some VERIFY_CRC7 \<Rightarrow> verify_io_u_crc7 mem hdr hdr_num
   | Some VERIFY_SHA256 \<Rightarrow> verify_io_u_sha256 junk mem hdr hdr_num
   | Some VERIFY_SHA512 \<Rightarrow> verify_io_u_sha512 junk mem hdr hdr_num
   | Some VERIFY_XXHASH \<Rightarrow> verify_io_u_xxhash junk mem hdr hdr_num
   | Some VERIFY_META \<Rightarrow> verify_io_u_meta td io_u mem hdr hdr_num
   | Some VERIFY_SHA1 \<Rightarrow> verify_io_u_sha1 mem hdr hdr_num
   | Some VERIFY_PATTERN \<Rightarrow> verify_io_u_pattern td io_u mem hdr
   | _ \<Rightarrow> Some EINVAL)"

text \<open>
  One pass of the loop of \<open>verify_io_u\<close>. The sum says how it goes on: \<open>Inl r\<close> is the
  \<open>return r\<close> from inside the loop, \<open>Inr ret\<close> the next pass with this \<open>ret\<close>.
\<close>

definition verify_pass ::
    "(nat \<Rightarrow> u8) \<Rightarrow> verify_td \<Rightarrow> vio_u \<Rightarrow> nat \<Rightarrow> u32 \<Rightarrow> (vio_u \<times> (u32 + u32)) option" where
  "verify_pass junk td io_u p hdr_num =
     (let opts = vt_o td; header_size = hdr_size0 (vo_verify opts) in do {
        mem \<leftarrow> (if vo_offset opts \<noteq> 0 then memswp (iu_buf io_u) p (p + unat (vo_offset opts)) header_size
                else Some (iu_buf io_u));
        let io_u = io_u\<lparr>iu_buf := mem\<rparr>;
        io_u \<leftarrow> (if vo_sort opts \<or> vt_backlog td
                 then do { seed \<leftarrow> hdr_rand_seed mem p; Some (io_u\<lparr>iu_rand_seed := seed\<rparr>) }
                 else Some io_u);
        e \<leftarrow> verify_header io_u mem p;
        if e \<noteq> 0 then Some (io_u, Inl EILSEQ)
        else do {
          c \<leftarrow> hdr_verify_type mem p;
          ret \<leftarrow> verify_csum junk td io_u mem p hdr_num
                  (if vo_verify opts \<noteq> VERIFY_NONE then Some (vo_verify opts) else verify_of_code c);
          Some (io_u, Inr ret) } })"

partial_function (option) verify_loop ::
    "(nat \<Rightarrow> u8) \<Rightarrow> verify_td \<Rightarrow> u32 \<Rightarrow> vio_u \<Rightarrow> nat \<Rightarrow> u32 \<Rightarrow> u32 \<Rightarrow> (vio_u \<times> (u32 + u32)) option" where
  "verify_loop junk td hdr_inc io_u p hdr_num ret =
     (if p < unat (iu_buflen io_u)
      then if ret \<noteq> 0 \<and> vo_fatal (vt_o td) then Some (io_u, Inr ret)
      else do {
        (io_u, r) \<leftarrow> verify_pass junk td io_u p hdr_num;
        (case r of
           Inl r \<Rightarrow> Some (io_u, Inl r)
         | Inr ret \<Rightarrow> verify_loop junk td hdr_inc io_u (p + unat hdr_inc) (hdr_num + 1) ret) }
      else Some (io_u, Inr ret))"

declare verify_loop.simps [code]

partial_function (option) trimmed_loop :: "u8 list \<Rightarrow> nat \<Rightarrow> u32 \<Rightarrow> u32 option" where
  "trimmed_loop mem p len =
     (let this_len = (if len < 1024 then len else 1024) in do {
        x \<leftarrow> get_bytes mem p (unat this_len);
        if x \<noteq> replicate (unat this_len) 0 then Some EILSEQ
        else if len - this_len = 0 then Some 0
        else trimmed_loop mem (p + unat this_len) (len - this_len) })"

declare trimmed_loop.simps [code]

definition verify_trimmed_io_u :: "verify_td \<Rightarrow> vio_u \<Rightarrow> u32 option" where
  "verify_trimmed_io_u td io_u =
     (if \<not> vo_trim_zero (vt_o td) then Some 0 else trimmed_loop (iu_buf io_u) 0 (ucast (iu_buflen io_u)))"

text \<open>The code after the label \<open>done\<close>.\<close>

definition verify_done :: "verify_td \<Rightarrow> u32 \<Rightarrow> verify_td" where
  "verify_done td ret = (if ret \<noteq> 0 \<and> vo_fatal (vt_o td) then td\<lparr>vt_terminate := True\<rparr> else td)"

definition verify_io_u :: "(nat \<Rightarrow> u8) \<Rightarrow> verify_td \<Rightarrow> vio_u \<Rightarrow> (verify_td \<times> vio_u \<times> u32) option" where
  "verify_io_u junk td io_u =
     (if vo_verify (vt_o td) = VERIFY_NULL \<or> iu_ddir io_u \<noteq> DDIR_READ then Some (td, io_u, 0)
      else if iu_trimmed io_u then do { ret \<leftarrow> verify_trimmed_io_u td io_u; Some (verify_done td ret, io_u, ret) }
      else do {
        (io_u, r) \<leftarrow> verify_loop junk td (get_hdr_inc td io_u) io_u 0 0 0;
        (case r of Inl r \<Rightarrow> Some (td, io_u, r) | Inr ret \<Rightarrow> Some (verify_done td ret, io_u, ret)) })"

end
