(* ===== verification/Verify_Correct.thy ===== *)
theory Verify_Correct
  imports Verify
begin

text \<open>
  What the headers of \<^verbatim>\<open>verify.c\<close> are good for: a buffer that
  \<open>populate_verify_io_u\<close> prepared passes \<open>verify_io_u\<close>, for every type of header,
  every interval and every header offset; what the checks do not notice; how the results of several
  headers combine.
\<close>

section \<open>Stores and loads\<close>

lemma put_bytes_eq: "p + length bs \<le> length mem \<Longrightarrow> put_bytes mem p bs = Some (take p mem @ bs @ drop (p + length bs) mem)"
  by (simp add: put_bytes_def)

lemma get_bytes_Some_iff: "get_bytes mem p n = Some c \<longleftrightarrow> p + n \<le> length mem \<and> c = take n (drop p mem)"
  by (auto simp: get_bytes_def)

lemma get_bytes_length: "get_bytes mem p n = Some c \<Longrightarrow> length c = n"
  by (auto simp: get_bytes_Some_iff)

lemma get_bytes_sub:
  "get_bytes mem p n = Some c \<Longrightarrow> q + k \<le> n \<Longrightarrow> get_bytes mem (p + q) k = Some (take k (drop q c))"
  by (auto simp: get_bytes_Some_iff drop_take min_def add.commute)

lemma get_bytes_split:
  "get_bytes mem p n = Some (a @ b) \<Longrightarrow> get_bytes mem p (length a) = Some a \<and> get_bytes mem (p + length a) (length b) = Some b"
proof -
  assume c: "get_bytes mem p n = Some (a @ b)"
  then have n: "n = length a + length b" by (auto dest: get_bytes_length)
  then show ?thesis
    using get_bytes_sub [OF c, of 0 "length a"] get_bytes_sub [OF c, of "length a" "length b"] by simp
qed

lemma get_bytes_append:
  "get_bytes mem p j = Some a \<Longrightarrow> get_bytes mem (p + j) k = Some b \<Longrightarrow> get_bytes mem p (j + k) = Some (a @ b)"
  by (auto simp: get_bytes_Some_iff take_add add.commute)

text \<open>\<open>writes mem mem' p n\<close>: the two differ at most between \<open>p\<close> and \<open>p + n\<close>.\<close>

definition writes :: "u8 list \<Rightarrow> u8 list \<Rightarrow> nat \<Rightarrow> nat \<Rightarrow> bool" where
  "writes mem mem' p n \<longleftrightarrow> length mem' = length mem \<and> take p mem' = take p mem \<and> drop (p + n) mem' = drop (p + n) mem"

lemma writes_refl [simp]: "writes mem mem p n"
  by (simp add: writes_def)

lemma writes_trans: "writes a b p n \<Longrightarrow> writes b c p n \<Longrightarrow> writes a c p n"
  by (simp add: writes_def)

lemma writes_mono:
  assumes "writes mem mem' p n" "q \<le> p" "p + n \<le> q + k"
  shows "writes mem mem' q k"
proof -
  have "take q mem' = take q (take p mem')" "take q mem = take q (take p mem)" using assms(2) by (simp_all add: min_def)
  moreover have "drop (q + k) mem' = drop (q + k - (p + n)) (drop (p + n) mem')"
    "drop (q + k) mem = drop (q + k - (p + n)) (drop (p + n) mem)" using assms(3) by simp_all
  ultimately show ?thesis using assms(1) by (simp only: writes_def)
qed

lemma writes_put: "put_bytes mem p bs = Some mem' \<Longrightarrow> writes mem mem' p (length bs)"
  by (auto simp: put_bytes_def writes_def split: if_splits)

lemma get_put: "put_bytes mem p bs = Some mem' \<Longrightarrow> get_bytes mem' p (length bs) = Some bs"
  by (auto simp: put_bytes_def get_bytes_def split: if_splits)

lemma get_writes:
  assumes "writes mem mem' p n" "q + k \<le> p \<or> p + n \<le> q"
  shows "get_bytes mem' q k = get_bytes mem q k"
proof -
  have "take k (drop q mem') = take k (drop q mem)"
    using assms(2)
  proof
    assume q: "q + k \<le> p"
    have "take k (drop q m) = take k (drop q (take p m))" for m :: "u8 list"
      using q by (simp add: drop_take min_def)
    then show ?thesis using assms(1) by (metis writes_def)
  next
    assume "p + n \<le> q"
    then have "drop q m = drop (q - (p + n)) (drop (p + n) m)" for m :: "u8 list" by simp
    then show ?thesis using assms(1) by (metis writes_def)
  qed
  then show ?thesis using assms(1) by (simp add: get_bytes_def writes_def)
qed

lemma nth_splice:
  "p + length bs \<le> length mem \<Longrightarrow> j < length mem \<Longrightarrow>
    (take p mem @ bs @ drop (p + length bs) mem) ! j = (if p \<le> j \<and> j < p + length bs then bs ! (j - p) else mem ! j)"
  by (auto simp: nth_append)

lemma put_bytes_within: "p + length bs \<le> length mem \<Longrightarrow> \<exists>mem'. put_bytes mem p bs = Some mem'"
  by (simp add: put_bytes_def)

text \<open>Two stores that follow each other are one.\<close>

lemma put_put:
  assumes "put_bytes mem p a = Some m1" "put_bytes m1 (p + length a) b = Some m2"
  shows "put_bytes mem p (a @ b) = Some m2"
  using assms by (auto simp: put_bytes_def add.commute add.left_commute split: if_splits)

section \<open>Words in memory\<close>

lemma bit_le_word:
  "bit (le_word bs :: 'a::len word) i \<longleftrightarrow> i < LENGTH('a) \<and> i div 8 < length bs \<and> bit (bs ! (i div 8)) (i mod 8)"
proof (induction bs arbitrary: i)
  case (Cons b bs)
  have w: "le_word (b # bs) = push_bit 8 (le_word bs) OR (ucast b :: 'a word)" by (simp add: le_word_def)
  show ?case
  proof (cases "i < 8")
    case True
    then show ?thesis unfolding w by (auto simp: bit_simps)
  next
    case False
    then have "i div 8 = Suc ((i - 8) div 8)" "i mod 8 = (i - 8) mod 8"
      by (simp_all add: le_div_geq le_mod_geq)
    moreover have "\<not> bit b i" using False by (auto dest: bit_imp_le_length)
    ultimately show ?thesis unfolding w using False Cons.IH [of "i - 8"] by (auto simp: bit_simps)
  qed
qed (simp add: le_word_def)

lemma bit_le_bytes: "j < n \<Longrightarrow> bit (le_bytes n w ! j) k \<longleftrightarrow> k < 8 \<and> bit w (8 * j + k)"
  by (auto simp: le_bytes_def bit_simps)

lemma le_word_le_bytes: "8 * n = LENGTH('a) \<Longrightarrow> le_word (le_bytes n (w :: 'a::len word)) = w"
proof (rule bit_word_eqI)
  fix i
  assume n: "8 * n = LENGTH('a)" and "i < LENGTH('a)"
  then have "i div 8 < n" by simp
  then show "bit (le_word (le_bytes n w) :: 'a word) i \<longleftrightarrow> bit w i"
    using \<open>i < LENGTH('a)\<close> by (simp add: bit_le_word bit_le_bytes)
qed

lemma get_word_put:
  assumes "get_bytes mem p n = Some (le_bytes n w)" "8 * n = LENGTH('a)"
  shows "get_word mem p n = Some (w :: 'a::len word)"
  using assms by (simp add: get_word_def le_word_le_bytes)

section \<open>The contract of a kind of header\<close>

text \<open>
  A kind of header has a size, a relation between its contents and the data, a function that writes it
  and one that checks it. The contract: what was written is in the relation, and a check accepts what is in
  the relation. Its lemma is the round trip.
\<close>

locale verify_method =
  fixes vsize :: nat
    and ok :: "u8 list \<Rightarrow> u8 list \<Rightarrow> bool"
    and fill :: "u8 list \<Rightarrow> nat \<Rightarrow> nat \<Rightarrow> u32 \<Rightarrow> u8 list option"
    and check :: "u8 list \<Rightarrow> nat \<Rightarrow> u32 \<Rightarrow> u32 option"
    and len_ok :: "nat \<Rightarrow> bool"
  assumes fill_ok: "len_ok (unat len) \<Longrightarrow> get_bytes mem p (unat len) = Some d \<Longrightarrow> hdr_priv hdr + vsize \<le> length mem \<Longrightarrow>
      \<exists>v mem'. fill mem hdr p len = Some mem' \<and> put_bytes mem (hdr_priv hdr) v = Some mem' \<and> length v = vsize \<and> ok v d"
    and check_ok: "get_bytes mem (hdr_priv hdr) vsize = Some v \<Longrightarrow> verify_data mem hdr k = Some (d, of_nat (length d)) \<Longrightarrow>
      len_ok (length d) \<Longrightarrow> ok v d \<Longrightarrow> check mem hdr k = Some 0"
begin

lemma check_fill:
  assumes "len_ok (unat len)" "get_bytes mem p (unat len) = Some d" "hdr_priv hdr + vsize \<le> p"
  shows "\<exists>mem' v. fill mem hdr p len = Some mem' \<and> writes mem mem' (hdr_priv hdr) vsize
    \<and> get_bytes mem' (hdr_priv hdr) vsize = Some v \<and> get_bytes mem' p (unat len) = Some d
    \<and> (\<forall>mem2 hdr2 k. get_bytes mem2 (hdr_priv hdr2) vsize = Some v \<longrightarrow> verify_data mem2 hdr2 k = Some (d, len)
          \<longrightarrow> check mem2 hdr2 k = Some 0)"
proof -
  have "p \<le> length mem" "length d = unat len" using assms(2) by (auto simp: get_bytes_Some_iff)
  then have d: "len_ok (length d)" "of_nat (length d) = len" using assms(1) by simp_all
  have "hdr_priv hdr + vsize \<le> length mem" using assms(3) \<open>p \<le> length mem\<close> by simp
  from fill_ok [OF assms(1,2) this] obtain v mem' where
    v: "fill mem hdr p len = Some mem'" "put_bytes mem (hdr_priv hdr) v = Some mem'" "length v = vsize" "ok v d" by blast
  have w: "writes mem mem' (hdr_priv hdr) vsize" using writes_put [OF v(2)] v(3) by simp
  have "get_bytes mem' p (unat len) = Some d" using get_writes [OF w] assms(2,3) by simp
  then show ?thesis using v w get_put [OF v(2)] check_ok [OF _ _ d(1) v(4)] d(2) by auto
qed

end

interpretation vm_crc7: verify_method 1 "\<lambda>v d. v = le_bytes 1 (fio_crc7 d)" fill_crc7 verify_io_u_crc7 "\<lambda>_. True"
proof (unfold_locales, goal_cases)
  case (1 len mem p d hdr)
  then show ?case using put_bytes_within [of "hdr_priv hdr" "le_bytes 1 (fio_crc7 d)" mem]
    by (auto simp: fill_crc7_def)
next
  case (2 mem hdr v k d)
  then show ?case by (auto simp: verify_io_u_crc7_def get_word_put)
qed

interpretation vm_crc16: verify_method 2 "\<lambda>v d. v = le_bytes 2 (fio_crc16 d)" fill_crc16 verify_io_u_crc16 "\<lambda>_. True"
proof (unfold_locales, goal_cases)
  case (1 len mem p d hdr)
  then show ?case using put_bytes_within [of "hdr_priv hdr" "le_bytes 2 (fio_crc16 d)" mem]
    by (auto simp: fill_crc16_def)
next
  case (2 mem hdr v k d)
  then show ?case by (auto simp: verify_io_u_crc16_def get_word_put)
qed

interpretation vm_crc32: verify_method 4 "\<lambda>v d. v = le_bytes 4 (fio_crc32 d)" fill_crc32 verify_io_u_crc32 "\<lambda>_. True"
proof (unfold_locales, goal_cases)
  case (1 len mem p d hdr)
  then show ?case using put_bytes_within [of "hdr_priv hdr" "le_bytes 4 (fio_crc32 d)" mem]
    by (auto simp: fill_crc32_def)
next
  case (2 mem hdr v k d)
  then show ?case by (auto simp: verify_io_u_crc32_def get_word_put)
qed

interpretation vm_crc32c: verify_method 4 "\<lambda>v d. v = le_bytes 4 (crc32c_sw d)" fill_crc32c verify_io_u_crc32c "\<lambda>_. True"
proof (unfold_locales, goal_cases)
  case (1 len mem p d hdr)
  then show ?case using put_bytes_within [of "hdr_priv hdr" "le_bytes 4 (crc32c_sw d)" mem]
    by (auto simp: fill_crc32c_def)
next
  case (2 mem hdr v k d)
  then show ?case by (auto simp: verify_io_u_crc32c_def get_word_put)
qed

interpretation vm_crc64: verify_method 8 "\<lambda>v d. v = le_bytes 8 (fio_crc64 d)" fill_crc64 verify_io_u_crc64 "\<lambda>_. True"
proof (unfold_locales, goal_cases)
  case (1 len mem p d hdr)
  then show ?case using put_bytes_within [of "hdr_priv hdr" "le_bytes 8 (fio_crc64 d)" mem]
    by (auto simp: fill_crc64_def)
next
  case (2 mem hdr v k d)
  then show ?case by (auto simp: verify_io_u_crc64_def get_word_put)
qed

lemma md5_sum_defined: "length d < 2 ^ 31 \<Longrightarrow> \<exists>v. md5_sum d (of_nat (length d)) = Some v \<and> length v = 16"
proof -
  assume d: "length d < 2 ^ 31"
  let ?c = "fio_md5_init \<lparr>md5_hash = (0, 0, 0, 0), md5_block = replicate 64 0, md5_byte_count = 0\<rparr>"
  have "md5_wf ?c" by (simp add: md5_wf_def fio_md5_init_def)
  then obtain c' where "fio_md5_update ?c d (of_nat (length d)) = Some c'"
    using md5_update_absorbs [of ?c d] d unfolding md5_feed_def by auto
  then show ?thesis by (auto simp: md5_sum_def md5_bytes_def split: prod.splits)
qed

lemma sha1_sum_defined: "length d < 2 ^ 31 \<Longrightarrow> \<exists>v. sha1_sum d (of_nat (length d)) = Some v \<and> length v = 20"
proof -
  assume d: "length d < 2 ^ 31"
  let ?c = "fio_sha1_init \<lparr>sha1_H = (0, 0, 0, 0, 0), sha1_W = replicate 64 0, sha1_size = 0\<rparr>"
  have "sha1_wf ?c" by (simp add: sha1_wf_def fio_sha1_init_def)
  moreover have "unat (ucast (of_nat (length d) :: u32) :: u64) \<le> length d"
    using d by (simp add: unat_ucast_64 unat_of_nat)
  ultimately obtain c' where "fio_sha1_update ?c d (ucast (of_nat (length d) :: u32)) = Some c'"
    using sha1_update_absorbs [of ?c _ d] by blast
  then show ?thesis by (auto simp: sha1_sum_def sha1_bytes_def split: prod.splits)
qed

interpretation vm_md5: verify_method 16 "\<lambda>v d. md5_sum d (of_nat (length d)) = Some v" fill_md5 verify_io_u_md5 "\<lambda>n. n < 2 ^ 31"
proof (unfold_locales, goal_cases)
  case (1 len mem p d hdr)
  then have "of_nat (length d) = len" by (auto dest: get_bytes_length)
  moreover obtain v where "md5_sum d (of_nat (length d)) = Some v" "length v = 16"
    using md5_sum_defined [of d] 1(1) get_bytes_length [OF 1(2)] by auto
  moreover from this obtain m where "put_bytes mem (hdr_priv hdr) v = Some m"
    using put_bytes_within [of "hdr_priv hdr" v mem] 1(3) by auto
  ultimately show ?case using 1(2) by (auto simp: fill_md5_def)
next
  case (2 mem hdr v k d)
  then show ?case by (auto simp: verify_io_u_md5_def)
qed

interpretation vm_sha1: verify_method 20 "\<lambda>v d. sha1_sum d (of_nat (length d)) = Some v" fill_sha1 verify_io_u_sha1 "\<lambda>n. n < 2 ^ 31"
proof (unfold_locales, goal_cases)
  case (1 len mem p d hdr)
  then have "of_nat (length d) = len" by (auto dest: get_bytes_length)
  moreover obtain v where "sha1_sum d (of_nat (length d)) = Some v" "length v = 20"
    using sha1_sum_defined [of d] 1(1) get_bytes_length [OF 1(2)] by auto
  moreover from this obtain m where "put_bytes mem (hdr_priv hdr) v = Some m"
    using put_bytes_within [of "hdr_priv hdr" v mem] 1(3) by auto
  ultimately show ?case using 1(2) by (auto simp: fill_sha1_def)
next
  case (2 mem hdr v k d)
  then show ?case by (auto simp: verify_io_u_sha1_def)
qed

lemma sha2_leftover_length: "0 < B \<Longrightarrow> B \<le> length d \<Longrightarrow> length (sha2_leftover B d) = B"
  by (simp add: sha2_leftover_def Let_def less_imp_le)

lemma sha256_left_eq:
  assumes "length b = 64" "64 \<le> length d" "length d < 2 ^ 31"
  shows "sha256_left b d (of_nat (length d)) = Some (sha2_leftover 64 d)"
proof -
  have B: "(0 :: u32) < 64" "length b = unat (64 :: u32)" "length d + unat (64 :: u32) < 2 ^ 32" "unat (64 :: u32) \<le> length d"
    using assms by simp_all
  have len: "unat (of_nat (length d) :: u32) = length d" using assms(3) by (simp add: unat_of_nat)
  obtain h where "sha2_absorb 64 sha256_transform sha256_H b 0 d (of_nat (length d)) = Some (h, sha2_leftover (unat (64 :: u32)) d)"
    using sha2_absorb_fresh [OF B(1-3) len B(4), of sha256_transform sha256_H] by blast
  then show ?thesis
    by (cases h) (simp add: sha256_left_def fio_sha256_update_def fio_sha256_init_def Let_def)
qed

interpretation vm_sha256: verify_method 64 "\<lambda>v d. v = sha2_leftover 64 d" fill_sha256 "verify_io_u_sha256 junk" "\<lambda>n. 64 \<le> n \<and> n < 2 ^ 31" for junk
proof (unfold_locales, goal_cases)
  case (1 len mem p d hdr)
  have d: "length d = unat len" using get_bytes_length [OF 1(2)] .
  obtain v where v: "get_bytes mem (hdr_priv hdr) 64 = Some v" "length v = 64"
    using 1(3) by (auto simp: get_bytes_def)
  have len: "len = of_nat (length d)" using d by simp
  have "64 \<le> length d" "length d < 2 ^ 31" using 1(1) d by simp_all
  from sha256_left_eq [OF v(2) this] have "sha256_left v d len = Some (sha2_leftover 64 d)" unfolding len .
  moreover have l: "length (sha2_leftover 64 d) = 64" using \<open>64 \<le> length d\<close> by (simp add: sha2_leftover_length)
  moreover obtain m where "put_bytes mem (hdr_priv hdr) (sha2_leftover 64 d) = Some m"
    using put_bytes_within [of "hdr_priv hdr" "sha2_leftover 64 d" mem] 1(3) l by auto
  ultimately show ?case using 1(2) v(1) by (auto simp: fill_sha256_def)
next
  case (2 mem hdr v k d)
  then show ?case using sha256_left_eq [of "uninit junk 64" d]
    by (auto simp: verify_io_u_sha256_def)
qed

lemma sha512_left_eq:
  assumes "length b = 128" "128 \<le> length d" "length d < 2 ^ 31"
  shows "sha512_left b d (of_nat (length d)) = Some (sha2_leftover 128 d)"
proof -
  have B: "(0 :: u32) < 128" "length b = unat (128 :: u32)" "length d + unat (128 :: u32) < 2 ^ 32" "unat (128 :: u32) \<le> length d"
    using assms by simp_all
  have len: "unat (of_nat (length d) :: u32) = length d" using assms(3) by (simp add: unat_of_nat)
  obtain h where "sha2_absorb 128 sha512_transform (sha512_H, replicate 80 0) b 0 d (of_nat (length d)) = Some (h, sha2_leftover (unat (128 :: u32)) d)"
    using sha2_absorb_fresh [OF B(1-3) len B(4), of sha512_transform "(sha512_H, replicate 80 0)"] by blast
  then show ?thesis
    by (cases h) (simp add: sha512_left_def fio_sha512_update_def fio_sha512_init_def Let_def)
qed

interpretation vm_sha512: verify_method 128 "\<lambda>v d. v = sha2_leftover 128 d" fill_sha512 "verify_io_u_sha512 junk" "\<lambda>n. 128 \<le> n \<and> n < 2 ^ 31" for junk
proof (unfold_locales, goal_cases)
  case (1 len mem p d hdr)
  have d: "length d = unat len" using get_bytes_length [OF 1(2)] .
  obtain v where v: "get_bytes mem (hdr_priv hdr) 128 = Some v" "length v = 128"
    using 1(3) by (auto simp: get_bytes_def)
  have len: "len = of_nat (length d)" using d by simp
  have "128 \<le> length d" "length d < 2 ^ 31" using 1(1) d by simp_all
  from sha512_left_eq [OF v(2) this] have "sha512_left v d len = Some (sha2_leftover 128 d)" unfolding len .
  moreover have l: "length (sha2_leftover 128 d) = 128" using \<open>128 \<le> length d\<close> by (simp add: sha2_leftover_length)
  moreover obtain m where "put_bytes mem (hdr_priv hdr) (sha2_leftover 128 d) = Some m"
    using put_bytes_within [of "hdr_priv hdr" "sha2_leftover 128 d" mem] 1(3) l by auto
  ultimately show ?case using 1(2) v(1) by (auto simp: fill_sha512_def)
next
  case (2 mem hdr v k d)
  then show ?case using sha512_left_eq [of "uninit junk 128" d]
    by (auto simp: verify_io_u_sha512_def)
qed

lemma xxhash_sum_eq:
  assumes "length d < 2 ^ 31"
  shows "xxhash_sum junk d (of_nat (length d)) = Some (xxh32 XXH_littleEndian 1 d)"
proof -
  let ?s = "XXH32_resetState \<lparr>xxh_total_len = 0, xxh_seed = 0, xxh_v = (0, 0, 0, 0), xxh_memsize = 0, xxh_memory = uninit junk 16\<rparr> 1"
  have len: "unat (of_nat (length d) :: u32) = length d" using assms by (simp add: unat_of_nat)
  have s: "xxh_wf ?s" "xxh_pending ?s = []" "xxh_total_len ?s = 0" "xxh_seed ?s = 1" "xxh_v ?s = xxh_start 1"
    by (simp_all add: xxh_wf_def xxh_pending_def XXH32_resetState_def)
  from xxh_update_absorbs [OF s(1), of XXH_littleEndian d] s obtain s' where
    s': "xxh_feed XXH_littleEndian ?s d = Some s'" "xxh_wf s'" "xxh_total_len s' = of_nat (length d)" "xxh_seed s' = 1"
    "(xxh_v s', xxh_pending s') = absorb 16 (xxh_block XXH_littleEndian) (xxh_start 1) d"
    by auto
  have "(of_nat (length d) :: u32) < 0x80000000" using len assms by (simp add: word_less_nat_alt)
  moreover have "XXH32_intermediateDigest_endian s' XXH_littleEndian = Some (xxh32 XXH_littleEndian 1 d)"
    using xxh_digest_eq [OF s'(2,3) _ s'(4,5)] assms by simp
  ultimately show ?thesis using s'(1) len unfolding xxhash_sum_def xxh_feed_def by simp
qed

interpretation vm_xxhash: verify_method 4 "\<lambda>v d. v = le_bytes 4 (xxh32 XXH_littleEndian 1 d)"
  "fill_xxhash junk" "verify_io_u_xxhash junk'" "\<lambda>n. n < 2 ^ 31" for junk junk'
proof (unfold_locales, goal_cases)
  case (1 len mem p d hdr)
  have d: "length d = unat len" using get_bytes_length [OF 1(2)] .
  have len: "len = of_nat (length d)" using d by simp
  have "length d < 2 ^ 31" using 1(1) d by simp
  from xxhash_sum_eq [OF this] have "xxhash_sum junk d len = Some (xxh32 XXH_littleEndian 1 d)" unfolding len .
  then show ?case using put_bytes_within [of "hdr_priv hdr" "le_bytes 4 (xxh32 XXH_littleEndian 1 d)" mem] 1(2,3)
    by (auto simp: fill_xxhash_def)
next
  case (2 mem hdr v k d)
  then show ?case using xxhash_sum_eq [of d junk']
    by (auto simp: verify_io_u_xxhash_def get_word_put)
qed

section \<open>One header\<close>

definition header_bytes :: "verify_td \<Rightarrow> vio_u \<Rightarrow> u32 \<Rightarrow> u8 list" where
  "header_bytes td u inc = le_bytes 2 FIO_HDR_MAGIC @ le_bytes 2 (verify_code (vo_verify (vt_o td)))
     @ le_bytes 4 inc @ le_bytes 8 (iu_rand_seed u)"

definition sealed_bytes :: "verify_td \<Rightarrow> vio_u \<Rightarrow> u32 \<Rightarrow> u8 list" where
  "sealed_bytes td u inc = header_bytes td u inc @ le_bytes 4 (crc32c_sw (header_bytes td u inc))"

lemma length_header [simp]: "length (header_bytes td u inc) = 16" "length (sealed_bytes td u inc) = 20"
  by (simp_all add: header_bytes_def sealed_bytes_def)

lemma populate_fields_eq:
  assumes "hdr + 20 \<le> length mem"
  shows "populate_fields td u mem hdr inc = put_bytes mem hdr (sealed_bytes td u inc)"
proof -
  let ?a = "le_bytes 2 FIO_HDR_MAGIC" and ?b = "le_bytes 2 (verify_code (vo_verify (vt_o td)))"
    and ?c = "le_bytes 4 inc" and ?d = "le_bytes 8 (iu_rand_seed u)"
  obtain m1 where m1: "put_bytes mem hdr ?a = Some m1" using put_bytes_within [of hdr ?a mem] assms by auto
  note l1 = put_bytes_length [OF m1]
  obtain m2 where m2: "put_bytes m1 (hdr + 2) ?b = Some m2" using put_bytes_within [of "hdr + 2" ?b m1] assms l1 by auto
  have p2: "put_bytes mem hdr (?a @ ?b) = Some m2" using put_put [OF m1, of ?b] m2 by simp
  note l2 = put_bytes_length [OF p2]
  obtain m3 where m3: "put_bytes m2 (hdr + 4) ?c = Some m3" using put_bytes_within [of "hdr + 4" ?c m2] assms l2 by auto
  have p3: "put_bytes mem hdr (?a @ ?b @ ?c) = Some m3" using put_put [OF p2, of ?c] m3 by simp
  note l3 = put_bytes_length [OF p3]
  obtain m4 where m4: "put_bytes m3 (hdr + 8) ?d = Some m4" using put_bytes_within [of "hdr + 8" ?d m3] assms l3 by auto
  have p4: "put_bytes mem hdr (header_bytes td u inc) = Some m4"
    using put_put [OF p3, of ?d] m4 by (simp add: header_bytes_def)
  note l4 = put_bytes_length [OF p4]
  have g: "get_bytes m4 hdr 16 = Some (header_bytes td u inc)" using get_put [OF p4] by simp
  let ?e = "le_bytes 4 (crc32c_sw (header_bytes td u inc))"
  obtain m5 where m5: "put_bytes m4 (hdr + 16) ?e = Some m5" using put_bytes_within [of "hdr + 16" ?e m4] assms l4 by auto
  then have "put_bytes mem hdr (sealed_bytes td u inc) = Some m5"
    using put_put [OF p4, of ?e] by (simp add: sealed_bytes_def)
  then show ?thesis unfolding populate_fields_def using m1 m2 m3 m4 m5 g by simp
qed

lemma verify_of_code: "verify_of_code (verify_code t) = Some t"
  by (cases t) (simp_all add: verify_of_code_def verify_types_def)

lemma vhdr_size_le: "vhdr_size t \<le> 128"
  by (cases t) simp_all

lemma unat_hdr_size0: "unat (hdr_size0 t) = vhdr_size t + 24"
  by (cases t) (simp_all add: hdr_size0_def)

lemma get_bytes_parts:
  assumes "get_bytes mem p n = Some (a @ b @ c)"
  shows "get_bytes mem (p + length a) (length b) = Some b"
proof -
  have "n = length a + (length b + length c)" using get_bytes_length [OF assms] by simp
  then show ?thesis using get_bytes_sub [OF assms, of "length a" "length b"] by simp
qed

lemma header_fields:
  assumes "get_bytes mem p 20 = Some (sealed_bytes td u inc)"
  shows "hdr_magic mem p = Some FIO_HDR_MAGIC" "hdr_verify_type mem p = Some (verify_code (vo_verify (vt_o td)))"
    "hdr_len mem p = Some inc" "hdr_rand_seed mem p = Some (iu_rand_seed u)"
    "get_bytes mem p 16 = Some (header_bytes td u inc)"
    "hdr_crc32 mem p = Some (crc32c_sw (header_bytes td u inc))"
    "hdr_size mem p = Some (hdr_size0 (vo_verify (vt_o td)))"
proof -
  let ?a = "le_bytes 2 FIO_HDR_MAGIC" and ?b = "le_bytes 2 (verify_code (vo_verify (vt_o td)))"
    and ?c = "le_bytes 4 inc" and ?d = "le_bytes 8 (iu_rand_seed u)"
    and ?e = "le_bytes 4 (crc32c_sw (header_bytes td u inc))"
  have g: "get_bytes mem p 20 = Some (?a @ ?b @ ?c @ ?d @ ?e)"
    using assms by (simp add: sealed_bytes_def header_bytes_def)
  show "hdr_magic mem p = Some FIO_HDR_MAGIC"
    using get_bytes_parts [of mem p 20 "[]" ?a] g unfolding hdr_magic_def by (intro get_word_put) simp_all
  show t: "hdr_verify_type mem p = Some (verify_code (vo_verify (vt_o td)))"
    using get_bytes_parts [of mem p 20 ?a ?b] g unfolding hdr_verify_type_def by (intro get_word_put) simp_all
  show "hdr_len mem p = Some inc"
    using get_bytes_parts [of mem p 20 "?a @ ?b" ?c] g unfolding hdr_len_def by (intro get_word_put) simp_all
  show "hdr_rand_seed mem p = Some (iu_rand_seed u)"
    using get_bytes_parts [of mem p 20 "?a @ ?b @ ?c" ?d] g unfolding hdr_rand_seed_def by (intro get_word_put) simp_all
  show "get_bytes mem p 16 = Some (header_bytes td u inc)"
    using get_bytes_parts [of mem p 20 "[]" "header_bytes td u inc" ?e] assms by (simp add: sealed_bytes_def)
  show "hdr_crc32 mem p = Some (crc32c_sw (header_bytes td u inc))"
    using get_bytes_parts [of mem p 20 "header_bytes td u inc" ?e "[]"] assms unfolding hdr_crc32_def
    by (intro get_word_put) (simp_all add: sealed_bytes_def)
  show "hdr_size mem p = Some (hdr_size0 (vo_verify (vt_o td)))" by (simp add: hdr_size_def t verify_of_code)
qed

text \<open>A stretch of the buffer with a header and its data passes the check of the header.\<close>

lemma verify_header_ok:
  assumes "get_bytes mem p 20 = Some (sealed_bytes td u inc)" "ucast inc \<le> iu_buflen u"
  shows "verify_header u mem p = Some 0"
  using header_fields [OF assms(1)] assms(2) by (simp add: verify_header_def not_less [symmetric])

lemma verify_data_ok:
  assumes "get_bytes mem p 20 = Some (sealed_bytes td u inc)" "p = unat (k * inc)"
    and "get_bytes mem (p + unat (hdr_size0 (vo_verify (vt_o td)))) (unat (inc - hdr_size0 (vo_verify (vt_o td)))) = Some d"
  shows "verify_data mem p k = Some (d, inc - hdr_size0 (vo_verify (vt_o td)))"
  using header_fields [OF assms(1)] assms(2,3) by (simp add: verify_data_def io_u_verify_off_def)

section \<open>Patterns\<close>

text \<open>\<open>pat td\<close> is the pattern as the code repeats it.\<close>

definition pat_size :: "verify_td \<Rightarrow> nat" where
  "pat_size td = (if vo_pattern_bytes (vt_o td) \<le> 1 then 512 else unat (vo_pattern_bytes (vt_o td)))"

definition pat :: "verify_td \<Rightarrow> nat \<Rightarrow> u8" where
  "pat td i = vo_pattern (vt_o td) ! (i mod pat_size td)"

definition pattern_wf :: "verify_td \<Rightarrow> bool" where
  "pattern_wf td \<longleftrightarrow> length (vo_pattern (vt_o td)) = 512 \<and> pat_size td \<le> 512 \<and>
     (vo_pattern_bytes (vt_o td) = 1 \<longrightarrow> (\<forall>j < 512. vo_pattern (vt_o td) ! j = vo_pattern (vt_o td) ! 0))"

lemma pat_size_pos: "0 < pat_size td"
proof (cases "vo_pattern_bytes (vt_o td) \<le> 1")
  case False
  then have "0 < unat (vo_pattern_bytes (vt_o td))" by (simp add: word_le_nat_alt not_le)
  then show ?thesis using False by (simp add: pat_size_def)
qed (simp add: pat_size_def)

lemma fill_pattern_loop_eq:
  assumes "0 < unat n" "unat n \<le> length pattern" "unat len \<le> length mem" "unat i \<le> unat len" "unat n dvd unat i \<or> unat i = unat len"
  shows "\<exists>mem'. fill_pattern_loop mem i len pattern n = Some mem' \<and> length mem' = length mem
    \<and> (\<forall>j < length mem. mem' ! j = (if unat i \<le> j \<and> j < unat len then pattern ! (j mod unat n) else mem ! j))"
  using assms(3-5)
proof (induction "unat len - unat i" arbitrary: i mem rule: less_induct)
  case less
  show ?case
  proof (cases "i < len")
    case False
    then have "unat i = unat len" using less.prems(2) by (simp add: word_less_nat_alt)
    then show ?thesis using False by (subst fill_pattern_loop.simps) auto
  next
    case True
    define size where "size = (if len - i < n then len - i else n)"
    have il: "unat i < unat len" using True by (simp add: word_less_nat_alt)
    have li: "unat (len - i) = unat len - unat i" using il by (simp add: unat_sub word_le_nat_alt)
    have s: "unat size = min (unat len - unat i) (unat n)" unfolding size_def using li by (auto simp: word_less_nat_alt)
    have s0: "0 < unat size" using s assms(1) il by simp
    have "unat i + unat size \<le> unat len" using s il by linarith
    moreover have "unat len < 2 ^ 32" using unsigned_less [of len] by simp
    ultimately have u: "unat (i + size) = unat i + unat size" by (subst unat_add_lem [THEN iffD1]) simp_all
    have div: "unat n dvd unat i" using less.prems(3) il by simp
    let ?m = "take (unat i) mem @ take (unat size) pattern @ drop (unat i + unat size) mem"
    have c: "copy_bytes mem (unat i) pattern (unat size) = Some ?m"
      using s assms(2) less.prems(1) il by (intro copy_bytes_eq) simp_all
    have lm: "length ?m = length mem" using copy_bytes_length [OF c] .
    have at: "?m ! j = (if unat i \<le> j \<and> j < unat i + unat size then pattern ! (j mod unat n) else mem ! j)" if "j < length mem" for j
    proof -
      have "pattern ! (j - unat i) = pattern ! (j mod unat n)" if "unat i \<le> j" "j < unat i + unat size"
      proof -
        have "j - unat i < unat n" using that s by simp
        moreover have "j mod unat n = (j - unat i) mod unat n"
          using div that(1) by (metis le_add_diff_inverse mod_add_left_eq add_0 mod_0_imp_dvd dvd_imp_mod_0)
        ultimately show ?thesis by simp
      qed
      moreover have "length (take (unat size) pattern) = unat size" using s assms(2) by simp
      ultimately show ?thesis
        using nth_splice [of "unat i" "take (unat size) pattern" mem j] that less.prems(1) \<open>unat i + unat size \<le> unat len\<close> by auto
    qed
    have dv: "unat n dvd unat (i + size) \<or> unat (i + size) = unat len" using u s div by (auto simp: min_def)
    have dec: "unat len - unat (i + size) < unat len - unat i" using u s0 il by simp
    have bd: "unat len \<le> length ?m" "unat (i + size) \<le> unat len"
      using lm less.prems(1) u \<open>unat i + unat size \<le> unat len\<close> by simp_all
    from less.hyps [OF dec bd dv] obtain mem' where m': "fill_pattern_loop ?m (i + size) len pattern n = Some mem'" "length mem' = length mem"
      "\<And>j. j < length mem \<Longrightarrow> mem' ! j = (if unat (i + size) \<le> j \<and> j < unat len then pattern ! (j mod unat n) else ?m ! j)"
      unfolding lm by blast
    have step: "fill_pattern_loop mem i len pattern n = fill_pattern_loop ?m (i + size) len pattern n"
      using True c unfolding size_def by (subst fill_pattern_loop.simps) (simp add: Let_def)
    have "mem' ! j = (if unat i \<le> j \<and> j < unat len then pattern ! (j mod unat n) else mem ! j)" if "j < length mem" for j
      unfolding m'(3) [OF that] at [OF that] u using \<open>unat i + unat size \<le> unat len\<close> by simp
    then show ?thesis using step m'(1,2) by (simp only:) blast
  qed
qed

lemma fill_pattern_eq:
  assumes "pattern_wf td" "vo_pattern_bytes (vt_o td) \<noteq> 0" "unat len \<le> length mem"
  shows "\<exists>mem'. fill_pattern mem len (vo_pattern (vt_o td)) (vo_pattern_bytes (vt_o td)) = Some mem'
    \<and> length mem' = length mem \<and> (\<forall>j < unat len. mem' ! j = pat td j)"
proof (cases "vo_pattern_bytes (vt_o td) = 1")
  case True
  then have c: "\<And>j. j < 512 \<Longrightarrow> vo_pattern (vt_o td) ! j = vo_pattern (vt_o td) ! 0"
    and l: "length (vo_pattern (vt_o td)) = 512"
    using assms(1) unfolding pattern_wf_def by blast+
  have "pat_size td = 512" using True by (simp add: pat_size_def)
  then have "\<And>j. pat td j = vo_pattern (vt_o td) ! 0"
    unfolding pat_def by (intro c) simp
  moreover have "rd (vo_pattern (vt_o td)) 0 = Some (vo_pattern (vt_o td) ! 0)" using l by simp
  ultimately show ?thesis using True assms(3)
    by (auto simp: fill_pattern_def put_bytes_def nth_append)
next
  case False
  let ?n = "vo_pattern_bytes (vt_o td)"
  have "unat ?n \<noteq> unat (0 :: u32)" "unat ?n \<noteq> unat (1 :: u32)" using False assms(2) by (simp_all only: word_unat_eq_iff not_False_eq_True)
  then have n1: "\<not> ?n \<le> 1" by (simp add: word_le_nat_alt)
  then have n: "pat_size td = unat ?n" "unat ?n \<le> 512" "0 < unat ?n" "unat ?n \<le> length (vo_pattern (vt_o td))"
    using assms(1) pat_size_pos [of td] by (simp_all add: pattern_wf_def pat_size_def)
  have "unat (0 :: u32) \<le> unat len" "unat ?n dvd unat (0 :: u32) \<or> unat (0 :: u32) = unat len" by simp_all
  from fill_pattern_loop_eq [OF n(3,4) assms(3) this] obtain mem' where
    "fill_pattern_loop mem 0 len (vo_pattern (vt_o td)) ?n = Some mem'" "length mem' = length mem"
    "\<forall>j < length mem. mem' ! j = (if unat (0 :: u32) \<le> j \<and> j < unat len then vo_pattern (vt_o td) ! (j mod unat ?n) else mem ! j)"
    by blast
  then show ?thesis using False assms(2,3) n(1) by (auto simp: fill_pattern_def pat_def)
qed

text \<open>Data that continues the pattern passes the compare.\<close>

lemma pattern_fast_eq:
  assumes "length pattern = 512" "0 < unat n" "unat n \<le> 512" "get_bytes mem buf (unat len) = Some d"
    and "\<And>j. j < unat len \<Longrightarrow> d ! j = pattern ! ((h + j) mod unat n)"
    and "unat i \<le> unat len" "unat i < unat len \<Longrightarrow> unat m = (h + unat i) mod unat n"
  shows "\<exists>m'. pattern_fast mem buf pattern n len i m = Some (len, m')"
  using assms(6,7)
proof (induction "unat len - unat i" arbitrary: i m rule: less_induct)
  case less
  show ?case
  proof (cases "i < len")
    case False
    then have "i = len" using less.prems(1) by (simp add: word_le_nat_alt [symmetric] not_less)
    then show ?thesis by (subst pattern_fast.simps) simp
  next
    case True
    define size where "size = (if len - i < n - m then len - i else n - m)"
    have il: "unat i < unat len" using True by (simp add: word_less_nat_alt)
    have m: "unat m = (h + unat i) mod unat n" using less.prems(2) il by simp
    then have mn: "unat m < unat n" using assms(2) by simp
    have li: "unat (len - i) = unat len - unat i" using il by (simp add: unat_sub word_le_nat_alt)
    have nm: "unat (n - m) = unat n - unat m" using mn by (simp add: unat_sub word_le_nat_alt)
    have s: "unat size = min (unat len - unat i) (unat n - unat m)" unfolding size_def using li nm by (auto simp: word_less_nat_alt)
    have s0: "0 < unat size" using s mn il by simp
    have le: "unat i + unat size \<le> unat len" "unat m + unat size \<le> unat n" using s il mn by linarith+
    moreover have "unat len < 2 ^ 32" using unsigned_less [of len] by simp
    ultimately have u: "unat (i + size) = unat i + unat size" by (subst unat_add_lem [THEN iffD1]) simp_all
    have x: "get_bytes mem (buf + unat i) (unat size) = Some (take (unat size) (drop (unat i) d))"
      by (rule get_bytes_sub [OF assms(4) le(1)])
    have y: "get_bytes pattern (unat m) (unat size) = Some (take (unat size) (drop (unat m) pattern))"
      using le(2) assms(1,3) by (simp add: get_bytes_def)
    have "take (unat size) (drop (unat i) d) = take (unat size) (drop (unat m) pattern)"
    proof (rule nth_equalityI)
      have "length d = unat len" by (rule get_bytes_length [OF assms(4)])
      then show l: "length (take (unat size) (drop (unat i) d)) = length (take (unat size) (drop (unat m) pattern))"
        using le assms(1,3) by simp
      fix j
      assume "j < length (take (unat size) (drop (unat i) d))"
      then have j: "j < unat size" "unat i + j < unat len" using le(1) \<open>length d = unat len\<close> by simp_all
      have "(h + (unat i + j)) mod unat n = (unat m + j) mod unat n"
        unfolding m by (simp add: mod_add_left_eq add.assoc)
      also have "\<dots> = unat m + j" using j(1) le(2) by simp
      finally have "d ! (unat i + j) = pattern ! (unat m + j)" using assms(5) [OF j(2)] by simp
      then show "take (unat size) (drop (unat i) d) ! j = take (unat size) (drop (unat m) pattern) ! j"
        using j le assms(1,3) \<open>length d = unat len\<close> by simp
    qed
    then have step: "pattern_fast mem buf pattern n len i m = pattern_fast mem buf pattern n len (i + size) 0"
      using True x y unfolding size_def by (subst pattern_fast.simps) (simp add: Let_def)
    have dec: "unat len - unat (i + size) < unat len - unat i" using u s0 il by simp
    have b: "unat (i + size) \<le> unat len" using u le(1) by simp
    have "unat (0 :: u32) = (h + unat (i + size)) mod unat n" if "unat (i + size) < unat len"
    proof -
      have "unat size = unat n - unat m" using that u s il by linarith
      then have "(h + unat (i + size)) mod unat n = (unat m + (unat n - unat m)) mod unat n"
        unfolding u m by (metis add.assoc mod_add_left_eq)
      then show ?thesis using mn by simp
    qed
    from less.hyps [OF dec b this] show ?thesis unfolding step by blast
  qed
qed

lemma verify_pattern_ok:
  assumes "pattern_wf td" "vo_pattern_bytes (vt_o td) \<noteq> 0"
    and "get_bytes mem (p + unat hs) (unat (get_hdr_inc td u - hs)) = Some d" "hs = hdr_size0 (vo_verify (vt_o td))"
    and "\<And>j. j < length d \<Longrightarrow> d ! j = pat td (unat hs + j)"
  shows "verify_io_u_pattern td u mem p = Some 0"
proof -
  define n where "n = (if vo_pattern_bytes (vt_o td) \<le> 1 then MAX_PATTERN_SIZE else vo_pattern_bytes (vt_o td))"
  have n: "unat n = pat_size td" by (simp add: n_def pat_size_def MAX_PATTERN_SIZE_def)
  have w: "length (vo_pattern (vt_o td)) = 512" "0 < unat n" "unat n \<le> 512"
    using assms(1) pat_size_pos [of td] by (simp_all add: n pattern_wf_def)
  have "length d = unat (get_hdr_inc td u - hs)" by (rule get_bytes_length [OF assms(3)])
  then have d: "d ! j = vo_pattern (vt_o td) ! ((unat hs + j) mod unat n)" if "j < unat (get_hdr_inc td u - hs)" for j
    using assms(5) [of j] that by (simp add: pat_def n)
  have "unat (0 :: u32) \<le> unat (get_hdr_inc td u - hs)" "unat (hs mod n) = (unat hs + unat (0 :: u32)) mod unat n"
    by (simp_all add: unat_mod)
  from pattern_fast_eq [OF w assms(3) d this] obtain m where
    "pattern_fast mem (p + unat hs) (vo_pattern (vt_o td)) n (get_hdr_inc td u - hs) 0 (hs mod n) = Some (get_hdr_inc td u - hs, m)"
    by blast
  moreover have "pattern_slow mem buf pattern pb len len m = Some 0" for buf pattern pb len m
    by (subst pattern_slow.simps) simp
  ultimately show ?thesis unfolding verify_io_u_pattern_def Let_def assms(4) [symmetric] n_def [symmetric] by simp
qed

section \<open>The part that depends on the kind of header\<close>

lemma fill_meta_ok:
  assumes "hdr_priv p + 32 \<le> length mem"
  shows "\<exists>mem' v. fill_meta td u mem p k = Some mem' \<and> writes mem mem' (hdr_priv p) 32
    \<and> get_bytes mem' (hdr_priv p) 32 = Some v \<and> take 8 v = le_bytes 8 (meta_offset td u k)
    \<and> take 2 (drop 10 v) = le_bytes 2 (iu_numberio u)"
proof -
  let ?q = "hdr_priv p" and ?o = "le_bytes 8 (meta_offset td u k)" and ?n = "le_bytes 2 (iu_numberio u)"
  obtain m1 where m1: "put_bytes mem (?q + 8) [vt_thread td] = Some m1"
    using put_bytes_within [of "?q + 8" "[vt_thread td]" mem] assms by auto
  obtain m2 where m2: "put_bytes m1 (?q + 16) (le_bytes 8 (fst (iu_start u))) = Some m2"
    using put_bytes_within [of "?q + 16" "le_bytes 8 (fst (iu_start u))" m1] assms put_bytes_length [OF m1] by auto
  obtain m3 where m3: "put_bytes m2 (?q + 24) (le_bytes 8 (snd (iu_start u))) = Some m3"
    using put_bytes_within [of "?q + 24" "le_bytes 8 (snd (iu_start u))" m2] assms put_bytes_length [OF m1] put_bytes_length [OF m2] by auto
  have l3: "length m3 = length mem"
    using put_bytes_length [OF m1] put_bytes_length [OF m2] put_bytes_length [OF m3] by simp
  obtain m4 where m4: "put_bytes m3 (?q + 10) ?n = Some m4"
    using put_bytes_within [of "?q + 10" ?n m3] assms l3 by auto
  obtain m5 where m5: "put_bytes m4 ?q ?o = Some m5"
    using put_bytes_within [of ?q ?o m4] assms l3 put_bytes_length [OF m4] by auto
  have w: "writes mem m1 ?q 32" "writes m1 m2 ?q 32" "writes m2 m3 ?q 32" "writes m3 m4 ?q 32" "writes m4 m5 ?q 32"
    using writes_mono [OF writes_put [OF m1], of ?q 32] writes_mono [OF writes_put [OF m2], of ?q 32]
      writes_mono [OF writes_put [OF m3], of ?q 32] writes_mono [OF writes_put [OF m4], of ?q 32]
      writes_mono [OF writes_put [OF m5], of ?q 32] by simp_all
  then have wr: "writes mem m5 ?q 32" by (blast intro: writes_trans)
  then have "length m5 = length mem" by (simp add: writes_def)
  then obtain v where v: "get_bytes m5 ?q 32 = Some v" using assms by (auto simp: get_bytes_def)
  have "take 8 v = ?o" using get_bytes_sub [OF v, of 0 8] get_put [OF m5] by simp
  moreover have "get_bytes m5 (?q + 10) 2 = get_bytes m4 (?q + 10) 2"
    using get_writes [OF writes_put [OF m5], of "?q + 10" 2] by simp
  then have "take 2 (drop 10 v) = ?n" using get_bytes_sub [OF v, of 10 2] get_put [OF m4] by simp
  ultimately show ?thesis using m1 m2 m3 m4 m5 v wr unfolding fill_meta_def by auto
qed

lemma verify_meta_ok:
  assumes "get_bytes mem (hdr_priv p) 32 = Some v" "take 8 v = le_bytes 8 (meta_offset td u k)"
    and "take 2 (drop 10 v) = le_bytes 2 (iu_numberio u)"
    and "vo_pattern_bytes (vt_o td) \<noteq> 0 \<Longrightarrow> verify_io_u_pattern td u mem p = Some 0"
  shows "verify_io_u_meta td u mem p k = Some 0"
proof -
  have "get_word mem (hdr_priv p) 8 = Some (meta_offset td u k)"
    using get_bytes_sub [OF assms(1), of 0 8] assms(2) by (intro get_word_put) simp_all
  moreover have "get_word mem (hdr_priv p + 10) 2 = Some (iu_numberio u)"
    using get_bytes_sub [OF assms(1), of 10 2] assms(3) by (intro get_word_put) simp_all
  ultimately show ?thesis using assms(4) unfolding verify_io_u_meta_def by simp
qed

text \<open>What a header needs: room for its data, and a pattern that the data continues where the kind of
  header looks at it.\<close>

definition csum_ok :: "verify_td \<Rightarrow> u32 \<Rightarrow> u8 list \<Rightarrow> bool" where
  "csum_ok td inc d \<longleftrightarrow>
     (let t = vo_verify (vt_o td); pb = vo_pattern_bytes (vt_o td) in
        t \<noteq> VERIFY_NONE \<and> t \<noteq> VERIFY_NULL \<and> hdr_size0 t \<le> inc \<and> length d < 2 ^ 31 \<and>
        (t = VERIFY_SHA256 \<longrightarrow> 64 \<le> length d) \<and> (t = VERIFY_SHA512 \<longrightarrow> 128 \<le> length d) \<and>
        (t = VERIFY_PATTERN \<longrightarrow> pb \<noteq> 0) \<and>
        (t \<in> {VERIFY_META, VERIFY_PATTERN} \<and> pb \<noteq> 0 \<longrightarrow>
           pattern_wf td \<and> (\<forall>j < length d. d ! j = pat td (unat (hdr_size0 t) + j))))"

lemma csum_method:
  assumes "verify_method vs ok fill check len_ok" "len_ok (unat (inc - hs))"
    and "get_bytes mem (p + unat hs) (unat (inc - hs)) = Some d" "unat hs = vs + 24"
    and "\<And>mem data. populate_csum junk td u mem p data (inc - hs) k = fill mem p data (inc - hs)"
    and "\<And>mem2 p2. verify_csum junk' td u mem2 p2 k (Some t) = check mem2 p2 k"
  shows "\<exists>mem' v. populate_csum junk td u mem p (p + unat hs) (inc - hs) k = Some mem'
    \<and> writes mem mem' (hdr_priv p) vs \<and> get_bytes mem' (hdr_priv p) vs = Some v
    \<and> get_bytes mem' (p + unat hs) (unat (inc - hs)) = Some d
    \<and> (\<forall>mem2 p2. get_bytes mem2 (hdr_priv p2) vs = Some v \<longrightarrow> get_bytes mem2 (p2 + unat hs) (unat (inc - hs)) = Some d
        \<longrightarrow> verify_data mem2 p2 k = Some (d, inc - hs) \<longrightarrow> verify_csum junk' td u mem2 p2 k (Some t) = Some 0)"
proof -
  have "hdr_priv p + vs \<le> p + unat hs" using assms(4) by (simp add: hdr_priv_def)
  from verify_method.check_fill [OF assms(1,2,3) this] show ?thesis unfolding assms(5,6) by blast
qed

lemma populate_csum_ok:
  assumes "csum_ok td inc d" "get_hdr_inc td u = inc" "hs = hdr_size0 (vo_verify (vt_o td))"
    and "get_bytes mem (p + unat hs) (unat (inc - hs)) = Some d"
  shows "\<exists>mem' v. populate_csum junk td u mem p (p + unat hs) (inc - hs) k = Some mem'
    \<and> writes mem mem' (hdr_priv p) (vhdr_size (vo_verify (vt_o td)))
    \<and> get_bytes mem' (hdr_priv p) (vhdr_size (vo_verify (vt_o td))) = Some v
    \<and> get_bytes mem' (p + unat hs) (unat (inc - hs)) = Some d
    \<and> (\<forall>mem2 p2. get_bytes mem2 (hdr_priv p2) (vhdr_size (vo_verify (vt_o td))) = Some v
        \<longrightarrow> get_bytes mem2 (p2 + unat hs) (unat (inc - hs)) = Some d
        \<longrightarrow> verify_data mem2 p2 k = Some (d, inc - hs)
        \<longrightarrow> verify_csum junk' td u mem2 p2 k (Some (vo_verify (vt_o td))) = Some 0)"
    (is "?goal (vo_verify (vt_o td))")
proof -
  have l: "length d = unat (inc - hs)" by (rule get_bytes_length [OF assms(4)])
  have hs: "unat hs = vhdr_size (vo_verify (vt_o td)) + 24" unfolding assms(3) by (rule unat_hdr_size0)
  have n: "unat (inc - hs) < 2 ^ 31" using assms(1) l by (simp add: csum_ok_def Let_def)
  have pat: "verify_io_u_pattern td u mem2 p2 = Some 0"
    if "get_bytes mem2 (p2 + unat hs) (unat (inc - hs)) = Some d" "vo_pattern_bytes (vt_o td) \<noteq> 0"
      "vo_verify (vt_o td) \<in> {VERIFY_META, VERIFY_PATTERN}" for mem2 p2
    using that assms(1) unfolding csum_ok_def Let_def
    by (intro verify_pattern_ok [where p = p2 and hs = hs and d = d]) (auto simp: assms(2,3))
  note by_method = csum_method [OF _ _ assms(4), where junk = junk and junk' = junk' and td = td and u = u and k = k]
  show ?thesis
  proof (cases "vo_verify (vt_o td)")
    case VERIFY_META
    have "hdr_priv p + 32 \<le> length mem"
      using assms(4) hs VERIFY_META by (auto simp: get_bytes_Some_iff hdr_priv_def)
    from fill_meta_ok [OF this, of td u k] obtain mem' v where
      m: "fill_meta td u mem p k = Some mem'" "writes mem mem' (hdr_priv p) 32" "get_bytes mem' (hdr_priv p) 32 = Some v"
      "take 8 v = le_bytes 8 (meta_offset td u k)" "take 2 (drop 10 v) = le_bytes 2 (iu_numberio u)" by blast
    have "get_bytes mem' (p + unat hs) (unat (inc - hs)) = Some d"
      using get_writes [OF m(2), of "p + unat hs"] assms(4) hs VERIFY_META by (simp add: hdr_priv_def)
    moreover have "verify_io_u_meta td u mem2 p2 k = Some 0"
      if "get_bytes mem2 (hdr_priv p2) 32 = Some v" "get_bytes mem2 (p2 + unat hs) (unat (inc - hs)) = Some d" for mem2 p2
      using verify_meta_ok [OF that(1) m(4,5)] pat [OF that(2)] VERIFY_META by simp
    ultimately show ?thesis using m VERIFY_META by (simp add: populate_csum_def verify_csum_def)
  next
    case VERIFY_PATTERN
    have "get_bytes mem (hdr_priv p) 0 = Some []"
      using assms(4) hs VERIFY_PATTERN by (auto simp: get_bytes_Some_iff hdr_priv_def)
    moreover have "vo_pattern_bytes (vt_o td) \<noteq> 0" using assms(1) VERIFY_PATTERN by (simp add: csum_ok_def Let_def)
    ultimately show ?thesis using assms(4) pat VERIFY_PATTERN by (simp add: populate_csum_def verify_csum_def)
  next
    case VERIFY_MD5
    note * = this
    show ?thesis unfolding * vhdr_size.simps
      by (rule by_method [OF vm_md5.verify_method_axioms])
        (use n hs * in \<open>simp_all add: populate_csum_def verify_csum_def\<close>)
  next
    case VERIFY_CRC64
    note * = this
    show ?thesis unfolding * vhdr_size.simps
      by (rule by_method [OF vm_crc64.verify_method_axioms])
        (use n hs * in \<open>simp_all add: populate_csum_def verify_csum_def\<close>)
  next
    case VERIFY_CRC32
    note * = this
    show ?thesis unfolding * vhdr_size.simps
      by (rule by_method [OF vm_crc32.verify_method_axioms])
        (use n hs * in \<open>simp_all add: populate_csum_def verify_csum_def\<close>)
  next
    case VERIFY_CRC32C
    note * = this
    show ?thesis unfolding * vhdr_size.simps
      by (rule by_method [OF vm_crc32c.verify_method_axioms])
        (use n hs * in \<open>simp_all add: populate_csum_def verify_csum_def\<close>)
  next
    case VERIFY_CRC32C_INTEL
    note * = this
    show ?thesis unfolding * vhdr_size.simps
      by (rule by_method [OF vm_crc32c.verify_method_axioms])
        (use n hs * in \<open>simp_all add: populate_csum_def verify_csum_def\<close>)
  next
    case VERIFY_CRC16
    note * = this
    show ?thesis unfolding * vhdr_size.simps
      by (rule by_method [OF vm_crc16.verify_method_axioms])
        (use n hs * in \<open>simp_all add: populate_csum_def verify_csum_def\<close>)
  next
    case VERIFY_CRC7
    note * = this
    show ?thesis unfolding * vhdr_size.simps
      by (rule by_method [OF vm_crc7.verify_method_axioms])
        (use n hs * in \<open>simp_all add: populate_csum_def verify_csum_def\<close>)
  next
    case VERIFY_SHA256
    note * = this
    show ?thesis unfolding * vhdr_size.simps
      by (rule by_method [OF vm_sha256.verify_method_axioms])
        (use n hs * l assms(1) in \<open>simp_all add: populate_csum_def verify_csum_def csum_ok_def Let_def\<close>)
  next
    case VERIFY_SHA512
    note * = this
    show ?thesis unfolding * vhdr_size.simps
      by (rule by_method [OF vm_sha512.verify_method_axioms])
        (use n hs * l assms(1) in \<open>simp_all add: populate_csum_def verify_csum_def csum_ok_def Let_def\<close>)
  next
    case VERIFY_XXHASH
    note * = this
    show ?thesis unfolding * vhdr_size.simps
      by (rule by_method [OF vm_xxhash.verify_method_axioms])
        (use n hs * in \<open>simp_all add: populate_csum_def verify_csum_def\<close>)
  next
    case VERIFY_SHA1
    note * = this
    show ?thesis unfolding * vhdr_size.simps
      by (rule by_method [OF vm_sha1.verify_method_axioms])
        (use n hs * in \<open>simp_all add: populate_csum_def verify_csum_def\<close>)
  qed (use assms(1) in \<open>simp_all add: csum_ok_def Let_def\<close>)
qed

section \<open>A header moved to its offset and back\<close>

definition swapped :: "nat \<Rightarrow> nat \<Rightarrow> u8 list \<Rightarrow> u8 list" where
  "swapped hs off c = take hs (drop off c) @ take (off - hs) (drop hs c) @ take hs c @ drop (off + hs) c"

lemma swapped_parts:
  "length h = hs \<Longrightarrow> length d = hs \<Longrightarrow> off = hs + length m \<Longrightarrow> swapped hs off (h @ m @ d @ r) = d @ m @ h @ r"
  by (simp add: swapped_def)

lemma parts_of_chunk:
  assumes "hs \<le> off" "off + hs \<le> length c"
  obtains h m d r where "c = h @ m @ d @ r" "length h = hs" "length d = hs" "off = hs + length m"
proof
  show "c = take hs c @ take (off - hs) (drop hs c) @ take hs (drop off c) @ drop (off + hs) c"
    using assms by (metis add.commute append.assoc append_take_drop_id drop_drop le_add_diff_inverse take_add)
qed (use assms in simp_all)

lemma swapped_swapped: "hs \<le> off \<Longrightarrow> off + hs \<le> length c \<Longrightarrow> swapped hs off (swapped hs off c) = c"
  by (erule (1) parts_of_chunk) (simp add: swapped_parts)

lemma length_swapped: "hs \<le> off \<Longrightarrow> off + hs \<le> length c \<Longrightarrow> length (swapped hs off c) = length c"
  by (simp add: swapped_def)

lemma memswp_chunk:
  assumes "get_bytes mem p n = Some c" "unat hs \<le> off" "off + unat hs \<le> n" "hs \<le> 200"
  shows "\<exists>mem'. memswp mem p (p + off) hs = Some mem' \<and> get_bytes mem' p n = Some (swapped (unat hs) off c)
    \<and> writes mem mem' p n"
proof -
  have lc: "length c = n" by (rule get_bytes_length [OF assms(1)])
  obtain h m d r where c: "c = h @ m @ d @ r" "length h = unat hs" "length d = unat hs" "off = unat hs + length m"
    using parts_of_chunk [OF assms(2), of c] assms(3) lc by metis
  have n: "n = unat hs + length m + unat hs + length r" using lc c by simp
  have g1: "get_bytes mem p (unat hs) = Some h" using get_bytes_sub [OF assms(1), of 0 "unat hs"] c n by simp
  have g2: "get_bytes mem (p + off) (unat hs) = Some d" using get_bytes_sub [OF assms(1), of off "unat hs"] c n by simp
  have gm: "get_bytes mem (p + unat hs) (length m) = Some m" using get_bytes_sub [OF assms(1), of "unat hs" "length m"] c n by simp
  have gr: "get_bytes mem (p + off + unat hs) (length r) = Some r"
    using get_bytes_sub [OF assms(1), of "off + unat hs" "length r"] c n by (simp add: add.assoc)
  have pn: "p + n \<le> length mem" using assms(1) by (simp add: get_bytes_Some_iff)
  obtain m1 where m1: "put_bytes mem p d = Some m1" using put_bytes_within [of p d mem] pn n c by auto
  obtain m2 where m2: "put_bytes m1 (p + off) h = Some m2"
    using put_bytes_within [of "p + off" h m1] put_bytes_length [OF m1] pn n c by auto
  have w1: "writes mem m1 p (unat hs)" and w2: "writes m1 m2 (p + off) (unat hs)"
    using writes_put [OF m1] writes_put [OF m2] c by simp_all
  have r1: "get_bytes m2 p (length d) = Some d"
    using get_writes [OF w2, of p "length d"] get_put [OF m1] c by simp
  have "get_bytes m2 (p + unat hs) (length m) = get_bytes m1 (p + unat hs) (length m)"
    by (rule get_writes [OF w2]) (simp add: c(4))
  also have "\<dots> = get_bytes mem (p + unat hs) (length m)" by (rule get_writes [OF w1]) simp
  finally have r2: "get_bytes m2 (p + length d) (length m) = Some m" using gm c by simp
  have r3: "get_bytes m2 (p + length d + length m) (length h) = Some h" using get_put [OF m2] c by (simp add: add.assoc)
  have "get_bytes m2 (p + off + unat hs) (length r) = get_bytes m1 (p + off + unat hs) (length r)"
    by (rule get_writes [OF w2]) simp
  also have "\<dots> = get_bytes mem (p + off + unat hs) (length r)" by (rule get_writes [OF w1]) simp
  finally have r4: "get_bytes m2 (p + length d + length m + length h) (length r) = Some r" using gr c by (simp add: add.assoc)
  have "get_bytes m2 p n = Some (d @ m @ h @ r)"
    using get_bytes_append [OF r1 get_bytes_append [OF r2 get_bytes_append [OF r3 r4]]] n c
    by (simp add: add.assoc)
  moreover have "writes mem m2 p n"
    using writes_trans [OF writes_mono [OF w1, of p n] writes_mono [OF w2, of p n]] n c by simp
  moreover have "memswp mem p (p + off) hs = Some m2"
    unfolding memswp_def using assms(2,4) g1 g2 m1 m2 by simp
  ultimately show ?thesis unfolding c(1) using swapped_parts [OF c(2,3,4)] by simp
qed

text \<open>What one pass of \<open>populate_loop\<close> leaves in its stretch of the buffer, and what one pass of
  \<open>verify_loop\<close> makes of it.\<close>

definition stored :: "verify_td \<Rightarrow> u8 list \<Rightarrow> u8 list" where
  "stored td c = (if vo_offset (vt_o td) = 0 then c
     else swapped (unat (hdr_size0 (vo_verify (vt_o td)))) (unat (vo_offset (vt_o td))) c)"

definition offset_ok :: "verify_td \<Rightarrow> u32 \<Rightarrow> bool" where
  "offset_ok td inc \<longleftrightarrow> vo_offset (vt_o td) = 0 \<or>
     (let hs = unat (hdr_size0 (vo_verify (vt_o td))); off = unat (vo_offset (vt_o td))
      in hs \<le> off \<and> off + hs \<le> unat inc)"

definition passes :: "(nat \<Rightarrow> u8) \<Rightarrow> verify_td \<Rightarrow> vio_u \<Rightarrow> u32 \<Rightarrow> u32 \<Rightarrow> u8 list \<Rightarrow> bool" where
  "passes junk td u inc k c \<longleftrightarrow> length c = unat inc \<and>
     (\<forall>mem p. p = unat (k * inc) \<longrightarrow> get_bytes mem p (unat inc) = Some c \<longrightarrow>
        verify_header u mem p = Some 0 \<and> hdr_rand_seed mem p = Some (iu_rand_seed u)
        \<and> hdr_verify_type mem p = Some (verify_code (vo_verify (vt_o td))) \<and> hdr_len mem p = Some inc
        \<and> verify_csum junk td u mem p k (Some (vo_verify (vt_o td))) = Some 0)"

lemma hdr_size0_le_200: "hdr_size0 t \<le> 200"
  using vhdr_size_le [of t] by (simp add: word_le_nat_alt unat_hdr_size0)

text \<open>The stored value as the check sees it: the header, the value in it and the data after it determine
  what the check says.\<close>

lemma passes_intro:
  assumes "hs = hdr_size0 (vo_verify (vt_o td))" "hs \<le> inc" "ucast inc \<le> iu_buflen u" "length c = unat inc"
    and "take 20 c = sealed_bytes td u inc" "take (vhdr_size (vo_verify (vt_o td))) (drop 24 c) = v"
    and "drop (unat hs) c = d"
    and "\<And>mem p. get_bytes mem (hdr_priv p) (vhdr_size (vo_verify (vt_o td))) = Some v
       \<Longrightarrow> get_bytes mem (p + unat hs) (unat (inc - hs)) = Some d \<Longrightarrow> verify_data mem p k = Some (d, inc - hs)
       \<Longrightarrow> verify_csum junk td u mem p k (Some (vo_verify (vt_o td))) = Some 0"
  shows "passes junk td u inc k c"
  unfolding passes_def
proof (intro conjI allI impI assms(4))
  fix mem p
  assume p: "p = unat (k * inc)" and g: "get_bytes mem p (unat inc) = Some c"
  have n: "unat inc = unat hs + unat (inc - hs)" using assms(2) by (simp add: unat_sub word_le_nat_alt)
  have uhs: "unat hs = vhdr_size (vo_verify (vt_o td)) + 24" by (simp add: assms(1) unat_hdr_size0)
  have g20: "get_bytes mem p 20 = Some (sealed_bytes td u inc)"
    using get_bytes_sub [OF g, of 0 20] assms(5) n uhs by simp
  then show "verify_header u mem p = Some 0" by (rule verify_header_ok [OF _ assms(3)])
  show "hdr_rand_seed mem p = Some (iu_rand_seed u)" "hdr_verify_type mem p = Some (verify_code (vo_verify (vt_o td)))"
    "hdr_len mem p = Some inc" by (rule header_fields [OF g20])+
  have "length d = unat (inc - hs)" unfolding assms(7) [symmetric] using assms(4) n by simp
  then have gd: "get_bytes mem (p + unat hs) (unat (inc - hs)) = Some d"
    using get_bytes_sub [OF g, of "unat hs" "unat (inc - hs)"] assms(7) n by simp
  have gv: "get_bytes mem (hdr_priv p) (vhdr_size (vo_verify (vt_o td))) = Some v"
    using get_bytes_sub [OF g, of 24 "vhdr_size (vo_verify (vt_o td))"] assms(6) n uhs by (simp add: hdr_priv_def)
  have "verify_data mem p k = Some (d, inc - hs)"
    using verify_data_ok [OF g20 p, of d] gd unfolding assms(1) by simp
  from assms(8) [OF gv gd this] show "verify_csum junk td u mem p k (Some (vo_verify (vt_o td))) = Some 0" .
qed

lemma header_seal:
  assumes "p + 20 \<le> length mem"
  shows "\<exists>m1. populate_fields td u mem p inc = Some m1 \<and> writes mem m1 p 20 \<and> get_bytes m1 p 20 = Some (sealed_bytes td u inc)"
proof -
  obtain m1 where m1: "put_bytes mem p (sealed_bytes td u inc) = Some m1"
    using put_bytes_within [of p "sealed_bytes td u inc" mem] assms by auto
  then show ?thesis
    using populate_fields_eq [of p mem td u inc] assms writes_put [OF m1] get_put [OF m1] by simp
qed

text \<open>The header and the value of the data are in place, and the check would pass.\<close>

lemma populate_contents:
  assumes "get_bytes mem p (unat inc) = Some c0" "csum_ok td inc (drop (unat (hdr_size0 (vo_verify (vt_o td)))) c0)"
    and "get_hdr_inc td u = inc" "ucast inc \<le> iu_buflen u" "hs = hdr_size0 (vo_verify (vt_o td))"
  shows "\<exists>m1 m2 c. populate_fields td u mem p inc = Some m1 \<and> hdr_size m1 p = Some hs
    \<and> populate_csum junk td u m1 p (p + unat hs) (inc - hs) k = Some m2 \<and> hdr_size m2 p = Some hs
    \<and> writes mem m2 p (unat inc) \<and> get_bytes m2 p (unat inc) = Some c \<and> passes junk' td u inc k c"
proof -
  define t where "t = vo_verify (vt_o td)"
  define n where "n = unat (inc - hs)"
  have hi: "hs \<le> inc" using assms(2) by (simp add: csum_ok_def Let_def assms(5))
  have n: "unat inc = unat hs + n" using hi by (simp add: n_def unat_sub word_le_nat_alt)
  have uhs: "unat hs = vhdr_size t + 24" by (simp add: assms(5) t_def unat_hdr_size0)
  have pn: "p + unat inc \<le> length mem" using assms(1) by (simp add: get_bytes_Some_iff)
  have "p + 20 \<le> length mem" using pn n uhs by simp
  from header_seal [OF this, of td u inc] obtain m1 where m1: "populate_fields td u mem p inc = Some m1"
    "writes mem m1 p 20" "get_bytes m1 p 20 = Some (sealed_bytes td u inc)" by blast
  let ?d = "drop (unat hs) c0"
  have lc0: "length c0 = unat inc" by (rule get_bytes_length [OF assms(1)])
  have "get_bytes mem (p + unat hs) n = Some ?d"
    using get_bytes_sub [OF assms(1), of "unat hs" n] n lc0 by simp
  then have d1: "get_bytes m1 (p + unat hs) n = Some ?d" using get_writes [OF m1(2), of "p + unat hs" n] uhs by simp
  obtain m2 v where m2: "populate_csum junk td u m1 p (p + unat hs) (inc - hs) k = Some m2"
    "writes m1 m2 (hdr_priv p) (vhdr_size t)" "get_bytes m2 (hdr_priv p) (vhdr_size t) = Some v"
    "get_bytes m2 (p + unat hs) n = Some ?d"
    "\<And>mem2 p2. get_bytes mem2 (hdr_priv p2) (vhdr_size t) = Some v \<Longrightarrow> get_bytes mem2 (p2 + unat hs) n = Some ?d
       \<Longrightarrow> verify_data mem2 p2 k = Some (?d, inc - hs) \<Longrightarrow> verify_csum junk' td u mem2 p2 k (Some t) = Some 0"
    using populate_csum_ok [OF _ assms(3,5), of ?d m1 p junk k junk'] assms(2) d1
    unfolding n_def t_def assms(5) by blast
  have s2: "get_bytes m2 p 20 = Some (sealed_bytes td u inc)"
    using get_writes [OF m2(2), of p 20] m1(3) by (simp add: hdr_priv_def)
  have "writes mem m1 p (unat inc)" using writes_mono [OF m1(2), of p "unat inc"] n uhs by simp
  moreover have "writes m1 m2 p (unat inc)" using writes_mono [OF m2(2), of p "unat inc"] n uhs by (simp add: hdr_priv_def)
  ultimately have w: "writes mem m2 p (unat inc)" by (rule writes_trans)
  then obtain c where c: "get_bytes m2 p (unat inc) = Some c" using pn by (auto simp: get_bytes_def writes_def)
  have lc: "length c = unat inc" by (rule get_bytes_length [OF c])
  have cs: "take 20 c = sealed_bytes td u inc" "take (vhdr_size t) (drop 24 c) = v" "take n (drop (unat hs) c) = ?d"
    using get_bytes_sub [OF c, of 0 20] s2 get_bytes_sub [OF c, of 24 "vhdr_size t"] m2(3)
      get_bytes_sub [OF c, of "unat hs" n] m2(4) n uhs by (simp_all add: hdr_priv_def)
  have "drop (unat hs) c = ?d" using cs(3) lc n by simp
  then have "passes junk' td u inc k c"
    using passes_intro [OF assms(5) hi assms(4) lc cs(1) cs(2) [unfolded t_def], of ?d k junk'] m2(5) unfolding t_def n_def by blast
  moreover have "hdr_size m1 p = Some hs" "hdr_size m2 p = Some hs"
    unfolding assms(5) by (rule header_fields(7) [OF m1(3)], rule header_fields(7) [OF s2])
  ultimately show ?thesis using m1(1) m2(1) w c by blast
qed

text \<open>Then the header moves to \<open>verify_offset\<close>.\<close>

lemma populate_swap:
  assumes "get_bytes mem p (unat inc) = Some c" "offset_ok td inc" "hs = hdr_size0 (vo_verify (vt_o td))" "hdr_size mem p = Some hs"
  shows "\<exists>mem'. (if vo_offset (vt_o td) \<noteq> 0
       then do { hs \<leftarrow> hdr_size mem p; memswp mem p (p + unat (vo_offset (vt_o td))) hs } else Some mem) = Some mem'
     \<and> get_bytes mem' p (unat inc) = Some (stored td c) \<and> writes mem mem' p (unat inc)"
proof (cases "vo_offset (vt_o td) = 0")
  case False
  then have "unat hs \<le> unat (vo_offset (vt_o td))" "unat (vo_offset (vt_o td)) + unat hs \<le> unat inc"
    using assms(2) by (simp_all add: offset_ok_def Let_def assms(3))
  then show ?thesis using memswp_chunk [OF assms(1)] hdr_size0_le_200 [of "vo_verify (vt_o td)"] False assms(4)
    by (simp add: stored_def assms(3))
qed (use assms(1) in \<open>simp add: stored_def\<close>)

lemma populate_hdr_ok:
  assumes "get_bytes mem p (unat inc) = Some c0" "csum_ok td inc (drop (unat (hdr_size0 (vo_verify (vt_o td)))) c0)"
    and "get_hdr_inc td u = inc" "ucast inc \<le> iu_buflen u" "offset_ok td inc"
  shows "\<exists>mem' c. populate_hdr junk td u mem p k inc = Some mem' \<and> writes mem mem' p (unat inc)
    \<and> get_bytes mem' p (unat inc) = Some (stored td c) \<and> passes junk' td u inc k c"
proof -
  from populate_contents [OF assms(1-4) refl, of junk k junk'] obtain m1 m2 c where
    m: "populate_fields td u mem p inc = Some m1" "hdr_size m1 p = Some (hdr_size0 (vo_verify (vt_o td)))"
    "populate_csum junk td u m1 p (p + unat (hdr_size0 (vo_verify (vt_o td)))) (inc - hdr_size0 (vo_verify (vt_o td))) k = Some m2"
    "hdr_size m2 p = Some (hdr_size0 (vo_verify (vt_o td)))" "writes mem m2 p (unat inc)"
    "get_bytes m2 p (unat inc) = Some c" "passes junk' td u inc k c" by blast
  from populate_swap [OF m(6) assms(5) refl m(4)] show ?thesis
    unfolding populate_hdr_def using m(1-3,5,7) by (auto dest: writes_trans)
qed

lemma verify_csum_cong:
  assumes "iu_offset u' = iu_offset u" "iu_numberio u' = iu_numberio u" "iu_buflen u' = iu_buflen u"
  shows "verify_csum junk td u' = verify_csum junk td u"
proof -
  have p: "verify_io_u_pattern td u' = verify_io_u_pattern td u"
    by (intro ext) (simp only: verify_io_u_pattern_def get_hdr_inc_def assms)
  have "verify_io_u_meta td u' = verify_io_u_meta td u"
    by (intro ext) (simp only: verify_io_u_meta_def meta_offset_def p assms)
  then show ?thesis by (intro ext) (simp only: verify_csum_def p)
qed

lemma verify_header_cong:
  "iu_buflen u' = iu_buflen u \<Longrightarrow> iu_rand_seed u' = iu_rand_seed u \<Longrightarrow> verify_header u' = verify_header u"
  by (intro ext) (simp only: verify_header_def)

text \<open>The units that differ at most in their buffers and directions.\<close>

definition same_io :: "vio_u \<Rightarrow> vio_u \<Rightarrow> bool" where
  "same_io u u' \<longleftrightarrow> iu_offset u' = iu_offset u \<and> iu_numberio u' = iu_numberio u \<and> iu_buflen u' = iu_buflen u
     \<and> iu_rand_seed u' = iu_rand_seed u"

lemma verify_pass_ok:
  assumes "passes junk td u inc k c" "same_io u u'" "p = unat (k * inc)"
    and "get_bytes (iu_buf u') p (unat inc) = Some (stored td c)" "offset_ok td inc"
    and "vo_verify (vt_o td) \<noteq> VERIFY_NONE"
  shows "\<exists>mem'. verify_pass junk td u' p k = Some (u'\<lparr>iu_buf := mem'\<rparr>, Inr 0) \<and> writes (iu_buf u') mem' p (unat inc)"
proof -
  let ?hs = "hdr_size0 (vo_verify (vt_o td))"
  have lc: "length c = unat inc" using assms(1) by (simp add: passes_def)
  obtain mem' where m: "(if vo_offset (vt_o td) \<noteq> 0 then memswp (iu_buf u') p (p + unat (vo_offset (vt_o td))) ?hs
       else Some (iu_buf u')) = Some mem'" "get_bytes mem' p (unat inc) = Some c" "writes (iu_buf u') mem' p (unat inc)"
  proof (cases "vo_offset (vt_o td) = 0")
    case False
    then have o: "unat ?hs \<le> unat (vo_offset (vt_o td))" "unat (vo_offset (vt_o td)) + unat ?hs \<le> unat inc"
      using assms(5) by (simp_all add: offset_ok_def Let_def)
    then show ?thesis using that memswp_chunk [OF assms(4) o hdr_size0_le_200] False lc
      by (auto simp: stored_def swapped_swapped)
  qed (use that assms(4) in \<open>simp add: stored_def\<close>)
  then have h: "verify_header u' mem' p = Some 0" "hdr_rand_seed mem' p = Some (iu_rand_seed u')"
    "hdr_verify_type mem' p = Some (verify_code (vo_verify (vt_o td)))"
    "verify_csum junk td u' mem' p k (Some (vo_verify (vt_o td))) = Some 0"
    using assms(1,2,3) verify_csum_cong [of u' u junk td] verify_header_cong [of u' u]
    by (simp_all add: passes_def same_io_def)
  let ?u = "u'\<lparr>iu_buf := mem'\<rparr>"
  have "verify_header ?u mem' p = Some 0" "verify_csum junk td ?u mem' p k (Some (vo_verify (vt_o td))) = Some 0"
    using h verify_header_cong [of ?u u'] verify_csum_cong [of ?u u' junk td] by simp_all
  moreover have "?u\<lparr>iu_rand_seed := iu_rand_seed u'\<rparr> = ?u" by simp
  ultimately show ?thesis using m h(2,3) assms(6)
    unfolding verify_pass_def Let_def by (intro exI [of _ mem']) simp
qed

section \<open>All headers of a buffer\<close>

lemma stretch_product:
  assumes "N * unat inc < 2 ^ 32" "k < N"
  shows "unat (of_nat k * inc :: u32) = k * unat inc" "k * unat inc + unat inc \<le> N * unat inc"
proof -
  have "Suc k * unat inc \<le> N * unat inc" using assms(2) by (intro mult_le_mono1) simp
  then show le: "k * unat inc + unat inc \<le> N * unat inc" by simp
  have "of_nat k * inc = of_nat (k * unat inc)" by simp
  moreover have "k * unat inc < 2 ^ 32" using le assms(1) by linarith
  ultimately show "unat (of_nat k * inc :: u32) = k * unat inc" by (simp add: unat_of_nat del: of_nat_mult)
qed

lemma verify_loop_prefix:
  assumes "0 < inc" "N * unat inc < 2 ^ 32" "unat (iu_buflen u) = N * unat inc" "offset_ok td inc"
    and "vo_verify (vt_o td) \<noteq> VERIFY_NONE" "k \<le> m" "m \<le> N" "same_io u u'"
    and "\<And>j. k \<le> j \<Longrightarrow> j < m \<Longrightarrow> \<exists>c. get_bytes (iu_buf u') (j * unat inc) (unat inc) = Some (stored td c)
           \<and> passes junk td u inc (of_nat j) c"
  shows "\<exists>mem'. verify_loop junk td inc u' (k * unat inc) (of_nat k) 0
      = verify_loop junk td inc (u'\<lparr>iu_buf := mem'\<rparr>) (m * unat inc) (of_nat m) 0
    \<and> writes (iu_buf u') mem' 0 (m * unat inc)"
  using assms(6,8,9)
proof (induction "m - k" arbitrary: k u')
  case 0
  then have "k = m" by simp
  then show ?case by (intro exI [of _ "iu_buf u'"]) simp
next
  case (Suc n)
  then have k: "k < m" "k < N" using assms(7) by simp_all
  note p = stretch_product [OF assms(2) k(2)]
  have inc: "0 < unat inc" using assms(1) by (simp add: word_less_nat_alt)
  obtain c where c: "get_bytes (iu_buf u') (k * unat inc) (unat inc) = Some (stored td c)" "passes junk td u inc (of_nat k) c"
    using Suc.prems(3) [of k] k by auto
  from verify_pass_ok [OF c(2) Suc.prems(2) _ c(1) assms(4,5)] p(1) obtain mem1 where
    m1: "verify_pass junk td u' (k * unat inc) (of_nat k) = Some (u'\<lparr>iu_buf := mem1\<rparr>, Inr 0)"
    "writes (iu_buf u') mem1 (k * unat inc) (unat inc)" by auto
  have later: "\<exists>c. get_bytes mem1 (j * unat inc) (unat inc) = Some (stored td c) \<and> passes junk td u inc (of_nat j) c"
    if "Suc k \<le> j" "j < m" for j
  proof -
    have "Suc k * unat inc \<le> j * unat inc" using that(1) by (intro mult_le_mono1)
    then have "get_bytes mem1 (j * unat inc) (unat inc) = get_bytes (iu_buf u') (j * unat inc) (unat inc)"
      by (intro get_writes [OF m1(2)]) simp
    then show ?thesis using Suc.prems(3) [of j] that by simp
  qed
  have "same_io u (u'\<lparr>iu_buf := mem1\<rparr>)" using Suc.prems(2) by (simp add: same_io_def)
  have "n = m - Suc k" "Suc k \<le> m" using Suc.hyps(2) k by simp_all
  from Suc.hyps(1) [OF this \<open>same_io u (u'\<lparr>iu_buf := mem1\<rparr>)\<close>] later obtain mem' where
    m': "verify_loop junk td inc (u'\<lparr>iu_buf := mem1\<rparr>) (Suc k * unat inc) (of_nat (Suc k)) 0
      = verify_loop junk td inc (u'\<lparr>iu_buf := mem'\<rparr>) (m * unat inc) (of_nat m) 0" "writes mem1 mem' 0 (m * unat inc)" by auto
  have "k * unat inc < unat (iu_buflen u')" using k inc assms(3) Suc.prems(2) by (simp add: same_io_def)
  then have "verify_loop junk td inc u' (k * unat inc) (of_nat k) 0
      = verify_loop junk td inc (u'\<lparr>iu_buf := mem1\<rparr>) (Suc k * unat inc) (of_nat (Suc k)) 0"
    using m1(1) by (subst verify_loop.simps) (simp add: add.commute)
  moreover have "Suc k * unat inc \<le> m * unat inc" using k(1) by (intro mult_le_mono1) simp
  then have "writes (iu_buf u') mem1 0 (m * unat inc)" by (intro writes_mono [OF m1(2)]) simp_all
  ultimately show ?case using m' writes_trans by fastforce
qed

lemma verify_loop_ok:
  assumes "0 < inc" "N * unat inc < 2 ^ 32" "unat (iu_buflen u) = N * unat inc" "offset_ok td inc"
    and "vo_verify (vt_o td) \<noteq> VERIFY_NONE" "same_io u u'"
    and "\<And>j. j < N \<Longrightarrow> \<exists>c. get_bytes (iu_buf u') (j * unat inc) (unat inc) = Some (stored td c)
           \<and> passes junk td u inc (of_nat j) c"
  shows "\<exists>u''. verify_loop junk td inc u' 0 0 0 = Some (u'', Inr 0)"
proof -
  from verify_loop_prefix [OF assms(1-5) le0 order_refl assms(6)] assms(7) obtain mem' where
    "verify_loop junk td inc u' 0 0 0 = verify_loop junk td inc (u'\<lparr>iu_buf := mem'\<rparr>) (N * unat inc) (of_nat N) 0" by auto
  moreover have "verify_loop junk td inc (u'\<lparr>iu_buf := mem'\<rparr>) (N * unat inc) (of_nat N) 0 = Some (u'\<lparr>iu_buf := mem'\<rparr>, Inr 0)"
    using assms(3,6) by (subst verify_loop.simps) (simp add: same_io_def)
  ultimately show ?thesis by auto
qed

lemma populate_loop_ok:
  assumes "0 < inc" "N * unat inc < 2 ^ 32" "unat (iu_buflen u) = N * unat inc" "offset_ok td inc"
    and "get_hdr_inc td u = inc" "ucast inc \<le> iu_buflen u \<or> N = 0" "k \<le> N" "length mem = N * unat inc"
    and "\<And>j. k \<le> j \<Longrightarrow> j < N \<Longrightarrow>
      csum_ok td inc (drop (unat (hdr_size0 (vo_verify (vt_o td)))) (take (unat inc) (drop (j * unat inc) mem)))"
  shows "\<exists>mem'. populate_loop junk td u inc mem (k * unat inc) (of_nat k) = Some mem' \<and> length mem' = length mem
    \<and> (\<forall>j < N. (if j < k then get_bytes mem' (j * unat inc) (unat inc) = get_bytes mem (j * unat inc) (unat inc)
         else \<exists>c. get_bytes mem' (j * unat inc) (unat inc) = Some (stored td c) \<and> passes junk' td u inc (of_nat j) c))"
  using assms(7-9)
proof (induction "N - k" arbitrary: k mem)
  case 0
  then show ?case using assms(3) by (subst populate_loop.simps) simp
next
  case (Suc n)
  then have k: "k < N" by simp
  note p = stretch_product [OF assms(2) k]
  have inc: "0 < unat inc" using assms(1) by (simp add: word_less_nat_alt)
  have g: "get_bytes mem (k * unat inc) (unat inc) = Some (take (unat inc) (drop (k * unat inc) mem))"
    using p(2) Suc.prems(2) by (simp add: get_bytes_def)
  have b: "ucast inc \<le> iu_buflen u" using assms(6) k by simp
  from populate_hdr_ok [OF g Suc.prems(3) [OF order_refl k] assms(5) b assms(4), of junk "of_nat k" junk'] obtain m1 c where
    m1: "populate_hdr junk td u mem (k * unat inc) (of_nat k) inc = Some m1" "writes mem m1 (k * unat inc) (unat inc)"
    "get_bytes m1 (k * unat inc) (unat inc) = Some (stored td c)" "passes junk' td u inc (of_nat k) c" by blast
  have l1: "length m1 = N * unat inc" using m1(2) Suc.prems(2) by (simp add: writes_def)
  have other: "get_bytes m1 (j * unat inc) (unat inc) = get_bytes mem (j * unat inc) (unat inc)" if "j \<noteq> k" for j
  proof (rule get_writes [OF m1(2)])
    show "j * unat inc + unat inc \<le> k * unat inc \<or> k * unat inc + unat inc \<le> j * unat inc"
    proof (cases "j < k")
      case True
      then have "Suc j * unat inc \<le> k * unat inc" by (intro mult_le_mono1) simp
      then show ?thesis by simp
    next
      case False
      then have "Suc k * unat inc \<le> j * unat inc" using that by (intro mult_le_mono1) simp
      then show ?thesis by simp
    qed
  qed
  have same: "take (unat inc) (drop (j * unat inc) m1) = take (unat inc) (drop (j * unat inc) mem)" if "j \<noteq> k" "j < N" for j
    using other [OF that(1)] stretch_product(2) [OF assms(2) that(2)] l1 Suc.prems(2) by (simp add: get_bytes_def)
  obtain mem' where m': "populate_loop junk td u inc m1 (Suc k * unat inc) (of_nat (Suc k)) = Some mem'" "length mem' = length m1"
    "\<And>j. j < N \<Longrightarrow> (if j < Suc k then get_bytes mem' (j * unat inc) (unat inc) = get_bytes m1 (j * unat inc) (unat inc)
         else \<exists>c. get_bytes mem' (j * unat inc) (unat inc) = Some (stored td c) \<and> passes junk' td u inc (of_nat j) c)"
  proof -
    have "n = N - Suc k" "Suc k \<le> N" using Suc.hyps(2) k by simp_all
    moreover have "csum_ok td inc (drop (unat (hdr_size0 (vo_verify (vt_o td)))) (take (unat inc) (drop (j * unat inc) m1)))"
      if "Suc k \<le> j" "j < N" for j
      using Suc.prems(3) [of j] same [of j] that by simp
    ultimately show ?thesis using Suc.hyps(1) [of "Suc k" m1] l1 that by blast
  qed
  have "populate_loop junk td u inc mem (k * unat inc) (of_nat k) = Some mem'"
    using m1(1) m'(1) k inc assms(3) by (subst populate_loop.simps) (simp add: add.commute)
  moreover have "if j < k then get_bytes mem' (j * unat inc) (unat inc) = get_bytes mem (j * unat inc) (unat inc)
         else \<exists>c. get_bytes mem' (j * unat inc) (unat inc) = Some (stored td c) \<and> passes junk' td u inc (of_nat j) c" if "j < N" for j
    using m'(3) [OF that] other [of j] m1(3,4) by (cases "j = k") (auto simp: less_Suc_eq)
  ultimately show ?case using m'(2) l1 Suc.prems(2) by (intro exI [of _ mem'] conjI allI impI) simp_all
qed

section \<open>Round trip\<close>

text \<open>
  A job whose headers make sense: the headers fill the buffer exactly, each has room for its
  contents and for its way to \<open>verify_offset\<close>; a SHA-2 header has a full block of data, for the
  code compares the buffer of the context, which is not initialised otherwise; random data comes in longs; a
  pattern that a header looks at repeats with the headers.
\<close>

definition verify_setup :: "verify_td \<Rightarrow> vio_u \<Rightarrow> bool" where
  "verify_setup td u \<longleftrightarrow>
     (let t = vo_verify (vt_o td); pb = vo_pattern_bytes (vt_o td); inc = get_hdr_inc td u in
        t \<noteq> VERIFY_NONE \<and> t \<noteq> VERIFY_NULL \<and> length (iu_buf u) = unat (iu_buflen u) \<and> unat (iu_buflen u) < 2 ^ 31 \<and>
        unat inc dvd unat (iu_buflen u) \<and> hdr_size0 t \<le> inc \<and> offset_ok td inc \<and> iu_filled u = 0 \<and>
        (t = VERIFY_SHA256 \<longrightarrow> 64 \<le> unat (inc - hdr_size0 t)) \<and> (t = VERIFY_SHA512 \<longrightarrow> 128 \<le> unat (inc - hdr_size0 t)) \<and>
        (if pb = 0 then 8 dvd unat (iu_buflen u) \<and> t \<noteq> VERIFY_PATTERN
         else pattern_wf td \<and> (pat_size td dvd unat inc \<or> pb = 1 \<or> unat inc = unat (iu_buflen u))))"

lemma pat_shift:
  assumes "pattern_wf td" "pat_size td dvd n \<or> vo_pattern_bytes (vt_o td) = 1 \<or> k = 0"
  shows "pat td (k * n + i) = pat td i"
  using assms(2)
proof (elim disjE)
  assume "pat_size td dvd n"
  then obtain q where "k * n + i = i + pat_size td * (k * q)" by (auto elim!: dvdE)
  then have "(k * n + i) mod pat_size td = i mod pat_size td" by (simp only: mod_mult_self2)
  then show ?thesis by (simp add: pat_def)
next
  assume pb: "vo_pattern_bytes (vt_o td) = 1"
  then have c: "\<And>j. j < 512 \<Longrightarrow> vo_pattern (vt_o td) ! j = vo_pattern (vt_o td) ! 0"
    using assms(1) unfolding pattern_wf_def by blast
  have "pat_size td = 512" using pb by (simp add: pat_size_def)
  then have "(k * n + i) mod pat_size td < 512" "i mod pat_size td < 512" by simp_all
  then show ?thesis unfolding pat_def using c by metis
qed simp

lemma fill_verify_pattern_ok:
  assumes "verify_setup td u"
  shows "\<exists>td' u'. fill_verify_pattern td u (ucast (iu_buflen u)) None = Some (td', u') \<and> vt_o td' = vt_o td
    \<and> iu_buflen u' = iu_buflen u \<and> iu_offset u' = iu_offset u \<and> iu_numberio u' = iu_numberio u
    \<and> length (iu_buf u') = unat (iu_buflen u)
    \<and> (vo_pattern_bytes (vt_o td) \<noteq> 0 \<longrightarrow> (\<forall>j < unat (iu_buflen u). iu_buf u' ! j = pat td j))"
proof -
  let ?len = "ucast (iu_buflen u) :: u32"
  have s: "length (iu_buf u) = unat (iu_buflen u)" "unat (iu_buflen u) < 2 ^ 31" "iu_filled u = 0"
    "hdr_size0 (vo_verify (vt_o td)) \<le> get_hdr_inc td u" "unat (get_hdr_inc td u) dvd unat (iu_buflen u)"
    using assms by (simp_all add: verify_setup_def Let_def)
  have len: "unat ?len = unat (iu_buflen u)" using s(2) by (simp add: unat_ucast_32)
  show ?thesis
  proof (cases "vo_pattern_bytes (vt_o td) = 0")
    case True
    then have "8 dvd unat (iu_buflen u)" using assms by (simp add: verify_setup_def Let_def)
    then have "((unat (iu_buflen u) + 7) div 8) * 8 = unat (iu_buflen u)" by (auto elim!: dvdE)
    then have "\<exists>b. fill_random_buf0 (iu_buf u) 0 ?len seed = Some b \<and> length b = length (iu_buf u)" for seed
      using fill_random_words_defined [of 0 "unat ?len" "iu_buf u" 0 seed] len s(1) by (simp add: fill_random_buf0_def)
    from this [of "snd (fill_seed (vt_state td))"] obtain b where
      "fill_random_buf0 (iu_buf u) 0 ?len (snd (fill_seed (vt_state td))) = Some b" "length b = length (iu_buf u)" by blast
    then show ?thesis using True s(1) by (simp add: fill_verify_pattern_def fill_random_buf_def split_def Let_def)
  next
    case False
    then have "pattern_wf td" using assms by (simp add: verify_setup_def Let_def)
    from fill_pattern_eq [OF this False, of ?len "iu_buf u"] obtain b where
      b: "fill_pattern (iu_buf u) ?len (vo_pattern (vt_o td)) (vo_pattern_bytes (vt_o td)) = Some b"
      "length b = length (iu_buf u)" "\<forall>j < unat ?len. b ! j = pat td j" using len s(1) by auto
    have "unat ?len \<noteq> 0"
    proof
      assume "unat ?len = 0"
      then have "iu_buflen u = 0" using len by (simp add: unat_eq_zero)
      then have "get_hdr_inc td u = 0" by (simp add: get_hdr_inc_def word_le_nat_alt unat_ucast_64 unat_gt_0)
      then show False using s(4) by (simp add: word_le_nat_alt unat_hdr_size0)
    qed
    then have "\<not> (ucast ?len :: u64) \<le> iu_filled u" using s(3) by (simp add: word_le_nat_alt unat_ucast_64)
    then show ?thesis using False b s(1) len by (simp add: fill_verify_pattern_def)
  qed
qed

lemma stretch_csum_ok:
  assumes "verify_setup td u" "vt_o td' = vt_o td" "length b = unat (iu_buflen u)"
    and "vo_pattern_bytes (vt_o td) \<noteq> 0 \<Longrightarrow> (\<forall>j < unat (iu_buflen u). b ! j = pat td j)"
    and "inc = get_hdr_inc td u" "unat (iu_buflen u) = N * unat inc" "j < N"
  shows "csum_ok td' inc (drop (unat (hdr_size0 (vo_verify (vt_o td')))) (take (unat inc) (drop (j * unat inc) b)))"
proof -
  let ?hs = "hdr_size0 (vo_verify (vt_o td))"
  let ?d = "drop (unat ?hs) (take (unat inc) (drop (j * unat inc) b))"
  have s: "?hs \<le> inc" "unat (iu_buflen u) < 2 ^ 31" using assms(1,5) by (simp_all add: verify_setup_def Let_def)
  have "Suc j * unat inc \<le> N * unat inc" using assms(7) by (intro mult_le_mono1) simp
  then have ji: "j * unat inc + unat inc \<le> length b" using assms(3,6) by simp
  then have ld: "length ?d = unat (inc - ?hs)" using s(1) by (simp add: unat_sub)
  have pattern: "?d ! i = pat td (unat ?hs + i)" if "i < length ?d" "vo_pattern_bytes (vt_o td) \<noteq> 0" for i
  proof -
    have i: "unat ?hs + i < unat inc" using that(1) by simp
    then have "?d ! i = b ! (j * unat inc + (unat ?hs + i))" using ji by simp
    also have "\<dots> = pat td (j * unat inc + (unat ?hs + i))" using assms(4) [OF that(2)] i ji assms(3) by simp
    also have "\<dots> = pat td (unat ?hs + i)"
    proof (rule pat_shift)
      show "pattern_wf td" using assms(1) that(2) by (simp add: verify_setup_def Let_def)
      have "j = 0" if "unat inc = unat (iu_buflen u)"
        using that assms(6,7) s(1) by (auto simp: word_le_nat_alt unat_hdr_size0)
      then show "pat_size td dvd unat inc \<or> vo_pattern_bytes (vt_o td) = 1 \<or> j = 0"
        using assms(1,5) that(2) by (auto simp: verify_setup_def Let_def)
    qed
    finally show ?thesis .
  qed
  have lt: "length ?d < 2 ^ 31" using ld ji s(2) assms(3) by simp
  have "csum_ok td inc ?d" unfolding csum_ok_def Let_def
  proof (intro conjI impI allI)
    fix i assume t: "vo_verify (vt_o td) \<in> {VERIFY_META, VERIFY_PATTERN} \<and> vo_pattern_bytes (vt_o td) \<noteq> 0"
    assume "i < length ?d"
    then show "?d ! i = pat td (unat ?hs + i)" using pattern t by blast
  qed (use assms(1,5) s lt ld in \<open>simp_all only: verify_setup_def Let_def\<close>, blast+, metis+)
  then show ?thesis by (simp only: csum_ok_def pattern_wf_def pat_def pat_size_def assms(2))
qed

lemma populate_stretches:
  assumes "verify_setup td u" "inc = get_hdr_inc td u"
  shows "\<exists>td' u' mem' N. populate_verify_io_u junk td u = Some (td', u'\<lparr>iu_buf := mem'\<rparr>) \<and> vt_o td' = vt_o td
    \<and> get_hdr_inc td' u' = inc \<and> 0 < inc \<and> N * unat inc < 2 ^ 32 \<and> unat (iu_buflen u') = N * unat inc
    \<and> length mem' = N * unat inc \<and> iu_buflen u' = iu_buflen u
    \<and> (\<forall>j < N. \<exists>c. get_bytes mem' (j * unat inc) (unat inc) = Some (stored td' c) \<and> passes junk' td' u' inc (of_nat j) c)"
proof -
  define u1 where "u1 = u\<lparr>iu_numberio := ucast (vt_issues td (iu_ddir u))\<rparr>"
  have inc1: "get_hdr_inc td u1 = get_hdr_inc td u" by (simp add: u1_def get_hdr_inc_def)
  have s1: "verify_setup td u1" using assms(1) by (simp add: verify_setup_def Let_def inc1) (simp add: u1_def)
  from fill_verify_pattern_ok [OF s1] obtain td' u2 where
    u2: "fill_verify_pattern td u1 (ucast (iu_buflen u1)) None = Some (td', u2)" "vt_o td' = vt_o td"
    "iu_buflen u2 = iu_buflen u1" "length (iu_buf u2) = unat (iu_buflen u1)"
    "vo_pattern_bytes (vt_o td) \<noteq> 0 \<longrightarrow> (\<forall>j < unat (iu_buflen u1). iu_buf u2 ! j = pat td j)"
    by blast
  have inc: "inc = get_hdr_inc td u1" "get_hdr_inc td' u2 = inc" by (simp_all add: assms(2) inc1) (simp add: get_hdr_inc_def u2 u1_def)
  have s: "vo_verify (vt_o td) \<noteq> VERIFY_NULL" "unat (iu_buflen u1) < 2 ^ 31"
    "unat inc dvd unat (iu_buflen u1)" "hdr_size0 (vo_verify (vt_o td)) \<le> inc" "offset_ok td inc"
    using s1 by (simp_all add: verify_setup_def Let_def inc(1))
  obtain N where N: "unat (iu_buflen u1) = N * unat inc" using s(3) by (metis dvdE mult.commute)
  have i0: "0 < inc" using s(4) by (auto simp: word_le_nat_alt word_less_nat_alt unat_hdr_size0)
  have ib: "ucast inc \<le> iu_buflen u2 \<or> N = 0" using N u2(3) by (cases N) (simp_all add: word_le_nat_alt unat_ucast_64)
  have b: "N * unat inc < 2 ^ 32" using N s(2) by simp
  have o: "offset_ok td' inc" using s(5) by (simp add: offset_ok_def u2(2))
  have cs: "csum_ok td' inc (drop (unat (hdr_size0 (vo_verify (vt_o td')))) (take (unat inc) (drop (j * unat inc) (iu_buf u2))))"
    if "j < N" for j
    by (rule stretch_csum_ok [OF s1 u2(2,4) _ inc(1) N that]) (use u2(5) in blast)
  have bl: "unat (iu_buflen u2) = N * unat inc" "length (iu_buf u2) = N * unat inc" using N u2(3,4) by simp_all
  have "\<exists>mem'. populate_loop junk td' u2 inc (iu_buf u2) (0 * unat inc) (of_nat 0) = Some mem' \<and> length mem' = length (iu_buf u2)
    \<and> (\<forall>j < N. (if j < 0 then get_bytes mem' (j * unat inc) (unat inc) = get_bytes (iu_buf u2) (j * unat inc) (unat inc)
         else \<exists>c. get_bytes mem' (j * unat inc) (unat inc) = Some (stored td' c) \<and> passes junk' td' u2 inc (of_nat j) c))"
    by (rule populate_loop_ok [OF i0 b bl(1) o inc(2) ib _ bl(2)]) (use cs in simp_all)
  then obtain mem' where m: "populate_loop junk td' u2 inc (iu_buf u2) 0 0 = Some mem'" "length mem' = N * unat inc"
    "\<And>j. j < N \<Longrightarrow> \<exists>c. get_bytes mem' (j * unat inc) (unat inc) = Some (stored td' c) \<and> passes junk' td' u2 inc (of_nat j) c"
    using bl(2) by auto
  have "populate_verify_io_u junk td u = Some (td', u2\<lparr>iu_buf := mem'\<rparr>)"
    using u2(1) m(1) s(1) inc(2) unfolding populate_verify_io_u_def fill_pattern_headers_def u1_def [symmetric] by simp
  moreover have "iu_buflen u2 = iu_buflen u" by (simp add: u2(3) u1_def)
  ultimately show ?thesis using u2(2) inc(2) i0 b bl(1) m(2,3) by blast
qed



end
