(* ===== verification/Verify_Detect.thy ===== *)
theory Verify_Detect
  imports Verify_Correct
begin

text \<open>
  What the checks of \<^verbatim>\<open>verify.c\<close> find. A changed byte of the data is reported by every
  cyclic checksum, from the check of one header up to \<open>verify_io_u\<close> on a prepared buffer. The
  digests that the code never finalises have blind spots, which are stated exactly.
\<close>

section \<open>The contract of a check that finds changes\<close>

text \<open>
  The check compares the checksum of the data with the value in the header, and a change of one byte
  that is \<open>visible\<close> changes the checksum.
\<close>

locale catching_check =
  fixes check :: "u8 list \<Rightarrow> nat \<Rightarrow> u32 \<Rightarrow> u32 option"
    and csum :: "u8 list \<Rightarrow> 'a::len word"
    and n :: nat
    and visible :: "u8 \<Rightarrow> u8 \<Rightarrow> bool"
  assumes check_eq: "check mem hdr k = do {
       (d, len) \<leftarrow> verify_data mem hdr k; v \<leftarrow> get_word mem (hdr_priv hdr) n; Some (if csum d = v then 0 else EILSEQ) }"
    and csum_byte: "x \<noteq> y \<Longrightarrow> visible x y \<Longrightarrow> csum (us @ x # vs) \<noteq> csum (us @ y # vs)"
begin

lemma catches:
  assumes "verify_data mem hdr k = Some (d, len)" "check mem hdr k = Some 0" "i < length d" "x \<noteq> d ! i" "visible x (d ! i)"
    and "verify_data mem' hdr k = Some (d[i := x], len)" "get_word mem' (hdr_priv hdr) n = (get_word mem (hdr_priv hdr) n :: 'a word option)"
  shows "check mem' hdr k = Some EILSEQ"
proof -
  obtain v where v: "get_word mem (hdr_priv hdr) n = Some v" "csum d = v"
    using assms(1,2) by (auto simp: check_eq EILSEQ_def split: if_splits Option.bind_splits)
  have "csum (d[i := x]) \<noteq> csum d"
    using csum_byte [OF assms(4,5), of "take i d" "drop (Suc i) d"] assms(3)
    by (simp add: upd_conv_take_nth_drop id_take_nth_drop [symmetric])
  then show ?thesis using v assms(6,7) by (simp add: check_eq)
qed

end

interpretation cc_crc7: catching_check verify_io_u_crc7 fio_crc7 1 "\<lambda>x y. x XOR y \<noteq> 0x89"
  by unfold_locales (simp_all add: verify_io_u_crc7_def crc7_one_byte)

interpretation cc_crc16: catching_check verify_io_u_crc16 fio_crc16 2 "\<lambda>_ _. True"
  by unfold_locales (simp_all add: verify_io_u_crc16_def crc_one_byte)

interpretation cc_crc32: catching_check verify_io_u_crc32 fio_crc32 4 "\<lambda>_ _. True"
  by unfold_locales (simp_all add: verify_io_u_crc32_def crc_one_byte)

interpretation cc_crc32c: catching_check verify_io_u_crc32c crc32c_sw 4 "\<lambda>_ _. True"
  by unfold_locales (simp_all add: verify_io_u_crc32c_def crc_one_byte)

interpretation cc_crc64: catching_check verify_io_u_crc64 fio_crc64 8 "\<lambda>_ _. True"
  by unfold_locales (simp_all add: verify_io_u_crc64_def crc_one_byte)

section \<open>One header\<close>

text \<open>The kinds of headers with a cyclic checksum, and the changes they see.\<close>

definition crc_sees :: "verify_type \<Rightarrow> u8 \<Rightarrow> u8 \<Rightarrow> bool" where
  "crc_sees t x y \<longleftrightarrow> (t = VERIFY_CRC7 \<and> x XOR y \<noteq> 0x89) \<or>
     t \<in> {VERIFY_CRC16, VERIFY_CRC32, VERIFY_CRC32C, VERIFY_CRC32C_INTEL, VERIFY_CRC64}"

lemma csum_catches:
  assumes "verify_data mem hdr k = Some (d, len)" "verify_csum junk td u mem hdr k (Some t) = Some 0"
    and "i < length d" "x \<noteq> d ! i" "crc_sees t x (d ! i)" "verify_data mem' hdr k = Some (d[i := x], len)"
    and "get_bytes mem' (hdr_priv hdr) (vhdr_size t) = get_bytes mem (hdr_priv hdr) (vhdr_size t)"
  shows "verify_csum junk td u mem' hdr k (Some t) = Some EILSEQ"
proof -
  have w: "get_word mem' (hdr_priv hdr) (vhdr_size t) = (get_word mem (hdr_priv hdr) (vhdr_size t) :: 'w::len word option)"
    by (simp add: get_word_def assms(7))
  note catch = cc_crc7.catches [OF assms(1) _ assms(3,4) _ assms(6)] cc_crc16.catches [OF assms(1) _ assms(3,4) _ assms(6)]
    cc_crc32.catches [OF assms(1) _ assms(3,4) _ assms(6)] cc_crc32c.catches [OF assms(1) _ assms(3,4) _ assms(6)]
    cc_crc64.catches [OF assms(1) _ assms(3,4) _ assms(6)]
  from assms(5) consider "t = VERIFY_CRC7" "x XOR d ! i \<noteq> 0x89" | "t = VERIFY_CRC16" | "t = VERIFY_CRC32"
    | "t = VERIFY_CRC32C" | "t = VERIFY_CRC32C_INTEL" | "t = VERIFY_CRC64"
    unfolding crc_sees_def by blast
  then show ?thesis
    by cases (use assms(2,7) catch in \<open>simp_all add: verify_csum_def get_word_def\<close>)
qed

lemma writes_byte: "writes mem (mem[q := x]) q 1"
  by (cases "q < length mem") (simp_all add: writes_def list_update_beyond)

lemma get_bytes_byte:
  assumes "get_bytes mem p n = Some c" "i < n"
  shows "get_bytes (mem[p + i := x]) p n = Some (c[i := x])"
  using assms by (auto simp: get_bytes_Some_iff take_update_swap drop_update_swap)

text \<open>A header whose bytes are the same is read the same.\<close>

lemma same_header:
  assumes "\<And>q k. q + k \<le> p + 20 \<Longrightarrow> get_bytes mem' q k = get_bytes mem q k"
  shows "hdr_magic mem' p = hdr_magic mem p" "hdr_verify_type mem' p = hdr_verify_type mem p" "hdr_len mem' p = hdr_len mem p"
    "hdr_rand_seed mem' p = hdr_rand_seed mem p" "hdr_crc32 mem' p = hdr_crc32 mem p"
    "hdr_size mem' p = hdr_size mem p" "verify_header u mem' p = verify_header u mem p"
proof -
  show f: "hdr_magic mem' p = hdr_magic mem p" "hdr_verify_type mem' p = hdr_verify_type mem p" "hdr_len mem' p = hdr_len mem p"
    "hdr_rand_seed mem' p = hdr_rand_seed mem p" "hdr_crc32 mem' p = hdr_crc32 mem p"
    by (simp_all add: hdr_magic_def hdr_verify_type_def hdr_len_def hdr_rand_seed_def hdr_crc32_def get_word_def assms)
  show "hdr_size mem' p = hdr_size mem p" by (simp only: hdr_size_def f)
  have "get_bytes mem' p 16 = get_bytes mem p 16" by (rule assms) simp
  then show "verify_header u mem' p = verify_header u mem p" by (simp only: verify_header_def f)
qed

lemma verify_data_eq:
  assumes "hdr_len mem p = Some inc" "hdr_size mem p = Some hs" "p = unat (k * inc)" "hs \<le> inc" "get_bytes mem p (unat inc) = Some c"
  shows "verify_data mem p k = Some (drop (unat hs) c, inc - hs)"
proof -
  have n: "unat inc = unat hs + unat (inc - hs)" using assms(4) by (simp add: unat_sub word_le_nat_alt)
  have "get_bytes mem (p + unat hs) (unat (inc - hs)) = Some (drop (unat hs) c)"
    using get_bytes_sub [OF assms(5), of "unat hs" "unat (inc - hs)"] get_bytes_length [OF assms(5)] n by simp
  then show ?thesis using assms(1-3) by (simp add: verify_data_def io_u_verify_off_def)
qed

lemma pass_catches:
  assumes "passes junk td u inc k c" "same_io u u'" "p = unat (k * inc)" "get_bytes mem p (unat inc) = Some c"
    and "iu_buf u' = mem[p + i := x]" "hs = unat (hdr_size0 (vo_verify (vt_o td)))" "hs \<le> i" "i < unat inc"
    and "x \<noteq> c ! i" "crc_sees (vo_verify (vt_o td)) x (c ! i)" "vo_offset (vt_o td) = 0"
  shows "verify_pass junk td u' p k = Some (u', Inr EILSEQ)"
proof -
  let ?t = "vo_verify (vt_o td)" and ?hs = "hdr_size0 (vo_verify (vt_o td))"
  have lc: "length c = unat inc" by (rule get_bytes_length [OF assms(4)])
  have old: "verify_header u mem p = Some 0" "hdr_rand_seed mem p = Some (iu_rand_seed u)" "hdr_verify_type mem p = Some (verify_code ?t)"
    "hdr_len mem p = Some inc" "verify_csum junk td u mem p k (Some ?t) = Some 0"
    using assms(1,3,4) by (simp_all add: passes_def)
  have "get_bytes (iu_buf u') q n = get_bytes mem q n" if "q + n \<le> p + hs" for q n
    unfolding assms(5) by (rule get_writes [OF writes_byte]) (use that assms(7) in simp)
  then have same: "get_bytes (iu_buf u') q n = get_bytes mem q n" if "q + n \<le> p + (vhdr_size ?t + 24)" for q n
    using that by (simp add: assms(6) unat_hdr_size0)
  note h = same_header [of p "iu_buf u'" mem, OF same]
  have sz: "hdr_size mem p = Some ?hs" "hdr_size (iu_buf u') p = Some ?hs"
    using old(3) h(2) by (simp_all add: hdr_size_def verify_of_code)
  have hi: "?hs \<le> inc" using assms(6,7,8) by (simp add: word_le_nat_alt)
  have d: "verify_data mem p k = Some (drop hs c, inc - ?hs)"
    unfolding assms(6) by (rule verify_data_eq [OF old(4) sz(1) assms(3) hi assms(4)])
  have "hdr_len (iu_buf u') p = Some inc" using old(4) h(3) by simp
  from verify_data_eq [OF this sz(2) assms(3) hi, of "c[i := x]"]
  have d': "verify_data (iu_buf u') p k = Some ((drop hs c)[i - hs := x], inc - ?hs)"
    using get_bytes_byte [OF assms(4,8)] assms(7) unfolding assms(5,6) by (simp add: drop_update_swap)
  have "verify_csum junk td u (iu_buf u') p k (Some ?t) = Some EILSEQ"
  proof (rule csum_catches [OF d old(5) _ _ _ d'])
    show "get_bytes (iu_buf u') (hdr_priv p) (vhdr_size ?t) = get_bytes mem (hdr_priv p) (vhdr_size ?t)"
      by (rule same) (simp add: hdr_priv_def)
  qed (use assms(7-10) lc in simp_all)
  moreover have "verify_header u (iu_buf u') p = Some 0" "hdr_rand_seed (iu_buf u') p = Some (iu_rand_seed u)"
    "hdr_verify_type (iu_buf u') p = Some (verify_code ?t)" using old h by simp_all
  moreover have "verify_csum junk td u' = verify_csum junk td u" "verify_header u' = verify_header u"
    using assms(2) verify_csum_cong [of u' u] verify_header_cong [of u' u] by (simp_all add: same_io_def)
  moreover have "u'\<lparr>iu_rand_seed := iu_rand_seed u\<rparr> = u'" using assms(2) by (simp add: same_io_def)
  moreover have "?t \<noteq> VERIFY_NONE" using assms(10) by (auto simp: crc_sees_def)
  ultimately show ?thesis using assms(11) by (simp add: verify_pass_def Let_def)
qed

lemma pass_catches_chunk:
  assumes "passes junk td u inc k c" "same_io u u'" "p = unat (k * inc)" "get_bytes (iu_buf u') p (unat inc) = Some (c[i := x])"
    and "unat (hdr_size0 (vo_verify (vt_o td))) \<le> i" "i < unat inc"
    and "x \<noteq> c ! i" "crc_sees (vo_verify (vt_o td)) x (c ! i)" "vo_offset (vt_o td) = 0"
  shows "verify_pass junk td u' p k = Some (u', Inr EILSEQ)"
proof -
  let ?mem = "(iu_buf u')[p + i := c ! i]"
  have l: "length c = unat inc" using assms(1) by (simp add: passes_def)
  have "get_bytes ?mem p (unat inc) = Some c" using get_bytes_byte [OF assms(4,6), of "c ! i"] by simp
  moreover have "c[i := x] ! i = iu_buf u' ! (p + i)" using assms(4,6) by (simp add: get_bytes_Some_iff)
  then have "iu_buf u' = ?mem[p + i := x]" using l assms(6) by (auto simp: list_update_id)
  ultimately show ?thesis using pass_catches [OF assms(1-3) _ _ refl assms(5-9)] by blast
qed

section \<open>A buffer\<close>

text \<open>The loop stops at the changed header when errors are fatal.\<close>

lemma loop_catches:
  assumes "0 < inc" "N * unat inc < 2 ^ 32" "unat (iu_buflen u) = N * unat inc" "k < N" "same_io u u'"
    and "\<And>j. j < N \<Longrightarrow> get_bytes mem (j * unat inc) (unat inc) = Some (c j) \<and> passes junk td u inc (of_nat j) (c j)"
    and "iu_buf u' = mem[k * unat inc + i := x]" "unat (hdr_size0 (vo_verify (vt_o td))) \<le> i" "i < unat inc"
    and "x \<noteq> c k ! i" "crc_sees (vo_verify (vt_o td)) x (c k ! i)" "vo_offset (vt_o td) = 0" "vo_fatal (vt_o td)"
  shows "\<exists>u''. verify_loop junk td inc u' 0 0 0 = Some (u'', Inr EILSEQ)"
proof -
  have chunk: "get_bytes (iu_buf u') (j * unat inc) (unat inc) = get_bytes mem (j * unat inc) (unat inc)" if "j < k" for j
    unfolding assms(7)
  proof (rule get_writes [OF writes_byte])
    have "Suc j * unat inc \<le> k * unat inc" using that by (intro mult_le_mono1) simp
    then show "j * unat inc + unat inc \<le> k * unat inc + i \<or> k * unat inc + i + 1 \<le> j * unat inc" by simp
  qed
  have o: "offset_ok td inc" using assms(12) by (simp add: offset_ok_def)
  have t: "vo_verify (vt_o td) \<noteq> VERIFY_NONE" using assms(11) by (auto simp: crc_sees_def)
  have st: "\<exists>c. get_bytes (iu_buf u') (j * unat inc) (unat inc) = Some (stored td c) \<and> passes junk td u inc (of_nat j) c"
    if "j < k" for j using chunk [OF that] assms(6) [of j] assms(4,12) that by (simp add: stored_def)
  from verify_loop_prefix [OF assms(1-3) o t le0 less_imp_le [OF assms(4)] assms(5)] st obtain mem1 where
    m1: "verify_loop junk td inc u' 0 0 0 = verify_loop junk td inc (u'\<lparr>iu_buf := mem1\<rparr>) (k * unat inc) (of_nat k) 0"
    "writes (iu_buf u') mem1 0 (k * unat inc)" by auto
  let ?u = "u'\<lparr>iu_buf := mem1\<rparr>"
  have "get_bytes (iu_buf u') (k * unat inc) (unat inc) = Some ((c k)[i := x])"
    unfolding assms(7) using get_bytes_byte [OF _ assms(9)] assms(6) [OF assms(4)] by blast
  then have "get_bytes mem1 (k * unat inc) (unat inc) = Some ((c k)[i := x])" using get_writes [OF m1(2)] by simp
  then have pass: "verify_pass junk td ?u (k * unat inc) (of_nat k) = Some (?u, Inr EILSEQ)"
    using pass_catches_chunk [of junk td u inc "of_nat k" "c k" ?u "k * unat inc" i x] assms(4-6,8-12)
      stretch_product(1) [OF assms(2,4)] by (simp add: same_io_def)
  have "verify_loop junk td inc ?u (k * unat inc + unat inc) (of_nat k + 1) EILSEQ = Some (?u, Inr EILSEQ)"
    by (subst verify_loop.simps) (simp add: assms(13) EILSEQ_def)
  moreover have "k * unat inc < unat (iu_buflen u')" using assms(1,3,4,5) by (simp add: same_io_def word_less_nat_alt)
  ultimately have "verify_loop junk td inc ?u (k * unat inc) (of_nat k) 0 = Some (?u, Inr EILSEQ)"
    using pass by (subst verify_loop.simps) simp
  then show ?thesis using m1(1) by auto
qed



section \<open>Digests that are not finalised\<close>

context block_hash
begin

lemma same_full_blocks:
  assumes "wf c" "pending c = []" "length d' = length d" "length d < lim" "take (length d - length d mod B) d' = take (length d - length d mod B) d"
    and "update c d = Some c1" "update c d' = Some c2"
  shows "digest c2 = digest c1"
proof -
  let ?n = "length d - length d mod B"
  have n: "length (take ?n d) mod B = 0" "?n \<le> length d" by (simp_all add: minus_mod_eq_mult_div)
  have "length (take ?n d) < lim" by (rule le_less_trans [OF _ assms(4)]) simp
  then obtain c0 where c0: "update c (take ?n d) = Some c0" using update_absorbs [OF assms(1)] by blast
  have tail: "digest cx = digest c0" if "update c x = Some cx" "take ?n x = take ?n d" "length x = length d" for x cx
  proof (rule tail_ignored [OF assms(1,2) n(1) _ _ _ c0])
    have x: "take ?n d @ drop ?n x = x" using append_take_drop_id [of ?n x] by (simp only: that(2))
    show "length (drop ?n x) < B" using block_pos that(3) by simp
    show "length (take ?n d @ drop ?n x) < lim" unfolding x by (simp only: that(3) assms(4))
    show "update c (take ?n d @ drop ?n x) = Some cx" unfolding x by (rule that(1))
  qed
  have "digest c1 = digest c0" "digest c2 = digest c0"
    using tail [OF assms(6) refl refl] tail [OF assms(7,5,3)] by blast+
  then show ?thesis by simp
qed

end

lemma md5_sum_full_blocks:
  assumes "length d < 2 ^ 31" "length d' = length d" "take (length d - length d mod 64) d' = take (length d - length d mod 64) d"
  shows "md5_sum d' (of_nat (length d)) = md5_sum d (of_nat (length d))"
proof -
  let ?c = "fio_md5_init \<lparr>md5_hash = (0, 0, 0, 0), md5_block = replicate 64 0, md5_byte_count = 0\<rparr>"
  have c: "md5_wf ?c" "md5_pending ?c = []" by (simp_all add: md5_wf_def fio_md5_init_def md5_pending_def)
  have l: "length d < 2 ^ 32" "length d' < 2 ^ 32" using assms(1,2) by simp_all
  obtain c1 where c1: "md5_feed ?c d = Some c1" using md5_update_absorbs [OF c(1) l(1)] by blast
  obtain c2 where c2: "md5_feed ?c d' = Some c2" using md5_update_absorbs [OF c(1) l(2)] by blast
  have "md5_hash c2 = md5_hash c1" by (rule md5.same_full_blocks [OF c assms(2) l(1) assms(3) c1 c2])
  then show ?thesis using c1 c2 assms(2) by (simp add: md5_sum_def md5_feed_def)
qed

lemma sha1_sum_full_blocks:
  assumes "length d < 2 ^ 31" "length d' = length d" "take (length d - length d mod 64) d' = take (length d - length d mod 64) d"
  shows "sha1_sum d' (of_nat (length d)) = sha1_sum d (of_nat (length d))"
proof -
  let ?c = "fio_sha1_init \<lparr>sha1_H = (0, 0, 0, 0, 0), sha1_W = replicate 64 0, sha1_size = 0\<rparr>"
  have c: "sha1_wf ?c" "sha1_pending ?c = []" by (simp_all add: sha1_wf_def fio_sha1_init_def sha1_pending_def)
  have l: "length d < 2 ^ 64" "length d' < 2 ^ 64" using assms(1,2) by simp_all
  obtain c1 where c1: "sha1_feed ?c d = Some c1" using sha1_feed_absorbs [OF c(1) l(1)] by blast
  obtain c2 where c2: "sha1_feed ?c d' = Some c2" using sha1_feed_absorbs [OF c(1) l(2)] by blast
  have "sha1_H c2 = sha1_H c1" by (rule sha1.same_full_blocks [OF c assms(2) l(1) assms(3) c1 c2])
  moreover have "ucast (of_nat (length d) :: u32) = (of_nat (length d) :: u64)"
    using assms(1) by (simp add: word_unat_eq_iff unat_ucast_64 unat_of_nat)
  ultimately show ?thesis using c1 c2 assms(2) by (simp add: sha1_sum_def sha1_feed_def)
qed

text \<open>
  C9: the digests of the headers have blind spots, since the code does not finalise them. MD5 and
  SHA-1 do not see the bytes after the last full block of 64. Of data of at least a block the headers of
  SHA-256 and SHA-512 hold the rest after the last full block and fill up from the first block, so
  nothing between the first block and that rest matters.
\<close>

theorem unfinished_digests:
  assumes "length d < 2 ^ 31" "length d' = length d" "n = of_nat (length d)"
  shows "(take (length d - length d mod 64) d' = take (length d - length d mod 64) d
          \<longrightarrow> md5_sum d' n = md5_sum d n \<and> sha1_sum d' n = sha1_sum d n)
    \<and> (length b = 64 \<and> 64 \<le> length d \<and> take 64 d' = take 64 d
          \<and> drop (length d - length d mod 64) d' = drop (length d - length d mod 64) d
          \<longrightarrow> sha256_left b d' n = sha256_left b d n)
    \<and> (length b = 128 \<and> 128 \<le> length d \<and> take 128 d' = take 128 d
          \<and> drop (length d - length d mod 128) d' = drop (length d - length d mod 128) d
          \<longrightarrow> sha512_left b d' n = sha512_left b d n)"
proof (intro conjI impI; (elim conjE)?)
  assume "take (length d - length d mod 64) d' = take (length d - length d mod 64) d"
  from md5_sum_full_blocks [OF assms(1,2) this] sha1_sum_full_blocks [OF assms(1,2) this]
  show "md5_sum d' n = md5_sum d n" "sha1_sum d' n = sha1_sum d n" by (simp_all add: assms(3))
next
  assume "length b = 64" "64 \<le> length d" "take 64 d' = take 64 d"
    "drop (length d - length d mod 64) d' = drop (length d - length d mod 64) d"
  then show "sha256_left b d' n = sha256_left b d n"
    using sha256_left_eq [of b d] sha256_left_eq [of b d'] assms by (simp add: sha2_leftover_def Let_def)
next
  assume "length b = 128" "128 \<le> length d" "take 128 d' = take 128 d"
    "drop (length d - length d mod 128) d' = drop (length d - length d mod 128) d"
  then show "sha512_left b d' n = sha512_left b d n"
    using sha512_left_eq [of b d] sha512_left_eq [of b d'] assms by (simp add: sha2_leftover_def Let_def)
qed

theorem unfinished_digests_witness:
  "md5_sum (replicate 64 0 @ [1]) 65 = md5_sum (replicate 64 0 @ [2]) 65
    \<and> sha256_left (replicate 64 9) (replicate 64 0 @ replicate 64 1 @ [5]) 129
      = sha256_left (replicate 64 9) (replicate 64 0 @ replicate 64 2 @ [5]) 129"
proof
  show "md5_sum (replicate 64 0 @ [1]) 65 = md5_sum (replicate 64 0 @ [2]) 65"
    using unfinished_digests [of "replicate 64 0 @ [2]" "replicate 64 0 @ [1]" 65] by simp
  show "sha256_left (replicate 64 9) (replicate 64 0 @ replicate 64 1 @ [5]) 129
      = sha256_left (replicate 64 9) (replicate 64 0 @ replicate 64 2 @ [5]) 129"
    using unfinished_digests [of "replicate 64 0 @ replicate 64 2 @ [5]" "replicate 64 0 @ replicate 64 1 @ [5]" 129 "replicate 64 9"] by simp
qed

end
