(* ===== verification/FlistSort.thy ===== *)
theory FlistSort
  imports Prelude "HOL-Library.Sorting_Algorithms"
begin

text \<open>
  \<^verbatim>\<open>lib/flist_sort.c\<close>: the merge sort of linked lists, with its array of sorted partial lists.
  A list is the list of its elements in the order of the links, an empty one a null pointer. The comparison
  function is an argument; its int is a word that is read signed.
\<close>

section \<open>The code\<close>

definition MAX_LIST_LENGTH_BITS :: nat where "MAX_LIST_LENGTH_BITS = 20"

fun flist_merge :: "('a \<Rightarrow> 'a \<Rightarrow> u32) \<Rightarrow> 'a list \<Rightarrow> 'a list \<Rightarrow> 'a list" where
  "flist_merge cmp [] b = b"
| "flist_merge cmp a [] = a"
| "flist_merge cmp (x # a) (y # b) =
     (if sint (cmp x y) \<le> 0 then x # flist_merge cmp a (y # b) else y # flist_merge cmp (x # a) b)"

text \<open>The last merge restores the back links; its second loop needs a first element.\<close>

definition merge_and_restore_back_links :: "('a \<Rightarrow> 'a \<Rightarrow> u32) \<Rightarrow> 'a list \<Rightarrow> 'a list \<Rightarrow> 'a list option" where
  "merge_and_restore_back_links cmp a b = do { _ \<leftarrow> c_assert (a \<noteq> [] \<or> b \<noteq> []); Some (flist_merge cmp a b) }"

partial_function (option) flist_carry ::
    "('a \<Rightarrow> 'a \<Rightarrow> u32) \<Rightarrow> 'a list list \<Rightarrow> nat \<Rightarrow> 'a list \<Rightarrow> ('a list list \<times> nat \<times> 'a list) option" where
  "flist_carry cmp part lev cur = do {
     p \<leftarrow> rd part lev;
     if p \<noteq> [] then flist_carry cmp (part[lev := []]) (lev + 1) (flist_merge cmp p cur)
     else Some (part, lev, cur) }"

declare flist_carry.simps [code]

definition flist_place :: "('a \<Rightarrow> 'a \<Rightarrow> u32) \<Rightarrow> 'a list list \<Rightarrow> nat \<Rightarrow> 'a list \<Rightarrow> ('a list list \<times> nat) option" where
  "flist_place cmp part max_lev cur = do {
     (part, lev, cur) \<leftarrow> flist_carry cmp part 0 cur;
     let lev' = (if max_lev < lev \<and> MAX_LIST_LENGTH_BITS \<le> lev then lev - 1 else lev);
     part \<leftarrow> wr part lev' cur;
     Some (part, if max_lev < lev then lev' else max_lev) }"

primrec flist_parts :: "('a \<Rightarrow> 'a \<Rightarrow> u32) \<Rightarrow> 'a list \<Rightarrow> 'a list list \<Rightarrow> nat \<Rightarrow> ('a list list \<times> nat) option" where
  "flist_parts cmp [] part max_lev = Some (part, max_lev)"
| "flist_parts cmp (x # xs) part max_lev = do {
     (part, max_lev) \<leftarrow> flist_place cmp part max_lev [x];
     flist_parts cmp xs part max_lev }"

primrec flist_collect :: "('a \<Rightarrow> 'a \<Rightarrow> u32) \<Rightarrow> 'a list list \<Rightarrow> nat list \<Rightarrow> 'a list \<Rightarrow> 'a list option" where
  "flist_collect cmp part [] list = Some list"
| "flist_collect cmp part (lev # levs) list = do {
     p \<leftarrow> rd part lev;
     flist_collect cmp part levs (if p \<noteq> [] then flist_merge cmp p list else list) }"

definition flist_sort :: "('a \<Rightarrow> 'a \<Rightarrow> u32) \<Rightarrow> 'a list \<Rightarrow> 'a list option" where
  "flist_sort cmp xs =
     (if xs = [] then Some [] else do {
        (part, max_lev) \<leftarrow> flist_parts cmp xs (replicate (MAX_LIST_LENGTH_BITS + 1) []) 0;
        list \<leftarrow> flist_collect cmp part [0..<max_lev] [];
        p \<leftarrow> rd part max_lev;
        merge_and_restore_back_links cmp p list })"

section \<open>Merging\<close>

text \<open>
  The contract of a comparison function on a set of elements: its sign is that of an ordering of the
  library.
\<close>

locale cmp_function =
  fixes cmp :: "'a \<Rightarrow> 'a \<Rightarrow> u32"
    and ord :: "'a comparator"
    and S :: "'a set"
  assumes cmp_sign: "x \<in> S \<Longrightarrow> y \<in> S \<Longrightarrow> sint (cmp x y) \<le> 0 \<longleftrightarrow> compare ord x y \<noteq> Greater"
begin

lemma merge_eq: "set a \<subseteq> S \<Longrightarrow> set b \<subseteq> S \<Longrightarrow> flist_merge cmp a b = Sorting_Algorithms.merge ord a b"
proof (induction a b rule: Sorting_Algorithms.merge.induct [of _ ord])
  case (2 a)
  then show ?case by (cases a) simp_all
qed (simp_all add: cmp_sign)

lemma merge_sorts:
  assumes "set xs \<subseteq> S" "set ys \<subseteq> S"
  shows "flist_merge cmp (Sorting_Algorithms.sort ord xs) (Sorting_Algorithms.sort ord ys) = Sorting_Algorithms.sort ord (xs @ ys)"
proof -
  let ?s = "Sorting_Algorithms.sort ord"
  have "?s (xs @ ys) = Sorting_Algorithms.merge ord (?s xs) (?s ys)"
  proof (rule sort_eqI)
    show "filter (\<lambda>z. compare ord y z = Equiv) (xs @ ys)
      = filter (\<lambda>z. compare ord y z = Equiv) (Sorting_Algorithms.merge ord (?s xs) (?s ys))" for y
      by (simp add: filter_merge merge_stable_segments stable_sort)
  qed (simp_all add: mset_merge sorted_merge)
  moreover have "set (?s xs) \<subseteq> S" "set (?s ys) \<subseteq> S" using assms by simp_all
  ultimately show ?thesis by (simp add: merge_eq)
qed

end

section \<open>The partial lists\<close>

text \<open>
  Every partial list is the sorting of a piece of the input, older pieces at higher levels.
\<close>

context cmp_function
begin

definition sorted_pieces :: "'a list list \<Rightarrow> 'a list list \<Rightarrow> bool" where
  "sorted_pieces part ps \<longleftrightarrow> part = map (Sorting_Algorithms.sort ord) ps \<and> length ps = MAX_LIST_LENGTH_BITS + 1 \<and> set (concat ps) \<subseteq> S"

lemma sort_Nil_iff: "Sorting_Algorithms.sort ord xs = [] \<longleftrightarrow> xs = []"
  by (metis mset_sort mset_zero_iff_right)

lemma pieces_update:
  assumes "sorted_pieces part ps" "set q \<subseteq> S"
  shows "sorted_pieces (part[l := Sorting_Algorithms.sort ord q]) (ps[l := q])"
  using assms by (auto simp: sorted_pieces_def map_update dest!: subsetD [OF set_update_subset_insert])

lemma pieces_split:
  assumes "l < length ps" "\<forall>j < l. ps ! j = []"
  shows "concat (rev (ps[l := q])) = concat (rev (drop (Suc l) ps)) @ q"
proof -
  have "concat (rev (take l ps)) = []" using assms by (auto simp: in_set_conv_nth)
  then show ?thesis using assms(1) by (simp add: upd_conv_take_nth_drop)
qed

lemma carry_correct:
  assumes "sorted_pieces part ps" "lev \<le> MAX_LIST_LENGTH_BITS" "\<forall>j < lev. ps ! j = []" "ps ! MAX_LIST_LENGTH_BITS = []"
    and "cur = Sorting_Algorithms.sort ord q" "q \<noteq> []" "set q \<subseteq> S"
  shows "\<exists>ps' lev' q'. flist_carry cmp part lev cur = Some (map (Sorting_Algorithms.sort ord) ps', lev', Sorting_Algorithms.sort ord q')
    \<and> sorted_pieces (map (Sorting_Algorithms.sort ord) ps') ps' \<and> lev \<le> lev' \<and> lev' \<le> MAX_LIST_LENGTH_BITS \<and> (\<forall>j \<le> lev'. ps' ! j = [])
    \<and> (\<forall>j. lev' < j \<longrightarrow> ps' ! j = ps ! j) \<and> ps ! lev' = [] \<and> q' \<noteq> [] \<and> set q' \<subseteq> S \<and> concat (rev ps') @ q' = concat (rev ps) @ q"
  using assms
proof (induction "MAX_LIST_LENGTH_BITS - lev" arbitrary: lev part ps cur q rule: less_induct)
  case less
  note part = less.prems(1) [unfolded sorted_pieces_def]
  have lev: "lev < length ps" using less.prems(2) part by simp
  then have rd: "rd part lev = Some (Sorting_Algorithms.sort ord (ps ! lev))" using part by simp
  show ?case
  proof (cases "ps ! lev = []")
    case True
    then have "flist_carry cmp part lev cur = Some (map (Sorting_Algorithms.sort ord) ps, lev, Sorting_Algorithms.sort ord q)"
      using rd part less.prems(5) by (subst flist_carry.simps) (simp add: sort_Nil_iff)
    then show ?thesis using less.prems part True by (intro exI [of _ ps] exI [of _ lev] exI [of _ q]) (auto simp: le_less)
  next
    case False
    let ?ps = "ps[lev := []]" and ?q = "ps ! lev @ q"
    have "lev \<noteq> MAX_LIST_LENGTH_BITS" using False less.prems(4) by auto
    then have lt: "lev < MAX_LIST_LENGTH_BITS" using less.prems(2) by simp
    have S: "set (ps ! lev) \<subseteq> S" using part nth_mem [OF lev] by auto
    have h: "sorted_pieces (part[lev := []]) ?ps" using pieces_update [OF less.prems(1), of "[]" lev] by simp
    have merge: "flist_merge cmp (Sorting_Algorithms.sort ord (ps ! lev)) cur = Sorting_Algorithms.sort ord ?q"
      unfolding less.prems(5) by (rule merge_sorts [OF S less.prems(7)])
    have below: "\<forall>j < Suc lev. ?ps ! j = []" using less.prems(3) lev by (auto simp: nth_list_update less_Suc_eq)
    have top: "?ps ! MAX_LIST_LENGTH_BITS = []" using less.prems(4) lt by simp
    have rest: "Suc lev \<le> MAX_LIST_LENGTH_BITS" "MAX_LIST_LENGTH_BITS - Suc lev < MAX_LIST_LENGTH_BITS - lev" "?q \<noteq> []" "set ?q \<subseteq> S"
      using lt S less.prems(6,7) by auto
    from less.hyps [OF rest(2) h rest(1) below top merge rest(3,4)] obtain ps' lev' q' where r:
      "flist_carry cmp (part[lev := []]) (Suc lev) (flist_merge cmp (Sorting_Algorithms.sort ord (ps ! lev)) cur)
        = Some (map (Sorting_Algorithms.sort ord) ps', lev', Sorting_Algorithms.sort ord q')"
      "sorted_pieces (map (Sorting_Algorithms.sort ord) ps') ps'" "Suc lev \<le> lev'" "lev' \<le> MAX_LIST_LENGTH_BITS" "\<forall>j \<le> lev'. ps' ! j = []"
      "\<forall>j. lev' < j \<longrightarrow> ps' ! j = ?ps ! j" "?ps ! lev' = []" "q' \<noteq> []" "set q' \<subseteq> S"
      "concat (rev ps') @ q' = concat (rev ?ps) @ ?q"
      by blast
    have step: "flist_carry cmp part lev cur
        = flist_carry cmp (part[lev := []]) (Suc lev) (flist_merge cmp (Sorting_Algorithms.sort ord (ps ! lev)) cur)"
      using rd False by (subst flist_carry.simps) (simp add: sort_Nil_iff)
    have "concat (rev ?ps) @ ps ! lev = concat (rev ps)"
      using pieces_split [OF lev less.prems(3), of "[]"] pieces_split [OF lev less.prems(3), of "ps ! lev"] by simp
    then show ?thesis using r step lev
      by (intro exI [of _ ps'] exI [of _ lev'] exI [of _ q']) (auto simp: nth_list_update split: if_splits)
  qed
qed

end

context cmp_function
begin

definition parts_ok :: "'a list list \<Rightarrow> nat \<Rightarrow> 'a list \<Rightarrow> bool" where
  "parts_ok part max_lev xs \<longleftrightarrow> (\<exists>ps. sorted_pieces part ps \<and> max_lev < MAX_LIST_LENGTH_BITS
     \<and> (\<forall>j > max_lev. j \<le> MAX_LIST_LENGTH_BITS \<longrightarrow> ps ! j = []) \<and> (if xs = [] then max_lev = 0 else ps ! max_lev \<noteq> []) \<and> concat (rev ps) = xs)"

lemma place_correct:
  assumes "parts_ok part max_lev xs" "x \<in> S"
  shows "\<exists>part' max_lev'. flist_place cmp part max_lev [x] = Some (part', max_lev') \<and> parts_ok part' max_lev' (xs @ [x])"
proof -
  let ?M = MAX_LIST_LENGTH_BITS
  obtain ps where ps: "sorted_pieces part ps" "max_lev < ?M" "\<forall>j > max_lev. j \<le> ?M \<longrightarrow> ps ! j = []"
    "if xs = [] then max_lev = 0 else ps ! max_lev \<noteq> []" "concat (rev ps) = xs"
    using assms(1) unfolding parts_ok_def by blast
  have x: "[x] = Sorting_Algorithms.sort ord [x]" by simp
  from carry_correct [OF ps(1) le0 _ _ x _] ps(2,3) assms(2) obtain ps' lev q where
    c: "flist_carry cmp part 0 [x] = Some (map (Sorting_Algorithms.sort ord) ps', lev, Sorting_Algorithms.sort ord q)"
    "sorted_pieces (map (Sorting_Algorithms.sort ord) ps') ps'" "lev \<le> ?M" "\<forall>j \<le> lev. ps' ! j = []"
    "\<forall>j. lev < j \<longrightarrow> ps' ! j = ps ! j" "ps ! lev = []" "q \<noteq> []" "set q \<subseteq> S" "concat (rev ps') @ q = xs @ [x]"
    by (auto simp: ps(5))
  define l m where "l = (if max_lev < lev \<and> ?M \<le> lev then lev - 1 else lev)" and "m = (if max_lev < lev then l else max_lev)"
  have l: "l < ?M" "l \<le> lev" "lev \<le> Suc l" using c(3) ps(2) by (auto simp: l_def)
  have len: "length ps' = ?M + 1" using c(2) by (simp add: sorted_pieces_def)
  have "flist_place cmp part max_lev [x] = Some ((map (Sorting_Algorithms.sort ord) ps')[l := Sorting_Algorithms.sort ord q], m)"
    using c(1) l(1) len by (simp add: flist_place_def l_def m_def Let_def)
  moreover have "parts_ok ((map (Sorting_Algorithms.sort ord) ps')[l := Sorting_Algorithms.sort ord q]) m (xs @ [x])"
    unfolding parts_ok_def
  proof (intro exI [of _ "ps'[l := q]"] conjI allI impI)
    show "sorted_pieces ((map (Sorting_Algorithms.sort ord) ps')[l := Sorting_Algorithms.sort ord q]) (ps'[l := q])"
      by (rule pieces_update [OF c(2,8)])
    show "m < ?M" using l(1) ps(2) by (simp add: m_def)
    have "ps'[l := []] = ps'" using c(4) l(2) by (metis list_update_id)
    then show "concat (rev (ps'[l := q])) = xs @ [x]"
      using pieces_split [of l ps' "[]"] pieces_split [of l ps' q] c(4,9) l len by simp
    have "ps'[l := q] ! m \<noteq> []"
    proof (cases "max_lev < lev")
      case False
      then show ?thesis using c(4-7) ps(4) l len
        by (cases "lev = max_lev") (auto simp: m_def l_def nth_list_update split: if_splits)
    qed (use c(7) l len in \<open>simp add: m_def\<close>)
    then show "if xs @ [x] = [] then m = 0 else ps'[l := q] ! m \<noteq> []" by simp
    fix j assume j: "m < j" "j \<le> ?M"
    then have "j \<noteq> l" "max_lev < j \<or> j \<le> lev" using l by (auto simp: m_def split: if_splits)
    then show "ps'[l := q] ! j = []" using c(4,5) ps(3) j(2) by (cases "j \<le> lev") auto
  qed
  ultimately show ?thesis by blast
qed

lemma parts_correct:
  "parts_ok part max_lev ys \<Longrightarrow> set xs \<subseteq> S \<Longrightarrow>
     \<exists>part' max_lev'. flist_parts cmp xs part max_lev = Some (part', max_lev') \<and> parts_ok part' max_lev' (ys @ xs)"
proof (induction xs arbitrary: part max_lev ys)
  case (Cons x xs)
  from Cons.prems(2) have x: "x \<in> S" "set xs \<subseteq> S" by simp_all
  from place_correct [OF Cons.prems(1) x(1)] obtain part1 m1 where
    1: "flist_place cmp part max_lev [x] = Some (part1, m1)" "parts_ok part1 m1 (ys @ [x])" by blast
  from Cons.IH [OF 1(2) x(2)] show ?case using 1(1) by simp
qed simp

text \<open>Collecting the levels from the youngest piece to the oldest.\<close>

lemma collect_correct:
  assumes "sorted_pieces part ps" "l + k \<le> length ps" "set ys \<subseteq> S"
  shows "flist_collect cmp part [l..<l + k] (Sorting_Algorithms.sort ord ys)
    = Some (Sorting_Algorithms.sort ord (concat (rev (take k (drop l ps))) @ ys))"
  using assms(2,3)
proof (induction k arbitrary: l ys)
  case (Suc k)
  let ?p = "ps ! l"
  note part = assms(1) [unfolded sorted_pieces_def]
  have l: "l < length ps" "Suc l + k \<le> length ps" using Suc.prems(1) by simp_all
  have S: "set ?p \<subseteq> S" using part nth_mem [OF l(1)] by auto
  have m: "(if Sorting_Algorithms.sort ord ?p \<noteq> [] then flist_merge cmp (Sorting_Algorithms.sort ord ?p) (Sorting_Algorithms.sort ord ys)
      else Sorting_Algorithms.sort ord ys) = Sorting_Algorithms.sort ord (?p @ ys)"
    using merge_sorts [OF S Suc.prems(2)] by (simp add: sort_Nil_iff)
  have "[l..<l + Suc k] = l # [Suc l..<Suc l + k]" using upt_conv_Cons [of l "l + Suc k"] by simp
  moreover have "take (Suc k) (drop l ps) = ?p # take k (drop (Suc l) ps)" using l by (simp add: Cons_nth_drop_Suc [symmetric])
  ultimately show ?case using Suc.IH [OF l(2), of "?p @ ys"] S Suc.prems(2) part l(1) m by simp
qed simp

lemma sort_correct:
  assumes "set xs \<subseteq> S"
  shows "flist_sort cmp xs = Some (Sorting_Algorithms.sort ord xs)"
proof (cases "xs = []")
  case False
  let ?M = MAX_LIST_LENGTH_BITS
  have "parts_ok (replicate (?M + 1) []) 0 []"
    unfolding parts_ok_def
    by (intro exI [of _ "replicate (?M + 1) []"]) (simp add: sorted_pieces_def MAX_LIST_LENGTH_BITS_def del: replicate_Suc)
  from parts_correct [OF this assms] obtain part m where
    1: "flist_parts cmp xs (replicate (?M + 1) []) 0 = Some (part, m)" "parts_ok part m xs" by auto
  then obtain ps where ps: "sorted_pieces part ps" "m < ?M" "\<forall>j > m. j \<le> ?M \<longrightarrow> ps ! j = []" "ps ! m \<noteq> []" "concat (rev ps) = xs"
    using False unfolding parts_ok_def by (elim exE conjE) simp
  have len: "length ps = ?M + 1" "part = map (Sorting_Algorithms.sort ord) ps" "set (concat ps) \<subseteq> S"
    using ps(1) by (simp_all add: sorted_pieces_def)
  then have m: "m < length ps" using ps(2) by simp
  have "drop (Suc m) ps = replicate (length ps - Suc m) []" using ps(3) len(1) by (intro replicate_eqI) (auto simp: in_set_conv_nth)
  then have empty: "concat (rev (drop (Suc m) ps)) = []" by simp
  have xs: "xs = ps ! m @ concat (rev (take m ps))"
    using ps(5) arg_cong [OF id_take_nth_drop [OF m], of "\<lambda>l. concat (rev l)"] empty by (simp del: concat_eq_Nil_conv)
  have "set (take m ps) \<subseteq> set ps" by (rule set_take_subset)
  then have S: "set (ps ! m) \<subseteq> S" "set (concat (rev (take m ps))) \<subseteq> S" using len(3) nth_mem [OF m] by auto
  have "flist_collect cmp part [0..<m] [] = Some (Sorting_Algorithms.sort ord (concat (rev (take m ps))))"
    using collect_correct [OF ps(1), of 0 m "[]"] m by simp
  then have "flist_sort cmp xs = merge_and_restore_back_links cmp (Sorting_Algorithms.sort ord (ps ! m)) (Sorting_Algorithms.sort ord (concat (rev (take m ps))))"
    using 1(1) False m len(2) by (simp add: flist_sort_def)
  also have "\<dots> = Some (flist_merge cmp (Sorting_Algorithms.sort ord (ps ! m)) (Sorting_Algorithms.sort ord (concat (rev (take m ps)))))"
    using ps(4) by (simp add: merge_and_restore_back_links_def sort_Nil_iff)
  also have "\<dots> = Some (Sorting_Algorithms.sort ord xs)" using merge_sorts [OF S] xs by simp
  finally show ?thesis .
qed (simp add: flist_sort_def)

end

section \<open>Properties\<close>

text \<open>
  C30: the sort is the stable sort of the library, for every list and every comparison function whose sign
  is that of an ordering on its elements; the array of partial lists is never left.
\<close>

theorem flist_sort_stable:
  assumes "\<forall>x\<in>set xs. \<forall>y\<in>set xs. sint (cmp x y) \<le> 0 \<longleftrightarrow> compare ord x y \<noteq> Greater"
  shows "flist_sort cmp xs = Some (Sorting_Algorithms.sort ord xs)"
proof -
  have "cmp_function cmp ord (set xs)" using assms by unfold_locales blast
  from cmp_function.sort_correct [OF this order_refl] show ?thesis .
qed

theorem flist_sort_stable_witness:
  "flist_sort (\<lambda>x y. fst x - fst y) [(5, 0), (3, 1), (5, 2), (1, 3)]
    = Some (Sorting_Algorithms.sort (key (\<lambda>x. uint (fst x)) default) [(5, 0 :: nat), (3, 1), (5, 2), (1, 3)])"
  by (rule flist_sort_stable) simp

end
