(* ===== verification/Offset.thy ===== *)
theory Offset
  imports Axmap Lfsr Rand FlistSort Verify
begin

text \<open>
  \<^verbatim>\<open>io_u.c\<close> up to \<open>fill_io_u\<close>: the offset and the length of the next I/O. The
  generator of random offsets, the map of the blocks already done and the shift register are those of the
  other theories. The direction of the I/O is given. Numbers from the random generator of the operating
  system, and from the zipf and pareto distributions, which are computed with powers of floating-point
  numbers, are an environment.
\<close>

section \<open>Arithmetic in doubles\<close>

text \<open>
  A number \<open>r\<close> below \<open>2 ^ k\<close> is turned into the fraction \<open>r / 2 ^ k\<close>, which is exact
  in a double, and multiplied by an integer. \<open>dbl\<close> rounds an integer to the 53 bits of a double, to
  the nearest and ties to even; scaling by a power of two does not change the rounding.
\<close>

fun bit_length :: "nat \<Rightarrow> nat" where
  "bit_length n = (if n = 0 then 0 else Suc (bit_length (n div 2)))"

declare bit_length.simps [simp del]

definition dbl :: "nat \<Rightarrow> nat" where
  "dbl n =
     (let e = bit_length n - 53; q = n div 2 ^ e; r = n mod 2 ^ e
      in (if 2 ^ e < 2 * r \<or> (2 * r = 2 ^ e \<and> odd q) then q + 1 else q) * 2 ^ e)"

definition scale_rand :: "nat \<Rightarrow> u64 \<Rightarrow> nat \<Rightarrow> nat" where
  "scale_rand n r k = dbl (dbl n * unat r) div 2 ^ k"

section \<open>State\<close>

datatype rand_gen = FIO_RAND_GEN_TAUSWORTHE | FIO_RAND_GEN_LFSR
datatype rand_dist = FIO_RAND_DIST_RANDOM | FIO_RAND_DIST_ZIPF | FIO_RAND_DIST_PARETO | FIO_RAND_DIST_OTHER
datatype rw_seq = RW_SEQ_SEQ | RW_SEQ_IDENT | RW_SEQ_OTHER

record off_env =
  oe_os_rand :: "nat \<Rightarrow> u64"
  oe_zipf :: "nat \<Rightarrow> u64"
  oe_pareto :: "nat \<Rightarrow> u64"

text \<open>\<open>oo_td_random\<close> is \<open>td_random (td)\<close>; \<open>oo_bssplit\<close> holds sizes and percentages.\<close>

record off_options =
  oo_td_random :: bool
  oo_rw_min_bs :: u32
  oo_ba :: "fio_ddir \<Rightarrow> u32"
  oo_min_bs :: "fio_ddir \<Rightarrow> u32"
  oo_max_bs :: "fio_ddir \<Rightarrow> u32"
  oo_bssplit :: "fio_ddir \<Rightarrow> (u32 \<times> u32) list"
  oo_bs_unaligned :: bool
  oo_bs_is_seq_rand :: bool
  oo_random_generator :: rand_gen
  oo_random_distribution :: rand_dist
  oo_norandommap :: bool
  oo_softrandommap :: bool
  oo_use_os_rand :: bool
  oo_perc_rand :: "fio_ddir \<Rightarrow> u32"
  oo_rw_seq :: rw_seq
  oo_ddir_seq_nr :: u32
  oo_ddir_seq_add :: u64
  oo_time_based :: bool
  oo_file_append :: bool
  oo_start_offset :: u64
  oo_offset_increment :: u64
  oo_zone_range :: u64
  oo_zone_size :: u64
  oo_zone_skip :: u64
  oo_verify :: verify_type
  oo_do_verify :: bool
  oo_verify_interval :: u32
  oo_verifysort_nr :: u32

record off_td =
  ot_o :: off_options
  ot_thread_number :: u32
  ot_random_state :: frand_state
  ot_seq_rand_state :: "fio_ddir \<Rightarrow> frand_state"
  ot_bsrange_state :: frand_state
  ot_os_calls :: nat
  ot_rand_seed :: u64
  ot_next_rand_list :: "u64 list"
  ot_ddir_seq_nr :: u32
  ot_verifying :: bool
  ot_zone_bytes :: u64
  ot_io_skip_bytes :: u64

record off_file =
  of_real_file_size :: u64
  of_file_offset :: u64
  of_io_size :: u64
  of_last_pos :: u64
  of_last_start :: u64
  of_axmap :: "axmap option"
  of_lfsr :: fio_lfsr
  of_zipf :: nat
  of_regular :: bool

record off_io_u =
  ou_offset :: u64
  ou_buflen :: u64
  ou_ddir :: fio_ddir
  ou_busy_ok :: bool

definition get_start_offset :: "off_td \<Rightarrow> off_file \<Rightarrow> u64" where
  "get_start_offset td f =
     (if oo_file_append (ot_o td) \<and> of_regular f then of_real_file_size f
      else oo_start_offset (ot_o td) + ucast (ot_thread_number td - 1) * oo_offset_increment (ot_o td))"

definition file_randommap :: "off_td \<Rightarrow> off_file \<Rightarrow> axmap option" where
  "file_randommap td f = (if oo_norandommap (ot_o td) then None else of_axmap f)"

section \<open>Set-up of a file\<close>

text \<open>The Boolean is the return value: \<open>True\<close> is the error return 1.\<close>

definition init_file_map :: "(nat \<Rightarrow> bool) \<Rightarrow> off_td \<Rightarrow> off_file \<Rightarrow> (off_file \<times> bool) option" where
  "init_file_map alloc td f =
     (let o' = ot_o td;
          file_size = (if of_io_size f < of_real_file_size f then of_io_size f else of_real_file_size f)
      in if oo_rw_min_bs o' = 0 then None
      else let blocks = file_size div ucast (oo_rw_min_bs o') in
        if oo_random_generator o' = FIO_RAND_GEN_LFSR
        then let (l, e) = lfsr_init (of_lfsr f) blocks (ot_rand_seed td) 0
             in Some (f\<lparr>of_lfsr := l\<rparr>, e \<and> \<not> oo_softrandommap o')
        else if \<not> oo_norandommap o'
        then do {
          m \<leftarrow> axmap_new alloc blocks;
          Some (f\<lparr>of_axmap := m\<rparr>, m = None \<and> \<not> oo_softrandommap o') }
        else Some (f, False))"

definition fio_file_reset :: "off_td \<Rightarrow> off_file \<Rightarrow> off_file" where
  "fio_file_reset td f =
     f\<lparr>of_last_pos := of_file_offset f, of_last_start := -1, of_axmap := map_option axmap_reset (of_axmap f),
       of_lfsr := (if oo_random_generator (ot_o td) = FIO_RAND_GEN_LFSR then fst (lfsr_reset (of_lfsr f) (ot_rand_seed td))
                   else of_lfsr f)\<rparr>"

section \<open>Random offsets\<close>

text \<open>A number of the operating system, or of the generator whose state is given; and its bits.\<close>

definition next_rand :: "off_env \<Rightarrow> off_td \<Rightarrow> frand_state \<Rightarrow> off_td \<times> frand_state \<times> u64" where
  "next_rand env td st =
     (if oo_use_os_rand (ot_o td) then (td\<lparr>ot_os_calls := Suc (ot_os_calls td)\<rparr>, st, oe_os_rand env (ot_os_calls td))
      else let (st', r) = fio_rand st in (td, st', ucast r))"

definition rand_bits :: "off_td \<Rightarrow> nat" where
  "rand_bits td = (if oo_use_os_rand (ot_o td) then 31 else 32)"

definition random_map_free :: "axmap \<Rightarrow> u64 \<Rightarrow> bool option" where
  "random_map_free m block = map_option Not (axmap_isset m block)"

definition mark_random_map :: "off_td \<Rightarrow> off_file \<Rightarrow> off_io_u \<Rightarrow> axmap \<Rightarrow> (off_file \<times> off_io_u) option" where
  "mark_random_map td f io_u m =
     (let min_bs = oo_rw_min_bs (ot_o td) in
      if min_bs = 0 then None
      else let block = (ou_offset io_u - of_file_offset f) div ucast min_bs;
               nr_blocks = ucast ((ou_buflen io_u + ucast min_bs - 1) div ucast min_bs)
      in do {
        (m, nr_blocks) \<leftarrow> (if ou_busy_ok io_u then Some (m, nr_blocks) else axmap_set_nr m block nr_blocks);
        Some (f\<lparr>of_axmap := Some m\<rparr>,
          if ucast (nr_blocks * min_bs) < ou_buflen io_u then io_u\<lparr>ou_buflen := ucast (nr_blocks * min_bs)\<rparr> else io_u) })"

definition last_block :: "off_td \<Rightarrow> off_file \<Rightarrow> fio_ddir \<Rightarrow> u64 option" where
  "last_block td f ddir =
     (let max_size = (if of_real_file_size f < of_io_size f then of_real_file_size f else of_io_size f);
          max_size = (if oo_zone_range (ot_o td) \<noteq> 0 then oo_zone_range (ot_o td) else max_size)
      in if oo_ba (ot_o td) ddir = 0 then None else Some (max_size div ucast (oo_ba (ot_o td) ddir)))"

text \<open>The functions return the offset in blocks; the inner \<open>None\<close> is the error return 1.\<close>

definition rand_or_lfsr :: "off_env \<Rightarrow> off_td \<Rightarrow> off_file \<Rightarrow> u64 \<Rightarrow> (off_td \<times> off_file \<times> u64 option) option" where
  "rand_or_lfsr env td f lastb =
     (case oo_random_generator (ot_o td) of
        FIO_RAND_GEN_TAUSWORTHE \<Rightarrow>
          (let (td', st, r) = next_rand env td (ot_random_state td)
           in Some (td'\<lparr>ot_random_state := st\<rparr>, f, Some (of_nat (scale_rand (unat lastb) r (rand_bits td)))))
      | FIO_RAND_GEN_LFSR \<Rightarrow> do { (l, off) \<leftarrow> lfsr_next (of_lfsr f); Some (td, f\<lparr>of_lfsr := l\<rparr>, off) })"

definition free_block :: "off_td \<Rightarrow> off_file \<Rightarrow> u64 \<Rightarrow> (off_file \<times> u64 option) option" where
  "free_block td f b = (case file_randommap td f of
     None \<Rightarrow> Some (f, Some b)
   | Some m \<Rightarrow> do {
       free \<leftarrow> random_map_free m b;
       if free then Some (f, Some b)
       else do {
         (m, b) \<leftarrow> axmap_next_free m b;
         Some (f\<lparr>of_axmap := Some m\<rparr>, if b = -1 then None else Some b) } })"

definition get_next_rand_offset0 :: "off_env \<Rightarrow> off_td \<Rightarrow> off_file \<Rightarrow> fio_ddir \<Rightarrow> (off_td \<times> off_file \<times> u64 option) option" where
  "get_next_rand_offset0 env td f ddir = do {
     lastb \<leftarrow> last_block td f ddir;
     if lastb = 0 then Some (td, f, None)
     else do {
       (td, f, b) \<leftarrow> rand_or_lfsr env td f lastb;
       (case b of None \<Rightarrow> Some (td, f, None)
        | Some b \<Rightarrow> do { (f, b) \<leftarrow> free_block td f b; Some (td, f, b) }) } }"

definition get_off_from_method :: "off_env \<Rightarrow> off_td \<Rightarrow> off_file \<Rightarrow> fio_ddir \<Rightarrow> (off_td \<times> off_file \<times> u64 option) option" where
  "get_off_from_method env td f ddir = (case oo_random_distribution (ot_o td) of
     FIO_RAND_DIST_RANDOM \<Rightarrow> get_next_rand_offset0 env td f ddir
   | FIO_RAND_DIST_ZIPF \<Rightarrow> Some (td, f\<lparr>of_zipf := Suc (of_zipf f)\<rparr>, Some (oe_zipf env (of_zipf f)))
   | FIO_RAND_DIST_PARETO \<Rightarrow> Some (td, f\<lparr>of_zipf := Suc (of_zipf f)\<rparr>, Some (oe_pareto env (of_zipf f)))
   | FIO_RAND_DIST_OTHER \<Rightarrow> Some (td, f, None))"

definition should_sort_io :: "off_td \<Rightarrow> bool" where
  "should_sort_io td \<longleftrightarrow> oo_verifysort_nr (ot_o td) \<noteq> 0 \<and> oo_do_verify (ot_o td) \<and> oo_td_random (ot_o td)
     \<and> ot_verifying td \<and> oo_random_generator (ot_o td) \<noteq> FIO_RAND_GEN_TAUSWORTHE"

text \<open>The difference of the offsets, cut to an int.\<close>

definition flist_cmp :: "u64 \<Rightarrow> u64 \<Rightarrow> u32" where
  "flist_cmp r1 r2 = ucast (r1 - r2)"

text \<open>New offsets are put in front of the list.\<close>

primrec next_rand_batch :: "nat \<Rightarrow> off_env \<Rightarrow> off_td \<Rightarrow> off_file \<Rightarrow> fio_ddir \<Rightarrow> (off_td \<times> off_file) option" where
  "next_rand_batch 0 env td f ddir = Some (td, f)"
| "next_rand_batch (Suc n) env td f ddir = do {
     (td, f, b) \<leftarrow> get_off_from_method env td f ddir;
     (case b of None \<Rightarrow> Some (td, f)
      | Some b \<Rightarrow> next_rand_batch n env (td\<lparr>ot_next_rand_list := b # ot_next_rand_list td\<rparr>) f ddir) }"

definition fetch_rand :: "off_td \<Rightarrow> off_file \<Rightarrow> (off_td \<times> off_file \<times> u64 option) option" where
  "fetch_rand td f = (case ot_next_rand_list td of
     [] \<Rightarrow> None
   | r # rs \<Rightarrow> Some (td\<lparr>ot_next_rand_list := rs\<rparr>, f, Some r))"

definition get_next_rand_offset :: "off_env \<Rightarrow> off_td \<Rightarrow> off_file \<Rightarrow> fio_ddir \<Rightarrow> (off_td \<times> off_file \<times> u64 option) option" where
  "get_next_rand_offset env td f ddir =
     (if \<not> should_sort_io td then get_off_from_method env td f ddir
      else if ot_next_rand_list td \<noteq> [] then fetch_rand td f
      else do {
        (td, f) \<leftarrow> next_rand_batch (unat (oo_verifysort_nr (ot_o td))) env td f ddir;
        if ot_next_rand_list td = [] then Some (td, f, None)
        else do {
          list \<leftarrow> flist_sort flist_cmp (ot_next_rand_list td);
          fetch_rand (td\<lparr>ot_next_rand_list := list\<rparr>) f } })"

definition get_next_rand_block :: "off_env \<Rightarrow> off_td \<Rightarrow> off_file \<Rightarrow> fio_ddir \<Rightarrow> (off_td \<times> off_file \<times> u64 option) option" where
  "get_next_rand_block env td f ddir = do {
     (td, f, b) \<leftarrow> get_next_rand_offset env td f ddir;
     if b \<noteq> None then Some (td, f, b)
     else if oo_time_based (ot_o td) then get_next_rand_offset env td (fio_file_reset td f) ddir
     else Some (td, f, None) }"

section \<open>The next block\<close>

definition get_next_seq_offset :: "off_td \<Rightarrow> off_file \<Rightarrow> off_file \<times> u64 option" where
  "get_next_seq_offset td f =
     (let f = (if of_io_size f + get_start_offset td f \<le> of_last_pos f \<and> oo_time_based (ot_o td)
               then f\<lparr>of_last_pos := of_last_pos f - of_io_size f\<rparr> else f)
      in if of_last_pos f < of_real_file_size f
      then let f = (if of_last_pos f = of_file_offset f \<and> sint (oo_ddir_seq_add (ot_o td)) < 0
                    then f\<lparr>of_last_pos := of_real_file_size f\<rparr> else f);
               pos = of_last_pos f - of_file_offset f
           in (f, Some (if pos \<noteq> 0 then pos + oo_ddir_seq_add (ot_o td) else pos))
      else (f, None))"

definition should_do_random :: "off_env \<Rightarrow> off_td \<Rightarrow> fio_ddir \<Rightarrow> off_td \<times> bool" where
  "should_do_random env td ddir =
     (if oo_perc_rand (ot_o td) ddir = 100 then (td, True)
      else let (td', st, r) = next_rand env td (ot_seq_rand_state td ddir);
               v = 1 + of_nat (scale_rand 100 r (rand_bits td)) :: u32
           in (td'\<lparr>ot_seq_rand_state := (ot_seq_rand_state td)(ddir := st)\<rparr>, v \<le> oo_perc_rand (ot_o td) ddir))"

text \<open>
  The sum of what \<open>get_next_block\<close> finds: an offset in bytes, or a block; with whether it counts as
  random.
\<close>

definition rand_result :: "(off_td \<times> off_file \<times> u64 option) option \<Rightarrow> bool \<Rightarrow> (off_td \<times> off_file \<times> (u64 + u64) option \<times> bool) option" where
  "rand_result r is_random = map_option (\<lambda>(td, f, b). (td, f, map_option Inr b, is_random)) r"

definition next_block_place ::
    "off_env \<Rightarrow> off_td \<Rightarrow> off_file \<Rightarrow> fio_ddir \<Rightarrow> bool \<Rightarrow> (off_td \<times> off_file \<times> (u64 + u64) option \<times> bool \<times> bool) option" where
  "next_block_place env td f ddir rw_seq_hit =
     (let busy = map_option (\<lambda>(td, f, p, r). (td, f, p, r, True));
          idle = map_option (\<lambda>(td, f, p, r). (td, f, p, r, False));
          seq_or_rand = (\<lambda>td. case get_next_seq_offset td f of
             (f, Some off) \<Rightarrow> Some (td, f, Some (Inl off), False)
           | (f, None) \<Rightarrow> rand_result (get_next_rand_block env td f ddir) False)
      in if rw_seq_hit
      then if oo_td_random (ot_o td)
        then (case should_do_random env td ddir of
            (td, True) \<Rightarrow> idle (rand_result (get_next_rand_block env td f ddir) True)
          | (td, False) \<Rightarrow> busy (seq_or_rand td))
        else (case get_next_seq_offset td f of (f, off) \<Rightarrow> Some (td, f, map_option Inl off, False, False))
      else (case oo_rw_seq (ot_o td) of
          RW_SEQ_SEQ \<Rightarrow> busy (seq_or_rand td)
        | RW_SEQ_IDENT \<Rightarrow>
            Some (td, f, Some (Inl (if of_last_start f \<noteq> -1 then of_last_start f - of_file_offset f else 0)), False, True)
        | RW_SEQ_OTHER \<Rightarrow> Some (td, f, None, False, True)))"

text \<open>
  An offset of \<open>-1\<close> is taken for none; the Booleans are whether the offset is random and the
  error return.
\<close>

definition get_next_block ::
    "off_env \<Rightarrow> off_td \<Rightarrow> off_file \<Rightarrow> off_io_u \<Rightarrow> bool \<Rightarrow> (off_td \<times> off_file \<times> off_io_u \<times> bool \<times> bool) option" where
  "get_next_block env td f io_u rw_seq_hit = do {
     (td, f, place, is_random, busy) \<leftarrow> next_block_place env td f (ou_ddir io_u) rw_seq_hit;
     let io_u = (if busy then io_u\<lparr>ou_busy_ok := True\<rparr> else io_u);
     Some (case place of
        Some (Inl off) \<Rightarrow> if off \<noteq> -1 then (td, f, io_u\<lparr>ou_offset := off\<rparr>, is_random, False) else (td, f, io_u, is_random, True)
      | Some (Inr b) \<Rightarrow> if b \<noteq> -1 then (td, f, io_u\<lparr>ou_offset := b * ucast (oo_ba (ot_o td) (ou_ddir io_u))\<rparr>, is_random, False)
                       else (td, f, io_u, is_random, True)
      | None \<Rightarrow> (td, f, io_u, is_random, True)) }"

definition get_next_offset ::
    "off_env \<Rightarrow> off_td \<Rightarrow> off_file \<Rightarrow> off_io_u \<Rightarrow> (off_td \<times> off_file \<times> off_io_u \<times> bool \<times> bool) option" where
  "get_next_offset env td f io_u =
     (let (td, hit) = (if oo_ddir_seq_nr (ot_o td) \<noteq> 0
            then if ot_ddir_seq_nr td - 1 = 0 then (td\<lparr>ot_ddir_seq_nr := oo_ddir_seq_nr (ot_o td)\<rparr>, True)
                 else (td\<lparr>ot_ddir_seq_nr := ot_ddir_seq_nr td - 1\<rparr>, False)
            else (td, False))
      in do {
        (td, f, io_u, is_random, err) \<leftarrow> get_next_block env td f io_u hit;
        if err then Some (td, f, io_u, is_random, True)
        else if of_io_size f \<le> ou_offset io_u then Some (td, f, io_u, is_random, True)
        else let io_u = io_u\<lparr>ou_offset := ou_offset io_u + of_file_offset f\<rparr>
             in Some (td, f, io_u, is_random, of_real_file_size f \<le> ou_offset io_u) })"

section \<open>The length\<close>

definition io_u_fits :: "off_td \<Rightarrow> off_file \<Rightarrow> off_io_u \<Rightarrow> u32 \<Rightarrow> bool" where
  "io_u_fits td f io_u buflen \<longleftrightarrow> ou_offset io_u + ucast buflen \<le> of_io_size f + get_start_offset td f"

fun bssplit_pick :: "off_td \<Rightarrow> off_file \<Rightarrow> off_io_u \<Rightarrow> u64 \<Rightarrow> u64 \<Rightarrow> (u32 \<times> u32) list \<Rightarrow> u64 \<Rightarrow> u32 \<Rightarrow> u32" where
  "bssplit_pick td f io_u r rand_max [] perc buflen = buflen"
| "bssplit_pick td f io_u r rand_max ((bs, p) # bsp) perc buflen =
     (let perc = perc + ucast p in
      if r \<le> (rand_max div 100) * perc \<and> io_u_fits td f io_u bs then bs
      else bssplit_pick td f io_u r rand_max bsp perc bs)"

definition is_power_of_2 :: "u32 \<Rightarrow> bool" where
  "is_power_of_2 val \<longleftrightarrow> val \<noteq> 0 \<and> val AND (val - 1) = 0"

text \<open>Rounding up with a mask, as the code does it for any number.\<close>

definition mask_up :: "u32 \<Rightarrow> u32 \<Rightarrow> u32" where
  "mask_up buflen bs = (buflen + bs - 1) AND NOT (bs - 1)"

definition pick_buflen :: "off_td \<Rightarrow> off_file \<Rightarrow> off_io_u \<Rightarrow> fio_ddir \<Rightarrow> u64 \<Rightarrow> u32" where
  "pick_buflen td f io_u ddir r =
     (let o' = ot_o td; minbs = oo_min_bs o' ddir; maxbs = oo_max_bs o' ddir;
          buflen = (if oo_bssplit o' ddir = []
             then (let b = 1 + of_nat (scale_rand (unat maxbs) r (rand_bits td)) in if b < minbs then minbs else b)
             else bssplit_pick td f io_u r (2 ^ rand_bits td - 1) (oo_bssplit o' ddir) 0 0);
          buflen = (if oo_do_verify o' \<and> oo_verify o' \<noteq> VERIFY_NONE then mask_up buflen (oo_verify_interval o') else buflen)
      in if \<not> oo_bs_unaligned o' \<and> is_power_of_2 minbs then mask_up buflen minbs else buflen)"

partial_function (option) buflen_loop :: "off_env \<Rightarrow> off_td \<Rightarrow> off_file \<Rightarrow> off_io_u \<Rightarrow> fio_ddir \<Rightarrow> (off_td \<times> u32) option" where
  "buflen_loop env td f io_u ddir =
     (let (td', st, r) = next_rand env td (ot_bsrange_state td);
          td' = td'\<lparr>ot_bsrange_state := st\<rparr>;
          buflen = pick_buflen td f io_u ddir r
      in if io_u_fits td f io_u buflen then Some (td', buflen) else buflen_loop env td' f io_u ddir)"

declare buflen_loop.simps [code]

definition get_next_buflen :: "off_env \<Rightarrow> off_td \<Rightarrow> off_file \<Rightarrow> off_io_u \<Rightarrow> bool \<Rightarrow> (off_td \<times> u32) option" where
  "get_next_buflen env td f io_u is_random =
     (let ddir = (if oo_bs_is_seq_rand (ot_o td) then if is_random then DDIR_WRITE else DDIR_READ else ou_ddir io_u);
          minbs = oo_min_bs (ot_o td) ddir; maxbs = oo_max_bs (ot_o td) ddir
      in if minbs = maxbs then Some (td, minbs)
      else if \<not> io_u_fits td f io_u minbs then Some (td, 0)
      else buflen_loop env td f io_u ddir)"

section \<open>Filling an io_u\<close>

definition next_zone :: "off_td \<Rightarrow> off_file \<Rightarrow> off_td \<times> off_file" where
  "next_zone td f =
     (let o' = ot_o td in
      if oo_zone_size o' \<le> ot_zone_bytes td \<and> oo_zone_skip o' \<noteq> 0
      then let off = of_file_offset f + (oo_zone_range o' + oo_zone_skip o')
           in (td\<lparr>ot_zone_bytes := 0, ot_io_skip_bytes := ot_io_skip_bytes td + oo_zone_skip o'\<rparr>,
               f\<lparr>of_file_offset := off, of_last_pos := off\<rparr>)
      else (td, f))"

text \<open>The Boolean is the error return.\<close>

definition fill_io_u :: "off_env \<Rightarrow> off_td \<Rightarrow> off_file \<Rightarrow> off_io_u \<Rightarrow> (off_td \<times> off_file \<times> off_io_u \<times> bool) option" where
  "fill_io_u env td f io_u =
     (let (td, f) = next_zone td f in do {
        (td, f, io_u, is_random, err) \<leftarrow> get_next_offset env td f io_u;
        if err then Some (td, f, io_u, True)
        else do {
          (td, buflen) \<leftarrow> get_next_buflen env td f io_u is_random;
          let io_u = io_u\<lparr>ou_buflen := ucast buflen\<rparr>;
          if buflen = 0 then Some (td, f, io_u, True)
          else if of_real_file_size f < ou_offset io_u + ou_buflen io_u then Some (td, f, io_u, True)
          else do {
            (f, io_u) \<leftarrow> (case (if oo_td_random (ot_o td) then file_randommap td f else None) of
               None \<Rightarrow> Some (f, io_u)
             | Some m \<Rightarrow> mark_random_map td f io_u m);
            Some (td\<lparr>ot_zone_bytes := ot_zone_bytes td + ou_buflen io_u\<rparr>, f, io_u, False) } } })"

text \<open>\<open>get_io_u\<close> on a filled unit of a read, write or trim.\<close>

definition note_issue :: "off_file \<Rightarrow> off_io_u \<Rightarrow> off_file" where
  "note_issue f io_u = f\<lparr>of_last_start := ou_offset io_u, of_last_pos := ou_offset io_u + ou_buflen io_u\<rparr>"

end
