(* ===== verification/JobFiles.thy ===== *)
theory JobFiles
  imports Offset
begin

text \<open>
  The files of a job: opening, closing and counting references (\<^verbatim>\<open>filesetup.c\<close>,
  \<^verbatim>\<open>ioengines.c\<close>) and choosing the file of the next I/O (\<^verbatim>\<open>io_u.c\<close>). What the
  engine answers to an open, and the direction that is due, are an environment. A file is its number in
  \<open>td->files\<close>.
\<close>

section \<open>State\<close>

text \<open>
  \<open>Open_refused\<close>: the engine opened the file, but a later step failed. \<open>fe_ddir\<close> is the
  direction for each call of \<open>set_rw_ddir\<close>, \<open>None\<close> one of the syncs, with the barrier flag.
\<close>

datatype open_result = Open_ok | Open_failed | Open_refused
datatype service_type = FIO_FSERVICE_RANDOM | FIO_FSERVICE_RR | FIO_FSERVICE_SEQ

record file_env =
  fe_off :: off_env
  fe_open :: "nat \<Rightarrow> open_result"
  fe_ddir :: "nat \<Rightarrow> fio_ddir option \<times> bool"
  fe_noio :: bool

record job_file =
  jf_off :: off_file
  jf_open :: bool
  jf_closing :: bool
  jf_done :: bool
  jf_references :: u32

record file_td =
  ft_off :: off_td
  ft_files :: "job_file list"
  ft_nr_files :: u32
  ft_open_files :: u32
  ft_nr_open_files :: u32
  ft_nr_done_files :: u32
  ft_next_file :: u32
  ft_next_file_state :: frand_state
  ft_service_type :: service_type
  ft_service_file :: "nat option"
  ft_service_nr :: u32
  ft_service_left :: u32
  ft_open_calls :: nat
  ft_ddir_calls :: nat

definition set_file :: "nat \<Rightarrow> job_file \<Rightarrow> 'a file_td_scheme \<Rightarrow> 'a file_td_scheme" where
  "set_file f x td = td\<lparr>ft_files := (ft_files td)[f := x]\<rparr>"

section \<open>References\<close>

definition get_file :: "'a file_td_scheme \<Rightarrow> nat \<Rightarrow> 'a file_td_scheme option" where
  "get_file td f = do {
     x \<leftarrow> rd (ft_files td) f;
     _ \<leftarrow> c_assert (jf_open x);
     Some (set_file f (x\<lparr>jf_references := jf_references x + 1\<rparr>) td) }"

definition put_file :: "'a file_td_scheme \<Rightarrow> nat \<Rightarrow> 'a file_td_scheme option" where
  "put_file td f = do {
     x \<leftarrow> rd (ft_files td) f;
     if \<not> jf_open x then Some td
     else do {
       _ \<leftarrow> c_assert (jf_references x \<noteq> 0);
       let x = x\<lparr>jf_references := jf_references x - 1\<rparr>;
       if jf_references x \<noteq> 0 then Some (set_file f x td)
       else Some (set_file f (x\<lparr>jf_open := False\<rparr>) (td\<lparr>ft_nr_open_files := ft_nr_open_files td - 1\<rparr>)) } }"

section \<open>Opening and closing\<close>

text \<open>The Boolean is the error return; a refused open leaves the file marked as open.\<close>

definition td_io_open_file :: "file_env \<Rightarrow> 'a file_td_scheme \<Rightarrow> nat \<Rightarrow> ('a file_td_scheme \<times> bool) option" where
  "td_io_open_file env td f = do {
     x \<leftarrow> rd (ft_files td) f;
     _ \<leftarrow> c_assert (\<not> jf_open x);
     let r = fe_open env (ft_open_calls td);
     let td = td\<lparr>ft_open_calls := Suc (ft_open_calls td)\<rparr>;
     if r = Open_failed then Some (td, True)
     else do {
       let x = x\<lparr>jf_off := fio_file_reset (ft_off td) (jf_off x), jf_open := True, jf_closing := False\<rparr>;
       td \<leftarrow> get_file (set_file f x (td\<lparr>ft_nr_open_files := ft_nr_open_files td + 1\<rparr>)) f;
       Some (td, r = Open_refused) } }"

definition td_io_close_file :: "'a file_td_scheme \<Rightarrow> nat \<Rightarrow> 'a file_td_scheme option" where
  "td_io_close_file td f = do {
     x \<leftarrow> rd (ft_files td) f;
     put_file (set_file f (x\<lparr>jf_closing := True\<rparr>) td) f }"

section \<open>Choosing a file\<close>

datatype next_result = Next_file nat | Next_none | Next_busy

text \<open>The body of both loops: \<open>None\<close> is \<open>continue\<close>.\<close>

definition try_file :: "file_env \<Rightarrow> 'a file_td_scheme \<Rightarrow> nat \<Rightarrow> ('a file_td_scheme \<times> next_result option) option" where
  "try_file env td fno = do {
     x \<leftarrow> rd (ft_files td) fno;
     if jf_done x then Some (td, None)
     else if jf_open x then Some (td, if \<not> jf_closing x then Some (Next_file fno) else None)
     else if ft_open_files td \<le> ft_nr_open_files td then Some (td, Some Next_busy)
     else do {
       (td, err) \<leftarrow> td_io_open_file env td fno;
       if err then Some (td, None)
       else do {
         x \<leftarrow> rd (ft_files td) fno;
         if jf_open x \<and> \<not> jf_closing x then Some (td, Some (Next_file fno))
         else do { td \<leftarrow> td_io_close_file td fno; Some (td, None) } } } }"

partial_function (option) get_next_file_rand :: "file_env \<Rightarrow> 'a file_td_scheme \<Rightarrow> ('a file_td_scheme \<times> next_result) option" where
  "get_next_file_rand env td =
     (case next_rand (fe_off env) (ft_off td) (ft_next_file_state td) of (off, st, r) \<Rightarrow>
       do {
         (td, res) \<leftarrow> try_file env (td\<lparr>ft_off := off, ft_next_file_state := st\<rparr>)
           (scale_rand (unat (ft_nr_files td)) r (rand_bits off));
         (case res of Some res \<Rightarrow> Some (td, res) | None \<Rightarrow> get_next_file_rand env td) })"

declare get_next_file_rand.simps [code]

partial_function (option) next_file_rr :: "file_env \<Rightarrow> u32 \<Rightarrow> 'a file_td_scheme \<Rightarrow> ('a file_td_scheme \<times> next_result) option" where
  "next_file_rr env old_next_file td =
     (let fno = ft_next_file td in
      do {
        (td, res) \<leftarrow> try_file env (td\<lparr>ft_next_file := (if ft_nr_files td \<le> fno + 1 then 0 else fno + 1)\<rparr>) (unat fno);
        (case res of Some res \<Rightarrow> Some (td, res)
         | None \<Rightarrow> if ft_next_file td \<noteq> old_next_file then next_file_rr env old_next_file td else Some (td, Next_none)) })"

declare next_file_rr.simps [code]

definition get_next_file_rr :: "file_env \<Rightarrow> 'a file_td_scheme \<Rightarrow> ('a file_td_scheme \<times> next_result) option" where
  "get_next_file_rr env td = next_file_rr env (ft_next_file td) td"

text \<open>A new file becomes the one in service, for the next \<open>file_service_nr\<close> calls.\<close>

definition choose_file :: "file_env \<Rightarrow> 'a file_td_scheme \<Rightarrow> ('a file_td_scheme \<times> next_result) option" where
  "choose_file env td = do {
     (td, r) \<leftarrow> (if ft_service_type td = FIO_FSERVICE_RANDOM then get_next_file_rand env td else get_next_file_rr env td);
     (case r of
        Next_busy \<Rightarrow> Some (td, r)
      | Next_none \<Rightarrow> Some (td\<lparr>ft_service_file := None, ft_service_left := ft_service_nr td - 1\<rparr>, r)
      | Next_file f \<Rightarrow> Some (td\<lparr>ft_service_file := Some f, ft_service_left := ft_service_nr td - 1\<rparr>, r)) }"

definition get_next_file :: "file_env \<Rightarrow> 'a file_td_scheme \<Rightarrow> ('a file_td_scheme \<times> next_result) option" where
  "get_next_file env td = do {
     _ \<leftarrow> c_assert (unat (ft_nr_files td) \<le> length (ft_files td));
     if ft_nr_files td \<le> ft_nr_done_files td then Some (td, Next_none)
     else (case ft_service_file td of
        None \<Rightarrow> choose_file env td
      | Some f \<Rightarrow> do {
          x \<leftarrow> rd (ft_files td) f;
          if jf_open x \<and> \<not> jf_closing x
          then if ft_service_type td = FIO_FSERVICE_SEQ then Some (td, Next_file f)
               else if ft_service_left td \<noteq> 0
               then Some (td\<lparr>ft_service_left := ft_service_left td - 1\<rparr>, Next_file f)
               else choose_file env (td\<lparr>ft_service_left := ft_service_left td - 1\<rparr>)
          else choose_file env td }) }"

end
