(* ===== verification/IoPool.thy ===== *)
theory IoPool
  imports JobFiles
begin

text \<open>
  The units of I/O of a job: \<^verbatim>\<open>io_u_queue.c\<close>, \<^verbatim>\<open>io_u_queue.h\<close> with the stack of free
  units and the ring of units to do again, and the operations of \<^verbatim>\<open>io_u.c\<close>, \<^verbatim>\<open>ioengines.c\<close>,
  \<^verbatim>\<open>verify.c\<close> and \<^verbatim>\<open>backend.c\<close> that hand units from one place to the next. A unit is
  its number in \<open>io_u_all\<close>. What the engine answers is an argument.
\<close>

section \<open>The stack and the ring\<close>

text \<open>An array of pointers; \<open>None\<close> is a null pointer.\<close>

record io_u_queue =
  iq_io_us :: "nat option list"
  iq_nr :: u32

record io_u_ring =
  ir_head :: u32
  ir_tail :: u32
  ir_max :: u32
  ir_ring :: "nat option list"

definition io_u_qinit :: "u32 \<Rightarrow> io_u_queue" where
  "io_u_qinit nr = \<lparr>iq_io_us = replicate (unat nr) None, iq_nr = 0\<rparr>"

text \<open>The inner option is the pointer that the function returns.\<close>

definition io_u_qpop :: "io_u_queue \<Rightarrow> (io_u_queue \<times> nat option) option" where
  "io_u_qpop q =
     (if iq_nr q \<noteq> 0 then do {
        x \<leftarrow> rd (iq_io_us q) (unat (iq_nr q - 1));
        Some (q\<lparr>iq_nr := iq_nr q - 1\<rparr>, x) }
      else Some (q, None))"

definition io_u_qpush :: "io_u_queue \<Rightarrow> nat \<Rightarrow> io_u_queue option" where
  "io_u_qpush q io_u = do {
     xs \<leftarrow> wr (iq_io_us q) (unat (iq_nr q)) (Some io_u);
     Some (q\<lparr>iq_io_us := xs, iq_nr := iq_nr q + 1\<rparr>) }"

definition io_u_qempty :: "io_u_queue \<Rightarrow> bool" where
  "io_u_qempty q \<longleftrightarrow> iq_nr q = 0"

text \<open>The size of the ring is rounded up to a power of two.\<close>

definition ring_max :: "u32 \<Rightarrow> u32" where
  "ring_max nr =
     (let m = nr + 1 in
      if m AND (m - 1) \<noteq> 0 then
        let m = m - 1; m = m OR drop_bit 1 m; m = m OR drop_bit 2 m; m = m OR drop_bit 4 m;
            m = m OR drop_bit 8 m; m = m OR drop_bit 16 m in m + 1
      else m)"

definition io_u_rinit :: "u32 \<Rightarrow> io_u_ring" where
  "io_u_rinit nr = \<lparr>ir_head = 0, ir_tail = 0, ir_max = ring_max nr, ir_ring = replicate (unat (ring_max nr)) None\<rparr>"

definition io_u_rpush :: "io_u_ring \<Rightarrow> nat \<Rightarrow> io_u_ring option" where
  "io_u_rpush r io_u =
     (if ir_head r + 1 \<noteq> ir_tail r then do {
        xs \<leftarrow> wr (ir_ring r) (unat (ir_head r)) (Some io_u);
        Some (r\<lparr>ir_ring := xs, ir_head := (ir_head r + 1) AND (ir_max r - 1)\<rparr>) }
      else None)"

definition io_u_rpop :: "io_u_ring \<Rightarrow> (io_u_ring \<times> nat option) option" where
  "io_u_rpop r =
     (if ir_head r \<noteq> ir_tail r then do {
        x \<leftarrow> rd (ir_ring r) (unat (ir_tail r));
        Some (r\<lparr>ir_tail := (ir_tail r + 1) AND (ir_max r - 1)\<rparr>, x) }
      else Some (r, None))"

definition io_u_rempty :: "io_u_ring \<Rightarrow> bool" where
  "io_u_rempty r \<longleftrightarrow> ir_head r = ir_tail r"

section \<open>Units\<close>

text \<open>The flags are Booleans; \<open>Sync\<close> stands for the directions that transfer no data.\<close>

datatype io_ddir = Rw fio_ddir | Sync
datatype end_io = No_end_io | Verify_io_u | Verify_io_u_async

record io_unit =
  un_file :: "nat option"
  un_ddir :: io_ddir
  un_acct_ddir :: "io_ddir option"
  un_offset :: u64
  un_buflen :: u64
  un_xfer_buflen :: u64
  un_resid :: u32
  un_error :: u32
  un_end_io :: end_io
  un_free :: bool
  un_flight :: bool
  un_free_def :: bool
  un_in_cur_depth :: bool
  un_busy_ok :: bool
  un_trimmed :: bool
  un_barrier :: bool
  un_ver_list :: bool

record job_td = file_td +
  jt_units :: "io_unit list"
  jt_freelist :: io_u_queue
  jt_requeues :: io_u_ring
  jt_cur_depth :: u32
  jt_io_issues :: "fio_ddir \<Rightarrow> u64"
  jt_io_blocks :: "fio_ddir \<Rightarrow> u64"
  jt_io_bytes :: "fio_ddir \<Rightarrow> u64"
  jt_verify_list :: "nat list"
  jt_latency_target :: bool
  jt_latency_qd :: u32

definition set_unit :: "nat \<Rightarrow> io_unit \<Rightarrow> job_td \<Rightarrow> job_td" where
  "set_unit i u td = td\<lparr>jt_units := (jt_units td)[i := u]\<rparr>"

text \<open>
  The units are zeroed memory with the free flag; a full allocation of \<open>depth\<close> units.
\<close>

definition new_unit :: io_unit where
  "new_unit = \<lparr>un_file = None, un_ddir = Rw DDIR_READ, un_acct_ddir = Some (Rw DDIR_READ), un_offset = 0, un_buflen = 0,
     un_xfer_buflen = 0, un_resid = 0, un_error = 0, un_end_io = No_end_io, un_free = True, un_flight = False,
     un_free_def = False, un_in_cur_depth = False, un_busy_ok = False, un_trimmed = False, un_barrier = False,
     un_ver_list = False\<rparr>"

primrec push_units :: "nat list \<Rightarrow> io_u_queue \<Rightarrow> io_u_queue option" where
  "push_units [] q = Some q"
| "push_units (i # is) q = do { q \<leftarrow> io_u_qpush q i; push_units is q }"

definition init_io_u :: "u32 \<Rightarrow> job_td \<Rightarrow> job_td option" where
  "init_io_u depth td = do {
     q \<leftarrow> push_units [0..<unat depth] (io_u_qinit depth);
     Some (td\<lparr>jt_units := replicate (unat depth) new_unit, jt_freelist := q, jt_requeues := io_u_rinit depth\<rparr>) }"

section \<open>Putting and getting units\<close>

definition put_io_u :: "job_td \<Rightarrow> nat \<Rightarrow> job_td option" where
  "put_io_u td i = do {
     u \<leftarrow> rd (jt_units td) i;
     td \<leftarrow> (case un_file u of
        Some f \<Rightarrow> if \<not> un_free_def u then put_file td f else Some td
      | None \<Rightarrow> Some td);
     q \<leftarrow> io_u_qpush (jt_freelist td) i;
     Some (set_unit i (u\<lparr>un_file := None, un_free_def := False, un_free := True\<rparr>)
       (td\<lparr>jt_cur_depth := (if un_in_cur_depth u then jt_cur_depth td - 1 else jt_cur_depth td), jt_freelist := q\<rparr>)) }"

definition clear_io_u :: "job_td \<Rightarrow> nat \<Rightarrow> job_td option" where
  "clear_io_u td i = do {
     u \<leftarrow> rd (jt_units td) i;
     put_io_u (set_unit i (u\<lparr>un_flight := False\<rparr>) td) i }"

definition acct_ddir :: "io_unit \<Rightarrow> io_ddir" where
  "acct_ddir u = (case un_acct_ddir u of Some d \<Rightarrow> d | None \<Rightarrow> un_ddir u)"

definition requeue_io_u :: "job_td \<Rightarrow> nat \<Rightarrow> job_td option" where
  "requeue_io_u td i = do {
     u \<leftarrow> rd (jt_units td) i;
     let issues = (case acct_ddir u of
           Rw d \<Rightarrow> if un_flight u then (jt_io_issues td)(d := jt_io_issues td d - 1) else jt_io_issues td
         | Sync \<Rightarrow> jt_io_issues td);
     r \<leftarrow> io_u_rpush (jt_requeues td) i;
     Some (set_unit i (u\<lparr>un_free := True, un_flight := False\<rparr>)
       (td\<lparr>jt_io_issues := issues, jt_cur_depth := (if un_in_cur_depth u then jt_cur_depth td - 1 else jt_cur_depth td),
          jt_requeues := r\<rparr>)) }"

definition queue_full :: "job_td \<Rightarrow> bool" where
  "queue_full td \<longleftrightarrow>
     (if io_u_qempty (jt_freelist td) then True
      else if \<not> jt_latency_target td then False
      else jt_latency_qd td \<le> jt_cur_depth td)"

text \<open>
  One pass of \<open>__get_io_u\<close>. The waiting with asynchronous verification is another pass later.
\<close>

definition take_unit :: "job_td \<Rightarrow> (job_td \<times> nat option) option" where
  "take_unit td =
     (if \<not> io_u_rempty (jt_requeues td) then do {
        (r, i) \<leftarrow> io_u_rpop (jt_requeues td);
        Some (td\<lparr>jt_requeues := r\<rparr>, i) }
      else if \<not> queue_full td then do {
        (q, i) \<leftarrow> io_u_qpop (jt_freelist td);
        i \<leftarrow> i;
        u \<leftarrow> rd (jt_units td) i;
        Some (set_unit i (u\<lparr>un_file := None, un_buflen := 0, un_resid := 0, un_end_io := No_end_io\<rparr>)
          (td\<lparr>jt_freelist := q\<rparr>), Some i) }
      else Some (td, None))"

definition get_io_u0 :: "job_td \<Rightarrow> (job_td \<times> nat option) option" where
  "get_io_u0 td = do {
     (td, i) \<leftarrow> take_unit td;
     (case i of
        None \<Rightarrow> Some (td, None)
      | Some i \<Rightarrow> do {
          u \<leftarrow> rd (jt_units td) i;
          _ \<leftarrow> c_assert (un_free u);
          Some (set_unit i (u\<lparr>un_free := False, un_free_def := False, un_trimmed := False, un_barrier := False,
              un_ver_list := False, un_error := 0, un_acct_ddir := None, un_in_cur_depth := True\<rparr>)
            (td\<lparr>jt_cur_depth := jt_cur_depth td + 1\<rparr>), Some i) }) }"

end
