(* ===== verification/Job.thy ===== *)
theory Job
  imports IoPool
begin

text \<open>
  The life of a unit in the main loop of a job (\<^verbatim>\<open>io_u.c\<close>, \<^verbatim>\<open>ioengines.c\<close>,
  \<^verbatim>\<open>backend.c\<close>, \<^verbatim>\<open>verify.c\<close>): getting one with its file, offset and length, queueing
  it with the engine, completion, and the hand-over to the threads that verify. The steps of the main
  thread and of these threads interleave as a step relation.
\<close>

section \<open>Getting a unit\<close>

text \<open>\<open>fill_io_u\<close> on a unit, with the cases that need no offset.\<close>

definition fill_unit :: "file_env \<Rightarrow> 'a file_td_scheme \<Rightarrow> nat \<Rightarrow> io_unit \<Rightarrow> ('a file_td_scheme \<times> io_unit \<times> bool) option" where
  "fill_unit env td f u =
     (let add_zone = (\<lambda>td. td\<lparr>ft_off := (ft_off td)\<lparr>ot_zone_bytes := ot_zone_bytes (ft_off td) + un_buflen u\<rparr>\<rparr>)
      in if fe_noio env then Some (add_zone td, u, False)
      else case fe_ddir env (ft_ddir_calls td) of (d, barrier) \<Rightarrow>
        let td = td\<lparr>ft_ddir_calls := Suc (ft_ddir_calls td)\<rparr>;
            u = u\<lparr>un_barrier := un_barrier u \<or> barrier\<rparr>
        in case d of
          None \<Rightarrow> Some (add_zone td, u\<lparr>un_ddir := Sync, un_acct_ddir := Some Sync\<rparr>, False)
        | Some d \<Rightarrow> do {
            x \<leftarrow> rd (ft_files td) f;
            (off, xo, io, err) \<leftarrow> fill_io_u (fe_off env) (ft_off td) (jf_off x)
              \<lparr>ou_offset = un_offset u, ou_buflen = un_buflen u, ou_ddir = d, ou_busy_ok = un_busy_ok u\<rparr>;
            Some (set_file f (x\<lparr>jf_off := xo\<rparr>) (td\<lparr>ft_off := off\<rparr>),
              u\<lparr>un_ddir := Rw d, un_acct_ddir := Some (Rw d), un_offset := ou_offset io, un_buflen := ou_buflen io,
                un_busy_ok := ou_busy_ok io\<rparr>, err) })"

text \<open>The Boolean is the error return; without a file the function returns 0 and leaves none in the unit.\<close>

partial_function (option) set_io_u_file ::
    "file_env \<Rightarrow> 'a file_td_scheme \<Rightarrow> io_unit \<Rightarrow> ('a file_td_scheme \<times> io_unit \<times> bool) option" where
  "set_io_u_file env td u = do {
     (td, r) \<leftarrow> get_next_file env td;
     (case r of
        Next_none \<Rightarrow> Some (td, u, False)
      | Next_busy \<Rightarrow> Some (td, u, True)
      | Next_file f \<Rightarrow> do {
          td \<leftarrow> get_file td f;
          (td, u, err) \<leftarrow> fill_unit env td f (u\<lparr>un_file := Some f\<rparr>);
          if \<not> err then Some (td, u, False)
          else do {
            td \<leftarrow> put_file td f;
            td \<leftarrow> td_io_close_file td f;
            x \<leftarrow> rd (ft_files td) f;
            set_io_u_file env (set_file f (x\<lparr>jf_done := True\<rparr>) td\<lparr>ft_nr_done_files := ft_nr_done_files td + 1\<rparr>)
              (u\<lparr>un_file := None\<rparr>) } }) }"

declare set_io_u_file.simps [code]

text \<open>A null pointer, a unit, or the error \<open>EBUSY\<close>.\<close>

datatype get_result = Got nat | Got_none | Got_busy

text \<open>Without trace replay and without backlogs of blocks to trim or verify; \<open>prep\<close>: the engine prepared it.\<close>

definition prep_unit :: "job_td \<Rightarrow> nat \<Rightarrow> bool \<Rightarrow> (job_td \<times> get_result) option" where
  "prep_unit td i prep = do {
     u \<leftarrow> rd (jt_units td) i;
     _ \<leftarrow> c_assert (un_file u \<noteq> None);
     if prep then Some (td, Got i)
     else do { td \<leftarrow> put_io_u td i; Some (td, Got_none) } }"

definition get_io_u :: "file_env \<Rightarrow> job_td \<Rightarrow> bool \<Rightarrow> (job_td \<times> get_result) option" where
  "get_io_u env td prep = do {
     (td, i) \<leftarrow> get_io_u0 td;
     (case i of
        None \<Rightarrow> Some (td, Got_none)
      | Some i \<Rightarrow> do {
          u \<leftarrow> rd (jt_units td) i;
          if un_file u \<noteq> None then prep_unit td i prep
          else do {
            (td, u, err) \<leftarrow> set_io_u_file env td u;
            let td = set_unit i u td;
            if err then do { td \<leftarrow> put_io_u td i; Some (td, Got_busy) }
            else (case un_file u of
              None \<Rightarrow> do { td \<leftarrow> put_io_u td i; Some (td, Got_none) }
            | Some f \<Rightarrow> do {
                x \<leftarrow> rd (ft_files td) f;
                _ \<leftarrow> c_assert (jf_open x);
                if un_ddir u \<noteq> Sync \<and> un_buflen u = 0 \<and> \<not> fe_noio env
                then do { td \<leftarrow> put_io_u td i; Some (td, Got_none) }
                else let x = (case un_ddir u of
                          Sync \<Rightarrow> x
                        | Rw d \<Rightarrow> x\<lparr>jf_off := (jf_off x)\<lparr>of_last_start := un_offset u, of_last_pos := un_offset u + un_buflen u\<rparr>\<rparr>)
                     in prep_unit (set_unit i (u\<lparr>un_xfer_buflen := un_buflen u\<rparr>) (set_file f x td)) i prep }) } }) }"

section \<open>Queueing\<close>

datatype q_ret = FIO_Q_COMPLETED | FIO_Q_QUEUED | FIO_Q_BUSY | Q_error

record q_answer =
  qa_ret :: q_ret
  qa_error :: u32
  qa_resid :: u32

text \<open>The loop sets what is to be called at the end.\<close>

definition set_end_io :: "end_io \<Rightarrow> nat \<Rightarrow> job_td \<Rightarrow> job_td" where
  "set_end_io e i td =
     (if e = No_end_io then td else td\<lparr>jt_units := (jt_units td)[i := (jt_units td ! i)\<lparr>un_end_io := e\<rparr>]\<rparr>)"

definition td_io_queue :: "job_td \<Rightarrow> nat \<Rightarrow> q_answer \<Rightarrow> job_td option" where
  "td_io_queue td i q = do {
     u \<leftarrow> rd (jt_units td) i;
     _ \<leftarrow> c_assert (\<not> un_flight u);
     f \<leftarrow> un_file u;
     x \<leftarrow> rd (ft_files td) f;
     _ \<leftarrow> c_assert (jf_open x);
     Some (set_unit i (u\<lparr>un_flight := True, un_error := qa_error q, un_resid := qa_resid q\<rparr>)
       (td\<lparr>jt_io_issues := (case acct_ddir u of
          Rw d \<Rightarrow> (jt_io_issues td)(d := jt_io_issues td d + 1)
        | Sync \<Rightarrow> jt_io_issues td)\<rparr>)) }"

section \<open>Completion\<close>

definition verify_io_u_async :: "job_td \<Rightarrow> nat \<Rightarrow> job_td option" where
  "verify_io_u_async td i = do {
     u \<leftarrow> rd (jt_units td) i;
     td \<leftarrow> (case un_file u of Some f \<Rightarrow> put_file td f | None \<Rightarrow> Some td);
     Some (set_unit i (u\<lparr>un_in_cur_depth := False, un_free_def := True\<rparr>)
       (td\<lparr>jt_cur_depth := (if un_in_cur_depth u then jt_cur_depth td - 1 else jt_cur_depth td),
          jt_verify_list := jt_verify_list td @ [i]\<rparr>)) }"

text \<open>The counters of the job and what is called at the end; the verdict of a verification is only reported.\<close>

definition io_completed :: "job_td \<Rightarrow> nat \<Rightarrow> job_td option" where
  "io_completed td i = do {
     u \<leftarrow> rd (jt_units td) i;
     _ \<leftarrow> c_assert (un_flight u);
     let td = set_unit i (u\<lparr>un_flight := False, un_busy_ok := False\<rparr>) td;
     (case un_ddir u of
        Sync \<Rightarrow> Some td
      | Rw d \<Rightarrow>
          if un_error u \<noteq> 0 then Some td
          else let bytes = ucast (un_buflen u - ucast (un_resid u)) :: u32;
                   td = td\<lparr>jt_io_blocks := (jt_io_blocks td)(d := jt_io_blocks td d + 1),
                     jt_io_bytes := (jt_io_bytes td)(d := jt_io_bytes td d + ucast bytes)\<rparr>
               in if un_end_io u = Verify_io_u_async then verify_io_u_async td i else Some td) }"

text \<open>After it, unless the unit is handed over, it is put back.\<close>

definition put_completed :: "job_td \<Rightarrow> nat \<Rightarrow> job_td option" where
  "put_completed td i = do {
     u \<leftarrow> rd (jt_units td) i;
     if \<not> un_free_def u then put_io_u td i else Some td }"

section \<open>The main loop\<close>

text \<open>Where the unit is after the switch on the answer of the engine.\<close>

datatype unit_fate = Fate_returned | Fate_queued | Fate_completed

definition do_io_switch :: "job_td \<Rightarrow> nat \<Rightarrow> q_ret \<Rightarrow> (job_td \<times> unit_fate) option" where
  "do_io_switch td i ret =
     (let to = (\<lambda>fate r. map_option (\<lambda>td. (td, fate)) r) in
      case ret of
        FIO_Q_COMPLETED \<Rightarrow> do {
          u \<leftarrow> rd (jt_units td) i;
          if un_error u \<noteq> 0 then to Fate_returned (clear_io_u td i)
          else if un_resid u \<noteq> 0 then
            (let bytes = ucast (un_xfer_buflen u - ucast (un_resid u)) :: u32 in
             if bytes = 0 then to Fate_returned (put_io_u td i)
             else do {
               f \<leftarrow> un_file u;
               x \<leftarrow> rd (ft_files td) f;
               let u = u\<lparr>un_xfer_buflen := ucast (un_resid u), un_offset := un_offset u + scast bytes\<rparr>;
               let td = set_unit i u td;
               if un_offset u = of_real_file_size (jf_off x) then to Fate_completed (io_completed td i)
               else to Fate_returned (requeue_io_u td i) })
          else to Fate_completed (io_completed td i) }
      | FIO_Q_QUEUED \<Rightarrow> Some (td, Fate_queued)
      | FIO_Q_BUSY \<Rightarrow> to Fate_returned (requeue_io_u td i)
      | Q_error \<Rightarrow> to Fate_returned (put_io_u td i))"

text \<open>A job: its thread data, the units the engine holds, the unit between \<open>io_completed\<close> and the test
  of its flags, and the units that a verifying thread has taken.\<close>

record job =
  jb_td :: job_td
  jb_engine :: "nat list"
  jb_completing :: "nat option"
  jb_verifying :: "nat list"

definition issue_io :: "file_env \<Rightarrow> job \<Rightarrow> bool \<Rightarrow> end_io \<Rightarrow> q_answer \<Rightarrow> job option" where
  "issue_io env s prep e q = do {
     (td, r) \<leftarrow> get_io_u env (jb_td s) prep;
     (case r of
        Got i \<Rightarrow> do {
          td \<leftarrow> td_io_queue (set_end_io e i td) i q;
          (td, fate) \<leftarrow> do_io_switch td i (qa_ret q);
          Some (case fate of
             Fate_returned \<Rightarrow> s\<lparr>jb_td := td\<rparr>
           | Fate_queued \<Rightarrow> s\<lparr>jb_td := td, jb_engine := i # jb_engine s\<rparr>
           | Fate_completed \<Rightarrow> s\<lparr>jb_td := td, jb_completing := Some i\<rparr>) }
      | _ \<Rightarrow> Some (s\<lparr>jb_td := td\<rparr>)) }"

text \<open>An event of the engine: a unit it holds is done, with an error and a residual count.\<close>

definition engine_event :: "job \<Rightarrow> nat \<Rightarrow> u32 \<Rightarrow> u32 \<Rightarrow> job option" where
  "engine_event s i err resid = do {
     u \<leftarrow> rd (jt_units (jb_td s)) i;
     td \<leftarrow> io_completed (set_unit i (u\<lparr>un_error := err, un_resid := resid\<rparr>) (jb_td s)) i;
     Some (s\<lparr>jb_td := td, jb_engine := remove1 i (jb_engine s), jb_completing := Some i\<rparr>) }"

definition finish_io :: "job \<Rightarrow> nat \<Rightarrow> job option" where
  "finish_io s i = do { td \<leftarrow> put_completed (jb_td s) i; Some (s\<lparr>jb_td := td, jb_completing := None\<rparr>) }"

text \<open>A verifying thread takes the list, and puts the units back one after the other.\<close>

definition verify_take :: "job \<Rightarrow> job" where
  "verify_take s = s\<lparr>jb_td := (jb_td s)\<lparr>jt_verify_list := []\<rparr>, jb_verifying := jb_verifying s @ jt_verify_list (jb_td s)\<rparr>"

definition verify_put :: "job \<Rightarrow> nat \<Rightarrow> job option" where
  "verify_put s i = do { td \<leftarrow> put_io_u (jb_td s) i; Some (s\<lparr>jb_td := td, jb_verifying := remove1 i (jb_verifying s)\<rparr>) }"

text \<open>
  The main thread finishes a unit before it does anything else. \<open>ok\<close> restricts the answers of the
  engine to a unit of a given length, \<open>ends\<close> what the loop calls at the end.
\<close>

inductive job_step :: "file_env \<Rightarrow> (u64 \<Rightarrow> q_answer \<Rightarrow> bool) \<Rightarrow> (end_io \<Rightarrow> bool) \<Rightarrow> job \<Rightarrow> job \<Rightarrow> bool" for env ok ends where
  issue: "\<lbrakk>jb_completing s = None; \<And>td i. get_io_u env (jb_td s) prep = Some (td, Got i) \<Longrightarrow> ok (un_xfer_buflen (jt_units td ! i)) q;
      ends e; issue_io env s prep e q = Some s'\<rbrakk> \<Longrightarrow> job_step env ok ends s s'"
| event: "\<lbrakk>jb_completing s = None; i \<in> set (jb_engine s); engine_event s i err resid = Some s'\<rbrakk> \<Longrightarrow> job_step env ok ends s s'"
| finish: "\<lbrakk>jb_completing s = Some i; finish_io s i = Some s'\<rbrakk> \<Longrightarrow> job_step env ok ends s s'"
| take: "job_step env ok ends s (verify_take s)"
| verified: "\<lbrakk>i \<in> set (jb_verifying s); verify_put s i = Some s'\<rbrakk> \<Longrightarrow> job_step env ok ends s s'"

end
