(* ===== verification/Offset_Correct.thy ===== *)
theory Offset_Correct
  imports Axmap_Correct Offset
begin

text \<open>
  Properties of the offsets and lengths that \<^verbatim>\<open>io_u.c\<close> produces. A random job with a map of its
  blocks does every block exactly once; a sequential job goes through the file from front to back; lengths
  fit and stay in their range where the options allow it.
\<close>

lemma unat_lt_2p64: "unat (w :: u64) < 2 ^ 64"
  using unsigned_less [of w] by simp

section \<open>Rounding\<close>

lemma bit_length_le: "0 < n \<Longrightarrow> 2 ^ (bit_length n - 1) \<le> n"
proof (induction n rule: bit_length.induct)
  case (1 n)
  show ?case
  proof (cases "n div 2 = 0")
    case True
    then have "n = 1" using 1 by simp
    then show ?thesis by (simp add: bit_length.simps)
  next
    case False
    then have b: "bit_length n = Suc (Suc (bit_length (n div 2) - 1))"
      using 1 by (simp add: bit_length.simps [of n] bit_length.simps [of "n div 2"])
    have "2 ^ (bit_length (n div 2) - 1) \<le> n div 2" using 1 False by simp
    then have "2 * 2 ^ (bit_length (n div 2) - 1) \<le> n" by linarith
    then show ?thesis by (simp add: b)
  qed
qed

lemma round_half: "n = q * E + r \<Longrightarrow> 2 * ((if E < 2 * r \<or> (2 * r = E \<and> odd q) then q + 1 else q) * E) \<le> 2 * n + (E :: nat)"
  by (auto simp: algebra_simps)

text \<open>The relative error of a rounding is at most \<open>2 ^ -53\<close>.\<close>

lemma dbl_upper: "dbl n * 2 ^ 53 \<le> n * (2 ^ 53 + 1)"
proof (cases "bit_length n \<le> 53")
  case True
  then show ?thesis by (simp add: dbl_def)
next
  case False
  define e where "e = bit_length n - 53"
  have n: "0 < n" using False by (cases n) (simp_all add: bit_length.simps)
  have "bit_length n - 1 = e + 52" using False by (simp add: e_def)
  then have big: "2 ^ (e + 52) \<le> n" using bit_length_le [OF n] by simp
  have qr: "n = n div 2 ^ e * 2 ^ e + n mod 2 ^ e" by (simp add: div_mult_mod_eq)
  have d: "2 * dbl n \<le> 2 * n + 2 ^ e"
    unfolding dbl_def Let_def e_def [symmetric] by (rule round_half [OF qr])
  then have "2 * dbl n * 2 ^ 52 \<le> (2 * n + 2 ^ e) * 2 ^ 52" by (rule mult_le_mono1)
  also have "\<dots> = n * 2 ^ 53 + 2 ^ (e + 52)" by (simp add: algebra_simps power_add)
  also have "\<dots> \<le> n * (2 ^ 53 + 1)" using big by simp
  finally show ?thesis by simp
qed

lemma scale_rand_less:
  assumes "0 < n" "unat r < 2 ^ k" "k \<in> {31, 32}"
  shows "scale_rand n r k < n"
proof -
  define C :: nat where "C = 2 ^ 53 + 1"
  have "dbl (dbl n * unat r) * 2 ^ 53 * 2 ^ 53 \<le> dbl n * unat r * C * 2 ^ 53"
    unfolding C_def by (intro mult_le_mono1 dbl_upper)
  also have "\<dots> = dbl n * 2 ^ 53 * (C * unat r)" by simp
  also have "\<dots> \<le> n * C * (C * unat r)" unfolding C_def by (intro mult_le_mono1 dbl_upper)
  also have "\<dots> \<le> n * C * (C * (2 ^ k - 1))" using assms(2) by (intro mult_le_mono2) linarith
  also have "\<dots> = n * (C * C * (2 ^ k - 1))" by simp
  also have "\<dots> < n * (2 ^ k * 2 ^ 53 * 2 ^ 53)" using assms(1,3) by (auto simp: C_def)
  finally have "dbl (dbl n * unat r) < n * 2 ^ k" by (simp add: algebra_simps)
  then show ?thesis by (simp add: scale_rand_def less_mult_imp_div_less)
qed

definition env_ok :: "off_env \<Rightarrow> off_td \<Rightarrow> bool" where
  "env_ok env td \<longleftrightarrow> oo_use_os_rand (ot_o td) \<longrightarrow> (\<forall>i. oe_os_rand env i < 2 ^ 31)"

lemma next_rand_bound:
  assumes "env_ok env td" "next_rand env td st = (td', st', r)"
  shows "unat r < 2 ^ rand_bits td" "rand_bits td \<in> {31, 32}" "ot_o td' = ot_o td" "ot_ddir_seq_nr td' = ot_ddir_seq_nr td"
proof -
  have "unat (ucast x :: u64) < 2 ^ 32" for x :: u32 using unsigned_less [of x] by (simp add: unat_ucast_64)
  then show "unat r < 2 ^ rand_bits td"
    using assms by (auto simp: next_rand_def env_ok_def rand_bits_def word_less_nat_alt split: if_splits prod.splits)
  show "rand_bits td \<in> {31, 32}" by (simp add: rand_bits_def)
  show "ot_o td' = ot_o td" "ot_ddir_seq_nr td' = ot_ddir_seq_nr td"
    using assms(2) by (auto simp: next_rand_def split: if_splits prod.splits)
qed

section \<open>Random jobs\<close>

text \<open>
  A random job with a map: one block size, the generator of the program, every I/O random, no zones, and
  \<open>n\<close> blocks that lie in the file. \<open>random_job\<close> adds the map.
\<close>

definition random_setup :: "off_env \<Rightarrow> off_td \<Rightarrow> off_file \<Rightarrow> fio_ddir \<Rightarrow> u32 \<Rightarrow> nat \<Rightarrow> bool" where
  "random_setup env td f ddir bs n \<longleftrightarrow>
     (let o' = ot_o td in oo_td_random o' \<and> oo_random_generator o' = FIO_RAND_GEN_TAUSWORTHE
        \<and> oo_random_distribution o' = FIO_RAND_DIST_RANDOM \<and> \<not> oo_norandommap o' \<and> \<not> oo_time_based o'
        \<and> oo_ba o' ddir = bs \<and> oo_rw_min_bs o' = bs \<and> oo_min_bs o' = (\<lambda>_. bs) \<and> oo_max_bs o' = (\<lambda>_. bs)
        \<and> oo_perc_rand o' ddir = 100 \<and> oo_ddir_seq_nr o' = 1 \<and> oo_zone_range o' = 0 \<and> oo_zone_skip o' = 0)
     \<and> ot_ddir_seq_nr td = 1 \<and> env_ok env td \<and> 0 < bs \<and> 0 < n \<and> n < 2 ^ 37
     \<and> unat (of_io_size f) div unat bs = n \<and> unat (of_file_offset f) + unat (of_io_size f) \<le> unat (of_real_file_size f)"

definition random_job :: "off_env \<Rightarrow> off_td \<Rightarrow> off_file \<Rightarrow> fio_ddir \<Rightarrow> u32 \<Rightarrow> nat \<Rightarrow> axmap \<Rightarrow> bool" where
  "random_job env td f ddir bs n m \<longleftrightarrow> random_setup env td f ddir bs n \<and> of_axmap f = Some m
     \<and> axmap_wf m \<and> unat (nr_bits m) = n \<and> axmap_bits m \<subseteq> {..<n}"

lemma random_last_block:
  assumes "random_setup env td f ddir bs n"
  shows "last_block td f ddir = Some (of_nat n)" "unat (of_nat n :: u64) = n"
proof -
  have s: "oo_ba (ot_o td) ddir = bs" "oo_zone_range (ot_o td) = 0" "0 < bs" "unat (of_io_size f) div unat bs = n" "n < 2 ^ 37"
    "\<not> of_real_file_size f < of_io_size f"
    using assms by (simp_all add: random_setup_def Let_def word_less_nat_alt)
  show n: "unat (of_nat n :: u64) = n" using s(5) by (simp add: unat_of_nat)
  have "of_io_size f div ucast bs = of_nat n"
    using s(4) n by (simp add: word_unat_eq_iff unat_div unat_ucast_64)
  then show "last_block td f ddir = Some (of_nat n)" using s by (simp add: last_block_def)
qed

text \<open>The generator finds a free block as long as there is one.\<close>

lemma free_block_ok:
  assumes "axmap_wf m" "b < nr_bits m" "file_randommap td f = Some m"
  shows "\<exists>m' b'. free_block td f b = Some (f\<lparr>of_axmap := Some m'\<rparr>, b') \<and> axmap_wf m' \<and> nr_bits m' = nr_bits m
    \<and> axmap_bits m' = axmap_bits m \<and> (case b' of None \<Rightarrow> {..<unat (nr_bits m)} \<subseteq> axmap_bits m
        | Some b' \<Rightarrow> b' < nr_bits m \<and> unat b' \<notin> axmap_bits m \<and> b' \<noteq> -1)"
proof (cases "unat b \<in> axmap_bits m")
  case False
  then have "free_block td f b = Some (f, Some b)"
    using isset_refines [OF assms(1,2)] assms(3) by (simp add: free_block_def random_map_free_def)
  moreover have "f = f\<lparr>of_axmap := Some m\<rparr>" using assms(3) by (simp add: file_randommap_def split: if_splits)
  moreover have "b \<noteq> -1" using assms(2) by auto
  ultimately show ?thesis using False assms(1,2) by (intro exI [of _ m] exI [of _ "Some b"]) simp
next
  case True
  from next_free_refines [OF assms(1,2)] obtain m' b' where
    m': "axmap_next_free m b = Some (m', b')" "axmap_wf m'" "levels m' = levels m" "nr_bits m' = nr_bits m" "free_result m b'" .
  have "axmap_bits m' = axmap_bits m" using m'(3) by (simp add: axmap_bits_def)
  moreover have "free_block td f b = Some (f\<lparr>of_axmap := Some m'\<rparr>, if b' = -1 then None else Some b')"
    using isset_refines [OF assms(1,2)] assms(3) True m'(1) by (simp add: free_block_def random_map_free_def)
  ultimately show ?thesis using m' by (auto simp: free_result_def)
qed

lemma random_block_ok:
  assumes "random_job env td f ddir bs n m"
  shows "\<exists>td' m' b. get_next_rand_block env td f ddir = Some (td', f\<lparr>of_axmap := Some m'\<rparr>, b)
    \<and> random_job env td' (f\<lparr>of_axmap := Some m'\<rparr>) ddir bs n m' \<and> axmap_bits m' = axmap_bits m \<and> ot_o td' = ot_o td
    \<and> (case b of None \<Rightarrow> axmap_bits m = {..<n} | Some b \<Rightarrow> unat b < n \<and> unat b \<notin> axmap_bits m \<and> b \<noteq> -1)"
proof -
  have s: "random_setup env td f ddir bs n" and m: "of_axmap f = Some m" "axmap_wf m" "unat (nr_bits m) = n" "axmap_bits m \<subseteq> {..<n}"
    using assms by (simp_all add: random_job_def)
  have o: "oo_random_generator (ot_o td) = FIO_RAND_GEN_TAUSWORTHE" "oo_random_distribution (ot_o td) = FIO_RAND_DIST_RANDOM"
    "\<not> oo_norandommap (ot_o td)" "\<not> oo_time_based (ot_o td)" "env_ok env td" "0 < n"
    using s by (simp_all add: random_setup_def Let_def)
  note lb = random_last_block [OF s]
  obtain td1 st r where nr: "next_rand env td (ot_random_state td) = (td1, st, r)" by (cases "next_rand env td (ot_random_state td)") auto
  note b = next_rand_bound [OF o(5) nr]
  define td' where "td' = td1\<lparr>ot_random_state := st\<rparr>"
  define k where "k = scale_rand n r (rand_bits td)"
  have k: "k < n" unfolding k_def by (rule scale_rand_less [OF o(6) b(1,2)])
  then have uk: "unat (of_nat k :: u64) = k" using s by (simp add: unat_of_nat random_setup_def)
  have r: "rand_or_lfsr env td f (of_nat n) = Some (td', f, Some (of_nat k))"
    using o(1) nr lb(2) by (simp add: rand_or_lfsr_def td'_def k_def)
  have td': "ot_o td' = ot_o td" "ot_ddir_seq_nr td' = ot_ddir_seq_nr td" using b(3,4) by (simp_all add: td'_def)
  have "(of_nat k :: u64) < nr_bits m" using uk k m(3) by (simp add: word_less_nat_alt)
  moreover have "file_randommap td' f = Some m" using o(3) m(1) td' by (simp add: file_randommap_def)
  ultimately obtain m' b' where f: "free_block td' f (of_nat k) = Some (f\<lparr>of_axmap := Some m'\<rparr>, b')" "axmap_wf m'" "nr_bits m' = nr_bits m"
    "axmap_bits m' = axmap_bits m" "case b' of None \<Rightarrow> {..<unat (nr_bits m)} \<subseteq> axmap_bits m
        | Some b' \<Rightarrow> b' < nr_bits m \<and> unat b' \<notin> axmap_bits m \<and> b' \<noteq> -1"
    using free_block_ok [OF m(2)] by blast
  have "(of_nat n :: u64) \<noteq> 0" using lb(2) o(6) by auto
  then have "get_next_rand_offset0 env td f ddir = Some (td', f\<lparr>of_axmap := Some m'\<rparr>, b')"
    using lb(1) r f(1) by (simp add: get_next_rand_offset0_def)
  then have "get_next_rand_block env td f ddir = Some (td', f\<lparr>of_axmap := Some m'\<rparr>, b')"
    using o td' by (auto simp: get_next_rand_block_def get_next_rand_offset_def get_off_from_method_def should_sort_io_def)
  moreover have "random_job env td' (f\<lparr>of_axmap := Some m'\<rparr>) ddir bs n m'"
    using s m f(2-4) td' by (simp add: random_job_def random_setup_def Let_def env_ok_def)
  moreover have "case b' of None \<Rightarrow> axmap_bits m = {..<n} | Some b \<Rightarrow> unat b < n \<and> unat b \<notin> axmap_bits m \<and> b \<noteq> -1"
    using f(5) m(3,4) by (cases b') (auto simp: word_less_nat_alt)
  ultimately show ?thesis using f(4) td'(1) by blast
qed

text \<open>A block of the job lies in the file, and the words do not wrap.\<close>

lemma block_in_file:
  assumes "random_setup env td f ddir bs n" "unat b < n"
  shows "unat (b * ucast bs) = unat b * unat bs" "unat b * unat bs + unat bs \<le> unat (of_io_size f)"
    "unat (b * ucast bs + of_file_offset f) = unat b * unat bs + unat (of_file_offset f)"
    "(b * ucast bs + of_file_offset f - of_file_offset f) div ucast bs = b"
proof -
  have s: "unat (of_io_size f) div unat bs = n" "unat (of_file_offset f) + unat (of_io_size f) \<le> unat (of_real_file_size f)" "0 < unat bs"
    using assms(1) by (simp_all add: random_setup_def word_less_nat_alt)
  have "Suc (unat b) * unat bs \<le> n * unat bs" using assms(2) by (intro mult_le_mono1) simp
  also have "\<dots> \<le> unat (of_io_size f)" using s(1) by (metis div_times_less_eq_dividend)
  finally show le: "unat b * unat bs + unat bs \<le> unat (of_io_size f)" by simp
  have lt: "unat (of_io_size f) < 2 ^ 64" "unat (of_real_file_size f) < 2 ^ 64"
    using unsigned_less [of "of_io_size f"] unsigned_less [of "of_real_file_size f"] by simp_all
  show m: "unat (b * ucast bs) = unat b * unat bs"
    using le lt(1) by (simp add: unat_mult_lem [THEN iffD1] unat_ucast_64)
  show "unat (b * ucast bs + of_file_offset f) = unat b * unat bs + unat (of_file_offset f)"
    using m le lt(2) s(2) by (simp add: unat_add_lem [THEN iffD1])
  show "(b * ucast bs + of_file_offset f - of_file_offset f) div ucast bs = b"
    using m s(3) by (simp add: word_unat_eq_iff unat_div unat_ucast_64)
qed

text \<open>Marking a free block of the map.\<close>

lemma mark_block_ok:
  assumes "random_job env td f ddir bs n m" "unat b < n" "unat b \<notin> axmap_bits m"
    and "ou_offset u = b * ucast bs + of_file_offset f" "ou_buflen u = ucast bs" "\<not> ou_busy_ok u"
  shows "\<exists>m'. mark_random_map td f u m = Some (f\<lparr>of_axmap := Some m'\<rparr>, u)
    \<and> random_job env td (f\<lparr>of_axmap := Some m'\<rparr>) ddir bs n m' \<and> axmap_bits m' = insert (unat b) (axmap_bits m)"
proof -
  have s: "random_setup env td f ddir bs n" and m: "axmap_wf m" "unat (nr_bits m) = n" "axmap_bits m \<subseteq> {..<n}"
    using assms(1) by (simp_all add: random_job_def)
  have o: "oo_rw_min_bs (ot_o td) = bs" "0 < unat bs" using s by (simp_all add: random_setup_def Let_def word_less_nat_alt)
  have lt: "unat bs < 2 ^ 32" using unsigned_less [of bs] by simp
  have two: "unat ((ucast bs :: u64) + ucast bs) = 2 * unat bs"
    using lt by (subst unat_add_lem [THEN iffD1]) (simp_all add: unat_ucast_64)
  have "1 \<le> (ucast bs :: u64) + ucast bs" unfolding word_le_nat_alt two using o(2) by simp
  then have "unat ((ucast bs :: u64) + ucast bs - 1) = 2 * unat bs - unat (1 :: u64)"
    unfolding two [symmetric] by (rule unat_sub)
  then have "unat (((ucast bs :: u64) + ucast bs - 1) div ucast bs) = (2 * unat bs - 1) div unat bs"
    by (simp only: unat_div unat_ucast_64 unat_1)
  also have "\<dots> = 1" using o(2) by (simp add: div_if)
  finally have one: "((ucast bs :: u64) + ucast bs - 1) div ucast bs = 1" by (simp only: word_unat_eq_iff unat_1)
  have "unat (1 :: u32) = 1" "(0 :: nat) < unat (1 :: u32)" "unat b + unat (1 :: u32) \<le> unat (nr_bits m)"
    using assms(2) m(2) by simp_all
  from set_nr_loop_correct [OF m(1) this(2,3), of 0] obtain m' r k where
    k: "axmap_set_nr_loop m b 1 0 = Some (m', r)" "axmap_wf m'" "nr_bits m' = nr_bits m" "0 < k" "k \<le> unat (1 :: u32)"
    "axmap_bits m' = axmap_bits m \<union> {unat b..<unat b + k}"
    "{unat b..<unat b + unat (1 :: u32)} \<inter> axmap_bits m = {} \<longrightarrow> k = unat (1 :: u32) \<and> r = 0 + 1"
    by (elim exE conjE) (rule that)
  have "k = 1" using k(4,5) by simp
  moreover have "{unat b..<unat b + 1} = {unat b}" by auto
  ultimately have k': "axmap_bits m' = insert (unat b) (axmap_bits m)" "r = 1" using k(6,7) assms(3) by simp_all
  have "bs \<noteq> 0" using o(2) by auto
  moreover have "(ucast ((ou_buflen u + ucast bs - 1) div ucast bs) :: u32) = 1" unfolding assms(5) one by simp
  moreover have "(ou_offset u - of_file_offset f) div ucast bs = b" unfolding assms(4) by (rule block_in_file(4) [OF s assms(2)])
  moreover have "axmap_set_nr m b 1 = Some (m', 1)" unfolding axmap_set_nr_def k(1) k'(2) ..
  ultimately have "mark_random_map td f u m = Some (f\<lparr>of_axmap := Some m'\<rparr>, u)"
    using o(1) assms(5,6) unfolding mark_random_map_def Let_def by simp
  moreover have "random_job env td (f\<lparr>of_axmap := Some m'\<rparr>) ddir bs n m'"
    using s m k(2,3) k'(1) assms(2) by (simp add: random_job_def random_setup_def Let_def)
  ultimately show ?thesis using k'(1) by blast
qed

lemma fill_random_ok:
  assumes "random_job env td f ddir bs n m" "ou_ddir u = ddir" "\<not> ou_busy_ok u"
  shows "if axmap_bits m = {..<n} then \<exists>td' f' u'. fill_io_u env td f u = Some (td', f', u', True)
    else \<exists>td' m' b. fill_io_u env td f u
        = Some (td', f\<lparr>of_axmap := Some m'\<rparr>, u\<lparr>ou_offset := b * ucast bs + of_file_offset f, ou_buflen := ucast bs\<rparr>, False)
      \<and> random_job env td' (f\<lparr>of_axmap := Some m'\<rparr>) ddir bs n m' \<and> unat b < n \<and> unat b \<notin> axmap_bits m
      \<and> axmap_bits m' = insert (unat b) (axmap_bits m)"
proof -
  have s: "random_setup env td f ddir bs n" using assms(1) by (simp add: random_job_def)
  have o: "oo_td_random (ot_o td)" "oo_perc_rand (ot_o td) ddir = 100" "oo_ddir_seq_nr (ot_o td) = 1" "ot_ddir_seq_nr td = 1"
    "oo_zone_skip (ot_o td) = 0" "oo_ba (ot_o td) ddir = bs" "oo_min_bs (ot_o td) = (\<lambda>_. bs)" "oo_max_bs (ot_o td) = (\<lambda>_. bs)"
    "\<not> oo_norandommap (ot_o td)" "bs \<noteq> 0"
    using s by (auto simp: random_setup_def Let_def)
  have td: "td\<lparr>ot_ddir_seq_nr := 1\<rparr> = td" using o(4) by simp
  from random_block_ok [OF assms(1)] obtain td1 m1 b where
    b: "get_next_rand_block env td f ddir = Some (td1, f\<lparr>of_axmap := Some m1\<rparr>, b)"
    "random_job env td1 (f\<lparr>of_axmap := Some m1\<rparr>) ddir bs n m1" "axmap_bits m1 = axmap_bits m" "ot_o td1 = ot_o td"
    "case b of None \<Rightarrow> axmap_bits m = {..<n} | Some b \<Rightarrow> unat b < n \<and> unat b \<notin> axmap_bits m \<and> b \<noteq> -1" by blast
  let ?f1 = "f\<lparr>of_axmap := Some m1\<rparr>"
  have blk: "get_next_block env td f u True = Some (case b of None \<Rightarrow> (td1, ?f1, u, True, True)
      | Some b \<Rightarrow> (td1, ?f1, u\<lparr>ou_offset := b * ucast bs\<rparr>, True, False))"
    using o(1,2,6) assms(2) b(1,4,5)
    by (auto simp: get_next_block_def next_block_place_def should_do_random_def rand_result_def split: option.splits)
  show ?thesis
  proof (cases b)
    case None
    then have "fill_io_u env td f u = Some (td1, ?f1, u, True)"
      using blk o(3,4,5) by (simp add: td fill_io_u_def next_zone_def get_next_offset_def Let_def)
    then show ?thesis using b(5) None by simp
  next
    case (Some b')
    then have b': "unat b' < n" "unat b' \<notin> axmap_bits m1" "axmap_bits m \<noteq> {..<n}" using b(3,5) by auto
    have s1: "random_setup env td1 ?f1 ddir bs n" using b(2) by (simp add: random_job_def)
    note p = block_in_file [OF s1 b'(1)]
    have real: "unat (of_file_offset f) + unat (of_io_size f) \<le> unat (of_real_file_size f)" "0 < unat bs"
      using s by (simp_all add: random_setup_def word_less_nat_alt)
    let ?u = "u\<lparr>ou_offset := b' * ucast bs + of_file_offset f, ou_buflen := ucast bs\<rparr>"
    have pos: "\<not> of_io_size f \<le> b' * ucast bs" "\<not> of_real_file_size f \<le> b' * ucast bs + of_file_offset f"
      using p(1-3) real by (simp_all add: word_le_nat_alt)
    have "unat (b' * ucast bs + of_file_offset f + ucast bs) = unat b' * unat bs + unat (of_file_offset f) + unat bs"
      using p(2,3) real unat_lt_2p64 [of "of_real_file_size f"] by (subst unat_add_lem [THEN iffD1]) (simp_all add: unat_ucast_64)
    then have fits: "\<not> of_real_file_size f < b' * ucast bs + of_file_offset f + ucast bs"
      using p(2) real(1) by (simp add: word_less_nat_alt)
    have off: "get_next_offset env td f u = Some (td1, ?f1, u\<lparr>ou_offset := b' * ucast bs + of_file_offset f\<rparr>, True, False)"
      using blk o(3,4) pos Some by (simp add: td get_next_offset_def Let_def)
    from mark_block_ok [OF b(2) b'(1,2), of ?u] assms(3) obtain m2 where
      m2: "mark_random_map td1 ?f1 ?u m1 = Some (f\<lparr>of_axmap := Some m2\<rparr>, ?u)" "random_job env td1 (f\<lparr>of_axmap := Some m2\<rparr>) ddir bs n m2"
      "axmap_bits m2 = insert (unat b') (axmap_bits m1)" by auto
    have len: "get_next_buflen env td1 ?f1 (u\<lparr>ou_offset := b' * ucast bs + of_file_offset f\<rparr>) True = Some (td1, bs)"
      using o(7,8) b(4) by (simp add: get_next_buflen_def)
    have "fill_io_u env td f u = Some (td1\<lparr>ot_zone_bytes := ot_zone_bytes td1 + ucast bs\<rparr>, f\<lparr>of_axmap := Some m2\<rparr>, ?u, False)"
      using off len fits m2(1) o(1,5,9,10) b(4) by (simp add: fill_io_u_def next_zone_def Let_def file_randommap_def)
    moreover have "random_job env (td1\<lparr>ot_zone_bytes := ot_zone_bytes td1 + ucast bs\<rparr>) (f\<lparr>of_axmap := Some m2\<rparr>) ddir bs n m2"
      using m2(2) by (simp add: random_job_def random_setup_def env_ok_def)
    ultimately show ?thesis using b' b(3) m2(3) by auto
  qed
qed

text \<open>
  The I/Os of a job on a file: units are filled and issued until one cannot be filled, at most \<open>k\<close>.
\<close>

definition fresh_io_u :: "fio_ddir \<Rightarrow> off_io_u" where
  "fresh_io_u ddir = \<lparr>ou_offset = 0, ou_buflen = 0, ou_ddir = ddir, ou_busy_ok = False\<rparr>"

primrec issue_run :: "nat \<Rightarrow> off_env \<Rightarrow> off_td \<Rightarrow> off_file \<Rightarrow> fio_ddir \<Rightarrow> (off_td \<times> off_file \<times> (u64 \<times> u64) list) option" where
  "issue_run 0 env td f ddir = Some (td, f, [])"
| "issue_run (Suc k) env td f ddir = do {
     (td, f, u, err) \<leftarrow> fill_io_u env td f (fresh_io_u ddir);
     if err then Some (td, f, [])
     else do {
       (td, f, us) \<leftarrow> issue_run k env td (note_issue f u) ddir;
       Some (td, f, (ou_offset u, ou_buflen u) # us) } }"

definition block_io :: "off_file \<Rightarrow> u32 \<Rightarrow> nat \<Rightarrow> u64 \<times> u64" where
  "block_io f bs b = (of_nat b * ucast bs + of_file_offset f, ucast bs)"

lemma issue_run_random:
  assumes "random_job env td f ddir bs n m" "card ({..<n} - axmap_bits m) < k"
  shows "\<exists>td' f' bl. issue_run k env td f ddir = Some (td', f', map (block_io f bs) bl)
    \<and> distinct bl \<and> set bl = {..<n} - axmap_bits m"
  using assms
proof (induction k arbitrary: td f m)
  case (Suc k)
  have bits: "axmap_bits m \<subseteq> {..<n}" using Suc.prems(1) by (simp add: random_job_def)
  note fill = fill_random_ok [OF Suc.prems(1), of "fresh_io_u ddir"]
  show ?case
  proof (cases "axmap_bits m = {..<n}")
    case True
    then obtain td' f' u' where "fill_io_u env td f (fresh_io_u ddir) = Some (td', f', u', True)"
      using fill by (auto simp: fresh_io_u_def)
    then show ?thesis using True by (intro exI [of _ td'] exI [of _ f'] exI [of _ "[]"]) simp
  next
    case False
    let ?u = "\<lambda>b. (fresh_io_u ddir)\<lparr>ou_offset := b * ucast bs + of_file_offset f, ou_buflen := ucast bs\<rparr>"
    obtain td1 m1 b where b: "fill_io_u env td f (fresh_io_u ddir) = Some (td1, f\<lparr>of_axmap := Some m1\<rparr>, ?u b, False)"
      "random_job env td1 (f\<lparr>of_axmap := Some m1\<rparr>) ddir bs n m1" "unat b < n" "unat b \<notin> axmap_bits m"
      "axmap_bits m1 = insert (unat b) (axmap_bits m)"
      using fill False by (auto simp: fresh_io_u_def)
    let ?f = "note_issue (f\<lparr>of_axmap := Some m1\<rparr>) (?u b)"
    have job: "random_job env td1 ?f ddir bs n m1"
      using b(2) by (simp add: random_job_def random_setup_def note_issue_def)
    have rest: "{..<n} - axmap_bits m = insert (unat b) ({..<n} - axmap_bits m1)" "unat b \<notin> {..<n} - axmap_bits m1"
      using b(3-5) by auto
    then have "card ({..<n} - axmap_bits m1) < k" using Suc.prems(2) by simp
    from Suc.IH [OF job this] obtain td2 f2 bl where
      r: "issue_run k env td1 ?f ddir = Some (td2, f2, map (block_io ?f bs) bl)" "distinct bl" "set bl = {..<n} - axmap_bits m1" by blast
    have "block_io ?f bs = block_io f bs" by (intro ext) (simp add: block_io_def note_issue_def)
    moreover have "(ou_offset (?u b), ou_buflen (?u b)) = block_io f bs (unat b)" by (simp add: block_io_def)
    ultimately have "issue_run (Suc k) env td f ddir = Some (td2, f2, map (block_io f bs) (unat b # bl))"
      using b(1) r(1) by simp
    moreover have "distinct (unat b # bl)" "set (unat b # bl) = {..<n} - axmap_bits m" using r(2,3) rest by simp_all
    ultimately show ?thesis by blast
  qed
qed simp

lemma init_random_job:
  assumes "random_setup env td f ddir bs n"
  shows "\<exists>m. init_file_map (\<lambda>_. True) td f = Some (f\<lparr>of_axmap := Some m\<rparr>, False)
    \<and> random_job env td (f\<lparr>of_axmap := Some m\<rparr>) ddir bs n m \<and> axmap_bits m = {}"
proof -
  have s: "oo_rw_min_bs (ot_o td) = bs" "bs \<noteq> 0" "\<not> oo_norandommap (ot_o td)" "oo_random_generator (ot_o td) = FIO_RAND_GEN_TAUSWORTHE"
    "unat (of_io_size f) \<le> unat (of_real_file_size f)" "n < 2 ^ 37" "unat (of_io_size f) div unat bs = n"
    using assms by (auto simp: random_setup_def Let_def)
  have size: "(if of_io_size f < of_real_file_size f then of_io_size f else of_real_file_size f) = of_io_size f"
    using s(5) by (auto simp: word_less_nat_alt word_unat_eq_iff)
  have blocks: "unat (of_io_size f div ucast bs) = n" using s(7) by (simp add: unat_div unat_ucast_64)
  have alloc: "unat (of_io_size f div ucast bs) < 2 ^ 37" using blocks s(6) by simp
  obtain m where m: "axmap_new (\<lambda>_. True) (of_io_size f div ucast bs) = Some (Some m)" "axmap_wf m"
    "nr_bits m = of_io_size f div ucast bs" "axmap_bits m = {}"
    by (rule new_correct [of "\<lambda>_. True", OF TrueI alloc])
  have "init_file_map (\<lambda>_. True) td f = Some (f\<lparr>of_axmap := Some m\<rparr>, False)"
    using s m(1) size by (simp add: init_file_map_def Let_def)
  moreover have "random_job env td (f\<lparr>of_axmap := Some m\<rparr>) ddir bs n m"
    using assms m blocks by (simp add: random_job_def random_setup_def)
  ultimately show ?thesis using m(4) by blast
qed

text \<open>
  C4: a random job with a map of its blocks does every block of the file exactly once, whatever the
  numbers of the generator, and then stops.
\<close>

theorem random_job_covers_file:
  assumes "random_setup env td f ddir bs n" "n < k"
  shows "\<exists>f1 td' f' bl. init_file_map (\<lambda>_. True) td f = Some (f1, False)
    \<and> issue_run k env td f1 ddir = Some (td', f', map (block_io f bs) bl) \<and> distinct bl \<and> set bl = {..<n}"
proof -
  from init_random_job [OF assms(1)] obtain m where
    m: "init_file_map (\<lambda>_. True) td f = Some (f\<lparr>of_axmap := Some m\<rparr>, False)"
    "random_job env td (f\<lparr>of_axmap := Some m\<rparr>) ddir bs n m" "axmap_bits m = {}" by blast
  have "block_io (f\<lparr>of_axmap := Some m\<rparr>) bs = block_io f bs" by (intro ext) (simp add: block_io_def)
  then show ?thesis using issue_run_random [OF m(2), of k] assms(2) m(1,3) by auto
qed

text \<open>A job of a hundred blocks of 4096 bytes.\<close>

definition example_td :: "bool \<Rightarrow> u32 \<Rightarrow> off_td" where
  "example_td random max_bs =
     \<lparr>ot_o = \<lparr>oo_td_random = random, oo_rw_min_bs = 4096, oo_ba = (\<lambda>_. 4096), oo_min_bs = (\<lambda>_. 4096), oo_max_bs = (\<lambda>_. max_bs),
         oo_bssplit = (\<lambda>_. []), oo_bs_unaligned = False, oo_bs_is_seq_rand = False, oo_random_generator = FIO_RAND_GEN_TAUSWORTHE,
         oo_random_distribution = FIO_RAND_DIST_RANDOM, oo_norandommap = False, oo_softrandommap = False, oo_use_os_rand = False,
         oo_perc_rand = (\<lambda>_. 100), oo_rw_seq = RW_SEQ_SEQ, oo_ddir_seq_nr = 1, oo_ddir_seq_add = 0, oo_time_based = False,
         oo_file_append = False, oo_start_offset = 0, oo_offset_increment = 0, oo_zone_range = 0, oo_zone_size = 0, oo_zone_skip = 0,
         oo_verify = VERIFY_NONE, oo_do_verify = False, oo_verify_interval = 0, oo_verifysort_nr = 0\<rparr>,
       ot_thread_number = 1, ot_random_state = init_rand, ot_seq_rand_state = (\<lambda>_. init_rand), ot_bsrange_state = init_rand,
       ot_os_calls = 0, ot_rand_seed = 0, ot_next_rand_list = [], ot_ddir_seq_nr = 1, ot_verifying = False, ot_zone_bytes = 0,
       ot_io_skip_bytes = 0\<rparr>"

definition example_file :: off_file where
  "example_file = \<lparr>of_real_file_size = 409600, of_file_offset = 0, of_io_size = 409600, of_last_pos = 0, of_last_start = -1,
     of_axmap = None, of_lfsr = fio_lfsr_zero, of_zipf = 0, of_regular = True\<rparr>"

definition example_env :: off_env where
  "example_env = \<lparr>oe_os_rand = (\<lambda>_. 0), oe_zipf = (\<lambda>_. 0), oe_pareto = (\<lambda>_. 0)\<rparr>"

theorem random_job_covers_file_witness:
  "\<exists>f1 td' f' bl. init_file_map (\<lambda>_. True) (example_td True 4096) example_file = Some (f1, False)
    \<and> issue_run 101 example_env (example_td True 4096) f1 DDIR_READ = Some (td', f', map (block_io example_file 4096) bl)
    \<and> distinct bl \<and> set bl = {..<100}"
  by (rule random_job_covers_file) (simp_all add: random_setup_def env_ok_def example_td_def example_file_def)

section \<open>Sequential jobs\<close>

text \<open>A sequential job on a whole file: one block size, every I/O after the last one, no zones.\<close>

definition seq_setup :: "off_td \<Rightarrow> off_file \<Rightarrow> u32 \<Rightarrow> bool" where
  "seq_setup td f bs \<longleftrightarrow>
     (let o' = ot_o td in \<not> oo_td_random o' \<and> \<not> oo_time_based o' \<and> oo_ddir_seq_nr o' = 1 \<and> oo_ddir_seq_add o' = 0
        \<and> oo_min_bs o' = (\<lambda>_. bs) \<and> oo_max_bs o' = (\<lambda>_. bs) \<and> oo_zone_skip o' = 0)
     \<and> ot_ddir_seq_nr td = 1 \<and> 0 < bs \<and> unat (of_file_offset f) + unat (of_io_size f) = unat (of_real_file_size f)
     \<and> unat (of_real_file_size f) + unat bs < 2 ^ 64"

lemma fill_seq_ok:
  assumes "seq_setup td f bs" "of_last_pos f = of_file_offset f + of_nat b * ucast bs" "b \<le> unat (of_io_size f) div unat bs"
  shows "if b < unat (of_io_size f) div unat bs
    then \<exists>td'. fill_io_u env td f u = Some (td', f, u\<lparr>ou_offset := of_nat b * ucast bs + of_file_offset f, ou_buflen := ucast bs\<rparr>, False)
      \<and> seq_setup td' f bs
    else \<exists>td' f' u'. fill_io_u env td f u = Some (td', f', u', True)"
proof -
  define n where "n = unat (of_io_size f) div unat bs"
  have o: "\<not> oo_td_random (ot_o td)" "\<not> oo_time_based (ot_o td)" "oo_ddir_seq_nr (ot_o td) = 1" "oo_ddir_seq_add (ot_o td) = 0"
    "oo_min_bs (ot_o td) = (\<lambda>_. bs)" "oo_max_bs (ot_o td) = (\<lambda>_. bs)" "oo_zone_skip (ot_o td) = 0" "ot_ddir_seq_nr td = 1" "bs \<noteq> 0"
    using assms(1) by (auto simp: seq_setup_def Let_def)
  have size: "unat (of_file_offset f) + unat (of_io_size f) = unat (of_real_file_size f)" "unat (of_real_file_size f) + unat bs < 2 ^ 64" "0 < unat bs"
    using assms(1) by (simp_all add: seq_setup_def word_less_nat_alt)
  have td: "td\<lparr>ot_ddir_seq_nr := 1\<rparr> = td" using o(8) by simp
  define pos :: u64 where "pos = of_nat b * ucast bs"
  have "b * unat bs \<le> n * unat bs" using assms(3) by (simp add: n_def)
  also have "\<dots> \<le> unat (of_io_size f)" unfolding n_def by simp
  finally have le: "b * unat bs \<le> unat (of_io_size f)" .
  then have "b * unat bs < 2 ^ 64" using unat_lt_2p64 [of "of_io_size f"] by linarith
  moreover have "pos = of_nat (b * unat bs)" by (simp add: pos_def)
  ultimately have upos: "unat pos = b * unat bs" by (simp add: unat_of_nat del: of_nat_mult)
  have uoff: "unat (pos + of_file_offset f) = b * unat bs + unat (of_file_offset f)"
    using upos le size unat_lt_2p64 [of "of_real_file_size f"] by (subst unat_add_lem [THEN iffD1]) simp_all
  have end': "unat (pos + of_file_offset f + ucast bs) = b * unat bs + unat (of_file_offset f) + unat bs"
    using uoff le size by (subst unat_add_lem [THEN iffD1]) (simp_all add: unat_ucast_64)
  have last: "of_last_pos f = pos + of_file_offset f" using assms(2) by (simp add: pos_def)
  have seq: "get_next_seq_offset td f = (if pos + of_file_offset f < of_real_file_size f then (f, Some pos) else (f, None))"
    using o(2,4) last by (simp add: get_next_seq_offset_def Let_def)
  have "pos \<noteq> -1" using upos le size unat_minus_1_64 by fastforce
  then have blk: "get_next_block env td f u True = Some (if pos + of_file_offset f < of_real_file_size f
      then (td, f, u\<lparr>ou_offset := pos\<rparr>, False, False) else (td, f, u, False, True))"
    using seq o(1) by (auto simp: get_next_block_def next_block_place_def)
  show ?thesis
  proof (cases "b < n")
    case True
    then have "Suc b * unat bs \<le> n * unat bs" by (intro mult_le_mono1) simp
    also have "\<dots> \<le> unat (of_io_size f)" unfolding n_def by simp
    finally have le': "b * unat bs + unat bs \<le> unat (of_io_size f)" by simp
    have lt: "pos + of_file_offset f < of_real_file_size f" "\<not> of_io_size f \<le> pos" "\<not> of_real_file_size f < pos + of_file_offset f + ucast bs"
      using uoff upos end' le' size by (simp_all add: word_less_nat_alt word_le_nat_alt)
    have off: "get_next_offset env td f u = Some (td, f, u\<lparr>ou_offset := pos + of_file_offset f\<rparr>, False, False)"
      using blk lt(1,2) o(3,8) by (simp add: td get_next_offset_def Let_def)
    have "fill_io_u env td f u
      = Some (td\<lparr>ot_zone_bytes := ot_zone_bytes td + ucast bs\<rparr>, f, u\<lparr>ou_offset := pos + of_file_offset f, ou_buflen := ucast bs\<rparr>, False)"
      using off lt(3) o(1,5,6,7,9) by (simp add: fill_io_u_def next_zone_def get_next_buflen_def Let_def)
    moreover have "seq_setup (td\<lparr>ot_zone_bytes := ot_zone_bytes td + ucast bs\<rparr>) f bs" using assms(1) by (simp add: seq_setup_def)
    ultimately show ?thesis using True unfolding n_def pos_def by simp
  next
    case False
    then have "b = n" using assms(3) by (simp add: n_def)
    then have "unat (of_io_size f) < b * unat bs + unat bs"
      using size(3) dividend_less_times_div [of "unat bs" "unat (of_io_size f)"] by (simp add: n_def mult.commute)
    then have "of_real_file_size f < pos + of_file_offset f + ucast bs"
      using end' size(1) by (simp add: word_less_nat_alt)
    then have "\<exists>td' f' u'. fill_io_u env td f u = Some (td', f', u', True)"
      using blk o(3,5-9) by (auto simp: fill_io_u_def next_zone_def get_next_offset_def get_next_buflen_def td Let_def)
    then show ?thesis using False unfolding n_def by simp
  qed
qed

lemma issue_run_seq:
  assumes "seq_setup td f bs" "of_last_pos f = of_file_offset f + of_nat b * ucast bs" "b \<le> unat (of_io_size f) div unat bs"
    and "unat (of_io_size f) div unat bs < b + k"
  shows "\<exists>td' f'. issue_run k env td f ddir = Some (td', f', map (block_io f bs) [b..<unat (of_io_size f) div unat bs])"
  using assms
proof (induction k arbitrary: td f b)
  case (Suc k)
  let ?n = "unat (of_io_size f) div unat bs"
  note fill = fill_seq_ok [OF Suc.prems(1-3), of env "fresh_io_u ddir"]
  show ?case
  proof (cases "b < ?n")
    case True
    let ?u = "(fresh_io_u ddir)\<lparr>ou_offset := of_nat b * ucast bs + of_file_offset f, ou_buflen := ucast bs\<rparr>"
    let ?f = "note_issue f ?u"
    obtain td1 where 1: "fill_io_u env td f (fresh_io_u ddir) = Some (td1, f, ?u, False)" "seq_setup td1 f bs"
      using fill True by auto
    have f: "of_io_size ?f = of_io_size f" "block_io ?f bs = block_io f bs"
      by (simp_all add: note_issue_def block_io_def fun_eq_iff)
    have "seq_setup td1 ?f bs" using 1(2) by (simp add: seq_setup_def note_issue_def)
    moreover have "of_last_pos ?f = of_file_offset ?f + of_nat (Suc b) * ucast bs"
      by (simp add: note_issue_def algebra_simps)
    ultimately obtain td2 f2 where "issue_run k env td1 ?f ddir = Some (td2, f2, map (block_io f bs) [Suc b..<?n])"
      using Suc.IH [of td1 ?f "Suc b"] Suc.prems(3,4) True unfolding f by auto
    moreover have "[b..<?n] = b # [Suc b..<?n]" using True by (rule upt_conv_Cons)
    ultimately show ?thesis using 1(1) by (simp add: block_io_def)
  next
    case False
    then show ?thesis using fill Suc.prems(3) by auto
  qed
qed simp

text \<open>
  C5: a sequential job goes through the file block by block from the front, and stops at the last whole
  block.
\<close>

theorem sequential_job_in_order:
  assumes "seq_setup td f bs" "unat (of_io_size f) div unat bs < k"
  shows "\<exists>td' f'. issue_run k env td (fio_file_reset td f) ddir
    = Some (td', f', map (block_io f bs) [0..<unat (of_io_size f) div unat bs])"
proof -
  let ?f = "fio_file_reset td f"
  have f: "of_io_size ?f = of_io_size f" "block_io ?f bs = block_io f bs"
    by (simp_all add: fio_file_reset_def block_io_def fun_eq_iff)
  have "seq_setup td ?f bs" using assms(1) by (simp add: seq_setup_def fio_file_reset_def)
  moreover have "of_last_pos ?f = of_file_offset ?f + of_nat 0 * ucast bs" by (simp add: fio_file_reset_def)
  ultimately show ?thesis using issue_run_seq [of td ?f bs 0 k] assms(2) unfolding f by simp
qed

theorem sequential_job_in_order_witness:
  "\<exists>td' f'. issue_run 101 example_env (example_td False 4096) (fio_file_reset (example_td False 4096) example_file) DDIR_WRITE
    = Some (td', f', map (block_io example_file 4096) [0..<unat (of_io_size example_file) div unat (4096 :: u32)])"
  by (rule sequential_job_in_order) (simp_all add: seq_setup_def example_td_def example_file_def)

section \<open>Lengths\<close>

lemma and_pred_nat: "0 < n \<Longrightarrow> n AND (n - 1) = 0 \<Longrightarrow> \<exists>k. n = 2 ^ k" for n :: nat
proof (induction n rule: less_induct)
  case (less n)
  show ?case
  proof (cases "even n")
    case True
    then obtain m where m: "n = 2 * m" by (rule evenE)
    have d: "n div 2 = m" "(n - Suc 0) div 2 = m - Suc 0" using m by simp_all
    have "n AND (n - 1) = 2 * (m AND (m - 1))" by (subst and_rec) (simp add: True d)
    then obtain k where "m = 2 ^ k" using less.IH [of m] less.prems m by auto
    then have "n = 2 ^ Suc k" using m by simp
    then show ?thesis by blast
  next
    case False
    then obtain m where m: "n = Suc (2 * m)" by (metis oddE Suc_eq_plus1)
    then have d: "n div 2 = m" "(n - Suc 0) div 2 = m" by simp_all
    have "n AND (n - 1) = 2 * (m AND m)" using m by (subst and_rec) (simp add: d)
    then have "n = 2 ^ 0" using less.prems m by simp
    then show ?thesis by blast
  qed
qed

lemma is_power_of_2_exp: "is_power_of_2 v \<Longrightarrow> \<exists>k < 32. unat v = 2 ^ k"
proof -
  assume v: "is_power_of_2 v"
  then have pos: "0 < unat v" and z: "v AND (v - 1) = 0" by (simp_all add: is_power_of_2_def unat_gt_0)
  then have "unat (v - 1) = unat v - 1" by (simp add: unat_sub word_le_nat_alt)
  moreover have "unat v AND unat (v - 1) = 0" using z by (simp add: unsigned_and_eq [symmetric])
  ultimately have "unat v AND (unat v - 1) = 0" by simp
  with pos obtain k where k: "unat v = 2 ^ k" using and_pred_nat by blast
  have "unat v < 2 ^ 32" using unsigned_less [of v] by simp
  then have "(2 :: nat) ^ k < 2 ^ 32" unfolding k .
  then have "k < 32" by (rule power_less_imp_less_exp [rotated]) simp
  then show ?thesis using k by blast
qed

text \<open>With a power of two the mask rounds up to the next multiple.\<close>

lemma unat_mask_up:
  assumes "is_power_of_2 m" "unat b + unat m - 1 < 2 ^ 32"
  shows "unat (mask_up b m) = (unat b + unat m - 1) div unat m * unat m"
proof -
  obtain k where k: "k < 32" "unat m = 2 ^ k" using is_power_of_2_exp [OF assms(1)] by blast
  have "m = of_nat (unat m)" by simp
  then have m: "m = push_bit k 1" unfolding k(2) by (simp add: push_bit_of_1)
  have x: "unat (b + m - 1) = unat b + unat m - 1"
  proof (cases "unat b + unat m < 2 ^ 32")
    case True
    then have "unat (b + m) = unat b + unat m" by (subst unat_add_lem [THEN iffD1]) simp_all
    moreover have "1 \<le> unat b + unat m" unfolding k(2) by (rule trans_le_add2) (rule one_le_power, simp)
    ultimately have "unat (b + m) = unat b + unat m" "1 \<le> b + m" by (simp_all add: word_le_nat_alt)
    then show ?thesis by (simp add: unat_sub)
  next
    case False
    then have "unat b + unat m = 2 ^ 32" using assms(2) by linarith
    then have "of_nat (unat b + unat m) = (0 :: u32)" by simp
    then have "b + m = 0" by simp
    then show ?thesis using \<open>unat b + unat m = 2 ^ 32\<close> by (simp add: unsigned_minus_1_eq_mask mask_eq_exp_minus_1)
  qed
  have lt: "unat (b + m - 1) < 2 ^ 32" proof -
    have "unat w < 2 ^ 32" for w :: u32 using unsigned_less [of w] by simp
    then show ?thesis .
  qed
  then have small: "take_bit 32 (unat (b + m - 1)) = unat (b + m - 1)" by (rule take_bit_nat_eq_self)
  have "mask_up b m = push_bit k (drop_bit k (b + m - 1))"
    unfolding mask_up_def by (rule bit_eqI) (auto simp: m bit_simps mask_eq_exp_minus_1 [symmetric] push_bit_of_1)
  then have "unat (mask_up b m) = take_bit 32 (unat (b + m - 1) div 2 ^ k * 2 ^ k)"
    by (simp add: small unsigned_push_bit_eq push_bit_nat_def unsigned_drop_bit_eq drop_bit_nat_def)
  also have "\<dots> = unat (b + m - 1) div 2 ^ k * 2 ^ k"
    by (rule take_bit_nat_eq_self [OF le_less_trans [OF div_times_less_eq_dividend lt]])
  finally show ?thesis by (simp add: x k(2))
qed

text \<open>
  One size for each direction that is not split by percentages, and no rounding to
  \<open>verify_interval\<close>.
\<close>

definition length_setup :: "off_env \<Rightarrow> off_td \<Rightarrow> fio_ddir \<Rightarrow> bool" where
  "length_setup env td ddir \<longleftrightarrow>
     (let o' = ot_o td in oo_bssplit o' ddir = [] \<and> \<not> oo_bs_is_seq_rand o' \<and> (\<not> oo_do_verify o' \<or> oo_verify o' = VERIFY_NONE)
        \<and> oo_min_bs o' ddir \<le> oo_max_bs o' ddir) \<and> env_ok env td"

lemma mask_up_between:
  assumes "is_power_of_2 m" "unat m dvd unat M" "b \<le> M" "0 < b"
  shows "m \<le> mask_up b m" "mask_up b m \<le> M"
proof -
  obtain k where k: "k < 32" "unat m = 2 ^ k" using is_power_of_2_exp [OF assms(1)] by blast
  obtain q where q: "unat M = unat m * q" using assms(2) by (rule dvdE)
  have m: "0 < unat m" by (simp add: k(2))
  have dvd: "unat m dvd 2 ^ 32" unfolding k(2) using k(1) by (intro le_imp_power_dvd) simp
  then obtain p where p: "2 ^ 32 = unat m * p" by (rule dvdE)
  have "unat m * q < unat m * p" using unsigned_less [of M] unfolding q [symmetric] p [symmetric] by simp
  then have "Suc q \<le> p" by simp
  then have "unat m * Suc q \<le> unat m * p" by (rule mult_le_mono2)
  then have le: "unat M + unat m \<le> 2 ^ 32" unfolding p q by (simp only: mult_Suc_right add.commute)
  have b: "unat b \<le> unat m * q" "0 < unat b" using assms(3,4) q by (simp_all add: word_le_nat_alt word_less_nat_alt)
  have "unat b + unat m - 1 < 2 ^ 32" using le b q by linarith
  note up = unat_mask_up [OF assms(1) this]
  have "(unat b + unat m - 1) div unat m \<le> (unat m * q + unat m - 1) div unat m" using b(1) by (intro div_le_mono) linarith
  also have "\<dots> = q"
  proof -
    have "unat m * q + unat m - 1 = (unat m - 1) + unat m * q" using m by simp
    also have "\<dots> div unat m = q + (unat m - 1) div unat m" using m by (subst div_mult_self2) simp_all
    finally show ?thesis using m by simp
  qed
  finally have "unat (mask_up b m) \<le> q * unat m" unfolding up by (rule mult_le_mono1)
  then show "mask_up b m \<le> M" by (simp add: word_le_nat_alt q mult.commute)
  have "unat m div unat m \<le> (unat b + unat m - 1) div unat m" using b(2) by (intro div_le_mono) linarith
  then have "1 * unat m \<le> (unat b + unat m - 1) div unat m * unat m" using m by (intro mult_le_mono1) simp
  then show "m \<le> mask_up b m" by (simp add: word_le_nat_alt up)
qed



text \<open>Without that, a length can exceed the longest one, for which the buffer is allocated.\<close>

lemma buflen_exceeds_max:
  "pick_buflen (example_td True 6144) example_file u DDIR_READ 0xC0000000 = 8192"
proof -
  have "bit_length 6144 \<le> 53" "bit_length (6144 * 0xC0000000) \<le> 53" by (simp_all add: bit_length.simps)
  then have "dbl 6144 = 6144" "dbl (6144 * 0xC0000000) = 6144 * 0xC0000000" by (simp_all add: dbl_def)
  then have "scale_rand 6144 0xC0000000 32 = 4608" by (simp add: scale_rand_def)
  then show ?thesis
    by (simp add: pick_buflen_def example_td_def rand_bits_def is_power_of_2_def mask_up_def)
qed

section \<open>Options\<close>

text \<open>The options of a job never change.\<close>

lemma next_rand_keeps: "next_rand env td st = (td', st', r) \<Longrightarrow> ot_o td' = ot_o td"
  by (auto simp: next_rand_def split: if_splits prod.splits)

lemma rand_or_lfsr_keeps: "rand_or_lfsr env td f l = Some (td', r) \<Longrightarrow> ot_o td' = ot_o td"
  by (auto simp: rand_or_lfsr_def dest: next_rand_keeps split: rand_gen.splits prod.splits bind_splits)

lemma rand_offset0_keeps: "get_next_rand_offset0 env td f d = Some (td', r) \<Longrightarrow> ot_o td' = ot_o td"
  by (auto simp: get_next_rand_offset0_def dest!: rand_or_lfsr_keeps split: if_splits option.splits bind_splits)

lemma off_from_method_keeps: "get_off_from_method env td f d = Some (td', r) \<Longrightarrow> ot_o td' = ot_o td"
  by (auto simp: get_off_from_method_def dest: rand_offset0_keeps split: rand_dist.splits)

lemma rand_batch_keeps: "next_rand_batch n env td f d = Some (td', r) \<Longrightarrow> ot_o td' = ot_o td"
  by (induction n arbitrary: td f) (fastforce dest!: off_from_method_keeps split: option.splits bind_splits)+

lemma fetch_keeps: "fetch_rand td f = Some (td', r) \<Longrightarrow> ot_o td' = ot_o td"
  by (auto simp: fetch_rand_def split: list.splits)

lemma rand_offset_keeps: "get_next_rand_offset env td f d = Some (td', r) \<Longrightarrow> ot_o td' = ot_o td"
  by (fastforce simp: get_next_rand_offset_def dest!: off_from_method_keeps fetch_keeps rand_batch_keeps split: if_splits bind_splits)

lemma rand_block_keeps: "get_next_rand_block env td f d = Some (td', r) \<Longrightarrow> ot_o td' = ot_o td"
  by (fastforce simp: get_next_rand_block_def dest!: rand_offset_keeps split: if_splits bind_splits)

lemma should_do_random_keeps: "should_do_random env td d = (td', r) \<Longrightarrow> ot_o td' = ot_o td"
  by (auto simp: should_do_random_def dest: next_rand_keeps split: if_splits prod.splits)

lemma block_place_keeps: "next_block_place env td f d hit = Some (td', r) \<Longrightarrow> ot_o td' = ot_o td"
  unfolding next_block_place_def rand_result_def Let_def
  by (auto dest!: rand_block_keeps should_do_random_keeps split: if_splits prod.splits bool.splits option.splits rw_seq.splits)

lemma block_keeps: "get_next_block env td f u hit = Some (td', r) \<Longrightarrow> ot_o td' = ot_o td"
  unfolding get_next_block_def Let_def
  by (auto dest!: block_place_keeps split: bind_splits option.splits sum.splits if_splits)

lemma offset_keeps: "get_next_offset env td f u = Some (td', r) \<Longrightarrow> ot_o td' = ot_o td"
  unfolding get_next_offset_def Let_def
  by (auto dest!: block_keeps split: bind_splits if_splits prod.splits)

lemma buflen_loop_keeps:
  assumes "buflen_loop env td f u d = Some y"
  shows "ot_o (fst y) = ot_o td"
proof (rule buflen_loop.raw_induct [where P = "\<lambda>env td f u d y. ot_o (fst y) = ot_o td", OF _ assms], goal_cases)
  case (1 rec env td f u d y)
  obtain td1 st r where n: "next_rand env td (ot_bsrange_state td) = (td1, st, r)" by (rule prod_cases3)
  have k: "ot_o td1 = ot_o td" by (rule next_rand_keeps [OF n])
  show ?case using 1(2) 1(1) [of env "td1\<lparr>ot_bsrange_state := st\<rparr>" f u d y] by (auto simp: n k Let_def split: if_splits)
qed

lemma fill_io_u_keeps:
  assumes "fill_io_u env td f u = Some (td', r)"
  shows "ot_o td' = ot_o td"
proof -
  obtain td0 f0 where z: "next_zone td f = (td0, f0)" by (rule prod.exhaust)
  then have "ot_o td0 = ot_o td" by (auto simp: next_zone_def Let_def split: if_splits)
  moreover obtain td1 x where o: "get_next_offset env td0 f0 u = Some (td1, x)"
    using assms z by (cases "get_next_offset env td0 f0 u") (auto simp: fill_io_u_def)
  moreover have "ot_o td' = ot_o td1"
    using assms z o by (auto simp: fill_io_u_def get_next_buflen_def Let_def dest!: buflen_loop_keeps split: if_splits bind_splits prod.splits)
  ultimately show ?thesis using offset_keeps [OF o] by simp
qed

text \<open>Options with which the search for an offset and a length always returns.\<close>

definition simple_options :: "off_options \<Rightarrow> bool" where
  "simple_options o' \<longleftrightarrow> oo_norandommap o' \<and> oo_random_generator o' = FIO_RAND_GEN_TAUSWORTHE \<and> oo_verifysort_nr o' = 0
     \<and> (\<forall>d. oo_ba o' d \<noteq> 0) \<and> oo_min_bs o' = oo_max_bs o'"

lemma rand_offset_returns: "simple_options (ot_o td) \<Longrightarrow> get_next_rand_offset env td f d \<noteq> None"
  by (auto simp: simple_options_def get_next_rand_offset_def should_sort_io_def get_off_from_method_def get_next_rand_offset0_def
    last_block_def rand_or_lfsr_def free_block_def file_randommap_def Let_def split: rand_dist.splits prod.splits
    dest!: next_rand_keeps)

lemma rand_block_returns:
  assumes "simple_options (ot_o td)"
  shows "get_next_rand_block env td f d \<noteq> None"
proof -
  obtain td1 f1 b where r: "get_next_rand_offset env td f d = Some (td1, f1, b)" using rand_offset_returns [OF assms, of env f d] by auto
  have "simple_options (ot_o td1)" using rand_offset_keeps [OF r] assms by simp
  then show ?thesis using r rand_offset_returns [of td1] by (simp add: get_next_rand_block_def)
qed

lemma block_place_returns:
  assumes "simple_options (ot_o td)"
  shows "next_block_place env td f d hit \<noteq> None"
proof -
  obtain td1 r where d: "should_do_random env td d = (td1, r)" by (rule prod.exhaust)
  then have "simple_options (ot_o td1)" using should_do_random_keeps [OF d] assms by simp
  note ret = rand_block_returns [OF assms, of env _ d] rand_block_returns [OF this, of env _ d]
  show ?thesis using d ret by (auto simp: next_block_place_def rand_result_def Let_def split: prod.splits bool.splits option.splits rw_seq.splits)
qed

lemma fill_io_u_returns:
  assumes "simple_options (ot_o td)"
  shows "fill_io_u env td f u \<noteq> None"
proof -
  obtain td0 f0 where z: "next_zone td f = (td0, f0)" by (rule prod.exhaust)
  then have "ot_o td0 = ot_o td" by (auto simp: next_zone_def Let_def split: if_splits)
  with assms have s0: "simple_options (ot_o td0)" by simp
  obtain td' hit where h: "(if oo_ddir_seq_nr (ot_o td0) \<noteq> 0
            then if ot_ddir_seq_nr td0 - 1 = 0 then (td0\<lparr>ot_ddir_seq_nr := oo_ddir_seq_nr (ot_o td0)\<rparr>, True)
                 else (td0\<lparr>ot_ddir_seq_nr := ot_ddir_seq_nr td0 - 1\<rparr>, False)
            else (td0, False)) = (td', hit)" by (rule prod.exhaust)
  then have "ot_o td' = ot_o td0" by (auto split: if_splits)
  with s0 have s': "simple_options (ot_o td')" by simp
  obtain place where "next_block_place env td' f0 (ou_ddir u) hit = Some place" using block_place_returns [OF s'] by blast
  then have "get_next_offset env td0 f0 u \<noteq> None"
    using h by (cases place) (auto simp: get_next_offset_def get_next_block_def Let_def split: option.splits sum.splits)
  then obtain td1 f1 u1 r e where o: "get_next_offset env td0 f0 u = Some (td1, f1, u1, r, e)" by auto
  have s1: "simple_options (ot_o td1)" using offset_keeps [OF o] s0 by simp
  then show ?thesis using z o by (auto simp: fill_io_u_def get_next_buflen_def simple_options_def file_randommap_def Let_def)
qed

end
