(* ===== verification/IoPool_Correct.thy ===== *)
theory IoPool_Correct
  imports IoPool Offset_Correct "HOL-Library.Multiset"
begin

text \<open>
  The stack and the ring of \<^verbatim>\<open>io_u_queue.h\<close> as implementations of one interface, a bounded
  collection of units; opening, closing and counting the references of files; the operations on units.
\<close>

section \<open>Collections of units\<close>

text \<open>
  \<open>rest i xs\<close> are the units when \<open>i\<close> is the next one to come out and \<open>xs\<close> are left.
\<close>

locale unit_bag =
  fixes ok :: "nat \<Rightarrow> 's \<Rightarrow> bool"
    and items :: "'s \<Rightarrow> nat list"
    and push :: "'s \<Rightarrow> nat \<Rightarrow> 's option"
    and pop :: "'s \<Rightarrow> ('s \<times> nat option) option"
    and empty_test :: "'s \<Rightarrow> bool"
    and rest :: "nat \<Rightarrow> nat list \<Rightarrow> nat list"
  assumes push_ok: "ok c s \<Longrightarrow> length (items s) < c \<Longrightarrow> \<exists>s'. push s i = Some s' \<and> ok c s' \<and> items s' = items s @ [i]"
    and pop_ok: "ok c s \<Longrightarrow> \<not> empty_test s \<Longrightarrow> \<exists>s' i. pop s = Some (s', Some i) \<and> ok c s' \<and> items s = rest i (items s')"
    and empty_iff: "ok c s \<Longrightarrow> empty_test s \<longleftrightarrow> items s = []"
    and mset_rest: "mset (rest i xs) = add_mset i (mset xs)"
begin

lemma push_mset:
  "ok c s \<Longrightarrow> length (items s) < c \<Longrightarrow> \<exists>s'. push s i = Some s' \<and> ok c s' \<and> mset (items s') = add_mset i (mset (items s))"
  using push_ok [of c s i] by auto

lemma pop_mset:
  "ok c s \<Longrightarrow> items s \<noteq> [] \<Longrightarrow> \<exists>s' i. pop s = Some (s', Some i) \<and> ok c s' \<and> mset (items s) = add_mset i (mset (items s'))"
  using pop_ok [of c s] by (force simp: empty_iff mset_rest)

end

subsection \<open>The stack\<close>

definition queue_ok :: "nat \<Rightarrow> io_u_queue \<Rightarrow> bool" where
  "queue_ok c q \<longleftrightarrow> length (iq_io_us q) = c \<and> c < 2 ^ 32 \<and> unat (iq_nr q) \<le> c \<and> None \<notin> set (take (unat (iq_nr q)) (iq_io_us q))"

definition queue_items :: "io_u_queue \<Rightarrow> nat list" where
  "queue_items q = map the (take (unat (iq_nr q)) (iq_io_us q))"

lemma unat_Suc_32: "unat (w :: u32) < 2 ^ 32 - 1 \<Longrightarrow> unat (w + 1) = Suc (unat w)"
  by (subst unat_add_lem [THEN iffD1]) simp_all

interpretation uq: unit_bag queue_ok queue_items io_u_qpush io_u_qpop io_u_qempty "\<lambda>i xs. xs @ [i]"
proof unfold_locales
  fix c s and i :: nat
  assume ok: "queue_ok c s" and less: "length (queue_items s) < c"
  then have n: "unat (iq_nr s) < length (iq_io_us s)" "unat (iq_nr s) < 2 ^ 32 - 1"
    by (auto simp: queue_ok_def queue_items_def)
  then show "\<exists>s'. io_u_qpush s i = Some s' \<and> queue_ok c s' \<and> queue_items s' = queue_items s @ [i]"
    using ok by (auto simp: io_u_qpush_def queue_ok_def queue_items_def unat_Suc_32 take_Suc_conv_app_nth)
next
  fix c s
  assume ok: "queue_ok c s" and "\<not> io_u_qempty s"
  then have nz: "iq_nr s \<noteq> 0" by (simp add: io_u_qempty_def)
  then obtain k where k: "unat (iq_nr s) = Suc k" using unat_eq_0 not0_implies_Suc by blast
  then have m: "unat (iq_nr s - 1) = k" by (simp add: unat_sub word_le_nat_alt)
  have len: "k < length (iq_io_us s)" using ok k by (simp add: queue_ok_def)
  then have t: "take (Suc k) (iq_io_us s) = take k (iq_io_us s) @ [iq_io_us s ! k]" by (rule take_Suc_conv_app_nth)
  have "iq_io_us s ! k \<noteq> None"
  proof
    assume "iq_io_us s ! k = None"
    with t have "None \<in> set (take (Suc k) (iq_io_us s))" by simp
    with ok k show False by (simp add: queue_ok_def)
  qed
  then obtain i where i: "iq_io_us s ! k = Some i" by (cases "iq_io_us s ! k") auto
  show "\<exists>s' i. io_u_qpop s = Some (s', Some i) \<and> queue_ok c s' \<and> queue_items s = queue_items s' @ [i]"
    using ok nz k m len t i by (auto simp: io_u_qpop_def queue_ok_def queue_items_def)
next
  fix c s
  assume "queue_ok c s"
  then show "io_u_qempty s \<longleftrightarrow> queue_items s = []"
    by (auto simp: io_u_qempty_def queue_items_def queue_ok_def unat_eq_0)
qed simp

lemma queue_init: "queue_ok (unat nr) (io_u_qinit nr)" "queue_items (io_u_qinit nr) = []"
  using unsigned_less [of nr] by (simp_all add: queue_ok_def queue_items_def io_u_qinit_def)

subsection \<open>The ring\<close>

text \<open>The shifts smear the highest bit over all lower ones.\<close>

lemma smear:
  assumes "\<And>i. bit x i \<longleftrightarrow> (\<exists>j<d. bit m (i + j))"
  shows "bit (x OR drop_bit d x) i \<longleftrightarrow> (\<exists>j<2 * d. bit (m :: u32) (i + j))"
proof -
  have "(\<exists>j<d. bit m (i + d + j)) \<longleftrightarrow> (\<exists>j. d \<le> j \<and> j < 2 * d \<and> bit m (i + j))"
  proof
    assume "\<exists>j<d. bit m (i + d + j)"
    then obtain j where "j < d" "bit m (i + d + j)" by blast
    then have "d \<le> d + j \<and> d + j < 2 * d \<and> bit m (i + (d + j))" by (simp add: add.assoc)
    then show "\<exists>j. d \<le> j \<and> j < 2 * d \<and> bit m (i + j)" by blast
  next
    assume "\<exists>j. d \<le> j \<and> j < 2 * d \<and> bit m (i + j)"
    then obtain j where "d \<le> j" "j < 2 * d" "bit m (i + j)" by blast
    then have "j - d < d \<and> bit m (i + d + (j - d))" by simp
    then show "\<exists>j<d. bit m (i + d + j)" by blast
  qed
  then have "bit (x OR drop_bit d x) i \<longleftrightarrow> (\<exists>j<d. bit m (i + j)) \<or> (\<exists>j. d \<le> j \<and> j < 2 * d \<and> bit m (i + j))"
    by (simp add: bit_or_iff bit_drop_bit_eq assms add.commute)
  also have "\<dots> \<longleftrightarrow> (\<exists>j<2 * d. bit m (i + j))" by (metis le_less_linear less_le_trans mult_2 le_add1)
  finally show ?thesis .
qed

definition smeared :: "u32 \<Rightarrow> u32" where
  "smeared m = (let m = m OR drop_bit 1 m; m = m OR drop_bit 2 m; m = m OR drop_bit 4 m; m = m OR drop_bit 8 m
     in m OR drop_bit 16 m)"

lemma bit_smeared: "bit (smeared m) i \<longleftrightarrow> (\<exists>j<32. bit m (i + j))"
proof -
  have 1: "bit m i \<longleftrightarrow> (\<exists>j<1. bit m (i + j))" for i by simp
  note 2 = smear [of m 1 m, OF 1, simplified]
  note 4 = smear [OF 2, simplified]
  note 8 = smear [OF 4, simplified]
  note 16 = smear [OF 8, simplified]
  note 32 = smear [OF 16, simplified]
  show ?thesis using 32 by (simp add: smeared_def Let_def)
qed

lemma smeared_mask:
  assumes "m \<noteq> 0"
  shows "\<exists>t<32. smeared m = mask (Suc t) \<and> 2 ^ t \<le> unat m \<and> unat m < 2 ^ Suc t"
proof -
  define t where "t = Max {i. bit m i}"
  have fin: "finite {i. bit m i}" by (rule finite_subset [of _ "{..<32}"]) (auto dest: bit_imp_le_length)
  have ne: "{i. bit m i} \<noteq> {}" using assms by (auto simp: word_eq_0_iff_bit)
  have t: "bit m t" using Max_in [OF fin ne] by (simp add: t_def)
  have top: "i \<le> t" if "bit m i" for i using Max_ge [OF fin] that by (simp add: t_def)
  have "t < 32" using bit_imp_le_length [OF t] by simp
  have "bit (smeared m) i \<longleftrightarrow> i \<le> t" for i
  proof -
    have "(\<exists>j<32. bit m (i + j)) \<longleftrightarrow> i \<le> t"
    proof
      assume "i \<le> t"
      then have "t - i < 32 \<and> bit m (i + (t - i))" using t \<open>t < 32\<close> by simp
      then show "\<exists>j<32. bit m (i + j)" by blast
    qed (use top in \<open>fastforce\<close>)
    then show ?thesis by (simp add: bit_smeared)
  qed
  then have "bit (smeared m) i \<longleftrightarrow> bit (mask (Suc t) :: u32) i" if "i < 32" for i
    unfolding bit_mask_iff using that by (simp only: possible_bit_word less_Suc_eq_le) simp
  then have "smeared m = mask (Suc t)" by (intro bit_eqI) simp
  moreover have "unat m < 2 ^ Suc t" using top by (subst unat_less_pow_iff) fastforce
  moreover have "\<not> unat m < 2 ^ t" using t by (subst unat_less_pow_iff) blast
  ultimately show ?thesis using \<open>t < 32\<close> by (intro exI [of _ t]) simp
qed

lemma ring_max_power:
  assumes "unat nr < 2 ^ 31"
  shows "\<exists>k\<le>31. unat (ring_max nr) = 2 ^ k \<and> unat nr < 2 ^ k \<and> 2 ^ k \<le> 2 * unat nr + 1"
proof (cases "(nr + 1) AND nr = 0")
  case True
  have n1: "unat (nr + 1) = Suc (unat nr)" using assms by (intro unat_Suc_32) simp
  then have "nr + 1 \<noteq> 0" by auto
  then have "is_power_of_2 (nr + 1)" using True by (simp add: is_power_of_2_def)
  then obtain k where k: "k < 32" "unat (nr + 1) = 2 ^ k" using is_power_of_2_exp by blast
  moreover have "ring_max nr = nr + 1" using True by (simp add: ring_max_def)
  ultimately show ?thesis using n1 by (intro exI [of _ k]) simp
next
  case False
  then have "nr \<noteq> 0" by auto
  from smeared_mask [OF this] obtain t where
    t: "t < 32" "smeared nr = mask (Suc t)" "2 ^ t \<le> unat nr" "unat nr < 2 ^ Suc t" by blast
  have "(2 :: nat) ^ t < 2 ^ 31" using t(3) assms by (rule le_less_trans)
  then have "t < 31" by (rule power_less_imp_less_exp [rotated]) simp
  have "ring_max nr = smeared nr + 1" using False by (simp add: ring_max_def smeared_def Let_def)
  also have "\<dots> = 2 ^ Suc t" by (simp add: t(2) mask_eq_exp_minus_1)
  finally have "unat (ring_max nr) = unat (2 ^ Suc t :: u32)" by simp
  also have "\<dots> = 2 ^ Suc t"
  proof -
    have "(2 :: nat) ^ Suc t < 2 ^ 32" using \<open>t < 31\<close> by (intro power_strict_increasing) simp_all
    moreover have "(2 ^ Suc t :: u32) = of_nat (2 ^ Suc t)" by simp
    ultimately show ?thesis by (simp only: unat_of_nat) simp
  qed
  finally show ?thesis using t(3,4) \<open>t < 31\<close> by (intro exI [of _ "Suc t"]) simp
qed

text \<open>The units between the tail and the head, in the order in which they were pushed.\<close>

definition ring_count :: "nat \<Rightarrow> nat \<Rightarrow> nat \<Rightarrow> nat" where
  "ring_count M h t = (if t \<le> h then h - t else h + M - t)"

definition ring_slot :: "io_u_ring \<Rightarrow> nat \<Rightarrow> nat option" where
  "ring_slot r j = ir_ring r ! ((unat (ir_tail r) + j) mod unat (ir_max r))"

definition ring_len :: "io_u_ring \<Rightarrow> nat" where
  "ring_len r = ring_count (unat (ir_max r)) (unat (ir_head r)) (unat (ir_tail r))"

definition ring_items :: "io_u_ring \<Rightarrow> nat list" where
  "ring_items r = map (\<lambda>j. the (ring_slot r j)) [0..<ring_len r]"

definition ring_ok :: "nat \<Rightarrow> io_u_ring \<Rightarrow> bool" where
  "ring_ok c r \<longleftrightarrow> (\<exists>k\<le>31. unat (ir_max r) = 2 ^ k) \<and> length (ir_ring r) = unat (ir_max r) \<and> c < unat (ir_max r)
     \<and> unat (ir_head r) < unat (ir_max r) \<and> unat (ir_tail r) < unat (ir_max r) \<and> ring_len r \<le> c
     \<and> (\<forall>j<ring_len r. ring_slot r j \<noteq> None)"

lemma unat_next_index:
  assumes "k \<le> 31" "unat (m :: u32) = 2 ^ k" "unat x < unat m"
  shows "unat (x + 1) = Suc (unat x)" "unat ((x + 1) AND (m - 1)) = Suc (unat x) mod unat m"
proof -
  have "(2 :: nat) ^ k \<le> 2 ^ 31" using assms(1) by (intro power_increasing) simp_all
  then show s: "unat (x + 1) = Suc (unat x)" using assms by (intro unat_Suc_32) simp
  have "unat (bitval k :: u32) = 2 ^ k" using assms(1) by (intro unat_bitval_32) simp
  then have "m = bitval k" using assms(2) by (simp add: word_unat_eq_iff)
  moreover have "k < 32" using assms(1) by simp
  ultimately show "unat ((x + 1) AND (m - 1)) = Suc (unat x) mod unat m"
    using unat_and_size [of k "x + 1"] s by simp
qed

lemma Suc_mod: "n < M \<Longrightarrow> Suc n mod M = (if Suc n = M then 0 else Suc n)"
  by simp

lemma ring_count_push:
  assumes "h < M" "t < M" "Suc (ring_count M h t) < M"
  shows "Suc h \<noteq> t" "ring_count M (Suc h mod M) t = Suc (ring_count M h t)" "(t + ring_count M h t) mod M = h"
proof -
  show "Suc h \<noteq> t" using assms by (simp add: ring_count_def split: if_splits)
  show "ring_count M (Suc h mod M) t = Suc (ring_count M h t)"
  proof (cases "t \<le> h")
    case True
    then have "Suc (h - t) < M" using assms(3) by (simp add: ring_count_def)
    then have "Suc h = M \<Longrightarrow> 0 < t" "Suc h - t = Suc (h - t)" using True by linarith+
    then show ?thesis unfolding Suc_mod [OF assms(1)] using True assms(1) by (simp add: ring_count_def) linarith
  next
    case False
    then have "Suc h < t" using assms by (simp add: ring_count_def)
    moreover have "Suc h \<noteq> M" using calculation assms(2) by simp
    ultimately show ?thesis unfolding Suc_mod [OF assms(1)] using assms(2) by (simp add: ring_count_def)
  qed
  have "t + ring_count M h t = (if t \<le> h then h else h + M)" using assms by (simp add: ring_count_def)
  then show "(t + ring_count M h t) mod M = h" using assms(1) by simp
qed

lemma ring_count_pop:
  assumes "h < M" "t < M" "h \<noteq> t"
  shows "ring_count M h t = Suc (ring_count M h (Suc t mod M))" "(Suc t mod M + j) mod M = (t + Suc j) mod M"
proof -
  show "ring_count M h t = Suc (ring_count M h (Suc t mod M))"
    unfolding Suc_mod [OF assms(2)] using assms by (auto simp: ring_count_def split: if_splits)
  show "(Suc t mod M + j) mod M = (t + Suc j) mod M" by (simp add: mod_add_left_eq)
qed

lemma ring_index_inj:
  assumes "i < M" "j < M" "t < M" "(t + i) mod M = (t + j) mod M"
  shows "i = (j :: nat)"
proof -
  have s: "(t + i) mod M = (if t + i < M then t + i else t + i - M)" if "i < M" for i
    using that assms(3) by (simp add: mod_if)
  show ?thesis using assms unfolding s [OF assms(1)] s [OF assms(2)] by (simp split: if_splits)
qed

lemma ring_items_push:
  assumes "ring_ok c r" "length (ring_items r) < c"
  shows "\<exists>r'. io_u_rpush r i = Some r' \<and> ring_ok c r' \<and> ring_items r' = ring_items r @ [i]"
proof -
  define M h t n where d: "M = unat (ir_max r)" "h = unat (ir_head r)" "t = unat (ir_tail r)" "n = ring_len r"
  have ok: "length (ir_ring r) = M" "c < M" "h < M" "t < M" "n \<le> c" and slots: "\<forall>j<n. ring_slot r j \<noteq> None"
    using assms(1) by (simp_all add: ring_ok_def d)
  obtain k where k: "k \<le> 31" "M = 2 ^ k" using assms(1) by (auto simp: ring_ok_def d)
  have n: "n < c" "n = ring_count M h t" using assms(2) by (simp_all add: ring_items_def d ring_len_def)
  then have less: "Suc (ring_count M h t) < M" using ok by simp
  note cnt = ring_count_push [OF ok(3,4) less, folded n(2)]
  note nx = unat_next_index [OF k(1) k(2) [unfolded d], of "ir_head r", folded d, OF ok(3)]
  define r' where "r' = r\<lparr>ir_ring := (ir_ring r)[h := Some i], ir_head := (ir_head r + 1) AND (ir_max r - 1)\<rparr>"
  have "ir_head r + 1 \<noteq> ir_tail r" using nx(1) cnt(1) by (auto simp: d)
  then have push: "io_u_rpush r i = Some r'" using ok(1,3) by (simp add: io_u_rpush_def r'_def d)
  have len: "ring_len r' = Suc n" using cnt(2) nx(2) by (simp add: ring_len_def r'_def flip: d)
  have slot: "ring_slot r' j = (if j = n then Some i else ring_slot r j)" if "j \<le> n" for j
  proof -
    have "j < M" "n < M" using that n ok by simp_all
    then have "(t + j) mod M = h \<longleftrightarrow> j = n" using ring_index_inj [of j M n t] ok(4) cnt(3) by auto
    then show ?thesis using ok(1,3) by (auto simp: ring_slot_def r'_def simp flip: d)
  qed
  have items: "ring_items r' = ring_items r @ [i]"
    using slot by (simp add: ring_items_def len flip: d(4))
  have "unat (ir_head r') < M" using nx(2) ok by (simp add: r'_def)
  then have "ring_ok c r'"
    using ok k n(1) slots slot len by (auto simp: ring_ok_def r'_def less_Suc_eq_le simp flip: d)
  with push items show ?thesis by blast
qed

lemma ring_items_pop:
  assumes "ring_ok c r" "\<not> io_u_rempty r"
  shows "\<exists>r' i. io_u_rpop r = Some (r', Some i) \<and> ring_ok c r' \<and> ring_items r = i # ring_items r'"
proof -
  define M h t n where d: "M = unat (ir_max r)" "h = unat (ir_head r)" "t = unat (ir_tail r)" "n = ring_len r"
  have ok: "length (ir_ring r) = M" "c < M" "h < M" "t < M" "n \<le> c" and slots: "\<forall>j<n. ring_slot r j \<noteq> None"
    using assms(1) by (simp_all add: ring_ok_def d)
  obtain k where k: "k \<le> 31" "M = 2 ^ k" using assms(1) by (auto simp: ring_ok_def d)
  have ht: "h \<noteq> t" using assms(2) by (simp add: io_u_rempty_def d word_unat_eq_iff)
  note cnt = ring_count_pop [OF ok(3,4) ht]
  note nx = unat_next_index [OF k(1) k(2) [unfolded d], of "ir_tail r", folded d, OF ok(4)]
  define r' where "r' = r\<lparr>ir_tail := (ir_tail r + 1) AND (ir_max r - 1)\<rparr>"
  have len: "n = Suc (ring_len r')" using cnt(1) nx(2) by (simp add: d(4) ring_len_def r'_def flip: d(1-3))
  have slot: "ring_slot r' j = ring_slot r (Suc j)" for j
    using cnt(2) nx(2) by (simp add: ring_slot_def r'_def flip: d)
  have "ring_slot r 0 \<noteq> None" using slots len by simp
  then obtain i where i: "ir_ring r ! t = Some i" using ok(4) by (auto simp: ring_slot_def simp flip: d)
  have pop: "io_u_rpop r = Some (r', Some i)" using ht ok i by (simp add: io_u_rpop_def r'_def d word_unat_eq_iff)
  have "ring_items r = i # ring_items r'"
  proof -
    have "ring_items r = map (\<lambda>j. the (ring_slot r j)) (0 # map Suc [0..<ring_len r'])"
      unfolding ring_items_def d(4) [symmetric] len by (simp only: map_Suc_upt upt_conv_Cons zero_less_Suc)
    then show ?thesis using i ok(4) by (simp add: ring_items_def slot) (simp add: ring_slot_def flip: d)
  qed
  moreover have "ring_ok c r'"
    using ok k slots len slot nx(2) by (auto simp: ring_ok_def r'_def simp flip: d)
  ultimately show ?thesis using pop by blast
qed

lemma ring_empty: "ring_ok c r \<Longrightarrow> io_u_rempty r \<longleftrightarrow> ring_items r = []"
  by (auto simp: ring_ok_def io_u_rempty_def ring_items_def ring_len_def ring_count_def word_unat_eq_iff)

interpretation ur: unit_bag ring_ok ring_items io_u_rpush io_u_rpop io_u_rempty "(#)"
  by unfold_locales (simp_all add: ring_items_push ring_items_pop ring_empty)

lemma ring_init:
  assumes "unat nr < 2 ^ 31"
  shows "ring_ok (unat nr) (io_u_rinit nr)" "ring_items (io_u_rinit nr) = []"
  using ring_max_power [OF assms] by (auto simp: ring_ok_def io_u_rinit_def ring_items_def ring_len_def ring_count_def)

section \<open>Files\<close>

lemma length_filter_update:
  "i < length xs \<Longrightarrow> length (filter P (xs[i := v])) + (if P (xs ! i) then 1 else 0) = length (filter P xs) + (if P v then 1 else 0)"
proof (induction xs arbitrary: i)
  case (Cons x xs)
  then show ?case by (cases i) auto
qed simp

text \<open>
  A file counts one reference for each unit that uses it, and one for being open until it is closed; it
  is closed for good when the last of them is gone. \<open>uses f\<close> is the number of units.
\<close>

definition file_ok :: "job_file \<Rightarrow> nat \<Rightarrow> bool" where
  "file_ok x n \<longleftrightarrow> unat (jf_references x) = (if jf_open x then n + (if jf_closing x then 0 else 1) else 0)
     \<and> (jf_open x \<or> n = 0) \<and> (jf_open x \<and> jf_closing x \<longrightarrow> 0 < n) \<and> (jf_done x \<longrightarrow> \<not> jf_open x \<or> jf_closing x) \<and> n < 2 ^ 31"

definition files_ok :: "'a file_td_scheme \<Rightarrow> (nat \<Rightarrow> nat) \<Rightarrow> bool" where
  "files_ok td uses \<longleftrightarrow> (\<forall>f<length (ft_files td). file_ok (ft_files td ! f) (uses f))
     \<and> (\<forall>f. 0 < uses f \<longrightarrow> f < length (ft_files td)) \<and> length (ft_files td) < 2 ^ 31 \<and> unat (ft_nr_open_files td) = length (filter jf_open (ft_files td))
     \<and> unat (ft_nr_files td) \<le> length (ft_files td) \<and> ft_next_file td < ft_nr_files td
     \<and> (\<forall>f. ft_service_file td = Some f \<longrightarrow> f < length (ft_files td))"

text \<open>What the operations on files leave alone.\<close>

definition same_job :: "'a file_td_scheme \<Rightarrow> 'a file_td_scheme \<Rightarrow> bool" where
  "same_job td' td \<longleftrightarrow> file_td.more td' = file_td.more td \<and> ft_nr_files td' = ft_nr_files td
     \<and> ft_service_type td' = ft_service_type td \<and> ot_o (ft_off td') = ot_o (ft_off td) \<and> map jf_done (ft_files td') = map jf_done (ft_files td)"

lemma same_job_refl [simp]: "same_job td td" by (simp add: same_job_def)

lemma same_job_trans: "same_job c b \<Longrightarrow> same_job b a \<Longrightarrow> same_job c a" by (simp add: same_job_def)

lemma same_job_length: "same_job td' td \<Longrightarrow> length (ft_files td') = length (ft_files td)"
  unfolding same_job_def by (metis length_map)

lemma same_job_done: "same_job td' td \<Longrightarrow> f < length (ft_files td) \<Longrightarrow> jf_done (ft_files td' ! f) = jf_done (ft_files td ! f)"
  unfolding same_job_def by (metis length_map nth_map)

text \<open>Replacing one file.\<close>

lemma files_ok_set_file:
  assumes "files_ok td uses" "f < length (ft_files td)" "file_ok x n"
    and "unat k + (if jf_open (ft_files td ! f) then 1 else 0) = unat (ft_nr_open_files td) + (if jf_open x then 1 else 0)"
  shows "files_ok (set_file f x (td\<lparr>ft_nr_open_files := k\<rparr>)) (uses(f := n))"
  using assms length_filter_update [OF assms(2), of jf_open x]
  by (auto simp: files_ok_def set_file_def nth_list_update split: if_splits)

lemma same_job_set_file:
  "jf_done x = jf_done (ft_files td ! f) \<Longrightarrow> same_job (set_file f x (td\<lparr>ft_nr_open_files := k\<rparr>)) td"
  by (cases "f < length (ft_files td)") (auto simp: same_job_def set_file_def map_update list_update_beyond list_update_same_conv)

lemma files_okD:
  "files_ok td uses \<Longrightarrow> f < length (ft_files td) \<Longrightarrow> file_ok (ft_files td ! f) (uses f)"
  by (simp add: files_ok_def)

lemma get_file_ok:
  assumes "files_ok td uses" "f < length (ft_files td)" "jf_open (ft_files td ! f)" "Suc (uses f) < 2 ^ 31"
  shows "\<exists>td'. get_file td f = Some td' \<and> files_ok td' (uses(f := Suc (uses f))) \<and> same_job td' td
    \<and> (\<forall>g. jf_open (ft_files td' ! g) = jf_open (ft_files td ! g)) \<and> (\<forall>g. jf_closing (ft_files td' ! g) = jf_closing (ft_files td ! g))"
proof -
  define x where "x = (ft_files td ! f)\<lparr>jf_references := jf_references (ft_files td ! f) + 1\<rparr>"
  note ok = files_okD [OF assms(1,2)]
  have "unat (jf_references (ft_files td ! f)) < 2 ^ 32 - 1" using ok assms(3,4) by (simp add: file_ok_def split: if_splits)
  then have "unat (jf_references (ft_files td ! f) + 1) = Suc (unat (jf_references (ft_files td ! f)))" by (rule unat_Suc_32)
  then have "file_ok x (Suc (uses f))" using ok assms(3,4) by (auto simp: file_ok_def x_def)
  from files_ok_set_file [OF assms(1,2) this, of "ft_nr_open_files td"]
  have "files_ok (set_file f x td) (uses(f := Suc (uses f)))" by (simp add: x_def)
  moreover have "same_job (set_file f x td) td" using same_job_set_file [of x td f "ft_nr_open_files td"] by (simp add: x_def)
  ultimately show ?thesis using assms(2,3)
    by (auto simp: get_file_def x_def set_file_def nth_list_update)
qed

lemma put_file_ok:
  assumes "files_ok td uses" "f < length (ft_files td)" "0 < uses f"
  shows "\<exists>td'. put_file td f = Some td' \<and> files_ok td' (uses(f := uses f - 1)) \<and> same_job td' td
    \<and> (\<forall>g. g \<noteq> f \<longrightarrow> ft_files td' ! g = ft_files td ! g) \<and> (\<not> jf_closing (ft_files td ! f) \<longrightarrow> jf_open (ft_files td' ! f))
    \<and> (\<forall>g. jf_closing (ft_files td' ! g) = jf_closing (ft_files td ! g))"
proof -
  define x where "x = (ft_files td ! f)\<lparr>jf_references := jf_references (ft_files td ! f) - 1\<rparr>"
  note ok = files_okD [OF assms(1,2)]
  then have opn: "jf_open (ft_files td ! f)" using assms(3) by (simp add: file_ok_def split: if_splits)
  have nz: "jf_references (ft_files td ! f) \<noteq> 0" using ok assms(3) opn by (auto simp: file_ok_def)
  then have minus: "unat (jf_references x) = unat (jf_references (ft_files td ! f)) - 1"
    by (simp add: x_def unat_sub word_le_nat_alt unat_gt_0 Suc_le_eq)
  show ?thesis
  proof (cases "jf_references x = 0")
    case True
    then have "unat (jf_references (ft_files td ! f)) = 1" using minus nz by (simp add: unat_eq_0 unat_gt_0 le_Suc_eq)
    then have c: "jf_closing (ft_files td ! f)" "uses f = 1" using ok assms(3) opn by (auto simp: file_ok_def split: if_splits)
    have "file_ok (x\<lparr>jf_open := False\<rparr>) 0" using True by (simp add: file_ok_def)
    moreover have "ft_nr_open_files td \<noteq> 0"
      using assms(1,2) opn by (auto simp: files_ok_def filter_empty_conv unat_eq_0 dest!: nth_mem)
    then have "unat (ft_nr_open_files td - 1) + 1 = unat (ft_nr_open_files td)"
      by (simp add: unat_sub word_le_nat_alt unat_gt_0 Suc_le_eq)
    ultimately have "files_ok (set_file f (x\<lparr>jf_open := False\<rparr>) (td\<lparr>ft_nr_open_files := ft_nr_open_files td - 1\<rparr>)) (uses(f := 0))"
      using opn by (intro files_ok_set_file [OF assms(1,2)]) simp_all
    moreover have "same_job (set_file f (x\<lparr>jf_open := False\<rparr>) (td\<lparr>ft_nr_open_files := ft_nr_open_files td - 1\<rparr>)) td"
      by (rule same_job_set_file) (simp add: x_def)
    ultimately show ?thesis using opn nz c True assms(2)
      by (auto simp: put_file_def x_def set_file_def nth_list_update)
  next
    case False
    then have "1 < unat (jf_references (ft_files td ! f))" using minus unat_gt_0 [of "jf_references x"] by simp
    then have "file_ok x (uses f - 1)" using ok assms(3) opn minus by (auto simp: file_ok_def x_def)
    from files_ok_set_file [OF assms(1,2) this, of "ft_nr_open_files td"]
    have "files_ok (set_file f x td) (uses(f := uses f - 1))" by (simp add: x_def)
    moreover have "same_job (set_file f x td) td" using same_job_set_file [of x td f "ft_nr_open_files td"] by (simp add: x_def)
    ultimately show ?thesis using opn nz False assms(2)
      by (auto simp: put_file_def x_def set_file_def nth_list_update)
  qed
qed


lemma td_io_open_file_ok:
  assumes "files_ok td uses" "f < length (ft_files td)" "\<not> jf_open (ft_files td ! f)" "\<not> jf_done (ft_files td ! f)"
  shows "\<exists>td' err. td_io_open_file env td f = Some (td', err) \<and> files_ok td' uses \<and> same_job td' td
    \<and> ft_next_file td' = ft_next_file td \<and> (\<not> err \<longrightarrow> jf_open (ft_files td' ! f) \<and> \<not> jf_closing (ft_files td' ! f))"
proof (cases "fe_open env (ft_open_calls td) = Open_failed")
  case True
  have "files_ok (td\<lparr>ft_open_calls := Suc (ft_open_calls td)\<rparr>) uses" using assms(1) by (simp add: files_ok_def)
  then show ?thesis using True assms by (auto simp: td_io_open_file_def same_job_def)
next
  case False
  define x where "x = (ft_files td ! f)\<lparr>jf_off := fio_file_reset (ft_off td) (jf_off (ft_files td ! f)), jf_open := True,
    jf_closing := False, jf_references := jf_references (ft_files td ! f) + 1\<rparr>"
  define td1 where "td1 = td\<lparr>ft_open_calls := Suc (ft_open_calls td)\<rparr>"
  define td' where "td' = set_file f x (td1\<lparr>ft_nr_open_files := ft_nr_open_files td + 1\<rparr>)"
  have 1: "files_ok td1 uses" "f < length (ft_files td1)" using assms(1,2) by (simp_all add: files_ok_def td1_def)
  note ok = files_okD [OF assms(1,2)]
  then have z: "jf_references (ft_files td ! f) = 0" "uses f = 0" using assms(3) by (auto simp: file_ok_def unat_eq_0)
  then have "file_ok x (uses f)" using assms(4) by (simp add: file_ok_def x_def)
  moreover have "unat (ft_nr_open_files td + 1) = Suc (unat (ft_nr_open_files td))"
  proof (rule unat_Suc_32)
    have "length (filter jf_open (ft_files td)) < 2 ^ 31"
      using length_filter_le assms(1) unfolding files_ok_def by (blast intro: le_less_trans)
    then show "unat (ft_nr_open_files td) < 2 ^ 32 - 1" using assms(1) by (simp add: files_ok_def)
  qed
  ultimately have "files_ok td' (uses(f := uses f))"
    using assms(3) unfolding td'_def by (intro files_ok_set_file [OF 1]) (simp_all add: td1_def x_def)
  moreover have "same_job td' td1" unfolding td'_def by (rule same_job_set_file) (simp add: x_def td1_def)
  ultimately have "files_ok td' uses" "same_job td' td" by (simp_all add: td1_def same_job_def)
  moreover have "td_io_open_file env td f = Some (td', fe_open env (ft_open_calls td) = Open_refused)"
    using False assms(2,3) by (simp add: td_io_open_file_def get_file_def set_file_def td'_def td1_def x_def)
  moreover have "jf_open (ft_files td' ! f)" "\<not> jf_closing (ft_files td' ! f)" "ft_next_file td' = ft_next_file td"
    using assms(2) by (simp_all add: td'_def td1_def set_file_def x_def)
  ultimately show ?thesis by simp
qed

lemma td_io_close_file_ok:
  assumes "files_ok td uses" "f < length (ft_files td)" "jf_open (ft_files td ! f)" "\<not> jf_closing (ft_files td ! f)"
  shows "\<exists>td'. td_io_close_file td f = Some td' \<and> files_ok td' uses \<and> same_job td' td
    \<and> (jf_open (ft_files td' ! f) \<longrightarrow> jf_closing (ft_files td' ! f))"
proof -
  define x where "x = (ft_files td ! f)\<lparr>jf_closing := True\<rparr>"
  note ok = files_okD [OF assms(1,2)]
  show ?thesis
  proof (cases "uses f = 0")
    case True
    have r: "jf_references (ft_files td ! f) = 1" using ok assms(3,4) True
      by (simp add: file_ok_def word_unat_eq_iff)
    define y where "y = x\<lparr>jf_references := 0, jf_open := False\<rparr>"
    define td' where "td' = set_file f y (td\<lparr>ft_nr_open_files := ft_nr_open_files td - 1\<rparr>)"
    have "file_ok y (uses f)" using ok True by (auto simp: file_ok_def y_def x_def)
    moreover have "ft_nr_open_files td \<noteq> 0"
      using assms(1,2,3) by (auto simp: files_ok_def filter_empty_conv unat_eq_0 dest!: nth_mem)
    then have "unat (ft_nr_open_files td - 1) + 1 = unat (ft_nr_open_files td)"
      by (simp add: unat_sub word_le_nat_alt unat_gt_0 Suc_le_eq)
    ultimately have "files_ok td' (uses(f := uses f))"
      using assms(3) unfolding td'_def by (intro files_ok_set_file [OF assms(1,2)]) (simp_all add: y_def)
    moreover have "same_job td' td" unfolding td'_def by (rule same_job_set_file) (simp add: y_def x_def)
    moreover have "td_io_close_file td f = Some td'" using assms(2,3) r
      by (simp add: td_io_close_file_def put_file_def set_file_def td'_def y_def x_def)
    ultimately show ?thesis using assms(2) by (simp add: td'_def set_file_def y_def)
  next
    case False
    define y where "y = x\<lparr>jf_references := jf_references (ft_files td ! f) - 1\<rparr>"
    have r: "unat (jf_references (ft_files td ! f)) = Suc (uses f)" using ok assms(3,4) by (simp add: file_ok_def)
    then have r1: "unat (jf_references (ft_files td ! f) - 1) = uses f" by (simp add: unat_sub word_le_nat_alt)
    then have "file_ok y (uses f)" using ok assms(3,4) False by (auto simp: file_ok_def y_def x_def)
    then have "files_ok (set_file f y (td\<lparr>ft_nr_open_files := ft_nr_open_files td\<rparr>)) (uses(f := uses f))"
      using assms(3) by (intro files_ok_set_file [OF assms(1,2)]) (simp_all add: y_def x_def)
    moreover have "same_job (set_file f y (td\<lparr>ft_nr_open_files := ft_nr_open_files td\<rparr>)) td"
      by (rule same_job_set_file) (simp add: y_def x_def)
    moreover have "jf_references (ft_files td ! f) \<noteq> 0" "jf_references (ft_files td ! f) - 1 \<noteq> 0" using r r1 False by auto
    then have "td_io_close_file td f = Some (set_file f y td)" using assms(2,3)
      by (simp add: td_io_close_file_def put_file_def set_file_def y_def x_def)
    ultimately show ?thesis using assms(2) by (simp add: set_file_def y_def x_def)
  qed
qed

text \<open>A file that is chosen is open and will stay open.\<close>

definition chosen_ok :: "'a file_td_scheme \<Rightarrow> next_result \<Rightarrow> bool" where
  "chosen_ok td r \<longleftrightarrow> (\<forall>f. r = Next_file f \<longrightarrow>
     f < length (ft_files td) \<and> jf_open (ft_files td ! f) \<and> \<not> jf_closing (ft_files td ! f))"

lemma try_file_ok:
  assumes "files_ok td uses" "f < length (ft_files td)"
  shows "\<exists>td' r. try_file env td f = Some (td', r) \<and> files_ok td' uses \<and> same_job td' td \<and> ft_next_file td' = ft_next_file td
    \<and> (\<forall>r'. r = Some r' \<longrightarrow> chosen_ok td' r')"
proof -
  consider "jf_done (ft_files td ! f) \<or> jf_open (ft_files td ! f) \<or> ft_open_files td \<le> ft_nr_open_files td"
    | "\<not> jf_done (ft_files td ! f)" "\<not> jf_open (ft_files td ! f)" "\<not> ft_open_files td \<le> ft_nr_open_files td" by blast
  then show ?thesis
  proof cases
    case 1
    then show ?thesis using assms by (auto simp: try_file_def chosen_ok_def)
  next
    case 2
    from td_io_open_file_ok [OF assms 2(2,1), of env] obtain td' err where
      o: "td_io_open_file env td f = Some (td', err)" "files_ok td' uses" "same_job td' td" "ft_next_file td' = ft_next_file td"
        "\<not> err \<longrightarrow> jf_open (ft_files td' ! f) \<and> \<not> jf_closing (ft_files td' ! f)" by (elim exE conjE) (rule that)
    have "f < length (ft_files td')" using same_job_length [OF o(3)] assms(2) by simp
    then show ?thesis using 2 o assms(2) by (cases err) (simp_all add: try_file_def chosen_ok_def)
  qed
qed


text \<open>The round robin ends after one round.\<close>

definition rr_advance :: "'a file_td_scheme \<Rightarrow> 'a file_td_scheme" where
  "rr_advance td = td\<lparr>ft_next_file := (if ft_nr_files td \<le> ft_next_file td + 1 then 0 else ft_next_file td + 1)\<rparr>"

lemma rr_advance_ok:
  assumes "files_ok td uses"
  shows "files_ok (rr_advance td) uses" "same_job (rr_advance td) td"
    "unat (ft_next_file (rr_advance td)) = Suc (unat (ft_next_file td)) mod unat (ft_nr_files td)"
    "unat (ft_next_file td) < length (ft_files (rr_advance td))"
proof -
  have n: "unat (ft_next_file td) < unat (ft_nr_files td)" "unat (ft_nr_files td) < 2 ^ 31" "unat (ft_nr_files td) \<le> length (ft_files td)"
    using assms by (simp_all add: files_ok_def word_less_nat_alt)
  have s: "unat (ft_next_file td + 1) = Suc (unat (ft_next_file td))" using n by (intro unat_Suc_32) simp
  show m: "unat (ft_next_file (rr_advance td)) = Suc (unat (ft_next_file td)) mod unat (ft_nr_files td)"
    using n(1) s by (auto simp: rr_advance_def word_le_nat_alt le_Suc_eq)
  then have "ft_next_file (rr_advance td) < ft_nr_files td" using n(1) by (simp add: word_less_nat_alt)
  then show "files_ok (rr_advance td) uses" using assms by (simp add: files_ok_def rr_advance_def)
  show "same_job (rr_advance td) td" "unat (ft_next_file td) < length (ft_files (rr_advance td))"
    using n by (simp_all add: same_job_def rr_advance_def)
qed

lemma next_file_rr_ok:
  assumes "files_ok td uses" "(unat (ft_next_file td) + Suc k) mod unat (ft_nr_files td) = unat old"
  shows "\<exists>td' r. next_file_rr env old td = Some (td', r) \<and> files_ok td' uses \<and> same_job td' td \<and> chosen_ok td' r"
  using assms
proof (induction k arbitrary: td)
  case (0 td)
  note ad = rr_advance_ok [OF 0(1)]
  from try_file_ok [OF ad(1,4), of env] obtain td1 r where
    t: "try_file env (rr_advance td) (unat (ft_next_file td)) = Some (td1, r)" "files_ok td1 uses" "same_job td1 (rr_advance td)"
      "ft_next_file td1 = ft_next_file (rr_advance td)" "\<forall>r'. r = Some r' \<longrightarrow> chosen_ok td1 r'" by (elim exE conjE) (rule that)
  have "ft_next_file td1 = old" using ad(3) t(4) 0(2) by (simp add: word_unat_eq_iff)
  then show ?case using t same_job_trans [OF t(3) ad(2)]
    by (subst next_file_rr.simps) (auto simp: Let_def rr_advance_def chosen_ok_def split: option.splits)
next
  case (Suc k td)
  note ad = rr_advance_ok [OF Suc.prems(1)]
  from try_file_ok [OF ad(1,4), of env] obtain td1 r where
    t: "try_file env (rr_advance td) (unat (ft_next_file td)) = Some (td1, r)" "files_ok td1 uses" "same_job td1 (rr_advance td)"
      "ft_next_file td1 = ft_next_file (rr_advance td)" "\<forall>r'. r = Some r' \<longrightarrow> chosen_ok td1 r'" by (elim exE conjE) (rule that)
  have sj: "same_job td1 td" using same_job_trans [OF t(3) ad(2)] .
  then have "ft_nr_files td1 = ft_nr_files td" by (simp add: same_job_def)
  then have "(unat (ft_next_file td1) + Suc k) mod unat (ft_nr_files td1) = (Suc (unat (ft_next_file td)) + Suc k) mod unat (ft_nr_files td)"
    unfolding t(4) ad(3) by (simp only: mod_add_left_eq)
  then have "(unat (ft_next_file td1) + Suc k) mod unat (ft_nr_files td1) = unat old" using Suc.prems(2) by simp
  from Suc.IH [OF t(2) this] obtain td2 r2 where
    rec: "next_file_rr env old td1 = Some (td2, r2)" "files_ok td2 uses" "same_job td2 td1" "chosen_ok td2 r2" by (elim exE conjE) (rule that)
  show ?case using t rec sj same_job_trans [OF rec(3) sj]
    by (subst next_file_rr.simps) (auto simp: Let_def rr_advance_def chosen_ok_def split: option.splits)
qed

lemma get_next_file_rr_ok:
  assumes "files_ok td uses"
  shows "\<exists>td' r. get_next_file_rr env td = Some (td', r) \<and> files_ok td' uses \<and> same_job td' td \<and> chosen_ok td' r"
proof -
  have "unat (ft_next_file td) < unat (ft_nr_files td)" using assms by (simp add: files_ok_def word_less_nat_alt)
  then have "(unat (ft_next_file td) + Suc (unat (ft_nr_files td) - 1)) mod unat (ft_nr_files td) = unat (ft_next_file td)" by simp
  from next_file_rr_ok [OF assms this] show ?thesis by (simp add: get_next_file_rr_def)
qed

lemma get_next_file_rand_ok:
  assumes "get_next_file_rand env td = Some y" "files_ok td uses"
  shows "files_ok (fst y) uses \<and> same_job (fst y) td \<and> chosen_ok (fst y) (snd y)"
proof -
  have "files_ok td uses \<longrightarrow> files_ok (fst y) uses \<and> same_job (fst y) td \<and> chosen_ok (fst y) (snd y)"
  proof (rule get_next_file_rand.raw_induct [where P = "\<lambda>env td y. files_ok td uses \<longrightarrow>
      files_ok (fst y) uses \<and> same_job (fst y) td \<and> chosen_ok (fst y) (snd y)", OF _ assms(1)], intro impI, goal_cases)
  case (1 rec env td y)
  obtain off st n where nr: "next_rand (fe_off env) (ft_off td) (ft_next_file_state td) = (off, st, n)" by (rule prod_cases3)
  define td0 where "td0 = td\<lparr>ft_off := off, ft_next_file_state := st\<rparr>"
  define f where "f = scale_rand (unat (ft_nr_files td0)) n (rand_bits off)"
  have ok: "files_ok td0 uses" "same_job td0 td" using 1(3) by (simp_all add: files_ok_def same_job_def td0_def next_rand_keeps [OF nr])
  from 1(2) have "try_file env td0 f \<noteq> None" by (cases "try_file env td0 f") (simp_all add: nr td0_def f_def)
  then have "f < length (ft_files td0)" by (auto simp: try_file_def rd_def split: if_splits)
  from try_file_ok [OF ok(1) this, of env] obtain td1 r where
    t: "try_file env td0 f = Some (td1, r)" "files_ok td1 uses" "same_job td1 td0" "\<forall>r'. r = Some r' \<longrightarrow> chosen_ok td1 r'"
    by (elim exE conjE) (rule that)
  have sj: "same_job td1 td" using same_job_trans [OF t(3) ok(2)] .
  show ?case
  proof (cases r)
    case None
    then have "rec env td1 = Some y" using 1(2) t(1) by (simp add: nr td0_def f_def)
    from 1(1) [OF this] t(2) show ?thesis using same_job_trans [OF _ sj] by blast
  next
    case (Some r')
    then have "y = (td1, r')" using 1(2) t(1) by (simp add: nr td0_def f_def)
    then show ?thesis using t Some sj by simp
  qed
qed
  with assms(2) show ?thesis by simp
qed

text \<open>
  Choosing among all files at random may not end, when all of them are done; the other two services return.
\<close>

lemma choose_file_ok:
  assumes "files_ok td uses" "choose_file env td = Some (td', r)"
  shows "files_ok td' uses" "same_job td' td" "chosen_ok td' r"
proof -
  obtain td1 r1 where c: "(if ft_service_type td = FIO_FSERVICE_RANDOM then get_next_file_rand env td else get_next_file_rr env td) = Some (td1, r1)"
    using assms(2) by (auto simp: choose_file_def split: bind_splits)
  have 1: "files_ok td1 uses" "same_job td1 td" "chosen_ok td1 r1"
    using get_next_file_rand_ok [of env td "(td1, r1)" uses] get_next_file_rr_ok [OF assms(1), of env] assms(1) c
    by (auto split: if_splits)
  have "files_ok td' uses \<and> same_job td' td \<and> chosen_ok td' r"
    using assms(2) c 1 by (cases r1) (auto simp: choose_file_def files_ok_def same_job_def chosen_ok_def)
  then show "files_ok td' uses" "same_job td' td" "chosen_ok td' r" by simp_all
qed

lemma choose_file_returns:
  "files_ok td uses \<Longrightarrow> ft_service_type td \<noteq> FIO_FSERVICE_RANDOM \<Longrightarrow> choose_file env td \<noteq> None"
  using get_next_file_rr_ok [of td uses env] by (auto simp: choose_file_def split: next_result.splits)

lemma get_next_file_ok:
  assumes "files_ok td uses" "get_next_file env td = Some (td', r)"
  shows "files_ok td' uses" "same_job td' td" "chosen_ok td' r"
proof -
  have "files_ok td' uses \<and> same_job td' td \<and> chosen_ok td' r"
  proof (cases "choose_file env td = Some (td', r)")
    case True
    then show ?thesis using choose_file_ok [OF assms(1)] by blast
  next
    case False
    define td0 where "td0 = td\<lparr>ft_service_left := ft_service_left td - 1\<rparr>"
    have 0: "files_ok td0 uses" "same_job td0 td" using assms(1) by (simp_all add: files_ok_def same_job_def td0_def)
    show ?thesis
    proof (cases "choose_file env td0 = Some (td', r)")
      case True
      then show ?thesis using choose_file_ok [OF 0(1)] same_job_trans [OF _ 0(2)] by blast
    next
      case never: False
      have "(td' = td \<or> td' = td0) \<and> chosen_ok td r"
        using assms False never
        by (auto simp: get_next_file_def td0_def chosen_ok_def rd_Some_iff files_ok_def split: if_splits option.splits bind_splits)
      then show ?thesis using assms(1) 0 by (auto simp: chosen_ok_def td0_def)
    qed
  qed
  then show "files_ok td' uses" "same_job td' td" "chosen_ok td' r" by simp_all
qed

lemma get_next_file_returns:
  assumes "files_ok td uses" "ft_service_type td \<noteq> FIO_FSERVICE_RANDOM"
  shows "get_next_file env td \<noteq> None"
proof -
  define td0 where "td0 = td\<lparr>ft_service_left := ft_service_left td - 1\<rparr>"
  have 0: "files_ok td0 uses" "ft_service_type td0 \<noteq> FIO_FSERVICE_RANDOM" using assms by (simp_all add: files_ok_def td0_def)
  have "\<forall>f. ft_service_file td = Some f \<longrightarrow> f < length (ft_files td)" "unat (ft_nr_files td) \<le> length (ft_files td)"
    using assms(1) by (simp_all add: files_ok_def)
  then show ?thesis using choose_file_returns [OF assms, of env] choose_file_returns [OF 0, of env]
    by (auto simp: get_next_file_def Let_def td0_def split: option.splits)
qed

end
