(* ===== verification/Job_Correct.thy ===== *)
theory Job_Correct
  imports Job IoPool_Correct
begin

text \<open>
  Every unit of a job is in one place: free, to be done again, or out, with the engine or the main loop.
  The invariant of the step relation without asynchronous verification, what it means for a job, and the
  two ways in which the code breaks it.
\<close>

section \<open>The pool\<close>

definition holds_file :: "nat \<Rightarrow> io_unit \<Rightarrow> bool" where
  "holds_file f u \<longleftrightarrow> un_file u = Some f \<and> \<not> un_free_def u"

definition uses_of :: "job_td \<Rightarrow> nat \<Rightarrow> nat" where
  "uses_of td f = length (filter (holds_file f) (jt_units td))"

text \<open>\<open>out\<close>: the units that are neither free nor to be done again; \<open>fl\<close>: those in flight.\<close>

definition unit_ok :: "bool \<Rightarrow> bool \<Rightarrow> io_unit \<Rightarrow> bool" where
  "unit_ok is_out in_flight u \<longleftrightarrow> un_free u = (\<not> is_out) \<and> \<not> un_free_def u \<and> (is_out \<longrightarrow> un_in_cur_depth u)
     \<and> un_flight u = in_flight \<and> un_end_io u \<noteq> Verify_io_u_async"

definition pool_ok :: "nat \<Rightarrow> nat list \<Rightarrow> nat set \<Rightarrow> job_td \<Rightarrow> bool" where
  "pool_ok n out fl td \<longleftrightarrow> length (jt_units td) = n \<and> n < 2 ^ 30 \<and> queue_ok n (jt_freelist td) \<and> ring_ok n (jt_requeues td)
     \<and> mset (queue_items (jt_freelist td)) + mset (ring_items (jt_requeues td)) + mset out = mset [0..<n]
     \<and> unat (jt_cur_depth td) = length out \<and> fl \<subseteq> set out
     \<and> (\<forall>i<n. unit_ok (i \<in> set out) (i \<in> fl) (jt_units td ! i))
     \<and> (\<forall>i\<in>set (queue_items (jt_freelist td)). un_file (jt_units td ! i) = None)
     \<and> jt_verify_list td = [] \<and> files_ok td (uses_of td)"

lemma more_jt:
  assumes "file_td.more td' = file_td.more td"
  shows "jt_units td' = jt_units td" "jt_freelist td' = jt_freelist td" "jt_requeues td' = jt_requeues td"
    "jt_cur_depth td' = jt_cur_depth td" "jt_verify_list td' = jt_verify_list td" "jt_io_issues td' = jt_io_issues td"
    "jt_latency_target td' = jt_latency_target td" "jt_latency_qd td' = jt_latency_qd td"
  using assms by (cases td; cases td'; simp)+

lemmas same_job_jt = more_jt [OF same_job_def [THEN iffD1, THEN conjunct1]]

lemma uses_of_same_job: "same_job td' td \<Longrightarrow> uses_of td' = uses_of td"
  by (intro ext) (simp add: uses_of_def same_job_jt)

lemma uses_of_le: "uses_of td f \<le> length (jt_units td)"
  by (simp add: uses_of_def)

lemma uses_of_pos: "i < length (jt_units td) \<Longrightarrow> holds_file f (jt_units td ! i) \<Longrightarrow> 0 < uses_of td f"
  by (auto simp: uses_of_def filter_empty_conv)

lemma uses_of_set_unit:
  "i < length (jt_units td) \<Longrightarrow> uses_of (set_unit i u td) f + (if holds_file f (jt_units td ! i) then 1 else 0)
     = uses_of td f + (if holds_file f u then 1 else 0)"
  using length_filter_update [of i "jt_units td" "holds_file f" u] by (simp add: uses_of_def set_unit_def)

lemma uses_of_update:
  assumes "i < length (jt_units td)"
  shows "(\<And>f. holds_file f u = holds_file f (jt_units td ! i)) \<Longrightarrow> uses_of (set_unit i u td) = uses_of td"
    and "holds_file f (jt_units td ! i) \<Longrightarrow> un_file u = None \<Longrightarrow> uses_of (set_unit i u td) = (uses_of td)(f := uses_of td f - 1)"
    and "un_file (jt_units td ! i) = None \<Longrightarrow> holds_file f u \<Longrightarrow> uses_of (set_unit i u td) = (uses_of td)(f := Suc (uses_of td f))"
proof -
  note up = uses_of_set_unit [OF assms, of u]
  show "(\<And>f. holds_file f u = holds_file f (jt_units td ! i)) \<Longrightarrow> uses_of (set_unit i u td) = uses_of td"
    using up by (intro ext) simp
  show "holds_file f (jt_units td ! i) \<Longrightarrow> un_file u = None \<Longrightarrow> uses_of (set_unit i u td) = (uses_of td)(f := uses_of td f - 1)"
  proof (intro ext)
    fix g assume "holds_file f (jt_units td ! i)" "un_file u = None"
    then show "uses_of (set_unit i u td) g = ((uses_of td)(f := uses_of td f - 1)) g"
      using up [of g] by (cases "g = f") (auto simp: holds_file_def)
  qed
  show "un_file (jt_units td ! i) = None \<Longrightarrow> holds_file f u \<Longrightarrow> uses_of (set_unit i u td) = (uses_of td)(f := Suc (uses_of td f))"
  proof (intro ext)
    fix g assume "un_file (jt_units td ! i) = None" "holds_file f u"
    then show "uses_of (set_unit i u td) g = ((uses_of td)(f := Suc (uses_of td f))) g"
      using up [of g] by (cases "g = f") (auto simp: holds_file_def)
  qed
qed

lemma uses_of_cong: "jt_units td' = jt_units td \<Longrightarrow> uses_of td' = uses_of td"
  by (intro ext) (simp add: uses_of_def)

lemma files_ok_cong:
  fixes td td' :: "'a file_td_scheme"
  assumes "ft_files td' = ft_files td" "ft_nr_open_files td' = ft_nr_open_files td" "ft_nr_files td' = ft_nr_files td"
    "ft_next_file td' = ft_next_file td" "ft_service_file td' = ft_service_file td"
  shows "files_ok td' uses = files_ok td uses"
  using assms by (simp add: files_ok_def)

lemma pool_okD:
  assumes "pool_ok n out fl td"
  shows "length (jt_units td) = n" "queue_ok n (jt_freelist td)" "ring_ok n (jt_requeues td)" "files_ok td (uses_of td)"
    "n < 2 ^ 30" "unat (jt_cur_depth td) = length out" "fl \<subseteq> set out"
    "mset (queue_items (jt_freelist td)) + mset (ring_items (jt_requeues td)) + mset out = mset [0..<n]"
  using assms by (simp_all add: pool_ok_def)

lemma pool_ok_unit: "pool_ok n out fl td \<Longrightarrow> i < n \<Longrightarrow> unit_ok (i \<in> set out) (i \<in> fl) (jt_units td ! i)"
  by (simp add: pool_ok_def)

lemma pool_ok_unit_in:
  assumes "pool_ok n out fl td" "i < n" "i \<notin> set out"
  shows "unit_ok False False (jt_units td ! i)"
proof -
  have "i \<notin> fl" using pool_okD(7) [OF assms(1)] assms(3) by blast
  then show ?thesis using pool_ok_unit [OF assms(1,2)] assms(3) by simp
qed

text \<open>The places share no unit.\<close>

lemma pool_ok_places:
  assumes "pool_ok n out fl td"
  shows "set (queue_items (jt_freelist td)) \<union> set (ring_items (jt_requeues td)) \<union> set out = {..<n}"
    "distinct out" "set out \<inter> set (queue_items (jt_freelist td)) = {}" "set out \<inter> set (ring_items (jt_requeues td)) = {}"
    "set (queue_items (jt_freelist td)) \<inter> set (ring_items (jt_requeues td)) = {}"
    "length (queue_items (jt_freelist td)) + length (ring_items (jt_requeues td)) + length out = n"
proof -
  have m: "mset (queue_items (jt_freelist td) @ ring_items (jt_requeues td) @ out) = mset [0..<n]"
    using pool_okD(8) [OF assms] by (simp add: add.assoc)
  have "distinct (queue_items (jt_freelist td) @ ring_items (jt_requeues td) @ out)" using m by (metis distinct_upt mset_eq_imp_distinct_iff)
  then show "distinct out" "set out \<inter> set (queue_items (jt_freelist td)) = {}" "set out \<inter> set (ring_items (jt_requeues td)) = {}"
    "set (queue_items (jt_freelist td)) \<inter> set (ring_items (jt_requeues td)) = {}" by auto
  show "set (queue_items (jt_freelist td)) \<union> set (ring_items (jt_requeues td)) \<union> set out = {..<n}"
    using mset_eq_setD [OF m] by (simp add: Un_assoc atLeast0LessThan)
  show "length (queue_items (jt_freelist td)) + length (ring_items (jt_requeues td)) + length out = n"
    using mset_eq_length [OF m] by simp
qed

lemma pool_ok_out: "pool_ok n out fl td \<Longrightarrow> i \<in> set out \<Longrightarrow> i < n"
  using pool_ok_places(1) by blast

section \<open>The operations\<close>

text \<open>One unit changes, and the others stay as they are.\<close>

lemma units_ok_update:
  assumes "pool_ok n out fl td" "us = (jt_units td)[i := u]" "unit_ok (i \<in> set out') (i \<in> fl') u"
    "\<And>j. j < n \<Longrightarrow> j \<noteq> i \<Longrightarrow> (j \<in> set out') = (j \<in> set out) \<and> (j \<in> fl') = (j \<in> fl)"
  shows "\<forall>j<n. unit_ok (j \<in> set out') (j \<in> fl') (us ! j)"
proof (intro allI impI)
  fix j assume j: "j < n"
  show "unit_ok (j \<in> set out') (j \<in> fl') (us ! j)"
  proof (cases "j = i")
    case True
    then show ?thesis using assms(2,3) j pool_okD(1) [OF assms(1)] by simp
  next
    case False
    then show ?thesis using assms(2) assms(4) [OF j False] pool_ok_unit [OF assms(1) j] by simp
  qed
qed

lemma mset_remove1_move:
  assumes "i \<in> set out" "mset xs + mset ys + mset out = m"
  shows "add_mset i (mset xs) + mset ys + mset (remove1 i out) = m"
proof -
  have "i \<in># mset out" using assms(1) by simp
  then obtain R where "mset out = add_mset i R" by (metis insert_DiffM)
  then show ?thesis using assms(2) by simp
qed

lemma unat_minus_remove1: "i \<in> set out \<Longrightarrow> unat (d :: u32) = length out \<Longrightarrow> unat (d - 1) = length (remove1 i out)"
proof -
  assume i: "i \<in> set out" and d: "unat d = length out"
  have "1 \<le> d" using length_pos_if_in_set [OF i] d by (simp add: word_le_nat_alt Suc_le_eq)
  from unat_sub [OF this] show ?thesis using i d by (simp add: length_remove1)
qed

lemma put_io_u_unfold:
  assumes "i < length (jt_units td)" "\<not> un_free_def (jt_units td ! i)"
  shows "put_io_u td i = do {
     td1 \<leftarrow> (case un_file (jt_units td ! i) of Some f \<Rightarrow> put_file td f | None \<Rightarrow> Some td);
     q \<leftarrow> io_u_qpush (jt_freelist td1) i;
     Some (set_unit i ((jt_units td ! i)\<lparr>un_file := None, un_free_def := False, un_free := True\<rparr>)
       (td1\<lparr>jt_cur_depth := (if un_in_cur_depth (jt_units td ! i) then jt_cur_depth td1 - 1 else jt_cur_depth td1), jt_freelist := q\<rparr>)) }"
  using assms by (simp add: put_io_u_def cong: option.case_cong)

lemma put_io_u_ok:
  assumes "pool_ok n out fl td" "i \<in> set out" "i \<notin> fl"
  shows "\<exists>td'. put_io_u td i = Some td' \<and> pool_ok n (remove1 i out) fl td'"
proof -
  note ok = pool_okD [OF assms(1)] and pl = pool_ok_places [OF assms(1)]
  have i: "i < n" using pool_ok_out [OF assms(1,2)] .
  note un = pool_ok_unit [OF assms(1) i]
  define u' where "u' = (jt_units td ! i)\<lparr>un_file := None, un_free_def := False, un_free := True\<rparr>"
  have nd: "\<not> un_free_def (jt_units td ! i)" "un_in_cur_depth (jt_units td ! i)" using un assms(2) by (simp_all add: unit_ok_def)
  obtain td1 where td1: "(case un_file (jt_units td ! i) of Some f \<Rightarrow> put_file td f | None \<Rightarrow> Some td) = Some td1"
    "files_ok td1 (uses_of (set_unit i u' td))" "same_job td1 td"
  proof (cases "un_file (jt_units td ! i)")
    case None
    have "uses_of (set_unit i u' td) = uses_of td"
      using uses_of_update(1) [of i td u'] i ok(1) None by (simp add: u'_def holds_file_def)
    then show ?thesis using that [of td] None ok(4) by simp
  next
    case (Some f)
    have h: "holds_file f (jt_units td ! i)" using Some nd by (simp add: holds_file_def)
    then have pos: "0 < uses_of td f" using uses_of_pos [of i td f] i ok(1) by simp
    then have "f < length (ft_files td)" using ok(4) by (simp add: files_ok_def)
    from put_file_ok [OF ok(4) this pos] obtain td1 where
      "put_file td f = Some td1" "files_ok td1 ((uses_of td)(f := uses_of td f - 1))" "same_job td1 td" by blast
    moreover have "uses_of (set_unit i u' td) = (uses_of td)(f := uses_of td f - 1)"
      using uses_of_update(2) [of i td f u'] h i ok(1) by (simp add: u'_def)
    ultimately show ?thesis using that [of td1] Some by simp
  qed
  note sj = same_job_jt [OF td1(3)]
  have "length (queue_items (jt_freelist td)) < n" using pl(6) length_pos_if_in_set [OF assms(2)] by linarith
  from uq.push_ok [OF ok(2) this] obtain q where
    q: "io_u_qpush (jt_freelist td) i = Some q" "queue_ok n q" "queue_items q = queue_items (jt_freelist td) @ [i]" by blast
  define td' where "td' = set_unit i u' (td1\<lparr>jt_cur_depth := jt_cur_depth td - 1, jt_freelist := q\<rparr>)"
  have put: "put_io_u td i = Some td'"
    using q(1) i ok(1) nd by (simp add: put_io_u_unfold td1(1) td'_def u'_def sj)
  have units: "jt_units td' = (jt_units td)[i := u']" by (simp add: td'_def set_unit_def sj)
  have bags: "jt_freelist td' = q" "jt_requeues td' = jt_requeues td" by (simp_all add: td'_def set_unit_def sj)
  have mq: "mset (queue_items q) = add_mset i (mset (queue_items (jt_freelist td)))" by (simp add: q(3))
  have "pool_ok n (remove1 i out) fl td'"
    unfolding pool_ok_def
  proof (intro conjI)
    show "mset (queue_items (jt_freelist td')) + mset (ring_items (jt_requeues td')) + mset (remove1 i out) = mset [0..<n]"
      unfolding bags mq by (rule mset_remove1_move [OF assms(2) ok(8)])
    show "unat (jt_cur_depth td') = length (remove1 i out)"
      using unat_minus_remove1 [OF assms(2) ok(6)] by (simp add: td'_def set_unit_def)
    show "fl \<subseteq> set (remove1 i out)" using ok(7) assms(3) pl(2) by auto
    show "\<forall>j<n. unit_ok (j \<in> set (remove1 i out)) (j \<in> fl) (jt_units td' ! j)"
      by (rule units_ok_update [OF assms(1) units]) (use un pl(2) assms(3) in \<open>auto simp: unit_ok_def u'_def\<close>)
    show "\<forall>j\<in>set (queue_items (jt_freelist td')). un_file (jt_units td' ! j) = None"
      using assms(1) q(3) i ok(1) by (auto simp: td'_def set_unit_def sj u'_def pool_ok_def nth_list_update)
    have "uses_of td' = uses_of (set_unit i u' td)" by (rule uses_of_cong) (simp add: units set_unit_def)
    then show "files_ok td' (uses_of td')"
      using td1(2) files_ok_cong [of td' td1] by (simp add: td'_def set_unit_def)
  qed (use assms(1) in \<open>simp_all add: td'_def set_unit_def sj q(2) pool_ok_def\<close>)
  with put show ?thesis by blast
qed

lemma free_no_file:
  assumes "pool_ok n out fl td" "i \<in> set out" "j \<in> set (queue_items (jt_freelist td))"
  shows "un_file ((jt_units td)[i := u] ! j) = None"
proof -
  have "j \<noteq> i" using pool_ok_places(3) [OF assms(1)] assms(2,3) by blast
  then show ?thesis using assms(1,3) by (simp add: pool_ok_def)
qed

lemma pool_ok_set_unit:
  assumes "pool_ok n out fl td" "i \<in> set out" "unit_ok True (i \<in> fl') u" "\<And>f. holds_file f u = holds_file f (jt_units td ! i)"
    "fl' \<subseteq> set out" "fl' - {i} = fl - {i}"
  shows "pool_ok n out fl' (set_unit i u td)"
proof -
  note ok = pool_okD [OF assms(1)] and pl = pool_ok_places [OF assms(1)]
  have i: "i < n" using pool_ok_out [OF assms(1,2)] .
  have units: "jt_units (set_unit i u td) = (jt_units td)[i := u]" by (simp add: set_unit_def)
  have "\<forall>j<n. unit_ok (j \<in> set out) (j \<in> fl') (jt_units (set_unit i u td) ! j)"
    by (rule units_ok_update [OF assms(1) units]) (use assms(2,3,6) in auto)
  moreover have "uses_of (set_unit i u td) = uses_of td" using uses_of_update(1) [of i td u] assms(4) i ok(1) by simp
  moreover have "files_ok (set_unit i u td) (uses_of td)" using ok(4) files_ok_cong [of "set_unit i u td" td] by (simp add: set_unit_def)
  moreover have "\<forall>j\<in>set (queue_items (jt_freelist td)). un_file (jt_units (set_unit i u td) ! j) = None"
    unfolding units using free_no_file [OF assms(1,2)] by blast
  ultimately show ?thesis using assms(1,5) by (simp add: pool_ok_def) (simp add: set_unit_def)
qed

lemma pool_ok_counters [simp]:
  "pool_ok n out fl (td\<lparr>jt_io_issues := a\<rparr>) = pool_ok n out fl td"
  "pool_ok n out fl (td\<lparr>jt_io_blocks := b, jt_io_bytes := c\<rparr>) = pool_ok n out fl td"
  by (simp_all add: pool_ok_def uses_of_def [abs_def] files_ok_def)

lemma clear_io_u_ok:
  assumes "pool_ok n out fl td" "i \<in> set out"
  shows "\<exists>td'. clear_io_u td i = Some td' \<and> pool_ok n (remove1 i out) (fl - {i}) td'"
proof -
  have i: "i < n" "i < length (jt_units td)" using pool_ok_out [OF assms] pool_okD(1) [OF assms(1)] by simp_all
  define td1 where "td1 = set_unit i ((jt_units td ! i)\<lparr>un_flight := False\<rparr>) td"
  have "pool_ok n out (fl - {i}) td1"
    unfolding td1_def using pool_ok_unit [OF assms(1) i(1)] assms(2) pool_okD(7) [OF assms(1)]
    by (intro pool_ok_set_unit [OF assms]) (auto simp: unit_ok_def holds_file_def)
  from put_io_u_ok [OF this assms(2)] show ?thesis using i by (simp add: clear_io_u_def td1_def)
qed

lemma requeue_io_u_ok:
  assumes "pool_ok n out fl td" "i \<in> set out"
  shows "\<exists>td'. requeue_io_u td i = Some td' \<and> pool_ok n (remove1 i out) (fl - {i}) td'"
proof -
  note ok = pool_okD [OF assms(1)] and pl = pool_ok_places [OF assms(1)]
  have i: "i < n" using pool_ok_out [OF assms] .
  note un = pool_ok_unit [OF assms(1) i]
  define u' where "u' = (jt_units td ! i)\<lparr>un_free := True, un_flight := False\<rparr>"
  have "length (ring_items (jt_requeues td)) < n" using pl(6) length_pos_if_in_set [OF assms(2)] by linarith
  from ur.push_ok [OF ok(3) this] obtain r where
    r: "io_u_rpush (jt_requeues td) i = Some r" "ring_ok n r" "ring_items r = ring_items (jt_requeues td) @ [i]" by blast
  define issues where "issues = (case acct_ddir (jt_units td ! i) of
           Rw d \<Rightarrow> if un_flight (jt_units td ! i) then (jt_io_issues td)(d := jt_io_issues td d - 1) else jt_io_issues td
         | Sync \<Rightarrow> jt_io_issues td)"
  define td' where "td' = set_unit i u' (td\<lparr>jt_io_issues := issues, jt_cur_depth := jt_cur_depth td - 1, jt_requeues := r\<rparr>)"
  have requeue: "requeue_io_u td i = Some td'"
    using r(1) i ok(1) un assms(2) by (simp add: requeue_io_u_def td'_def u'_def issues_def unit_ok_def)
  have units: "jt_units td' = (jt_units td)[i := u']" by (simp add: td'_def set_unit_def)
  have bags: "jt_freelist td' = jt_freelist td" "jt_requeues td' = r" by (simp_all add: td'_def set_unit_def)
  have mr: "mset (ring_items r) = add_mset i (mset (ring_items (jt_requeues td)))" by (simp add: r(3))
  have "pool_ok n (remove1 i out) (fl - {i}) td'"
    unfolding pool_ok_def
  proof (intro conjI)
    show "mset (queue_items (jt_freelist td')) + mset (ring_items (jt_requeues td')) + mset (remove1 i out) = mset [0..<n]"
      unfolding bags mr using mset_remove1_move [OF assms(2) ok(8)] by simp
    show "unat (jt_cur_depth td') = length (remove1 i out)"
      using unat_minus_remove1 [OF assms(2) ok(6)] by (simp add: td'_def set_unit_def)
    show "fl - {i} \<subseteq> set (remove1 i out)" using ok(7) pl(2) by auto
    show "\<forall>j<n. unit_ok (j \<in> set (remove1 i out)) (j \<in> fl - {i}) (jt_units td' ! j)"
      by (rule units_ok_update [OF assms(1) units]) (use un pl(2) in \<open>auto simp: unit_ok_def u'_def\<close>)
    show "\<forall>j\<in>set (queue_items (jt_freelist td')). un_file (jt_units td' ! j) = None"
      unfolding units bags using free_no_file [OF assms] by blast
    have "uses_of td' = uses_of (set_unit i u' td)" by (rule uses_of_cong) (simp add: units set_unit_def)
    also have "\<dots> = uses_of td" using uses_of_update(1) [of i td u'] i ok(1) by (simp add: u'_def holds_file_def)
    finally show "files_ok td' (uses_of td')"
      using ok(4) files_ok_cong [of td' td] by (simp add: td'_def set_unit_def)
  qed (use assms(1) in \<open>simp_all add: td'_def set_unit_def r(2) pool_ok_def\<close>)
  with requeue show ?thesis by blast
qed


lemma pool_ok_take:
  assumes "pool_ok n out fl td" "queue_ok n q" "ring_ok n r"
    "mset (queue_items (jt_freelist td)) + mset (ring_items (jt_requeues td)) = add_mset i (mset (queue_items q) + mset (ring_items r))"
    "unit_ok True False u" "\<And>f. holds_file f u = holds_file f (jt_units td ! i)"
    "set (queue_items q) \<subseteq> set (queue_items (jt_freelist td))"
  shows "pool_ok n (i # out) fl (set_unit i u (td\<lparr>jt_cur_depth := jt_cur_depth td + 1, jt_freelist := q, jt_requeues := r\<rparr>))"
    (is "pool_ok _ _ _ ?td'") and "i < n" and "i \<notin> set out"
proof -
  note ok = pool_okD [OF assms(1)] and pl = pool_ok_places [OF assms(1)]
  have "i \<in># mset (queue_items (jt_freelist td)) + mset (ring_items (jt_requeues td))" unfolding assms(4) by simp
  then have "i \<in> set (queue_items (jt_freelist td)) \<union> set (ring_items (jt_requeues td))" by simp
  with pl show i: "i < n" "i \<notin> set out" by blast+
  have units: "jt_units ?td' = (jt_units td)[i := u]" by (simp add: set_unit_def)
  have bags: "jt_freelist ?td' = q" "jt_requeues ?td' = r" by (simp_all add: set_unit_def)
  have m: "mset (queue_items q) + mset (ring_items r) + mset (i # out) = mset [0..<n]"
    using ok(8) unfolding assms(4) by simp
  have "i \<notin> set (queue_items q)"
  proof
    assume "i \<in> set (queue_items q)"
    have "mset (queue_items q @ ring_items r @ i # out) = mset [0..<n]" using m by (simp add: add.assoc)
    then have "distinct (queue_items q @ ring_items r @ i # out)" by (metis distinct_upt mset_eq_imp_distinct_iff)
    with \<open>i \<in> set (queue_items q)\<close> show False by auto
  qed
  show "pool_ok n (i # out) fl ?td'"
    unfolding pool_ok_def
  proof (intro conjI)
    show "mset (queue_items (jt_freelist ?td')) + mset (ring_items (jt_requeues ?td')) + mset (i # out) = mset [0..<n]"
      unfolding bags by (rule m)
    have "length out < n" using pl(6) mset_eq_length [of "queue_items (jt_freelist td) @ ring_items (jt_requeues td)" "i # queue_items q @ ring_items r"] assms(4)
      by simp
    then have "unat (jt_cur_depth td + 1) = Suc (length out)" using ok(5,6) by (subst unat_Suc_32) simp_all
    then show "unat (jt_cur_depth ?td') = length (i # out)" by (simp add: set_unit_def)
    show "fl \<subseteq> set (i # out)" using ok(7) by auto
    show "\<forall>j<n. unit_ok (j \<in> set (i # out)) (j \<in> fl) (jt_units ?td' ! j)"
    proof (rule units_ok_update [OF assms(1) units])
      have "i \<notin> fl" using i(2) ok(7) by blast
      then show "unit_ok (i \<in> set (i # out)) (i \<in> fl) u" using assms(5) by simp
    qed auto
    show "\<forall>j\<in>set (queue_items (jt_freelist ?td')). un_file (jt_units ?td' ! j) = None"
    proof
      fix j assume "j \<in> set (queue_items (jt_freelist ?td'))"
      then have "j \<in> set (queue_items q)" "j \<noteq> i" using \<open>i \<notin> set (queue_items q)\<close> by (auto simp: bags)
      then show "un_file (jt_units ?td' ! j) = None" using assms(1,7) unfolding units by (auto simp: pool_ok_def)
    qed
    have "uses_of ?td' = uses_of (set_unit i u td)" by (rule uses_of_cong) (simp add: units set_unit_def)
    also have "\<dots> = uses_of td" using uses_of_update(1) [of i td u] i ok(1) assms(6) by simp
    finally show "files_ok ?td' (uses_of ?td')"
      using ok(4) files_ok_cong [of ?td' td] by (simp add: set_unit_def)
  qed (use assms(1-3) i in \<open>simp_all add: set_unit_def pool_ok_def\<close>)
qed

text \<open>\<open>__get_io_u\<close> returns a unit unless all of them are out, or the queue is held short for a latency target.\<close>

lemma get_io_u0_ok:
  assumes "pool_ok n out fl td"
  shows "if ring_items (jt_requeues td) = [] \<and> queue_full td then get_io_u0 td = Some (td, None)
    else \<exists>td' i. get_io_u0 td = Some (td', Some i) \<and> i < n \<and> i \<notin> set out \<and> pool_ok n (i # out) fl td'"
proof (cases "ring_items (jt_requeues td) = []")
  case False
  note ok = pool_okD [OF assms]
  have ne: "\<not> io_u_rempty (jt_requeues td)" using False ur.empty_iff [OF ok(3)] by simp
  from ur.pop_ok [OF ok(3) this] obtain r i where
    r: "io_u_rpop (jt_requeues td) = Some (r, Some i)" "ring_ok n r" "ring_items (jt_requeues td) = i # ring_items r" by blast
  define u where "u = (jt_units td ! i)\<lparr>un_free := False, un_free_def := False, un_trimmed := False, un_barrier := False,
              un_ver_list := False, un_error := 0, un_acct_ddir := None, un_in_cur_depth := True\<rparr>"
  have i: "i < n" "i \<notin> set out" using pool_ok_places [OF assms] r(3) by auto
  then have un: "unit_ok False False (jt_units td ! i)" by (rule pool_ok_unit_in [OF assms])
  have "pool_ok n (i # out) fl (set_unit i u (td\<lparr>jt_cur_depth := jt_cur_depth td + 1, jt_freelist := jt_freelist td, jt_requeues := r\<rparr>))"
    by (rule pool_ok_take [OF assms ok(2) r(2)]) (use un r(3) in \<open>auto simp: u_def unit_ok_def holds_file_def\<close>)
  moreover have "get_io_u0 td = Some (set_unit i u (td\<lparr>jt_cur_depth := jt_cur_depth td + 1, jt_freelist := jt_freelist td, jt_requeues := r\<rparr>), Some i)"
    using ne r(1) i(1) ok(1) un by (simp add: get_io_u0_def take_unit_def u_def set_unit_def unit_ok_def)
  ultimately show ?thesis using False i by simp
next
  case True
  note ok = pool_okD [OF assms]
  have em: "io_u_rempty (jt_requeues td)" using True ur.empty_iff [OF ok(3)] by simp
  show ?thesis
  proof (cases "queue_full td")
    case full: True
    then show ?thesis using True em by (simp add: get_io_u0_def take_unit_def)
  next
    case False
    then have "\<not> io_u_qempty (jt_freelist td)" by (simp add: queue_full_def split: if_splits)
    from uq.pop_ok [OF ok(2) this] obtain q i where
      q: "io_u_qpop (jt_freelist td) = Some (q, Some i)" "queue_ok n q" "queue_items (jt_freelist td) = queue_items q @ [i]" by blast
    define u where "u = (jt_units td ! i)\<lparr>un_file := None, un_buflen := 0, un_resid := 0, un_end_io := No_end_io,
              un_free := False, un_free_def := False, un_trimmed := False, un_barrier := False,
              un_ver_list := False, un_error := 0, un_acct_ddir := None, un_in_cur_depth := True\<rparr>"
    have i: "i < n" "i \<notin> set out" using pool_ok_places [OF assms] q(3) by auto
    then have un: "unit_ok False False (jt_units td ! i)" by (rule pool_ok_unit_in [OF assms])
    have nf: "un_file (jt_units td ! i) = None" using assms q(3) by (simp add: pool_ok_def)
    have "pool_ok n (i # out) fl (set_unit i u (td\<lparr>jt_cur_depth := jt_cur_depth td + 1, jt_freelist := q, jt_requeues := jt_requeues td\<rparr>))"
      by (rule pool_ok_take [OF assms q(2) ok(3)]) (use un q(3) nf in \<open>auto simp: u_def unit_ok_def holds_file_def\<close>)
    moreover have "get_io_u0 td = Some (set_unit i u (td\<lparr>jt_cur_depth := jt_cur_depth td + 1, jt_freelist := q, jt_requeues := jt_requeues td\<rparr>), Some i)"
      using em False q(1) i(1) ok(1) un by (simp add: get_io_u0_def take_unit_def u_def set_unit_def unit_ok_def)
    ultimately show ?thesis using False i by simp
  qed
qed

section \<open>The file and the offset of a unit\<close>

definition like_unit :: "io_unit \<Rightarrow> io_unit \<Rightarrow> bool" where
  "like_unit u' u \<longleftrightarrow> un_free u' = un_free u \<and> un_free_def u' = un_free_def u \<and> un_in_cur_depth u' = un_in_cur_depth u
     \<and> un_flight u' = un_flight u \<and> un_end_io u' = un_end_io u"

lemma like_unit_ok: "like_unit u' u \<Longrightarrow> unit_ok a b u' = unit_ok a b u"
  by (simp add: like_unit_def unit_ok_def)

lemma fill_unit_ok:
  assumes "fill_unit env td f u = Some (td', u', err)" "files_ok td uses"
  shows "files_ok td' uses" "same_job td' td" "like_unit u' u" "un_file u' = un_file u"
    "jf_open (ft_files td' ! f) = jf_open (ft_files td ! f)" "jf_closing (ft_files td' ! f) = jf_closing (ft_files td ! f)"
proof -
  obtain d b where db: "fe_ddir env (ft_ddir_calls td) = (d, b)" by (rule prod.exhaust)
  have "files_ok td' uses \<and> same_job td' td \<and> like_unit u' u \<and> un_file u' = un_file u
    \<and> jf_open (ft_files td' ! f) = jf_open (ft_files td ! f) \<and> jf_closing (ft_files td' ! f) = jf_closing (ft_files td ! f)"
  proof (cases "fe_noio env \<or> d = None")
    case True
    define add_zone where "add_zone = (\<lambda>td :: 'a file_td_scheme. td\<lparr>ft_off := (ft_off td)\<lparr>ot_zone_bytes := ot_zone_bytes (ft_off td) + un_buflen u\<rparr>\<rparr>)"
    have "(td' = add_zone td \<or> td' = add_zone (td\<lparr>ft_ddir_calls := Suc (ft_ddir_calls td)\<rparr>)) \<and> like_unit u' u \<and> un_file u' = un_file u"
      using assms(1) db True by (cases "fe_noio env") (auto simp: fill_unit_def Let_def add_zone_def like_unit_def)
    then show ?thesis using assms(2) by (auto simp: add_zone_def files_ok_def same_job_def)
  next
    case False
    then obtain d' where d: "d = Some d'" "\<not> fe_noio env" by auto
    define td0 where "td0 = td\<lparr>ft_ddir_calls := Suc (ft_ddir_calls td)\<rparr>"
    obtain off xo io where x: "f < length (ft_files td)" "ot_o off = ot_o (ft_off td)"
      "td' = set_file f ((ft_files td ! f)\<lparr>jf_off := xo\<rparr>) (td0\<lparr>ft_off := off\<rparr>)" "like_unit u' u" "un_file u' = un_file u"
      using assms(1) d db by (auto simp: fill_unit_def td0_def Let_def like_unit_def rd_Some_iff dest: fill_io_u_keeps split: bind_splits)
    have 1: "files_ok (td0\<lparr>ft_off := off\<rparr>) uses" using assms(2) by (simp add: files_ok_def td0_def)
    have "files_ok (set_file f ((ft_files td ! f)\<lparr>jf_off := xo\<rparr>) ((td0\<lparr>ft_off := off\<rparr>)\<lparr>ft_nr_open_files := ft_nr_open_files td\<rparr>)) (uses(f := uses f))"
      using files_okD [OF assms(2) x(1)] x(1) by (intro files_ok_set_file [OF 1]) (simp_all add: td0_def file_ok_def)
    then show ?thesis using x by (auto simp: td0_def same_job_def set_file_def map_update list_update_same_conv)
  qed
  then show "files_ok td' uses" "same_job td' td" "like_unit u' u" "un_file u' = un_file u"
    "jf_open (ft_files td' ! f) = jf_open (ft_files td ! f)" "jf_closing (ft_files td' ! f) = jf_closing (ft_files td ! f)" by simp_all
qed

text \<open>A unit gets a file that is open, and the file a reference.\<close>

definition got_file :: "'a file_td_scheme \<Rightarrow> io_unit \<Rightarrow> (nat \<Rightarrow> nat) \<Rightarrow> 'a file_td_scheme \<times> io_unit \<times> bool \<Rightarrow> bool" where
  "got_file td u uses = (\<lambda>(td', u', err). file_td.more td' = file_td.more td \<and> like_unit u' u
     \<and> (case un_file u' of
          None \<Rightarrow> files_ok td' uses
        | Some f \<Rightarrow> \<not> err \<and> files_ok td' (uses(f := Suc (uses f)))))"

text \<open>One round of the loop: a file gets a reference, and when it has nothing left, loses it and is done.\<close>

lemma file_round:
  assumes "files_ok td uses" "get_next_file env td = Some (td1, Next_file f)" "\<And>f. uses f < 2 ^ 30"
  obtains td2 where "get_file td1 f = Some td2" "files_ok td2 (uses(f := Suc (uses f)))" "same_job td2 td"
    "f < length (ft_files td2)" "\<not> jf_closing (ft_files td2 ! f)" "\<not> jf_done (ft_files td2 ! f)"
proof -
  note g = get_next_file_ok [OF assms(1,2)]
  have f: "f < length (ft_files td1)" "jf_open (ft_files td1 ! f)" "\<not> jf_closing (ft_files td1 ! f)"
    using g(3) by (simp_all add: chosen_ok_def)
  have "Suc (uses f) < 2 ^ 31" using assms(3) [of f] by simp
  from get_file_ok [OF g(1) f(1,2) this] obtain td2 where
    t2: "get_file td1 f = Some td2" "files_ok td2 (uses(f := Suc (uses f)))" "same_job td2 td1"
      "\<forall>g. jf_open (ft_files td2 ! g) = jf_open (ft_files td1 ! g)" "\<forall>g. jf_closing (ft_files td2 ! g) = jf_closing (ft_files td1 ! g)"
    by (elim exE conjE) (rule that)
  have f2: "f < length (ft_files td2)" "\<not> jf_closing (ft_files td2 ! f)" "jf_open (ft_files td2 ! f)"
    using f t2(4,5) same_job_length [OF t2(3)] by simp_all
  have "\<not> jf_done (ft_files td2 ! f)" using files_okD [OF t2(2) f2(1)] f2(2,3) by (simp add: file_ok_def)
  with that t2(1,2) f2 same_job_trans [OF t2(3) g(2)] show ?thesis by blast
qed

lemma drop_file:
  assumes "files_ok td (uses(f := Suc (uses f)))" "f < length (ft_files td)" "\<not> jf_closing (ft_files td ! f)"
  obtains td1 td2 where "put_file td f = Some td1" "td_io_close_file td1 f = Some td2" "f < length (ft_files td2)" "same_job td2 td"
    "\<And>n. files_ok (set_file f ((ft_files td2 ! f)\<lparr>jf_done := True\<rparr>) td2\<lparr>ft_nr_done_files := n\<rparr>) uses"
proof -
  from put_file_ok [OF assms(1,2)] obtain td1 where
    t1: "put_file td f = Some td1" "files_ok td1 uses" "same_job td1 td" "jf_open (ft_files td1 ! f)" "\<not> jf_closing (ft_files td1 ! f)"
    using assms(3) by auto
  have f1: "f < length (ft_files td1)" using assms(2) same_job_length [OF t1(3)] by simp
  from td_io_close_file_ok [OF t1(2) f1 t1(4,5)] obtain td2 where
    t2: "td_io_close_file td1 f = Some td2" "files_ok td2 uses" "same_job td2 td1"
      "jf_open (ft_files td2 ! f) \<longrightarrow> jf_closing (ft_files td2 ! f)" by blast
  have f2: "f < length (ft_files td2)" using f1 same_job_length [OF t2(3)] by simp
  define x where "x = (ft_files td2 ! f)\<lparr>jf_done := True\<rparr>"
  have "file_ok x (uses f)" using files_okD [OF t2(2) f2] t2(4) by (auto simp: file_ok_def x_def)
  then have "files_ok (set_file f x (td2\<lparr>ft_nr_open_files := ft_nr_open_files td2\<rparr>)) (uses(f := uses f))"
    by (intro files_ok_set_file [OF t2(2) f2]) (simp_all add: x_def)
  then have "files_ok (set_file f x td2\<lparr>ft_nr_done_files := n\<rparr>) uses" for n by (simp add: files_ok_def)
  with that t1(1) t2(1) f2 same_job_trans [OF t2(3) t1(3)] show ?thesis by (simp add: x_def)
qed

lemma set_io_u_file_ok:
  assumes "set_io_u_file env td u = Some y" "files_ok td uses" "un_file u = None" "\<And>f. uses f < 2 ^ 30"
  shows "got_file td u uses y"
proof -
  have "files_ok td uses \<and> un_file u = None \<longrightarrow> got_file td u uses y"
  proof (rule set_io_u_file.raw_induct [where P = "\<lambda>env td u y. files_ok td uses \<and> un_file u = None \<longrightarrow> got_file td u uses y", OF _ assms(1)],
      intro impI, goal_cases)
    case (1 rec env td u y)
    then have ok: "files_ok td uses" and none: "un_file u = None" by simp_all
    obtain td1 r where nf: "get_next_file env td = Some (td1, r)" using 1(2) by (cases "get_next_file env td") auto
    note g = get_next_file_ok [OF ok nf]
    show ?case
    proof (cases r)
      case (Next_file f)
      from file_round [OF ok nf [unfolded Next_file] assms(4)] obtain td2 where
        t2: "get_file td1 f = Some td2" "files_ok td2 (uses(f := Suc (uses f)))" "same_job td2 td"
          "f < length (ft_files td2)" "\<not> jf_closing (ft_files td2 ! f)" "\<not> jf_done (ft_files td2 ! f)" .
      obtain td3 u3 err where fu: "fill_unit env td2 f (u\<lparr>un_file := Some f\<rparr>) = Some (td3, u3, err)"
        using 1(2) nf Next_file t2(1) by (cases "fill_unit env td2 f (u\<lparr>un_file := Some f\<rparr>)") auto
      note t3 = fill_unit_ok [OF fu t2(2)]
      have like: "like_unit u3 u" using t3(3) by (simp add: like_unit_def)
      have more: "file_td.more td3 = file_td.more td" using t2(3) t3(2) by (simp add: same_job_def)
      show ?thesis
      proof (cases err)
        case False
        then have "y = (td3, u3, False)" using 1(2) nf Next_file t2(1) fu by simp
        then show ?thesis using t3 like more by (simp add: got_file_def)
      next
        case True
        have f3: "f < length (ft_files td3)" "\<not> jf_closing (ft_files td3 ! f)"
          using t2(4,5) t3(6) same_job_length [OF t3(2)] by simp_all
        obtain td4 td5 where t5: "put_file td3 f = Some td4" "td_io_close_file td4 f = Some td5" "f < length (ft_files td5)" "same_job td5 td3"
          "files_ok (set_file f ((ft_files td5 ! f)\<lparr>jf_done := True\<rparr>) td5\<lparr>ft_nr_done_files := ft_nr_done_files td5 + 1\<rparr>) uses"
          by (rule drop_file [OF t3(1) f3]) blast
        then have "got_file (set_file f ((ft_files td5 ! f)\<lparr>jf_done := True\<rparr>) td5\<lparr>ft_nr_done_files := ft_nr_done_files td5 + 1\<rparr>) (u3\<lparr>un_file := None\<rparr>) uses y"
          using 1(1,2) nf Next_file t2(1) fu True by simp
        moreover have "like_unit u' (u3\<lparr>un_file := None\<rparr>) \<Longrightarrow> like_unit u' u" for u' using like by (simp add: like_unit_def)
        ultimately show ?thesis using more t5(4) unfolding got_file_def by (auto simp: same_job_def set_file_def split: prod.splits)
      qed
    qed (use 1(2) nf g none in \<open>auto simp: got_file_def like_unit_def same_job_def\<close>)
  qed
  with assms(2,3) show ?thesis by simp
qed

text \<open>With such options the search ends: each round finishes one more file.\<close>

lemma fill_unit_returns:
  assumes "simple_options (ot_o (ft_off td))" "f < length (ft_files td)"
  shows "fill_unit env td f u \<noteq> None"
proof -
  obtain d b where d: "fe_ddir env (ft_ddir_calls td) = (d, b)" by (rule prod.exhaust)
  show ?thesis
  proof (cases d)
    case (Some d')
    obtain off xo io err where "fill_io_u (fe_off env) (ft_off td) (jf_off (ft_files td ! f))
      \<lparr>ou_offset = un_offset u, ou_buflen = un_buflen u, ou_ddir = d', ou_busy_ok = un_busy_ok u\<rparr> = Some (off, xo, io, err)"
      using fill_io_u_returns [OF assms(1)] by fastforce
    then show ?thesis using d Some assms(2) by (simp add: fill_unit_def Let_def del: not_None_eq)
  qed (use d in \<open>simp add: fill_unit_def Let_def del: not_None_eq\<close>)
qed

lemma set_io_u_file_returns:
  assumes "files_ok td uses" "\<And>f. uses f < 2 ^ 30" "ft_service_type td \<noteq> FIO_FSERVICE_RANDOM" "simple_options (ot_o (ft_off td))"
  shows "set_io_u_file env td u \<noteq> None"
  using assms
proof (induction "length (filter (\<lambda>x. \<not> jf_done x) (ft_files td))" arbitrary: td u rule: less_induct)
  case less
  obtain td1 r where nf: "get_next_file env td = Some (td1, r)" using get_next_file_returns [OF less.prems(1,3), of env] by auto
  show ?case
  proof (cases r)
    case (Next_file f)
    from file_round [OF less.prems(1) nf [unfolded Next_file] less.prems(2)] obtain td2 where
      t2: "get_file td1 f = Some td2" "files_ok td2 (uses(f := Suc (uses f)))" "same_job td2 td"
        "f < length (ft_files td2)" "\<not> jf_closing (ft_files td2 ! f)" "\<not> jf_done (ft_files td2 ! f)" .
    have "simple_options (ot_o (ft_off td2))" using t2(3) less.prems(4) by (simp add: same_job_def)
    from fill_unit_returns [OF this t2(4)] obtain td3 u3 err where fu: "fill_unit env td2 f (u\<lparr>un_file := Some f\<rparr>) = Some (td3, u3, err)"
      by fastforce
    note t3 = fill_unit_ok [OF fu t2(2)]
    have f3: "f < length (ft_files td3)" "\<not> jf_closing (ft_files td3 ! f)" "\<not> jf_done (ft_files td3 ! f)"
      using t2(4-6) t3(6) same_job_length [OF t3(2)] same_job_done [OF t3(2)] by simp_all
    obtain td4 td5 where t5: "put_file td3 f = Some td4" "td_io_close_file td4 f = Some td5" "f < length (ft_files td5)" "same_job td5 td3"
      "files_ok (set_file f ((ft_files td5 ! f)\<lparr>jf_done := True\<rparr>) td5\<lparr>ft_nr_done_files := ft_nr_done_files td5 + 1\<rparr>) uses"
      by (rule drop_file [OF t3(1) f3(1,2)]) blast
    define td6 where "td6 = set_file f ((ft_files td5 ! f)\<lparr>jf_done := True\<rparr>) td5\<lparr>ft_nr_done_files := ft_nr_done_files td5 + 1\<rparr>"
    have nd: "length (filter (\<lambda>x. \<not> jf_done x) xs) = length (filter Not (map jf_done xs))" for xs by (simp add: filter_map comp_def)
    have "map jf_done (ft_files td5) = map jf_done (ft_files td)" using t2(3) t3(2) t5(4) by (simp add: same_job_def)
    then have "length (filter (\<lambda>x. \<not> jf_done x) (ft_files td5)) = length (filter (\<lambda>x. \<not> jf_done x) (ft_files td))"
      unfolding nd by simp
    moreover have "\<not> jf_done (ft_files td5 ! f)" using same_job_done [OF t5(4) f3(1)] f3(3) by simp
    ultimately have less_done: "length (filter (\<lambda>x. \<not> jf_done x) (ft_files td6)) < length (filter (\<lambda>x. \<not> jf_done x) (ft_files td))"
      using length_filter_update [OF t5(3), of "\<lambda>x. \<not> jf_done x" "(ft_files td5 ! f)\<lparr>jf_done := True\<rparr>"] by (simp add: td6_def set_file_def)
    have "ft_service_type td6 \<noteq> FIO_FSERVICE_RANDOM" "simple_options (ot_o (ft_off td6))"
      using less.prems(3,4) t2(3) t3(2) t5(4) by (simp_all add: td6_def set_file_def same_job_def)
    from less.hyps [OF less_done t5(5) [folded td6_def] less.prems(2) this] have "set_io_u_file env td6 (u3\<lparr>un_file := None\<rparr>) \<noteq> None" .
    then show ?thesis using nf Next_file t2(1) fu t5(1,2,3) by (subst set_io_u_file.simps) (simp add: td6_def del: not_None_eq)
  qed (use nf in \<open>subst set_io_u_file.simps, simp\<close>)+
qed

lemma pool_file_open:
  assumes "pool_ok n out fl td" "i < n" "un_file (jt_units td ! i) = Some f"
  shows "f < length (ft_files td)" "jf_open (ft_files td ! f)"
proof -
  note ok = pool_okD [OF assms(1)]
  have "holds_file f (jt_units td ! i)" using pool_ok_unit [OF assms(1,2)] assms(3) by (simp add: holds_file_def unit_ok_def)
  then have pos: "0 < uses_of td f" using uses_of_pos [of i td f] assms(2) ok(1) by simp
  then show f: "f < length (ft_files td)" using ok(4) by (simp add: files_ok_def)
  from files_okD [OF ok(4) f] pos show "jf_open (ft_files td ! f)" by (simp add: file_ok_def split: if_splits)
qed

lemma pool_ok_got_file:
  assumes "pool_ok n out fl td" "i \<in> set out" "un_file (jt_units td ! i) = None"
    and "got_file td (jt_units td ! i) (uses_of td) (td2, u2, err)"
  shows "pool_ok n out fl (set_unit i u2 td2)"
proof -
  note ok = pool_okD [OF assms(1)] and pl = pool_ok_places [OF assms(1)]
  have i: "i < n" using pool_ok_out [OF assms(1,2)] .
  note un = pool_ok_unit [OF assms(1) i]
  have like: "like_unit u2 (jt_units td ! i)" and more: "file_td.more td2 = file_td.more td" using assms(4) by (simp_all add: got_file_def)
  note jt = more_jt [OF more]
  have units: "jt_units (set_unit i u2 td2) = (jt_units td)[i := u2]" by (simp add: set_unit_def jt)
  have "\<forall>j<n. unit_ok (j \<in> set out) (j \<in> fl) (jt_units (set_unit i u2 td2) ! j)"
    by (rule units_ok_update [OF assms(1) units]) (use like_unit_ok [OF like] un in auto)
  moreover have "files_ok (set_unit i u2 td2) (uses_of (set_unit i u2 td2))"
  proof -
    have "uses_of (set_unit i u2 td2) = uses_of (set_unit i u2 td)" by (rule uses_of_cong) (simp add: set_unit_def jt)
    moreover have "files_ok td2 (uses_of (set_unit i u2 td))"
    proof (cases "un_file u2")
      case None
      then have "uses_of (set_unit i u2 td) = uses_of td"
        using uses_of_update(1) [of i td u2] i ok(1) assms(3) by (simp add: holds_file_def)
      then show ?thesis using assms(4) None by (simp add: got_file_def)
    next
      case (Some f)
      then have "holds_file f u2" using like un by (simp add: holds_file_def like_unit_def unit_ok_def)
      then have "uses_of (set_unit i u2 td) = (uses_of td)(f := Suc (uses_of td f))"
        using uses_of_update(3) [of i td f u2] i ok(1) assms(3) by simp
      then show ?thesis using assms(4) Some by (simp add: got_file_def)
    qed
    ultimately show ?thesis using files_ok_cong [of "set_unit i u2 td2" td2] by (simp add: set_unit_def)
  qed
  moreover have "\<forall>j\<in>set (queue_items (jt_freelist td)). un_file (jt_units (set_unit i u2 td2) ! j) = None"
    unfolding units using free_no_file [OF assms(1,2)] by blast
  ultimately show ?thesis using assms(1) by (simp add: pool_ok_def) (simp add: set_unit_def jt)
qed

definition got_ok :: "nat \<Rightarrow> nat list \<Rightarrow> nat set \<Rightarrow> job_td \<times> get_result \<Rightarrow> bool" where
  "got_ok n out fl = (\<lambda>(td, r). case r of
      Got i \<Rightarrow> i < n \<and> i \<notin> set out \<and> pool_ok n (i # out) fl td \<and> un_file (jt_units td ! i) \<noteq> None
    | _ \<Rightarrow> pool_ok n out fl td)"

lemma put_fresh:
  assumes "pool_ok n (i # out) fl td" "i \<notin> fl"
  shows "\<exists>td'. put_io_u td i = Some td' \<and> pool_ok n out fl td'"
  using put_io_u_ok [OF assms(1) _ assms(2)] by simp

lemma prep_unit_ok:
  assumes "pool_ok n (i # out) fl td" "i < n" "i \<notin> set out" "i \<notin> fl" "un_file (jt_units td ! i) \<noteq> None"
  shows "\<exists>y. prep_unit td i prep = Some y \<and> got_ok n out fl y"
  using put_fresh [OF assms(1,4)] assms pool_okD(1) [OF assms(1)] by (auto simp: prep_unit_def got_ok_def)

lemma pool_ok_file_off:
  assumes "pool_ok n out fl td" "f < length (ft_files td)"
  shows "pool_ok n out fl (set_file f ((ft_files td ! f)\<lparr>jf_off := xo\<rparr>) td)"
proof -
  note ok = pool_okD [OF assms(1)]
  have "file_ok ((ft_files td ! f)\<lparr>jf_off := xo\<rparr>) (uses_of td f)" using files_okD [OF ok(4) assms(2)] by (simp add: file_ok_def)
  then have "files_ok (set_file f ((ft_files td ! f)\<lparr>jf_off := xo\<rparr>) (td\<lparr>ft_nr_open_files := ft_nr_open_files td\<rparr>)) ((uses_of td)(f := uses_of td f))"
    by (intro files_ok_set_file [OF ok(4) assms(2)]) simp_all
  moreover have "uses_of (set_file f x td) = uses_of td" for x by (rule uses_of_cong) (simp add: set_file_def)
  ultimately show ?thesis using assms(1) by (simp add: pool_ok_def) (simp add: set_file_def)
qed

lemma get_io_u0_files:
  "get_io_u0 td = Some (td', r) \<Longrightarrow> ft_service_type td' = ft_service_type td \<and> ft_off td' = ft_off td"
  by (auto simp: get_io_u0_def take_unit_def set_unit_def split: if_splits bind_splits option.splits)

lemma get_io_u_ok:
  assumes "pool_ok n out fl td"
  shows "(get_io_u env td prep = None \<and> (ft_service_type td = FIO_FSERVICE_RANDOM \<or> \<not> simple_options (ot_o (ft_off td)))) \<or> (\<exists>y. get_io_u env td prep = Some y \<and> got_ok n out fl y)"
proof (cases "ring_items (jt_requeues td) = [] \<and> queue_full td")
  case True
  then have "get_io_u0 td = Some (td, None)" using get_io_u0_ok [OF assms] by simp
  then show ?thesis using assms by (simp add: get_io_u_def got_ok_def)
next
  case False
  then obtain td1 i where g: "get_io_u0 td = Some (td1, Some i)" "i < n" "i \<notin> set out" "pool_ok n (i # out) fl td1"
    using get_io_u0_ok [OF assms] by auto
  note ok1 = pool_okD [OF g(4)]
  have nfl: "i \<notin> fl" using g(3) pool_okD(7) [OF assms] by blast
  show ?thesis
  proof (cases "un_file (jt_units td1 ! i)")
    case (Some f)
    then show ?thesis using prep_unit_ok [OF g(4,2,3) nfl, of prep] g(1,2) ok1(1) by (simp add: get_io_u_def)
  next
    case None
    show ?thesis
    proof (cases "set_io_u_file env td1 (jt_units td1 ! i)")
      case none: None
      then have get: "get_io_u env td prep = None" using g(1,2) ok1(1) None by (simp add: get_io_u_def)
      have "uses_of td1 f < 2 ^ 30" for f using uses_of_le [of td1 f] ok1(1,5) by linarith
      then have "ft_service_type td1 = FIO_FSERVICE_RANDOM \<or> \<not> simple_options (ot_o (ft_off td1))"
        using set_io_u_file_returns [OF ok1(4), of env] none by blast
      then show ?thesis using get get_io_u0_files [OF g(1)] by simp
    next
      case (Some y)
      obtain td2 u2 err where y: "y = (td2, u2, err)" by (rule prod_cases3)
      have "uses_of td1 f < 2 ^ 30" for f using uses_of_le [of td1 f] ok1(1,5) by linarith
      then have gf: "got_file td1 (jt_units td1 ! i) (uses_of td1) (td2, u2, err)"
        using set_io_u_file_ok [OF Some ok1(4) None] y by simp
      define td3 where "td3 = set_unit i u2 td2"
      have p3: "pool_ok n (i # out) fl td3" unfolding td3_def by (rule pool_ok_got_file [OF g(4) _ None gf]) simp
      have jt: "length (jt_units td2) = n" using more_jt(1) [of td2 td1] gf ok1(1) by (simp add: got_file_def)
      then have u3: "jt_units td3 ! i = u2" using g(2) by (simp add: td3_def set_unit_def)
      from put_fresh [OF p3 nfl] obtain td4 where put: "put_io_u td3 i = Some td4" "pool_ok n out fl td4" by blast
      have get: "get_io_u env td prep =
          (if err then Some (td4, Got_busy)
           else (case un_file u2 of None \<Rightarrow> Some (td4, Got_none)
             | Some f \<Rightarrow> do {
                x \<leftarrow> rd (ft_files td3) f;
                _ \<leftarrow> c_assert (jf_open x);
                if un_ddir u2 \<noteq> Sync \<and> un_buflen u2 = 0 \<and> \<not> fe_noio env then Some (td4, Got_none)
                else let x = (case un_ddir u2 of
                          Sync \<Rightarrow> x
                        | Rw d \<Rightarrow> x\<lparr>jf_off := (jf_off x)\<lparr>of_last_start := un_offset u2, of_last_pos := un_offset u2 + un_buflen u2\<rparr>\<rparr>)
                     in prep_unit (set_unit i (u2\<lparr>un_xfer_buflen := un_buflen u2\<rparr>) (set_file f x td3)) i prep }))"
        using g(1,2) ok1(1) None Some y put(1) by (simp add: get_io_u_def td3_def [symmetric] cong: option.case_cong if_cong)
      show ?thesis
      proof (cases "err \<or> un_file u2 = None \<or> (un_ddir u2 \<noteq> Sync \<and> un_buflen u2 = 0 \<and> \<not> fe_noio env)")
        case True
        then show ?thesis using get put(2) pool_file_open [OF p3 g(2)] u3 by (cases "un_file u2") (auto simp: got_ok_def)
      next
        case False
        then obtain f where f: "un_file u2 = Some f" "\<not> err" by auto
        have fo: "f < length (ft_files td3)" "jf_open (ft_files td3 ! f)" using pool_file_open [OF p3 g(2)] u3 f(1) by simp_all
        define x where "x = (case un_ddir u2 of
                          Sync \<Rightarrow> ft_files td3 ! f
                        | Rw d \<Rightarrow> (ft_files td3 ! f)\<lparr>jf_off := (jf_off (ft_files td3 ! f))\<lparr>of_last_start := un_offset u2, of_last_pos := un_offset u2 + un_buflen u2\<rparr>\<rparr>)"
        have "x = (ft_files td3 ! f)\<lparr>jf_off := jf_off x\<rparr>" by (simp add: x_def split: io_ddir.splits)
        with pool_ok_file_off [OF p3 fo(1), of "jf_off x"] have p4: "pool_ok n (i # out) fl (set_file f x td3)" by simp
        have u4: "jt_units (set_file f x td3) = jt_units td3" by (simp add: set_file_def)
        have p5: "pool_ok n (i # out) fl (set_unit i (u2\<lparr>un_xfer_buflen := un_buflen u2\<rparr>) (set_file f x td3))"
          using pool_ok_unit [OF p4 g(2)] nfl pool_okD(7) [OF p4]
          by (intro pool_ok_set_unit [OF p4]) (auto simp: u4 u3 unit_ok_def holds_file_def)
        have "un_file (jt_units (set_unit i (u2\<lparr>un_xfer_buflen := un_buflen u2\<rparr>) (set_file f x td3)) ! i) \<noteq> None"
          using g(2) jt f(1) by (simp add: set_unit_def set_file_def td3_def)
        from prep_unit_ok [OF p5 g(2,3) nfl this, of prep] show ?thesis
          using get False f fo by (auto simp: Let_def x_def [symmetric])
      qed
    qed
  qed
qed


section \<open>Queueing and completing\<close>

lemma set_end_io_ok:
  assumes "pool_ok n (i # out) fl td" "e \<noteq> Verify_io_u_async"
  shows "pool_ok n (i # out) fl (set_end_io e i td)" "un_file (jt_units (set_end_io e i td) ! i) = un_file (jt_units td ! i)"
    "un_xfer_buflen (jt_units (set_end_io e i td) ! i) = un_xfer_buflen (jt_units td ! i)"
proof -
  have i: "i < n" using pool_ok_out [OF assms(1)] by simp
  have "pool_ok n (i # out) fl (set_unit i ((jt_units td ! i)\<lparr>un_end_io := e\<rparr>) td)"
    using pool_ok_unit [OF assms(1) i] pool_okD(7) [OF assms(1)] assms(2)
    by (intro pool_ok_set_unit [OF assms(1)]) (auto simp: unit_ok_def holds_file_def)
  then show "pool_ok n (i # out) fl (set_end_io e i td)" using assms(1) by (simp add: set_end_io_def set_unit_def)
  show "un_file (jt_units (set_end_io e i td) ! i) = un_file (jt_units td ! i)"
    "un_xfer_buflen (jt_units (set_end_io e i td) ! i) = un_xfer_buflen (jt_units td ! i)"
    using i pool_okD(1) [OF assms(1)] by (simp_all add: set_end_io_def)
qed

lemma td_io_queue_ok:
  assumes "pool_ok n (i # out) fl td" "i \<notin> fl" "un_file (jt_units td ! i) \<noteq> None"
  shows "\<exists>td'. td_io_queue td i q = Some td' \<and> pool_ok n (i # out) (insert i fl) td'
    \<and> jt_units td' ! i = (jt_units td ! i)\<lparr>un_flight := True, un_error := qa_error q, un_resid := qa_resid q\<rparr>"
proof -
  have i: "i < n" "i < length (jt_units td)" using pool_ok_out [OF assms(1)] pool_okD(1) [OF assms(1)] by simp_all
  note un = pool_ok_unit [OF assms(1) i(1)]
  obtain f where f: "un_file (jt_units td ! i) = Some f" using assms(3) by blast
  note fo = pool_file_open [OF assms(1) i(1) f]
  define u where "u = (jt_units td ! i)\<lparr>un_flight := True, un_error := qa_error q, un_resid := qa_resid q\<rparr>"
  define issues where "issues = (case acct_ddir (jt_units td ! i) of Rw d \<Rightarrow> (jt_io_issues td)(d := jt_io_issues td d + 1) | Sync \<Rightarrow> jt_io_issues td)"
  have "pool_ok n (i # out) fl (td\<lparr>jt_io_issues := issues\<rparr>)" using assms(1) by simp
  then have "pool_ok n (i # out) (insert i fl) (set_unit i u (td\<lparr>jt_io_issues := issues\<rparr>))"
    using un pool_okD(7) [OF assms(1)] by (intro pool_ok_set_unit) (auto simp: u_def unit_ok_def holds_file_def)
  moreover have "td_io_queue td i q = Some (set_unit i u (td\<lparr>jt_io_issues := issues\<rparr>))"
    using i f fo un assms(2) by (simp add: td_io_queue_def u_def issues_def unit_ok_def)
  ultimately show ?thesis using i by (simp add: set_unit_def u_def)
qed

lemma io_completed_ok:
  assumes "pool_ok n out fl td" "i \<in> fl"
  shows "\<exists>td'. io_completed td i = Some td' \<and> pool_ok n out (fl - {i}) td'"
proof -
  have out: "i \<in> set out" using pool_okD(7) [OF assms(1)] assms(2) by blast
  have i: "i < n" "i < length (jt_units td)" using pool_ok_out [OF assms(1) out] pool_okD(1) [OF assms(1)] by simp_all
  note un = pool_ok_unit [OF assms(1) i(1)]
  define td1 where "td1 = set_unit i ((jt_units td ! i)\<lparr>un_flight := False, un_busy_ok := False\<rparr>) td"
  have 1: "pool_ok n out (fl - {i}) td1"
    unfolding td1_def using un out pool_okD(7) [OF assms(1)]
    by (intro pool_ok_set_unit [OF assms(1) out]) (auto simp: unit_ok_def holds_file_def)
  have fly: "un_flight (jt_units td ! i)" "un_end_io (jt_units td ! i) \<noteq> Verify_io_u_async"
    using un assms(2) by (simp_all add: unit_ok_def)
  show ?thesis
  proof (cases "un_ddir (jt_units td ! i) = Sync \<or> un_error (jt_units td ! i) \<noteq> 0")
    case True
    then show ?thesis using 1 i fly by (cases "un_ddir (jt_units td ! i)") (auto simp: io_completed_def td1_def)
  next
    case False
    then obtain d where d: "un_ddir (jt_units td ! i) = Rw d" by (cases "un_ddir (jt_units td ! i)") auto
    have "\<exists>b c. io_completed td i = Some (td1\<lparr>jt_io_blocks := b, jt_io_bytes := c\<rparr>)"
      using False i fly d by (auto simp: io_completed_def td1_def Let_def)
    then show ?thesis using 1 by auto
  qed
qed

text \<open>
  What the engine may answer: no error of its own, and when it completes a unit it has transferred some
  bytes of it.
\<close>

definition engine_ok :: "u64 \<Rightarrow> q_answer \<Rightarrow> bool" where
  "engine_ok xfer q \<longleftrightarrow> qa_ret q \<noteq> Q_error
     \<and> (qa_ret q = FIO_Q_COMPLETED \<and> qa_error q = 0 \<and> qa_resid q \<noteq> 0 \<longrightarrow> (ucast (xfer - ucast (qa_resid q)) :: u32) \<noteq> 0)"

definition fate_ok :: "nat \<Rightarrow> nat \<Rightarrow> nat list \<Rightarrow> nat set \<Rightarrow> job_td \<times> unit_fate \<Rightarrow> bool" where
  "fate_ok n i out fl = (\<lambda>(td, fate). case fate of
      Fate_returned \<Rightarrow> pool_ok n out fl td
    | Fate_queued \<Rightarrow> pool_ok n (i # out) (insert i fl) td
    | Fate_completed \<Rightarrow> pool_ok n (i # out) fl td)"

lemma do_io_switch_ok:
  assumes "pool_ok n (i # out) (insert i fl) td" "i \<notin> fl" "un_file (jt_units td ! i) \<noteq> None"
    and "engine_ok (un_xfer_buflen (jt_units td ! i)) q" "un_error (jt_units td ! i) = qa_error q" "un_resid (jt_units td ! i) = qa_resid q"
  shows "\<exists>y. do_io_switch td i (qa_ret q) = Some y \<and> fate_ok n i out fl y"
proof -
  have i: "i < n" "i < length (jt_units td)" using pool_ok_out [OF assms(1)] pool_okD(1) [OF assms(1)] by simp_all
  have fl: "insert i fl - {i} = fl" using assms(2) by simp
  note complete = io_completed_ok [of n "i # out" "insert i fl" _ i, unfolded fl, simplified]
  note clear = clear_io_u_ok [of n "i # out" "insert i fl" td i, unfolded fl, simplified]
  note requeue = requeue_io_u_ok [of n "i # out" "insert i fl" _ i, unfolded fl, simplified]
  consider "qa_ret q = FIO_Q_QUEUED" | "qa_ret q = FIO_Q_BUSY" | "qa_ret q = FIO_Q_COMPLETED" "qa_error q \<noteq> 0"
    | "qa_ret q = FIO_Q_COMPLETED" "qa_error q = 0" "qa_resid q = 0" | "qa_ret q = FIO_Q_COMPLETED" "qa_error q = 0" "qa_resid q \<noteq> 0"
    using assms(4) by (cases "qa_ret q") (auto simp: engine_ok_def)
  then show ?thesis
  proof cases
    case 1
    then show ?thesis using assms(1) by (simp add: do_io_switch_def fate_ok_def)
  next
    case 2
    then show ?thesis using requeue [OF assms(1)] by (auto simp: do_io_switch_def fate_ok_def)
  next
    case 3
    then show ?thesis using clear [OF assms(1)] i assms(5) by (auto simp: do_io_switch_def fate_ok_def)
  next
    case 4
    then show ?thesis using complete [OF assms(1)] i assms(5,6) by (auto simp: do_io_switch_def fate_ok_def)
  next
    case 5
    define b where "b = (ucast (un_xfer_buflen (jt_units td ! i) - ucast (qa_resid q)) :: u32)"
    have b: "b \<noteq> 0" using 5 assms(4) by (simp add: engine_ok_def b_def)
    obtain f where f: "un_file (jt_units td ! i) = Some f" using assms(3) by blast
    note fo = pool_file_open [OF assms(1) i(1) f]
    define u where "u = (jt_units td ! i)\<lparr>un_xfer_buflen := ucast (qa_resid q), un_offset := un_offset (jt_units td ! i) + scast b\<rparr>"
    have p: "pool_ok n (i # out) (insert i fl) (set_unit i u td)"
      using pool_ok_unit [OF assms(1) i(1)] pool_okD(7) [OF assms(1)]
      by (intro pool_ok_set_unit [OF assms(1)]) (auto simp: u_def unit_ok_def holds_file_def)
    have "do_io_switch td i (qa_ret q) =
      (if un_offset u = of_real_file_size (jf_off (ft_files td ! f)) then map_option (\<lambda>td. (td, Fate_completed)) (io_completed (set_unit i u td) i)
       else map_option (\<lambda>td. (td, Fate_returned)) (requeue_io_u (set_unit i u td) i))"
      using 5 b i f fo assms(5,6) by (simp add: do_io_switch_def b_def [symmetric] u_def Let_def)
    then show ?thesis using complete [OF p] requeue [OF p] by (auto simp: fate_ok_def)
  qed
qed


section \<open>The invariant of a job\<close>

text \<open>The units that are out: with the engine, or between completion and the free list.\<close>

definition out_units :: "job \<Rightarrow> nat list" where
  "out_units s = (case jb_completing s of None \<Rightarrow> jb_engine s | Some i \<Rightarrow> i # jb_engine s)"

definition job_ok :: "nat \<Rightarrow> job \<Rightarrow> bool" where
  "job_ok n s \<longleftrightarrow> pool_ok n (out_units s) (set (jb_engine s)) (jb_td s) \<and> jb_verifying s = []"

lemma pool_ok_perm:
  assumes "mset out' = mset out"
  shows "pool_ok n out' fl td = pool_ok n out fl td"
  unfolding pool_ok_def assms mset_eq_length [OF assms] mset_eq_setD [OF assms] ..

text \<open>What comes to pass at each step.\<close>

lemma issue_io_ok:
  assumes "job_ok n s" "jb_completing s = None" "e \<noteq> Verify_io_u_async"
    and "\<And>td i. get_io_u env (jb_td s) prep = Some (td, Got i) \<Longrightarrow> engine_ok (un_xfer_buflen (jt_units td ! i)) q"
  shows "(issue_io env s prep e q = None \<and> (ft_service_type (jb_td s) = FIO_FSERVICE_RANDOM \<or> \<not> simple_options (ot_o (ft_off (jb_td s))))) \<or> (\<exists>s'. issue_io env s prep e q = Some s' \<and> job_ok n s')"
proof -
  have p: "pool_ok n (jb_engine s) (set (jb_engine s)) (jb_td s)" and v: "jb_verifying s = []"
    using assms(1,2) by (simp_all add: job_ok_def out_units_def)
  from get_io_u_ok [OF p, of env prep] show ?thesis
  proof (rule disjE)
    assume "\<exists>y. get_io_u env (jb_td s) prep = Some y \<and> got_ok n (jb_engine s) (set (jb_engine s)) y"
    then obtain td1 r where g: "get_io_u env (jb_td s) prep = Some (td1, r)" "got_ok n (jb_engine s) (set (jb_engine s)) (td1, r)" by auto
    show ?thesis
    proof (cases r)
      case (Got i)
      then have i: "i < n" "i \<notin> set (jb_engine s)" "pool_ok n (i # jb_engine s) (set (jb_engine s)) td1" "un_file (jt_units td1 ! i) \<noteq> None"
        using g(2) by (simp_all add: got_ok_def)
      note se = set_end_io_ok [OF i(3) assms(3)]
      from td_io_queue_ok [OF se(1) i(2), of q] obtain td2 where
        t2: "td_io_queue (set_end_io e i td1) i q = Some td2" "pool_ok n (i # jb_engine s) (insert i (set (jb_engine s))) td2"
        "jt_units td2 ! i = (jt_units (set_end_io e i td1) ! i)\<lparr>un_flight := True, un_error := qa_error q, un_resid := qa_resid q\<rparr>"
        using se(2) i(4) by auto
      have "engine_ok (un_xfer_buflen (jt_units td2 ! i)) q" using assms(4) g(1) Got t2(3) se(3) by simp
      from do_io_switch_ok [OF t2(2) i(2) _ this] obtain td3 fate where
        sw: "do_io_switch td2 i (qa_ret q) = Some (td3, fate)" "fate_ok n i (jb_engine s) (set (jb_engine s)) (td3, fate)"
        using t2(3) se(2) i(4) by auto
      then show ?thesis using g(1) Got t2(1) assms(2) v
        by (cases fate) (simp_all add: issue_io_def job_ok_def out_units_def fate_ok_def)
    qed (use g v assms(2) in \<open>simp_all add: issue_io_def got_ok_def job_ok_def out_units_def\<close>)
  qed (simp add: issue_io_def)
qed

lemma engine_event_ok:
  assumes "job_ok n s" "jb_completing s = None" "i \<in> set (jb_engine s)"
  shows "\<exists>s'. engine_event s i err resid = Some s' \<and> job_ok n s'"
proof -
  have p: "pool_ok n (jb_engine s) (set (jb_engine s)) (jb_td s)" and v: "jb_verifying s = []"
    using assms(1,2) by (simp_all add: job_ok_def out_units_def)
  have i: "i < n" "i < length (jt_units (jb_td s))" using pool_ok_out [OF p assms(3)] pool_okD(1) [OF p] by simp_all
  have dist: "distinct (jb_engine s)" by (rule pool_ok_places(2) [OF p])
  define td1 where "td1 = set_unit i ((jt_units (jb_td s) ! i)\<lparr>un_error := err, un_resid := resid\<rparr>) (jb_td s)"
  have "pool_ok n (jb_engine s) (set (jb_engine s)) td1"
    unfolding td1_def using pool_ok_unit [OF p i(1)] assms(3)
    by (intro pool_ok_set_unit [OF p assms(3)]) (auto simp: unit_ok_def holds_file_def)
  from io_completed_ok [OF this assms(3)] obtain td2 where
    t2: "io_completed td1 i = Some td2" "pool_ok n (jb_engine s) (set (jb_engine s) - {i}) td2" by blast
  have set_eq: "set (jb_engine s) - {i} = set (remove1 i (jb_engine s))" using dist by simp
  have "mset (i # remove1 i (jb_engine s)) = mset (jb_engine s)" using assms(3) by simp
  from pool_ok_perm [OF this] have "pool_ok n (i # remove1 i (jb_engine s)) (set (remove1 i (jb_engine s))) td2"
    using t2(2) unfolding set_eq by simp
  then show ?thesis using t2(1) i v by (simp add: engine_event_def td1_def job_ok_def out_units_def)
qed

lemma finish_io_ok:
  assumes "job_ok n s" "jb_completing s = Some i"
  shows "\<exists>s'. finish_io s i = Some s' \<and> job_ok n s'"
proof -
  have p: "pool_ok n (i # jb_engine s) (set (jb_engine s)) (jb_td s)" and v: "jb_verifying s = []"
    using assms by (simp_all add: job_ok_def out_units_def)
  have i: "i < n" "i < length (jt_units (jb_td s))" "i \<notin> set (jb_engine s)"
    using pool_ok_out [OF p] pool_okD(1) [OF p] pool_ok_places(2) [OF p] by simp_all
  have "\<not> un_free_def (jt_units (jb_td s) ! i)" using pool_ok_unit [OF p i(1)] by (simp add: unit_ok_def)
  then show ?thesis using put_fresh [OF p i(3)] i(2) v by (auto simp: finish_io_def put_completed_def job_ok_def out_units_def)
qed

lemma job_step_ok:
  assumes "job_step env engine_ok (\<lambda>e. e \<noteq> Verify_io_u_async) s s'" "job_ok n s"
  shows "job_ok n s'"
  using assms(1)
proof cases
  case (issue prep q e)
  then show ?thesis using issue_io_ok [OF assms(2) issue(1) issue(3), of env prep q] by auto
next
  case (event i err resid)
  then show ?thesis using engine_event_ok [OF assms(2), of i err resid] by auto
next
  case (finish i)
  then show ?thesis using finish_io_ok [OF assms(2)] by auto
next
  case take
  have v: "jt_verify_list (jb_td s) = []" "jb_verifying s = []" using assms(2) by (simp_all add: job_ok_def pool_ok_def)
  then have "(jb_td s)\<lparr>jt_verify_list := []\<rparr> = jb_td s" by (cases "jb_td s") simp
  then have "verify_take s = s" using v by (simp add: verify_take_def)
  then show ?thesis using take assms(2) by simp
next
  case (verified i)
  then show ?thesis using assms(2) by (simp add: job_ok_def)
qed


lemma push_units_ok:
  "queue_ok n q \<Longrightarrow> length (queue_items q) + length is \<le> n \<Longrightarrow>
   \<exists>q'. push_units is q = Some q' \<and> queue_ok n q' \<and> queue_items q' = queue_items q @ is"
proof (induction "is" arbitrary: q)
  case (Cons i "is")
  from uq.push_ok [OF Cons.prems(1), of i] Cons.prems(2) obtain q1 where
    "io_u_qpush q i = Some q1" "queue_ok n q1" "queue_items q1 = queue_items q @ [i]" by auto
  with Cons.IH [of q1] Cons.prems(2) show ?case by auto
qed simp

text \<open>A job that has not started: no unit is out and no file is in use.\<close>

definition fresh_td :: "job_td \<Rightarrow> bool" where
  "fresh_td td \<longleftrightarrow> files_ok td (\<lambda>_. 0) \<and> jt_cur_depth td = 0 \<and> jt_verify_list td = []"

definition start_job :: "job_td \<Rightarrow> job" where
  "start_job td = \<lparr>jb_td = td, jb_engine = [], jb_completing = None, jb_verifying = []\<rparr>"

lemma init_io_u_ok:
  assumes "fresh_td td0" "unat depth < 2 ^ 30"
  shows "\<exists>td. init_io_u depth td0 = Some td \<and> job_ok (unat depth) (start_job td)"
proof -
  from push_units_ok [OF queue_init(1) [of depth], of "[0..<unat depth]"] obtain q where
    q: "push_units [0..<unat depth] (io_u_qinit depth) = Some q" "queue_ok (unat depth) q" "queue_items q = [0..<unat depth]"
    by (auto simp: queue_init(2))
  define td where "td = td0\<lparr>jt_units := replicate (unat depth) new_unit, jt_freelist := q, jt_requeues := io_u_rinit depth\<rparr>"
  have "unat depth < 2 ^ 31" using assms(2) by simp
  note r = ring_init [OF this]
  have "uses_of td = (\<lambda>_. 0)" by (intro ext) (simp add: uses_of_def td_def holds_file_def new_unit_def)
  moreover have "files_ok td (\<lambda>_. 0)" using assms(1) files_ok_cong [of td td0] by (simp add: td_def fresh_td_def)
  ultimately have "pool_ok (unat depth) [] {} td"
    using assms q r by (simp add: pool_ok_def) (simp add: td_def fresh_td_def unit_ok_def new_unit_def)
  then show ?thesis using q(1) by (simp add: init_io_u_def td_def job_ok_def start_job_def out_units_def)
qed

text \<open>The steps of a job whose verification is not asynchronous, with an engine as above.\<close>

definition runs :: "file_env \<Rightarrow> job_td \<Rightarrow> job \<Rightarrow> bool" where
  "runs env td s \<longleftrightarrow> (job_step env engine_ok (\<lambda>e. e \<noteq> Verify_io_u_async))\<^sup>*\<^sup>* (start_job td) s"

lemma runs_ok:
  assumes "fresh_td td0" "unat depth < 2 ^ 30" "init_io_u depth td0 = Some td" "runs env td s"
  shows "job_ok (unat depth) s"
  using assms(4) unfolding runs_def
proof (induction rule: rtranclp_induct)
  case base
  then show ?case using init_io_u_ok [OF assms(1,2)] assms(3) by auto
next
  case (step s s')
  then show ?case using job_step_ok by blast
qed




text \<open>A job on the file of a hundred blocks.\<close>

definition example_job_td :: job_td where
  "example_job_td = \<lparr>ft_off = (example_td False 4096)\<lparr>ot_o := (ot_o (example_td False 4096))\<lparr>oo_norandommap := True\<rparr>\<rparr>,
    ft_files = [\<lparr>jf_off = example_file, jf_open = False, jf_closing = False, jf_done = False, jf_references = 0\<rparr>],
    ft_nr_files = 1, ft_open_files = 1, ft_nr_open_files = 0, ft_nr_done_files = 0, ft_next_file = 0, ft_next_file_state = init_rand,
    ft_service_type = FIO_FSERVICE_RR, ft_service_file = None, ft_service_nr = 1, ft_service_left = 0, ft_open_calls = 0,
    ft_ddir_calls = 0, jt_units = [], jt_freelist = io_u_qinit 0, jt_requeues = io_u_rinit 0, jt_cur_depth = 0,
    jt_io_issues = (\<lambda>_. 0), jt_io_blocks = (\<lambda>_. 0), jt_io_bytes = (\<lambda>_. 0), jt_verify_list = [],
    jt_latency_target = False, jt_latency_qd = 0\<rparr>"

definition example_job_env :: file_env where
  "example_job_env = \<lparr>fe_off = example_env, fe_open = (\<lambda>_. Open_ok), fe_ddir = (\<lambda>_. (Some DDIR_READ, False)), fe_noio = False\<rparr>"

lemma fresh_example: "fresh_td example_job_td"
  by (simp add: fresh_td_def files_ok_def file_ok_def example_job_td_def)

definition example_start :: job_td where
  "example_start = the (init_io_u 4 example_job_td)"

lemma init_example: "init_io_u 4 example_job_td = Some example_start" "runs example_job_env example_start (verify_take (start_job example_start))"
  using init_io_u_ok [OF fresh_example, of 4] by (auto simp: example_start_def runs_def intro: job_step.take)


lemma init_io_u_files: "init_io_u depth td = Some td' \<Longrightarrow> ft_off td' = ft_off td \<and> ft_service_type td' = ft_service_type td"
  by (auto simp: init_io_u_def split: bind_splits)

lemma example_options:
  "ft_service_type (jb_td (verify_take (start_job example_start))) \<noteq> FIO_FSERVICE_RANDOM"
  "simple_options (ot_o (ft_off (jb_td (verify_take (start_job example_start)))))"
  using init_io_u_files [OF init_example(1)]
  by (simp_all add: verify_take_def start_job_def example_job_td_def example_td_def simple_options_def)


section \<open>Asynchronous verification\<close>

text \<open>
  The main thread hands a unit to the verifying threads and then looks at the flags of the unit. When
  such a thread has put the unit back by then, the flags no longer say that it was handed over.
\<close>

lemma push_twice:
  assumes "queue_ok n q" "length (queue_items q) < n" "i \<notin> set (queue_items q)"
  shows "\<exists>q1. io_u_qpush q i = Some q1 \<and>
    (\<forall>q2. io_u_qpush q1 i = Some q2 \<longrightarrow> count (mset (queue_items q2)) i = 2)"
proof -
  from uq.push_ok [OF assms(1,2)] obtain q1 where
    q1: "io_u_qpush q i = Some q1" "queue_ok n q1" "queue_items q1 = queue_items q @ [i]" by blast
  have "count (mset (queue_items q2)) i = 2" if "io_u_qpush q1 i = Some q2" for q2
  proof (cases "length (queue_items q1) < n")
    case True
    from uq.push_ok [OF q1(2) this, of i] that have "queue_items q2 = queue_items q @ [i, i]" by (auto simp: q1(3))
    moreover have "count (mset (queue_items q)) i = 0" using assms(3) by (simp add: count_eq_zero_iff)
    ultimately show ?thesis by simp
  next
    case False
    then have "unat (iq_nr q1) \<ge> length (iq_io_us q1)" using q1(2) by (auto simp: queue_items_def queue_ok_def)
    then show ?thesis using that by (simp add: io_u_qpush_def wr_def)
  qed
  with q1(1) show ?thesis by blast
qed

text \<open>
  C10: a unit that is completed for asynchronous verification, and that the verifying thread puts back
  before the main thread tests its flags, is put back a second time: the free list then holds it
  twice, or the write is past the end of the list.
\<close>

theorem async_puts_twice:
  assumes "pool_ok n (i # out) (insert i fl) td" "un_ddir (jt_units td ! i) = Rw d" "i \<notin> fl"
  shows "\<exists>s1 s2. engine_event \<lparr>jb_td = set_end_io Verify_io_u_async i td, jb_engine = i # out, jb_completing = None, jb_verifying = []\<rparr> i 0 0 = Some s1
    \<and> jb_completing s1 = Some i \<and> i \<in> set (jb_verifying (verify_take s1)) \<and> verify_put (verify_take s1) i = Some s2
    \<and> (\<forall>s3. finish_io s2 i = Some s3 \<longrightarrow> count (mset (queue_items (jt_freelist (jb_td s3)))) i = 2)"
proof -
  note ok = pool_okD [OF assms(1)] and pl = pool_ok_places [OF assms(1)]
  have i: "i < n" "i < length (jt_units td)" using pool_ok_out [OF assms(1)] ok(1) by simp_all
  note un = pool_ok_unit [OF assms(1) i(1)]
  have flags: "un_flight (jt_units td ! i)" "\<not> un_free_def (jt_units td ! i)" "un_in_cur_depth (jt_units td ! i)"
    using un by (simp_all add: unit_ok_def)
  define u2 where "u2 = (jt_units td ! i)\<lparr>un_end_io := Verify_io_u_async, un_error := 0, un_resid := 0, un_flight := False, un_busy_ok := False\<rparr>"
  define b c where "b = (jt_io_blocks td)(d := jt_io_blocks td d + 1)" and
    "c = (jt_io_bytes td)(d := jt_io_bytes td d + ucast (ucast (un_buflen (jt_units td ! i)) :: u32))"
  define tb where "tb = set_unit i u2 td\<lparr>jt_io_blocks := b, jt_io_bytes := c\<rparr>"
  have fb: "files_ok tb (uses_of td)" using ok(4) files_ok_cong [of tb td] by (simp add: tb_def set_unit_def)
  have tbu: "jt_units tb ! i = u2" "i < length (jt_units tb)" using i(2) by (simp_all add: tb_def set_unit_def)
  obtain tc where tc: "(case un_file (jt_units td ! i) of Some f \<Rightarrow> put_file tb f | None \<Rightarrow> Some tb) = Some tc" "same_job tc tb"
  proof (cases "un_file (jt_units td ! i)")
    case (Some f)
    note fo = pool_file_open [OF assms(1) i(1) Some]
    have "0 < uses_of td f" using uses_of_pos [OF i(2), of f] Some flags(2) by (simp add: holds_file_def)
    moreover have "f < length (ft_files tb)" using fo by (simp add: tb_def set_unit_def)
    ultimately show ?thesis using put_file_ok [OF fb, of f] Some that by auto
  qed (use that [of tb] in simp)
  note jt = same_job_jt [OF tc(2)]
  define u3 where "u3 = u2\<lparr>un_in_cur_depth := False, un_free_def := True\<rparr>"
  define td3 where "td3 = set_unit i u3 (tc\<lparr>jt_cur_depth := jt_cur_depth td - 1, jt_verify_list := [i]\<rparr>)"
  have tbj: "jt_cur_depth tb = jt_cur_depth td" "jt_verify_list tb = []" "jt_freelist tb = jt_freelist td"
    using assms(1) by (simp_all add: tb_def set_unit_def pool_ok_def)
  have "verify_io_u_async tb i = do {
      td \<leftarrow> (case un_file (jt_units td ! i) of Some f \<Rightarrow> put_file tb f | None \<Rightarrow> Some tb);
      Some (set_unit i u3 (td\<lparr>jt_cur_depth := jt_cur_depth td - 1, jt_verify_list := jt_verify_list td @ [i]\<rparr>)) }"
    using tbu flags(3) by (simp add: verify_io_u_async_def u3_def u2_def)
  also have "\<dots> = Some td3" unfolding tc(1) by (simp add: td3_def jt tbj)
  finally have async: "verify_io_u_async tb i = Some td3" .
  define s1 where "s1 = \<lparr>jb_td = td3, jb_engine = out, jb_completing = Some i, jb_verifying = []\<rparr>"
  have ev: "engine_event \<lparr>jb_td = set_end_io Verify_io_u_async i td, jb_engine = i # out, jb_completing = None, jb_verifying = []\<rparr> i 0 0 = Some s1"
    using async i(2) flags(1) assms(2)
    by (simp add: engine_event_def set_end_io_def io_completed_def s1_def tb_def u2_def set_unit_def b_def c_def Let_def)
  have "length (queue_items (jt_freelist td)) < n" "i \<notin> set (queue_items (jt_freelist td))" using pl(3,6) by auto
  from push_twice [OF ok(2) this] obtain q1 where
    q1: "io_u_qpush (jt_freelist td) i = Some q1" "\<forall>q2. io_u_qpush q1 i = Some q2 \<longrightarrow> count (mset (queue_items q2)) i = 2" by blast
  define u4 where "u4 = u3\<lparr>un_file := None, un_free_def := False, un_free := True\<rparr>"
  define td4 where "td4 = set_unit i u4 (td3\<lparr>jt_verify_list := [], jt_freelist := q1\<rparr>)"
  have td3: "jt_units td3 ! i = u3" "i < length (jt_units td3)" "jt_freelist td3 = jt_freelist td"
    using tbu(2) jt tbj by (simp_all add: td3_def set_unit_def)
  define s2 where "s2 = \<lparr>jb_td = td4, jb_engine = out, jb_completing = Some i, jb_verifying = []\<rparr>"
  have vp: "verify_put (verify_take s1) i = Some s2"
    using td3 q1(1) by (cases "un_file u3")
      (simp_all add: verify_put_def verify_take_def s1_def s2_def put_io_u_def td4_def u4_def u3_def set_unit_def td3_def)
  have td4: "jt_units td4 ! i = u4" "i < length (jt_units td4)" "jt_freelist td4 = q1"
    using td3(2) by (simp_all add: td4_def set_unit_def)
  have "count (mset (queue_items (jt_freelist (jb_td s3)))) i = 2" if "finish_io s2 i = Some s3" for s3
  proof -
    have "un_file u4 = None" "\<not> un_free_def u4" by (simp_all add: u4_def)
    then have "\<exists>q2. io_u_qpush q1 i = Some q2 \<and> jt_freelist (jb_td s3) = q2"
      using that td4 by (auto simp: finish_io_def put_completed_def put_io_u_def s2_def set_unit_def split: bind_splits)
    with q1(2) show ?thesis by blast
  qed
  with ev vp show ?thesis by (auto simp: s1_def verify_take_def td3_def set_unit_def)
qed

definition flying_td :: job_td where
  "flying_td = example_job_td\<lparr>jt_units := [new_unit\<lparr>un_free := False, un_flight := True, un_in_cur_depth := True\<rparr>],
     jt_freelist := \<lparr>iq_io_us = [Some 0], iq_nr = 0\<rparr>, jt_requeues := io_u_rinit 1, jt_cur_depth := 1\<rparr>"

lemma flying_ok: "pool_ok 1 [0] {0} flying_td"
proof -
  have "uses_of flying_td = (\<lambda>_. 0)" by (intro ext) (simp add: uses_of_def flying_td_def holds_file_def new_unit_def)
  moreover have "files_ok flying_td (\<lambda>_. 0)"
    using fresh_example files_ok_cong [of flying_td example_job_td] by (simp add: flying_td_def fresh_td_def)
  moreover have "queue_ok 1 \<lparr>iq_io_us = [Some 0], iq_nr = 0\<rparr>" "queue_items \<lparr>iq_io_us = [Some 0], iq_nr = 0\<rparr> = []"
    by (simp_all add: queue_ok_def queue_items_def)
  ultimately show ?thesis using ring_init [of 1]
    by (simp add: pool_ok_def) (simp add: flying_td_def unit_ok_def new_unit_def example_job_td_def)
qed

theorem async_puts_twice_witness:
  "\<exists>s1 s2. engine_event \<lparr>jb_td = set_end_io Verify_io_u_async 0 flying_td, jb_engine = [0], jb_completing = None, jb_verifying = []\<rparr> 0 0 0 = Some s1
    \<and> jb_completing s1 = Some 0 \<and> 0 \<in> set (jb_verifying (verify_take s1)) \<and> verify_put (verify_take s1) 0 = Some s2"
proof -
  have "un_ddir (jt_units flying_td ! 0) = Rw DDIR_READ" by (simp add: flying_td_def new_unit_def)
  from async_puts_twice [OF flying_ok this] show ?thesis by blast
qed

text \<open>
  When the engine transfers nothing, the unit is put back in flight, and the next time it is queued the
  assertion of \<open>td_io_queue\<close> fails.
\<close>

lemma flying_unit_aborts: "un_flight (jt_units td ! i) \<Longrightarrow> i < length (jt_units td) \<Longrightarrow> td_io_queue td i q = None"
  by (simp add: td_io_queue_def c_assert_def)

lemma put_file_units: "put_file td f = Some td' \<Longrightarrow> jt_units td' = jt_units (td :: job_td)"
  by (auto simp: put_file_def set_file_def Let_def split: bind_splits if_splits)

lemma zero_transfer_stays_in_flight:
  assumes "un_flight (jt_units td ! i)" "put_io_u td i = Some td'"
  shows "un_flight (jt_units td' ! i)"
  using assms
  by (auto simp: put_io_u_def set_unit_def rd_Some_iff dest: put_file_units split: bind_splits option.splits if_splits)

end
