(* ===== verification/Smalloc.thy ===== *)
theory Smalloc
  imports Bitops
begin

text \<open>
  The allocator of the memory that the jobs share, \<^verbatim>\<open>smalloc.c\<close>: pools of blocks of 32 bytes, a
  bitmap of the blocks of each pool, a header and two guard words round what is handed out.

  Sizes, indices and addresses are natural numbers; where the C code computes in
  \<open>unsigned int\<close> and the value may pass \<open>2 ^ 32\<close> the wrap-around is written out with
  \<open>u32_of\<close>. The words of the bitmap are \<open>u32\<close>. Memory is a map from addresses to bytes.
  The answers of \<open>mmap\<close> and of \<open>fio_mutex_init\<close> are arguments. The pool lock and the
  global lock only bracket the operations and are left out.
\<close>

section \<open>Memory\<close>

type_synonym memory = "nat \<Rightarrow> u8"

text \<open>Little-endian stores and loads of \<open>n\<close> bytes, and \<open>memset\<close>.\<close>

definition mem_store :: "nat \<Rightarrow> nat \<Rightarrow> nat \<Rightarrow> memory \<Rightarrow> memory" where
  "mem_store n a v m = (\<lambda>x. if a \<le> x \<and> x < a + n then of_nat (v div 256 ^ (x - a)) else m x)"

fun mem_load :: "nat \<Rightarrow> nat \<Rightarrow> memory \<Rightarrow> nat" where
  "mem_load 0 a m = 0"
| "mem_load (Suc n) a m = unat (m a) + 256 * mem_load n (Suc a) m"

definition mem_set :: "nat \<Rightarrow> u8 \<Rightarrow> nat \<Rightarrow> memory \<Rightarrow> memory" where
  "mem_set a c n m = (\<lambda>x. if a \<le> x \<and> x < a + n then c else m x)"

section \<open>Data\<close>

definition u32_of :: "nat \<Rightarrow> nat" where
  "u32_of n = n mod 2 ^ 32"

abbreviation SMALLOC_BPB :: nat where "SMALLOC_BPB \<equiv> 32"
abbreviation SMALLOC_BPI :: nat where "SMALLOC_BPI \<equiv> 32"
abbreviation SMALLOC_BPL :: nat where "SMALLOC_BPL \<equiv> 1024"
abbreviation INITIAL_SIZE :: nat where "INITIAL_SIZE \<equiv> 8192 * 1024"
abbreviation MAX_POOLS :: nat where "MAX_POOLS \<equiv> 128"
abbreviation SMALLOC_PRE_RED :: nat where "SMALLOC_PRE_RED \<equiv> 0xdeadbeef"
abbreviation SMALLOC_POST_RED :: nat where "SMALLOC_POST_RED \<equiv> 0x5aa55aa5"

text \<open>The size of \<open>struct block_hdr\<close>: \<open>size\<close> at 0, \<open>prered\<close> at 8, four bytes of padding.\<close>

abbreviation HDR :: nat where "HDR \<equiv> 16"

text \<open>A pool that has not been added has the address 0, as in the zeroed array \<open>mp\<close>.\<close>

record pool =
  p_map :: nat
  p_bitmap :: "u32 list"
  p_free_blocks :: nat
  p_nr_blocks :: nat
  p_next_non_full :: nat
  p_mmap_size :: nat

record smalloc_state =
  sm_mp :: "pool list"
  sm_nr_pools :: nat
  sm_last_pool :: nat
  sm_mem :: memory

definition ptr_valid :: "pool \<Rightarrow> nat \<Rightarrow> bool" where
  "ptr_valid p ptr \<longleftrightarrow>
     p_map p \<le> ptr \<and> ptr < p_map p + u32_of (p_nr_blocks p * SMALLOC_BPL)"

definition size_to_blocks :: "nat \<Rightarrow> nat" where
  "size_to_blocks sz = (sz + SMALLOC_BPB - 1) div SMALLOC_BPB"

section \<open>The bitmap\<close>

text \<open>
  The callbacks get a word of the bitmap and a mask; they return the answer and the word left
  in the bitmap. A failed \<open>assert\<close> is \<open>None\<close>.
\<close>

type_synonym mask_fn = "u32 \<Rightarrow> u32 \<Rightarrow> (bool \<times> u32) option"

definition mask_cmp :: mask_fn where
  "mask_cmp word m = Some (word AND m = 0, word)"

definition mask_clear :: mask_fn where
  "mask_clear word m = do { c_assert (word AND m = m); Some (True, word AND NOT m) }"

definition mask_set :: mask_fn where
  "mask_set word m = do { c_assert (word AND m = 0); Some (True, word OR m) }"

text \<open>A shift by 32 or more is not defined in C.\<close>

definition block_mask :: "nat \<Rightarrow> nat \<Rightarrow> u32 option" where
  "block_mask this_blocks idx =
     (if this_blocks = SMALLOC_BPI then Some (- 1)
      else if this_blocks < 32 \<and> idx < 32 then Some (push_bit idx (push_bit this_blocks 1 - 1))
      else None)"

function blocks_iter :: "pool \<Rightarrow> nat \<Rightarrow> nat \<Rightarrow> nat \<Rightarrow> mask_fn \<Rightarrow> (bool \<times> pool) option" where
  "blocks_iter p pool_idx idx nr_blocks func =
     (if nr_blocks = 0 then Some (True, p)
      else if p_nr_blocks p \<le> pool_idx then Some (False, p)
      else let n = u32_of nr_blocks;
               this_blocks = (if SMALLOC_BPI < u32_of (n + idx)
                              then u32_of (2 ^ 32 + SMALLOC_BPI - idx) else n) in
        do {
          m \<leftarrow> block_mask this_blocks idx;
          word \<leftarrow> rd (p_bitmap p) pool_idx;
          (ok, word') \<leftarrow> func word m;
          let p' = p\<lparr>p_bitmap := (p_bitmap p)[pool_idx := word']\<rparr> in
          if \<not> ok then Some (False, p')
          else blocks_iter p' (pool_idx + 1) 0 (nr_blocks - this_blocks) func })"
  by pat_completeness auto
termination
  by (relation "measure (\<lambda>(p, pool_idx, _). p_nr_blocks p - pool_idx)") auto

declare blocks_iter.simps [simp del]

definition blocks_free :: "pool \<Rightarrow> nat \<Rightarrow> nat \<Rightarrow> nat \<Rightarrow> bool option" where
  "blocks_free p pool_idx idx nr_blocks = map_option fst (blocks_iter p pool_idx idx nr_blocks mask_cmp)"

definition set_blocks :: "pool \<Rightarrow> nat \<Rightarrow> nat \<Rightarrow> nat \<Rightarrow> pool option" where
  "set_blocks p pool_idx idx nr_blocks = map_option snd (blocks_iter p pool_idx idx nr_blocks mask_set)"

definition clear_blocks :: "pool \<Rightarrow> nat \<Rightarrow> nat \<Rightarrow> nat \<Rightarrow> pool option" where
  "clear_blocks p pool_idx idx nr_blocks = map_option snd (blocks_iter p pool_idx idx nr_blocks mask_clear)"

text \<open>
  The word is passed as an \<open>int\<close>: the shift copies the sign bit and the conversion to the
  \<open>unsigned long\<close> of \<open>ffz\<close> extends it.
\<close>

definition find_next_zero :: "u32 \<Rightarrow> nat \<Rightarrow> nat option" where
  "find_next_zero word start = do {
     c_assert (word \<noteq> - 1);
     Some (ffz (scast (signed_drop_bit start word)) + start) }"

section \<open>Pools\<close>

text \<open>Number of words of the bitmap and bytes to map, for a request of \<open>alloc_size\<close> bytes.\<close>

definition pool_geometry :: "nat \<Rightarrow> nat \<times> nat" where
  "pool_geometry alloc_size =
     (let alloc_size = u32_of (alloc_size + 4);
          alloc_size = u32_of (alloc_size + HDR);
          alloc_size = (if alloc_size < INITIAL_SIZE then INITIAL_SIZE else alloc_size);
          alloc_size = u32_of ((alloc_size + SMALLOC_BPL - 1) div SMALLOC_BPL * SMALLOC_BPL);
          bitmap_blocks = alloc_size div SMALLOC_BPL;
          alloc_size = u32_of (alloc_size + bitmap_blocks * 4) in
      (bitmap_blocks, alloc_size))"

text \<open>
  The bitmap is what the mapping holds behind the blocks. The result is true when the pool could
  not be added; \<open>os\<close> is the address from \<open>mmap\<close>, or \<open>None\<close> for \<open>MAP_FAILED\<close>,
  and whether the mutex was created.
\<close>

type_synonym os_answer = "nat option \<times> bool"

definition add_pool :: "os_answer \<Rightarrow> nat \<Rightarrow> nat \<Rightarrow> smalloc_state \<Rightarrow> bool \<times> smalloc_state" where
  "add_pool os k sz s =
     (let (bitmap_blocks, alloc_size) = pool_geometry sz;
          p = (sm_mp s ! k)\<lparr>p_mmap_size := alloc_size, p_nr_blocks := bitmap_blocks,
                            p_free_blocks := bitmap_blocks * SMALLOC_BPB\<rparr> in
      case os of
        (None, _) \<Rightarrow> (True, s\<lparr>sm_mp := (sm_mp s)[k := p]\<rparr>)
      | (Some ptr, mutex_ok) \<Rightarrow>
          let p = p\<lparr>p_map := ptr,
                    p_bitmap := replicate ((alloc_size - bitmap_blocks * SMALLOC_BPL) div 4) 0\<rparr>;
              s = s\<lparr>sm_mp := (sm_mp s)[k := p], sm_mem := mem_set ptr 0 alloc_size (sm_mem s)\<rparr> in
          if mutex_ok then (False, s\<lparr>sm_nr_pools := sm_nr_pools s + 1\<rparr>) else (True, s))"

definition empty_pool :: pool where
  "empty_pool = \<lparr>p_map = 0, p_bitmap = [], p_free_blocks = 0, p_nr_blocks = 0,
                 p_next_non_full = 0, p_mmap_size = 0\<rparr>"

definition smalloc_static :: "memory \<Rightarrow> smalloc_state" where
  "smalloc_static m = \<lparr>sm_mp = replicate MAX_POOLS empty_pool, sm_nr_pools = 0, sm_last_pool = 0, sm_mem = m\<rparr>"

definition sinit :: "os_answer \<Rightarrow> smalloc_state \<Rightarrow> smalloc_state option" where
  "sinit os s = (let (ret, s') = add_pool os 0 INITIAL_SIZE s in do { c_assert (\<not> ret); Some s' })"

section \<open>Guard words\<close>

definition postred_ptr :: "nat \<Rightarrow> memory \<Rightarrow> nat" where
  "postred_ptr hdr m = (hdr + mem_load 8 hdr m - 4 + 3) div 4 * 4"

definition fill_redzone :: "nat \<Rightarrow> memory \<Rightarrow> memory" where
  "fill_redzone hdr m =
     (let postred = postred_ptr hdr m in
      mem_store 4 postred SMALLOC_POST_RED (mem_store 4 (hdr + 8) SMALLOC_PRE_RED m))"

definition sfree_check_redzone :: "nat \<Rightarrow> memory \<Rightarrow> unit option" where
  "sfree_check_redzone hdr m = do {
     c_assert (mem_load 4 (hdr + 8) m = SMALLOC_PRE_RED);
     c_assert (mem_load 4 (postred_ptr hdr m) m = SMALLOC_POST_RED) }"

section \<open>Freeing\<close>

definition sfree_pool :: "nat \<Rightarrow> nat \<Rightarrow> smalloc_state \<Rightarrow> smalloc_state option" where
  "sfree_pool k ptr s =
     (if ptr = 0 then Some s
      else let hdr = ptr - HDR; p = sm_mp s ! k in do {
        c_assert (ptr_valid p hdr);
        sfree_check_redzone hdr (sm_mem s);
        let offset = hdr - p_map p;
            i = u32_of (offset div SMALLOC_BPL);
            idx = offset mod SMALLOC_BPL div SMALLOC_BPB;
            n = size_to_blocks (mem_load 8 hdr (sm_mem s)) in do {
        p \<leftarrow> clear_blocks p i idx n;
        let p = (if i < p_next_non_full p then p\<lparr>p_next_non_full := i\<rparr> else p);
            p = p\<lparr>p_free_blocks := p_free_blocks p + n\<rparr> in
        Some (s\<lparr>sm_mp := (sm_mp s)[k := p]\<rparr>) } })"

text \<open>The loop over the pools: the first one that holds the address.\<close>

definition find_pool :: "smalloc_state \<Rightarrow> nat \<Rightarrow> nat option" where
  "find_pool s ptr = find (\<lambda>i. ptr_valid (sm_mp s ! i) ptr) [0..<sm_nr_pools s]"

definition sfree :: "nat \<Rightarrow> smalloc_state \<Rightarrow> smalloc_state option" where
  "sfree ptr s =
     (if ptr = 0 then Some s
      else do { k \<leftarrow> find_pool s ptr; sfree_pool k ptr s })"

section \<open>Allocating\<close>

text \<open>
  The search of \<open>__smalloc_pool\<close>: the pool and the word and bit of the first block, or the pool
  and \<open>None\<close> when the words are exhausted.
\<close>

partial_function (option) search_blocks ::
    "pool \<Rightarrow> nat \<Rightarrow> nat \<Rightarrow> nat \<Rightarrow> (pool \<times> (nat \<times> nat) option) option" where
  "search_blocks p nr_blocks i last_idx =
     (if p_nr_blocks p \<le> i then Some (p, None)
      else do {
        word \<leftarrow> rd (p_bitmap p) i;
        if word = - 1 then search_blocks (p\<lparr>p_next_non_full := i + 1\<rparr>) nr_blocks (i + 1) 0
        else do {
          idx \<leftarrow> find_next_zero word last_idx;
          free \<leftarrow> blocks_free p i idx nr_blocks;
          if \<not> free then
            let idx = u32_of (idx + nr_blocks) in
            if idx < SMALLOC_BPI then search_blocks p nr_blocks i idx
            else search_blocks p nr_blocks (i + idx div SMALLOC_BPI) 0
          else do {
            p \<leftarrow> set_blocks p i idx nr_blocks;
            Some (p, Some (i, idx)) } } })"

declare search_blocks.simps [code]

text \<open>\<open>__smalloc_pool\<close>; the address 0 is \<open>NULL\<close>.\<close>

definition smalloc_pool_blocks :: "pool \<Rightarrow> nat \<Rightarrow> (nat \<times> pool) option" where
  "smalloc_pool_blocks p sz =
     (let nr_blocks = size_to_blocks sz in
      if p_free_blocks p < nr_blocks then Some (0, p)
      else do {
        (p, found) \<leftarrow> search_blocks p nr_blocks (u32_of (p_next_non_full p)) 0;
        case found of
          None \<Rightarrow> Some (0, p)
        | Some (i, idx) \<Rightarrow>
            let offset = u32_of (i * SMALLOC_BPL + idx * SMALLOC_BPB) in
            Some (p_map p + offset, p\<lparr>p_free_blocks := p_free_blocks p - nr_blocks\<rparr>) })"

definition block_size :: "nat \<Rightarrow> nat" where
  "block_size sz = (sz + HDR + 4 + 3) div 4 * 4"

definition smalloc_pool :: "nat \<Rightarrow> nat \<Rightarrow> smalloc_state \<Rightarrow> (nat \<times> smalloc_state) option" where
  "smalloc_pool k sz s = do {
     (hdr, p) \<leftarrow> smalloc_pool_blocks (sm_mp s ! k) (block_size sz);
     let s = s\<lparr>sm_mp := (sm_mp s)[k := p]\<rparr> in
     if hdr = 0 then Some (0, s)
     else let m = mem_store 8 hdr (block_size sz) (sm_mem s);
              m = fill_redzone hdr m;
              m = mem_set (hdr + HDR) 0 sz m in
          Some (hdr + HDR, s\<lparr>sm_mem := m\<rparr>) }"

text \<open>The inner loop: the pools from \<open>i\<close> on; the counter when it stops.\<close>

function try_pools :: "nat \<Rightarrow> nat \<Rightarrow> smalloc_state \<Rightarrow> (nat \<times> nat \<times> smalloc_state) option" where
  "try_pools sz i s =
     (if i < sm_nr_pools s then do {
        (ptr, s') \<leftarrow> smalloc_pool i sz s;
        if ptr \<noteq> 0 then Some (ptr, i, s') else try_pools sz (i + 1) s' }
      else Some (0, i, s))"
  by pat_completeness auto

lemma smalloc_pool_frame:
  assumes "smalloc_pool k sz s = Some (ptr, s')"
  shows "sm_nr_pools s' = sm_nr_pools s" and "sm_last_pool s' = sm_last_pool s"
    and "length (sm_mp s') = length (sm_mp s)"
  using assms by (auto simp: smalloc_pool_def Let_def split: Option.bind_splits if_splits prod.splits)

termination try_pools
  by (relation "measure (\<lambda>(sz, i, s). sm_nr_pools s - i)") (auto dest: smalloc_pool_frame)

declare try_pools.simps [simp del]

text \<open>
  The outer loop. A \<open>continue\<close> goes to its condition, so \<open>i\<close> keeps its value when
  \<open>last_pool\<close> is reset.
\<close>

function smalloc_loop :: "os_answer \<Rightarrow> nat \<Rightarrow> nat \<Rightarrow> smalloc_state \<Rightarrow> (nat \<times> smalloc_state) option" where
  "smalloc_loop os sz i s = do {
     (ptr, i, s) \<leftarrow> try_pools sz i s;
     if ptr \<noteq> 0 then Some (ptr, s\<lparr>sm_last_pool := i\<rparr>)
     else if sm_last_pool s \<noteq> 0 then smalloc_loop os sz i (s\<lparr>sm_last_pool := 0\<rparr>)
     else if MAX_POOLS < sm_nr_pools s + 1 then Some (0, s)
     else let i = sm_nr_pools s; (failed, s') = add_pool os i sz s in
          if failed then Some (0, s') else smalloc_loop os sz i s' }"
  by pat_completeness auto

lemma try_pools_frame:
  "try_pools sz i s = Some (ptr, j, s') \<Longrightarrow>
     sm_nr_pools s' = sm_nr_pools s \<and> sm_last_pool s' = sm_last_pool s \<and> length (sm_mp s') = length (sm_mp s)"
proof (induction sz i s arbitrary: ptr j s' rule: try_pools.induct)
  case (1 sz i s)
  show ?case
  proof (cases "i < sm_nr_pools s")
    case True
    with "1.prems" obtain q t where t: "smalloc_pool i sz s = Some (q, t)"
      and r: "(if q \<noteq> 0 then Some (q, i, t) else try_pools sz (i + 1) t) = Some (ptr, j, s')"
      by (subst (asm) try_pools.simps) (auto split: Option.bind_splits)
    note f = smalloc_pool_frame [OF t]
    show ?thesis
    proof (cases "q = 0")
      case True
      with r have "try_pools sz (i + 1) t = Some (ptr, j, s')" by simp
      then show ?thesis using "1.IH" [OF \<open>i < sm_nr_pools s\<close> t refl] f True by simp
    next
      case False
      with r f show ?thesis by simp
    qed
  next
    case False
    with "1.prems" show ?thesis by (subst (asm) try_pools.simps) simp
  qed
qed

lemma add_pool_frame:
  assumes "add_pool os k sz s = (failed, s')"
  shows "sm_last_pool s' = sm_last_pool s" and "length (sm_mp s') = length (sm_mp s)"
    and "\<not> failed \<Longrightarrow> sm_nr_pools s' = sm_nr_pools s + 1"
    and "failed \<Longrightarrow> sm_nr_pools s' = sm_nr_pools s"
  using assms by (auto simp: add_pool_def Let_def split: prod.splits option.splits if_splits)

termination smalloc_loop
  by (relation "measure (\<lambda>(os, sz, i, s). 2 * (MAX_POOLS - sm_nr_pools s) + of_bool (sm_last_pool s \<noteq> 0))")
    (auto dest!: try_pools_frame dest: add_pool_frame(1,3) [OF sym])

declare smalloc_loop.simps [simp del]

definition smalloc :: "os_answer \<Rightarrow> nat \<Rightarrow> smalloc_state \<Rightarrow> (nat \<times> smalloc_state) option" where
  "smalloc os sz s =
     (if u32_of sz \<noteq> sz then Some (0, s) else smalloc_loop os sz (sm_last_pool s) s)"

text \<open>The string \<open>str\<close> without its terminating zero; \<open>strcpy\<close> to \<open>NULL\<close> is undefined.\<close>

definition mem_bytes :: "nat \<Rightarrow> u8 list \<Rightarrow> memory \<Rightarrow> memory" where
  "mem_bytes a bs m = (\<lambda>x. if a \<le> x \<and> x < a + length bs then bs ! (x - a) else m x)"

definition smalloc_strdup :: "os_answer \<Rightarrow> u8 list \<Rightarrow> smalloc_state \<Rightarrow> (nat \<times> smalloc_state) option" where
  "smalloc_strdup os str s = do {
     (ptr, s) \<leftarrow> smalloc os (length str + 1) s;
     c_assert (ptr \<noteq> 0);
     Some (ptr, s\<lparr>sm_mem := mem_bytes ptr (str @ [0]) (sm_mem s)\<rparr>) }"

end
