(* ===== verification/Smalloc_Correct.thy ===== *)
theory Smalloc_Correct
  imports Smalloc
begin

text \<open>
  The allocator of shared memory hands out blocks that do not overlap, with both guard words
  intact, and every live block can be freed. The blocks of a pool are numbered
  \<open>32 * i + idx\<close>; the busy ones are the bits set in the bitmap.
\<close>

section \<open>Memory\<close>

lemma mem_load_cong:
  "(\<And>x. a \<le> x \<Longrightarrow> x < a + n \<Longrightarrow> m x = m' x) \<Longrightarrow> mem_load n a m = mem_load n a m'"
  by (induction n arbitrary: a) auto

lemma mem_load_store_disjoint:
  "a + n \<le> b \<or> b + k \<le> a \<Longrightarrow> mem_load n a (mem_store k b v m) = mem_load n a m"
  by (rule mem_load_cong) (auto simp: mem_store_def)

lemma mem_load_set_disjoint:
  "a + n \<le> b \<or> b + k \<le> a \<Longrightarrow> mem_load n a (mem_set b c k m) = mem_load n a m"
  by (rule mem_load_cong) (auto simp: mem_set_def)

lemma mem_load_store_aux:
  "\<forall>i < n. m (a + i) = of_nat (v div 256 ^ i) \<Longrightarrow> mem_load n a m = v mod 256 ^ n"
proof (induction n arbitrary: a v)
  case (Suc n)
  have "m (Suc a + i) = of_nat (v div 256 div 256 ^ i)" if "i < n" for i
    using Suc.prems [rule_format, of "Suc i"] that by (simp add: div_mult2_eq)
  then have 1: "mem_load n (Suc a) m = v div 256 mod 256 ^ n" by (intro Suc.IH) simp
  have 2: "unat (m a) = v mod 256"
    using Suc.prems [rule_format, of 0] by (simp add: unat_of_nat)
  show ?case by (simp add: 1 2 mod_mult2_eq)
qed simp

lemma mem_load_store_same: "v < 256 ^ n \<Longrightarrow> mem_load n a (mem_store n a v m) = v"
  by (subst mem_load_store_aux [where v = v]) (auto simp: mem_store_def)

section \<open>The bitmap\<close>

definition busy :: "u32 list \<Rightarrow> nat set" where
  "busy bm = {b. b < 32 * length bm \<and> bit (bm ! (b div 32)) (b mod 32)}"

lemma busy_update:
  assumes "i < length bm"
  shows "b \<in> busy (bm[i := w]) \<longleftrightarrow>
    b < 32 * length bm \<and> (if b div 32 = i then bit w (b mod 32) else b \<in> busy bm)"
  using assms by (auto simp: busy_def nth_list_update)

lemma finite_busy [simp]: "finite (busy bm)"
  by (rule finite_subset [of _ "{..< 32 * length bm}"]) (auto simp: busy_def)

lemma busy_replicate_0 [simp]: "busy (replicate n 0) = {}"
  by (auto simp: busy_def less_mult_imp_div_less mult.commute)

lemma block_mask_bits:
  assumes "n + idx \<le> 32" and "0 < n"
  shows "\<exists>m. block_mask n idx = Some m \<and> (\<forall>j. bit m j \<longleftrightarrow> idx \<le> j \<and> j < idx + n)"
proof (cases "n = 32")
  case True
  with assms have "idx = 0" by simp
  with True show ?thesis by (auto simp: block_mask_def bit_minus_1_iff)
next
  case False
  have "push_bit n 1 - 1 = (mask n :: u32)" by (simp add: mask_eq_exp_minus_1)
  with False assms show ?thesis
    by (auto simp: block_mask_def bit_push_bit_iff bit_mask_iff)
qed

text \<open>The number of blocks a pass of the loop takes in the word, and the pass itself.\<close>

lemma blocks_iter_step:
  assumes "idx < 32" "0 < n" "n + 32 < 2 ^ 32" "length (p_bitmap p) = p_nr_blocks p" "i < p_nr_blocks p"
  obtains m where "\<forall>j. bit m j \<longleftrightarrow> idx \<le> j \<and> j < idx + min n (32 - idx)"
    and "blocks_iter p i idx n f = do {
          (ok, w) \<leftarrow> f (p_bitmap p ! i) m;
          let p' = p\<lparr>p_bitmap := (p_bitmap p)[i := w]\<rparr> in
          if \<not> ok then Some (False, p') else blocks_iter p' (i + 1) 0 (n - min n (32 - idx)) f }"
proof -
  define t where "t = min n (32 - idx)"
  have t: "t + idx \<le> 32" "0 < t" using assms by (auto simp: t_def)
  from block_mask_bits [OF t] obtain m where
    m: "block_mask t idx = Some m" "\<forall>j. bit m j \<longleftrightarrow> idx \<le> j \<and> j < idx + t" by blast
  have n: "u32_of n = n" "u32_of (n + idx) = n + idx" "u32_of (2 ^ 32 + 32 - idx) = 32 - idx"
  proof -
    have "(2 :: nat) ^ 32 + 32 - idx = 32 - idx + 2 ^ 32" using assms(1) by linarith
    then have "u32_of (2 ^ 32 + 32 - idx) = (32 - idx) mod 2 ^ 32"
      by (simp only: u32_of_def mod_add_self2)
    then show "u32_of (2 ^ 32 + 32 - idx) = 32 - idx" by simp
    show "u32_of n = n" "u32_of (n + idx) = n + idx"
      unfolding u32_of_def by (rule mod_less; use assms in linarith)+
  qed
  have t': "(if 32 < u32_of (u32_of n + idx) then u32_of (2 ^ 32 + 32 - idx) else u32_of n) = t"
    unfolding n t_def by auto
  have "blocks_iter p i idx n f = do {
          (ok, w) \<leftarrow> f (p_bitmap p ! i) m;
          let p' = p\<lparr>p_bitmap := (p_bitmap p)[i := w]\<rparr> in
          if \<not> ok then Some (False, p') else blocks_iter p' (i + 1) 0 (n - t) f }"
  proof -
    have c: "(n = 0) = False" "(p_nr_blocks p \<le> i) = False" "rd (p_bitmap p) i = Some (p_bitmap p ! i)"
      using assms by simp_all
    show ?thesis
      by (subst blocks_iter.simps) (simp only: c if_False Let_def t' m(1) Option.bind.bind_lunit)
  qed
  with m(2) show ?thesis using that unfolding t_def by blast
qed

abbreviation blocks :: "nat \<Rightarrow> nat \<Rightarrow> nat \<Rightarrow> nat set" where
  "blocks i idx n \<equiv> {32 * i + idx ..< 32 * i + idx + n}"

lemma in_word_iff: "32 * i + idx \<le> b \<and> b < 32 * i + idx + min n (32 - idx) \<longleftrightarrow>
    b div 32 = i \<and> idx \<le> b mod 32 \<and> b mod 32 < idx + min n (32 - idx)" if "idx < 32" for i b :: nat
proof -
  define q where "q = b div 32"
  define r where "r = b mod 32"
  define t where "t = min n (32 - idx)"
  note q_def r_def t_def
  then have b: "b = 32 * q + r" "b div 32 = q" "b mod 32 = r" "r < 32" "idx + t \<le> 32"
    using that by simp_all
  have "q = i" if "32 * i + idx \<le> 32 * q + r" "32 * q + r < 32 * i + idx + t"
  proof -
    have "32 * i < 32 * (q + 1)" using that b(4,5) by (simp only: distrib_left)
    moreover have "32 * q < 32 * (i + 1)" using that b(4,5) by (simp only: distrib_left)
    ultimately show "q = i" by simp
  qed
  then show ?thesis unfolding b(2,3) t_def [symmetric] using b(1) by auto
qed

lemma word_blocks:
  assumes "idx < 32" and "\<forall>j. bit m j \<longleftrightarrow> idx \<le> j \<and> j < idx + min n (32 - idx)"
  shows "b \<in> blocks i idx (min n (32 - idx)) \<longleftrightarrow> b div 32 = i \<and> bit m (b mod 32)"
  using in_word_iff [OF assms(1), of i b n] assms(2) by simp

lemma blocks_split:
  assumes "idx < 32"
  shows "blocks i idx n = blocks i idx (min n (32 - idx)) \<union> blocks (i + 1) 0 (n - min n (32 - idx))"
    and "i < N \<Longrightarrow> 32 * i + idx + n \<le> 32 * N \<longleftrightarrow> 32 * (i + 1) + 0 + (n - min n (32 - idx)) \<le> 32 * N"
proof -
  show "blocks i idx n = blocks i idx (min n (32 - idx)) \<union> blocks (i + 1) 0 (n - min n (32 - idx))"
    using assms by (cases "n \<le> 32 - idx") auto
  show "32 * i + idx + n \<le> 32 * N \<longleftrightarrow> 32 * (i + 1) + 0 + (n - min n (32 - idx)) \<le> 32 * N" if "i < N"
    using assms that by (cases "n \<le> 32 - idx") auto
qed

lemma mem_busy_word:
  "i < length bm \<Longrightarrow> b div 32 = i \<Longrightarrow> b \<in> busy bm \<longleftrightarrow> bit (bm ! i) (b mod 32)"
  by (auto simp: busy_def less_mult_imp_div_less)

lemma busy_word_disjoint:
  assumes "i < length bm" "idx < 32" "\<forall>j. bit m j \<longleftrightarrow> idx \<le> j \<and> j < idx + min n (32 - idx)"
  shows "bm ! i AND m = 0 \<longleftrightarrow> blocks i idx (min n (32 - idx)) \<inter> busy bm = {}"
proof -
  have "bm ! i AND m = 0 \<longleftrightarrow> (\<forall>j < 32. \<not> (bit (bm ! i) j \<and> bit m j))"
    by (simp add: word_eq_0_iff_bit bit_and_iff)
  also have "\<dots> \<longleftrightarrow> (\<forall>b. b div 32 = i \<longrightarrow> \<not> (bit (bm ! i) (b mod 32) \<and> bit m (b mod 32)))"
  proof safe
    fix j assume *: "\<forall>b. b div 32 = i \<longrightarrow> \<not> (bit (bm ! i) (b mod 32) \<and> bit m (b mod 32))"
      and "j < 32" "bit (bm ! i) j" "bit m j"
    then show False using * [rule_format, of "32 * i + j"] by simp
  qed (simp add: mod_less_divisor)
  also have "\<dots> \<longleftrightarrow> blocks i idx (min n (32 - idx)) \<inter> busy bm = {}"
    using word_blocks [OF assms(2,3), of _ i] mem_busy_word [OF assms(1)] by blast
  finally show ?thesis .
qed

lemma blocks_iter_cmp:
  assumes "idx < 32" "n + 32 < 2 ^ 32" "length (p_bitmap p) = p_nr_blocks p"
    "32 * i + idx \<le> 32 * p_nr_blocks p"
  shows "blocks_iter p i idx n mask_cmp =
    Some (32 * i + idx + n \<le> 32 * p_nr_blocks p \<and> blocks i idx n \<inter> busy (p_bitmap p) = {}, p)"
  using assms
proof (induction n arbitrary: i idx rule: less_induct)
  case (less n)
  show ?case
  proof (cases "n = 0 \<or> p_nr_blocks p \<le> i")
    case True
    with less.prems show ?thesis by (subst blocks_iter.simps) auto
  next
    case False
    then have i: "0 < n" "i < p_nr_blocks p" "i < length (p_bitmap p)" using less.prems by simp_all
    define t where "t = min n (32 - idx)"
    obtain m where m: "\<forall>j. bit m j \<longleftrightarrow> idx \<le> j \<and> j < idx + min n (32 - idx)"
      and step: "blocks_iter p i idx n mask_cmp = do {
          (ok, w) \<leftarrow> mask_cmp (p_bitmap p ! i) m;
          let p' = p\<lparr>p_bitmap := (p_bitmap p)[i := w]\<rparr> in
          if \<not> ok then Some (False, p') else blocks_iter p' (i + 1) 0 (n - min n (32 - idx)) mask_cmp }"
      using blocks_iter_step [OF less.prems(1) i(1) less.prems(2,3) i(2)] .
    note d = busy_word_disjoint [OF i(3) less.prems(1) m, folded t_def]
    note sp = blocks_split(1) [OF less.prems(1), of i n, folded t_def]
      blocks_split(2) [OF less.prems(1) i(2), of n, folded t_def]
    have t: "n - t < n" using i less.prems(1) by (simp add: t_def)
    have p: "p\<lparr>p_bitmap := (p_bitmap p)[i := p_bitmap p ! i]\<rparr> = p" by simp
    show ?thesis
    proof (cases "p_bitmap p ! i AND m = 0")
      case True
      have "blocks_iter p i idx n mask_cmp = blocks_iter p (i + 1) 0 (n - t) mask_cmp"
        by (simp add: step mask_cmp_def True t_def)
      also have "\<dots> = Some (32 * (i + 1) + 0 + (n - t) \<le> 32 * p_nr_blocks p
          \<and> blocks (i + 1) 0 (n - t) \<inter> busy (p_bitmap p) = {}, p)"
        by (rule less.IH [OF t]) (use less.prems i in auto)
      finally show ?thesis using d True sp by (simp only: Int_Un_distrib2 Un_empty) simp
    next
      case False
      with d have "blocks i idx n \<inter> busy (p_bitmap p) \<noteq> {}"
        by (simp only: sp(1) Int_Un_distrib2 Un_empty) simp
      moreover have "blocks_iter p i idx n mask_cmp = Some (False, p)"
        by (simp add: step) (simp add: mask_cmp_def False)
      ultimately show ?thesis by simp
    qed
  qed
qed

text \<open>
  Setting and clearing are one lemma: \<open>f\<close> writes the bit \<open>c\<close> at the places of the mask and
  asserts that they held the opposite.
\<close>

lemma blocks_iter_write:
  assumes f: "\<And>w m. (\<forall>j. bit m j \<longrightarrow> bit w j \<noteq> c) \<Longrightarrow>
      \<exists>w'. f w m = Some (True, w') \<and> (\<forall>j. bit w' j \<longleftrightarrow> (if bit m j then c else bit w j))"
    and "idx < 32" "n + 32 < 2 ^ 32" "length (p_bitmap p) = p_nr_blocks p"
    "32 * i + idx + n \<le> 32 * p_nr_blocks p" "\<forall>b \<in> blocks i idx n. b \<in> busy (p_bitmap p) \<longleftrightarrow> \<not> c"
  shows "\<exists>bm. blocks_iter p i idx n f = Some (True, p\<lparr>p_bitmap := bm\<rparr>) \<and> length bm = p_nr_blocks p
    \<and> (\<forall>b. b \<in> busy bm \<longleftrightarrow> (if b \<in> blocks i idx n then c else b \<in> busy (p_bitmap p)))"
  using assms(2-)
proof (induction n arbitrary: i idx p rule: less_induct)
  case (less n)
  show ?case
  proof (cases "n = 0")
    case True
    with less.prems show ?thesis
      by (subst blocks_iter.simps) (auto intro!: exI [of _ "p_bitmap p"])
  next
    case False
    with less.prems have i: "0 < n" "i < p_nr_blocks p" "i < length (p_bitmap p)" by simp_all
    define t where "t = min n (32 - idx)"
    obtain m where m: "\<forall>j. bit m j \<longleftrightarrow> idx \<le> j \<and> j < idx + min n (32 - idx)"
      and step: "blocks_iter p i idx n f = do {
          (ok, w) \<leftarrow> f (p_bitmap p ! i) m;
          let p' = p\<lparr>p_bitmap := (p_bitmap p)[i := w]\<rparr> in
          if \<not> ok then Some (False, p') else blocks_iter p' (i + 1) 0 (n - min n (32 - idx)) f }"
      using blocks_iter_step [OF less.prems(1) i(1) less.prems(2,3) i(2)] .
    note wb = word_blocks [OF less.prems(1) m, folded t_def]
    note sp = blocks_split(1) [OF less.prems(1), of i n, folded t_def]
      blocks_split(2) [OF less.prems(1) i(2), of n, folded t_def]
    have t: "n - t < n" using i less.prems(1) by (simp add: t_def)
    have "\<forall>j. bit m j \<longrightarrow> bit (p_bitmap p ! i) j \<noteq> c"
    proof (intro allI impI)
      fix j assume "bit m j"
      moreover from this have "j < 32" by (auto dest: bit_imp_le_length)
      ultimately have b: "32 * i + j \<in> blocks i idx t"
        using wb [of "32 * i + j" i] by simp
      then have "32 * i + j \<in> busy (p_bitmap p) \<longleftrightarrow> \<not> c" using less.prems(5) sp(1) by blast
      then show "bit (p_bitmap p ! i) j \<noteq> c"
        using mem_busy_word [OF i(3), of "32 * i + j"] \<open>j < 32\<close> by simp
    qed
    from f [OF this] obtain w where
      w: "f (p_bitmap p ! i) m = Some (True, w)" "\<forall>j. bit w j \<longleftrightarrow> (if bit m j then c else bit (p_bitmap p ! i) j)"
      by blast
    define p' where "p' = p\<lparr>p_bitmap := (p_bitmap p)[i := w]\<rparr>"
    have b': "b \<in> busy (p_bitmap p') \<longleftrightarrow> (if b \<in> blocks i idx t then c else b \<in> busy (p_bitmap p))" for b
    proof (cases "b div 32 = i")
      case True
      have "b < 32 * length (p_bitmap p)" using True i(3) by auto
      then show ?thesis
        using busy_update [OF i(3), of b w] mem_busy_word [OF i(3) True] wb [of b i] w(2) True
        by (simp add: p'_def)
    next
      case False
      have "b \<in> busy (p_bitmap p) \<Longrightarrow> b < 32 * length (p_bitmap p)" by (simp add: busy_def)
      then show ?thesis
        using busy_update [OF i(3), of b w] wb [of b i] False by (auto simp: p'_def)
    qed
    have "p_nr_blocks p' = p_nr_blocks p" by (simp add: p'_def)
    have "\<exists>bm. blocks_iter p' (i + 1) 0 (n - t) f = Some (True, p'\<lparr>p_bitmap := bm\<rparr>) \<and> length bm = p_nr_blocks p'
      \<and> (\<forall>b. b \<in> busy bm \<longleftrightarrow> (if b \<in> blocks (i + 1) 0 (n - t) then c else b \<in> busy (p_bitmap p')))"
    proof (rule less.IH [OF t])
      show "\<forall>b \<in> blocks (i + 1) 0 (n - t). b \<in> busy (p_bitmap p') \<longleftrightarrow> \<not> c"
      proof
        fix b assume b: "b \<in> blocks (i + 1) 0 (n - t)"
        then have "b \<notin> blocks i idx t" by (auto simp: t_def)
        moreover have "b \<in> blocks i idx n" unfolding sp(1) using b by (rule UnI2)
        ultimately show "b \<in> busy (p_bitmap p') \<longleftrightarrow> \<not> c"
          unfolding b' using less.prems(5) by (simp only: if_False)
      qed
    qed (use less.prems sp(2) in \<open>simp_all add: p'_def\<close>)
    then obtain bm where bm: "blocks_iter p' (i + 1) 0 (n - t) f = Some (True, p'\<lparr>p_bitmap := bm\<rparr>)"
        "length bm = p_nr_blocks p'"
        "\<And>b. b \<in> busy bm \<longleftrightarrow> (if b \<in> blocks (i + 1) 0 (n - t) then c else b \<in> busy (p_bitmap p'))"
      by blast
    have "blocks_iter p i idx n f = Some (True, p\<lparr>p_bitmap := bm\<rparr>)"
      unfolding step w(1) t_def [symmetric] using bm(1) by (simp add: p'_def)
    moreover have "b \<in> busy bm \<longleftrightarrow> (if b \<in> blocks i idx n then c else b \<in> busy (p_bitmap p))" for b
      unfolding bm(3) b' sp(1) Un_iff
      by (cases "b \<in> blocks i idx t"; cases "b \<in> blocks (i + 1) 0 (n - t)"; simp only: simp_thms if_True if_False)
    ultimately show ?thesis using bm(2) \<open>p_nr_blocks p' = p_nr_blocks p\<close> by (intro exI [of _ bm]) simp
  qed
qed

lemma set_blocks_busy:
  assumes "idx < 32" "n + 32 < 2 ^ 32" "length (p_bitmap p) = p_nr_blocks p"
    "32 * i + idx + n \<le> 32 * p_nr_blocks p" "blocks i idx n \<inter> busy (p_bitmap p) = {}"
  shows "\<exists>bm. set_blocks p i idx n = Some (p\<lparr>p_bitmap := bm\<rparr>) \<and> length bm = p_nr_blocks p
    \<and> busy bm = busy (p_bitmap p) \<union> blocks i idx n"
proof -
  have "\<exists>w'. mask_set w m = Some (True, w') \<and> (\<forall>j. bit w' j \<longleftrightarrow> (if bit m j then True else bit w j))"
    if "\<forall>j. bit m j \<longrightarrow> bit w j \<noteq> True" for w m
    using that by (auto simp: mask_set_def word_eq_0_iff_bit bit_and_iff bit_or_iff c_assert_def)
  from blocks_iter_write [of True mask_set, OF this assms(1-4)] assms(5)
  obtain bm where "blocks_iter p i idx n mask_set = Some (True, p\<lparr>p_bitmap := bm\<rparr>)" "length bm = p_nr_blocks p"
    and b: "\<And>b. b \<in> busy bm \<longleftrightarrow> (if b \<in> blocks i idx n then True else b \<in> busy (p_bitmap p))"
    by blast
  moreover have "busy bm = busy (p_bitmap p) \<union> blocks i idx n" by (rule set_eqI) (subst b, auto)
  ultimately show ?thesis by (intro exI [of _ bm]) (simp add: set_blocks_def)
qed

lemma clear_blocks_busy:
  assumes "idx < 32" "n + 32 < 2 ^ 32" "length (p_bitmap p) = p_nr_blocks p"
    "32 * i + idx + n \<le> 32 * p_nr_blocks p" "blocks i idx n \<subseteq> busy (p_bitmap p)"
  shows "\<exists>bm. clear_blocks p i idx n = Some (p\<lparr>p_bitmap := bm\<rparr>) \<and> length bm = p_nr_blocks p
    \<and> busy bm = busy (p_bitmap p) - blocks i idx n"
proof -
  have "\<exists>w'. mask_clear w m = Some (True, w') \<and> (\<forall>j. bit w' j \<longleftrightarrow> (if bit m j then False else bit w j))"
    if "\<forall>j. bit m j \<longrightarrow> bit w j \<noteq> False" for w m
  proof -
    have "w AND m = m" using that by (auto simp: bit_eq_iff bit_and_iff)
    then show ?thesis
        by (auto simp: mask_clear_def bit_and_iff bit_not_iff dest: bit_imp_le_length)
  qed
  from blocks_iter_write [of False mask_clear, OF this assms(1-4)] assms(5)
  obtain bm where "blocks_iter p i idx n mask_clear = Some (True, p\<lparr>p_bitmap := bm\<rparr>)" "length bm = p_nr_blocks p"
    and b: "\<And>b. b \<in> busy bm \<longleftrightarrow> (if b \<in> blocks i idx n then False else b \<in> busy (p_bitmap p))"
    by blast
  moreover have "busy bm = busy (p_bitmap p) - blocks i idx n" by (rule set_eqI) (subst b, auto)
  ultimately show ?thesis by (intro exI [of _ bm]) (simp add: clear_blocks_def)
qed

lemma blocks_free_iff:
  assumes "idx < 32" "n + 32 < 2 ^ 32" "length (p_bitmap p) = p_nr_blocks p" "i < p_nr_blocks p"
  shows "blocks_free p i idx n =
    Some (32 * i + idx + n \<le> 32 * p_nr_blocks p \<and> blocks i idx n \<inter> busy (p_bitmap p) = {})"
  using assms by (simp add: blocks_free_def blocks_iter_cmp)

section \<open>The next free block of a word\<close>

lemma bit_find_next_zero:
  assumes "start < 32"
  shows "bit (scast (signed_drop_bit start (w :: u32)) :: u64) j \<longleftrightarrow> j < 64 \<and> bit w (min (start + j) 31)"
proof -
  show ?thesis
  proof (cases "start = 0")
    case True
    then show ?thesis
      by (auto simp: bit_word_scast_iff min_def dest: bit_imp_le_length)
  next
    case False
    consider "start + j < 31" | "start + j = 31" | "31 < start + j" "j < 32" | "32 \<le> j" by linarith
    then show ?thesis
      by cases (use assms False in \<open>auto simp: bit_word_scast_iff bit_signed_drop_bit_iff min_def dest: bit_imp_le_length\<close>)
  qed
qed

text \<open>
  When no block from \<open>start\<close> on is free the answer is at least 63: the copies of the sign
  bit leave \<open>ffz\<close> no zero to find.
\<close>

lemma find_next_zero_cases:
  assumes "word \<noteq> - 1" "start < 32"
  obtains idx where "find_next_zero word start = Some idx" "start \<le> idx" "idx < 32" "\<not> bit word idx"
    | "find_next_zero word start = Some (63 + start)" "\<forall>j. start \<le> j \<and> j < 32 \<longrightarrow> bit word j"
proof -
  define x where "x = (scast (signed_drop_bit start word) :: u64)"
  note bx = bit_find_next_zero [OF assms(2), of word, folded x_def]
  have fz: "find_next_zero word start = Some (ffz x + start)"
    using assms(1) by (simp add: find_next_zero_def x_def)
  show ?thesis
  proof (cases "\<forall>j. start \<le> j \<and> j < 32 \<longrightarrow> bit word j")
    case True
    then have "x = - 1" using assms(2) by (intro bit_eqI) (simp add: bx bit_minus_1_iff min_def)
    then have "ffz x = 63" by (simp add: ffz_def ffs_0)
    with fz True show ?thesis using that(2) by simp
  next
    case False
    then obtain j where j: "start \<le> j" "j < 32" "\<not> bit word j" by blast
    then have "\<not> bit x (j - start)" by (simp add: bx min_def le_less_Suc_eq)
    moreover from this have ne: "x \<noteq> - 1" using j by (auto simp: bit_minus_1_iff)
    ultimately have le: "ffz x \<le> j - start" using ffz_correct(3) [OF ne, of "j - start"] by (meson not_le)
    then have "ffz x + start < 32" using j by simp
    moreover have "\<not> bit word (ffz x + start)"
      using ffz_correct(1) [OF ne] ffz_correct(2) [OF ne] calculation by (simp add: bx min_def add.commute)
    ultimately show ?thesis using that(1) [OF fz] by simp
  qed
qed

lemma blocks_free_undefined:
  assumes "63 \<le> idx" "idx < 95" "0 < n" "n + 100 < 2 ^ 32" "i < p_nr_blocks p"
  shows "blocks_free p i idx n = None"
proof -
  have "u32_of n = n" "u32_of (n + idx) = n + idx"
    unfolding u32_of_def by (rule mod_less; use assms in linarith)+
  moreover have "u32_of (2 ^ 32 + 32 - idx) = 2 ^ 32 + 32 - idx"
    unfolding u32_of_def by (rule mod_less) (use assms in linarith)
  moreover have "block_mask (2 ^ 32 + 32 - idx) idx = None"
    using assms by (simp add: block_mask_def)
  ultimately have "blocks_iter p i idx n mask_cmp = None"
    using assms by (subst blocks_iter.simps) (simp add: Let_def)
  then show ?thesis by (simp add: blocks_free_def)
qed

definition bitmap_ok :: "pool \<Rightarrow> bool" where
  "bitmap_ok p \<longleftrightarrow> length (p_bitmap p) = p_nr_blocks p \<and> p_nr_blocks p < 2 ^ 22
     \<and> p_next_non_full p \<le> p_nr_blocks p
     \<and> p_free_blocks p + card (busy (p_bitmap p)) = 32 * p_nr_blocks p"

lemma bitmap_ok_next [simp]:
  "bitmap_ok p \<Longrightarrow> j \<le> p_nr_blocks p \<Longrightarrow> bitmap_ok (p\<lparr>p_next_non_full := j\<rparr>)"
  by (simp add: bitmap_ok_def)

text \<open>What a search that ends leaves behind.\<close>

definition search_ok :: "pool \<Rightarrow> nat \<Rightarrow> pool \<Rightarrow> (nat \<times> nat) option \<Rightarrow> bool" where
  "search_ok p n p' r \<longleftrightarrow> (\<exists>j \<le> p_nr_blocks p. case r of
       None \<Rightarrow> p' = p\<lparr>p_next_non_full := j\<rparr>
     | Some (i, idx) \<Rightarrow> idx < 32 \<and> i < p_nr_blocks p \<and> 32 * i + idx + n \<le> 32 * p_nr_blocks p
         \<and> blocks i idx n \<inter> busy (p_bitmap p) = {}
         \<and> (\<exists>bm. p' = p\<lparr>p_next_non_full := j, p_bitmap := bm\<rparr> \<and> length bm = p_nr_blocks p
               \<and> busy bm = busy (p_bitmap p) \<union> blocks i idx n))"

lemma search_ok_next:
  "search_ok (p\<lparr>p_next_non_full := j\<rparr>) n p' r \<Longrightarrow> search_ok p n p' r"
  by (cases r) (simp_all add: search_ok_def split_beta)

lemma search_ok_None:
  assumes "bitmap_ok p"
  shows "search_ok p n p None"
  using assms by (auto simp: search_ok_def bitmap_ok_def intro!: exI [of _ "p_next_non_full p"])

lemma search_ok_found:
  assumes "bitmap_ok p" "0 < n" "n < 2 ^ 30" "i < p_nr_blocks p" "idx < 32"
    "blocks_free p i idx n = Some True" "set_blocks p i idx n = Some p'"
  shows "search_ok p n p' (Some (i, idx))"
proof -
  from assms have l: "length (p_bitmap p) = p_nr_blocks p" "n + 32 < 2 ^ 32" by (simp_all add: bitmap_ok_def)
  from assms(6) have f: "32 * i + idx + n \<le> 32 * p_nr_blocks p" "blocks i idx n \<inter> busy (p_bitmap p) = {}"
    using blocks_free_iff [OF assms(5) l(2,1) assms(4)] by simp_all
  from set_blocks_busy [OF assms(5) l(2,1) f] assms(7) obtain bm where
    "p' = p\<lparr>p_bitmap := bm\<rparr>" "length bm = p_nr_blocks p" "busy bm = busy (p_bitmap p) \<union> blocks i idx n"
    by auto
  moreover from this have "p' = p\<lparr>p_next_non_full := p_next_non_full p, p_bitmap := bm\<rparr>" by simp
  ultimately show ?thesis using assms(1,4,5) f
    unfolding search_ok_def bitmap_ok_def option.case prod.case by blast
qed

lemma search_blocks_ok:
  assumes "search_blocks p n i last_idx = Some res"
  shows "bitmap_ok p \<longrightarrow> 0 < n \<longrightarrow> n < 2 ^ 30 \<longrightarrow> last_idx < 32 \<longrightarrow> search_ok p n (fst res) (snd res)"
proof (rule search_blocks.raw_induct [where P = "\<lambda>p n i last_idx res.
    bitmap_ok p \<longrightarrow> 0 < n \<longrightarrow> n < 2 ^ 30 \<longrightarrow> last_idx < 32 \<longrightarrow> search_ok p n (fst res) (snd res)", OF _ assms],
    intro impI, goal_cases)
  case (1 search p n i last_idx res)
  show ?case
  proof (cases "p_nr_blocks p \<le> i")
    case True
    with 1 show ?thesis by (auto intro: search_ok_None)
  next
    case False
    then have rd: "rd (p_bitmap p) i = Some (p_bitmap p ! i)" using 1(3) by (simp add: bitmap_ok_def)
    show ?thesis
    proof (cases "p_bitmap p ! i = - 1")
      case True
      with 1(2) rd False have "search (p\<lparr>p_next_non_full := i + 1\<rparr>) n (i + 1) 0 = Some res" by simp
      from 1(1) [OF this] 1(3-5) False have "search_ok (p\<lparr>p_next_non_full := i + 1\<rparr>) n (fst res) (snd res)" by simp
      then show ?thesis by (rule search_ok_next)
    next
      case ne: False
      from 1(2) rd False ne obtain idx free where
        idx: "find_next_zero (p_bitmap p ! i) last_idx = Some idx"
        and free: "blocks_free p i idx n = Some free"
        and r: "(if \<not> free then
            let idx = u32_of (idx + n) in
            if idx < 32 then search p n i idx else search p n (i + idx div 32) 0
          else do { p \<leftarrow> set_blocks p i idx n; Some (p, Some (i, idx)) }) = Some res"
        by (auto split: Option.bind_splits)
      have "idx < 32"
      proof (rule find_next_zero_cases [OF ne 1(6)])
        assume "find_next_zero (p_bitmap p ! i) last_idx = Some (63 + last_idx)"
        with idx have "idx = 63 + last_idx" by simp
        with free blocks_free_undefined [of idx n i p] 1(4-6) False show ?thesis by simp
      qed (use idx in auto)
      show ?thesis
      proof (cases free)
        case True
        with r obtain p' where "set_blocks p i idx n = Some p'" "res = (p', Some (i, idx))"
          by (auto split: Option.bind_splits)
        with search_ok_found [OF 1(3-5) _ \<open>idx < 32\<close>] free True False show ?thesis by simp
      next
        case False
        with r 1(1,3-5) show ?thesis by (auto simp: Let_def split: if_splits)
      qed
    qed
  qed
qed

text \<open>A request of one block never meets the word without a zero: the search starts at bit 0.\<close>

lemma search_blocks_one:
  assumes "bitmap_ok p"
  shows "search_blocks p 1 i 0 \<noteq> None"
  using assms
proof (induction "p_nr_blocks p - i" arbitrary: i p)
  case 0
  then show ?case by (subst search_blocks.simps) simp
next
  case (Suc k)
  then have i: "i < p_nr_blocks p" "i < length (p_bitmap p)" by (simp_all add: bitmap_ok_def)
  show ?case
  proof (cases "p_bitmap p ! i = - 1")
    case True
    have "search_blocks (p\<lparr>p_next_non_full := i + 1\<rparr>) 1 (i + 1) 0 \<noteq> None"
      by (rule Suc.hyps(1)) (use Suc.hyps(2) Suc.prems i in auto)
    with True i show ?thesis by (subst search_blocks.simps) simp
  next
    case False
    obtain idx where idx: "find_next_zero (p_bitmap p ! i) 0 = Some idx" "idx < 32" "\<not> bit (p_bitmap p ! i) idx"
    proof (rule find_next_zero_cases [OF False, of 0])
      assume "\<forall>j. 0 \<le> j \<and> j < 32 \<longrightarrow> bit (p_bitmap p ! i) j"
      then have "p_bitmap p ! i = - 1" by (simp add: word_eq_minus_1_iff)
      with False show ?thesis by simp
    qed (use that in auto)
    have l: "length (p_bitmap p) = p_nr_blocks p" using Suc.prems by (simp add: bitmap_ok_def)
    have "32 * i + idx \<notin> busy (p_bitmap p)"
      using mem_busy_word [OF i(2), of "32 * i + idx"] idx by simp
    then have f: "blocks i idx 1 \<inter> busy (p_bitmap p) = {}" "32 * i + idx + 1 \<le> 32 * p_nr_blocks p"
      using i idx by auto
    from set_blocks_busy [OF idx(2) _ l f(2,1)] obtain bm
      where "set_blocks p i idx 1 = Some (p\<lparr>p_bitmap := bm\<rparr>)" by auto
    moreover have "blocks_free p i idx 1 = Some True"
      using blocks_free_iff [OF idx(2) _ l i(1), of 1] f by simp
    ultimately show ?thesis using False i idx(1) by (subst search_blocks.simps) simp
  qed
qed

text \<open>A pool with no busy block serves every request that fits.\<close>

lemma search_blocks_fresh:
  assumes "bitmap_ok p" "busy (p_bitmap p) = {}" "0 < n" "n < 2 ^ 30" "n \<le> 32 * p_nr_blocks p"
  shows "\<exists>p'. search_blocks p n 0 0 = Some (p', Some (0, 0))"
proof -
  have l: "length (p_bitmap p) = p_nr_blocks p" "n + 32 < 2 ^ 32" "0 < p_nr_blocks p"
    using assms by (auto simp: bitmap_ok_def intro: Nat.gr0I)
  have nb: "\<not> bit (p_bitmap p ! 0) 0"
    using mem_busy_word [of 0 "p_bitmap p" 0] l assms(2) by simp
  then have ne: "p_bitmap p ! 0 \<noteq> - 1" by (auto simp: bit_minus_1_iff)
  have "find_next_zero (p_bitmap p ! 0) 0 = Some 0"
  proof -
    define x where "x = (scast (signed_drop_bit 0 (p_bitmap p ! 0)) :: u64)"
    have b0: "\<not> bit x 0" using nb bit_find_next_zero [of 0 "p_bitmap p ! 0" 0] by (simp add: x_def)
    then have "x \<noteq> - 1" by (auto simp: bit_minus_1_iff)
    from ffz_correct(3) [OF this, of 0] b0 have "ffz x = 0" by auto
    with ne show ?thesis by (simp add: find_next_zero_def x_def)
  qed
  moreover have "blocks_free p 0 0 n = Some True"
    using blocks_free_iff [of 0, OF _ l(2,1,3)] assms(2,5) by simp
  moreover obtain bm where "set_blocks p 0 0 n = Some (p\<lparr>p_bitmap := bm\<rparr>)"
    using set_blocks_busy [of 0, OF _ l(2,1), of 0] assms(2,5) by auto
  ultimately show ?thesis using ne l by (subst search_blocks.simps) simp
qed

section \<open>Allocating from a pool\<close>

text \<open>The pool after \<open>n\<close> blocks from \<open>b\<close> on have been taken.\<close>

definition took :: "pool \<Rightarrow> nat \<Rightarrow> nat \<Rightarrow> pool \<Rightarrow> bool" where
  "took p b n p' \<longleftrightarrow> b + n \<le> 32 * p_nr_blocks p \<and> {b ..< b + n} \<inter> busy (p_bitmap p) = {}
     \<and> bitmap_ok p' \<and> busy (p_bitmap p') = busy (p_bitmap p) \<union> {b ..< b + n}
     \<and> p_map p' = p_map p \<and> p_nr_blocks p' = p_nr_blocks p \<and> p_mmap_size p' = p_mmap_size p"

lemma size_to_blocks_bounds:
  assumes "0 < sz" "sz < 2 ^ 34"
  shows "0 < size_to_blocks sz" "size_to_blocks sz < 2 ^ 30" "sz \<le> 32 * size_to_blocks sz"
  using assms by (auto simp: size_to_blocks_def div_greater_zero_iff)

lemma took_search_ok:
  assumes "bitmap_ok p" "search_ok p n p' (Some (i, idx))" "n \<le> p_free_blocks p"
  shows "took p (32 * i + idx) n (p'\<lparr>p_free_blocks := p_free_blocks p' - n\<rparr>)"
proof -
  from assms(2) obtain j bm where *: "j \<le> p_nr_blocks p" "32 * i + idx + n \<le> 32 * p_nr_blocks p"
      "blocks i idx n \<inter> busy (p_bitmap p) = {}" "p' = p\<lparr>p_next_non_full := j, p_bitmap := bm\<rparr>"
      "length bm = p_nr_blocks p" "busy bm = busy (p_bitmap p) \<union> blocks i idx n"
    by (auto simp: search_ok_def)
  have "card (busy bm) = card (busy (p_bitmap p)) + n"
    using *(3) by (simp add: *(6) card_Un_disjoint Int_commute)
  with * assms(1,3) show ?thesis by (auto simp: took_def bitmap_ok_def)
qed

lemma smalloc_pool_blocks_ok:
  assumes "bitmap_ok p" "0 < sz" "sz < 2 ^ 34" "smalloc_pool_blocks p sz = Some (hdr, p')"
  shows "hdr = 0 \<and> (\<exists>j \<le> p_nr_blocks p. p' = p\<lparr>p_next_non_full := j\<rparr>)
    \<or> (\<exists>b. hdr = p_map p + 32 * b \<and> took p b (size_to_blocks sz) p')"
proof -
  define n where "n = size_to_blocks sz"
  note n = size_to_blocks_bounds [OF assms(2,3), folded n_def]
  show ?thesis
  proof (cases "p_free_blocks p < n")
    case True
    with assms(1,4) have "hdr = 0" "p' = p\<lparr>p_next_non_full := p_next_non_full p\<rparr>" "p_next_non_full p \<le> p_nr_blocks p"
      by (simp_all add: smalloc_pool_blocks_def n_def bitmap_ok_def)
    then show ?thesis by blast
  next
    case False
    with assms(4) obtain q r where q: "search_blocks p n (u32_of (p_next_non_full p)) 0 = Some (q, r)"
      and r: "(case r of None \<Rightarrow> Some (0, q)
        | Some (i, idx) \<Rightarrow> Some (p_map q + u32_of (i * 1024 + idx * 32), q\<lparr>p_free_blocks := p_free_blocks q - n\<rparr>))
        = Some (hdr, p')"
      by (auto simp: smalloc_pool_blocks_def n_def [symmetric] Let_def split: Option.bind_splits)
    from search_blocks_ok [OF q] assms(1) n have ok: "search_ok p n q r" by simp
    show ?thesis
    proof (cases r)
      case None
      with ok r show ?thesis by (auto simp: search_ok_def)
    next
      case (Some x)
      then obtain i idx where x: "r = Some (i, idx)" by (cases x) simp
      with ok have "i < 2 ^ 22" "idx < 32" "p_map q = p_map p" using assms(1) by (auto simp: search_ok_def bitmap_ok_def)
      then have "u32_of (i * 1024 + idx * 32) = 32 * (32 * i + idx)" by (simp add: u32_of_def)
      with r x \<open>p_map q = p_map p\<close> have "hdr = p_map p + 32 * (32 * i + idx)"
          "p' = q\<lparr>p_free_blocks := p_free_blocks q - n\<rparr>" by simp_all
      with took_search_ok [OF assms(1) ok [unfolded x]] False show ?thesis
        unfolding n_def [symmetric] by (intro disjI2 exI [of _ "32 * i + idx"]) simp
    qed
  qed
qed

end
