(* ===== verification/Smalloc_Heap.thy ===== *)
theory Smalloc_Heap
  imports Smalloc_Correct
begin

text \<open>
  The heap that \<open>smalloc\<close> and \<open>sfree\<close> keep over all the pools, seen by the program that
  uses it: an invariant over the pools, the memory and the objects that are live, a step relation
  of what the program may do, and what every reachable state promises.
\<close>

section \<open>Objects\<close>

text \<open>A live object: its pool, its first block and the size that was asked for.\<close>

type_synonym obj = "nat \<times> nat \<times> nat"

definition nblk :: "nat \<Rightarrow> nat" where
  "nblk sz = size_to_blocks (block_size sz)"

definition obj_hdr :: "smalloc_state \<Rightarrow> obj \<Rightarrow> nat" where
  "obj_hdr s o' = p_map (sm_mp s ! fst o') + 32 * fst (snd o')"

definition header_ok :: "nat \<Rightarrow> nat \<Rightarrow> memory \<Rightarrow> bool" where
  "header_ok hdr sz m \<longleftrightarrow> mem_load 8 hdr m = block_size sz
     \<and> mem_load 4 (hdr + 8) m = SMALLOC_PRE_RED
     \<and> mem_load 4 (hdr + block_size sz - 4) m = SMALLOC_POST_RED"

definition obj_ok :: "smalloc_state \<Rightarrow> obj \<Rightarrow> bool" where
  "obj_ok s o' = (case o' of (k, b, sz) \<Rightarrow>
     k < sm_nr_pools s \<and> sz < 2 ^ 32 \<and> b + nblk sz \<le> 32 * p_nr_blocks (sm_mp s ! k)
     \<and> header_ok (obj_hdr s o') sz (sm_mem s))"

definition obj_disjoint :: "obj \<Rightarrow> obj \<Rightarrow> bool" where
  "obj_disjoint = (\<lambda>(k, b, sz) (k', b', sz'). k \<noteq> k' \<or> b + nblk sz \<le> b' \<or> b' + nblk sz' \<le> b)"

text \<open>The blocks that the objects of pool \<open>k\<close> hold.\<close>

fun objs_blocks :: "nat \<Rightarrow> obj list \<Rightarrow> nat set" where
  "objs_blocks k [] = {}"
| "objs_blocks k ((k', b, sz) # os) = (if k = k' then {b ..< b + nblk sz} else {}) \<union> objs_blocks k os"

section \<open>The invariant\<close>

definition pool_ok :: "pool \<Rightarrow> bool" where
  "pool_ok p \<longleftrightarrow> bitmap_ok p \<and> 0 < p_map p \<and> p_map p mod 4 = 0
     \<and> p_nr_blocks p * 1024 \<le> p_mmap_size p"

definition apart :: "pool \<Rightarrow> pool \<Rightarrow> bool" where
  "apart p q \<longleftrightarrow> p_map p + p_mmap_size p \<le> p_map q \<or> p_map q + p_mmap_size q \<le> p_map p"

definition pools_ok :: "smalloc_state \<Rightarrow> bool" where
  "pools_ok s \<longleftrightarrow> length (sm_mp s) = MAX_POOLS \<and> sm_nr_pools s \<le> MAX_POOLS
     \<and> (\<forall>k < sm_nr_pools s. pool_ok (sm_mp s ! k))
     \<and> (\<forall>k < sm_nr_pools s. \<forall>j < sm_nr_pools s. k \<noteq> j \<longrightarrow> apart (sm_mp s ! k) (sm_mp s ! j))
     \<and> (\<forall>k < MAX_POOLS. sm_nr_pools s \<le> k \<longrightarrow> p_next_non_full (sm_mp s ! k) = 0)"

definition heap_inv :: "smalloc_state \<Rightarrow> obj list \<Rightarrow> bool" where
  "heap_inv s os \<longleftrightarrow> pools_ok s \<and> (\<forall>o' \<in> set os. obj_ok s o') \<and> sorted_wrt obj_disjoint os
     \<and> (\<forall>k < sm_nr_pools s. busy (p_bitmap (sm_mp s ! k)) = objs_blocks k os)"

section \<open>Sizes and headers\<close>

lemma block_size_bounds: "sz + 20 \<le> block_size sz" "block_size sz \<le> sz + 23" "block_size sz mod 4 = 0"
  by (auto simp: block_size_def)

lemma nblk_bounds:
  assumes "sz < 2 ^ 32"
  shows "0 < nblk sz" "nblk sz < 2 ^ 30" "block_size sz \<le> 32 * nblk sz"
  using size_to_blocks_bounds [of "block_size sz"] block_size_bounds [of sz] assms
  by (simp_all add: nblk_def)

text \<open>The memory of a block that has been prepared for the program.\<close>

definition prepared :: "nat \<Rightarrow> nat \<Rightarrow> memory \<Rightarrow> memory" where
  "prepared hdr sz m = mem_set (hdr + HDR) 0 sz (fill_redzone hdr (mem_store 8 hdr (block_size sz) m))"

lemma postred_ptr_eq:
  assumes "hdr mod 4 = 0" "mem_load 8 hdr m = block_size sz"
  shows "postred_ptr hdr m = hdr + block_size sz - 4"
proof -
  have "(hdr + block_size sz) mod 4 = 0" using assms(1) block_size_bounds(3) [of sz] by presburger
  then show ?thesis
    using block_size_bounds(1) [of sz] by (simp add: postred_ptr_def assms(2)) presburger
qed

lemma prepared_header:
  assumes "hdr mod 4 = 0" "sz < 2 ^ 32"
  shows "header_ok hdr sz (prepared hdr sz m)"
    and "x < hdr \<or> hdr + block_size sz \<le> x \<Longrightarrow> prepared hdr sz m x = m x"
    and "i < sz \<Longrightarrow> prepared hdr sz m (hdr + HDR + i) = 0"
proof -
  note b = block_size_bounds [of sz]
  define m1 where "m1 = mem_store 8 hdr (block_size sz) m"
  have "block_size sz < 256 ^ 8" using b assms(2) by simp
  then have 1: "mem_load 8 hdr m1 = block_size sz" unfolding m1_def by (rule mem_load_store_same)
  note pp = postred_ptr_eq [OF assms(1) 1]
  have p: "prepared hdr sz m = mem_set (hdr + HDR) 0 sz
      (mem_store 4 (hdr + block_size sz - 4) SMALLOC_POST_RED (mem_store 4 (hdr + 8) SMALLOC_PRE_RED m1))"
    by (simp add: prepared_def fill_redzone_def m1_def [symmetric] pp)
  show "header_ok hdr sz (prepared hdr sz m)"
    unfolding header_ok_def p using b
    by (simp add: mem_load_set_disjoint mem_load_store_disjoint mem_load_store_same 1)
  show "x < hdr \<or> hdr + block_size sz \<le> x \<Longrightarrow> prepared hdr sz m x = m x"
    unfolding p using b by (auto simp: mem_set_def mem_store_def m1_def)
  show "i < sz \<Longrightarrow> prepared hdr sz m (hdr + HDR + i) = 0"
    unfolding p by (simp add: mem_set_def)
qed

lemma header_ok_cong:
  assumes "header_ok hdr sz m" "\<And>x. hdr \<le> x \<Longrightarrow> x < hdr + block_size sz \<Longrightarrow>
    x < hdr + HDR \<or> hdr + HDR + sz \<le> x \<Longrightarrow> m' x = m x"
  shows "header_ok hdr sz m'"
proof -
  note b = block_size_bounds [of sz]
  have "mem_load 8 hdr m' = mem_load 8 hdr m"
    by (rule mem_load_cong, rule assms(2)) (use b(1,2) in linarith)+
  moreover have "mem_load 4 (hdr + 8) m' = mem_load 4 (hdr + 8) m"
    by (rule mem_load_cong, rule assms(2)) (use b(1,2) in linarith)+
  moreover have "mem_load 4 (hdr + block_size sz - 4) m' = mem_load 4 (hdr + block_size sz - 4) m"
    by (rule mem_load_cong, rule assms(2)) (use b(1,2) in linarith)+
  ultimately show ?thesis using assms(1) by (simp add: header_ok_def)
qed

section \<open>Objects do not share memory\<close>

lemma pools_okD:
  assumes "pools_ok s" "k < sm_nr_pools s"
  shows "pool_ok (sm_mp s ! k)" "k < length (sm_mp s)"
  using assms by (auto simp: pools_ok_def)

definition in_pool :: "smalloc_state \<Rightarrow> obj \<Rightarrow> bool" where
  "in_pool s o' = (case o' of (k, b, sz) \<Rightarrow>
     k < sm_nr_pools s \<and> b + nblk sz \<le> 32 * p_nr_blocks (sm_mp s ! k))"

lemma obj_ok_in_pool: "obj_ok s o' \<Longrightarrow> in_pool s o'"
  by (auto simp: obj_ok_def in_pool_def)

lemma obj_memory_disjoint:
  assumes "pools_ok s" "in_pool s x" "in_pool s y" "obj_disjoint x y"
  shows "obj_hdr s x + 32 * nblk (snd (snd x)) \<le> obj_hdr s y
    \<or> obj_hdr s y + 32 * nblk (snd (snd y)) \<le> obj_hdr s x"
proof -
  obtain k b sz k' b' sz' where xy: "x = (k, b, sz)" "y = (k', b', sz')" by (cases x, cases y) blast
  from assms have k: "k < sm_nr_pools s" "k' < sm_nr_pools s"
      "b + nblk sz \<le> 32 * p_nr_blocks (sm_mp s ! k)" "b' + nblk sz' \<le> 32 * p_nr_blocks (sm_mp s ! k')"
    by (simp_all add: in_pool_def xy)
  show ?thesis
  proof (cases "k = k'")
    case True
    with assms(4) show ?thesis by (auto simp: obj_disjoint_def obj_hdr_def xy)
  next
    case False
    with assms(1) k have "apart (sm_mp s ! k) (sm_mp s ! k')" by (simp add: pools_ok_def)
    moreover note pools_okD(1) [OF assms(1) k(1)] pools_okD(1) [OF assms(1) k(2)]
    ultimately show ?thesis using k(3,4) by (auto simp: apart_def pool_ok_def obj_hdr_def xy)
  qed
qed

text \<open>What an object needs of a later state.\<close>

definition pools_kept :: "smalloc_state \<Rightarrow> smalloc_state \<Rightarrow> bool" where
  "pools_kept s s' \<longleftrightarrow> sm_nr_pools s \<le> sm_nr_pools s' \<and> (\<forall>k < sm_nr_pools s.
     p_map (sm_mp s' ! k) = p_map (sm_mp s ! k) \<and> p_nr_blocks (sm_mp s' ! k) = p_nr_blocks (sm_mp s ! k)
     \<and> p_mmap_size (sm_mp s' ! k) = p_mmap_size (sm_mp s ! k))"

lemma pools_kept_refl [simp]: "pools_kept s s"
  by (simp add: pools_kept_def)

lemma pools_kept_trans: "pools_kept s t \<Longrightarrow> pools_kept t u \<Longrightarrow> pools_kept s u"
  by (auto simp: pools_kept_def)

lemma obj_hdr_kept: "pools_kept s s' \<Longrightarrow> obj_ok s o' \<Longrightarrow> obj_hdr s' o' = obj_hdr s o'"
  by (auto simp: pools_kept_def obj_ok_def obj_hdr_def)

lemma obj_ok_frame:
  assumes "obj_ok s o'" "pools_kept s s'"
    "\<And>x. obj_hdr s o' \<le> x \<Longrightarrow> x < obj_hdr s o' + 32 * nblk (snd (snd o')) \<Longrightarrow>
      x < obj_hdr s o' + HDR \<or> obj_hdr s o' + HDR + snd (snd o') \<le> x \<Longrightarrow> sm_mem s' x = sm_mem s x"
  shows "obj_ok s' o'"
proof -
  obtain k b sz where o': "o' = (k, b, sz)" by (cases o') blast
  with assms(1) have "header_ok (obj_hdr s o') sz (sm_mem s)" "sz < 2 ^ 32" by (simp_all add: obj_ok_def)
  have "header_ok (obj_hdr s o') sz (sm_mem s')"
  proof (rule header_ok_cong)
    fix x assume "obj_hdr s o' \<le> x" "x < obj_hdr s o' + block_size sz"
      "x < obj_hdr s o' + HDR \<or> obj_hdr s o' + HDR + sz \<le> x"
    moreover from this have "x < obj_hdr s o' + 32 * nblk sz"
      using nblk_bounds(3) [OF \<open>sz < 2 ^ 32\<close>] by linarith
    ultimately show "sm_mem s' x = sm_mem s x" using assms(3) [of x] by (simp only: o' snd_conv)
  qed (fact \<open>header_ok (obj_hdr s o') sz (sm_mem s)\<close>)
  then have "header_ok (obj_hdr s' o') sz (sm_mem s')" by (simp add: obj_hdr_kept [OF assms(2,1)])
  then show ?thesis using assms(1,2) by (auto simp: o' obj_ok_def pools_kept_def)
qed
section \<open>Every operation keeps the invariant\<close>

text \<open>One pool changes, its place in memory does not.\<close>

definition same_place :: "pool \<Rightarrow> pool \<Rightarrow> bool" where
  "same_place p p' \<longleftrightarrow> p_map p' = p_map p \<and> p_nr_blocks p' = p_nr_blocks p \<and> p_mmap_size p' = p_mmap_size p"

lemma heap_inv_change:
  assumes inv: "heap_inv s os" and k: "k < sm_nr_pools s"
    and p': "bitmap_ok p'" "same_place (sm_mp s ! k) p'"
    and s': "sm_mp s' = (sm_mp s)[k := p']" "sm_nr_pools s' = sm_nr_pools s"
    and os': "\<forall>o' \<in> set os'. obj_ok s' o'" "sorted_wrt obj_disjoint os'" "busy (p_bitmap p') = objs_blocks k os'"
      "\<And>j. j \<noteq> k \<Longrightarrow> objs_blocks j os' = objs_blocks j os"
  shows "heap_inv s' os'"
proof -
  from inv have po: "pools_ok s" and bo: "\<And>j. j < sm_nr_pools s \<Longrightarrow> busy (p_bitmap (sm_mp s ! j)) = objs_blocks j os"
    by (simp_all add: heap_inv_def)
  note kl = pools_okD [OF po k]
  have nth: "sm_mp s' ! j = (if j = k then p' else sm_mp s ! j)" for j
    using kl(2) by (simp add: s' nth_list_update)
  have "pool_ok p'" using kl(1) p' by (simp add: pool_ok_def same_place_def)
  moreover have "apart (sm_mp s' ! i) (sm_mp s' ! j) = apart (sm_mp s ! i) (sm_mp s ! j)" for i j
    using p'(2) by (simp add: nth apart_def same_place_def)
  moreover have "length (sm_mp s') = length (sm_mp s)" by (simp add: s'(1))
  ultimately have "pools_ok s'" using po k unfolding pools_ok_def s'(2) by (simp add: nth)
  moreover have "busy (p_bitmap (sm_mp s' ! j)) = objs_blocks j os'" if "j < sm_nr_pools s'" for j
    using that bo [of j] os'(3,4) by (simp add: nth s'(2))
  ultimately show ?thesis using os'(1,2) by (simp add: heap_inv_def)
qed

lemma pools_kept_change:
  "same_place (sm_mp s ! k) p' \<Longrightarrow> k < length (sm_mp s) \<Longrightarrow> sm_mp s' = (sm_mp s)[k := p'] \<Longrightarrow>
    sm_nr_pools s' = sm_nr_pools s \<Longrightarrow> pools_kept s s'"
  by (auto simp: pools_kept_def same_place_def nth_list_update)

lemma objs_blocks_disjoint:
  "{b ..< b + nblk sz} \<inter> objs_blocks k os = {} \<Longrightarrow> 0 < nblk sz \<Longrightarrow> \<forall>o' \<in> set os. 0 < nblk (snd (snd o')) \<Longrightarrow>
    \<forall>o' \<in> set os. obj_disjoint (k, b, sz) o'"
proof (induction os)
  case (Cons x os)
  obtain k' b' sz' where x: "x = (k', b', sz')" by (cases x) blast
  from Cons have "\<forall>o' \<in> set os. obj_disjoint (k, b, sz) o'" by (auto simp: x)
  moreover have "obj_disjoint (k, b, sz) x"
  proof (cases "k = k'")
    case True
    with Cons.prems have d: "{b ..< b + nblk sz} \<inter> {b' ..< b' + nblk sz'} = {}" "0 < nblk sz'"
      by (auto simp add: x Int_Un_distrib)
    have "b + nblk sz \<le> b' \<or> b' + nblk sz' \<le> b"
    proof (rule ccontr)
      assume "\<not> ?thesis"
      then have "max b b' \<in> {b ..< b + nblk sz} \<inter> {b' ..< b' + nblk sz'}"
        using d(2) Cons.prems(2) by auto
      with d(1) show False by blast
    qed
    then show ?thesis by (simp add: x obj_disjoint_def)
  qed (simp add: x obj_disjoint_def)
  ultimately show ?case by simp
qed simp

text \<open>What an allocation promises; the bytes of the objects that were live stay as they are.\<close>

definition data_kept :: "smalloc_state \<Rightarrow> obj list \<Rightarrow> smalloc_state \<Rightarrow> bool" where
  "data_kept s os s' \<longleftrightarrow> (\<forall>o' \<in> set os. \<forall>i < snd (snd o').
     sm_mem s' (obj_hdr s o' + HDR + i) = sm_mem s (obj_hdr s o' + HDR + i))"

definition alloc_ok :: "smalloc_state \<Rightarrow> obj list \<Rightarrow> nat \<Rightarrow> nat \<Rightarrow> smalloc_state \<Rightarrow> bool" where
  "alloc_ok s os sz ptr s' \<longleftrightarrow> pools_kept s s' \<and> data_kept s os s' \<and>
     (if ptr = 0 then heap_inv s' os
      else \<exists>k b. heap_inv s' ((k, b, sz) # os) \<and> ptr = obj_hdr s' (k, b, sz) + HDR
        \<and> (\<forall>i < sz. sm_mem s' (ptr + i) = 0))"

lemma data_keptI:
  assumes "\<forall>o' \<in> set os. obj_ok s o'"
    and out: "\<And>o' x. o' \<in> set os \<Longrightarrow> obj_hdr s o' \<le> x \<Longrightarrow>
      x < obj_hdr s o' + 32 * nblk (snd (snd o')) \<Longrightarrow> sm_mem s' x = sm_mem s x"
  shows "data_kept s os s'"
  unfolding data_kept_def
proof (intro ballI allI impI)
  fix o' i assume o': "o' \<in> set os" and i: "i < snd (snd o')"
  with assms(1) have "snd (snd o') < 2 ^ 32" by (auto simp: obj_ok_def)
  from nblk_bounds(3) [OF this] block_size_bounds(1) [of "snd (snd o')"] i
  show "sm_mem s' (obj_hdr s o' + HDR + i) = sm_mem s (obj_hdr s o' + HDR + i)"
    by (intro out [OF o']) linarith+
qed

lemma data_kept_trans:
  assumes "data_kept s os t" "data_kept t os u" "pools_kept s t" "\<forall>o' \<in> set os. obj_ok s o'"
  shows "data_kept s os u"
  using assms obj_hdr_kept [OF assms(3)] by (simp add: data_kept_def)

lemma data_kept_same: "sm_mem s' = sm_mem s \<Longrightarrow> data_kept s os s'"
  by (simp add: data_kept_def)

lemma alloc_ok_trans:
  assumes "heap_inv s os" "alloc_ok s os sz 0 t" "alloc_ok t os sz ptr s'"
  shows "alloc_ok s os sz ptr s'"
proof -
  from assms have pk: "pools_kept s t" "pools_kept t s'" and dk: "data_kept s os t" "data_kept t os s'"
    by (simp_all add: alloc_ok_def)
  from assms(1) have oo: "\<forall>o' \<in> set os. obj_ok s o'" by (simp add: heap_inv_def)
  from data_kept_trans [OF dk pk(1) oo] pools_kept_trans [OF pk] show ?thesis
    using assms(3) unfolding alloc_ok_def by simp
qed

lemma smalloc_pool_inv:
  assumes inv: "heap_inv s os" and k: "k < sm_nr_pools s" and sz: "sz < 2 ^ 32"
    and r: "smalloc_pool k sz s = Some (ptr, s')"
  shows "alloc_ok s os sz ptr s'"
proof -
  define p where "p = sm_mp s ! k"
  from inv have po: "pools_ok s" and oo: "\<forall>o' \<in> set os. obj_ok s o'" and so: "sorted_wrt obj_disjoint os"
    and bo: "busy (p_bitmap p) = objs_blocks k os"
    using k by (simp_all add: heap_inv_def p_def)
  note kp = pools_okD [OF po k, folded p_def]
  then have bm: "bitmap_ok p" "0 < p_map p" "p_map p mod 4 = 0" by (simp_all add: pool_ok_def)
  from r obtain hdr p' where
    h: "smalloc_pool_blocks p (block_size sz) = Some (hdr, p')"
    and r': "(if hdr = 0 then Some (0, s\<lparr>sm_mp := (sm_mp s)[k := p']\<rparr>)
      else Some (hdr + HDR, s\<lparr>sm_mp := (sm_mp s)[k := p'], sm_mem := prepared hdr sz (sm_mem s)\<rparr>)) = Some (ptr, s')"
    unfolding smalloc_pool_def p_def [symmetric] by (cases "smalloc_pool_blocks p (block_size sz)")
      (auto simp: prepared_def Let_def cong: if_cong)
  have "0 < block_size sz" "block_size sz < 2 ^ 34" using block_size_bounds [of sz] sz by simp_all
  from smalloc_pool_blocks_ok [OF bm(1) this h]
  consider j where "hdr = 0" "j \<le> p_nr_blocks p" "p' = p\<lparr>p_next_non_full := j\<rparr>"
    | b where "hdr = p_map p + 32 * b" "took p b (nblk sz) p'"
    by (auto simp: nblk_def)
  then show ?thesis
  proof cases
    case 1
    with r' have s': "ptr = 0" "s' = s\<lparr>sm_mp := (sm_mp s)[k := p']\<rparr>" by simp_all
    have pl: "same_place (sm_mp s ! k) p'" "bitmap_ok p'"
      using 1(2) bm(1) by (simp_all add: same_place_def p_def 1(3))
    have pk: "pools_kept s s'" by (rule pools_kept_change [OF pl(1)]) (use s' kp(2) in auto)
    have "obj_ok s' o'" if "o' \<in> set os" for o'
      using oo that by (intro obj_ok_frame [of s o', OF _ pk]) (simp_all add: s')
    then have "heap_inv s' os"
      using bo so 1(3) s' by (intro heap_inv_change [OF inv k pl(2,1)]) auto
    then show ?thesis using pk s' by (simp add: alloc_ok_def data_kept_same)
  next
    case 2
    then have hdr: "0 < hdr" "hdr mod 4 = 0" using bm(2,3) by (auto simp: mod_add_eq)
    with r' have s': "ptr = hdr + HDR" "s' = s\<lparr>sm_mp := (sm_mp s)[k := p'], sm_mem := prepared hdr sz (sm_mem s)\<rparr>"
      by simp_all
    note pr = prepared_header [OF hdr(2) sz, where m = "sm_mem s"]
    note nb = nblk_bounds [OF sz]
    have pl: "same_place (sm_mp s ! k) p'" "bitmap_ok p'"
      using 2(2) by (simp_all add: same_place_def p_def took_def)
    have pk: "pools_kept s s'" by (rule pools_kept_change [OF pl(1)]) (use s' kp(2) in auto)
    have oh: "obj_hdr s' (k, b, sz) = hdr" using kp(2) pl(1) 2(1) by (simp add: obj_hdr_def s' same_place_def p_def)
    have ok1: "obj_ok s' (k, b, sz)"
      using k sz 2(2) kp(2) pr(1) oh by (simp add: obj_ok_def s' took_def)
    have dj: "\<forall>o' \<in> set os. obj_disjoint (k, b, sz) o'"
    proof (rule objs_blocks_disjoint)
      show "{b ..< b + nblk sz} \<inter> objs_blocks k os = {}" using 2(2) bo by (simp add: took_def)
      show "\<forall>o' \<in> set os. 0 < nblk (snd (snd o'))" using oo nblk_bounds(1) by (fastforce simp: obj_ok_def)
    qed (rule nb)
    have out: "sm_mem s' x = sm_mem s x" if o': "o' \<in> set os"
      and x: "obj_hdr s o' \<le> x" "x < obj_hdr s o' + 32 * nblk (snd (snd o'))" for o' x
    proof -
      from oo o' have oo': "obj_ok s o'" by blast
      have so': "in_pool s (k, b, sz)" using k 2(2) by (simp add: in_pool_def took_def p_def)
      have "obj_hdr s (k, b, sz) = hdr" using 2(1) by (simp add: obj_hdr_def p_def)
      moreover have "obj_hdr s (k, b, sz) + 32 * nblk sz \<le> obj_hdr s o'
          \<or> obj_hdr s o' + 32 * nblk (snd (snd o')) \<le> obj_hdr s (k, b, sz)"
        using obj_memory_disjoint [OF po so' obj_ok_in_pool [OF oo'] bspec [OF dj o']] by simp
      ultimately have "x < hdr \<or> hdr + block_size sz \<le> x" using x nb(3) by linarith
      then show ?thesis using pr(2) by (simp add: s')
    qed
    have ok2: "obj_ok s' o'" if "o' \<in> set os" for o'
      using oo that out by (intro obj_ok_frame [of s o', OF _ pk]) simp_all
    have dk: "data_kept s os s'" by (rule data_keptI [OF oo out])
    have "heap_inv s' ((k, b, sz) # os)"
    proof (rule heap_inv_change [OF inv k pl(2,1)])
      show "busy (p_bitmap p') = objs_blocks k ((k, b, sz) # os)" using 2(2) bo by (auto simp: took_def)
    qed (use s' ok1 ok2 dj so in auto)
    moreover have "\<forall>i < sz. sm_mem s' (ptr + i) = 0" using pr(3) s' by simp
    ultimately have "\<exists>k b. heap_inv s' ((k, b, sz) # os) \<and> ptr = obj_hdr s' (k, b, sz) + HDR
        \<and> (\<forall>i < sz. sm_mem s' (ptr + i) = 0)"
      by (intro exI [of _ k] exI [of _ b]) (simp only: oh s'(1) simp_thms)
    then show ?thesis using pk dk s'(1) hdr(1) by (simp add: alloc_ok_def)
  qed
qed

lemma try_pools_inv:
  assumes "heap_inv s os" "sz < 2 ^ 32" "try_pools sz i s = Some (ptr, j, s')"
  shows "alloc_ok s os sz ptr s'"
  using assms
proof (induction sz i s arbitrary: ptr j s' rule: try_pools.induct)
  case (1 sz i s)
  show ?case
  proof (cases "i < sm_nr_pools s")
    case True
    with "1.prems"(3) obtain q t where t: "smalloc_pool i sz s = Some (q, t)"
      and r: "(if q \<noteq> 0 then Some (q, i, t) else try_pools sz (i + 1) t) = Some (ptr, j, s')"
      by (subst (asm) try_pools.simps) (auto split: Option.bind_splits)
    note a = smalloc_pool_inv [OF "1.prems"(1) True "1.prems"(2) t]
    show ?thesis
    proof (cases "q = 0")
      case True
      with a have "heap_inv t os" by (simp add: alloc_ok_def)
      from "1.IH" [OF \<open>i < sm_nr_pools s\<close> t refl _ this "1.prems"(2)] r True
      show ?thesis using alloc_ok_trans [OF "1.prems"(1)] a by simp
    next
      case False
      with r a show ?thesis by simp
    qed
  next
    case False
    with "1.prems" show ?thesis
      by (subst (asm) try_pools.simps) (simp add: alloc_ok_def data_kept_same)
  qed
qed

section \<open>A new pool\<close>

text \<open>For requests below \<open>2 ^ 31\<close> the sizes of a new pool do not wrap.\<close>

lemma pool_geometry_bounds:
  assumes "sz < 2 ^ 31" "pool_geometry sz = (nr, bytes)"
  shows "nr < 2 ^ 22" "bytes = nr * 1028" "block_size sz \<le> nr * 1024"
proof -
  define a where "a = max INITIAL_SIZE (sz + 20)"
  have "u32_of (u32_of (sz + 4) + HDR) = sz + 20" using assms(1) by (simp add: u32_of_def)
  then have a: "(if u32_of (u32_of (sz + 4) + HDR) < INITIAL_SIZE then INITIAL_SIZE
      else u32_of (u32_of (sz + 4) + HDR)) = a" by (auto simp: a_def)
  define q where "q = (a + 1023) div 1024"
  have a32: "a < 2 ^ 31 + 20" using assms(1) by (auto simp: a_def)
  then have q: "q < 2 ^ 22 - 2 ^ 14" "a \<le> q * 1024" by (auto simp: q_def)
  from q(1) have "u32_of (q * 1024) = q * 1024" "u32_of (q * 1024 + q * 4) = q * 1024 + q * 4"
    by (simp_all add: u32_of_def)
  moreover have "(a + 1024 - 1) div 1024 = q" by (simp add: q_def)
  ultimately have "pool_geometry sz = (q, q * 1024 + q * 4)"
    unfolding pool_geometry_def Let_def a by simp
  with assms(2) have "nr = q" "bytes = q * 1028" by simp_all
  moreover have "block_size sz \<le> q * 1024"
  proof -
    have "sz + 20 \<le> q * 1024" using q(2) by (simp add: a_def)
    then have "(sz + 23) div 4 \<le> (4 * (q * 256) + 3) div 4" by (intro div_le_mono) linarith
    moreover have "(4 * (q * 256) + 3) div 4 = q * 256" by simp
    ultimately have "(sz + 23) div 4 * 4 \<le> q * 256 * 4" by (intro mult_le_mono1) simp
    then show ?thesis by (simp add: block_size_def)
  qed
  ultimately show "nr < 2 ^ 22" "bytes = nr * 1028" "block_size sz \<le> nr * 1024" using q(1) by simp_all
qed

text \<open>
  What \<open>mmap\<close> documents: the address of a page, not null, of a region that no other mapping
  holds.
\<close>

definition os_fresh :: "os_answer \<Rightarrow> nat \<Rightarrow> smalloc_state \<Rightarrow> bool" where
  "os_fresh os sz s = (case fst os of
     None \<Rightarrow> True
   | Some a \<Rightarrow> 0 < a \<and> a mod 4096 = 0 \<and> (\<forall>k < sm_nr_pools s.
       a + snd (pool_geometry sz) \<le> p_map (sm_mp s ! k)
       \<or> p_map (sm_mp s ! k) + p_mmap_size (sm_mp s ! k) \<le> a))"

lemma objs_blocks_none: "\<forall>o' \<in> set os. fst o' \<noteq> k \<Longrightarrow> objs_blocks k os = {}"
  by (induction os) (auto split: prod.splits)

lemma obj_memory_in_pool:
  assumes "pools_ok s" "in_pool s o'" "obj_hdr s o' \<le> x" "x < obj_hdr s o' + 32 * nblk (snd (snd o'))"
  shows "fst o' < sm_nr_pools s" "p_map (sm_mp s ! fst o') \<le> x"
    "x < p_map (sm_mp s ! fst o') + p_mmap_size (sm_mp s ! fst o')"
proof -
  obtain k b sz where o': "o' = (k, b, sz)" by (cases o') blast
  with assms(2) have k: "k < sm_nr_pools s" "b + nblk sz \<le> 32 * p_nr_blocks (sm_mp s ! k)"
    by (simp_all add: in_pool_def)
  with pools_okD(1) [OF assms(1) k(1)] assms(3,4)
  show "fst o' < sm_nr_pools s" "p_map (sm_mp s ! fst o') \<le> x"
    "x < p_map (sm_mp s ! fst o') + p_mmap_size (sm_mp s ! fst o')"
    by (simp_all add: o' obj_hdr_def pool_ok_def)
qed

text \<open>A change outside all pools, and to the array \<open>mp\<close> above the pools in use.\<close>

lemma heap_inv_outside:
  assumes inv: "heap_inv s os" and mp: "length (sm_mp s') = length (sm_mp s)"
      "\<And>k. k < sm_nr_pools s \<Longrightarrow> sm_mp s' ! k = sm_mp s ! k"
    and mem: "\<And>k x. k < sm_nr_pools s \<Longrightarrow> p_map (sm_mp s ! k) \<le> x \<Longrightarrow>
      x < p_map (sm_mp s ! k) + p_mmap_size (sm_mp s ! k) \<Longrightarrow> sm_mem s' x = sm_mem s x"
    and nr: "sm_nr_pools s \<le> sm_nr_pools s'"
  shows "pools_kept s s'" and "data_kept s os s'" and "\<forall>o' \<in> set os. obj_ok s' o'"
proof -
  from inv have po: "pools_ok s" and oo: "\<forall>o' \<in> set os. obj_ok s o'" by (simp_all add: heap_inv_def)
  show pk: "pools_kept s s'" using mp nr by (simp add: pools_kept_def)
  have out: "sm_mem s' x = sm_mem s x" if "o' \<in> set os" "obj_hdr s o' \<le> x"
      "x < obj_hdr s o' + 32 * nblk (snd (snd o'))" for o' x
    using obj_memory_in_pool [OF po obj_ok_in_pool that(2,3)] oo that(1) mem by blast
  show "\<forall>o' \<in> set os. obj_ok s' o'"
    using oo out by (intro ballI obj_ok_frame [OF _ pk]) blast+
  show "data_kept s os s'" by (rule data_keptI [OF oo out])
qed

lemma add_pool_inv:
  assumes inv: "heap_inv s os" and sz: "sz < 2 ^ 31" and nr: "sm_nr_pools s < MAX_POOLS"
    and fresh: "os_fresh osa sz s" and r: "add_pool osa (sm_nr_pools s) sz s = (failed, s')"
  shows "alloc_ok s os sz 0 s'"
    and "\<not> failed \<Longrightarrow> bitmap_ok (sm_mp s' ! sm_nr_pools s)
      \<and> p_free_blocks (sm_mp s' ! sm_nr_pools s) = 32 * p_nr_blocks (sm_mp s' ! sm_nr_pools s)
      \<and> p_next_non_full (sm_mp s' ! sm_nr_pools s) = 0
      \<and> nblk sz \<le> 32 * p_nr_blocks (sm_mp s' ! sm_nr_pools s)
      \<and> 0 < p_map (sm_mp s' ! sm_nr_pools s)"
    and "\<not> failed \<longleftrightarrow> fst osa \<noteq> None \<and> snd osa"
proof -
  define k where "k = sm_nr_pools s"
  obtain n bytes where g: "pool_geometry sz = (n, bytes)" by (cases "pool_geometry sz")
  note gb = pool_geometry_bounds [OF sz g]
  from inv have po: "pools_ok s" and oo: "\<forall>o' \<in> set os. obj_ok s o'" and so: "sorted_wrt obj_disjoint os"
    and bo: "\<And>j. j < sm_nr_pools s \<Longrightarrow> busy (p_bitmap (sm_mp s ! j)) = objs_blocks j os"
    by (simp_all add: heap_inv_def)
  from po nr have kl: "k < length (sm_mp s)" "k < MAX_POOLS" "length (sm_mp s) = MAX_POOLS"
    "p_next_non_full (sm_mp s ! k) = 0" by (simp_all add: pools_ok_def k_def)
  define p where "p = (sm_mp s ! k)\<lparr>p_mmap_size := bytes, p_nr_blocks := n, p_free_blocks := n * 32\<rparr>"
  define pa where "pa a = p\<lparr>p_map := a, p_bitmap := replicate n 0\<rparr>" for a
  define sa where "sa a = s\<lparr>sm_mp := (sm_mp s)[k := pa a], sm_mem := mem_set a 0 bytes (sm_mem s)\<rparr>" for a
  have bits: "(bytes - n * 1024) div 4 = n" by (simp add: gb(2))
  have r': "(failed, s') = (case osa of (None, _) \<Rightarrow> (True, s\<lparr>sm_mp := (sm_mp s)[k := p]\<rparr>)
      | (Some a, ok) \<Rightarrow> if ok then (False, (sa a)\<lparr>sm_nr_pools := k + 1\<rparr>) else (True, sa a))"
    using r by (cases osa) (auto simp: add_pool_def g p_def pa_def sa_def k_def bits Let_def split: option.splits)
  have mpk: "sm_mp s' ! j = sm_mp s ! j" if "j < sm_nr_pools s" for j
    using r' that by (auto simp: k_def sa_def split: prod.splits option.splits if_splits)
  have len: "length (sm_mp s') = length (sm_mp s)"
    using r' by (auto simp: sa_def split: prod.splits option.splits if_splits)
  have nrk: "sm_nr_pools s' = (if failed then k else k + 1)"
    using r' by (auto simp: k_def sa_def split: prod.splits option.splits if_splits)
  have mem: "sm_mem s' x = sm_mem s x" if j: "j < sm_nr_pools s" and x: "p_map (sm_mp s ! j) \<le> x"
      "x < p_map (sm_mp s ! j) + p_mmap_size (sm_mp s ! j)" for j x
  proof (cases "fst osa")
    case None
    with r' show ?thesis by (auto split: prod.splits)
  next
    case (Some a)
    with fresh j have "a + bytes \<le> p_map (sm_mp s ! j) \<or> p_map (sm_mp s ! j) + p_mmap_size (sm_mp s ! j) \<le> a"
      by (simp add: os_fresh_def g)
    with x have "mem_set a 0 bytes (sm_mem s) x = sm_mem s x" by (auto simp: mem_set_def)
    with r' Some show ?thesis by (auto simp: sa_def split: prod.splits if_splits)
  qed
  have nrle: "sm_nr_pools s \<le> sm_nr_pools s'" using nrk by (simp add: k_def)
  have out: "pools_kept s s'" "data_kept s os s'" "\<forall>o' \<in> set os. obj_ok s' o'"
    using heap_inv_outside [OF inv len _ _ nrle] mpk mem by blast+
  have nnf: "p_next_non_full (sm_mp s' ! j) = 0" if "k \<le> j" "j < MAX_POOLS" for j
  proof (cases "j = k")
    case True
    with r' kl show ?thesis
      by (auto simp: p_def pa_def sa_def split: prod.splits option.splits if_splits)
  next
    case False
    with r' have "sm_mp s' ! j = sm_mp s ! j"
      by (auto simp: sa_def split: prod.splits option.splits if_splits)
    with po that show ?thesis by (simp add: pools_ok_def k_def)
  qed
  show cond: "\<not> failed \<longleftrightarrow> fst osa \<noteq> None \<and> snd osa"
    using r' by (auto split: prod.splits option.splits if_splits)
  have new: "sm_mp s' ! k = pa (the (fst osa))" if "\<not> failed"
    using r' that kl by (auto simp: sa_def split: prod.splits option.splits if_splits)
  have okn: "bitmap_ok (pa a)" for a
    using gb(1) kl(4) by (simp add: bitmap_ok_def pa_def p_def)
  have "0 < a" "a mod 4096 = 0" if "fst osa = Some a" for a using fresh that by (simp_all add: os_fresh_def)
  moreover have "a mod 4 = 0" if "a mod 4096 = 0" for a :: nat
    using that mod_mod_cancel [of 4 4096 a] by simp
  ultimately have pok: "pool_ok (sm_mp s' ! k)" "0 < p_map (sm_mp s' ! k)" if "\<not> failed"
    using okn new [OF that] cond that by (auto simp: pool_ok_def pa_def p_def gb(2))
  have ap: "apart (sm_mp s' ! k) (sm_mp s ! j) \<and> apart (sm_mp s ! j) (sm_mp s' ! k)"
    if "\<not> failed" "j < sm_nr_pools s" for j
  proof -
    from cond that(1) obtain a where a: "fst osa = Some a" by auto
    with fresh that(2) show ?thesis
      using new [OF that(1)] by (auto simp: os_fresh_def g apart_def pa_def p_def)
  qed
  have po': "pools_ok s'"
    unfolding pools_ok_def
  proof (intro conjI allI impI)
    show "length (sm_mp s') = MAX_POOLS" "sm_nr_pools s' \<le> MAX_POOLS"
      using kl len nrk by simp_all
    show "p_next_non_full (sm_mp s' ! j) = 0" if "j < MAX_POOLS" "sm_nr_pools s' \<le> j" for j
      using nnf that nrk by (simp split: if_splits)
    show "pool_ok (sm_mp s' ! j)" if "j < sm_nr_pools s'" for j
      using pok(1) mpk pools_okD(1) [OF po] that nrk by (cases "j = k") (auto simp: k_def split: if_splits)
    fix i j assume ij: "i < sm_nr_pools s'" "j < sm_nr_pools s'" "i \<noteq> j"
    consider "i < k" "j < k" | "i = k" "j < k" "\<not> failed" | "j = k" "i < k" "\<not> failed"
      using ij nrk by (auto split: if_splits) linarith
    then show "apart (sm_mp s' ! i) (sm_mp s' ! j)"
      by cases (use ap mpk po ij(3) in \<open>simp_all add: k_def pools_ok_def\<close>)
  qed
  have "busy (p_bitmap (sm_mp s' ! j)) = objs_blocks j os" if j: "j < sm_nr_pools s'" for j
  proof (cases "j < k")
    case True
    then show ?thesis using mpk bo by (simp add: k_def)
  next
    case False
    with j nrk have "j = k" "\<not> failed" by (auto split: if_splits)
    moreover have "\<forall>o' \<in> set os. fst o' \<noteq> k" using oo by (auto simp: obj_ok_def k_def)
    ultimately show ?thesis using new by (simp add: pa_def objs_blocks_none)
  qed
  then have "heap_inv s' os" using po' out so by (simp add: heap_inv_def)
  then show "alloc_ok s os sz 0 s'" using out by (simp add: alloc_ok_def)
  assume nf: "\<not> failed"
  have "nblk sz \<le> 32 * n" using gb(3) by (simp add: nblk_def size_to_blocks_def)
  then show "bitmap_ok (sm_mp s' ! sm_nr_pools s)
      \<and> p_free_blocks (sm_mp s' ! sm_nr_pools s) = 32 * p_nr_blocks (sm_mp s' ! sm_nr_pools s)
      \<and> p_next_non_full (sm_mp s' ! sm_nr_pools s) = 0
      \<and> nblk sz \<le> 32 * p_nr_blocks (sm_mp s' ! sm_nr_pools s)
      \<and> 0 < p_map (sm_mp s' ! sm_nr_pools s)"
    using new [OF nf] okn pok(2) [OF nf] kl(4) by (simp add: k_def pa_def p_def)
qed

section \<open>The whole of smalloc\<close>

lemma heap_inv_last [simp]:
  "heap_inv (s\<lparr>sm_last_pool := j\<rparr>) os = heap_inv s os"
  by (simp add: heap_inv_def pools_ok_def obj_ok_def obj_hdr_def)

lemma alloc_ok_last [simp]:
  "alloc_ok s os sz ptr (s'\<lparr>sm_last_pool := j\<rparr>) = alloc_ok s os sz ptr s'"
  "alloc_ok (s\<lparr>sm_last_pool := j\<rparr>) os sz ptr s' = alloc_ok s os sz ptr s'"
  by (simp_all add: alloc_ok_def pools_kept_def data_kept_def obj_hdr_def)

lemma os_fresh_kept:
  "os_fresh osa sz s \<Longrightarrow> pools_kept s t \<Longrightarrow> sm_nr_pools t = sm_nr_pools s \<Longrightarrow> os_fresh osa sz t"
  by (auto simp: os_fresh_def pools_kept_def split: option.splits)

lemma smalloc_pool_fresh:
  assumes "bitmap_ok p" "p_free_blocks p = 32 * p_nr_blocks p" "p_next_non_full p = 0"
    "nblk sz \<le> 32 * p_nr_blocks p" "0 < p_map p" "sm_mp s ! k = p" "sz < 2 ^ 32"
  shows "\<exists>ptr s'. smalloc_pool k sz s = Some (ptr, s') \<and> ptr \<noteq> 0"
proof -
  from assms(1,2) have b: "busy (p_bitmap p) = {}" by (simp add: bitmap_ok_def card_eq_0_iff)
  note n = nblk_bounds [OF assms(7)]
  from search_blocks_fresh [OF assms(1) b n(1,2) assms(4)] obtain p' where
    q: "search_blocks p (nblk sz) 0 0 = Some (p', Some (0, 0))" by blast
  from search_blocks_ok [OF q] assms(1) n have "search_ok p (nblk sz) p' (Some (0, 0))" by simp
  then have "p_map p' = p_map p" by (auto simp: search_ok_def)
  moreover have "\<not> p_free_blocks p < nblk sz" using assms(2,4) by simp
  moreover have "u32_of (p_next_non_full p) = 0" "u32_of 0 = 0" using assms(3) by (simp_all add: u32_of_def)
  ultimately have "\<exists>hdr p'. smalloc_pool_blocks p (block_size sz) = Some (hdr, p') \<and> hdr \<noteq> 0"
    using q assms(5) by (simp add: smalloc_pool_blocks_def nblk_def [symmetric] Let_def)
  then show ?thesis by (auto simp: smalloc_pool_def assms(6) Let_def)
qed

text \<open>The search through the pools in use, and what follows when they are full.\<close>

lemma smalloc_loop_inv:
  assumes inv: "heap_inv s os" and lp: "sm_last_pool s = 0" and sz: "sz < 2 ^ 31"
    and fresh: "os_fresh osa sz s" and r: "smalloc_loop osa sz i s = Some (ptr, s')"
  shows "alloc_ok s os sz ptr s'"
    and "ptr = 0 \<Longrightarrow> sm_nr_pools s < MAX_POOLS \<Longrightarrow> fst osa = None \<or> \<not> snd osa"
proof -
  from r obtain q j t where t: "try_pools sz i s = Some (q, j, t)"
    by (subst (asm) smalloc_loop.simps) (auto split: Option.bind_splits)
  note f = try_pools_frame [OF t]
  from sz have sz': "sz < 2 ^ 32" by simp
  note a = try_pools_inv [OF inv sz' t]
  have "alloc_ok s os sz ptr s' \<and> (ptr = 0 \<longrightarrow> sm_nr_pools s < MAX_POOLS \<longrightarrow> fst osa = None \<or> \<not> snd osa)"
  proof (cases "q = 0")
    case False
    with r t have "ptr = q" "s' = t\<lparr>sm_last_pool := j\<rparr>"
      by (subst (asm) (1) smalloc_loop.simps, simp)+
    with a False show ?thesis by simp
  next
    case True
    define k where "k = sm_nr_pools t"
    show ?thesis
    proof (cases "MAX_POOLS < k + 1")
      case True
      with r t \<open>q = 0\<close> f lp have "ptr = 0" "s' = t"
        by (subst (asm) (1) smalloc_loop.simps, simp add: k_def)+
      with a True \<open>q = 0\<close> f show ?thesis by (simp add: k_def)
    next
      case False
      obtain failed u where u: "add_pool osa k sz t = (failed, u)" by (cases "add_pool osa k sz t")
      have inv_t: "heap_inv t os" and pk: "pools_kept s t" using a True by (simp_all add: alloc_ok_def)
      have fresh_t: "os_fresh osa sz t" using os_fresh_kept [OF fresh pk] f by simp
      note ap = add_pool_inv [OF inv_t sz _ fresh_t u [unfolded k_def], folded k_def]
      note au = alloc_ok_trans [OF inv a [unfolded True] ap(1)]
      have r': "(if failed then Some (0, u) else smalloc_loop osa sz k u) = Some (ptr, s')"
        using r t True f lp False u by (subst (asm) smalloc_loop.simps) (simp add: k_def Let_def split: if_splits)
      show ?thesis
      proof (cases failed)
        case True
        with r' au ap(3) False show ?thesis by simp
      next
        case nf: False
        note fr = add_pool_frame [OF u]
        have "k < sm_nr_pools u" using fr(3) nf by (simp add: k_def)
        from smalloc_pool_fresh [of "sm_mp u ! k" sz u k] ap(2) nf False sz'
        obtain q' v where v: "smalloc_pool k sz u = Some (q', v)" "q' \<noteq> 0" by auto
        have "try_pools sz k u = Some (q', k, v)"
          using v \<open>k < sm_nr_pools u\<close> by (subst try_pools.simps) simp
        with r' nf v(2) have "ptr = q'" "s' = v\<lparr>sm_last_pool := k\<rparr>"
          by (subst (asm) (1) smalloc_loop.simps, simp)+
        moreover have "heap_inv u os" using au False by (simp add: alloc_ok_def)
        from smalloc_pool_inv [OF this \<open>k < sm_nr_pools u\<close> sz' v(1)] have "alloc_ok u os sz q' v" .
        ultimately show ?thesis using v(2) alloc_ok_trans [OF inv au] False by simp
      qed
    qed
  qed
  then show "alloc_ok s os sz ptr s'"
    "ptr = 0 \<Longrightarrow> sm_nr_pools s < MAX_POOLS \<Longrightarrow> fst osa = None \<or> \<not> snd osa" by blast+
qed

lemma smalloc_inv:
  assumes inv: "heap_inv s os" and sz: "sz < 2 ^ 31"
    and fresh: "os_fresh osa sz s" and r: "smalloc osa sz s = Some (ptr, s')"
  shows "alloc_ok s os sz ptr s'"
    and "ptr = 0 \<Longrightarrow> sm_nr_pools s < MAX_POOLS \<Longrightarrow> fst osa = None \<or> \<not> snd osa"
proof -
  have "u32_of sz = sz" using sz by (simp add: u32_of_def)
  with r have r: "smalloc_loop osa sz (sm_last_pool s) s = Some (ptr, s')" by (simp add: smalloc_def)
  have "alloc_ok s os sz ptr s' \<and> (ptr = 0 \<longrightarrow> sm_nr_pools s < MAX_POOLS \<longrightarrow> fst osa = None \<or> \<not> snd osa)"
  proof (cases "sm_last_pool s = 0")
    case True
    from smalloc_loop_inv [OF inv True sz fresh r] show ?thesis by blast
  next
    case False
    from r obtain q j t where t: "try_pools sz (sm_last_pool s) s = Some (q, j, t)"
      by (subst (asm) smalloc_loop.simps) (auto split: Option.bind_splits)
    note f = try_pools_frame [OF t]
    from sz have a: "alloc_ok s os sz q t" by (intro try_pools_inv [OF inv _ t]) simp
    show ?thesis
    proof (cases "q = 0")
      case True
      with r t f False have r': "smalloc_loop osa sz j (t\<lparr>sm_last_pool := 0\<rparr>) = Some (ptr, s')"
        by (subst (asm) smalloc_loop.simps) simp
      have inv_t: "heap_inv (t\<lparr>sm_last_pool := 0\<rparr>) os" and pk: "pools_kept s t" using a True by (simp_all add: alloc_ok_def)
      have "os_fresh osa sz (t\<lparr>sm_last_pool := 0\<rparr>)"
        using os_fresh_kept [OF fresh pk] f by (simp add: os_fresh_def cong: option.case_cong)
      note l = smalloc_loop_inv [OF inv_t _ sz this r']
      from l(1) have "alloc_ok t os sz ptr s'" by simp
      with alloc_ok_trans [OF inv a [unfolded True]] l(2) f show ?thesis by simp
    next
      case False
      with r t have "ptr = q" "s' = t\<lparr>sm_last_pool := j\<rparr>"
        by (subst (asm) (1) smalloc_loop.simps, simp)+
      with a False show ?thesis by simp
    qed
  qed
  then show "alloc_ok s os sz ptr s'"
    "ptr = 0 \<Longrightarrow> sm_nr_pools s < MAX_POOLS \<Longrightarrow> fst osa = None \<or> \<not> snd osa" by blast+
qed

section \<open>A small request always returns\<close>

lemma nblk_small: "sz \<le> 12 \<Longrightarrow> nblk sz = 1"
proof -
  assume le: "sz \<le> 12"
  define k where "k = (sz + 23) div 4"
  have "k \<le> 35 div 4" "23 div 4 \<le> k" unfolding k_def using le by (intro div_le_mono, simp)+
  then have "k * 4 + 31 \<le> 63" "32 \<le> k * 4 + 31" by simp_all
  then have "(k * 4 + 31) div 32 \<le> 63 div 32" "32 div 32 \<le> (k * 4 + 31) div 32"
    by (blast intro: div_le_mono)+
  moreover have "63 div 32 = (1::nat)" "32 div 32 = (1::nat)" by simp_all
  ultimately have "(k * 4 + 31) div 32 = 1" by (metis le_antisym)
  moreover have "nblk sz = (k * 4 + 31) div 32"
    by (simp add: nblk_def block_size_def size_to_blocks_def k_def add.commute)
  ultimately show ?thesis by simp
qed

lemma smalloc_pool_defined:
  assumes "heap_inv s os" "k < sm_nr_pools s" "sz \<le> 12"
  shows "smalloc_pool k sz s \<noteq> None"
proof -
  from assms(1,2) have "bitmap_ok (sm_mp s ! k)" using pools_okD(1) by (simp add: heap_inv_def pool_ok_def)
  from search_blocks_one [OF this, of "u32_of (p_next_non_full (sm_mp s ! k))"]
  have "smalloc_pool_blocks (sm_mp s ! k) (block_size sz) \<noteq> None"
    using nblk_small [OF assms(3)]
    by (auto simp: smalloc_pool_blocks_def nblk_def Let_def split: Option.bind_splits option.splits prod.splits)
  then show ?thesis by (auto simp: smalloc_pool_def Let_def)
qed

lemma try_pools_defined:
  assumes "heap_inv s os" "sz \<le> 12"
  shows "try_pools sz i s \<noteq> None"
  using assms
proof (induction sz i s rule: try_pools.induct)
  case (1 sz i s)
  show ?case
  proof (cases "i < sm_nr_pools s")
    case True
    from smalloc_pool_defined [OF "1.prems"(1) True "1.prems"(2)] obtain q t
      where t: "smalloc_pool i sz s = Some (q, t)" by auto
    have "sz < 2 ^ 32" using "1.prems"(2) by simp
    from smalloc_pool_inv [OF "1.prems"(1) True this t] have "q = 0 \<Longrightarrow> heap_inv t os" by (simp add: alloc_ok_def)
    with "1.IH" [OF True t refl] "1.prems"(2) True t show ?thesis by (subst try_pools.simps) auto
  qed (subst try_pools.simps, simp)
qed

lemma smalloc_loop_defined:
  assumes "heap_inv s os" "sz \<le> 12" "sm_last_pool s = 0" "os_fresh osa sz s"
  shows "smalloc_loop osa sz i s \<noteq> None"
proof -
  have sz: "sz < 2 ^ 31" "sz < 2 ^ 32" using assms(2) by simp_all
  from try_pools_defined [OF assms(1,2)] obtain q j t where t: "try_pools sz i s = Some (q, j, t)" by fastforce
  note f = try_pools_frame [OF t] and a = try_pools_inv [OF assms(1) sz(2) t]
  show ?thesis
  proof (cases "q = 0 \<and> \<not> MAX_POOLS < sm_nr_pools t + 1")
    case False
    with t f assms(3) show ?thesis by (subst smalloc_loop.simps) auto
  next
    case True
    define k where "k = sm_nr_pools t"
    obtain failed u where u: "add_pool osa k sz t = (failed, u)" by (cases "add_pool osa k sz t")
    have inv_t: "heap_inv t os" and "pools_kept s t" using a True by (simp_all add: alloc_ok_def)
    then have "os_fresh osa sz t" using os_fresh_kept [OF assms(4)] f by simp
    note ap = add_pool_inv [OF inv_t sz(1) _ this u [unfolded k_def], folded k_def]
    have "smalloc_loop osa sz k u \<noteq> None" if "\<not> failed"
    proof -
      have "k < sm_nr_pools u" using add_pool_frame(3) [OF u that] by (simp add: k_def)
      moreover from smalloc_pool_fresh [of "sm_mp u ! k" sz u k] ap(2) that True sz(2)
      obtain q' v where v: "smalloc_pool k sz u = Some (q', v)" "q' \<noteq> 0" by (auto simp: k_def)
      ultimately have "try_pools sz k u = Some (q', k, v)" by (subst try_pools.simps) simp
      with v(2) show ?thesis by (subst smalloc_loop.simps) simp
    qed
    with t True f assms(3) u show ?thesis by (subst smalloc_loop.simps) (auto simp: k_def Let_def)
  qed
qed

lemma smalloc_defined:
  assumes "heap_inv s os" "sz \<le> 12" "os_fresh osa sz s"
  shows "smalloc osa sz s \<noteq> None"
proof (cases "sm_last_pool s = 0")
  case True
  from smalloc_loop_defined [OF assms(1,2) True assms(3)] show ?thesis by (simp add: smalloc_def)
next
  case False
  have "sz < 2 ^ 32" using assms(2) by simp
  from try_pools_defined [OF assms(1,2)] obtain q j t where
    t: "try_pools sz (sm_last_pool s) s = Some (q, j, t)" by fastforce
  note f = try_pools_frame [OF t] and a = try_pools_inv [OF assms(1) \<open>sz < 2 ^ 32\<close> t]
  have "smalloc_loop osa sz j (t\<lparr>sm_last_pool := 0\<rparr>) \<noteq> None" if "q = 0"
  proof (rule smalloc_loop_defined [OF _ assms(2)])
    show "heap_inv (t\<lparr>sm_last_pool := 0\<rparr>) os" using a that by (simp add: alloc_ok_def)
    from a have "pools_kept s t" by (simp add: alloc_ok_def)
    with os_fresh_kept [OF assms(3)] f show "os_fresh osa sz (t\<lparr>sm_last_pool := 0\<rparr>)"
      by (simp add: os_fresh_def cong: option.case_cong)
  qed simp
  with t f False have "smalloc_loop osa sz (sm_last_pool s) s \<noteq> None"
    by (subst smalloc_loop.simps) auto
  then show ?thesis by (simp add: smalloc_def)
qed

section \<open>Freeing\<close>

lemma objs_blocks_append: "objs_blocks k (os1 @ os2) = objs_blocks k os1 \<union> objs_blocks k os2"
  by (induction os1) (auto split: prod.splits)

lemma objs_blocks_apart:
  "\<forall>o' \<in> set os. obj_disjoint (k, b, sz) o' \<or> obj_disjoint o' (k, b, sz) \<Longrightarrow>
    {b ..< b + nblk sz} \<inter> objs_blocks k os = {}"
  by (induction os) (auto simp: obj_disjoint_def split: if_splits)

lemma objs_blocks_remove:
  assumes "sorted_wrt obj_disjoint (os1 @ (k, b, sz) # os2)"
  shows "objs_blocks j (os1 @ os2) =
    objs_blocks j (os1 @ (k, b, sz) # os2) - (if j = k then {b ..< b + nblk sz} else {})"
proof -
  have "{b ..< b + nblk sz} \<inter> objs_blocks k (os1 @ os2) = {}"
    by (rule objs_blocks_apart) (use assms in \<open>auto simp: sorted_wrt_append\<close>)
  then show ?thesis by (auto simp: objs_blocks_append)
qed

lemma find_pool_obj:
  assumes "pools_ok s" "obj_ok s o'"
  shows "find_pool s (obj_hdr s o' + HDR) = Some (fst o')"
    and "ptr_valid (sm_mp s ! fst o') (obj_hdr s o')"
proof -
  note ip = obj_ok_in_pool [OF assms(2)]
  have nb: "0 < nblk (snd (snd o'))" using assms(2) nblk_bounds(1) by (auto simp: obj_ok_def)
  have v: "ptr_valid (sm_mp s ! j) x \<longleftrightarrow> p_map (sm_mp s ! j) \<le> x \<and> x < p_map (sm_mp s ! j) + p_nr_blocks (sm_mp s ! j) * 1024"
    if "j < sm_nr_pools s" for j x
    using pools_okD(1) [OF assms(1) that] by (auto simp: pool_ok_def bitmap_ok_def ptr_valid_def u32_of_def)
  obtain k b sz where o': "o' = (k, b, sz)" by (cases o') blast
  with ip have k: "k < sm_nr_pools s" "b + nblk sz \<le> 32 * p_nr_blocks (sm_mp s ! k)" by (simp_all add: in_pool_def)
  have "ptr_valid (sm_mp s ! k) (obj_hdr s o' + HDR)" "ptr_valid (sm_mp s ! k) (obj_hdr s o')"
    using k(2) nb v [OF k(1)] by (auto simp: obj_hdr_def o')
  then show "ptr_valid (sm_mp s ! fst o') (obj_hdr s o')" by (simp add: o')
  have "\<not> ptr_valid (sm_mp s ! j) (obj_hdr s o' + HDR)" if "j < k" for j
  proof -
    have j: "j < sm_nr_pools s" using that k(1) by simp
    then have "apart (sm_mp s ! j) (sm_mp s ! k)" using assms(1) k(1) that by (simp add: pools_ok_def)
    moreover have "p_nr_blocks (sm_mp s ! j) * 1024 \<le> p_mmap_size (sm_mp s ! j)"
      using pools_okD(1) [OF assms(1) j] by (simp add: pool_ok_def)
    moreover have "obj_hdr s o' + HDR < p_map (sm_mp s ! k) + p_mmap_size (sm_mp s ! k)"
      "p_map (sm_mp s ! k) \<le> obj_hdr s o' + HDR"
      using obj_memory_in_pool [OF assms(1) ip, of "obj_hdr s o' + HDR"] nb by (simp_all add: o')
    ultimately show ?thesis by (auto simp: v [OF j] apart_def)
  qed
  then show "find_pool s (obj_hdr s o' + HDR) = Some (fst o')"
    using \<open>ptr_valid (sm_mp s ! k) (obj_hdr s o' + HDR)\<close> k(1)
    by (auto simp: find_pool_def find_Some_iff o' intro!: exI [of _ k])
qed

lemma sfree_inv:
  assumes inv: "heap_inv s (os1 @ (k, b, sz) # os2)" and ptr: "ptr = obj_hdr s (k, b, sz) + HDR"
  shows "\<exists>s'. sfree ptr s = Some s' \<and> heap_inv s' (os1 @ os2) \<and> pools_kept s s' \<and> sm_mem s' = sm_mem s"
proof -
  let ?os = "os1 @ (k, b, sz) # os2"
  define p where "p = sm_mp s ! k"
  define hdr where "hdr = obj_hdr s (k, b, sz)"
  define n where "n = nblk sz"
  from inv have po: "pools_ok s" and oo: "\<forall>o' \<in> set ?os. obj_ok s o'" and so: "sorted_wrt obj_disjoint ?os"
    by (simp_all add: heap_inv_def)
  from oo have ok: "obj_ok s (k, b, sz)" by simp
  then have k: "k < sm_nr_pools s" "sz < 2 ^ 32" "b + n \<le> 32 * p_nr_blocks p" "header_ok hdr sz (sm_mem s)"
    by (simp_all add: obj_ok_def p_def hdr_def n_def)
  have bo: "busy (p_bitmap p) = objs_blocks k ?os" using inv k(1) by (simp add: heap_inv_def p_def)
  note nb = nblk_bounds [OF k(2), folded n_def]
  note kp = pools_okD [OF po k(1), folded p_def]
  then have bm: "bitmap_ok p" "p_map p mod 4 = 0" by (simp_all add: pool_ok_def)
  then have l: "length (p_bitmap p) = p_nr_blocks p" "p_nr_blocks p < 2 ^ 22" "p_next_non_full p \<le> p_nr_blocks p"
    "p_free_blocks p + card (busy (p_bitmap p)) = 32 * p_nr_blocks p" by (simp_all add: bitmap_ok_def)
  have hdr: "hdr = p_map p + 32 * b" by (simp add: hdr_def obj_hdr_def p_def)
  note fp = find_pool_obj [OF po ok, folded hdr_def, simplified, folded p_def]
  have "hdr mod 4 = 0" using bm(2) by (simp add: hdr) presburger
  moreover have ld: "mem_load 8 hdr (sm_mem s) = block_size sz" using k(4) by (simp add: header_ok_def)
  ultimately have red: "sfree_check_redzone hdr (sm_mem s) = Some ()"
    using k(4) by (simp add: sfree_check_redzone_def postred_ptr_eq header_ok_def)
  have off: "hdr - p_map p = 32 * b" by (simp add: hdr)
  have i: "b div 32 < p_nr_blocks p" using k(3) nb(1) by auto
  have "32 * b div (32 * 32) = b div 32" "32 * b mod (32 * 32) = 32 * (b mod 32)"
    by (simp only: div_mult_mult1) (rule mult_mod_right [symmetric])
  then have "32 * b div 1024 = b div 32" "32 * b mod 1024 div 32 = b mod 32" by simp_all
  with i have i32: "u32_of (32 * b div 1024) = b div 32" "u32_of (b div 32) = b div 32"
    "32 * b mod 1024 div 32 = b mod 32"
    using l(2) by (simp_all add: u32_of_def)
  have bs: "{b ..< b + n} \<subseteq> busy (p_bitmap p)" by (auto simp: bo objs_blocks_append n_def)
  have "32 * (b div 32) + b mod 32 = b" by simp
  with clear_blocks_busy [of "b mod 32" n p "b div 32"] nb(2) l(1) k(3) bs obtain bm' where
    cl: "clear_blocks p (b div 32) (b mod 32) n = Some (p\<lparr>p_bitmap := bm'\<rparr>)" "length bm' = p_nr_blocks p"
      "busy bm' = busy (p_bitmap p) - {b ..< b + n}"
    by (auto simp: add.assoc)
  define p' where "p' = p\<lparr>p_bitmap := bm', p_next_non_full := min (b div 32) (p_next_non_full p),
      p_free_blocks := p_free_blocks p + n\<rparr>"
  define s' where "s' = s\<lparr>sm_mp := (sm_mp s)[k := p']\<rparr>"
  have "sfree ptr s = sfree_pool k ptr s" using fp by (simp add: sfree_def ptr hdr_def [symmetric])
  also have "\<dots> = Some s'"
    using fp(2) by (simp add: sfree_pool_def ptr hdr_def [symmetric] p_def [symmetric] red off i32 ld
        nblk_def [symmetric] n_def [symmetric] cl(1) Let_def) (simp add: s'_def p'_def min_def)
  finally have r: "sfree ptr s = Some s'" .
  have "card (busy bm') + n = card (busy (p_bitmap p))"
    using card_mono [OF finite_busy bs] by (simp add: cl(3) card_Diff_subset [OF _ bs])
  then have "bitmap_ok p'" using l cl(2) by (simp add: bitmap_ok_def p'_def)
  moreover have sp: "same_place (sm_mp s ! k) p'" by (simp add: same_place_def p'_def p_def)
  moreover have pk: "pools_kept s s'" by (rule pools_kept_change [OF sp]) (use kp(2) in \<open>simp_all add: s'_def\<close>)
  moreover have "\<forall>o' \<in> set (os1 @ os2). obj_ok s' o'"
  proof
    fix o' assume "o' \<in> set (os1 @ os2)"
    with oo have "obj_ok s o'" by auto
    then show "obj_ok s' o'" by (rule obj_ok_frame [OF _ pk]) (simp add: s'_def)
  qed
  moreover have "sorted_wrt obj_disjoint (os1 @ os2)" using so by (auto simp: sorted_wrt_append)
  moreover have "objs_blocks j (os1 @ os2) = objs_blocks j ?os" if "j \<noteq> k" for j
    using objs_blocks_remove [OF so, of j] that by simp
  moreover have "busy (p_bitmap p') = objs_blocks k (os1 @ os2)"
    using objs_blocks_remove [OF so, of k] by (simp add: p'_def cl(3) bo n_def)
  ultimately have "heap_inv s' (os1 @ os2)"
    by (intro heap_inv_change [OF inv k(1)]) (simp_all add: s'_def)
  with r pk show ?thesis by (auto simp: s'_def)
qed

section \<open>What a program may do with the heap\<close>

text \<open>
  The live allocations the program knows: addresses and the sizes it asked for. A request may
  fail; only a live address is freed, and only the bytes that were asked for are written.
\<close>

inductive heap_step :: "smalloc_state \<times> (nat \<times> nat) list \<Rightarrow> smalloc_state \<times> (nat \<times> nat) list \<Rightarrow> bool" where
  alloc: "heap_step (s, L) (s', (ptr, sz) # L)"
    if "smalloc osa sz s = Some (ptr, s')" "ptr \<noteq> 0" "sz < 2 ^ 31" "os_fresh osa sz s"
| alloc_failed: "heap_step (s, L) (s', L)"
    if "smalloc osa sz s = Some (0, s')" "sz < 2 ^ 31" "os_fresh osa sz s"
| free: "heap_step (s, L1 @ (ptr, sz) # L2) (s', L1 @ L2)"
    if "sfree ptr s = Some s'"
| store: "heap_step (s, L) (s\<lparr>sm_mem := (sm_mem s)(ptr + i := v)\<rparr>, L)"
    if "(ptr, sz) \<in> set L" "i < sz"

definition client_view :: "smalloc_state \<Rightarrow> obj list \<Rightarrow> (nat \<times> nat) list" where
  "client_view s os = map (\<lambda>o'. (obj_hdr s o' + HDR, snd (snd o'))) os"

definition heap_ok :: "smalloc_state \<Rightarrow> (nat \<times> nat) list \<Rightarrow> bool" where
  "heap_ok s L \<longleftrightarrow> (\<exists>os. heap_inv s os \<and> L = client_view s os)"

lemma client_view_kept:
  assumes "pools_kept s s'" "\<forall>o' \<in> set os. obj_ok s o'"
  shows "client_view s' os = client_view s os"
  using assms by (simp add: client_view_def obj_hdr_kept)

lemma heap_ok_alloc:
  assumes "heap_ok s L" "smalloc osa sz s = Some (ptr, s')" "sz < 2 ^ 31" "os_fresh osa sz s"
  shows "heap_ok s' (if ptr = 0 then L else (ptr, sz) # L)"
    and "ptr \<noteq> 0 \<Longrightarrow> i < sz \<Longrightarrow> sm_mem s' (ptr + i) = 0"
    and "(a, n) \<in> set L \<Longrightarrow> i < n \<Longrightarrow> sm_mem s' (a + i) = sm_mem s (a + i)"
    and "ptr = 0 \<Longrightarrow> sm_nr_pools s < MAX_POOLS \<Longrightarrow> fst osa = None \<or> \<not> snd osa"
proof -
  from assms(1) obtain os where os: "heap_inv s os" "L = client_view s os" by (auto simp: heap_ok_def)
  then have oo: "\<forall>o' \<in> set os. obj_ok s o'" by (simp add: heap_inv_def)
  note a = smalloc_inv [OF os(1) assms(3,4,2)]
  then have pk: "pools_kept s s'" and dk: "data_kept s os s'" by (simp_all add: alloc_ok_def)
  note cv = client_view_kept [OF pk oo]
  show "heap_ok s' (if ptr = 0 then L else (ptr, sz) # L)"
  proof (cases "ptr = 0")
    case True
    with a(1) os(2) cv show ?thesis by (auto simp: alloc_ok_def heap_ok_def)
  next
    case False
    with a(1) obtain k b where o': "heap_inv s' ((k, b, sz) # os)" "ptr = obj_hdr s' (k, b, sz) + HDR"
      by (auto simp: alloc_ok_def)
    have "client_view s' ((k, b, sz) # os) = (ptr, sz) # L"
      using cv os(2) by (simp add: client_view_def o'(2))
    with o'(1) False show ?thesis unfolding heap_ok_def by auto
  qed
  show "ptr \<noteq> 0 \<Longrightarrow> i < sz \<Longrightarrow> sm_mem s' (ptr + i) = 0" using a(1) by (auto simp: alloc_ok_def)
  show "(a, n) \<in> set L \<Longrightarrow> i < n \<Longrightarrow> sm_mem s' (a + i) = sm_mem s (a + i)"
    using dk os(2) by (auto simp: data_kept_def client_view_def)
  show "ptr = 0 \<Longrightarrow> sm_nr_pools s < MAX_POOLS \<Longrightarrow> fst osa = None \<or> \<not> snd osa" by (rule a(2))
qed

lemma heap_ok_free:
  assumes "heap_ok s (L1 @ (ptr, sz) # L2)"
  shows "\<exists>s'. sfree ptr s = Some s' \<and> heap_ok s' (L1 @ L2) \<and> sm_mem s' = sm_mem s"
proof -
  from assms obtain os where os: "heap_inv s os" "L1 @ (ptr, sz) # L2 = client_view s os" by (auto simp: heap_ok_def)
  then obtain os1 o' os2 where os': "os = os1 @ o' # os2" "L1 = client_view s os1" "L2 = client_view s os2"
      "ptr = obj_hdr s o' + HDR" "sz = snd (snd o')"
    unfolding client_view_def by (fastforce simp: map_eq_append_conv append_eq_map_conv map_eq_Cons_conv Cons_eq_map_conv)
  obtain k b where o': "o' = (k, b, sz)" using os'(5) by (cases o') simp
  from sfree_inv [of s os1 k b sz os2 ptr] os(1) os'(1,4) o' obtain s' where
    s': "sfree ptr s = Some s'" "heap_inv s' (os1 @ os2)" "pools_kept s s'" "sm_mem s' = sm_mem s" by auto
  have "\<forall>o' \<in> set (os1 @ os2). obj_ok s o'" using os(1) os'(1) by (auto simp: heap_inv_def)
  from client_view_kept [OF s'(3) this] have "client_view s' (os1 @ os2) = L1 @ L2"
    by (simp add: client_view_def os'(2,3))
  with s' show ?thesis by (auto simp: heap_ok_def)
qed

lemma heap_ok_store:
  assumes "heap_ok s L" "(ptr, sz) \<in> set L" "i < sz"
  shows "heap_ok (s\<lparr>sm_mem := (sm_mem s)(ptr + i := v)\<rparr>) L"
proof -
  from assms(1) obtain os where os: "heap_inv s os" "L = client_view s os" by (auto simp: heap_ok_def)
  then have po: "pools_ok s" and oo: "\<forall>o' \<in> set os. obj_ok s o'" and so: "sorted_wrt obj_disjoint os"
    by (simp_all add: heap_inv_def)
  from os(2) assms(2) obtain o' where o': "o' \<in> set os" "ptr = obj_hdr s o' + HDR" "sz = snd (snd o')"
    by (auto simp: client_view_def)
  let ?s = "s\<lparr>sm_mem := (sm_mem s)(ptr + i := v)\<rparr>"
  have pk: "pools_kept s ?s" by (simp add: pools_kept_def)
  have "snd (snd o') < 2 ^ 32" using oo o'(1) by (auto simp: obj_ok_def)
  then have nb: "HDR + i < 32 * nblk (snd (snd o'))"
    using nblk_bounds(3) [of "snd (snd o')"] block_size_bounds(1) [of "snd (snd o')"] assms(3) o'(3) by simp
  have "obj_ok ?s x" if x: "x \<in> set os" for x
  proof (rule obj_ok_frame [OF _ pk])
    from oo x show ox: "obj_ok s x" by blast
    fix y assume y: "obj_hdr s x \<le> y" "y < obj_hdr s x + 32 * nblk (snd (snd x))"
      "y < obj_hdr s x + HDR \<or> obj_hdr s x + HDR + snd (snd x) \<le> y"
    have "y \<noteq> ptr + i"
    proof (cases "x = o'")
      case True
      with y(3) assms(3) o' show ?thesis by auto
    next
      case False
      with so x o'(1) have "obj_disjoint x o' \<or> obj_disjoint o' x"
        by (auto simp: sorted_wrt_iff_nth_less in_set_conv_nth) (metis nat_neq_iff)
      then have "obj_disjoint x o'" by (auto simp: obj_disjoint_def split: prod.splits)
      from obj_memory_disjoint [OF po obj_ok_in_pool [OF ox] _ this] oo o'(1) obj_ok_in_pool
      show ?thesis using y(1,2) nb o'(2) by fastforce
    qed
    then show "sm_mem ?s y = sm_mem s y" by simp
  qed
  then have "heap_inv ?s os" using os(1) by (simp add: heap_inv_def pools_ok_def)
  then show ?thesis
    using os(2) client_view_kept [OF pk oo] unfolding heap_ok_def by (intro exI [of _ os] conjI) simp_all
qed

lemma heap_ok_step:
  "heap_step (s, L) (s', L') \<Longrightarrow> heap_ok s L \<Longrightarrow> heap_ok s' L'"
  by (erule heap_step.cases) (use heap_ok_alloc(1) heap_ok_free heap_ok_store in \<open>fastforce split: if_splits\<close>)+

lemma u32_of_id: "n < 4294967296 \<Longrightarrow> u32_of n = n"
  by (simp add: u32_of_def)

lemma heap_ok_init:
  assumes "sinit osa (smalloc_static m) = Some s" "os_fresh osa INITIAL_SIZE (smalloc_static m)"
  shows "heap_ok s []"
proof -
  have inv: "heap_inv (smalloc_static m) []"
    by (simp add: heap_inv_def pools_ok_def smalloc_static_def empty_pool_def)
  from assms(1) have "add_pool osa 0 INITIAL_SIZE (smalloc_static m) = (False, s)"
    by (auto simp: sinit_def c_assert_def split: prod.splits if_splits)
  moreover have "sm_nr_pools (smalloc_static m) = 0" by (simp add: smalloc_static_def)
  ultimately have "alloc_ok (smalloc_static m) [] INITIAL_SIZE 0 s"
    using add_pool_inv(1) [OF inv _ _ assms(2), of False s] by simp
  then show ?thesis by (auto simp: alloc_ok_def heap_ok_def client_view_def)
qed

text \<open>What the invariant means for the program: its objects, with a header and a guard, are apart.\<close>

definition objects_apart :: "nat \<times> nat \<Rightarrow> nat \<times> nat \<Rightarrow> bool" where
  "objects_apart = (\<lambda>(a, n) (b, m). a + n + 4 + HDR \<le> b \<or> b + m + 4 + HDR \<le> a)"

definition object_in_pool :: "smalloc_state \<Rightarrow> nat \<times> nat \<Rightarrow> bool" where
  "object_in_pool s = (\<lambda>(a, n). \<exists>k < sm_nr_pools s. p_map (sm_mp s ! k) + HDR \<le> a
     \<and> a + n + 4 \<le> p_map (sm_mp s ! k) + p_nr_blocks (sm_mp s ! k) * SMALLOC_BPL)"

lemma heap_ok_objects:
  assumes "heap_ok s L"
  shows "sorted_wrt objects_apart L" and "\<forall>x \<in> set L. object_in_pool s x"
proof -
  from assms obtain os where os: "heap_inv s os" "L = client_view s os" by (auto simp: heap_ok_def)
  then have po: "pools_ok s" and oo: "\<forall>o' \<in> set os. obj_ok s o'" and so: "sorted_wrt obj_disjoint os"
    by (simp_all add: heap_inv_def)
  have bs: "snd (snd o') + 20 \<le> 32 * nblk (snd (snd o'))" if "o' \<in> set os" for o'
  proof -
    from oo that have "snd (snd o') < 2 ^ 32" by (auto simp: obj_ok_def)
    from nblk_bounds(3) [OF this] block_size_bounds(1) [of "snd (snd o')"] show ?thesis by linarith
  qed
  have "sorted_wrt (\<lambda>x y. objects_apart (obj_hdr s x + HDR, snd (snd x)) (obj_hdr s y + HDR, snd (snd y))) os"
  proof (rule sorted_wrt_mono_rel [OF _ so])
    fix x y assume xy: "x \<in> set os" "y \<in> set os" "obj_disjoint x y"
    with oo have "in_pool s x" "in_pool s y" using obj_ok_in_pool by blast+
    from obj_memory_disjoint [OF po this xy(3)] bs [OF xy(1)] bs [OF xy(2)]
    show "objects_apart (obj_hdr s x + HDR, snd (snd x)) (obj_hdr s y + HDR, snd (snd y))"
      unfolding objects_apart_def prod.case by linarith
  qed
  then show "sorted_wrt objects_apart L" by (simp add: os(2) client_view_def sorted_wrt_map)
  show "\<forall>x \<in> set L. object_in_pool s x"
  proof
    fix x assume "x \<in> set L"
    then obtain k b sz where o': "(k, b, sz) \<in> set os" "x = (obj_hdr s (k, b, sz) + HDR, sz)"
      by (auto simp: os(2) client_view_def)
    with oo have "k < sm_nr_pools s" "b + nblk sz \<le> 32 * p_nr_blocks (sm_mp s ! k)" by (auto simp: obj_ok_def)
    then show "object_in_pool s x"
      using bs [OF o'(1)] unfolding object_in_pool_def o'(2) prod.case
      by (intro exI [of _ k]) (auto simp: obj_hdr_def)
  qed
qed

lemma heap_ok_reachable:
  assumes "heap_step\<^sup>*\<^sup>* (s0, []) (s, L)" "heap_ok s0 []"
  shows "heap_ok s L"
  using assms(1)
proof (induction "(s, L)" arbitrary: s L rule: rtranclp_induct)
  case base
  with assms(2) show ?case by simp
next
  case (step y s L)
  then show ?case using heap_ok_step by (cases y) blast
qed

section \<open>Properties\<close>

text \<open>
  C3: the heap is well typed in every state a program can reach from \<open>sinit\<close> by requests,
  by freeing what it holds and by writing what it asked for. Its live objects, each with the
  header before it and the guard word behind it, are apart from one another and lie inside a pool;
  freeing a live object never fails an assertion; a request of at most 12 bytes always returns.
\<close>

theorem shared_heap_well_typed:
  assumes "sinit osa (smalloc_static m) = Some s0" "os_fresh osa INITIAL_SIZE (smalloc_static m)"
    and "heap_step\<^sup>*\<^sup>* (s0, []) (s, L)"
  shows "heap_ok s L \<and> sorted_wrt objects_apart L \<and> (\<forall>x \<in> set L. object_in_pool s x)
    \<and> (\<forall>(ptr, sz) \<in> set L. sfree ptr s \<noteq> None)
    \<and> (\<forall>os sz. sz \<le> 12 \<and> os_fresh os sz s \<longrightarrow> smalloc os sz s \<noteq> None)"
proof -
  have ok: "heap_ok s L" by (rule heap_ok_reachable [OF assms(3) heap_ok_init [OF assms(1,2)]])
  have "sfree ptr s \<noteq> None" if x: "(ptr, sz) \<in> set L" for ptr sz
  proof -
    from split_list [OF x] obtain L1 L2 where "L = L1 @ (ptr, sz) # L2" by blast
    with heap_ok_free ok show ?thesis by fastforce
  qed
  moreover have "smalloc os sz s \<noteq> None" if "sz \<le> 12" "os_fresh os sz s" for os sz
  proof -
    from ok obtain os' where "heap_inv s os'" by (auto simp: heap_ok_def)
    from smalloc_defined [OF this that] show ?thesis .
  qed
  ultimately show ?thesis using ok heap_ok_objects [OF ok] by blast
qed

text \<open>A first request after \<open>sinit\<close>, with pools at two addresses that do not meet.\<close>

theorem shared_heap_well_typed_witness:
  "\<exists>s0 s ptr. sinit (Some 4096, True) (smalloc_static (\<lambda>_. 0)) = Some s0 \<and> ptr \<noteq> 0
     \<and> smalloc (Some (2 ^ 30), True) 12 s0 = Some (ptr, s) \<and> object_in_pool s (ptr, 12) \<and> sfree ptr s \<noteq> None"
proof -
  let ?s = "smalloc_static (\<lambda>_. 0)"
  have g: "pool_geometry 8388608 = (8193, 8422404)" "pool_geometry 12 = (8192, 8421376)"
    by (simp_all add: pool_geometry_def u32_of_id Let_def)
  define s0 where "s0 = snd (add_pool (Some 4096, True) 0 INITIAL_SIZE ?s)"
  have init: "sinit (Some 4096, True) ?s = Some s0"
    by (simp add: sinit_def s0_def add_pool_def g)
  have fresh0: "os_fresh (Some 4096, True) INITIAL_SIZE ?s" by (simp add: os_fresh_def smalloc_static_def)
  have p0: "sm_nr_pools s0 = 1" "p_map (sm_mp s0 ! 0) = 4096" "p_mmap_size (sm_mp s0 ! 0) = 8422404"
    by (simp_all add: s0_def add_pool_def g smalloc_static_def)
  have fresh: "os_fresh (Some (2 ^ 30), True) 12 s0" by (simp add: os_fresh_def p0)
  from shared_heap_well_typed [OF init fresh0 rtranclp.rtrancl_refl] fresh
  have "smalloc (Some (2 ^ 30), True) 12 s0 \<noteq> None" by simp
  then obtain ptr s where a: "smalloc (Some (2 ^ 30), True) 12 s0 = Some (ptr, s)" by auto
  have nz: "ptr \<noteq> 0"
    using heap_ok_alloc(4) [OF heap_ok_init [OF init fresh0] a _ fresh] p0(1) by auto
  have "heap_step\<^sup>*\<^sup>* (s0, []) (s, [(ptr, 12)])"
    by (rule r_into_rtranclp, rule heap_step.alloc [OF a nz _ fresh]) simp
  from shared_heap_well_typed [OF init fresh0 this] init a nz show ?thesis by auto
qed

text \<open>
  C11: the first word that is not full has a gap too short for the request, and from the block
  that follows the tried range to the end of the word everything is busy. Then the search looks
  for a zero in a word of ones and the mask is built with a shift that C does not define.
\<close>

theorem smalloc_search_undefined:
  assumes "bitmap_ok p" "p_next_non_full p < p_nr_blocks p"
    and "z + n < 32" "n = size_to_blocks sz" "n \<le> p_free_blocks p"
    and "\<not> bit (p_bitmap p ! p_next_non_full p) z" "\<forall>j < z. bit (p_bitmap p ! p_next_non_full p) j"
    and "z < j" "j < z + n" "bit (p_bitmap p ! p_next_non_full p) j"
    and "\<forall>j. z + n \<le> j \<and> j < 32 \<longrightarrow> bit (p_bitmap p ! p_next_non_full p) j"
  shows "smalloc_pool_blocks p sz = None"
proof -
  define i where "i = p_next_non_full p"
  define w where "w = p_bitmap p ! i"
  have l: "length (p_bitmap p) = p_nr_blocks p" "i < p_nr_blocks p" "u32_of i = i"
    using assms(1,2) by (simp_all add: bitmap_ok_def i_def u32_of_def)
  have n: "0 < n" "n + 32 < 2 ^ 32" using assms(3,8,9) by simp_all
  have ne: "w \<noteq> - 1" using assms(3,6) by (auto simp: w_def i_def bit_minus_1_iff)
  have f0: "find_next_zero w 0 = Some z"
  proof (rule find_next_zero_cases [OF ne, of 0])
    fix idx assume a: "find_next_zero w 0 = Some idx" "idx < 32" "\<not> bit w idx"
    define x where "x = (scast (signed_drop_bit 0 w) :: u64)"
    note bx = bit_find_next_zero [of 0 w, folded x_def, simplified]
    have idx: "idx = ffz x" using a(1) ne by (simp add: find_next_zero_def x_def)
    have z: "\<not> bit x z" "\<forall>j < z. bit x j"
      using assms(3,6,7) by (simp_all add: bx w_def i_def min_def)
    then have "x \<noteq> - 1" using assms(3) by (auto simp: bit_minus_1_iff)
    from ffz_correct(1,3) [OF this] z have "ffz x = z" by (metis nat_neq_iff)
    with a(1) idx show ?thesis by simp
  qed (use assms(3,6) in \<open>auto simp: w_def i_def\<close>)
  have "32 * i + j \<in> busy (p_bitmap p)"
    using mem_busy_word [of i "p_bitmap p" "32 * i + j"] l assms(3,9,10) by (simp add: i_def)
  moreover have "32 * i + j \<in> blocks i z n" using assms(8,9) by simp
  ultimately have "\<not> (blocks i z n \<inter> busy (p_bitmap p) = {})" by blast
  with blocks_free_iff [of z, OF _ n(2) l(1,2)] assms(3) have b0: "blocks_free p i z n = Some False" by simp
  have f1: "find_next_zero w (z + n) = Some (63 + (z + n))"
    by (rule find_next_zero_cases [OF ne assms(3)]) (use assms(11) in \<open>auto simp: w_def i_def\<close>)
  have "blocks_free p i (63 + (z + n)) n = None"
    by (rule blocks_free_undefined) (use n assms(3) l in auto)
  with f1 ne l have "search_blocks p n i (z + n) = None"
    by (subst search_blocks.simps) (simp add: w_def [symmetric])
  with f0 b0 ne l assms(3) have "search_blocks p n i 0 = None"
    by (subst search_blocks.simps) (simp add: w_def [symmetric] u32_of_def)
  then show ?thesis using assms(4,5) l(3) by (simp add: smalloc_pool_blocks_def i_def)
qed

text \<open>One free block in a full word, and a request of two blocks while the next word is empty.\<close>

theorem smalloc_search_undefined_witness:
  "smalloc_pool_blocks \<lparr>p_map = 4096, p_bitmap = [0xFFFFFFFE, 0], p_free_blocks = 33, p_nr_blocks = 2,
     p_next_non_full = 0, p_mmap_size = 2056\<rparr> 64 = None"
proof -
  have ones: "bit (0xFFFFFFFE :: u32) j \<longleftrightarrow> 1 \<le> j \<and> j < 32" for j
  proof -
    have "(0xFFFFFFFE :: u32) = NOT 1" by simp
    then show ?thesis by (simp only: bit_not_iff bit_1_iff possible_bit_word) auto
  qed
  have "busy [0xFFFFFFFE :: u32, 0] = {1 ..< 32}"
  proof (rule set_eqI)
    fix b :: nat
    consider "b < 32" | "32 \<le> b" "b < 64" | "64 \<le> b" by linarith
    then show "b \<in> busy [0xFFFFFFFE :: u32, 0] \<longleftrightarrow> b \<in> {1 ..< 32}"
      using ones [of b] by cases (auto simp: busy_def)
  qed
  moreover have "bit (0xFFFFFFFE :: u32) 1" "\<not> bit (0xFFFFFFFE :: u32) 0"
    "\<forall>j. 0 + 2 \<le> j \<and> j < 32 \<longrightarrow> bit (0xFFFFFFFE :: u32) j"
    unfolding ones by simp_all
  ultimately show ?thesis
    by (intro smalloc_search_undefined [where z = 0 and n = 2 and j = 1])
      (simp_all add: bitmap_ok_def size_to_blocks_def)
qed

end
