(* ===== verification/Stat.thy ===== *)
theory Stat
  imports Complex_Main Prelude
begin

text \<open>
  The statistics of a job, \<^verbatim>\<open>stat.c\<close>, \<^verbatim>\<open>stat.h\<close> and the marking functions of
  \<^verbatim>\<open>io_u.c\<close>: buckets of latencies and their percentiles, distributions of depths and batch
  sizes, running means, and the sums over the threads of a group.

  A double is a rational number; every operation on doubles is followed by the rounding \<open>fl\<close>,
  which is an argument of the functions. Logs, whose entries carry a time, are left out.
\<close>

section \<open>Buckets of latencies\<close>

abbreviation FIO_IO_U_PLAT_BITS :: nat where "FIO_IO_U_PLAT_BITS \<equiv> 6"
abbreviation FIO_IO_U_PLAT_VAL :: nat where "FIO_IO_U_PLAT_VAL \<equiv> 64"
abbreviation FIO_IO_U_PLAT_NR :: nat where "FIO_IO_U_PLAT_NR \<equiv> 1216"
abbreviation FIO_IO_U_LIST_MAX_LEN :: nat where "FIO_IO_U_LIST_MAX_LEN \<equiv> 20"

text \<open>\<open>__builtin_clz\<close>, the number of zero bits above the highest one.\<close>

fun clz_from :: "nat \<Rightarrow> u32 \<Rightarrow> nat" where
  "clz_from 0 val = 0"
| "clz_from (Suc k) val = (if bit val k then 0 else Suc (clz_from k val))"

definition builtin_clz :: "u32 \<Rightarrow> nat" where
  "builtin_clz val = clz_from 32 val"

definition plat_val_to_idx :: "u32 \<Rightarrow> nat" where
  "plat_val_to_idx val =
     (let msb = (if val = 0 then 0 else 32 - builtin_clz val - 1) in
      if msb \<le> FIO_IO_U_PLAT_BITS then unat val
      else let error_bits = msb - FIO_IO_U_PLAT_BITS;
               base = (error_bits + 1) * 2 ^ FIO_IO_U_PLAT_BITS;
               offset = unat (63 AND drop_bit error_bits val) in
           if base + offset < FIO_IO_U_PLAT_NR - 1 then base + offset else FIO_IO_U_PLAT_NR - 1)"

text \<open>The product \<open>(k + 0.5) * (1 << error_bits)\<close> is exact in a double, and an integer.\<close>

definition plat_idx_to_val :: "nat \<Rightarrow> nat option" where
  "plat_idx_to_val idx = do {
     c_assert (idx < FIO_IO_U_PLAT_NR);
     if idx < FIO_IO_U_PLAT_VAL * 2 then Some idx
     else let error_bits = idx div 2 ^ FIO_IO_U_PLAT_BITS - 1;
              base = 2 ^ (error_bits + FIO_IO_U_PLAT_BITS);
              k = idx mod FIO_IO_U_PLAT_VAL in
          Some (base + (2 * k + 1) * 2 ^ error_bits div 2) }"

section \<open>Percentiles\<close>

type_synonym rounding = "rat \<Rightarrow> rat"

text \<open>The test of the inner loop: \<open>sum >= plist[j].u.f / 100.0 * nr\<close>.\<close>

definition pct_reached :: "rounding \<Rightarrow> nat \<Rightarrow> rat \<Rightarrow> nat \<Rightarrow> bool" where
  "pct_reached fl nr p acc \<longleftrightarrow> fl (fl (p / 100) * fl (of_nat nr)) \<le> fl (of_nat acc)"

function pct_while :: "rounding \<Rightarrow> rat list \<Rightarrow> nat \<Rightarrow> nat \<Rightarrow> nat \<Rightarrow> nat \<Rightarrow> nat \<Rightarrow> nat list \<Rightarrow>
    (nat \<times> nat list \<times> bool) option" where
  "pct_while fl plist nr len i acc j ovals =
     (case rd plist j of
        None \<Rightarrow> None
      | Some p \<Rightarrow>
          if \<not> pct_reached fl nr p acc then Some (j, ovals, False)
          else do {
            c_assert (p \<le> 100);
            v \<leftarrow> plat_idx_to_val i;
            let ovals = ovals @ [v] in
            if j = len - 1 then Some (j, ovals, True)
            else pct_while fl plist nr len i acc (j + 1) ovals })"
  by pat_completeness auto
termination
  by (relation "measure (\<lambda>(fl, plist, nr, len, i, acc, j, ovals). length plist - j)")
    (auto simp: rd_def split: if_splits)

declare pct_while.simps [simp del]

fun pct_for :: "rounding \<Rightarrow> rat list \<Rightarrow> nat \<Rightarrow> nat \<Rightarrow> nat \<Rightarrow> u32 list \<Rightarrow> nat \<Rightarrow> nat \<Rightarrow> nat list \<Rightarrow> nat list option" where
  "pct_for fl plist nr len i [] acc j ovals = Some ovals"
| "pct_for fl plist nr len i (c # plat) acc j ovals =
     (let acc = acc + unat c in
      do {
        (j, ovals, is_last) \<leftarrow> pct_while fl plist nr len i acc j ovals;
        if is_last then Some ovals else pct_for fl plist nr len (i + 1) plat acc j ovals })"

text \<open>
  The percentiles that are asked for end at the first zero; they are sorted. The result: their
  number, the values, the smallest and the largest value.
\<close>

definition calc_clat_percentiles ::
    "rounding \<Rightarrow> u32 list \<Rightarrow> nat \<Rightarrow> rat list \<Rightarrow> (nat \<times> nat list \<times> nat \<times> nat) option" where
  "calc_clat_percentiles fl io_u_plat nr plist =
     (let len = length (takeWhile (\<lambda>p. p \<noteq> 0) (take FIO_IO_U_LIST_MAX_LEN plist)) in
      if len = 0 then Some (0, [], 2 ^ 32 - 1, 0)
      else do {
        ovals \<leftarrow> pct_for fl (sort (take len plist)) nr len 0 (take FIO_IO_U_PLAT_NR io_u_plat) 0 0 [];
        Some (len, ovals, foldl min (2 ^ 32 - 1) ovals, foldl max 0 ovals) })"

section \<open>Running statistics\<close>

record io_stat =
  is_max_val :: u64
  is_min_val :: u64
  is_samples :: u64
  is_mean :: rat
  is_S :: rat

definition add_stat_sample :: "rounding \<Rightarrow> io_stat \<Rightarrow> u64 \<Rightarrow> io_stat" where
  "add_stat_sample fl s data =
     (let val = fl (of_nat (unat data));
          s = (if is_max_val s < data then s\<lparr>is_max_val := data\<rparr> else s);
          s = (if data < is_min_val s then s\<lparr>is_min_val := data\<rparr> else s);
          delta = fl (val - is_mean s);
          s = (if delta \<noteq> 0 then
                 let mean = fl (is_mean s + fl (delta / fl (fl (of_nat (unat (is_samples s))) + 1))) in
                 s\<lparr>is_mean := mean, is_S := fl (is_S s + fl (delta * fl (val - mean)))\<rparr>
               else s) in
      s\<lparr>is_samples := is_samples s + 1\<rparr>)"

definition reset_io_stat :: "io_stat \<Rightarrow> io_stat" where
  "reset_io_stat s = s\<lparr>is_max_val := 0, is_min_val := 0, is_samples := 0, is_mean := 0, is_S := 0\<rparr>"

text \<open>The products and sums of the numbers of samples are computed in 64 bits.\<close>

definition sum_stat :: "rounding \<Rightarrow> io_stat \<Rightarrow> io_stat \<Rightarrow> nat \<Rightarrow> io_stat" where
  "sum_stat fl dst src nr =
     (if is_samples src = 0 then dst
      else
        let n = (\<lambda>w :: u64. fl (of_nat (unat w)));
            delta = fl (is_mean src - is_mean dst);
            total = n (is_samples dst + is_samples src);
            mean = (if nr = 1 then is_mean src
                    else fl (fl (fl (is_mean src * n (is_samples src)) + fl (is_mean dst * n (is_samples dst))) / total));
            S = (if nr = 1 then is_S src
                 else fl (fl (is_S src + is_S dst)
                        + fl (fl (fl (delta * delta) * n (is_samples dst * is_samples src)) / total))) in
        \<lparr>is_max_val = max (is_max_val dst) (is_max_val src),
         is_min_val = min (is_min_val dst) (is_min_val src),
         is_samples = is_samples dst + is_samples src,
         is_mean = mean, is_S = S\<rparr>)"

section \<open>Statistics of a thread\<close>

text \<open>Arrays by direction have three entries.\<close>

record thread_stat =
  ts_clat_stat :: "io_stat list"
  ts_slat_stat :: "io_stat list"
  ts_lat_stat :: "io_stat list"
  ts_bw_stat :: "io_stat list"
  ts_iops_stat :: "io_stat list"
  ts_usr_time :: u64
  ts_sys_time :: u64
  ts_ctx :: u64
  ts_minf :: u64
  ts_majf :: u64
  ts_clat_percentiles :: bool
  ts_unified_rw_rep :: bool
  ts_io_u_map :: "u32 list"
  ts_io_u_submit :: "u32 list"
  ts_io_u_complete :: "u32 list"
  ts_io_u_lat_u :: "u32 list"
  ts_io_u_lat_m :: "u32 list"
  ts_io_u_plat :: "u32 list list"
  ts_total_io_u :: "u64 list"
  ts_short_io_u :: "u64 list"
  ts_total_submit :: u64
  ts_total_complete :: u64
  ts_io_bytes :: "u64 list"
  ts_runtime :: "u64 list"
  ts_total_run_time :: u64

abbreviation DDIR_RWDIR_CNT :: nat where "DDIR_RWDIR_CNT \<equiv> 3"
abbreviation FIO_IO_U_MAP_NR :: nat where "FIO_IO_U_MAP_NR \<equiv> 7"
abbreviation FIO_IO_U_LAT_U_NR :: nat where "FIO_IO_U_LAT_U_NR \<equiv> 10"
abbreviation FIO_IO_U_LAT_M_NR :: nat where "FIO_IO_U_LAT_M_NR \<equiv> 12"

definition empty_io_stat :: "u64 \<Rightarrow> io_stat" where
  "empty_io_stat min_val = \<lparr>is_max_val = 0, is_min_val = min_val, is_samples = 0, is_mean = 0, is_S = 0\<rparr>"

text \<open>\<open>init_thread_stat\<close> sets the minimum of the operations per second to 0, the others to the largest value.\<close>

definition init_thread_stat :: thread_stat where
  "init_thread_stat =
     \<lparr>ts_clat_stat = replicate 3 (empty_io_stat (- 1)), ts_slat_stat = replicate 3 (empty_io_stat (- 1)),
      ts_lat_stat = replicate 3 (empty_io_stat (- 1)), ts_bw_stat = replicate 3 (empty_io_stat (- 1)),
      ts_iops_stat = replicate 3 (empty_io_stat 0),
      ts_usr_time = 0, ts_sys_time = 0, ts_ctx = 0, ts_minf = 0, ts_majf = 0,
      ts_clat_percentiles = False, ts_unified_rw_rep = False,
      ts_io_u_map = replicate FIO_IO_U_MAP_NR 0, ts_io_u_submit = replicate FIO_IO_U_MAP_NR 0,
      ts_io_u_complete = replicate FIO_IO_U_MAP_NR 0,
      ts_io_u_lat_u = replicate FIO_IO_U_LAT_U_NR 0, ts_io_u_lat_m = replicate FIO_IO_U_LAT_M_NR 0,
      ts_io_u_plat = replicate 3 (replicate FIO_IO_U_PLAT_NR 0),
      ts_total_io_u = replicate 3 0, ts_short_io_u = replicate 3 0, ts_total_submit = 0, ts_total_complete = 0,
      ts_io_bytes = replicate 3 0, ts_runtime = replicate 3 0, ts_total_run_time = 0\<rparr>"

section \<open>Distributions\<close>

definition bump :: "u32 list \<Rightarrow> nat \<Rightarrow> u32 \<Rightarrow> u32 list option" where
  "bump xs i n = do { c \<leftarrow> rd xs i; wr xs i (c + n) }"

definition mark_map_idx :: "u32 \<Rightarrow> nat" where
  "mark_map_idx nr =
     (if nr = 0 then 0 else if nr \<le> 4 then 1 else if nr \<le> 8 then 2 else if nr \<le> 16 then 3
      else if nr \<le> 32 then 4 else if nr \<le> 64 then 5 else 6)"

definition io_u_mark_submit :: "thread_stat \<Rightarrow> u32 \<Rightarrow> thread_stat option" where
  "io_u_mark_submit ts nr = do {
     m \<leftarrow> bump (ts_io_u_submit ts) (mark_map_idx nr) 1;
     Some (ts\<lparr>ts_io_u_submit := m, ts_total_submit := ts_total_submit ts + 1\<rparr>) }"

definition io_u_mark_complete :: "thread_stat \<Rightarrow> u32 \<Rightarrow> thread_stat option" where
  "io_u_mark_complete ts nr = do {
     m \<leftarrow> bump (ts_io_u_complete ts) (mark_map_idx nr) 1;
     Some (ts\<lparr>ts_io_u_complete := m, ts_total_complete := ts_total_complete ts + 1\<rparr>) }"

definition mark_depth_idx :: "u32 \<Rightarrow> nat" where
  "mark_depth_idx cur_depth =
     (if cur_depth = 1 then 0 else if 2 \<le> cur_depth \<and> cur_depth \<le> 3 then 1
      else if 4 \<le> cur_depth \<and> cur_depth \<le> 7 then 2 else if 8 \<le> cur_depth \<and> cur_depth \<le> 15 then 3
      else if 16 \<le> cur_depth \<and> cur_depth \<le> 31 then 4 else if 32 \<le> cur_depth \<and> cur_depth \<le> 63 then 5
      else 6)"

definition io_u_mark_depth :: "thread_stat \<Rightarrow> u32 \<Rightarrow> u32 \<Rightarrow> thread_stat option" where
  "io_u_mark_depth ts cur_depth nr = do {
     m \<leftarrow> bump (ts_io_u_map ts) (mark_depth_idx cur_depth) nr;
     Some (ts\<lparr>ts_io_u_map := m\<rparr>) }"

text \<open>The cases from 0 to 999 are the same for microseconds and milliseconds.\<close>

definition lat_idx :: "u64 \<Rightarrow> nat" where
  "lat_idx x =
     (if x \<le> 1 then 0 else if x \<le> 3 then 1 else if x \<le> 9 then 2 else if x \<le> 19 then 3
      else if x \<le> 49 then 4 else if x \<le> 99 then 5 else if x \<le> 249 then 6 else if x \<le> 499 then 7
      else if x \<le> 749 then 8 else 9)"

definition io_u_mark_lat_usec :: "thread_stat \<Rightarrow> u64 \<Rightarrow> thread_stat option" where
  "io_u_mark_lat_usec ts usec = do {
     c_assert (usec < 1000);
     let idx = lat_idx usec in do {
     c_assert (idx < FIO_IO_U_LAT_U_NR);
     m \<leftarrow> bump (ts_io_u_lat_u ts) idx 1;
     Some (ts\<lparr>ts_io_u_lat_u := m\<rparr>) } }"

definition io_u_mark_lat_msec :: "thread_stat \<Rightarrow> u64 \<Rightarrow> thread_stat option" where
  "io_u_mark_lat_msec ts msec =
     (let idx = (if msec \<le> 999 then lat_idx msec else if msec \<le> 1999 then 10 else 11) in
      do {
        c_assert (idx < FIO_IO_U_LAT_M_NR);
        m \<leftarrow> bump (ts_io_u_lat_m ts) idx 1;
        Some (ts\<lparr>ts_io_u_lat_m := m\<rparr>) })"

definition io_u_mark_latency :: "thread_stat \<Rightarrow> u64 \<Rightarrow> thread_stat option" where
  "io_u_mark_latency ts usec =
     (if usec < 1000 then io_u_mark_lat_usec ts usec else io_u_mark_lat_msec ts (usec div 1000))"

definition add_clat_percentile_sample :: "thread_stat \<Rightarrow> u64 \<Rightarrow> nat \<Rightarrow> thread_stat option" where
  "add_clat_percentile_sample ts usec ddir =
     (let idx = plat_val_to_idx (ucast usec) in
      do {
        c_assert (idx < FIO_IO_U_PLAT_NR);
        row \<leftarrow> rd (ts_io_u_plat ts) ddir;
        row \<leftarrow> bump row idx 1;
        plat \<leftarrow> wr (ts_io_u_plat ts) ddir row;
        Some (ts\<lparr>ts_io_u_plat := plat\<rparr>) })"

text \<open>\<open>ddir\<close> is a read, a write or a trim when it is below 3.\<close>

definition add_clat_sample :: "rounding \<Rightarrow> thread_stat \<Rightarrow> nat \<Rightarrow> u64 \<Rightarrow> thread_stat option" where
  "add_clat_sample fl ts ddir usec =
     (if \<not> ddir < DDIR_RWDIR_CNT then Some ts
      else do {
        s \<leftarrow> rd (ts_clat_stat ts) ddir;
        stats \<leftarrow> wr (ts_clat_stat ts) ddir (add_stat_sample fl s usec);
        let ts = ts\<lparr>ts_clat_stat := stats\<rparr> in
        if ts_clat_percentiles ts then add_clat_percentile_sample ts usec ddir else Some ts })"

definition add_slat_sample :: "rounding \<Rightarrow> thread_stat \<Rightarrow> nat \<Rightarrow> u64 \<Rightarrow> thread_stat option" where
  "add_slat_sample fl ts ddir usec =
     (if \<not> ddir < DDIR_RWDIR_CNT then Some ts
      else do {
        s \<leftarrow> rd (ts_slat_stat ts) ddir;
        stats \<leftarrow> wr (ts_slat_stat ts) ddir (add_stat_sample fl s usec);
        Some (ts\<lparr>ts_slat_stat := stats\<rparr>) })"

definition add_lat_sample :: "rounding \<Rightarrow> thread_stat \<Rightarrow> nat \<Rightarrow> u64 \<Rightarrow> thread_stat option" where
  "add_lat_sample fl ts ddir usec =
     (if \<not> ddir < DDIR_RWDIR_CNT then Some ts
      else do {
        s \<leftarrow> rd (ts_lat_stat ts) ddir;
        stats \<leftarrow> wr (ts_lat_stat ts) ddir (add_stat_sample fl s usec);
        Some (ts\<lparr>ts_lat_stat := stats\<rparr>) })"

section \<open>Resetting\<close>

text \<open>
  \<open>reset_io_stats\<close>: the second loop runs over the \<open>FIO_IO_U_MAP_NR\<close> entries of the
  depth map and clears as many of the arrays of latencies.
\<close>

definition clear_first :: "nat \<Rightarrow> u32 list \<Rightarrow> u32 list" where
  "clear_first n xs = replicate (min n (length xs)) 0 @ drop n xs"

definition reset_io_stats :: "thread_stat \<Rightarrow> thread_stat" where
  "reset_io_stats ts =
     (let r = map reset_io_stat in
      ts\<lparr>ts_clat_stat := r (ts_clat_stat ts), ts_slat_stat := r (ts_slat_stat ts),
         ts_lat_stat := r (ts_lat_stat ts), ts_bw_stat := r (ts_bw_stat ts), ts_iops_stat := r (ts_iops_stat ts),
         ts_io_bytes := replicate 3 0, ts_runtime := replicate 3 0,
         ts_io_u_plat := map (clear_first FIO_IO_U_PLAT_NR) (ts_io_u_plat ts),
         ts_io_u_map := clear_first FIO_IO_U_MAP_NR (ts_io_u_map ts),
         ts_io_u_submit := clear_first FIO_IO_U_MAP_NR (ts_io_u_submit ts),
         ts_io_u_complete := clear_first FIO_IO_U_MAP_NR (ts_io_u_complete ts),
         ts_io_u_lat_u := clear_first FIO_IO_U_MAP_NR (ts_io_u_lat_u ts),
         ts_io_u_lat_m := clear_first FIO_IO_U_MAP_NR (ts_io_u_lat_m ts),
         ts_total_submit := 0, ts_total_complete := 0,
         ts_total_io_u := replicate 3 0, ts_short_io_u := replicate 3 0\<rparr>)"

section \<open>Sums over threads\<close>

text \<open>With unified reporting everything is added to the entry 0.\<close>

definition sum_by_ddir :: "bool \<Rightarrow> ('a \<Rightarrow> 'a \<Rightarrow> 'a) \<Rightarrow> 'a list \<Rightarrow> 'a list \<Rightarrow> 'a list" where
  "sum_by_ddir unified f dst src =
     foldl (\<lambda>dst k. let t = (if unified then 0 else k) in dst[t := f (dst ! t) (src ! k)]) dst [0..<DDIR_RWDIR_CNT]"

definition sum_thread_stats :: "rounding \<Rightarrow> thread_stat \<Rightarrow> thread_stat \<Rightarrow> nat \<Rightarrow> thread_stat" where
  "sum_thread_stats fl dst src nr =
     (let u = ts_unified_rw_rep dst; ss = sum_by_ddir u (\<lambda>d s. sum_stat fl d s nr);
          add = sum_by_ddir u (+); addl = map2 (+) in
      dst\<lparr>ts_clat_stat := ss (ts_clat_stat dst) (ts_clat_stat src),
          ts_slat_stat := ss (ts_slat_stat dst) (ts_slat_stat src),
          ts_lat_stat := ss (ts_lat_stat dst) (ts_lat_stat src),
          ts_bw_stat := ss (ts_bw_stat dst) (ts_bw_stat src),
          ts_io_bytes := add (ts_io_bytes dst) (ts_io_bytes src),
          ts_runtime := sum_by_ddir u max (ts_runtime dst) (ts_runtime src),
          ts_usr_time := ts_usr_time dst + ts_usr_time src,
          ts_sys_time := ts_sys_time dst + ts_sys_time src,
          ts_ctx := ts_ctx dst + ts_ctx src,
          ts_majf := ts_majf dst + ts_majf src,
          ts_minf := ts_minf dst + ts_minf src,
          ts_io_u_map := addl (ts_io_u_map dst) (ts_io_u_map src),
          ts_io_u_submit := addl (ts_io_u_submit dst) (ts_io_u_submit src),
          ts_io_u_complete := addl (ts_io_u_complete dst) (ts_io_u_complete src),
          ts_io_u_lat_u := addl (ts_io_u_lat_u dst) (ts_io_u_lat_u src),
          ts_io_u_lat_m := addl (ts_io_u_lat_m dst) (ts_io_u_lat_m src),
          ts_total_io_u := add (ts_total_io_u dst) (ts_total_io_u src),
          ts_short_io_u := add (ts_short_io_u dst) (ts_short_io_u src),
          ts_io_u_plat := sum_by_ddir u (map2 (+)) (ts_io_u_plat dst) (ts_io_u_plat src),
          ts_total_run_time := ts_total_run_time dst + ts_total_run_time src,
          ts_total_submit := ts_total_submit dst + ts_total_submit src,
          ts_total_complete := ts_total_complete dst + ts_total_complete src\<rparr>)"

text \<open>Group sums; a minimum of 0 stays as it is.\<close>

record group_run_stats =
  rs_max_run :: "u64 list"
  rs_min_run :: "u64 list"
  rs_max_bw :: "u64 list"
  rs_min_bw :: "u64 list"
  rs_io_kb :: "u64 list"
  rs_agg :: "u64 list"

definition group_min :: "u64 \<Rightarrow> u64 \<Rightarrow> u64" where
  "group_min d s = (if d \<noteq> 0 \<and> s < d then s else d)"

definition group_max :: "u64 \<Rightarrow> u64 \<Rightarrow> u64" where
  "group_max d s = (if d < s then s else d)"

definition sum_group_stats :: "group_run_stats \<Rightarrow> group_run_stats \<Rightarrow> group_run_stats" where
  "sum_group_stats dst src =
     \<lparr>rs_max_run = map2 group_max (rs_max_run dst) (rs_max_run src),
      rs_min_run = map2 group_min (rs_min_run dst) (rs_min_run src),
      rs_max_bw = map2 group_max (rs_max_bw dst) (rs_max_bw src),
      rs_min_bw = map2 group_min (rs_min_bw dst) (rs_min_bw src),
      rs_io_kb = map2 (+) (rs_io_kb dst) (rs_io_kb src),
      rs_agg = map2 (+) (rs_agg dst) (rs_agg src)\<rparr>"

text \<open>The share of each entry in percent; a share that is not 0 is at least 0.1.\<close>

definition stat_calc_dist :: "rounding \<Rightarrow> u32 list \<Rightarrow> nat \<Rightarrow> rat list" where
  "stat_calc_dist fl m all_io =
     map (\<lambda>c. if all_io \<noteq> 0 then
                let d = fl (fl (fl (of_nat (unat c)) / fl (of_nat all_io)) * 100) in
                if d < fl (1 / 10) \<and> c \<noteq> 0 then fl (1 / 10) else d
              else 0) m"

definition stat_calc_lat :: "rounding \<Rightarrow> thread_stat \<Rightarrow> u32 list \<Rightarrow> rat list" where
  "stat_calc_lat fl ts src =
     (let all_io = unat (sum_list (ts_total_io_u ts)) in
      map (\<lambda>c. if all_io \<noteq> 0 then
                 let d = fl (fl (fl (of_nat (unat c)) / fl (of_nat all_io)) * 100) in
                 if d < fl (1 / 100) \<and> c \<noteq> 0 then fl (1 / 100) else d
               else 0) src)"

end
