(* ===== verification/Stat_Correct.thy ===== *)
theory Stat_Correct
  imports Stat
begin

text \<open>
  The buckets of latencies follow the order of the values and stand for them with an error of at
  most one part in 128; the percentiles that the code reports are those of the samples up to that
  error. The sums over threads are those of all the samples.
\<close>

section \<open>Buckets\<close>

lemma clz_from_highest:
  "bit val m \<Longrightarrow> m < k \<Longrightarrow> \<forall>j. m < j \<and> j < k \<longrightarrow> \<not> bit val j \<Longrightarrow> clz_from k val = k - 1 - m"
proof (induction k)
  case (Suc k)
  then show ?case by (cases "m = k") (auto simp: less_Suc_eq Suc_diff_le)
qed simp

lemma builtin_clz_bounds:
  assumes "2 ^ m \<le> unat val" "unat val < 2 ^ (m + 1)"
  shows "m < 32" and "32 - builtin_clz val - 1 = m"
proof -
  have "(2 :: nat) ^ m < 2 ^ 32" using assms(1) unsigned_less [of val, where ?'a = nat] by simp
  then show m: "m < 32" by (rule power_less_imp_less_exp [rotated]) simp
  have b: "bit val j \<longleftrightarrow> j < 32 \<and> odd (unat val div 2 ^ j)" for j
  proof -
    have "bit (unat val) j \<longleftrightarrow> bit val j" by (simp add: bit_unsigned_iff)
    moreover have "bit (unat val) j \<longleftrightarrow> odd (unat val div 2 ^ j)" by (rule bit_iff_odd)
    moreover have "bit val j \<Longrightarrow> j < 32" by (auto dest: bit_imp_le_length)
    ultimately show ?thesis by blast
  qed
  have "unat val div 2 ^ m = 1" using assms by (intro div_nat_eqI) simp_all
  then have "bit val m" using m by (simp add: b)
  moreover have "\<not> bit val j" if "m < j" for j
  proof -
    have "(2 :: nat) ^ (m + 1) \<le> 2 ^ j" using that by (intro power_increasing) simp_all
    then show ?thesis using assms(2) by (simp add: b)
  qed
  ultimately have "clz_from 32 val = 32 - 1 - m" using m by (intro clz_from_highest) simp_all
  then show "32 - builtin_clz val - 1 = m" using m by (simp add: builtin_clz_def)
qed

text \<open>The bucket of a value below \<open>2 ^ 24\<close>, with \<open>e\<close> discarded bits.\<close>

lemma plat_val_to_idx_form:
  assumes "unat val < 2 ^ 24"
  obtains e where "plat_val_to_idx val = 64 * e + unat val div 2 ^ e" "unat val div 2 ^ e < 128"
    "e = 0 \<or> 64 \<le> unat val div 2 ^ e" "e \<le> 17"
proof (cases "unat val < 128")
  case True
  have "(if val = 0 then 0 else 32 - builtin_clz val - 1) \<le> 6"
  proof (cases "val = 0")
    case False
    then have "1 \<le> unat val" by (simp add: unat_gt_0 Suc_leI)
    from ex_power_ivl1 [of 2, OF _ this] obtain m where m: "2 ^ m \<le> unat val" "unat val < 2 ^ (m + 1)" by auto
    then have "(2 :: nat) ^ m < 2 ^ 7" using True by simp
    then have "m < 7" by (rule power_less_imp_less_exp [rotated]) simp
    then show ?thesis using builtin_clz_bounds(2) [OF m] by simp
  qed simp
  then have "plat_val_to_idx val = unat val" by (simp add: plat_val_to_idx_def Let_def)
  with True show ?thesis using that [of 0] by simp
next
  case False
  then have "1 \<le> unat val" by simp
  from ex_power_ivl1 [of 2, OF _ this] obtain m where m: "2 ^ m \<le> unat val" "unat val < 2 ^ (m + 1)" by auto
  note c = builtin_clz_bounds [OF m]
  have "(2 :: nat) ^ 7 < 2 ^ (m + 1)" "(2 :: nat) ^ m < 2 ^ 24" using m assms False by simp_all
  then have m7: "7 \<le> m" "m < 24"
    using power_less_imp_less_exp [of "2 :: nat" 7 "m + 1"] power_less_imp_less_exp [of "2 :: nat" m 24] by simp_all
  define e where "e = m - 6"
  have me: "m = e + 6" "1 \<le> e" "e \<le> 17" using m7 by (simp_all add: e_def)
  define q where "q = unat val div 2 ^ e"
  have "2 ^ e * 64 \<le> unat val" "unat val < 2 ^ e * 128" using m by (simp_all add: me(1) power_add)
  then have q: "64 \<le> q" "q < 128"
    by (simp_all add: q_def less_eq_div_iff_mult_less_eq div_less_iff_less_mult mult.commute)
  have "unat (63 AND drop_bit e val) = q mod 64"
  proof -
    have "63 AND drop_bit e val = take_bit 6 (drop_bit e val)"
      by (simp add: take_bit_eq_mask mask_eq_exp_minus_1 and.commute)
    then have "unat (63 AND drop_bit e val) = take_bit 6 (drop_bit e (unat val))"
      by (simp only: unsigned_take_bit_eq unat_drop_bit_eq)
    then show ?thesis by (simp add: take_bit_eq_mod drop_bit_eq_div q_def)
  qed
  also have "\<dots> = q - 64" using q by (simp add: mod_nat_eqI le_mod_geq)
  finally have o: "unat (63 AND drop_bit e val) = q - 64" .
  have nz: "val \<noteq> 0" using False by auto
  have "plat_val_to_idx val = (if (e + 1) * 64 + (q - 64) < 1215 then (e + 1) * 64 + (q - 64) else 1215)"
    using c(2) nz m7(1) o by (simp add: plat_val_to_idx_def Let_def me(1))
  also have "\<dots> = 64 * e + q" using q me(3) by auto
  finally show ?thesis using q me(3) that [of e] by (simp add: q_def)
qed

lemma plat_val_to_idx_less: "unat val < 2 ^ 24 \<Longrightarrow> plat_val_to_idx val < 1216"
  by (rule plat_val_to_idx_form [of val]) auto

lemma plat_val_to_idx_mono:
  assumes "unat a \<le> unat b" "unat b < 2 ^ 24"
  shows "plat_val_to_idx a \<le> plat_val_to_idx b"
proof -
  from assms have "unat a < 2 ^ 24" by simp
  then obtain d where d: "plat_val_to_idx a = 64 * d + unat a div 2 ^ d" "unat a div 2 ^ d < 128"
    "d = 0 \<or> 64 \<le> unat a div 2 ^ d" by (rule plat_val_to_idx_form)
  from assms(2) obtain e where e: "plat_val_to_idx b = 64 * e + unat b div 2 ^ e" "unat b div 2 ^ e < 128"
    "e = 0 \<or> 64 \<le> unat b div 2 ^ e" by (rule plat_val_to_idx_form)
  consider "d = e" | "d < e" | "e < d" by linarith
  then show ?thesis
  proof cases
    case 1
    then show ?thesis using assms(1) d(1) e(1) by (simp add: div_le_mono)
  next
    case 2
    then have "64 * d + 128 \<le> 64 * e + unat b div 2 ^ e" using e(3) by auto
    then show ?thesis using d(1,2) e(1) by simp
  next
    case 3
    then have "64 * 2 ^ d \<le> unat a" using d(3) by (simp add: less_eq_div_iff_mult_less_eq)
    moreover have "unat b < 128 * 2 ^ e" using e(2) by (simp add: div_less_iff_less_mult)
    moreover have "128 * 2 ^ e \<le> 64 * (2 :: nat) ^ d"
    proof -
      have "(2 :: nat) ^ (e + 1) \<le> 2 ^ d" using 3 by (intro power_increasing) simp_all
      then show ?thesis by simp
    qed
    ultimately show ?thesis using assms(1) by simp
  qed
qed

text \<open>The value of a bucket is within one part in 128 of every value in it.\<close>

definition within_128th :: "nat \<Rightarrow> nat \<Rightarrow> bool" where
  "within_128th v n \<longleftrightarrow> 128 * v \<le> 129 * n \<and> 127 * n \<le> 128 * v"

lemma plat_idx_to_val_close:
  assumes "unat val < 2 ^ 24"
  obtains v where "plat_idx_to_val (plat_val_to_idx val) = Some v" "within_128th v (unat val)"
proof -
  obtain e where e: "plat_val_to_idx val = 64 * e + unat val div 2 ^ e" "unat val div 2 ^ e < 128"
    "e = 0 \<or> 64 \<le> unat val div 2 ^ e" "e \<le> 17" using assms by (rule plat_val_to_idx_form)
  define q where "q = unat val div 2 ^ e"
  show ?thesis
  proof (cases "e = 0")
    case True
    with e have "plat_idx_to_val (plat_val_to_idx val) = Some (unat val)" by (simp add: plat_idx_to_val_def)
    then show ?thesis by (rule that) (simp add: within_128th_def)
  next
    case False
    with e have q: "64 \<le> q" "q < 128" by (simp_all add: q_def)
    have idx: "plat_val_to_idx val = 64 * (e + 1) + (q - 64)" using e(1) q by (simp add: q_def)
    have "plat_val_to_idx val div 64 = e + 1" unfolding idx using q by (intro div_nat_eqI) simp_all
    moreover have "plat_val_to_idx val mod 64 = q - 64" unfolding idx using q by (simp add: mod_nat_eqI)
    moreover have "plat_val_to_idx val < 1216" "\<not> plat_val_to_idx val < 128" unfolding idx using q e(4) False by simp_all
    ultimately have "plat_idx_to_val (plat_val_to_idx val) = Some (2 ^ (e + 6) + (2 * (q - 64) + 1) * 2 ^ e div 2)"
      by (simp add: plat_idx_to_val_def Let_def)
    moreover obtain d where d: "e = Suc d" using False by (cases e) simp_all
    define t where "t = (2 :: nat) ^ d"
    have "2 ^ (e + 6) + (2 * (q - 64) + 1) * 2 ^ e div 2 = (2 * q + 1) * t"
    proof -
      have "(2 * (q - 64) + 1) * 2 ^ e div 2 = (2 * (q - 64) + 1) * t" by (simp add: d t_def)
      moreover have "(2 :: nat) ^ (e + 6) = 128 * t" by (simp add: d t_def power_add)
      moreover have "2 * q + 1 = 128 + (2 * (q - 64) + 1)" using q by simp
      ultimately show ?thesis by (simp only: distrib_right)
    qed
    ultimately have v: "plat_idx_to_val (plat_val_to_idx val) = Some ((2 * q + 1) * t)" by simp
    have "2 ^ e = 2 * t" by (simp add: d t_def)
    then have n: "q * (2 * t) \<le> unat val" "unat val < q * (2 * t) + 2 * t"
    proof -
      have "unat val div (2 * t) * (2 * t) + unat val mod (2 * t) = unat val" by (rule div_mult_mod_eq)
      moreover have "unat val mod (2 * t) < 2 * t" by (simp add: t_def)
      ultimately show "q * (2 * t) \<le> unat val" "unat val < q * (2 * t) + 2 * t"
        unfolding q_def \<open>2 ^ e = 2 * t\<close> by linarith+
    qed
    define u where "u = q * t"
    have "64 * t \<le> u" unfolding u_def by (rule mult_le_mono1) (rule q(1))
    moreover have "2 * u \<le> unat val" "unat val < 2 * u + 2 * t" using n by (simp_all add: u_def)
    moreover have "(2 * q + 1) * t = 2 * u + t" by (simp add: u_def)
    ultimately have "within_128th ((2 * q + 1) * t) (unat val)" unfolding within_128th_def by linarith
    with v show ?thesis by (rule that)
  qed
qed

section \<open>The loops over the percentiles\<close>

lemma plat_idx_to_val_defined: "i < 1216 \<Longrightarrow> plat_idx_to_val i = Some (the (plat_idx_to_val i))"
  by (simp add: plat_idx_to_val_def Let_def)

text \<open>
  All that the loops need of the test: a larger sum reaches what a smaller one does, and a larger
  percentile is reached later.
\<close>

abbreviation reached :: "rounding \<Rightarrow> rat list \<Rightarrow> nat \<Rightarrow> nat \<Rightarrow> nat \<Rightarrow> bool" where
  "reached fl ps nr j s \<equiv> pct_reached fl nr (ps ! j) s"

abbreviation bucket_val :: "nat \<Rightarrow> nat" where
  "bucket_val i \<equiv> the (plat_idx_to_val i)"

definition pct_test_ok :: "rounding \<Rightarrow> rat list \<Rightarrow> nat \<Rightarrow> bool" where
  "pct_test_ok fl ps nr \<longleftrightarrow>
     (\<forall>j < length ps. \<forall>s s'. s \<le> s' \<longrightarrow> reached fl ps nr j s \<longrightarrow> reached fl ps nr j s')
     \<and> (\<forall>k < length ps. \<forall>j \<le> k. \<forall>s. reached fl ps nr k s \<longrightarrow> reached fl ps nr j s)
     \<and> (\<forall>j < length ps. ps ! j \<le> 100)"

lemma pct_test_okD:
  assumes "pct_test_ok fl ps nr"
  shows "j < length ps \<Longrightarrow> s \<le> s' \<Longrightarrow> reached fl ps nr j s \<Longrightarrow> reached fl ps nr j s'"
    and "j \<le> k \<Longrightarrow> k < length ps \<Longrightarrow> reached fl ps nr k s \<Longrightarrow> reached fl ps nr j s"
    and "j < length ps \<Longrightarrow> ps ! j \<le> 100"
  using assms unfolding pct_test_ok_def by blast+

lemma pct_while_result:
  assumes test: "pct_test_ok fl ps nr" and "i < 1216" "j < length ps"
  shows "\<exists>j' ovals' is_last. pct_while fl ps nr (length ps) i acc j ovals = Some (j', ovals', is_last)
    \<and> (if is_last then ovals' = ovals @ replicate (length ps - j) (bucket_val i) \<and> reached fl ps nr (length ps - 1) acc
       else j \<le> j' \<and> j' < length ps \<and> ovals' = ovals @ replicate (j' - j) (bucket_val i)
         \<and> \<not> reached fl ps nr j' acc \<and> (\<forall>k. j \<le> k \<and> k < j' \<longrightarrow> reached fl ps nr k acc))"
  using assms(3)
proof (induction "length ps - j" arbitrary: j ovals)
  case (Suc n)
  note v = plat_idx_to_val_defined [OF assms(2)]
  show ?case
  proof (cases "reached fl ps nr j acc")
    case False
    with Suc.prems show ?thesis
      by (subst pct_while.simps) (intro exI [of _ j] exI [of _ ovals] exI [of _ False], auto)
  next
    case True
    show ?thesis
    proof (cases "j = length ps - 1")
      case last: True
      then have "length ps - j = 1" using Suc.prems by simp
      with True last Suc.prems pct_test_okD(3) [OF test Suc.prems] show ?thesis
        by (subst pct_while.simps) (subst v, auto)
    next
      case False
      with Suc.prems have j: "j + 1 < length ps" by simp
      have "n = length ps - (j + 1)" using Suc.hyps(2) by simp
      from Suc.hyps(1) [OF this j, of "ovals @ [bucket_val i]"] obtain j' ovals' is_last where
        r: "pct_while fl ps nr (length ps) i acc (j + 1) (ovals @ [bucket_val i]) = Some (j', ovals', is_last)"
        and q: "if is_last then ovals' = (ovals @ [bucket_val i]) @ replicate (length ps - (j + 1)) (bucket_val i)
            \<and> reached fl ps nr (length ps - 1) acc
          else j + 1 \<le> j' \<and> j' < length ps \<and> ovals' = (ovals @ [bucket_val i]) @ replicate (j' - (j + 1)) (bucket_val i)
            \<and> \<not> reached fl ps nr j' acc \<and> (\<forall>k. j + 1 \<le> k \<and> k < j' \<longrightarrow> reached fl ps nr k acc)" by blast
      have "pct_while fl ps nr (length ps) i acc j ovals = Some (j', ovals', is_last)"
        using True False Suc.prems pct_test_okD(3) [OF test Suc.prems] r by (subst pct_while.simps) (subst v, simp)
      moreover have *: "[bucket_val i] @ replicate (k - (j + 1)) (bucket_val i) = replicate (k - j) (bucket_val i)"
        if "j + 1 \<le> k" for k
        using that by (metis Suc_diff_le Suc_eq_plus1 append_Cons append_Nil diff_Suc_Suc replicate_Suc)
      have "if is_last then ovals' = ovals @ replicate (length ps - j) (bucket_val i) \<and> reached fl ps nr (length ps - 1) acc
          else j \<le> j' \<and> j' < length ps \<and> ovals' = ovals @ replicate (j' - j) (bucket_val i)
            \<and> \<not> reached fl ps nr j' acc \<and> (\<forall>k. j \<le> k \<and> k < j' \<longrightarrow> reached fl ps nr k acc)"
      proof (cases is_last)
        case False
        with q have "j + 1 \<le> j'" "\<forall>k. j + 1 \<le> k \<and> k < j' \<longrightarrow> reached fl ps nr k acc" by simp_all
        then have "\<forall>k. j \<le> k \<and> k < j' \<longrightarrow> reached fl ps nr k acc"
          using True by (metis Suc_eq_plus1 Suc_leI le_neq_implies_less)
        then show ?thesis using q False \<open>j + 1 \<le> j'\<close> * by simp
      qed (use q j * in simp)
      ultimately show ?thesis by blast
    qed
  qed
qed simp

lemma pct_for_result:
  assumes test: "pct_test_ok fl ps nr" and "i + length cs \<le> 1216" "j < length ps" "length ovals = j"
    "\<not> reached fl ps nr j acc" "reached fl ps nr (length ps - 1) (acc + sum_list (map unat cs))"
  shows "\<exists>ovals'. pct_for fl ps nr (length ps) i cs acc j ovals = Some ovals' \<and> length ovals' = length ps
    \<and> (\<forall>k < j. ovals' ! k = ovals ! k)
    \<and> (\<forall>k. j \<le> k \<and> k < length ps \<longrightarrow> (\<exists>m < length cs. ovals' ! k = bucket_val (i + m)
         \<and> reached fl ps nr k (acc + sum_list (map unat (take (m + 1) cs)))
         \<and> \<not> reached fl ps nr k (acc + sum_list (map unat (take m cs)))))"
  using assms(2-)
proof (induction cs arbitrary: i acc j ovals)
  case Nil
  then have "j \<le> length ps - 1" "length ps - 1 < length ps" by linarith+
  then have "reached fl ps nr j acc" using pct_test_okD(2) [OF test, of j "length ps - 1" acc] Nil.prems(5) by simp
  with Nil.prems show ?case by simp
next
  case (Cons c cs)
  define a where "a = acc + unat c"
  have i: "i < 1216" using Cons.prems(1) by simp
  have neg: "\<not> reached fl ps nr k acc" if "j \<le> k" "k < length ps" for k
    using pct_test_okD(2) [OF test that, of acc] Cons.prems(4) by blast
  from pct_while_result [OF test i Cons.prems(2), of a ovals] obtain j' ovals1 is_last where
    r: "pct_while fl ps nr (length ps) i a j ovals = Some (j', ovals1, is_last)"
    and q: "if is_last then ovals1 = ovals @ replicate (length ps - j) (bucket_val i) \<and> reached fl ps nr (length ps - 1) a
      else j \<le> j' \<and> j' < length ps \<and> ovals1 = ovals @ replicate (j' - j) (bucket_val i)
        \<and> \<not> reached fl ps nr j' a \<and> (\<forall>k. j \<le> k \<and> k < j' \<longrightarrow> reached fl ps nr k a)" by blast
  show ?case
  proof (cases is_last)
    case True
    with q have o: "ovals1 = ovals @ replicate (length ps - j) (bucket_val i)" "reached fl ps nr (length ps - 1) a" by simp_all
    have "\<exists>m < length (c # cs). ovals1 ! k = bucket_val (i + m)
         \<and> reached fl ps nr k (acc + sum_list (map unat (take (m + 1) (c # cs))))
         \<and> \<not> reached fl ps nr k (acc + sum_list (map unat (take m (c # cs))))" if k: "j \<le> k" "k < length ps" for k
      using k o Cons.prems(3) neg [OF k] pct_test_okD(2) [OF test, of k "length ps - 1" a]
      by (intro exI [of _ 0]) (simp add: nth_append a_def)
    moreover have "pct_for fl ps nr (length ps) i (c # cs) acc j ovals = Some ovals1"
      using r True by (simp add: a_def [symmetric] Let_def)
    moreover have "length ovals1 = length ps" "\<forall>k < j. ovals1 ! k = ovals ! k"
      using o(1) Cons.prems(2,3) by (simp_all add: nth_append)
    ultimately show ?thesis by blast
  next
    case False
    with q have o: "j \<le> j'" "j' < length ps" "ovals1 = ovals @ replicate (j' - j) (bucket_val i)"
      "\<not> reached fl ps nr j' a" "\<forall>k. j \<le> k \<and> k < j' \<longrightarrow> reached fl ps nr k a" by simp_all
    have "i + 1 + length cs \<le> 1216" "length ovals1 = j'"
      "reached fl ps nr (length ps - 1) (a + sum_list (map unat cs))"
      using Cons.prems(1,3,5) o(1,3) by (simp_all add: a_def add.assoc)
    from Cons.IH [OF this(1) o(2) this(2) o(4) this(3)] obtain ovals' where
      r': "pct_for fl ps nr (length ps) (i + 1) cs a j' ovals1 = Some ovals'" "length ovals' = length ps"
      and old: "\<forall>k < j'. ovals' ! k = ovals1 ! k"
      and new: "\<forall>k. j' \<le> k \<and> k < length ps \<longrightarrow> (\<exists>m < length cs. ovals' ! k = bucket_val (i + 1 + m)
         \<and> reached fl ps nr k (a + sum_list (map unat (take (m + 1) cs)))
         \<and> \<not> reached fl ps nr k (a + sum_list (map unat (take m cs))))" by blast
    have "\<exists>m < length (c # cs). ovals' ! k = bucket_val (i + m)
         \<and> reached fl ps nr k (acc + sum_list (map unat (take (m + 1) (c # cs))))
         \<and> \<not> reached fl ps nr k (acc + sum_list (map unat (take m (c # cs))))" if k: "j \<le> k" "k < length ps" for k
    proof (cases "k < j'")
      case True
      with k o old Cons.prems(3) neg [OF k] show ?thesis
        by (intro exI [of _ 0]) (simp add: nth_append a_def)
    next
      case False
      then have "j' \<le> k \<and> k < length ps" using k(2) by simp
      with new obtain m where "m < length cs" "ovals' ! k = bucket_val (i + 1 + m)"
        "reached fl ps nr k (a + sum_list (map unat (take (m + 1) cs)))" "\<not> reached fl ps nr k (a + sum_list (map unat (take m cs)))"
        by blast
      then show ?thesis by (intro exI [of _ "m + 1"]) (simp add: a_def add.assoc)
    qed
    moreover have "\<forall>k < j. ovals' ! k = ovals ! k" using old o(1,3) Cons.prems(3) by (simp add: nth_append)
    moreover have "pct_for fl ps nr (length ps) i (c # cs) acc j ovals = Some ovals'"
      using r r'(1) False by (simp add: a_def [symmetric] Let_def)
    ultimately show ?thesis using r'(2) by blast
  qed
qed


section \<open>The buckets of a list of samples\<close>

abbreviation bucket :: "u64 \<Rightarrow> nat" where
  "bucket x \<equiv> plat_val_to_idx (ucast x)"

fun add_clat_samples :: "rounding \<Rightarrow> thread_stat \<Rightarrow> nat \<Rightarrow> u64 list \<Rightarrow> thread_stat option" where
  "add_clat_samples fl ts ddir [] = Some ts"
| "add_clat_samples fl ts ddir (x # xs) = do {
     ts \<leftarrow> add_clat_sample fl ts ddir x;
     add_clat_samples fl ts ddir xs }"

definition rows_ok :: "thread_stat \<Rightarrow> bool" where
  "rows_ok ts \<longleftrightarrow> length (ts_clat_stat ts) = 3 \<and> length (ts_io_u_plat ts) = 3
     \<and> (\<forall>d < 3. length (ts_io_u_plat ts ! d) = 1216) \<and> ts_clat_percentiles ts"

lemma ucast_small: "unat x < 2 ^ 24 \<Longrightarrow> unat (ucast (x :: u64) :: u32) = unat x"
  by (simp add: unat_ucast_32)

lemma add_clat_sample_row:
  assumes "rows_ok ts" "ddir < 3" "unat x < 2 ^ 24"
  shows "\<exists>ts'. add_clat_sample fl ts ddir x = Some ts' \<and> rows_ok ts'
    \<and> ts_io_u_plat ts' ! ddir = (ts_io_u_plat ts ! ddir)[bucket x := ts_io_u_plat ts ! ddir ! bucket x + 1]
    \<and> is_samples (ts_clat_stat ts' ! ddir) = is_samples (ts_clat_stat ts ! ddir) + 1"
proof -
  have "bucket x < 1216" by (rule plat_val_to_idx_less) (use assms(3) in \<open>simp add: ucast_small\<close>)
  then show ?thesis using assms(1,2)
    by (auto simp: add_clat_sample_def add_clat_percentile_sample_def rows_ok_def bump_def Let_def
        nth_list_update add_stat_sample_def)
qed

text \<open>Every bucket counts the samples in it, and the number of samples is counted.\<close>

lemma add_clat_samples_row:
  assumes "rows_ok ts" "ddir < 3" "\<forall>x \<in> set xs. unat x < 2 ^ 24"
  shows "\<exists>ts'. add_clat_samples fl ts ddir xs = Some ts' \<and> rows_ok ts'
    \<and> (\<forall>i < 1216. ts_io_u_plat ts' ! ddir ! i =
         ts_io_u_plat ts ! ddir ! i + of_nat (length (filter (\<lambda>x. bucket x = i) xs)))
    \<and> is_samples (ts_clat_stat ts' ! ddir) = is_samples (ts_clat_stat ts ! ddir) + of_nat (length xs)"
  using assms(1,3)
proof (induction xs arbitrary: ts)
  case (Cons x xs)
  have x: "unat x < 2 ^ 24" using Cons.prems(2) by simp
  from add_clat_sample_row [OF Cons.prems(1) assms(2) x, of fl] obtain ts1 where
    1: "add_clat_sample fl ts ddir x = Some ts1" "rows_ok ts1"
      "ts_io_u_plat ts1 ! ddir = (ts_io_u_plat ts ! ddir)[bucket x := ts_io_u_plat ts ! ddir ! bucket x + 1]"
      "is_samples (ts_clat_stat ts1 ! ddir) = is_samples (ts_clat_stat ts ! ddir) + 1" by blast
  have "\<forall>x \<in> set xs. unat x < 2 ^ 24" using Cons.prems(2) by simp
  from Cons.IH [OF 1(2) this] obtain ts' where
    2: "add_clat_samples fl ts1 ddir xs = Some ts'" "rows_ok ts'"
      "\<forall>i < 1216. ts_io_u_plat ts' ! ddir ! i =
         ts_io_u_plat ts1 ! ddir ! i + of_nat (length (filter (\<lambda>x. bucket x = i) xs))"
      "is_samples (ts_clat_stat ts' ! ddir) = is_samples (ts_clat_stat ts1 ! ddir) + of_nat (length xs)" by blast
  have "length (ts_io_u_plat ts ! ddir) = 1216" using Cons.prems(1) assms(2) by (simp add: rows_ok_def)
  then have "ts_io_u_plat ts' ! ddir ! i =
      ts_io_u_plat ts ! ddir ! i + of_nat (length (filter (\<lambda>x. bucket x = i) (x # xs)))" if "i < 1216" for i
    using 2(3) that by (simp add: 1(3) nth_list_update)
  with 1 2 show ?case by (intro exI [of _ ts']) simp
qed simp

lemma cumulative_counts:
  assumes "\<forall>i < n. row ! i = length (filter (\<lambda>x. f x = i) xs)" "n \<le> length row"
  shows "sum_list (take n row) = length (filter (\<lambda>x. f x < n) xs)"
  using assms
proof (induction n)
  case (Suc n)
  have "length (filter (\<lambda>x. f x < Suc n) xs)
    = length (filter (\<lambda>x. f x < n) xs) + length (filter (\<lambda>x. f x = n) xs)"
    by (induction xs) (auto simp: less_Suc_eq)
  with Suc show ?case by (simp add: take_Suc_conv_app_nth)
qed simp

text \<open>The bucket at which the counts reach a rank is the bucket of the sample of that rank.\<close>

lemma bucket_of_rank:
  fixes f :: "'a::linorder \<Rightarrow> nat"
  assumes "sorted ys" "\<And>a b. a \<in> set ys \<Longrightarrow> b \<in> set ys \<Longrightarrow> a \<le> b \<Longrightarrow> f a \<le> f b"
    and "length (filter (\<lambda>y. f y < m) ys) < r" "r \<le> length (filter (\<lambda>y. f y < m + 1) ys)"
  shows "f (ys ! (r - 1)) = m" and "r - 1 < length ys"
proof -
  have "r \<le> length ys" using assms(4) le_trans length_filter_le by blast
  then show r: "r - 1 < length ys" using assms(3) by simp
  have mono: "f (ys ! i) \<le> f (ys ! j)" if "i \<le> j" "j < length ys" for i j
    using that assms(1,2) by (simp add: sorted_nth_mono)
  have c: "length (filter (\<lambda>y. f y < k) ys) = card {i. i < length ys \<and> f (ys ! i) < k}" for k
    by (simp add: length_filter_conv_card)
  have "\<not> f (ys ! (r - 1)) < m"
  proof
    assume a: "f (ys ! (r - 1)) < m"
    have "{..< r} \<subseteq> {i. i < length ys \<and> f (ys ! i) < m}"
    proof
      fix i assume "i \<in> {..< r}"
      then have "i \<le> r - 1" by simp
      from le_less_trans [OF mono [OF this r] a] this r show "i \<in> {i. i < length ys \<and> f (ys ! i) < m}" by simp
    qed
    then have "card {..< r} \<le> length (filter (\<lambda>y. f y < m) ys)" unfolding c by (rule card_mono [rotated]) simp
    with assms(3) show False by simp
  qed
  moreover have "f (ys ! (r - 1)) < m + 1"
  proof (rule ccontr)
    assume a: "\<not> ?thesis"
    have "{i. i < length ys \<and> f (ys ! i) < m + 1} \<subseteq> {..< r - 1}"
    proof
      fix i assume i: "i \<in> {i. i < length ys \<and> f (ys ! i) < m + 1}"
      show "i \<in> {..< r - 1}"
      proof (rule ccontr)
        assume "i \<notin> {..< r - 1}"
        with i mono [of "r - 1" i] a show False by simp
      qed
    qed
    then have "length (filter (\<lambda>y. f y < m + 1) ys) \<le> card {..< r - 1}" unfolding c by (rule card_mono [rotated]) simp
    with assms(3,4) show False by simp
  qed
  ultimately show "f (ys ! (r - 1)) = m" by simp
qed

section \<open>Percentiles of samples\<close>

text \<open>
  What is used of the arithmetic of doubles: rounding keeps the order and leaves every integer of 53
  bits over a power of two as it is.
\<close>

definition double_rounding :: "rounding \<Rightarrow> bool" where
  "double_rounding fl \<longleftrightarrow> mono fl
     \<and> (\<forall>n k. n \<le> 2 ^ 53 \<and> k \<le> 1000 \<longrightarrow> fl (of_nat n / 2 ^ k) = of_nat n / 2 ^ k)"

lemma double_roundingD:
  assumes "double_rounding fl"
  shows "x \<le> y \<Longrightarrow> fl x \<le> fl y" and "n \<le> 2 ^ 53 \<Longrightarrow> fl (of_nat n) = of_nat n"
    and "k \<le> 1000 \<Longrightarrow> fl (1 / 2 ^ k) = 1 / 2 ^ k" and "fl 1 = 1" and "fl 0 = 0"
proof -
  have ex: "fl (of_nat n / 2 ^ k) = of_nat n / 2 ^ k" if "n \<le> 2 ^ 53" "k \<le> 1000" for n k
    using assms that by (simp add: double_rounding_def)
  show "x \<le> y \<Longrightarrow> fl x \<le> fl y" using assms by (simp add: double_rounding_def monoD)
  show "n \<le> 2 ^ 53 \<Longrightarrow> fl (of_nat n) = of_nat n" using ex [of n 0] by simp
  show "k \<le> 1000 \<Longrightarrow> fl (1 / 2 ^ k) = 1 / 2 ^ k" using ex [of 1 k] by simp
  show "fl 1 = 1" using ex [of 1 0] by simp
  show "fl 0 = 0" using ex [of 0 0] by simp
qed

text \<open>The rank at which the code reads a percentile of \<open>n\<close> samples.\<close>

definition pct_rank :: "rounding \<Rightarrow> rat \<Rightarrow> nat \<Rightarrow> nat" where
  "pct_rank fl p n = nat \<lceil>fl (fl (p / 100) * of_nat n)\<rceil>"

lemma pct_rank_bounds:
  assumes "double_rounding fl" "1 / 2 ^ 64 \<le> p" "p \<le> 100" "0 < n" "n < 2 ^ 32"
  shows "1 \<le> pct_rank fl p n" and "pct_rank fl p n \<le> n"
    and "s \<le> n \<Longrightarrow> pct_reached fl n p s \<longleftrightarrow> pct_rank fl p n \<le> s"
proof -
  note d = double_roundingD [OF assms(1)]
  define T where "T = fl (fl (p / 100) * of_nat n)"
  have "fl (p / 100) \<le> 1" using d(1) [of "p / 100" 1] d(4) assms(3) by simp
  then have "fl (p / 100) * of_nat n \<le> of_nat n" using mult_right_mono [of "fl (p / 100)" 1 "of_nat n"] by simp
  moreover have "fl (of_nat n) = of_nat n" using d(2) [of n] assms(5) by simp
  ultimately have le: "T \<le> of_nat n"
    using d(1) [of "fl (p / 100) * of_nat n" "of_nat n"] by (simp add: T_def)
  have "(1 :: rat) / 2 ^ 71 \<le> p / 100" using assms(2) by simp
  then have "1 / 2 ^ 71 \<le> fl (p / 100)" using d(1) [of "1 / 2 ^ 71" "p / 100"] d(3) [of 71] by simp
  moreover have "(1 :: rat) \<le> of_nat n" using assms(4) by simp
  ultimately have "1 / 2 ^ 71 * 1 \<le> fl (p / 100) * of_nat n" by (intro mult_mono) simp_all
  then have "1 / 2 ^ 71 \<le> T" using d(1) [of "1 / 2 ^ 71" "fl (p / 100) * of_nat n"] d(3) [of 71] by (simp add: T_def)
  then have "0 < T" by (rule less_le_trans [rotated]) simp
  have r: "pct_rank fl p n = nat \<lceil>T\<rceil>" by (simp add: pct_rank_def T_def)
  show "1 \<le> pct_rank fl p n" using \<open>0 < T\<close> by (simp add: r Suc_le_eq)
  have iff: "pct_rank fl p n \<le> s \<longleftrightarrow> T \<le> of_nat s" for s
  proof -
    have "nat \<lceil>T\<rceil> \<le> s \<longleftrightarrow> \<lceil>T\<rceil> \<le> int s" by (rule nat_le_iff)
    also have "\<dots> \<longleftrightarrow> T \<le> of_int (int s)" by (rule ceiling_le_iff)
    finally show ?thesis by (simp add: r)
  qed
  show "pct_rank fl p n \<le> n" using le by (simp add: iff)
  show "s \<le> n \<Longrightarrow> pct_reached fl n p s \<longleftrightarrow> pct_rank fl p n \<le> s"
    using assms(5) d(2) [of n] d(2) [of s] by (simp add: pct_reached_def iff T_def)
qed

lemma pct_test_ok_sorted:
  assumes "double_rounding fl" "sorted ps" "\<forall>p \<in> set ps. p \<le> 100"
  shows "pct_test_ok fl ps n"
proof -
  note d = double_roundingD [OF assms(1)]
  have n: "0 \<le> fl (of_nat n)" using d(1) [of 0 "of_nat n"] d(5) by simp
  have "pct_reached fl n p s'" if "s \<le> s'" "pct_reached fl n p s" for p s s'
    using d(1) [of "of_nat s" "of_nat s'"] that by (simp add: pct_reached_def)
  moreover have "pct_reached fl n p s" if "p \<le> q" "pct_reached fl n q s" for p q s
  proof -
    have "fl (p / 100) \<le> fl (q / 100)" using d(1) [of "p / 100" "q / 100"] that(1) by simp
    then have "fl (fl (p / 100) * fl (of_nat n)) \<le> fl (fl (q / 100) * fl (of_nat n))"
      by (rule d(1) [OF mult_right_mono [OF _ n]])
    then show ?thesis using that(2) by (simp add: pct_reached_def)
  qed
  ultimately show ?thesis
    using assms(2,3) by (simp add: pct_test_ok_def) (metis sorted_nth_mono)
qed



section \<open>Means and sums of squares\<close>

text \<open>
  In exact arithmetic the running update is the mean and the sum of the squared deviations, and the
  merge of two statistics is the statistics of all the samples.
\<close>

definition exact :: rounding where
  "exact x = x"

definition stat_of :: "rounding \<Rightarrow> u64 list \<Rightarrow> io_stat" where
  "stat_of fl xs = foldl (add_stat_sample fl) (empty_io_stat (- 1)) xs"

definition vals :: "u64 list \<Rightarrow> rat list" where
  "vals xs = map (\<lambda>x. of_nat (unat x)) xs"

definition total :: "u64 list \<Rightarrow> rat" where
  "total xs = sum_list (vals xs)"

definition squares :: "u64 list \<Rightarrow> rat" where
  "squares xs = sum_list (map (\<lambda>v. v * v) (vals xs))"

lemma totals_snoc:
  "total (xs @ [x]) = total xs + of_nat (unat x)" "squares (xs @ [x]) = squares xs + of_nat (unat x) * of_nat (unat x)"
  by (simp_all add: total_def squares_def vals_def)

lemma totals_append [simp]:
  "total (xs @ ys) = total xs + total ys" "squares (xs @ ys) = squares xs + squares ys"
  by (simp_all add: total_def squares_def vals_def)

lemma totals_Nil [simp]: "total [] = 0" "squares [] = 0"
  by (simp_all add: total_def squares_def vals_def)

lemma welford_step:
  fixes n A Q v :: rat
  assumes "0 < n"
  shows "A / n + (v - A / n) / (n + 1) = (A + v) / (n + 1)"
    and "Q - A * A / n + (v - A / n) * (v - (A + v) / (n + 1)) = Q + v * v - (A + v) * (A + v) / (n + 1)"
proof -
  from assms have nz: "n \<noteq> 0" "n + 1 \<noteq> 0" by simp_all
  show "A / n + (v - A / n) / (n + 1) = (A + v) / (n + 1)"
    using nz by (simp add: divide_simps) (simp add: algebra_simps)
  show "Q - A * A / n + (v - A / n) * (v - (A + v) / (n + 1)) = Q + v * v - (A + v) * (A + v) / (n + 1)"
    using nz by (simp add: divide_simps) (simp add: algebra_simps)
qed

lemma stat_of_snoc: "stat_of fl (xs @ [x]) = add_stat_sample fl (stat_of fl xs) x"
  by (simp add: stat_of_def)

lemma add_stat_sample_fields:
  "is_samples (add_stat_sample fl s x) = is_samples s + 1"
  "is_max_val (add_stat_sample fl s x) = max (is_max_val s) x"
  "is_min_val (add_stat_sample fl s x) = min (is_min_val s) x"
  by (auto simp: add_stat_sample_def Let_def max_def min_def)

lemma add_stat_sample_exact:
  fixes s :: io_stat and x :: u64
  defines "n \<equiv> of_nat (unat (is_samples s)) :: rat" and "v \<equiv> of_nat (unat x) :: rat"
  shows "is_mean (add_stat_sample exact s x) = is_mean s + (v - is_mean s) / (n + 1)"
    and "is_S (add_stat_sample exact s x)
      = is_S s + (v - is_mean s) * (v - (is_mean s + (v - is_mean s) / (n + 1)))"
  by (auto simp: add_stat_sample_def Let_def n_def v_def exact_def)

lemma stat_of_exact:
  assumes "length xs < 2 ^ 64"
  shows "unat (is_samples (stat_of exact xs)) = length xs
    \<and> is_mean (stat_of exact xs) = total xs / of_nat (length xs)
    \<and> is_S (stat_of exact xs) = squares xs - total xs * total xs / of_nat (length xs)"
  using assms
proof (induction xs rule: rev_induct)
  case Nil
  then show ?case by (simp add: stat_of_def empty_io_stat_def)
next
  case (snoc x xs)
  define s where "s = stat_of exact xs"
  define n where "n = (of_nat (length xs) :: rat)"
  define v where "v = (of_nat (unat x) :: rat)"
  from snoc have s: "unat (is_samples s) = length xs" "is_mean s = total xs / n"
    "is_S s = squares xs - total xs * total xs / n" by (simp_all add: s_def n_def)
  have "unat (is_samples s + 1) = length xs + 1"
    using s(1) snoc.prems by (subst unat_add_lem [THEN iffD1]) simp_all
  moreover have "total xs / n + (v - total xs / n) / (n + 1) = (total xs + v) / (n + 1)
    \<and> squares xs - total xs * total xs / n + (v - total xs / n) * (v - (total xs + v) / (n + 1))
      = squares xs + v * v - (total xs + v) * (total xs + v) / (n + 1)"
  proof (cases "xs = []")
    case False
    then have "0 < n" by (simp add: n_def)
    from welford_step [OF this] show ?thesis by blast
  qed (simp add: n_def)
  moreover have "of_nat (length (xs @ [x])) = n + 1" by (simp add: n_def)
  ultimately show ?case
    using add_stat_sample_exact [of s x, unfolded s, folded n_def v_def]
    unfolding stat_of_snoc s_def [symmetric] add_stat_sample_fields totals_snoc v_def [symmetric]
    by (simp only: simp_thms length_append_singleton Suc_eq_plus1)
qed

lemma foldl_max_u64: "foldl max a ys = max a (foldl max (0 :: u64) ys)"
proof (induction ys arbitrary: a)
  case (Cons y ys)
  from Cons [of "max a y"] Cons [of "max 0 y"] show ?case by (simp add: max.assoc)
qed simp

lemma foldl_min_u64: "foldl min a ys = min a (foldl min (- 1 :: u64) ys)"
proof (induction ys arbitrary: a)
  case Nil
  then show ?case by (simp add: min_def word_order.extremum_unique)
next
  case (Cons y ys)
  have "min (- 1) y = y" by (simp add: min_def word_order.extremum_unique)
  with Cons [of "min a y"] Cons [of "min (- 1) y"] show ?case by (simp add: min.assoc)
qed

lemma stat_of_extremes:
  "is_max_val (stat_of fl xs) = foldl max 0 xs" "is_min_val (stat_of fl xs) = foldl min (- 1) xs"
proof -
  have "is_max_val (foldl (add_stat_sample fl) s xs) = foldl max (is_max_val s) xs"
    "is_min_val (foldl (add_stat_sample fl) s xs) = foldl min (is_min_val s) xs" for s
    by (induction xs arbitrary: s) (simp_all add: add_stat_sample_fields)
  then show "is_max_val (stat_of fl xs) = foldl max 0 xs" "is_min_val (stat_of fl xs) = foldl min (- 1) xs"
    by (simp_all add: stat_of_def empty_io_stat_def)
qed

lemma merge_step:
  fixes n m A B P Q :: rat
  assumes "0 < n" "0 < m"
  shows "(B / m * m + A / n * n) / (n + m) = (A + B) / (n + m)"
    and "Q - B * B / m + (P - A * A / n) + (B / m - A / n) * (B / m - A / n) * (n * m) / (n + m)
      = P + Q - (A + B) * (A + B) / (n + m)"
proof -
  from assms have nz: "n \<noteq> 0" "m \<noteq> 0" "n + m \<noteq> 0" by simp_all
  show "(B / m * m + A / n * n) / (n + m) = (A + B) / (n + m)" using nz by (simp add: add.commute)
  show "Q - B * B / m + (P - A * A / n) + (B / m - A / n) * (B / m - A / n) * (n * m) / (n + m)
      = P + Q - (A + B) * (A + B) / (n + m)"
    using nz by (simp add: divide_simps) (simp add: algebra_simps)
qed

lemma deviations:
  "sum_list (map (\<lambda>v. (v - c) ^ 2) vs)
    = sum_list (map (\<lambda>v. v * v) vs) - 2 * c * sum_list vs + of_nat (length vs) * c * (c :: rat)"
  by (induction vs) (simp_all add: power2_eq_square algebra_simps)

text \<open>
  C23: merging the statistics of two threads gives the statistics of all their samples, the same
  extremes, number, mean and sum of squared deviations. The first argument is empty when the merge
  is the first one (\<open>nr = 1\<close>), and the product of the numbers of samples stays below
  \<open>2 ^ 64\<close>. Doubles are exact here.
\<close>

theorem sum_stat_of_all_samples:
  assumes "nr \<noteq> 1 \<or> xs = []" "length xs + length ys < 2 ^ 64" "length xs * length ys < 2 ^ 64"
  shows "sum_stat exact (stat_of exact xs) (stat_of exact ys) nr = stat_of exact (xs @ ys)
    \<and> is_mean (stat_of exact xs) = total xs / of_nat (length xs)
    \<and> is_S (stat_of exact xs) = sum_list (map (\<lambda>v. (v - is_mean (stat_of exact xs)) ^ 2) (vals xs))"
proof -
  from assms(2) have len: "length xs < 2 ^ 64" "length ys < 2 ^ 64" "length (xs @ ys) < 2 ^ 64" by simp_all
  note X = stat_of_exact [OF len(1)] and Y = stat_of_exact [OF len(2)] and XY = stat_of_exact [OF len(3)]
  define s where "s = stat_of exact xs"
  define t where "t = stat_of exact ys"
  note X = X [folded s_def] and Y = Y [folded t_def]
  have ext: "is_max_val (stat_of exact (xs @ ys)) = max (is_max_val s) (is_max_val t)"
    "is_min_val (stat_of exact (xs @ ys)) = min (is_min_val s) (is_min_val t)"
    unfolding s_def t_def stat_of_extremes
    using foldl_max_u64 [of "foldl max 0 xs" ys] foldl_min_u64 [of "foldl min (- 1) xs" ys] by simp_all
  have n: "unat (is_samples s + is_samples t) = length xs + length ys"
    "unat (is_samples s * is_samples t) = length xs * length ys"
    using X Y assms(2,3) by (simp_all add: unat_word_ariths)
  have sm: "is_samples (stat_of exact (xs @ ys)) = is_samples s + is_samples t"
    using n(1) XY by (simp add: word_unat_eq_iff)
  define m where "m = (of_nat (length xs) :: rat)"
  define k where "k = (of_nat (length ys) :: rat)"
  have sums: "of_nat (length xs + length ys) = m + k" "of_nat (length xs * length ys) = m * k"
    "of_nat (length (xs @ ys)) = m + k" by (simp_all add: m_def k_def)
  have "sum_stat exact s t nr = stat_of exact (xs @ ys)"
  proof (cases "ys = []")
    case True
    then have "is_samples t = 0" using Y by (simp add: unat_eq_zero)
    with True show ?thesis by (simp add: sum_stat_def s_def)
  next
    case False
    then have t0: "is_samples t \<noteq> 0" and k: "0 < k" using Y by (auto simp: k_def)
    have u: "(of_nat (unat (is_samples t)) :: rat) = k" "(of_nat (unat (is_samples s)) :: rat) = m"
      "(of_nat (unat (is_samples s + is_samples t)) :: rat) = m + k"
      "(of_nat (unat (is_samples s * is_samples t)) :: rat) = m * k"
      unfolding n using X Y sums by (simp_all only: m_def k_def)
    have Xm: "is_mean s = total xs / m" "is_S s = squares xs - total xs * total xs / m"
      and Ym: "is_mean t = total ys / k" "is_S t = squares ys - total ys * total ys / k"
      using X Y by (simp_all add: m_def k_def)
    have mean_S: "(if nr = 1 then is_mean t else (is_mean t * k + is_mean s * m) / (m + k)) = (total xs + total ys) / (m + k)
      \<and> (if nr = 1 then is_S t else is_S t + is_S s + (is_mean t - is_mean s) * (is_mean t - is_mean s) * (m * k) / (m + k))
        = squares xs + squares ys - (total xs + total ys) * (total xs + total ys) / (m + k)"
    proof (cases "xs = []")
      case True
      then show ?thesis using k by (simp add: Xm Ym m_def)
    next
      case False
      then have "0 < m" "nr \<noteq> 1" using assms(1) by (simp_all add: m_def)
      with merge_step [OF \<open>0 < m\<close> k] show ?thesis by (simp add: Xm Ym)
    qed
    have "sum_stat exact s t nr = \<lparr>is_max_val = max (is_max_val s) (is_max_val t),
        is_min_val = min (is_min_val s) (is_min_val t), is_samples = is_samples s + is_samples t,
        is_mean = (total xs + total ys) / (m + k),
        is_S = squares xs + squares ys - (total xs + total ys) * (total xs + total ys) / (m + k)\<rparr>"
      unfolding mean_S [THEN conjunct1, symmetric] mean_S [THEN conjunct2, symmetric]
      by (simp only: sum_stat_def exact_def Let_def t0 if_False u)
    also have "\<dots> = stat_of exact (xs @ ys)"
      using XY by (intro io_stat.equality) (simp_all add: ext sm m_def k_def)
    finally show ?thesis .
  qed
  moreover have "is_S s = sum_list (map (\<lambda>v. (v - is_mean s) ^ 2) (vals xs))"
  proof (cases "xs = []")
    case False
    then have "m \<noteq> 0" by (simp add: m_def)
    moreover have *: "is_mean s = total xs / m" "is_S s = squares xs - total xs * total xs / m"
      using X by (simp_all add: m_def)
    moreover have "of_nat (length (vals xs)) = m" by (simp add: m_def vals_def)
    then have "sum_list (map (\<lambda>v. (v - is_mean s) ^ 2) (vals xs))
        = squares xs - 2 * is_mean s * total xs + m * is_mean s * is_mean s"
      using deviations [of "is_mean s" "vals xs"] by (simp only: total_def squares_def)
    ultimately show ?thesis by (simp only: *) (simp add: field_simps)
  qed (use X in \<open>simp add: m_def vals_def\<close>)
  ultimately show ?thesis using X by (simp add: s_def t_def)
qed

theorem sum_stat_of_all_samples_witness:
  "is_mean (sum_stat exact (stat_of exact [10, 20]) (stat_of exact [60]) 2) = 30
    \<and> is_S (stat_of exact [10, 20, 60]) = 1400"
proof -
  have v: "total [10, 20, 60] = 90" "total [10, 20] = 30" "vals [10, 20, 60] = [10, 20, 60]"
    by (simp_all add: total_def vals_def)
  from sum_stat_of_all_samples [of 2 "[10, 20]" "[60]"] sum_stat_of_all_samples [of 1 "[]" "[10, 20, 60]"]
    sum_stat_of_all_samples [of 2 "[10, 20, 60]" "[]"]
  show ?thesis by (simp add: v power2_eq_square)
qed

section \<open>Distributions\<close>

text \<open>The indices of the marking functions lie in their arrays, so marking always returns.\<close>

definition arrays_ok :: "thread_stat \<Rightarrow> bool" where
  "arrays_ok ts \<longleftrightarrow> length (ts_io_u_map ts) = 7 \<and> length (ts_io_u_submit ts) = 7
     \<and> length (ts_io_u_complete ts) = 7 \<and> length (ts_io_u_lat_u ts) = 10 \<and> length (ts_io_u_lat_m ts) = 12"

lemma mark_idx_less: "mark_map_idx nr < 7" "mark_depth_idx nr < 7" "lat_idx x < 10"
  by (simp_all add: mark_map_idx_def mark_depth_idx_def lat_idx_def)

lemma marking_returns:
  assumes "arrays_ok ts"
  shows "\<exists>ts'. io_u_mark_submit ts nr = Some ts' \<and> arrays_ok ts'"
    and "\<exists>ts'. io_u_mark_complete ts nr = Some ts' \<and> arrays_ok ts'"
    and "\<exists>ts'. io_u_mark_depth ts depth nr = Some ts' \<and> arrays_ok ts'"
    and "\<exists>ts'. io_u_mark_latency ts usec = Some ts' \<and> arrays_ok ts'"
proof -
  have "lat_idx x < 12" for x using mark_idx_less(3) [of x] by simp
  then show "\<exists>ts'. io_u_mark_latency ts usec = Some ts' \<and> arrays_ok ts'"
    using assms mark_idx_less(3)
    by (auto simp: io_u_mark_latency_def io_u_mark_lat_usec_def io_u_mark_lat_msec_def arrays_ok_def bump_def Let_def)
qed (use assms mark_idx_less in \<open>auto simp: io_u_mark_submit_def io_u_mark_complete_def
      io_u_mark_depth_def arrays_ok_def bump_def\<close>)

text \<open>
  After a reset the last entries of the latency arrays still count the I/O before it, and the
  minimum stays 0 whatever is added.
\<close>

lemma reset_keeps_latencies:
  assumes "arrays_ok ts"
  shows "ts_io_u_lat_u (reset_io_stats ts) = replicate 7 0 @ drop 7 (ts_io_u_lat_u ts)"
    and "ts_io_u_lat_m (reset_io_stats ts) = replicate 7 0 @ drop 7 (ts_io_u_lat_m ts)"
  using assms by (simp_all add: reset_io_stats_def clear_first_def arrays_ok_def Let_def)

lemma reset_minimum_stuck: "is_min_val (foldl (add_stat_sample fl) (reset_io_stat s) xs) = 0"
proof -
  have "is_min_val (foldl (add_stat_sample fl) t xs) = 0" if "is_min_val t = 0" for t
    using that by (induction xs arbitrary: t) (simp_all add: add_stat_sample_fields)
  then show ?thesis by (simp add: reset_io_stat_def)
qed

end
