(* ===== verification/Rbtree.thy ===== *)
theory Rbtree
  imports Prelude
begin

text \<open>
  The red-black tree of \<^verbatim>\<open>lib/rbtree.c\<close> and \<^verbatim>\<open>lib/rbtree.h\<close>, the index over the history of
  writes. The tree is the pointer structure of the code: a memory of nodes with a parent, a colour and
  two children, and the pointer to the root. Every access to a null or dead node is \<open>None\<close>. The
  code writes each case twice, mirrored; the model has it once with the side as an argument. The
  colour is the low bit of the parent pointer in the code and a field of its own here.
\<close>

section \<open>Nodes and accesses\<close>

datatype rb_color = RB_RED | RB_BLACK

record rb_node =
  rb_parent :: "nat option"
  rb_color :: rb_color
  rb_left :: "nat option"
  rb_right :: "nat option"

record rb_tree =
  rb_mem :: "nat \<rightharpoonup> rb_node"
  rb_root :: "nat option"

datatype side = Left_side | Right_side

fun opp :: "side \<Rightarrow> side" where
  "opp Left_side = Right_side"
| "opp Right_side = Left_side"

fun rb_child :: "side \<Rightarrow> rb_node \<Rightarrow> nat option" where
  "rb_child Left_side n = rb_left n"
| "rb_child Right_side n = rb_right n"

fun rb_set_child :: "side \<Rightarrow> nat option \<Rightarrow> rb_node \<Rightarrow> rb_node" where
  "rb_set_child Left_side p n = n\<lparr>rb_left := p\<rparr>"
| "rb_set_child Right_side p n = n\<lparr>rb_right := p\<rparr>"

definition rb_set_parent :: "nat option \<Rightarrow> rb_node \<Rightarrow> rb_node" where
  "rb_set_parent p n = n\<lparr>rb_parent := p\<rparr>"

definition rb_set_color :: "rb_color \<Rightarrow> rb_node \<Rightarrow> rb_node" where
  "rb_set_color c n = n\<lparr>rb_color := c\<rparr>"

definition rb_deref :: "rb_tree \<Rightarrow> nat option \<Rightarrow> rb_node option" where
  "rb_deref s p = Option.bind p (rb_mem s)"

definition rb_upd :: "(rb_node \<Rightarrow> rb_node) \<Rightarrow> nat option \<Rightarrow> rb_tree \<Rightarrow> rb_tree option" where
  "rb_upd f p s = do {
     a \<leftarrow> p;
     n \<leftarrow> rb_mem s a;
     Some (s\<lparr>rb_mem := (rb_mem s)(a \<mapsto> f n)\<rparr>) }"

text \<open>\<open>p && rb_is_red(p)\<close>; the negation of \<open>!p || rb_is_black(p)\<close>.\<close>

definition rb_is_red_at :: "rb_tree \<Rightarrow> nat option \<Rightarrow> bool option" where
  "rb_is_red_at s p =
     (if p = None then Some False else do { n \<leftarrow> rb_deref s p; Some (rb_color n = RB_RED) })"

definition rb_link_node :: "nat \<Rightarrow> nat option \<Rightarrow> side \<Rightarrow> rb_tree \<Rightarrow> rb_tree option" where
  "rb_link_node node parent d s = do {
     s \<leftarrow> rb_upd (\<lambda>_. \<lparr>rb_parent = parent, rb_color = RB_RED, rb_left = None, rb_right = None\<rparr>) (Some node) s;
     (if parent = None then Some (s\<lparr>rb_root := Some node\<rparr>)
      else rb_upd (rb_set_child d (Some node)) parent s) }"

section \<open>Rotation\<close>

text \<open>\<open>rb_rotate Left_side\<close> is \<open>__rb_rotate_left\<close>, \<open>rb_rotate Right_side\<close> is \<open>__rb_rotate_right\<close>.\<close>

definition rb_rotate :: "side \<Rightarrow> nat option \<Rightarrow> rb_tree \<Rightarrow> rb_tree option" where
  "rb_rotate d node s = do {
     n \<leftarrow> rb_deref s node;
     let right = rb_child (opp d) n;
     let parent = rb_parent n;
     r \<leftarrow> rb_deref s right;
     s \<leftarrow> rb_upd (rb_set_child (opp d) (rb_child d r)) node s;
     s \<leftarrow> (if rb_child d r \<noteq> None then rb_upd (rb_set_parent node) (rb_child d r) s else Some s);
     s \<leftarrow> rb_upd (rb_set_child d node) right s;
     s \<leftarrow> rb_upd (rb_set_parent parent) right s;
     s \<leftarrow> (if parent \<noteq> None then do {
              p \<leftarrow> rb_deref s parent;
              rb_upd (rb_set_child (if node = rb_child d p then d else opp d) right) parent s }
           else Some (s\<lparr>rb_root := right\<rparr>));
     rb_upd (rb_set_parent right) node s }"

section \<open>Insertion\<close>

text \<open>The loop of \<open>rb_insert_color\<close>, then the root is painted black.\<close>

partial_function (option) rb_insert_loop :: "nat option \<Rightarrow> rb_tree \<Rightarrow> rb_tree option" where
  "rb_insert_loop node s = do {
     n \<leftarrow> rb_deref s node;
     let parent = rb_parent n;
     (if parent = None then Some s
      else do {
        p \<leftarrow> rb_deref s parent;
        if rb_color p = RB_BLACK then Some s
        else do {
          let gparent = rb_parent p;
          g \<leftarrow> rb_deref s gparent;
          let d = (if parent = rb_left g then Left_side else Right_side);
          let uncle = rb_child (opp d) g;
          red \<leftarrow> rb_is_red_at s uncle;
          if red then do {
            s \<leftarrow> rb_upd (rb_set_color RB_BLACK) uncle s;
            s \<leftarrow> rb_upd (rb_set_color RB_BLACK) parent s;
            s \<leftarrow> rb_upd (rb_set_color RB_RED) gparent s;
            rb_insert_loop gparent s }
          else do {
            (node, parent, s) \<leftarrow>
              (if rb_child (opp d) p = node
               then do { s \<leftarrow> rb_rotate d parent s; Some (parent, node, s) }
               else Some (node, parent, s));
            s \<leftarrow> rb_upd (rb_set_color RB_BLACK) parent s;
            s \<leftarrow> rb_upd (rb_set_color RB_RED) gparent s;
            s \<leftarrow> rb_rotate (opp d) gparent s;
            rb_insert_loop node s } } }) }"

declare rb_insert_loop.simps [code]

definition rb_insert_color :: "nat \<Rightarrow> rb_tree \<Rightarrow> rb_tree option" where
  "rb_insert_color node s = do {
     s \<leftarrow> rb_insert_loop (Some node) s;
     rb_upd (rb_set_color RB_BLACK) (rb_root s) s }"

section \<open>Deletion\<close>

text \<open>The loop of \<open>__rb_erase_color\<close>; it returns the node that is painted black after it.\<close>

partial_function (option) rb_erase_loop ::
    "nat option \<Rightarrow> nat option \<Rightarrow> rb_tree \<Rightarrow> (nat option \<times> rb_tree) option" where
  "rb_erase_loop node parent s = do {
     red \<leftarrow> rb_is_red_at s node;
     (if red \<or> node = rb_root s then Some (node, s)
      else do {
        p \<leftarrow> rb_deref s parent;
        let d = (if rb_left p = node then Left_side else Right_side);
        let oth = rb_child (opp d) p;
        ot \<leftarrow> rb_deref s oth;
        (oth, s) \<leftarrow>
          (if rb_color ot = RB_RED then do {
             s \<leftarrow> rb_upd (rb_set_color RB_BLACK) oth s;
             s \<leftarrow> rb_upd (rb_set_color RB_RED) parent s;
             s \<leftarrow> rb_rotate d parent s;
             p \<leftarrow> rb_deref s parent;
             Some (rb_child (opp d) p, s) }
           else Some (oth, s));
        ot \<leftarrow> rb_deref s oth;
        red_left \<leftarrow> rb_is_red_at s (rb_left ot);
        red_child \<leftarrow> (if red_left then Some True else rb_is_red_at s (rb_right ot));
        if \<not> red_child then do {
          s \<leftarrow> rb_upd (rb_set_color RB_RED) oth s;
          p \<leftarrow> rb_deref s parent;
          rb_erase_loop parent (rb_parent p) s }
        else do {
          red_far \<leftarrow> rb_is_red_at s (rb_child (opp d) ot);
          (oth, s) \<leftarrow>
            (if \<not> red_far then do {
               s \<leftarrow> (if rb_child d ot \<noteq> None then rb_upd (rb_set_color RB_BLACK) (rb_child d ot) s else Some s);
               s \<leftarrow> rb_upd (rb_set_color RB_RED) oth s;
               s \<leftarrow> rb_rotate (opp d) oth s;
               p \<leftarrow> rb_deref s parent;
               Some (rb_child (opp d) p, s) }
             else Some (oth, s));
          p \<leftarrow> rb_deref s parent;
          s \<leftarrow> rb_upd (rb_set_color (rb_color p)) oth s;
          s \<leftarrow> rb_upd (rb_set_color RB_BLACK) parent s;
          ot \<leftarrow> rb_deref s oth;
          s \<leftarrow> (if rb_child (opp d) ot \<noteq> None
                then rb_upd (rb_set_color RB_BLACK) (rb_child (opp d) ot) s else Some s);
          s \<leftarrow> rb_rotate d parent s;
          Some (rb_root s, s) } }) }"

declare rb_erase_loop.simps [code]

definition rb_erase_color :: "nat option \<Rightarrow> nat option \<Rightarrow> rb_tree \<Rightarrow> rb_tree option" where
  "rb_erase_color node parent s = do {
     (node, s) \<leftarrow> rb_erase_loop node parent s;
     if node \<noteq> None then rb_upd (rb_set_color RB_BLACK) node s else Some s }"

text \<open>Going down to the left as far as there is a child.\<close>

partial_function (option) rb_leftmost :: "nat option \<Rightarrow> rb_tree \<Rightarrow> nat option option" where
  "rb_leftmost node s = do {
     n \<leftarrow> rb_deref s node;
     (if rb_left n \<noteq> None then rb_leftmost (rb_left n) s else Some node) }"

declare rb_leftmost.simps [code]

text \<open>A node with at most one child is replaced by it.\<close>

definition rb_unlink :: "nat \<Rightarrow> nat option \<Rightarrow> rb_tree \<Rightarrow> rb_tree option" where
  "rb_unlink node child s = do {
     n \<leftarrow> rb_mem s node;
     let parent = rb_parent n;
     s \<leftarrow> (if child \<noteq> None then rb_upd (rb_set_parent parent) child s else Some s);
     s \<leftarrow> (if parent \<noteq> None then do {
              p \<leftarrow> rb_deref s parent;
              rb_upd (rb_set_child (if rb_left p = Some node then Left_side else Right_side) child) parent s }
           else Some (s\<lparr>rb_root := child\<rparr>));
     (if rb_color n = RB_BLACK then rb_erase_color child parent s else Some s) }"

text \<open>A node with two children is replaced by its successor, which is unlinked from below it.\<close>

definition rb_unlink_successor :: "nat \<Rightarrow> rb_tree \<Rightarrow> rb_tree option" where
  "rb_unlink_successor old s = do {
     o1 \<leftarrow> rb_mem s old;
     node \<leftarrow> rb_leftmost (rb_right o1) s;
     n \<leftarrow> rb_deref s node;
     let child = rb_right n;
     let parent = rb_parent n;
     s \<leftarrow> (if child \<noteq> None then rb_upd (rb_set_parent parent) child s else Some s);
     (parent', s) \<leftarrow>
       (if parent = Some old then do { s \<leftarrow> rb_upd (rb_set_child Right_side child) parent s; Some (node, s) }
        else do { s \<leftarrow> rb_upd (rb_set_child Left_side child) parent s; Some (parent, s) });
     o2 \<leftarrow> rb_mem s old;
     s \<leftarrow> rb_upd (\<lambda>n. n\<lparr>rb_parent := rb_parent o2, rb_color := rb_color o2,
                        rb_right := rb_right o2, rb_left := rb_left o2\<rparr>) node s;
     s \<leftarrow> (if rb_parent o2 \<noteq> None then do {
              p \<leftarrow> rb_deref s (rb_parent o2);
              rb_upd (rb_set_child (if rb_left p = Some old then Left_side else Right_side) node) (rb_parent o2) s }
           else Some (s\<lparr>rb_root := node\<rparr>));
     s \<leftarrow> rb_upd (rb_set_parent node) (rb_left o2) s;
     s \<leftarrow> (if rb_right o2 \<noteq> None then rb_upd (rb_set_parent node) (rb_right o2) s else Some s);
     (if rb_color n = RB_BLACK then rb_erase_color child parent' s else Some s) }"

definition rb_erase :: "nat \<Rightarrow> rb_tree \<Rightarrow> rb_tree option" where
  "rb_erase node s = do {
     n \<leftarrow> rb_mem s node;
     if rb_left n = None then rb_unlink node (rb_right n) s
     else if rb_right n = None then rb_unlink node (rb_left n) s
     else rb_unlink_successor node s }"

section \<open>Walking\<close>

definition rb_first :: "rb_tree \<Rightarrow> nat option option" where
  "rb_first s = (if rb_root s = None then Some None else rb_leftmost (rb_root s) s)"

text \<open>Going up while the node is a right child.\<close>

partial_function (option) rb_ascend :: "nat option \<Rightarrow> rb_tree \<Rightarrow> nat option option" where
  "rb_ascend node s = do {
     n \<leftarrow> rb_deref s node;
     let parent = rb_parent n;
     (if parent = None then Some None
      else do {
        p \<leftarrow> rb_deref s parent;
        if node = rb_right p then rb_ascend parent s else Some parent }) }"

declare rb_ascend.simps [code]

definition rb_next :: "nat \<Rightarrow> rb_tree \<Rightarrow> nat option option" where
  "rb_next node s = do {
     n \<leftarrow> rb_mem s node;
     if rb_parent n = Some node then Some None
     else if rb_right n \<noteq> None then rb_leftmost (rb_right n) s
     else rb_ascend (Some node) s }"

end
