(* ===== verification/Rbtree_Correct.thy ===== *)
theory Rbtree_Correct
  imports Rbtree
begin

text \<open>
  The pointer structure of \<open>Rbtree\<close> against trees of addresses: \<open>represents s fs t\<close> says that
  the memory of \<open>s\<close> holds the tree \<open>t\<close> below a path of frames \<open>fs\<close> up to the root, with the
  parent pointers right everywhere and no node twice. Each step of the code moves from one such state to
  another with the same nodes in the same order, and the colours and black heights come out as a red-black
  tree. The loops end because each turn shortens the path or leaves it.
\<close>

section \<open>Trees and paths\<close>

datatype rbt = Leaf | Node rbt rb_color nat rbt

fun mk :: "side \<Rightarrow> rbt \<Rightarrow> rb_color \<Rightarrow> nat \<Rightarrow> rbt \<Rightarrow> rbt" where
  "mk Left_side t c a u = Node t c a u"
| "mk Right_side t c a u = Node u c a t"

fun root :: "rbt \<Rightarrow> nat option" where
  "root Leaf = None"
| "root (Node l c a r) = Some a"

fun col :: "rbt \<Rightarrow> rb_color" where
  "col Leaf = RB_BLACK"
| "col (Node l c a r) = c"

fun paint :: "rb_color \<Rightarrow> rbt \<Rightarrow> rbt" where
  "paint c Leaf = Leaf"
| "paint c (Node l _ a r) = Node l c a r"

fun inorder :: "rbt \<Rightarrow> nat list" where
  "inorder Leaf = []"
| "inorder (Node l c a r) = inorder l @ a # inorder r"

type_synonym frame = "side \<times> rb_color \<times> nat \<times> rbt"

fun plug :: "frame list \<Rightarrow> rbt \<Rightarrow> rbt" where
  "plug [] t = t"
| "plug ((d, c, a, u) # fs) t = plug fs (mk d t c a u)"

fun before :: "frame list \<Rightarrow> nat list" where
  "before [] = []"
| "before ((d, c, a, u) # fs) = before fs @ (if d = Right_side then inorder u @ [a] else [])"

fun after :: "frame list \<Rightarrow> nat list" where
  "after [] = []"
| "after ((d, c, a, u) # fs) = (if d = Left_side then a # inorder u else []) @ after fs"

lemma mk_simps [simp]:
  "mk (opp d) t c a u = mk d u c a t" "root (mk d t c a u) = Some a" "col (mk d t c a u) = c"
  "paint e (mk d t c a u) = mk d t e a u" "mk d t c a u \<noteq> Leaf" "Leaf \<noteq> mk d t c a u"
  "set (inorder (mk d t c a u)) = insert a (set (inorder t) \<union> set (inorder u))"
  by (cases d; auto)+

lemma opp_simps [simp]: "opp (opp d) = d" "opp d \<noteq> d" "d \<noteq> opp d"
  by (cases d; simp)+

lemma inorder_paint [simp]: "inorder (paint c t) = inorder t"
  by (cases t) simp_all

lemma root_paint [simp]: "root (paint c t) = root t"
  by (cases t) simp_all

lemma inorder_plug: "inorder (plug fs t) = before fs @ inorder t @ after fs"
proof (induction fs arbitrary: t)
  case (Cons f fs)
  then show ?case by (cases f; cases "fst f") auto
qed simp

lemma side_cases: "d' = d \<or> d' = opp d"
  by (cases d; cases d'; simp)

lemma root_eq_None [simp]: "root t = None \<longleftrightarrow> t = Leaf"
  by (cases t) simp_all

lemma root_in: "root t = Some a \<Longrightarrow> a \<in> set (inorder t)"
  by (cases t) simp_all

section \<open>The memory of a tree\<close>

definition nd :: "side \<Rightarrow> nat option \<Rightarrow> rb_color \<Rightarrow> nat option \<Rightarrow> nat option \<Rightarrow> rb_node" where
  "nd d p c x y = \<lparr>rb_parent = p, rb_color = c,
     rb_left = (if d = Left_side then x else y), rb_right = (if d = Left_side then y else x)\<rparr>"

lemma nd_simps [simp]:
  "rb_parent (nd d p c x y) = p" "rb_color (nd d p c x y) = c"
  "rb_child d (nd d p c x y) = x" "rb_child (opp d) (nd d p c x y) = y"
  "rb_set_child d z (nd d p c x y) = nd d p c z y" "rb_set_child (opp d) z (nd d p c x y) = nd d p c x z"
  "rb_set_parent z (nd d p c x y) = nd d z c x y" "rb_set_color e (nd d p c x y) = nd d p e x y"
  "nd (opp d) p c x y = nd d p c y x"
  by (cases d; simp add: nd_def rb_set_parent_def rb_set_color_def)+

fun top :: "frame list \<Rightarrow> nat option" where
  "top [] = None"
| "top ((d, c, a, u) # fs) = Some a"

fun root_of :: "frame list \<Rightarrow> nat option \<Rightarrow> nat option" where
  "root_of [] x = x"
| "root_of ((d, c, a, u) # fs) x = root_of fs (Some a)"

fun enc :: "(nat \<rightharpoonup> rb_node) \<Rightarrow> nat option \<Rightarrow> rbt \<Rightarrow> bool" where
  "enc m p Leaf \<longleftrightarrow> True"
| "enc m p (Node l c a r) \<longleftrightarrow>
     m a = Some (nd Left_side p c (root l) (root r)) \<and> enc m (Some a) l \<and> enc m (Some a) r"

fun enc_path :: "(nat \<rightharpoonup> rb_node) \<Rightarrow> frame list \<Rightarrow> nat option \<Rightarrow> bool" where
  "enc_path m [] x \<longleftrightarrow> True"
| "enc_path m ((d, c, a, u) # fs) x \<longleftrightarrow>
     m a = Some (nd d (top fs) c x (root u)) \<and> enc m (Some a) u \<and> enc_path m fs (Some a)"

fun nodes :: "frame list \<Rightarrow> nat set" where
  "nodes [] = {}"
| "nodes ((d, c, a, u) # fs) = insert a (set (inorder u) \<union> nodes fs)"

definition represents :: "rb_tree \<Rightarrow> frame list \<Rightarrow> rbt \<Rightarrow> bool" where
  "represents s fs t \<longleftrightarrow>
     enc (rb_mem s) (top fs) t \<and> enc_path (rb_mem s) fs (root t) \<and> rb_root s = root_of fs (root t) \<and>
     distinct (inorder (plug fs t))"

lemma enc_mk [simp]:
  "enc m p (mk d t c a u) \<longleftrightarrow> m a = Some (nd d p c (root t) (root u)) \<and> enc m (Some a) t \<and> enc m (Some a) u"
  by (cases d) (auto simp: nd_def)

lemma set_before_after: "set (before fs) \<union> set (after fs) = nodes fs"
proof (induction fs rule: nodes.induct)
  case (2 d c a u fs)
  then show ?case by (cases d) auto
qed simp

lemma enc_upd [simp]: "a \<notin> set (inorder t) \<Longrightarrow> enc (m(a := n)) p t = enc m p t"
  by (induction t arbitrary: p) auto

lemma enc_path_upd [simp]: "a \<notin> nodes fs \<Longrightarrow> enc_path (m(a := n)) fs x = enc_path m fs x"
  by (induction fs arbitrary: x rule: nodes.induct) auto

lemma refocus: "represents s ((d, c, a, u) # fs) t \<longleftrightarrow> represents s fs (mk d t c a u)"
  by (auto simp: represents_def)

lemma refocus_other: "represents s ((d, c, a, u) # fs) t \<longleftrightarrow> represents s ((opp d, c, a, t) # fs) u"
  by (simp add: refocus)

lemma represents_plug: "represents s [] (plug fs t) \<longleftrightarrow> represents s fs t"
  by (induction fs t rule: plug.induct) (simp_all add: refocus)

lemma represents_node: "represents s fs (mk d t c a u) \<Longrightarrow> rb_mem s a = Some (nd d (top fs) c (root t) (root u))"
  by (simp add: represents_def)

lemma represents_up: "represents s ((d, c, a, u) # fs) t \<Longrightarrow> rb_mem s a = Some (nd d (top fs) c (root t) (root u))"
  by (simp add: represents_def)

lemma represents_red: "represents s fs t \<Longrightarrow> rb_is_red_at s (root t) = Some (col t = RB_RED)"
  by (cases t) (auto simp: represents_def rb_is_red_at_def rb_deref_def)

lemma distinct_plug:
  "distinct (inorder (plug fs t)) \<Longrightarrow>
     distinct (inorder t) \<and> set (inorder t) \<inter> nodes fs = {}"
  unfolding inorder_plug set_before_after [symmetric] by auto

lemma distinct_mk:
  "distinct (inorder (mk d t c a u)) \<longleftrightarrow>
     distinct (inorder t) \<and> distinct (inorder u) \<and> a \<notin> set (inorder t) \<and> a \<notin> set (inorder u) \<and>
     set (inorder t) \<inter> set (inorder u) = {}"
  by (cases d) auto

lemma distinct_frame:
  "distinct (inorder (plug ((d, c, a, u) # fs) t)) \<Longrightarrow>
     a \<notin> set (inorder t) \<and> a \<notin> set (inorder u) \<and> set (inorder t) \<inter> set (inorder u) = {} \<and>
     a \<notin> nodes fs \<and> set (inorder t) \<inter> nodes fs = {} \<and> set (inorder u) \<inter> nodes fs = {}"
  using distinct_plug [of fs "mk d t c a u"] by (auto simp: distinct_mk)

lemma rb_upd_Some: "rb_mem s a = Some n \<Longrightarrow> rb_upd f (Some a) s = Some (s\<lparr>rb_mem := (rb_mem s)(a \<mapsto> f n)\<rparr>)"
  by (simp add: rb_upd_def)

lemma rb_deref_Some [simp]: "rb_deref s (Some a) = rb_mem s a"
  by (simp add: rb_deref_def)

section \<open>Painting and rotating\<close>

lemma represents_paint:
  assumes "represents s fs (Node l c a r)"
  shows "\<exists>s'. rb_upd (rb_set_color e) (Some a) s = Some s' \<and> represents s' fs (Node l e a r)"
proof -
  have "distinct (inorder (plug fs (Node l c a r)))" using assms by (simp add: represents_def)
  moreover from this have "distinct (inorder (plug fs (Node l e a r)))" by (simp add: inorder_plug)
  ultimately show ?thesis
    using assms distinct_plug [of fs "Node l c a r"]
    by (auto simp: represents_def rb_upd_Some)
qed

lemma represents_paint_mk:
  assumes "represents s fs (mk d t c a u)"
  shows "\<exists>s'. rb_upd (rb_set_color e) (Some a) s = Some s' \<and> represents s' fs (mk d t e a u)"
  using represents_paint assms by (cases d) auto

lemma represents_paint_up:
  assumes "represents s ((d, c, a, u) # fs) t"
  shows "\<exists>s'. rb_upd (rb_set_color e) (Some a) s = Some s' \<and> represents s' ((d, e, a, u) # fs) t"
  using represents_paint_mk assms unfolding refocus by blast

lemma enc_reparent:
  assumes "enc m p t" "distinct (inorder t)" "root t = Some b"
  shows "\<exists>n. m b = Some n \<and> enc (m(b \<mapsto> rb_set_parent q n)) q t"
  using assms by (cases t) auto

text \<open>Giving the tree at the end of a path another one: its parent's child pointer, or the root.\<close>

definition link_top :: "frame list \<Rightarrow> nat option \<Rightarrow> rb_tree \<Rightarrow> rb_tree" where
  "link_top fs y s = (case fs of
     [] \<Rightarrow> s\<lparr>rb_root := y\<rparr>
   | (d, c, a, u) # fs \<Rightarrow> s\<lparr>rb_mem := (rb_mem s)(a \<mapsto> nd d (top fs) c y (root u))\<rparr>)"

lemma enc_path_link_top:
  assumes "enc_path (rb_mem s) fs x" "distinct (inorder (plug fs t))" "rb_root s = root_of fs x"
  shows "enc_path (rb_mem (link_top fs y s)) fs y" "rb_root (link_top fs y s) = root_of fs y"
    "set (inorder u) \<inter> nodes fs = {} \<Longrightarrow> enc (rb_mem (link_top fs y s)) p u = enc (rb_mem s) p u"
  using assms distinct_frame
  by (cases fs; force simp: link_top_def split: prod.splits)+


lemma enc_cong: "(\<And>x. x \<in> set (inorder t) \<Longrightarrow> m x = m' x) \<Longrightarrow> enc m p t = enc m' p t"
  by (induction t arbitrary: p) auto

lemma enc_path_cong: "(\<And>x. x \<in> nodes fs \<Longrightarrow> m x = m' x) \<Longrightarrow> enc_path m fs y = enc_path m' fs y"
proof (induction fs arbitrary: y rule: nodes.induct)
  case (2 d c a u fs)
  then have "enc m (Some a) u = enc m' (Some a) u" by (intro enc_cong) auto
  with 2 show ?case by auto
qed simp

lemma reparent:
  assumes "enc (rb_mem s) p t" "distinct (inorder t)"
  obtains s' where "(if root t \<noteq> None then rb_upd (rb_set_parent q) (root t) s else Some s) = Some s'"
    "enc (rb_mem s') q t" "rb_root s' = rb_root s" "\<And>x. x \<notin> set (inorder t) \<Longrightarrow> rb_mem s' x = rb_mem s x"
proof (cases t)
  case Leaf
  then show ?thesis using that [of s] by simp
next
  case (Node l c a r)
  show ?thesis
    by (rule that [of "s\<lparr>rb_mem := (rb_mem s)(a \<mapsto> nd Left_side q c (root l) (root r))\<rparr>"])
      (use assms Node in \<open>auto simp: rb_upd_Some\<close>)
qed

lemma link_top_step:
  assumes "enc_path (rb_mem s) fs (Some n)" "n \<notin> nodes fs"
  shows "(if top fs \<noteq> None then do {
            p \<leftarrow> rb_deref s (top fs);
            rb_upd (rb_set_child (if Some n = rb_child d p then d else opp d) y) (top fs) s }
          else Some (s\<lparr>rb_root := y\<rparr>)) = Some (link_top fs y s)"
proof (cases fs)
  case Nil
  then show ?thesis by (simp add: link_top_def)
next
  case (Cons f gs)
  obtain d' c a u where f: "f = (d', c, a, u)" by (cases f)
  have u: "root u \<noteq> Some n" using assms(2) f Cons root_in [of u n] by auto
  consider "d = d'" | "d = opp d'" using side_cases [of d' d] by (cases d; cases d'; simp)
  then show ?thesis
    using assms(1) f Cons u by cases (auto simp: link_top_def rb_upd_Some)
qed

lemma link_top_mem: "a \<notin> nodes fs \<Longrightarrow> rb_mem (link_top fs y s) a = rb_mem s a"
  by (cases fs) (auto simp: link_top_def)

lemma represents_rotate:
  assumes "represents s fs (mk d A c n (mk d B e r C))"
  shows "\<exists>s'. rb_rotate d (Some n) s = Some s' \<and> represents s' fs (mk d (mk d A c n B) e r C)"
proof -
  let ?t = "mk d A c n (mk d B e r C)"
  have di: "distinct (inorder (plug fs ?t))" and en: "enc (rb_mem s) (top fs) ?t"
    "enc_path (rb_mem s) fs (Some n)" and ro: "rb_root s = root_of fs (Some n)"
    using assms by (simp_all add: represents_def)
  have sep: "n \<noteq> r" "n \<notin> nodes fs" "r \<notin> nodes fs" "distinct (inorder B)"
    "\<And>T. T \<in> {A, B, C} \<Longrightarrow> n \<notin> set (inorder T) \<and> r \<notin> set (inorder T) \<and> set (inorder T) \<inter> nodes fs = {}"
    "set (inorder A) \<inter> set (inorder B) = {}" "set (inorder C) \<inter> set (inorder B) = {}"
    using distinct_plug [OF di] by (auto simp: distinct_mk)
  have mem: "rb_mem s n = Some (nd d (top fs) c (root A) (Some r))" "rb_mem s r = Some (nd d (Some n) e (root B) (root C))"
    using en(1) by simp_all
  define s1 where "s1 = s\<lparr>rb_mem := (rb_mem s)(n \<mapsto> nd d (top fs) c (root A) (root B))\<rparr>"
  have "enc (rb_mem s1) (Some r) B" using en(1) sep(5) by (simp add: s1_def)
  from reparent [OF this sep(4), of "Some n"] obtain s2 where s2:
    "(if root B \<noteq> None then rb_upd (rb_set_parent (Some n)) (root B) s1 else Some s1) = Some s2"
    "enc (rb_mem s2) (Some n) B" "rb_root s2 = rb_root s1"
    "\<And>x. x \<notin> set (inorder B) \<Longrightarrow> rb_mem s2 x = rb_mem s1 x" by metis
  define s3 where "s3 = s2\<lparr>rb_mem := (rb_mem s2)(r \<mapsto> nd d (Some n) e (Some n) (root C))\<rparr>"
  define s4 where "s4 = s3\<lparr>rb_mem := (rb_mem s3)(r \<mapsto> nd d (top fs) e (Some n) (root C))\<rparr>"
  have s4_other: "rb_mem s4 x = rb_mem s x" if "x \<notin> set (inorder B)" "x \<noteq> n" "x \<noteq> r" for x
    using that s2(4) [of x] by (simp add: s4_def s3_def s1_def)
  have path4: "enc_path (rb_mem s4) fs (Some n)"
  proof -
    have "rb_mem s4 x = rb_mem s x" if "x \<in> nodes fs" for x
      using that s4_other [of x] sep(2,3) sep(5) [of B] by auto
    then show ?thesis using en(2) by (subst enc_path_cong [of _ _ "rb_mem s"]) auto
  qed
  note link = link_top_step [OF this sep(2), of d "Some r"]
  define s5 where "s5 = link_top fs (Some r) s4"
  have s5: "rb_mem s5 x = rb_mem s4 x" if "x \<notin> nodes fs" for x
    using link_top_mem [OF that] by (simp add: s5_def)
  define s6 where "s6 = s5\<lparr>rb_mem := (rb_mem s5)(n \<mapsto> nd d (Some r) c (root A) (root B))\<rparr>"
  have s5n: "rb_mem s5 n = Some (nd d (top fs) c (root A) (root B))"
    using s5 [OF sep(2)] sep(1) sep(5) [of B] s2(4) [of n] by (simp add: s4_def s3_def s1_def)
  have s2r: "rb_mem s2 r = Some (nd d (Some n) e (root B) (root C))"
    using s2(4) [of r] sep(1) sep(5) [of B] mem by (simp add: s1_def)
  have upds: "rb_upd (rb_set_child (opp d) (root B)) (Some n) s = Some s1"
    "rb_upd (rb_set_child d (Some n)) (Some r) s2 = Some s3"
    "rb_upd (rb_set_parent (top fs)) (Some r) s3 = Some s4"
    "rb_upd (rb_set_parent (Some r)) (Some n) s5 = Some s6"
    using mem s2r s5n by (simp_all add: rb_upd_Some s1_def s3_def s4_def s6_def)
  have "rb_rotate d (Some n) s = Some s6"
    unfolding rb_rotate_def Let_def
    by (simp only: rb_deref_Some mem Option.bind.simps nd_simps upds s2(1) link s5_def [symmetric])
  moreover have "represents s6 fs (mk d (mk d A c n B) e r C)"
  proof -
    have same: "enc (rb_mem s6) q T = enc (rb_mem s4) q T"
      if "T \<in> {A, B, C}" for T q
      using sep(5) [OF that] by (intro enc_cong) (auto simp: s6_def intro!: s5)
    have "enc (rb_mem s4) q T = enc (rb_mem s) q T" if "T \<in> {A, C}" for T q
      using sep(5) [of T] sep(6,7) that s4_other by (intro enc_cong) auto
    moreover have "enc (rb_mem s4) (Some n) B"
      using s2(2) sep(5) [of B] by (simp add: s4_def s3_def)
    moreover have "enc_path (rb_mem s6) fs (Some r)" "rb_root s6 = root_of fs (Some r)"
      using enc_path_link_top(1,2) [OF path4 di] ro s2(3) sep(2)
      by (simp_all add: s6_def s5_def s4_def s3_def s1_def)
    moreover have "rb_mem s6 n = Some (nd d (Some r) c (root A) (root B))"
      "rb_mem s6 r = Some (nd d (top fs) e (Some n) (root C))"
      using s5 [OF sep(3)] sep(1) by (simp_all add: s6_def s4_def)
    moreover have "distinct (inorder (plug fs (mk d (mk d A c n B) e r C)))"
      using di by (cases d) (simp_all add: inorder_plug)
    ultimately show ?thesis using same en(1) by (simp add: represents_def)
  qed
  ultimately show ?thesis by blast
qed

section \<open>Red-black trees\<close>

text \<open>\<open>balanced t h\<close>: no red node has a red child, and every path to a leaf has \<open>h\<close> black nodes.\<close>

fun balanced :: "rbt \<Rightarrow> nat \<Rightarrow> bool" where
  "balanced Leaf h \<longleftrightarrow> h = 0"
| "balanced (Node l RB_RED a r) h \<longleftrightarrow> col l = RB_BLACK \<and> col r = RB_BLACK \<and> balanced l h \<and> balanced r h"
| "balanced (Node l RB_BLACK a r) h \<longleftrightarrow> (case h of 0 \<Rightarrow> False | Suc k \<Rightarrow> balanced l k \<and> balanced r k)"

text \<open>A path that becomes such a tree with one of height \<open>h\<close> below it; a red one needs \<open>red_ok\<close>.\<close>

definition red_ok :: "frame list \<Rightarrow> bool" where
  "red_ok fs \<longleftrightarrow> (case fs of [] \<Rightarrow> False | (d, c, a, u) # _ \<Rightarrow> c = RB_BLACK)"

fun balanced_path :: "frame list \<Rightarrow> nat \<Rightarrow> bool" where
  "balanced_path [] h \<longleftrightarrow> True"
| "balanced_path ((d, RB_RED, a, u) # fs) h \<longleftrightarrow> balanced u h \<and> col u = RB_BLACK \<and> red_ok fs \<and> balanced_path fs h"
| "balanced_path ((d, RB_BLACK, a, u) # fs) h \<longleftrightarrow> balanced u h \<and> balanced_path fs (Suc h)"

definition rb_ok :: "rbt \<Rightarrow> bool" where
  "rb_ok t \<longleftrightarrow> (\<exists>h. balanced t h) \<and> col t = RB_BLACK"

lemma red_ok_simps [simp]: "\<not> red_ok []" "red_ok ((d, c, a, u) # fs) \<longleftrightarrow> c = RB_BLACK"
  by (simp_all add: red_ok_def)

lemma not_black [simp]: "c \<noteq> RB_BLACK \<longleftrightarrow> c = RB_RED" "c \<noteq> RB_RED \<longleftrightarrow> c = RB_BLACK"
  by (cases c; simp)+

lemma balanced_mk [simp]:
  "balanced (mk d t RB_RED a u) h \<longleftrightarrow> col t = RB_BLACK \<and> col u = RB_BLACK \<and> balanced t h \<and> balanced u h"
  "balanced (mk d t RB_BLACK a u) h \<longleftrightarrow> (case h of 0 \<Rightarrow> False | Suc k \<Rightarrow> balanced t k \<and> balanced u k)"
  by (cases d; auto split: nat.splits)+

lemma balanced_paint_black: "balanced t h \<Longrightarrow> col t = RB_RED \<Longrightarrow> balanced (paint RB_BLACK t) (Suc h)"
  by (induction t h rule: balanced.induct) simp_all

lemma balanced_mk_same: "balanced (mk d t c a u) h \<Longrightarrow> \<exists>k. balanced t k \<and> balanced u k \<and> (c = RB_RED \<longrightarrow> k = h) \<and> (c = RB_BLACK \<longrightarrow> h = Suc k)"
  by (cases c) (auto split: nat.splits)

lemma balanced_plug:
  "balanced_path fs h \<Longrightarrow> balanced t h \<Longrightarrow> (col t = RB_RED \<Longrightarrow> red_ok fs) \<Longrightarrow> (fs = [] \<Longrightarrow> col t = RB_BLACK) \<Longrightarrow>
     rb_ok (plug fs t)"
proof (induction fs h arbitrary: t rule: balanced_path.induct)
  case (2 d a u fs h)
  have "rb_ok (plug fs (mk d t RB_RED a u))"
    using 2 by (intro 2(1)) (auto, (cases "col t"; simp))
  then show ?case by simp
next
  case (3 d a u fs h)
  have "rb_ok (plug fs (mk d t RB_BLACK a u))"
    using 3 by (intro 3(1)) auto
  then show ?case by simp
qed (auto simp: rb_ok_def)

lemma balanced_unplug:
  "rb_ok (plug fs t) \<Longrightarrow> \<exists>h. balanced_path fs h \<and> balanced t h \<and> (col t = RB_RED \<longrightarrow> red_ok fs)"
proof (induction fs t rule: plug.induct)
  case (2 d c a u fs t)
  then obtain h where h: "balanced_path fs h" "balanced (mk d t c a u) h" "c = RB_RED \<longrightarrow> red_ok fs" by auto
  then show ?case
    by (cases c) (auto split: nat.splits)
qed (auto simp: rb_ok_def)

section \<open>Insertion\<close>

lemma paint_black_id: "col t = RB_BLACK \<Longrightarrow> paint RB_BLACK t = t"
  by (cases t) simp_all

lemma is_side:
  "x \<noteq> y \<Longrightarrow> (if x = rb_left (nd d p c x y) then Left_side else Right_side) = d"
  "x \<noteq> y \<Longrightarrow> (if rb_left (nd d p c x y) = x then Left_side else Right_side) = d"
  by (cases d; auto simp: nd_def)+

lemma represents_sep:
  assumes "represents s fs (mk d t c a u)"
  shows "root u \<noteq> Some a" "root t \<noteq> Some a" "root t = Some b \<Longrightarrow> root u \<noteq> Some b"
    "top fs \<noteq> Some a"
proof -
  have "distinct (inorder (mk d t c a u))" "set (inorder (mk d t c a u)) \<inter> nodes fs = {}"
    using distinct_plug [of fs "mk d t c a u"] assms by (simp_all add: represents_def)
  then show "root u \<noteq> Some a" "root t \<noteq> Some a" "root t = Some b \<Longrightarrow> root u \<noteq> Some b" "top fs \<noteq> Some a"
    using root_in [of u] root_in [of t] by (auto simp: distinct_mk) (cases fs; force)
qed

lemma node_parent:
  assumes "represents s fs t" "root t = Some n"
  obtains x where "rb_mem s n = Some x" "rb_parent x = top fs" "rb_color x = col t"
  using assms by (cases t) (auto simp: represents_def)

lemma insert_stop:
  assumes "represents s ((d, RB_BLACK, p, u) # fs) t" "root t = Some n"
  shows "rb_insert_loop (Some n) s = Some s"
proof -
  obtain x where "rb_mem s n = Some x" "rb_parent x = Some p" using node_parent [OF assms] by auto
  then show ?thesis using represents_up [OF assms(1)] by (subst rb_insert_loop.simps) simp
qed

text \<open>The last turn: the node is on the outer side and its uncle is black.\<close>

lemma insert_outer:
  assumes "represents s fs (mk d (mk d t RB_RED p v) RB_BLACK g u)" "root t = Some n" "col t = RB_RED"
    "balanced t h" "balanced v h" "col v = RB_BLACK" "balanced u h" "col u = RB_BLACK" "balanced_path fs (Suc h)"
  shows "\<exists>s1 s2 s3 t'. rb_upd (rb_set_color RB_BLACK) (Some p) s = Some s1 \<and>
      rb_upd (rb_set_color RB_RED) (Some g) s1 = Some s2 \<and> rb_rotate (opp d) (Some g) s2 = Some s3 \<and>
      rb_insert_loop (Some n) s3 = Some s3 \<and> represents s3 [] t' \<and>
      inorder t' = inorder (plug fs (mk d (mk d t RB_RED p v) RB_BLACK g u)) \<and> rb_ok (paint RB_BLACK t')"
proof -
  from represents_paint_up [OF assms(1) [folded refocus], of RB_BLACK] obtain s1 where s1:
    "rb_upd (rb_set_color RB_BLACK) (Some p) s = Some s1"
    "represents s1 fs (mk d (mk d t RB_BLACK p v) RB_BLACK g u)"
    unfolding refocus by blast
  from represents_paint_mk [OF s1(2), of RB_RED] obtain s2 where s2:
    "rb_upd (rb_set_color RB_RED) (Some g) s1 = Some s2"
    "represents s2 fs (mk (opp d) u RB_RED g (mk (opp d) v RB_BLACK p t))" by auto
  let ?t = "mk d t RB_BLACK p (mk d v RB_RED g u)"
  from represents_rotate [OF s2(2)] obtain s3 where s3: "rb_rotate (opp d) (Some g) s2 = Some s3"
    "represents s3 fs ?t" by auto
  have "rb_ok (plug fs ?t)" using assms by (intro balanced_plug) auto
  then have "rb_ok (paint RB_BLACK (plug fs ?t))" by (simp add: paint_black_id rb_ok_def)
  moreover have "rb_insert_loop (Some n) s3 = Some s3" using insert_stop s3(2) assms(2) unfolding refocus [symmetric] by blast
  moreover have "inorder (plug fs ?t) = inorder (plug fs (mk d (mk d t RB_RED p v) RB_BLACK g u))"
    by (cases d) (simp_all add: inorder_plug)
  ultimately show ?thesis using s1(1) s2(1) s3 represents_plug by blast
qed

lemma tree_as_mk: "root t = Some n \<Longrightarrow> \<exists>x y. t = mk d x (col t) n y"
  using mk.simps by (cases d; cases t) fastforce+

lemma insert_loop:
  assumes "represents s fs t" "root t = Some n" "col t = RB_RED" "balanced t h" "balanced_path fs h"
  shows "\<exists>s' t'. rb_insert_loop (Some n) s = Some s' \<and> represents s' [] t' \<and>
      inorder t' = inorder (plug fs t) \<and> rb_ok (paint RB_BLACK t')"
  using assms
proof (induction "length fs" arbitrary: s fs t n h rule: less_induct)
  case less
  obtain nn where nn: "rb_mem s n = Some nn" "rb_parent nn = top fs"
    using node_parent [OF less.prems(1,2)] by blast
  show ?case
  proof (cases fs)
    case Nil
    then have "rb_insert_loop (Some n) s = Some s" using nn by (subst rb_insert_loop.simps) simp
    moreover have "rb_ok (paint RB_BLACK t)"
      using balanced_paint_black [OF less.prems(4,3)] by (cases t) (auto simp: rb_ok_def simp del: balanced.simps)
    ultimately show ?thesis using less.prems(1) Nil by auto
  next
    case (Cons f gs)
    obtain e c p v where f: "f = (e, c, p, v)" by (cases f)
    show ?thesis
    proof (cases c)
      case RB_BLACK
      then have "rb_insert_loop (Some n) s = Some s"
        using insert_stop less.prems(1,2) Cons f by simp
      moreover have "rb_ok (plug fs t)"
        using less.prems RB_BLACK Cons f by (intro balanced_plug) auto
      ultimately show ?thesis
        using less.prems(1) by (intro exI [of _ s] exI [of _ "plug fs t"])
          (simp add: represents_plug paint_black_id rb_ok_def)
    next
      case RB_RED
      with less.prems(5) Cons f obtain d g u hs where g: "gs = (d, RB_BLACK, g, u) # hs"
        and bal: "balanced v h" "col v = RB_BLACK" "balanced u h" "balanced_path hs (Suc h)"
        by (cases gs) auto
      let ?p = "mk e t RB_RED p v"
      have rp: "represents s ((d, RB_BLACK, g, u) # hs) ?p"
        using less.prems(1) Cons f g RB_RED by (simp add: refocus)
      then have rg: "represents s hs (mk d ?p RB_BLACK g u)" by (simp add: refocus)
      have mem: "rb_mem s p = Some (nd e (Some g) RB_RED (Some n) (root v))"
        "rb_mem s g = Some (nd d (top hs) RB_BLACK (Some p) (root u))"
        using represents_node [OF rp] represents_node [OF rg] less.prems(2) by simp_all
      have sep: "root u \<noteq> Some p" "root v \<noteq> Some n"
        using represents_sep [OF rg] represents_sep [OF rp] less.prems(2) by auto
      have red: "rb_is_red_at s (root u) = Some (col u = RB_RED)"
        using rg represents_red [of s "(opp d, RB_BLACK, g, ?p) # hs" u] by (simp add: refocus)
      have side: "(if Some p = rb_left (nd d (top hs) RB_BLACK (Some p) (root u)) then Left_side else Right_side) = d"
        using is_side(1) sep(1) by metis
      have top: "top fs = Some p" using Cons f by simp
      note step = rb_insert_loop.simps [of "Some n" s, unfolded Let_def]
      show ?thesis
      proof (cases "col u")
        case red_u: RB_RED
        then obtain ul ua ur where u: "u = Node ul RB_RED ua ur" by (cases u) auto
        have "represents s ((opp d, RB_BLACK, g, ?p) # hs) u" using rg by (simp add: refocus)
        from represents_paint [OF this [unfolded u], of RB_BLACK] obtain s1 where s1:
          "rb_upd (rb_set_color RB_BLACK) (Some ua) s = Some s1"
          "represents s1 ((d, RB_BLACK, g, paint RB_BLACK u) # hs) ?p"
          by (auto simp: refocus u)
        from represents_paint_mk [OF s1(2), of RB_BLACK] obtain s2 where s2:
          "rb_upd (rb_set_color RB_BLACK) (Some p) s1 = Some s2"
          "represents s2 hs (mk d (mk e t RB_BLACK p v) RB_BLACK g (paint RB_BLACK u))"
          by (auto simp: refocus)
        let ?g = "mk d (mk e t RB_BLACK p v) RB_RED g (paint RB_BLACK u)"
        from represents_paint_mk [OF s2(2), of RB_RED] obtain s3 where s3:
          "rb_upd (rb_set_color RB_RED) (Some g) s2 = Some s3" "represents s3 hs ?g" by auto
        have "balanced ?g (Suc h)"
          using bal less.prems(4) balanced_paint_black [of u h] u by simp
        then obtain s' t' where IH: "rb_insert_loop (Some g) s3 = Some s'" "represents s' [] t'"
          "inorder t' = inorder (plug hs ?g)" "rb_ok (paint RB_BLACK t')"
          using less.hyps [of hs s3 ?g g "Suc h"] s3(2) bal(4) Cons g by auto
        have "rb_insert_loop (Some n) s = Some s'"
          unfolding step
          by (simp add: nn top mem side red red_u, simp add: u s1(1) s2(1) s3(1) IH(1))
        moreover have "inorder t' = inorder (plug fs t)"
          unfolding IH(3) Cons f g by (cases d; cases e) (simp_all add: inorder_plug)
        ultimately show ?thesis using IH(2,4) by blast
      next
        case black_u: RB_BLACK
        show ?thesis
        proof (cases "e = d")
          case True
          have "represents s hs (mk d (mk d t RB_RED p v) RB_BLACK g u)" using rg True by simp
          from insert_outer [OF this less.prems(2,3,4) bal(1,2,3) black_u bal(4)]
          obtain s1 s2 s3 t' where o: "rb_upd (rb_set_color RB_BLACK) (Some p) s = Some s1"
            "rb_upd (rb_set_color RB_RED) (Some g) s1 = Some s2" "rb_rotate (opp d) (Some g) s2 = Some s3"
            "rb_insert_loop (Some n) s3 = Some s3" "represents s3 [] t'"
            "inorder t' = inorder (plug hs (mk d (mk d t RB_RED p v) RB_BLACK g u))" "rb_ok (paint RB_BLACK t')"
            by blast
          have "rb_insert_loop (Some n) s = Some s3"
            unfolding step by (simp add: nn top mem side red black_u True sep(2) o(1-4))
          moreover have "inorder t' = inorder (plug fs t)" using o(6) Cons f g True RB_RED by simp
          ultimately show ?thesis using o(5,7) by blast
        next
          case False
          then have e: "e = opp d" using side_cases by blast
          from tree_as_mk [OF less.prems(2), of d] less.prems(3) obtain x y where t: "t = mk d x RB_RED n y" by auto
          have "represents s ((d, RB_BLACK, g, u) # hs) (mk d v RB_RED p (mk d x RB_RED n y))"
            using rp by (simp add: e t)
          from represents_rotate [OF this] obtain s0 where s0: "rb_rotate d (Some p) s = Some s0"
            "represents s0 hs (mk d (mk d (mk d v RB_RED p x) RB_RED n y) RB_BLACK g u)"
            by (auto simp: refocus)
          let ?t = "mk d v RB_RED p x"
          have "balanced ?t h" "balanced y h" "col y = RB_BLACK" using less.prems(4) bal t by simp_all
          from insert_outer [OF s0(2) _ _ this bal(3) black_u bal(4)]
          obtain s1 s2 s3 t' where o: "rb_upd (rb_set_color RB_BLACK) (Some n) s0 = Some s1"
            "rb_upd (rb_set_color RB_RED) (Some g) s1 = Some s2" "rb_rotate (opp d) (Some g) s2 = Some s3"
            "rb_insert_loop (Some p) s3 = Some s3" "represents s3 [] t'"
            "inorder t' = inorder (plug hs (mk d (mk d ?t RB_RED n y) RB_BLACK g u))" "rb_ok (paint RB_BLACK t')"
            by auto
          have child: "rb_child (opp d) (nd (opp d) (Some g) RB_RED (Some n) (root v)) = Some n"
            by (simp only: nd_simps)
          have "rb_insert_loop (Some n) s = Some s3"
            unfolding step
            by (simp add: nn top mem side red black_u e child s0(1) o(1-4) del: nd_simps(9))
          moreover have "inorder t' = inorder (plug fs t)"
            unfolding o(6) Cons f g t e by (cases d) (simp_all add: inorder_plug)
          ultimately show ?thesis using o(5,7) by blast
        qed
      qed
    qed
  qed
qed


lemma link_node:
  assumes "represents s fs Leaf" "n \<notin> nodes fs" "rb_mem s n = Some x" "fs = [] \<or> fst (hd fs) = d"
  shows "\<exists>s'. rb_link_node n (top fs) d s = Some s' \<and> represents s' fs (Node Leaf RB_RED n Leaf)"
proof -
  let ?n = "nd Left_side (top fs) RB_RED None None"
  define s1 where "s1 = s\<lparr>rb_mem := (rb_mem s)(n \<mapsto> ?n)\<rparr>"
  have s1: "enc_path (rb_mem s1) fs None" "rb_root s1 = root_of fs None"
    using assms(1,2) by (simp_all add: represents_def s1_def)
  have di: "distinct (inorder (plug fs Leaf))" using assms(1) by (simp add: represents_def)
  have new: "\<lparr>rb_parent = p, rb_color = RB_RED, rb_left = None, rb_right = None\<rparr> = nd Left_side p RB_RED None None" for p
    by (simp add: nd_def)
  have upd: "rb_upd (\<lambda>_. ?n) (Some n) s = Some s1" using assms(3) by (simp add: rb_upd_Some s1_def)
  have "rb_link_node n (top fs) d s = Some (link_top fs (Some n) s1)"
  proof (cases fs)
    case Nil
    then show ?thesis using upd by (simp add: rb_link_node_def new link_top_def)
  next
    case (Cons f gs)
    moreover obtain e c a u where "f = (e, c, a, u)" by (cases f)
    ultimately show ?thesis using upd s1(1) assms(4)
      by (auto simp: rb_link_node_def new link_top_def rb_upd_Some)
  qed
  moreover have "rb_mem (link_top fs (Some n) s1) n = Some ?n"
    using assms(2) by (simp add: link_top_mem s1_def)
  moreover have "distinct (inorder (plug fs (Node Leaf RB_RED n Leaf)))"
    using di assms(2) set_before_after [of fs] by (auto simp: inorder_plug)
  ultimately show ?thesis
    using enc_path_link_top(1,2) [OF s1(1) di s1(2), of "Some n"] by (simp add: represents_def)
qed

lemma insert_correct:
  assumes "represents s fs Leaf" "rb_ok (plug fs Leaf)" "n \<notin> nodes fs" "rb_mem s n = Some x"
    "fs = [] \<or> fst (hd fs) = d"
  shows "\<exists>s' t'. rb_link_node n (top fs) d s \<bind> rb_insert_color n = Some s' \<and> represents s' [] t' \<and>
      inorder t' = before fs @ n # after fs \<and> rb_ok t'"
proof -
  from link_node [OF assms(1,3,4,5)] obtain s1 where s1: "rb_link_node n (top fs) d s = Some s1"
    "represents s1 fs (Node Leaf RB_RED n Leaf)" by blast
  from balanced_unplug [OF assms(2)] have "balanced_path fs 0" by auto
  with insert_loop [OF s1(2), of n 0] obtain s2 t2 where s2: "rb_insert_loop (Some n) s1 = Some s2" "represents s2 [] t2"
    "inorder t2 = before fs @ n # after fs" "rb_ok (paint RB_BLACK t2)"
    by (auto simp: inorder_plug)
  from s2(3) obtain l c a r where t2: "t2 = Node l c a r" by (cases t2) auto
  with s2(2) have "rb_root s2 = Some a" by (simp add: represents_def)
  from represents_paint [OF s2(2) [unfolded t2], of RB_BLACK] obtain s3 where
    "rb_upd (rb_set_color RB_BLACK) (Some a) s2 = Some s3" "represents s3 [] (Node l RB_BLACK a r)" by blast
  with \<open>rb_root s2 = Some a\<close> s1 s2 t2 show ?thesis
    by (intro exI [of _ s3] exI [of _ "Node l RB_BLACK a r"]) (simp add: rb_insert_color_def)
qed

section \<open>Deletion\<close>

lemma child_in_frame:
  assumes "represents s ((d, c, p, u) # fs) t" "u \<noteq> Leaf"
  shows "(if rb_left (nd d (top fs) c (root t) (root u)) = root t then Left_side else Right_side) = d"
proof -
  have "root u \<noteq> root t"
    using represents_sep(3) [OF assms(1) [unfolded refocus]] assms(2) by (cases u; cases t) auto
  then show ?thesis using is_side(2) by metis
qed

text \<open>The last turn: the sibling is black and its outer child is red.\<close>

definition erase_finish :: "side \<Rightarrow> nat option \<Rightarrow> nat option \<Rightarrow> rb_tree \<Rightarrow> (nat option \<times> rb_tree) option" where
  "erase_finish d parent oth s = do {
     p \<leftarrow> rb_deref s parent;
     s \<leftarrow> rb_upd (rb_set_color (rb_color p)) oth s;
     s \<leftarrow> rb_upd (rb_set_color RB_BLACK) parent s;
     ot \<leftarrow> rb_deref s oth;
     s \<leftarrow> (if rb_child (opp d) ot \<noteq> None
           then rb_upd (rb_set_color RB_BLACK) (rb_child (opp d) ot) s else Some s);
     s \<leftarrow> rb_rotate d parent s;
     Some (rb_root s, s) }"

definition erase_turn :: "side \<Rightarrow> nat option \<Rightarrow> nat option \<Rightarrow> rb_tree \<Rightarrow> (nat option \<times> rb_tree) option" where
  "erase_turn d parent oth s = do {
     ot \<leftarrow> rb_deref s oth;
     red_left \<leftarrow> rb_is_red_at s (rb_left ot);
     red_child \<leftarrow> (if red_left then Some True else rb_is_red_at s (rb_right ot));
     if \<not> red_child then do {
       s \<leftarrow> rb_upd (rb_set_color RB_RED) oth s;
       p \<leftarrow> rb_deref s parent;
       rb_erase_loop parent (rb_parent p) s }
     else do {
       red_far \<leftarrow> rb_is_red_at s (rb_child (opp d) ot);
       (oth, s) \<leftarrow>
         (if \<not> red_far then do {
            s \<leftarrow> (if rb_child d ot \<noteq> None then rb_upd (rb_set_color RB_BLACK) (rb_child d ot) s else Some s);
            s \<leftarrow> rb_upd (rb_set_color RB_RED) oth s;
            s \<leftarrow> rb_rotate (opp d) oth s;
            p \<leftarrow> rb_deref s parent;
            Some (rb_child (opp d) p, s) }
          else Some (oth, s));
       erase_finish d parent oth s } }"

lemma erase_loop_unfold:
  "rb_erase_loop node parent s = do {
     red \<leftarrow> rb_is_red_at s node;
     (if red \<or> node = rb_root s then Some (node, s)
      else do {
        p \<leftarrow> rb_deref s parent;
        let d = (if rb_left p = node then Left_side else Right_side);
        let oth = rb_child (opp d) p;
        ot \<leftarrow> rb_deref s oth;
        (oth, s) \<leftarrow>
          (if rb_color ot = RB_RED then do {
             s \<leftarrow> rb_upd (rb_set_color RB_BLACK) oth s;
             s \<leftarrow> rb_upd (rb_set_color RB_RED) parent s;
             s \<leftarrow> rb_rotate d parent s;
             p \<leftarrow> rb_deref s parent;
             Some (rb_child (opp d) p, s) }
           else Some (oth, s));
        erase_turn d parent oth s }) }"
  unfolding erase_turn_def erase_finish_def by (subst rb_erase_loop.simps) (rule refl)


definition erase_goal :: "nat list \<Rightarrow> (nat option \<times> rb_tree) option \<Rightarrow> bool" where
  "erase_goal xs r \<longleftrightarrow> (\<exists>s fs t. r = Some (root t, s) \<and> represents s fs t \<and> inorder (plug fs t) = xs \<and>
     rb_ok (plug fs (paint RB_BLACK t)))"

lemma erase_finish_ok:
  assumes "represents s ((d, c, p, mk d v RB_BLACK q w) # fs) t" "col w = RB_RED" "balanced t h"
    "balanced_path ((d, c, p, mk d v RB_BLACK q w) # fs) (Suc h)" "col t = RB_BLACK"
  shows "erase_goal (inorder (plug ((d, c, p, mk d v RB_BLACK q w) # fs) t)) (erase_finish d (Some p) (Some q) s)"
proof -
  from assms(1) have r0: "represents s fs (mk d t c p (mk d v RB_BLACK q w))" by (simp add: refocus)
  have "represents s ((opp d, c, p, t) # fs) (mk d v RB_BLACK q w)" using r0 by (simp add: refocus)
  from represents_paint_mk [OF this, of c] obtain s1 where s1:
    "rb_upd (rb_set_color c) (Some q) s = Some s1" "represents s1 fs (mk d t c p (mk d v c q w))"
    by (auto simp: refocus)
  from represents_paint_mk [OF s1(2), of RB_BLACK] obtain s2 where s2:
    "rb_upd (rb_set_color RB_BLACK) (Some p) s1 = Some s2"
    "represents s2 ((opp d, c, q, v) # (opp d, RB_BLACK, p, t) # fs) w" by (auto simp: refocus)
  obtain wl k wr where w: "w = Node wl RB_RED k wr" using assms(2) by (cases w) auto
  have mq: "rb_mem s2 q = Some (nd d (Some p) c (root v) (Some k))"
    using represents_up [OF s2(2)] by (simp add: w)
  from represents_paint [OF s2(2) [unfolded w], of RB_BLACK] obtain s3 where s3:
    "rb_upd (rb_set_color RB_BLACK) (Some k) s2 = Some s3"
    "represents s3 fs (mk d t RB_BLACK p (mk d v c q (paint RB_BLACK w)))" by (auto simp: refocus w)
  let ?t = "mk d (mk d t RB_BLACK p v) c q (paint RB_BLACK w)"
  from represents_rotate [OF s3(2)] obtain s4 where s4: "rb_rotate d (Some p) s3 = Some s4" "represents s4 fs ?t" by auto
  have "rb_root s4 = root (plug fs ?t)"
    using s4(2) [folded represents_plug [of s4 fs ?t]] by (simp add: represents_def)
  then have "erase_finish d (Some p) (Some q) s = Some (root (plug fs ?t), s4)"
    using represents_node [OF r0] by (simp add: erase_finish_def s1(1) s2(1) mq s3(1) s4(1))
  moreover have "rb_ok (plug fs ?t)"
  proof (cases c)
    case RB_RED
    then show ?thesis using assms(3-5) balanced_paint_black [OF _ assms(2), of h]
      by (intro balanced_plug [of _ "Suc h"]) (auto simp: w)
  next
    case RB_BLACK
    then show ?thesis using assms(3-5) balanced_paint_black [OF _ assms(2), of h]
      by (intro balanced_plug [of _ "Suc (Suc h)"]) (auto simp: w)
  qed
  moreover from this have "paint RB_BLACK (plug fs ?t) = plug fs ?t" by (simp add: rb_ok_def paint_black_id)
  moreover have "inorder (plug fs ?t) = inorder (plug ((d, c, p, mk d v RB_BLACK q w) # fs) t)"
    by (cases d) (simp_all add: inorder_plug)
  moreover have "represents s4 [] (plug fs ?t)" using s4(2) represents_plug by blast
  ultimately show ?thesis
    unfolding erase_goal_def
    by (intro exI [of _ s4] exI [of _ "[]"] exI [of _ "plug fs ?t"]) (simp only: plug.simps simp_thms)
qed

lemma red_children:
  assumes "represents s ((e, c, p, t) # fs) (mk d v k q w)"
  shows "\<exists>b. rb_is_red_at s (rb_left (nd d x k (root v) (root w))) = Some b \<and>
     (if b then Some True else rb_is_red_at s (rb_right (nd d x k (root v) (root w)))) =
       Some (col v = RB_RED \<or> col w = RB_RED)"
    "rb_is_red_at s (root w) = Some (col w = RB_RED)"
proof -
  have "represents s ((d, k, q, w) # (e, c, p, t) # fs) v" "represents s ((opp d, k, q, v) # (e, c, p, t) # fs) w"
    using assms by (simp_all add: refocus)
  note this [THEN represents_red]
  then show "\<exists>b. rb_is_red_at s (rb_left (nd d x k (root v) (root w))) = Some b \<and>
     (if b then Some True else rb_is_red_at s (rb_right (nd d x k (root v) (root w)))) =
       Some (col v = RB_RED \<or> col w = RB_RED)" "rb_is_red_at s (root w) = Some (col w = RB_RED)"
    by (cases d; auto simp: nd_def)+
qed


lemma erase_turn_ok:
  assumes "represents s ((d, c, p, u) # fs) t" "col u = RB_BLACK" "balanced t h" "col t = RB_BLACK"
    "balanced_path ((d, c, p, u) # fs) (Suc h)"
    and cont: "\<And>s'. represents s' fs (mk d t c p (paint RB_RED u)) \<Longrightarrow> balanced (paint RB_RED u) h \<Longrightarrow>
      erase_goal (inorder (plug ((d, c, p, u) # fs) t)) (rb_erase_loop (Some p) (top fs) s')"
  shows "erase_goal (inorder (plug ((d, c, p, u) # fs) t)) (erase_turn d (Some p) (root u) s)"
proof -
  have "balanced u (Suc h)" using assms(5) by (cases c) simp_all
  then have "u \<noteq> Leaf" by auto
  then obtain q where "root u = Some q" by (cases u) auto
  from tree_as_mk [OF this, of d] assms(2) obtain v w where u: "u = mk d v RB_BLACK q w" by auto
  have vw: "balanced v h" "balanced w h" using \<open>balanced u (Suc h)\<close> by (simp_all add: u)
  have r: "represents s ((opp d, c, p, t) # fs) (mk d v RB_BLACK q w)" using assms(1) by (simp add: u refocus)
  have mq: "rb_mem s q = Some (nd d (Some p) RB_BLACK (root v) (root w))"
    using represents_node [OF r] by simp
  obtain b where b: "rb_is_red_at s (rb_left (nd d (Some p) RB_BLACK (root v) (root w))) = Some b"
    "(if b then Some True else rb_is_red_at s (rb_right (nd d (Some p) RB_BLACK (root v) (root w)))) =
       Some (col v = RB_RED \<or> col w = RB_RED)"
    using red_children(1) [OF r, of "Some p"] by blast
  show ?thesis
  proof (cases "col v = RB_RED \<or> col w = RB_RED")
    case False
    from represents_paint_mk [OF r, of RB_RED] obtain s1 where s1: "rb_upd (rb_set_color RB_RED) (Some q) s = Some s1"
      "represents s1 fs (mk d t c p (paint RB_RED u))" by (auto simp: refocus u)
    have "balanced (paint RB_RED u) h" using vw False by (simp add: u)
    note goal = cont [OF s1(2) this]
    have "erase_turn d (Some p) (root u) s = rb_erase_loop (Some p) (top fs) s1"
      using False b(2) represents_node [OF s1(2)]
      by (simp add: erase_turn_def u mq b(1) s1(1))
    then show ?thesis using goal by simp
  next
    case red: True
    show ?thesis
    proof (cases "col w")
      case RB_RED
      have "erase_turn d (Some p) (root u) s = erase_finish d (Some p) (Some q) s"
        using RB_RED b(2) red_children(2) [OF r] by (simp add: erase_turn_def u mq b(1))
      then show ?thesis using erase_finish_ok [OF assms(1) [unfolded u] RB_RED assms(3)] assms(4,5) by (simp add: u)
    next
      case RB_BLACK
      then have v: "col v = RB_RED" using red by simp
      then obtain k where k: "root v = Some k" by (cases v) auto
      from tree_as_mk [OF this, of d] v obtain x y where vm: "v = mk d x RB_RED k y" by auto
      have "represents s ((d, RB_BLACK, q, w) # (opp d, c, p, t) # fs) (mk d x RB_RED k y)"
        using r by (simp add: refocus vm)
      from represents_paint_mk [OF this, of RB_BLACK] obtain s1 where s1:
        "rb_upd (rb_set_color RB_BLACK) (Some k) s = Some s1"
        "represents s1 ((opp d, c, p, t) # fs) (mk d (mk d x RB_BLACK k y) RB_BLACK q w)" by (auto simp: refocus)
      from represents_paint_mk [OF s1(2), of RB_RED] obtain s2 where s2:
        "rb_upd (rb_set_color RB_RED) (Some q) s1 = Some s2"
        "represents s2 ((opp d, c, p, t) # fs) (mk (opp d) w RB_RED q (mk (opp d) y RB_BLACK k x))" by auto
      let ?u = "mk d x RB_BLACK k (mk d y RB_RED q w)"
      from represents_rotate [OF s2(2)] obtain s3 where s3: "rb_rotate (opp d) (Some q) s2 = Some s3"
        "represents s3 ((d, c, p, ?u) # fs) t" by (auto simp: refocus)
      have "erase_turn d (Some p) (root u) s = erase_finish d (Some p) (Some k) s3"
        using RB_BLACK v b(2) [unfolded k] red_children(2) [OF r] represents_up [OF s3(2)]
        by (simp add: erase_turn_def u mq b(1) [unfolded k] k s1(1) s2(1) s3(1))
      moreover have "balanced_path ((d, c, p, ?u) # fs) (Suc h)"
        using assms(5) vw RB_BLACK vm by (cases c) auto
      moreover have "inorder (plug ((d, c, p, ?u) # fs) t) = inorder (plug ((d, c, p, u) # fs) t)"
        by (cases d) (simp_all add: inorder_plug u vm)
      ultimately show ?thesis using erase_finish_ok [OF s3(2) _ assms(3) _ assms(4)] by simp
    qed
  qed
qed

lemma erase_red:
  assumes "represents s fs t" "col t = RB_RED" "balanced (paint RB_BLACK t) (Suc h)" "balanced_path fs (Suc h)"
  shows "erase_goal (inorder (plug fs t)) (rb_erase_loop (root t) x s)"
proof -
  have "rb_ok (plug fs (paint RB_BLACK t))"
  proof (rule balanced_plug [OF assms(4,3)])
    have "col (paint RB_BLACK t) = RB_BLACK" by (cases t) simp_all
    then show "col (paint RB_BLACK t) = RB_RED \<Longrightarrow> red_ok fs" "col (paint RB_BLACK t) = RB_BLACK" by simp_all
  qed
  moreover have "rb_erase_loop (root t) x s = Some (root t, s)"
    using represents_red [OF assms(1)] assms(2) by (simp add: erase_loop_unfold)
  ultimately show ?thesis using assms(1) unfolding erase_goal_def by blast
qed

lemma root_of_in: "root_of fs (Some a) \<in> Some ` insert a (nodes fs)"
  by (induction fs "Some a" arbitrary: a rule: root_of.induct) auto

lemma not_root:
  assumes "represents s ((d, c, p, u) # fs) t"
  shows "root t \<noteq> rb_root s"
proof -
  have "set (inorder t) \<inter> insert p (nodes fs) = {}"
    using assms distinct_frame unfolding represents_def by blast
  moreover have "rb_root s \<in> Some ` insert p (nodes fs)"
    using assms root_of_in [of fs p] by (simp add: represents_def)
  ultimately show ?thesis using root_in [of t] by fastforce
qed

lemma erase_loop:
  assumes "represents s fs t" "col t = RB_RED \<Longrightarrow> balanced (paint RB_BLACK t) (Suc h)"
    "col t = RB_BLACK \<Longrightarrow> balanced t h" "balanced_path fs (Suc h)"
  shows "erase_goal (inorder (plug fs t)) (rb_erase_loop (root t) (top fs) s)"
  using assms
proof (induction fs arbitrary: s t h)
  case Nil
  show ?case
  proof (cases "col t")
    case RB_BLACK
    then have "rb_ok (paint RB_BLACK t)" using Nil(3) by (auto simp: rb_ok_def paint_black_id)
    moreover have "rb_erase_loop (root t) None s = Some (root t, s)"
      using Nil(1) represents_red [OF Nil(1)] by (simp add: erase_loop_unfold represents_def)
    ultimately show ?thesis using Nil(1) unfolding erase_goal_def
      by (intro exI [of _ s] exI [of _ "[]"] exI [of _ t]) simp
  qed (use erase_red Nil in blast)
next
  case (Cons f fs)
  obtain d c p u where f: "f = (d, c, p, u)" by (cases f)
  show ?case
  proof (cases "col t")
    case RB_RED
    then show ?thesis using erase_red Cons.prems by blast
  next
    case black: RB_BLACK
    note r = Cons.prems(1) [unfolded f]
    have bt: "balanced t h" and bp: "balanced_path ((d, c, p, u) # fs) (Suc h)"
      using Cons.prems black by (simp_all add: f)
    then have bu: "balanced u (Suc h)" by (cases c) simp_all
    then have ul: "u \<noteq> Leaf" by auto
    have mp: "rb_mem s p = Some (nd d (top fs) c (root t) (root u))" using represents_up [OF r] .
    note side = child_in_frame [OF r ul]
    have red: "rb_is_red_at s (root t) = Some False" using represents_red [OF r] black by simp
    have ru: "represents s ((opp d, c, p, t) # fs) u" using r by (simp add: refocus)
    obtain q where q: "root u = Some q" using ul by (cases u) auto
    obtain qn where qn: "rb_mem s q = Some qn" "rb_color qn = col u" using node_parent [OF ru q] by blast
    note mp' = mp [unfolded q] and side' = side [unfolded q]
    show ?thesis
    proof (cases "col u")
      case RB_BLACK
      have "rb_erase_loop (root t) (top (f # fs)) s = erase_turn d (Some p) (root u) s"
        using not_root [OF r] RB_BLACK qn by (simp add: erase_loop_unfold f red mp' side' q)
      moreover have "erase_goal (inorder (plug ((d, c, p, u) # fs) t)) (erase_turn d (Some p) (root u) s)"
      proof (rule erase_turn_ok [OF r RB_BLACK bt black bp])
        fix s' assume s': "represents s' fs (mk d t c p (paint RB_RED u))" "balanced (paint RB_RED u) h"
        have e: "inorder (plug ((d, c, p, u) # fs) t) = inorder (plug fs (mk d t c p (paint RB_RED u)))"
          by (cases d) (simp_all add: inorder_plug)
        show "erase_goal (inorder (plug ((d, c, p, u) # fs) t)) (rb_erase_loop (Some p) (top fs) s')"
        proof (cases c)
          case RB_RED
          then show ?thesis
            using erase_red [OF s'(1), of h] bt s'(2) bp unfolding e by simp
        next
          case RB_BLACK
          then show ?thesis
            using Cons.IH [OF s'(1), of "Suc h"] bt s'(2) bp unfolding e by simp
        qed
      qed
      ultimately show ?thesis by (simp add: f)
    next
      case RB_RED
      from tree_as_mk [OF q, of d] RB_RED obtain v w where u: "u = mk d v RB_RED q w" by auto
      have c: "c = RB_BLACK" using bp RB_RED by (cases c) simp_all
      from represents_paint_mk [OF ru [unfolded u], of RB_BLACK] obtain s1 where s1:
        "rb_upd (rb_set_color RB_BLACK) (Some q) s = Some s1"
        "represents s1 fs (mk d t c p (mk d v RB_BLACK q w))" by (auto simp: refocus)
      from represents_paint_mk [OF s1(2), of RB_RED] obtain s2 where s2:
        "rb_upd (rb_set_color RB_RED) (Some p) s1 = Some s2"
        "represents s2 fs (mk d t RB_RED p (mk d v RB_BLACK q w))" by auto
      from represents_rotate [OF s2(2)] obtain s3 where s3: "rb_rotate d (Some p) s2 = Some s3"
        "represents s3 ((d, RB_RED, p, v) # (d, RB_BLACK, q, w) # fs) t" by (auto simp: refocus)
      have "rb_erase_loop (root t) (top (f # fs)) s = erase_turn d (Some p) (root v) s3"
        using not_root [OF r] RB_RED qn represents_up [OF s3(2)]
        by (simp add: erase_loop_unfold f red mp' side' q s1(1) s2(1) s3(1))
      moreover have bp': "balanced_path ((d, RB_RED, p, v) # (d, RB_BLACK, q, w) # fs) (Suc h)"
        using bp bu u c by simp
      have "erase_goal (inorder (plug ((d, RB_RED, p, v) # (d, RB_BLACK, q, w) # fs) t))
          (erase_turn d (Some p) (root v) s3)"
      proof (rule erase_turn_ok [OF s3(2) _ bt black bp'])
        fix s' assume s': "represents s' ((d, RB_BLACK, q, w) # fs) (mk d t RB_RED p (paint RB_RED v))"
          "balanced (paint RB_RED v) h"
        have e: "inorder (plug ((d, RB_RED, p, v) # (d, RB_BLACK, q, w) # fs) t) =
            inorder (plug ((d, RB_BLACK, q, w) # fs) (mk d t RB_RED p (paint RB_RED v)))"
          by (cases d) (simp_all add: inorder_plug)
        show "erase_goal (inorder (plug ((d, RB_RED, p, v) # (d, RB_BLACK, q, w) # fs) t))
            (rb_erase_loop (Some p) (top ((d, RB_BLACK, q, w) # fs)) s')"
          unfolding e using erase_red [OF s'(1), of h] bt s'(2) bp' by simp
      qed (use bu u in simp)
      moreover have "inorder (plug ((d, RB_RED, p, v) # (d, RB_BLACK, q, w) # fs) t) = inorder (plug (f # fs) t)"
        by (cases d) (simp_all add: inorder_plug f u)
      ultimately show ?thesis by simp
    qed
  qed
qed

lemma erase_color:
  assumes "represents s fs t" "balanced t h" "balanced_path fs (Suc h)"
  shows "\<exists>s' t'. rb_erase_color (root t) (top fs) s = Some s' \<and> represents s' [] t' \<and>
     inorder t' = inorder (plug fs t) \<and> rb_ok t'"
proof -
  have "erase_goal (inorder (plug fs t)) (rb_erase_loop (root t) (top fs) s)"
    using assms balanced_paint_black by (intro erase_loop)
  then obtain s1 gs u where s1: "rb_erase_loop (root t) (top fs) s = Some (root u, s1)" "represents s1 gs u"
    "inorder (plug gs u) = inorder (plug fs t)" "rb_ok (plug gs (paint RB_BLACK u))" unfolding erase_goal_def by blast
  have "\<exists>s'. (if root u \<noteq> None then rb_upd (rb_set_color RB_BLACK) (root u) s1 else Some s1) = Some s' \<and>
      represents s' gs (paint RB_BLACK u)"
    using represents_paint s1(2) by (cases u) auto
  then obtain s' where s': "(if root u \<noteq> None then rb_upd (rb_set_color RB_BLACK) (root u) s1 else Some s1) = Some s'"
    "represents s' gs (paint RB_BLACK u)" by blast
  have "rb_erase_color (root t) (top fs) s = Some s'"
    using s'(1) s1(1) by (cases u) (simp_all add: rb_erase_color_def)
  moreover note s'(2)
  moreover have "inorder (plug gs (paint RB_BLACK u)) = inorder (plug fs t)" using s1(3) by (simp add: inorder_plug)
  ultimately show ?thesis using s1(4) represents_plug by blast
qed


text \<open>A node with at most one child gives its place to that child.\<close>

lemma unlink_steps:
  assumes "represents s fs (mk d t k m Leaf)"
  shows "\<exists>s1. (if root t \<noteq> None then rb_upd (rb_set_parent (top fs)) (root t) s else Some s) = Some s1 \<and>
     enc_path (rb_mem s1) fs (Some m) \<and> represents (link_top fs (root t) s1) fs t \<and>
     (\<forall>x. x \<notin> set (inorder t) \<longrightarrow> rb_mem s1 x = rb_mem s x)"
proof -
  have en: "enc (rb_mem s) (Some m) t" "enc_path (rb_mem s) fs (Some m)" "rb_root s = root_of fs (Some m)"
    and di: "distinct (inorder (plug fs (mk d t k m Leaf)))" using assms by (simp_all add: represents_def)
  have sep: "distinct (inorder t)" "set (inorder t) \<inter> nodes fs = {}" "distinct (inorder (plug fs t))"
    using distinct_plug [OF di] di by (auto simp: distinct_mk inorder_plug)
  from reparent [OF en(1) sep(1), of "top fs"] obtain s1 where s1:
    "(if root t \<noteq> None then rb_upd (rb_set_parent (top fs)) (root t) s else Some s) = Some s1"
    "enc (rb_mem s1) (top fs) t" "rb_root s1 = rb_root s" "\<And>x. x \<notin> set (inorder t) \<Longrightarrow> rb_mem s1 x = rb_mem s x" by metis
  have path: "enc_path (rb_mem s1) fs (Some m)"
    using en(2) sep(2) s1(4) by (subst enc_path_cong [of _ _ "rb_mem s"]) auto
  have root: "rb_root s1 = root_of fs (Some m)" using s1(3) en(3) by simp
  have "represents (link_top fs (root t) s1) fs t"
    using enc_path_link_top [OF path di root] s1(2) sep(2,3) by (simp add: represents_def)
  then show ?thesis using s1 path by blast
qed

lemma link_top_left:
  assumes "enc_path (rb_mem s) fs (Some n)" "n \<notin> nodes fs"
  shows "(if top fs \<noteq> None then do {
            p \<leftarrow> rb_deref s (top fs);
            rb_upd (rb_set_child (if rb_left p = Some n then Left_side else Right_side) y) (top fs) s }
          else Some (s\<lparr>rb_root := y\<rparr>)) = Some (link_top fs y s)"
  using link_top_step [OF assms, of Left_side y] by (simp only: rb_child.simps opp.simps eq_commute [of "Some n"])

lemma focus_not_in_path: "represents s fs (mk d t c n u) \<Longrightarrow> n \<notin> nodes fs"
  using distinct_plug [of fs "mk d t c n u"] by (auto simp: represents_def)

lemma unlinked_balance:
  assumes "represents s fs t" "balanced_path fs h" "balanced (mk d t c n Leaf) h" "c = RB_RED \<Longrightarrow> red_ok fs"
  shows "\<exists>s' t'. (if c = RB_BLACK then rb_erase_color (root t) (top fs) s else Some s) = Some s' \<and>
     represents s' [] t' \<and> inorder t' = inorder (plug fs t) \<and> rb_ok t'"
proof (cases c)
  case RB_BLACK
  with assms(3) obtain k where "h = Suc k" "balanced t k" by (auto split: nat.splits)
  with erase_color [OF assms(1)] assms(2) RB_BLACK show ?thesis by auto
next
  case RB_RED
  have "rb_ok (plug fs t)"
  proof (rule balanced_plug [OF assms(2)])
    show "fs = [] \<Longrightarrow> col t = RB_BLACK" using assms(3) RB_RED by simp
  qed (use assms(3) RB_RED in auto)
  with assms(1) RB_RED represents_plug [of s fs t] show ?thesis
    by (intro exI [of _ s] exI [of _ "plug fs t"]) simp
qed

lemma unlink_ok:
  assumes "represents s fs (mk d t c n Leaf)" "rb_ok (plug fs (mk d t c n Leaf))"
  shows "\<exists>s' t'. rb_unlink n (root t) s = Some s' \<and> represents s' [] t' \<and>
     inorder t' = before fs @ inorder t @ after fs \<and> rb_ok t'"
proof -
  from unlink_steps [OF assms(1)] obtain s1 where s1:
    "(if root t \<noteq> None then rb_upd (rb_set_parent (top fs)) (root t) s else Some s) = Some s1"
    "enc_path (rb_mem s1) fs (Some n)" "represents (link_top fs (root t) s1) fs t" by blast
  note link = link_top_left [OF s1(2) focus_not_in_path [OF assms(1)], of "root t"]
  from balanced_unplug [OF assms(2)] obtain h where
    h: "balanced_path fs h" "balanced (mk d t c n Leaf) h" "c = RB_RED \<longrightarrow> red_ok fs" by auto
  have un: "rb_unlink n (root t) s =
      (if c = RB_BLACK then rb_erase_color (root t) (top fs) (link_top fs (root t) s1) else Some (link_top fs (root t) s1))"
    using represents_node [OF assms(1)] s1(1) link unfolding rb_unlink_def Let_def
    by (simp only: rb_deref_Some Option.bind.simps nd_simps)
  show ?thesis unfolding un using unlinked_balance [OF s1(3) h(1,2)] h(3) by (auto simp: inorder_plug)
qed

text \<open>Another node takes the place of a node with its links and its colour.\<close>

lemma replace_node:
  assumes "represents s fs (Node l c n r)" "m \<notin> insert n (set (inorder l) \<union> set (inorder r) \<union> nodes fs)"
    "rb_mem s m = Some x" "l \<noteq> Leaf"
  shows "\<exists>s1 s3 s4 o2. rb_mem s n = Some o2 \<and>
    rb_upd (\<lambda>n. n\<lparr>rb_parent := rb_parent o2, rb_color := rb_color o2,
      rb_right := rb_right o2, rb_left := rb_left o2\<rparr>) (Some m) s = Some s1 \<and>
    rb_parent o2 = top fs \<and> rb_left o2 = root l \<and> rb_right o2 = root r \<and> enc_path (rb_mem s1) fs (Some n) \<and>
    rb_upd (rb_set_parent (Some m)) (root l) (link_top fs (Some m) s1) = Some s3 \<and>
    (if root r \<noteq> None then rb_upd (rb_set_parent (Some m)) (root r) s3 else Some s3) = Some s4 \<and>
    represents s4 fs (Node l c m r)"
proof -
  let ?n = "nd Left_side (top fs) c (root l) (root r)"
  have en: "rb_mem s n = Some ?n" "enc (rb_mem s) (Some n) l" "enc (rb_mem s) (Some n) r"
    "enc_path (rb_mem s) fs (Some n)" "rb_root s = root_of fs (Some n)"
    and di: "distinct (inorder (plug fs (Node l c n r)))" using assms(1) by (simp_all add: represents_def)
  have sep: "distinct (inorder l)" "distinct (inorder r)" "set (inorder l) \<inter> set (inorder r) = {}"
    "set (inorder l) \<inter> nodes fs = {}" "set (inorder r) \<inter> nodes fs = {}" "n \<notin> nodes fs" "m \<notin> nodes fs"
    "m \<notin> set (inorder l)" "m \<notin> set (inorder r)"
    using distinct_plug [OF di] assms(2) by auto
  have di': "distinct (inorder (plug fs (Node l c m r)))"
    using di assms(2) set_before_after [of fs] by (auto simp: inorder_plug)
  define s1 where "s1 = s\<lparr>rb_mem := (rb_mem s)(m \<mapsto> ?n)\<rparr>"
  have u1: "rb_upd (\<lambda>x. x\<lparr>rb_parent := top fs, rb_color := c, rb_right := root r, rb_left := root l\<rparr>) (Some m) s = Some s1"
    using assms(3) by (cases x) (simp add: rb_upd_Some s1_def nd_def)
  have p1: "enc_path (rb_mem s1) fs (Some n)" "rb_root s1 = root_of fs (Some n)"
    using en sep by (simp_all add: s1_def)
  define s2 where "s2 = link_top fs (Some m) s1"
  have p2: "enc_path (rb_mem s2) fs (Some m)" "rb_root s2 = root_of fs (Some m)"
    "enc (rb_mem s2) (Some n) l" "enc (rb_mem s2) (Some n) r" "rb_mem s2 m = Some ?n"
    using enc_path_link_top [OF p1(1) di p1(2), where y = "Some m"] sep en(2,3) link_top_mem [OF sep(7), of "Some m" s1]
    by (simp_all add: s2_def s1_def)
  from reparent [OF p2(3) sep(1), of "Some m"] obtain s3 where s3:
    "(if root l \<noteq> None then rb_upd (rb_set_parent (Some m)) (root l) s2 else Some s2) = Some s3"
    "enc (rb_mem s3) (Some m) l" "rb_root s3 = rb_root s2" "\<And>x. x \<notin> set (inorder l) \<Longrightarrow> rb_mem s3 x = rb_mem s2 x" by metis
  have "enc (rb_mem s3) (Some n) r"
    using p2(4) sep(3) s3(4) by (subst enc_cong [of _ _ "rb_mem s2"]) auto
  from reparent [OF this sep(2), of "Some m"] obtain s4 where s4:
    "(if root r \<noteq> None then rb_upd (rb_set_parent (Some m)) (root r) s3 else Some s3) = Some s4"
    "enc (rb_mem s4) (Some m) r" "rb_root s4 = rb_root s3" "\<And>x. x \<notin> set (inorder r) \<Longrightarrow> rb_mem s4 x = rb_mem s3 x" by metis
  have "enc (rb_mem s4) (Some m) l"
    using s3(2) sep(3) s4(4) by (subst enc_cong [of _ _ "rb_mem s3"]) auto
  moreover have "enc_path (rb_mem s4) fs (Some m)"
  proof -
    have "rb_mem s4 y = rb_mem s2 y" if "y \<in> nodes fs" for y
      using that sep(4,5) s3(4) [of y] s4(4) [of y] by (metis disjoint_iff)
    then show ?thesis using p2(1) by (subst enc_path_cong [of _ _ "rb_mem s2"]) auto
  qed
  moreover have "rb_mem s4 m = Some ?n" using p2(5) s3(4) s4(4) sep(8,9) by simp
  ultimately have "represents s4 fs (Node l c m r)"
    using s4(2,3) s3(3) p2(2) di' by (simp add: represents_def)
  moreover have "rb_parent ?n = top fs" "rb_color ?n = c" "rb_left ?n = root l" "rb_right ?n = root r"
    by (simp_all add: nd_def)
  ultimately show ?thesis
    using en(1) u1 p1(1) s3(1) s4(1) assms(4)
    by (intro exI [of _ s1] exI [of _ s3] exI [of _ s4] exI [of _ ?n]) (simp add: s2_def)
qed


text \<open>The leftmost node below a focus.\<close>

lemma plug_append: "plug (fs @ gs) t = plug gs (plug fs t)"
  by (induction fs t rule: plug.induct) simp_all

lemma top_append: "top (fs @ gs) = (if fs = [] then top gs else top fs)"
  by (cases fs) auto

lemma represents_append: "represents s gs (plug fs t) \<longleftrightarrow> represents s (fs @ gs) t"
  by (induction fs t rule: plug.induct) (simp_all add: refocus)

lemma leftmost:
  assumes "represents s fs t" "t \<noteq> Leaf"
  shows "\<exists>gs k m w. t = plug gs (Node Leaf k m w) \<and> (\<forall>f\<in>set gs. fst f = Left_side) \<and>
     rb_leftmost (root t) s = Some (Some m)"
  using assms
proof (induction t arbitrary: fs)
  case (Node l c a r)
  have mem: "rb_mem s a = Some (nd Left_side (top fs) c (root l) (root r))" using Node.prems by (simp add: represents_def)
  show ?case
  proof (cases "l = Leaf")
    case True
    then have "rb_leftmost (Some a) s = Some (Some a)"
      using mem by (subst rb_leftmost.simps) (simp add: nd_def)
    with True show ?thesis by (intro exI [of _ "[]"]) simp
  next
    case False
    have "represents s ((Left_side, c, a, r) # fs) l" using Node.prems by (simp add: refocus)
    from Node.IH(1) [OF this False] obtain gs k m w where l: "l = plug gs (Node Leaf k m w)"
      "\<forall>f\<in>set gs. fst f = Left_side" "rb_leftmost (root l) s = Some (Some m)" by blast
    have "rb_leftmost (Some a) s = Some (Some m)"
      using mem l(3) False by (subst rb_leftmost.simps) (simp add: nd_def)
    with l show ?thesis
      by (intro exI [of _ "gs @ [(Left_side, c, a, r)]"] exI [of _ k] exI [of _ m] exI [of _ w])
        (simp add: plug_append)
  qed
qed simp

lemma before_append: "before (fs @ gs) = before gs @ before fs" "after (fs @ gs) = after fs @ after gs"
  by (induction fs) auto

lemma before_lefts: "\<forall>f\<in>set gs. fst f = Left_side \<Longrightarrow> before gs = []"
  by (induction gs rule: before.induct) auto

lemma nd_left:
  "rb_left (nd Left_side p c x y) = x" "rb_right (nd Left_side p c x y) = y"
  "rb_left (nd Right_side p c x y) = y" "rb_right (nd Right_side p c x y) = x"
  by (simp_all add: nd_def)

lemma balanced_path_addr:
  "red_ok (gs @ (d, c, a, u) # fs) = red_ok (gs @ (d, c, b, u) # fs)"
  "balanced_path (gs @ (d, c, a, u) # fs) h = balanced_path (gs @ (d, c, b, u) # fs) h"
proof -
  show *: "red_ok (gs @ (d, c, a, u) # fs) = red_ok (gs @ (d, c, b, u) # fs)" for gs by (cases gs) auto
  show "balanced_path (gs @ (d, c, a, u) # fs) h = balanced_path (gs @ (d, c, b, u) # fs) h"
  proof (induction gs arbitrary: h)
    case Nil
    show ?case by (cases c) simp_all
  next
    case (Cons f gs)
    obtain e k x v where "f = (e, k, x, v)" by (cases f)
    then show ?case using Cons * by (cases k) simp_all
  qed
qed

lemma unlink_successor_ok:
  assumes "represents s fs (Node l c n r)" "rb_ok (plug fs (Node l c n r))" "l \<noteq> Leaf" "r \<noteq> Leaf"
  shows "\<exists>s' t'. rb_unlink_successor n s = Some s' \<and> represents s' [] t' \<and>
     inorder t' = before fs @ inorder l @ inorder r @ after fs \<and> rb_ok t'"
proof -
  let ?F = "(Right_side, c, n, l)"
  have "represents s (?F # fs) r" using assms(1) by (simp add: refocus)
  from leftmost [OF this assms(4)] obtain gs k m w where r: "r = plug gs (Node Leaf k m w)"
    "\<forall>f\<in>set gs. fst f = Left_side" "rb_leftmost (root r) s = Some (Some m)" by blast
  have rm: "represents s (gs @ ?F # fs) (mk Right_side w k m Leaf)"
    using \<open>represents s (?F # fs) r\<close> represents_append [of s "?F # fs" gs] unfolding r(1) by simp
  let ?top = "if gs = [] then Some n else top gs"
  have top: "top (gs @ ?F # fs) = ?top" by (simp add: top_append)
  have mm: "rb_mem s m = Some (nd Right_side ?top k (root w) None)"
    using represents_node [OF rm] by (simp add: top)
  have mn: "rb_mem s n = Some (nd Left_side (top fs) c (root l) (root r))" using assms(1) by (simp add: represents_def)
  from unlink_steps [OF rm] obtain s1 where s1:
    "(if root w \<noteq> None then rb_upd (rb_set_parent ?top) (root w) s else Some s) = Some s1"
    "enc_path (rb_mem s1) (gs @ ?F # fs) (Some m)" "represents (link_top (gs @ ?F # fs) (root w) s1) (gs @ ?F # fs) w"
    "\<forall>x. x \<notin> set (inorder w) \<longrightarrow> rb_mem s1 x = rb_mem s x"
    unfolding top by blast
  define s2 where "s2 = link_top (gs @ ?F # fs) (root w) s1"
  let ?r = "plug gs w"
  have r2: "represents s2 fs (Node l c n ?r)"
    using s1(3) represents_append [of s2 "?F # fs" gs w] by (simp add: s2_def refocus)
  have di: "distinct (inorder (plug fs (Node l c n r)))" using assms(1) by (simp add: represents_def)
  then have sep: "distinct (inorder (Node l c n r))" "set (inorder (Node l c n r)) \<inter> nodes fs = {}"
    using distinct_plug by blast+
  have in_r: "inorder r = m # inorder w @ after gs" "inorder ?r = inorder w @ after gs"
    using before_lefts [OF r(2)] by (simp_all add: r(1) inorder_plug)
  have fresh: "m \<notin> insert n (set (inorder l) \<union> set (inorder ?r) \<union> nodes fs)"
    using sep in_r by auto
  have link: "(if ?top = Some n
      then do { s \<leftarrow> rb_upd (rb_set_child Right_side (root w)) ?top s1; Some (Some m, s) }
      else do { s \<leftarrow> rb_upd (rb_set_child Left_side (root w)) ?top s1; Some (?top, s) }) =
    Some (if gs = [] then Some m else ?top, s2)"
  proof (cases gs)
    case Nil
    then show ?thesis using s1(2) by (simp add: s2_def link_top_def rb_upd_Some)
  next
    case (Cons f hs)
    then obtain e a u where f: "f = (Left_side, e, a, u)" using r(2) by (cases f) auto
    then have "a \<noteq> n" using sep(1) in_r(1) Cons by auto
    then show ?thesis using s1(2) Cons f by (simp add: s2_def link_top_def rb_upd_Some)
  qed
  have m2: "\<exists>x. rb_mem s2 m = Some x"
  proof -
    have "m \<notin> set (inorder w)" using sep(1) in_r by auto
    moreover have "m \<notin> nodes (gs @ ?F # fs)" using focus_not_in_path [OF rm] .
    ultimately show ?thesis using s1(4) mm link_top_mem by (simp add: s2_def)
  qed
  from m2 obtain x where "rb_mem s2 m = Some x" ..
  from replace_node [OF r2 fresh this assms(3)] obtain s3 s4 s5 o2 where rep:
    "rb_mem s2 n = Some o2" "rb_upd (\<lambda>n. n\<lparr>rb_parent := rb_parent o2, rb_color := rb_color o2,
      rb_right := rb_right o2, rb_left := rb_left o2\<rparr>) (Some m) s2 = Some s3"
    "rb_parent o2 = top fs" "rb_left o2 = root l" "rb_right o2 = root ?r" "enc_path (rb_mem s3) fs (Some n)"
    "rb_upd (rb_set_parent (Some m)) (root l) (link_top fs (Some m) s3) = Some s4"
    "(if root ?r \<noteq> None then rb_upd (rb_set_parent (Some m)) (root ?r) s4 else Some s4) = Some s5"
    "represents s5 fs (Node l c m ?r)" by blast
  have nfs: "n \<notin> nodes fs" using sep(2) by auto
  note top_link = link_top_left [OF rep(6) nfs, of "Some m"]
  let ?G = "gs @ (Right_side, c, m, l) # fs"
  have topG: "top ?G = (if gs = [] then Some m else ?top)" by (simp add: top_append)
  have rG: "represents s5 ?G w"
    using rep(9) represents_append [of s5 "(Right_side, c, m, l) # fs" gs w] by (simp add: refocus)
  have un: "rb_unlink_successor n s = (if k = RB_BLACK then rb_erase_color (root w) (top ?G) s5 else Some s5)"
    using mn r(3) mm s1(1) link rep(1-5,7,8) top_link topG
    unfolding rb_unlink_successor_def Let_def
    by (simp only: rb_deref_Some Option.bind.simps nd_simps nd_left prod.case)
  have inG: "inorder (plug ?G w) = before fs @ inorder l @ inorder r @ after fs"
    using before_lefts [OF r(2)] by (simp add: in_r(1) inorder_plug before_append)
  have "plug fs (Node l c n r) = plug (gs @ ?F # fs) (mk Right_side w k m Leaf)" by (simp add: r(1) plug_append)
  with balanced_unplug assms(2) obtain h where h: "balanced_path (gs @ ?F # fs) h"
    "balanced (mk Right_side w k m Leaf) h" "k = RB_RED \<longrightarrow> red_ok (gs @ ?F # fs)" by (metis mk_simps(3))
  have "balanced_path ?G h" "red_ok ?G = red_ok (gs @ ?F # fs)"
    using h(1) balanced_path_addr by blast+
  with unlinked_balance [OF rG _ h(2)] h(3) show ?thesis unfolding un inG [symmetric] by blast
qed

section \<open>The tree as an ordered index\<close>

text \<open>The nodes of a well-formed tree, in their order.\<close>

definition tree_ok :: "rb_tree \<Rightarrow> nat list \<Rightarrow> bool" where
  "tree_ok s xs \<longleftrightarrow> (\<exists>t. represents s [] t \<and> rb_ok t \<and> inorder t = xs)"

lemma tree_ok_distinct: "tree_ok s xs \<Longrightarrow> distinct xs"
  by (auto simp: tree_ok_def represents_def)

lemma focus_on:
  assumes "a \<in> set (inorder t)"
  shows "\<exists>fs l c r. t = plug fs (Node l c a r)"
  using assms
proof (induction t)
  case (Node l c b r)
  then consider "a = b" | "a \<in> set (inorder l)" | "a \<in> set (inorder r)" by auto
  then show ?case
  proof cases
    case 1
    then show ?thesis by (intro exI [of _ "[]"]) simp
  next
    case 2
    then obtain fs x d y where "l = plug fs (Node x d a y)" using Node.IH by blast
    then show ?thesis by (intro exI [of _ "fs @ [(Left_side, c, b, r)]"]) (auto simp: plug_append)
  next
    case 3
    then obtain fs x d y where "r = plug fs (Node x d a y)" using Node.IH by blast
    then show ?thesis by (intro exI [of _ "fs @ [(Right_side, c, b, l)]"]) (auto simp: plug_append)
  qed
qed simp

lemma erase_ok:
  assumes "tree_ok s xs" "n \<in> set xs"
  shows "\<exists>s'. rb_erase n s = Some s' \<and> tree_ok s' (remove1 n xs)"
proof -
  from assms(1) obtain t where t: "represents s [] t" "rb_ok t" "inorder t = xs" by (auto simp: tree_ok_def)
  with assms(2) focus_on obtain fs l c r where f: "t = plug fs (Node l c n r)" by blast
  with t represents_plug have r: "represents s fs (Node l c n r)" by simp
  then have mem: "rb_mem s n = Some (nd Left_side (top fs) c (root l) (root r))" by (simp add: represents_def)
  have "n \<notin> set (before fs)" using tree_ok_distinct [OF assms(1)] t(3) f by (auto simp: inorder_plug)
  then have rm: "remove1 n xs = before fs @ inorder l @ inorder r @ after fs"
    using t(3) f tree_ok_distinct [OF assms(1)] by (auto simp: inorder_plug remove1_append)
  consider "l = Leaf" | "l \<noteq> Leaf" "r = Leaf" | "l \<noteq> Leaf" "r \<noteq> Leaf" by blast
  then show ?thesis
  proof cases
    case 1
    then show ?thesis
      using unlink_ok [of s fs Right_side r c n] r t(2) f mem unfolding tree_ok_def rm
      by (auto simp: rb_erase_def nd_left)
  next
    case 2
    then show ?thesis
      using unlink_ok [of s fs Left_side l c n] r t(2) f mem unfolding tree_ok_def rm
      by (auto simp: rb_erase_def nd_left)
  next
    case 3
    then show ?thesis
      using unlink_successor_ok [OF r] t(2) f mem unfolding tree_ok_def rm
      by (auto simp: rb_erase_def nd_left)
  qed
qed

lemma first_ok:
  assumes "tree_ok s xs"
  shows "rb_first s = Some (case xs of [] \<Rightarrow> None | x # _ \<Rightarrow> Some x)"
proof -
  from assms obtain t where t: "represents s [] t" "inorder t = xs" by (auto simp: tree_ok_def)
  then have root: "rb_root s = root t" by (simp add: represents_def)
  show ?thesis
  proof (cases "t = Leaf")
    case True
    then show ?thesis using t(2) root by (auto simp: rb_first_def)
  next
    case False
    from leftmost [OF t(1) this] obtain gs k m w where "t = plug gs (Node Leaf k m w)"
      "\<forall>f\<in>set gs. fst f = Left_side" "rb_leftmost (root t) s = Some (Some m)" by blast
    moreover from this have "xs = m # inorder w @ after gs" using t(2) before_lefts by (simp add: inorder_plug)
    ultimately show ?thesis using root False by (auto simp: rb_first_def)
  qed
qed

lemma ascend:
  assumes "represents s fs t" "root t = Some n"
  shows "rb_ascend (Some n) s = Some (case after fs of [] \<Rightarrow> None | x # _ \<Rightarrow> Some x)"
  using assms
proof (induction fs arbitrary: t n)
  case Nil
  obtain x where "rb_mem s n = Some x" "rb_parent x = None" using node_parent [OF Nil] by auto
  then show ?case by (subst rb_ascend.simps) simp
next
  case (Cons f fs)
  obtain d c a u where f: "f = (d, c, a, u)" by (cases f)
  obtain x where x: "rb_mem s n = Some x" "rb_parent x = Some a" using node_parent [OF Cons.prems] f by auto
  have up: "rb_mem s a = Some (nd d (top fs) c (Some n) (root u))"
    using represents_up Cons.prems f by fastforce
  have r: "represents s fs (mk d t c a u)" using Cons.prems(1) f by (simp add: refocus)
  show ?case
  proof (cases d)
    case Left_side
    have "root u \<noteq> Some n" using represents_sep(3) [OF r Cons.prems(2)] .
    then show ?thesis using x up by (subst rb_ascend.simps) (auto simp: f Left_side nd_left)
  next
    case Right_side
    have "rb_ascend (Some n) s = rb_ascend (Some a) s"
      using x up by (subst rb_ascend.simps) (simp add: Right_side nd_left)
    then show ?thesis using Cons.IH [OF r] by (simp add: f Right_side)
  qed
qed

lemma next_ok:
  assumes "tree_ok s (xs @ n # ys)"
  shows "rb_next n s = Some (case ys of [] \<Rightarrow> None | y # _ \<Rightarrow> Some y)"
proof -
  from assms obtain t where t: "represents s [] t" "inorder t = xs @ n # ys" by (auto simp: tree_ok_def)
  with focus_on obtain fs l c r where f: "t = plug fs (Node l c n r)" by (metis in_set_conv_decomp)
  with t represents_plug have rep: "represents s fs (Node l c n r)" by simp
  have "before fs @ inorder l @ n # inorder r @ after fs = xs @ n # ys" using t(2) f by (simp add: inorder_plug)
  moreover have "distinct (xs @ n # ys)" using tree_ok_distinct [OF assms] .
  ultimately have ys: "ys = inorder r @ after fs"
    using append_Cons_eq_iff [of n xs ys "before fs @ inorder l" "inorder r @ after fs"] by auto
  have mem: "rb_mem s n = Some (nd Left_side (top fs) c (root l) (root r))" using rep by (simp add: represents_def)
  have "top fs \<noteq> Some n" using represents_sep(4) [of s fs Left_side l c n r] rep by simp
  moreover have "represents s ((Right_side, c, n, l) # fs) r" using rep by (simp add: refocus)
  note lm = leftmost [OF this]
  ultimately show ?thesis
  proof (cases "r = Leaf")
    case True
    then show ?thesis
      using mem \<open>top fs \<noteq> Some n\<close> ascend [OF rep] ys by (simp add: rb_next_def nd_left)
  next
    case False
    from lm [OF this] obtain gs k m w where g: "r = plug gs (Node Leaf k m w)"
      "\<forall>f\<in>set gs. fst f = Left_side" "rb_leftmost (root r) s = Some (Some m)" by blast
    then have "inorder r = m # inorder w @ after gs" using before_lefts by (simp add: inorder_plug)
    then show ?thesis using mem \<open>top fs \<noteq> Some n\<close> g(3) ys False by (simp add: rb_next_def nd_left)
  qed
qed

lemma insert_ok:
  assumes "represents s fs Leaf" "rb_ok (plug fs Leaf)" "n \<notin> nodes fs" "rb_mem s n = Some x"
    "fs = [] \<or> fst (hd fs) = d"
  shows "\<exists>s'. rb_link_node n (top fs) d s \<bind> rb_insert_color n = Some s' \<and> tree_ok s' (before fs @ n # after fs)"
  using insert_correct [OF assms] unfolding tree_ok_def by blast

text \<open>The height is logarithmic, which bounds every walk down or up.\<close>

fun height :: "rbt \<Rightarrow> nat" where
  "height Leaf = 0"
| "height (Node l c a r) = Suc (max (height l) (height r))"

lemma height_balanced: "balanced t h \<Longrightarrow> height t \<le> 2 * h + (if col t = RB_RED then 1 else 0) \<and> 2 ^ h \<le> Suc (length (inorder t))"
proof (induction t h rule: balanced.induct)
  case (3 l a r h)
  then obtain k where k: "h = Suc k" "balanced l k" "balanced r k" by (auto split: nat.splits)
  have l: "height l \<le> Suc (2 * k)" "2 ^ k \<le> Suc (length (inorder l))"
    using 3(1) [OF k(1,2)] by (auto split: if_splits)
  have r: "height r \<le> Suc (2 * k)" "2 ^ k \<le> Suc (length (inorder r))"
    using 3(2) [OF k(1,3)] by (auto split: if_splits)
  from l r show ?case by (simp add: k(1) max_def)
qed auto

lemma height_bound:
  assumes "rb_ok t"
  shows "2 ^ height t \<le> (Suc (length (inorder t)))\<^sup>2"
proof -
  from assms obtain h where h: "balanced t h" "col t = RB_BLACK" by (auto simp: rb_ok_def)
  have "(2::nat) ^ height t \<le> 2 ^ (2 * h)" using height_balanced [OF h(1)] h(2) by (intro power_increasing) simp_all
  also have "\<dots> = (2 ^ h)\<^sup>2" by (simp add: power_mult mult.commute)
  also have "\<dots> \<le> (Suc (length (inorder t)))\<^sup>2" using height_balanced [OF h(1)] by (intro power_mono) simp_all
  finally show ?thesis .
qed

text \<open>C14: on a red-black tree over the nodes \<open>xs\<close> in this order, \<open>rb_erase\<close> of any of them returns
  without a bad access and leaves a red-black tree over the others in the same order, \<open>rb_first\<close> gives
  the first, \<open>rb_next\<close> of each the one after it, and of the last none.\<close>

theorem rbtree_is_ordered_index:
  assumes "tree_ok s xs"
  shows "(\<forall>n\<in>set xs. \<exists>s'. rb_erase n s = Some s' \<and> tree_ok s' (remove1 n xs)) \<and>
    rb_first s = Some (if xs = [] then None else Some (hd xs)) \<and>
    (\<forall>i<length xs. rb_next (xs ! i) s = Some (if Suc i < length xs then Some (xs ! Suc i) else None))"
proof (intro conjI)
  show "\<forall>n\<in>set xs. \<exists>s'. rb_erase n s = Some s' \<and> tree_ok s' (remove1 n xs)"
    using erase_ok [OF assms] by blast
  show "rb_first s = Some (if xs = [] then None else Some (hd xs))"
    using first_ok [OF assms] by (cases xs) simp_all
  show "\<forall>i<length xs. rb_next (xs ! i) s = Some (if Suc i < length xs then Some (xs ! Suc i) else None)"
  proof (intro allI impI)
    fix i assume i: "i < length xs"
    then have "tree_ok s (take i xs @ xs ! i # drop (Suc i) xs)" using assms by (simp add: id_take_nth_drop [symmetric])
    from next_ok [OF this] show "rb_next (xs ! i) s = Some (if Suc i < length xs then Some (xs ! Suc i) else None)"
      by (auto simp: Cons_nth_drop_Suc [symmetric])
  qed
qed

text \<open>Three nodes linked one after the other to the right of the last.\<close>

definition example_tree :: rb_tree where
  "example_tree = \<lparr>rb_mem = [1 \<mapsto> nd Left_side (Some 2) RB_RED None None, 2 \<mapsto> nd Left_side None RB_BLACK (Some 1) (Some 3),
     3 \<mapsto> nd Left_side (Some 2) RB_RED None None], rb_root = Some 2\<rparr>"

lemma example_tree_ok: "tree_ok example_tree [1, 2, 3]"
  unfolding tree_ok_def
  by (rule exI [of _ "Node (Node Leaf RB_RED 1 Leaf) RB_BLACK 2 (Node Leaf RB_RED 3 Leaf)"])
    (auto simp: represents_def example_tree_def rb_ok_def intro!: exI [of _ "Suc 0"])

theorem rbtree_is_ordered_index_witness:
  "(\<exists>s'. rb_erase 2 example_tree = Some s' \<and> tree_ok s' [1, 3]) \<and> rb_first example_tree = Some (Some 1)"
  using rbtree_is_ordered_index [OF example_tree_ok] by simp

end
