(* ===== verification/IoHist.thy ===== *)
theory IoHist
  imports Rbtree_Correct Rand
begin

text \<open>
  The history of the writes of a job (\<^verbatim>\<open>iolog.c\<close>, \<^verbatim>\<open>trim.c\<close>,
  \<^verbatim>\<open>trim.h\<close>, \<^verbatim>\<open>verify.c\<close>, \<^verbatim>\<open>io_u.c\<close>): each write is logged as a
  piece before it is issued and marked when it completes; the pieces come back as blocks to trim or to
  read and verify. A piece lives in a list or in the red-black tree ordered by file and offset. Pieces are
  addresses; an access to one that has been freed is \<open>None\<close>.
\<close>

section \<open>Pieces and the state of a job\<close>

record io_piece =
  ip_file :: nat
  ip_offset :: u64
  ip_numberio :: u16
  ip_len :: u64
  ip_onrb :: bool
  ip_onlist :: bool
  ip_trimmed :: bool
  ip_in_flight :: bool

record hist_options =
  ho_verifysort :: bool
  ho_random :: bool              \<comment> \<open>\<open>td_random(td)\<close>\<close>
  ho_overwrite :: bool
  ho_randommap :: "nat \<Rightarrow> bool"  \<comment> \<open>\<open>file_randommap(td, f)\<close>\<close>
  ho_verify_none :: bool
  ho_verify_pattern :: bool      \<comment> \<open>\<open>verify_pattern_bytes\<close> is not 0\<close>
  ho_trim_percentage :: u32
  ho_trim_zero :: bool
  ho_use_os_rand :: bool
  ho_os_rand :: "nat \<Rightarrow> u64"       \<comment> \<open>what the system's generator answers to each call\<close>
  ho_trim_backlog :: u32
  ho_trim_batch :: u32
  ho_verify_backlog :: u32
  ho_verify_batch :: u32

record hist =
  ih_o :: hist_options
  ih_pieces :: "nat \<rightharpoonup> io_piece"
  ih_tree :: rb_tree             \<comment> \<open>\<open>io_hist_tree\<close>, with the nodes inside the pieces\<close>
  ih_list :: "nat list"          \<comment> \<open>\<open>io_hist_list\<close>\<close>
  ih_trim_list :: "nat list"
  ih_len :: u64                  \<comment> \<open>\<open>io_hist_len\<close>\<close>
  ih_trim_entries :: u64
  ih_trim_batch :: u32
  ih_verify_batch :: u32
  ih_trim_state :: frand_state
  ih_verify_state :: frand_state
  ih_os_calls :: nat

text \<open>The fields of a unit that the history reads and sets; \<open>hu_ipo\<close> is the piece of its write.\<close>

datatype hist_ddir = Ddir_read | Ddir_write | Ddir_trim

record hist_io_u =
  hu_file :: "nat option"
  hu_offset :: u64
  hu_buflen :: u64
  hu_numberio :: u16
  hu_ipo :: "nat option"
  hu_ver_list :: bool
  hu_trimmed :: bool
  hu_ddir :: hist_ddir
  hu_xfer_buflen :: u64
  hu_rand_seed :: u64

definition set_piece :: "nat \<Rightarrow> io_piece \<Rightarrow> hist \<Rightarrow> hist" where
  "set_piece a q h = h\<lparr>ih_pieces := (ih_pieces h)(a \<mapsto> q)\<rparr>"

definition free_piece :: "nat \<Rightarrow> hist \<Rightarrow> hist" where
  "free_piece a h = h\<lparr>ih_pieces := (ih_pieces h)(a := None),
     ih_tree := (ih_tree h)\<lparr>rb_mem := (rb_mem (ih_tree h))(a := None)\<rparr>\<rparr>"

text \<open>A piece that is not on the trim list has an empty link.\<close>

definition remove_trim_entry :: "nat \<Rightarrow> hist \<Rightarrow> hist option" where
  "remove_trim_entry a h = do {
     _ \<leftarrow> ih_pieces h a;
     Some (if a \<in> set (ih_trim_list h)
           then h\<lparr>ih_trim_list := remove1 a (ih_trim_list h), ih_trim_entries := ih_trim_entries h - 1\<rparr> else h) }"

section \<open>Logging a write\<close>

definition io_u_should_trim :: "hist \<Rightarrow> hist \<times> bool" where
  "io_u_should_trim h =
     (let pct = ucast (ho_trim_percentage (ih_o h)) :: u64
      in if ho_trim_percentage (ih_o h) = 0 then (h, False)
      else if ho_use_os_rand (ih_o h)
      then (h\<lparr>ih_os_calls := Suc (ih_os_calls h)\<rparr>, ho_os_rand (ih_o h) (ih_os_calls h) \<le> 0x7fffffff div 100 * pct)
      else case fio_rand (ih_trim_state h) of (st, r) \<Rightarrow>
        (h\<lparr>ih_trim_state := st\<rparr>, (ucast r :: u64) \<le> 0xffffffff div 100 * pct))"

text \<open>The search for the place of a piece: the parent and the side, or a piece with the same place.\<close>

datatype hist_place = Place "nat option" side | Overlap nat

partial_function (option) hist_search ::
    "hist \<Rightarrow> nat \<Rightarrow> u64 \<Rightarrow> nat option \<Rightarrow> side \<Rightarrow> nat option \<Rightarrow> hist_place option" where
  "hist_search h f off parent d p =
     (case p of
        None \<Rightarrow> Some (Place parent d)
      | Some b \<Rightarrow> do {
          q \<leftarrow> ih_pieces h b;
          n \<leftarrow> rb_mem (ih_tree h) b;
          if f < ip_file q then hist_search h f off p Left_side (rb_left n)
          else if ip_file q < f then hist_search h f off p Right_side (rb_right n)
          else if off < ip_offset q then hist_search h f off p Left_side (rb_left n)
          else if ip_offset q < off then hist_search h f off p Right_side (rb_right n)
          else Some (Overlap b) })"

declare hist_search.simps [code]

text \<open>From the label \<open>restart\<close>; nothing reads the cleared node of the piece before it is linked.\<close>

partial_function (option) hist_insert :: "nat \<Rightarrow> io_piece \<Rightarrow> hist \<Rightarrow> hist option" where
  "hist_insert a ipo h = do {
     r \<leftarrow> hist_search h (ip_file ipo) (ip_offset ipo) None Left_side (rb_root (ih_tree h));
     (case r of
        Overlap b \<Rightarrow> do {
          let h = h\<lparr>ih_len := ih_len h - 1\<rparr>;
          t \<leftarrow> rb_erase b (ih_tree h);
          h \<leftarrow> remove_trim_entry b (h\<lparr>ih_tree := t\<rparr>);
          hist_insert a ipo (free_piece b h) }
      | Place parent d \<Rightarrow> do {
          let t = (ih_tree h)\<lparr>rb_mem := (rb_mem (ih_tree h))(a \<mapsto>
                \<lparr>rb_parent = Some a, rb_color = RB_RED, rb_left = None, rb_right = None\<rparr>)\<rparr>;
          t \<leftarrow> rb_link_node a parent d t;
          t \<leftarrow> rb_insert_color a t;
          Some (set_piece a (ipo\<lparr>ip_onrb := True\<rparr>) (h\<lparr>ih_tree := t, ih_len := ih_len h + 1\<rparr>)) }) }"

declare hist_insert.simps [code]

definition in_write_order :: "hist_options \<Rightarrow> nat \<Rightarrow> bool" where
  "in_write_order ho f \<longleftrightarrow>
     (\<not> ho_verifysort ho \<or> \<not> ho_random ho \<or> \<not> ho_overwrite ho) \<and> (ho_randommap ho f \<or> ho_verify_none ho)"

text \<open>\<open>a\<close> is what \<open>malloc\<close> returned; the code does not test it for null.\<close>

definition log_io_piece :: "nat option \<Rightarrow> hist_io_u \<Rightarrow> hist \<Rightarrow> (hist_io_u \<times> hist) option" where
  "log_io_piece m u h = do {
     a \<leftarrow> m;
     f \<leftarrow> hu_file u;
     let ipo = \<lparr>ip_file = f, ip_offset = hu_offset u, ip_numberio = hu_numberio u, ip_len = hu_buflen u,
       ip_onrb = False, ip_onlist = False, ip_trimmed = False, ip_in_flight = True\<rparr>;
     let u = u\<lparr>hu_ipo := Some a\<rparr>;
     let h = set_piece a ipo h;
     let (h, trim) = io_u_should_trim h;
     let h = (if trim then h\<lparr>ih_trim_list := ih_trim_list h @ [a], ih_trim_entries := ih_trim_entries h + 1\<rparr> else h);
     if in_write_order (ih_o h) f
     then Some (u, set_piece a (ipo\<lparr>ip_onlist := True\<rparr>) (h\<lparr>ih_list := ih_list h @ [a], ih_len := ih_len h + 1\<rparr>))
     else do { h \<leftarrow> hist_insert a ipo h; Some (u, h) } }"

text \<open>The part of \<open>io_completed\<close> that marks the piece.\<close>

definition mark_completed :: "hist_io_u \<Rightarrow> hist \<Rightarrow> hist option" where
  "mark_completed u h = (case hu_ipo u of
     None \<Rightarrow> Some h
   | Some a \<Rightarrow> do { q \<leftarrow> ih_pieces h a; Some (set_piece a (q\<lparr>ip_in_flight := False\<rparr>) h) })"

section \<open>Blocks to verify\<close>

text \<open>The piece that is next, taken out of the tree or the list; none while it is in flight.\<close>

definition take_verify :: "hist \<Rightarrow> (hist \<times> (nat \<times> io_piece) option) option" where
  "take_verify h =
     (if rb_root (ih_tree h) \<noteq> None then do {
        n \<leftarrow> rb_first (ih_tree h);
        a \<leftarrow> n;
        q \<leftarrow> ih_pieces h a;
        if ip_in_flight q then Some (h, None)
        else do {
          t \<leftarrow> rb_erase a (ih_tree h);
          c_assert (ip_onrb q);
          let q = q\<lparr>ip_onrb := False\<rparr>;
          Some (set_piece a q (h\<lparr>ih_tree := t\<rparr>), Some (a, q)) } }
      else case ih_list h of
        [] \<Rightarrow> Some (h, None)
      | a # as \<Rightarrow> do {
          q \<leftarrow> ih_pieces h a;
          if ip_in_flight q then Some (h, None)
          else do {
            c_assert (ip_onlist q);
            let q = q\<lparr>ip_onlist := False\<rparr>;
            Some (set_piece a q (h\<lparr>ih_list := as\<rparr>), Some (a, q)) } })"

text \<open>The seed for a random pattern, from two draws that are multiplied.\<close>

definition verify_seed :: "hist_io_u \<Rightarrow> hist \<Rightarrow> hist_io_u \<times> hist" where
  "verify_seed u h =
     (if ho_verify_pattern (ih_o h) then (u, h)
      else case fio_rand (ih_verify_state h) of (st1, r1) \<Rightarrow>
        case fio_rand st1 of (st2, r2) \<Rightarrow>
          (u\<lparr>hu_rand_seed := ucast r1 * ucast r2\<rparr>, h\<lparr>ih_verify_state := st2\<rparr>))"

text \<open>\<open>opened\<close>: the file is open or opening it succeeds. The Boolean of the result says that the unit is
  ready (return value 0).\<close>

definition get_next_verify :: "bool \<Rightarrow> hist_io_u \<Rightarrow> hist \<Rightarrow> (hist_io_u \<times> hist \<times> bool) option" where
  "get_next_verify opened u h =
     (if hu_file u \<noteq> None then Some (u, h, True)
      else do {
        (h, r) \<leftarrow> take_verify h;
        (case r of
           None \<Rightarrow> Some (u, h, False)
         | Some (a, q) \<Rightarrow>
             let h = h\<lparr>ih_len := ih_len h - 1\<rparr>;
                 u = u\<lparr>hu_offset := ip_offset q, hu_buflen := ip_len q, hu_numberio := ip_numberio q,
                   hu_file := Some (ip_file q), hu_ver_list := True, hu_trimmed := hu_trimmed u \<or> ip_trimmed q\<rparr>
             in if \<not> opened then Some (u, h, False)
             else do {
               h \<leftarrow> remove_trim_entry a h;
               let (u, h) = verify_seed (u\<lparr>hu_ddir := Ddir_read, hu_xfer_buflen := hu_buflen u\<rparr>) (free_piece a h);
               Some (u, h, True) }) })"

section \<open>Blocks to trim\<close>

definition get_next_trim :: "bool \<Rightarrow> hist_io_u \<Rightarrow> hist \<Rightarrow> (hist_io_u \<times> hist \<times> bool) option" where
  "get_next_trim opened u h =
     (if hu_file u \<noteq> None then Some (u, h, True)
      else case ih_trim_list h of
        [] \<Rightarrow> Some (u, h, False)
      | a # _ \<Rightarrow> do {
          c_assert (ih_trim_entries h \<noteq> 0);
          h \<leftarrow> remove_trim_entry a h;
          q \<leftarrow> ih_pieces h a;
          let u = u\<lparr>hu_offset := ip_offset q, hu_buflen := ip_len q, hu_file := Some (ip_file q)\<rparr>;
          h \<leftarrow> (if \<not> ho_trim_zero (ih_o h) then do {
                  h \<leftarrow> (if ip_onlist q then Some (h\<lparr>ih_list := remove1 a (ih_list h)\<rparr>)
                        else do {
                          c_assert (ip_onrb q);
                          t \<leftarrow> rb_erase a (ih_tree h);
                          Some (h\<lparr>ih_tree := t\<rparr>) });
                  Some (free_piece a (h\<lparr>ih_len := ih_len h - 1\<rparr>)) }
                else Some (set_piece a (q\<lparr>ip_trimmed := True\<rparr>) h));
          if \<not> opened then Some (u, h, False)
          else Some (u\<lparr>hu_ddir := Ddir_trim, hu_xfer_buflen := hu_buflen u\<rparr>, h, True) })"

section \<open>Backlogs\<close>

text \<open>\<open>on\<close>: the flag of the job; \<open>read\<close>: \<open>last_ddir\<close> is \<open>DDIR_READ\<close>. The remainder by a backlog of 0
  is undefined.\<close>

definition check_get_trim :: "bool \<Rightarrow> bool \<Rightarrow> bool \<Rightarrow> hist_io_u \<Rightarrow> hist \<Rightarrow> (hist_io_u \<times> hist \<times> bool) option" where
  "check_get_trim on read opened u h =
     (if \<not> on \<or> ih_trim_entries h = 0 then Some (u, h, False)
      else do {
        (h, get) \<leftarrow>
          (if ih_trim_batch h \<noteq> 0 then Some (h\<lparr>ih_trim_batch := ih_trim_batch h - 1\<rparr>, True)
           else do {
             c_assert (ho_trim_backlog (ih_o h) \<noteq> 0);
             if ih_len h mod ucast (ho_trim_backlog (ih_o h)) = 0 \<and> \<not> read
             then Some (h\<lparr>ih_trim_batch := (if ho_trim_batch (ih_o h) = 0 then ho_trim_backlog (ih_o h)
                                            else ho_trim_batch (ih_o h))\<rparr>, True)
             else Some (h, False) });
        if get then get_next_trim opened u h else Some (u, h, False) })"

definition check_get_verify :: "bool \<Rightarrow> bool \<Rightarrow> bool \<Rightarrow> hist_io_u \<Rightarrow> hist \<Rightarrow> (hist_io_u \<times> hist \<times> bool) option" where
  "check_get_verify on read opened u h =
     (if \<not> on \<or> ih_len h = 0 then Some (u, h, False)
      else do {
        (h, get) \<leftarrow>
          (if ih_verify_batch h \<noteq> 0 then Some (h, True)
           else do {
             c_assert (ho_verify_backlog (ih_o h) \<noteq> 0);
             if ih_len h mod ucast (ho_verify_backlog (ih_o h)) = 0 \<and> \<not> read
             then Some (h\<lparr>ih_verify_batch := (if ho_verify_batch (ih_o h) = 0 then ho_verify_backlog (ih_o h)
                                              else ho_verify_batch (ih_o h))\<rparr>, True)
             else Some (h, False) });
        if get then do {
          (u, h, ok) \<leftarrow> get_next_verify opened u h;
          Some (u, if ok then h\<lparr>ih_verify_batch := ih_verify_batch h - 1\<rparr> else h, ok) }
        else Some (u, h, False) })"

section \<open>Pruning\<close>

partial_function (option) prune_tree :: "hist \<Rightarrow> hist option" where
  "prune_tree h = do {
     n \<leftarrow> rb_first (ih_tree h);
     (case n of
        None \<Rightarrow> Some h
      | Some a \<Rightarrow> do {
          t \<leftarrow> rb_erase a (ih_tree h);
          h \<leftarrow> remove_trim_entry a (h\<lparr>ih_tree := t\<rparr>);
          prune_tree (free_piece a (h\<lparr>ih_len := ih_len h - 1\<rparr>)) }) }"

declare prune_tree.simps [code]

fun prune_list :: "nat list \<Rightarrow> hist \<Rightarrow> hist option" where
  "prune_list [] h = Some (h\<lparr>ih_list := []\<rparr>)"
| "prune_list (a # as) h = do {
     h \<leftarrow> remove_trim_entry a (h\<lparr>ih_list := as\<rparr>);
     prune_list as (free_piece a (h\<lparr>ih_len := ih_len h - 1\<rparr>)) }"

definition prune_io_piece_log :: "hist \<Rightarrow> hist option" where
  "prune_io_piece_log h = do { h \<leftarrow> prune_tree h; prune_list (ih_list h) h }"

end
