(* ===== verification/IoHist_Correct.thy ===== *)
theory IoHist_Correct
  imports IoHist "HOL-Library.Product_Lexorder"
begin

text \<open>
  The history in its sorted form implements a finite map from places (file and offset) to pieces: logging
  updates it, and the next block to verify is that of the least place. The tree facts come from
  \<open>Rbtree_Correct\<close>. At the end, what goes wrong: a piece that is freed while its write is in flight.
\<close>

section \<open>The invariant and the map\<close>

abbreviation place_of :: "io_piece \<Rightarrow> nat \<times> u64" where
  "place_of q \<equiv> (ip_file q, ip_offset q)"

definition piece_at :: "hist \<Rightarrow> nat \<Rightarrow> io_piece" where
  "piece_at h a = the (ih_pieces h a)"

text \<open>\<open>xs\<close>: the pieces of the tree in their order. \<open>T\<close>: where the pieces to trim are from.\<close>

definition index_ok :: "hist \<Rightarrow> nat list \<Rightarrow> bool" where
  "index_ok h xs \<longleftrightarrow>
     tree_ok (ih_tree h) xs \<and> (\<forall>a\<in>set xs. \<exists>q. ih_pieces h a = Some q \<and> ip_onrb q \<and> \<not> ip_onlist q) \<and>
     sorted_wrt (<) (map (\<lambda>a. place_of (piece_at h a)) xs) \<and> ih_list h = [] \<and> ih_len h = of_nat (length xs)"

definition trims_ok :: "nat set \<Rightarrow> hist \<Rightarrow> bool" where
  "trims_ok T h \<longleftrightarrow> distinct (ih_trim_list h) \<and> set (ih_trim_list h) \<subseteq> T \<and>
     ih_trim_entries h = of_nat (length (ih_trim_list h))"

definition hist_ok :: "hist \<Rightarrow> nat list \<Rightarrow> bool" where
  "hist_ok h xs \<longleftrightarrow> index_ok h xs \<and> trims_ok (set xs) h"

text \<open>What a piece says about the data: its length and the number of the write.\<close>

definition said :: "io_piece \<Rightarrow> u64 \<times> u16" where
  "said q = (ip_len q, ip_numberio q)"

definition hist_map :: "hist \<Rightarrow> nat list \<Rightarrow> (nat \<times> u64) \<rightharpoonup> (u64 \<times> u16)" where
  "hist_map h xs = map_of (map (\<lambda>a. (place_of (piece_at h a), said (piece_at h a))) xs)"

section \<open>The search\<close>

lemma search_ok:
  assumes "represents (ih_tree h) fs t" "\<forall>a\<in>set (inorder t). \<exists>q. ih_pieces h a = Some q"
    "sorted_wrt (<) (map (\<lambda>a. place_of (piece_at h a)) (inorder t))"
  shows "(\<exists>b\<in>set (inorder t). place_of (piece_at h b) = (f, off) \<and>
       hist_search h f off (top fs) d (root t) = Some (Overlap b)) \<or>
     (\<exists>gs e. t = plug gs Leaf \<and> hist_search h f off (top fs) d (root t) = Some (Place (top (gs @ fs)) e) \<and>
       (if gs = [] then e = d else fst (hd gs) = e) \<and>
       (\<forall>x\<in>set (before gs). place_of (piece_at h x) < (f, off)) \<and>
       (\<forall>x\<in>set (after gs). (f, off) < place_of (piece_at h x)))"
  using assms
proof (induction t arbitrary: fs d)
  case Leaf
  show ?case by (rule disjI2, rule exI [of _ "[]"]) (simp add: hist_search.simps)
next
  case (Node l c b r)
  let ?key = "\<lambda>a. place_of (piece_at h a)"
  obtain q where q: "ih_pieces h b = Some q" using Node.prems(2) by auto
  then have kb: "?key b = place_of q" by (simp add: piece_at_def)
  have mem: "rb_mem (ih_tree h) b = Some (nd Left_side (top fs) c (root l) (root r))"
    using Node.prems(1) by (simp add: represents_def)
  note step = hist_search.simps [of h f off "top fs" d "Some b"]
  have sorted: "\<forall>x\<in>set (inorder l). ?key x < ?key b" "\<forall>x\<in>set (inorder r). ?key b < ?key x"
    "sorted_wrt (<) (map ?key (inorder l))" "sorted_wrt (<) (map ?key (inorder r))"
    using Node.prems(3) by (auto simp: sorted_wrt_append)
  consider "(f, off) = place_of q" | "(f, off) < place_of q" | "place_of q < (f, off)"
    using less_linear by blast
  then show ?case
  proof cases
    case 1
    then have "hist_search h f off (top fs) d (Some b) = Some (Overlap b)"
      using q mem by (subst step) simp
    with 1 kb show ?thesis by (intro disjI1 bexI [of _ b]) simp_all
  next
    case 2
    have "represents (ih_tree h) ((Left_side, c, b, r) # fs) l" using Node.prems(1) by (simp add: refocus)
    note IH = Node.IH(1) [OF this _ sorted(3), of Left_side]
    have go: "hist_search h f off (top fs) d (Some b) = hist_search h f off (Some b) Left_side (root l)"
      using 2 q mem by (subst step) (auto simp: nd_left)
    from IH Node.prems(2) consider
      (hit) x where "x \<in> set (inorder l)" "?key x = (f, off)" "hist_search h f off (Some b) Left_side (root l) = Some (Overlap x)"
    | (miss) gs e where "l = plug gs Leaf"
        "hist_search h f off (Some b) Left_side (root l) = Some (Place (top (gs @ (Left_side, c, b, r) # fs)) e)"
        "if gs = [] then e = Left_side else fst (hd gs) = e"
        "\<forall>x\<in>set (before gs). ?key x < (f, off)" "\<forall>x\<in>set (after gs). (f, off) < ?key x"
      by auto
    then show ?thesis
    proof cases
      case hit
      then show ?thesis using go by auto
    next
      case miss
      have lt: "(f, off) < ?key b" unfolding kb by (rule 2)
      have "\<forall>x\<in>set (inorder r). (f, off) < ?key x" using sorted(2) less_trans [OF lt] by blast
      then show ?thesis using miss go lt
        by (intro disjI2 exI [of _ "gs @ [(Left_side, c, b, r)]"] exI [of _ e])
          (auto simp: plug_append before_append hd_append split: if_splits)
    qed
  next
    case 3
    have "represents (ih_tree h) ((Right_side, c, b, l) # fs) r" using Node.prems(1) by (simp add: refocus)
    note IH = Node.IH(2) [OF this _ sorted(4), of Right_side]
    have go: "hist_search h f off (top fs) d (Some b) = hist_search h f off (Some b) Right_side (root r)"
      using 3 q mem by (subst step) (auto simp: nd_left)
    from IH Node.prems(2) consider
      (hit) x where "x \<in> set (inorder r)" "?key x = (f, off)" "hist_search h f off (Some b) Right_side (root r) = Some (Overlap x)"
    | (miss) gs e where "r = plug gs Leaf"
        "hist_search h f off (Some b) Right_side (root r) = Some (Place (top (gs @ (Right_side, c, b, l) # fs)) e)"
        "if gs = [] then e = Right_side else fst (hd gs) = e"
        "\<forall>x\<in>set (before gs). ?key x < (f, off)" "\<forall>x\<in>set (after gs). (f, off) < ?key x"
      by auto
    then show ?thesis
    proof cases
      case hit
      then show ?thesis using go by auto
    next
      case miss
      have lt: "?key b < (f, off)" unfolding kb by (rule 3)
      have "\<forall>x\<in>set (inorder l). ?key x < (f, off)" using sorted(1) less_trans [OF _ lt] by blast
      then show ?thesis using miss go lt
        by (intro disjI2 exI [of _ "gs @ [(Right_side, c, b, l)]"] exI [of _ e])
          (auto simp: plug_append before_append hd_append split: if_splits)
    qed
  qed
qed

section \<open>Keeping the index\<close>

lemma tree_ok_other: "tree_ok s xs \<Longrightarrow> a \<notin> set xs \<Longrightarrow> tree_ok (s\<lparr>rb_mem := (rb_mem s)(a := v)\<rparr>) xs"
proof -
  assume "tree_ok s xs" "a \<notin> set xs"
  then obtain t where "represents s [] t" "rb_ok t" "inorder t = xs" by (auto simp: tree_ok_def)
  then show ?thesis
    using \<open>a \<notin> set xs\<close> unfolding tree_ok_def by (intro exI [of _ t]) (simp add: represents_def)
qed

lemma index_okD:
  assumes "index_ok h xs"
  shows "tree_ok (ih_tree h) xs" "distinct xs" "distinct (map (\<lambda>a. place_of (piece_at h a)) xs)"
    "\<And>a. a \<in> set xs \<Longrightarrow> ih_pieces h a = Some (piece_at h a)" "\<And>a. a \<in> set xs \<Longrightarrow> ip_onrb (piece_at h a) \<and> \<not> ip_onlist (piece_at h a)"
    "ih_list h = []" "ih_len h = of_nat (length xs)" "sorted_wrt (<) (map (\<lambda>a. place_of (piece_at h a)) xs)"
  using assms tree_ok_distinct strict_sorted_iff [of "map (\<lambda>a. place_of (piece_at h a)) xs"]
  by (auto simp: index_ok_def piece_at_def)

lemma place_inj:
  "index_ok h xs \<Longrightarrow> a \<in> set xs \<Longrightarrow> b \<in> set xs \<Longrightarrow> place_of (piece_at h a) = place_of (piece_at h b) \<Longrightarrow> a = b"
  using index_okD(3) unfolding distinct_map inj_on_def by blast

lemma hist_map_eq:
  assumes "index_ok h xs"
  shows "hist_map h xs k = Some v \<longleftrightarrow> (\<exists>a\<in>set xs. place_of (piece_at h a) = k \<and> said (piece_at h a) = v)"
proof -
  have "distinct (map fst (map (\<lambda>a. (place_of (piece_at h a), said (piece_at h a))) xs))"
    using index_okD(3) [OF assms] by (simp add: comp_def)
  then show ?thesis unfolding hist_map_def by (subst map_of_eq_Some_iff) auto
qed

lemma remove_trim_entry_ok:
  assumes "trims_ok T h" "ih_pieces h b = Some q"
  shows "\<exists>h'. remove_trim_entry b h = Some h' \<and> trims_ok (T - {b}) h' \<and>
     h' = h\<lparr>ih_trim_list := ih_trim_list h', ih_trim_entries := ih_trim_entries h'\<rparr>"
proof (cases "b \<in> set (ih_trim_list h)")
  case True
  then obtain n where "length (ih_trim_list h) = Suc n" by (cases "length (ih_trim_list h)") auto
  with True assms show ?thesis
    by (auto simp: remove_trim_entry_def trims_ok_def length_remove1)
next
  case False
  with assms show ?thesis by (auto simp: remove_trim_entry_def trims_ok_def)
qed

text \<open>Erasing a piece and freeing it.\<close>

lemma erase_piece:
  assumes "index_ok h xs" "b \<in> set xs" "trims_ok T h"
  shows "\<exists>t h1. rb_erase b (ih_tree h) = Some t \<and>
     remove_trim_entry b (h\<lparr>ih_len := ih_len h - 1, ih_tree := t\<rparr>) = Some h1 \<and>
     index_ok (free_piece b h1) (filter (\<lambda>x. x \<noteq> b) xs) \<and> trims_ok (T - {b}) (free_piece b h1) \<and>
     ih_pieces (free_piece b h1) = (ih_pieces h)(b := None) \<and> ih_o (free_piece b h1) = ih_o h"
proof -
  note i = index_okD [OF assms(1)]
  have rm: "remove1 b xs = filter (\<lambda>x. x \<noteq> b) xs"
    using i(2) by (simp add: distinct_remove1_removeAll removeAll_filter_not_eq) (metis)
  from erase_ok [OF i(1) assms(2)] obtain t where t: "rb_erase b (ih_tree h) = Some t"
    "tree_ok t (filter (\<lambda>x. x \<noteq> b) xs)" unfolding rm by blast
  let ?h = "h\<lparr>ih_len := ih_len h - 1, ih_tree := t\<rparr>"
  have "trims_ok T ?h" "ih_pieces ?h b = Some (piece_at h b)"
    using assms(3) i(4) [OF assms(2)] by (simp_all add: trims_ok_def)
  from remove_trim_entry_ok [OF this] obtain h1 where h1: "remove_trim_entry b ?h = Some h1" "trims_ok (T - {b}) h1"
    "h1 = ?h\<lparr>ih_trim_list := ih_trim_list h1, ih_trim_entries := ih_trim_entries h1\<rparr>" by blast
  have flds: "ih_pieces h1 = ih_pieces h" "ih_tree h1 = t" "ih_list h1 = []" "ih_len h1 = ih_len h - 1" "ih_o h1 = ih_o h"
    by (subst h1(3); simp add: i(6))+
  have "length xs = Suc (length (filter (\<lambda>x. x \<noteq> b) xs))"
    using assms(2) length_pos_if_in_set [OF assms(2)] unfolding rm [symmetric] by (simp add: length_remove1)
  then have len: "ih_len h - 1 = of_nat (length (filter (\<lambda>x. x \<noteq> b) xs))" using i(7) by simp
  have m: "map (\<lambda>a. place_of (piece_at (free_piece b h1) a)) (filter (\<lambda>x. x \<noteq> b) xs) =
      map (\<lambda>a. place_of (piece_at h a)) (filter (\<lambda>x. x \<noteq> b) xs)"
    by (rule map_cong) (auto simp: piece_at_def free_piece_def flds)
  have "sorted_wrt (<) (map (\<lambda>a. place_of (piece_at (free_piece b h1) a)) (filter (\<lambda>x. x \<noteq> b) xs))"
    using i(8) unfolding m unfolding sorted_wrt_map by (rule sorted_wrt_filter)
  then have "index_ok (free_piece b h1) (filter (\<lambda>x. x \<noteq> b) xs)"
    using tree_ok_other [OF t(2), of b None] i(4,5) len
    unfolding index_ok_def by (intro conjI) (auto simp: free_piece_def flds)
  moreover have "trims_ok (T - {b}) (free_piece b h1)" using h1(2) by (simp add: trims_ok_def free_piece_def)
  ultimately show ?thesis using t(1) h1(1) by (auto simp: free_piece_def flds)
qed

lemma insert_place:
  assumes "index_ok h xs" "a \<notin> set xs" "\<forall>x\<in>set xs. place_of (piece_at h x) \<noteq> place_of ipo" "\<not> ip_onlist ipo"
  shows "\<exists>h' xs'. hist_insert a ipo h = Some h' \<and> index_ok h' xs' \<and> set xs' = insert a (set xs) \<and>
     h' = h\<lparr>ih_pieces := (ih_pieces h)(a \<mapsto> ipo\<lparr>ip_onrb := True\<rparr>), ih_tree := ih_tree h', ih_len := ih_len h'\<rparr>"
proof -
  note i = index_okD [OF assms(1)]
  from i(1) obtain t where t: "represents (ih_tree h) [] t" "rb_ok t" "inorder t = xs" by (auto simp: tree_ok_def)
  have root: "rb_root (ih_tree h) = root t" using t(1) by (simp add: represents_def)
  have "\<forall>a\<in>set (inorder t). \<exists>q. ih_pieces h a = Some q" using i(4) t(3) by blast
  from search_ok [OF t(1) this, of "ip_file ipo" "ip_offset ipo" Left_side] i(8) t(3) assms(3) root
  obtain gs e where g: "t = plug gs Leaf"
    "hist_search h (ip_file ipo) (ip_offset ipo) None Left_side (rb_root (ih_tree h)) = Some (Place (top gs) e)"
    "if gs = [] then e = Left_side else fst (hd gs) = e"
    "\<forall>x\<in>set (before gs). place_of (piece_at h x) < place_of ipo"
    "\<forall>x\<in>set (after gs). place_of ipo < place_of (piece_at h x)" by auto
  have xs: "xs = before gs @ after gs" using t(3) g(1) by (simp add: inorder_plug)
  let ?new = "\<lparr>rb_parent = Some a, rb_color = RB_RED, rb_left = None, rb_right = None\<rparr>"
  let ?t = "(ih_tree h)\<lparr>rb_mem := (rb_mem (ih_tree h))(a \<mapsto> ?new)\<rparr>"
  have rep: "represents ?t gs Leaf"
  proof -
    have "represents (ih_tree h) gs Leaf" using t(1) g(1) represents_plug by simp
    then show ?thesis using assms(2) xs set_before_after [of gs] by (auto simp: represents_def)
  qed
  have "a \<notin> nodes gs" using assms(2) xs set_before_after [of gs] by auto
  from insert_ok [OF rep _ this, of ?new e] t(2) g(1,3) obtain t' where
    t': "rb_link_node a (top gs) e ?t \<bind> rb_insert_color a = Some t'" "tree_ok t' (before gs @ a # after gs)"
    by (auto split: if_splits)
  let ?h' = "set_piece a (ipo\<lparr>ip_onrb := True\<rparr>) (h\<lparr>ih_tree := t', ih_len := ih_len h + 1\<rparr>)"
  have "hist_insert a ipo h = Some ?h'"
    using g(2) t'(1) by (subst hist_insert.simps) (auto split: Option.bind_splits)
  moreover have "index_ok ?h' (before gs @ a # after gs)"
  proof -
    have pa: "piece_at ?h' x = (if x = a then ipo\<lparr>ip_onrb := True\<rparr> else piece_at h x)" for x
      by (simp add: piece_at_def set_piece_def)
    have na: "a \<notin> set (before gs)" "a \<notin> set (after gs)" using assms(2) xs by auto
    have m: "map (\<lambda>x. place_of (piece_at ?h' x)) ys = map (\<lambda>x. place_of (piece_at h x)) ys" if "a \<notin> set ys" for ys
      using that by (intro map_cong) (auto simp: pa)
    have "sorted_wrt (<) (map (\<lambda>x. place_of (piece_at ?h' x)) (before gs @ a # after gs))"
      using i(8) g(4,5) unfolding map_append list.map m [OF na(1)] m [OF na(2)] xs
      by (auto simp add: sorted_wrt_append pa simp del: less_prod_simp intro: less_trans)
    then show ?thesis
      using t'(2) i(4,5,6,7) xs assms(4) unfolding index_ok_def
      by (auto simp: set_piece_def)
  qed
  ultimately show ?thesis
    by (intro exI [of _ ?h'] exI [of _ "before gs @ a # after gs"]) (simp add: set_piece_def xs)
qed


lemma hist_insert_ok:
  assumes "index_ok h xs" "a \<notin> set xs" "trims_ok (insert a (set xs)) h" "\<not> ip_onlist ipo"
  shows "\<exists>h' xs'. hist_insert a ipo h = Some h' \<and> index_ok h' xs' \<and> trims_ok (set xs') h' \<and>
     set xs' = insert a {x \<in> set xs. place_of (piece_at h x) \<noteq> place_of ipo} \<and> ih_o h' = ih_o h \<and>
     (\<forall>x. ih_pieces h' x = (if x = a then Some (ipo\<lparr>ip_onrb := True\<rparr>)
        else if x \<in> set xs \<and> place_of (piece_at h x) = place_of ipo then None else ih_pieces h x))"
proof (cases "\<exists>b\<in>set xs. place_of (piece_at h b) = place_of ipo")
  case False
  from insert_place [OF assms(1,2) _ assms(4)] False obtain h' xs' where h': "hist_insert a ipo h = Some h'"
    "index_ok h' xs'" "set xs' = insert a (set xs)"
    "h' = h\<lparr>ih_pieces := (ih_pieces h)(a \<mapsto> ipo\<lparr>ip_onrb := True\<rparr>), ih_tree := ih_tree h', ih_len := ih_len h'\<rparr>" by auto
  have "trims_ok (set xs') h'" "ih_o h' = ih_o h" "ih_pieces h' = (ih_pieces h)(a \<mapsto> ipo\<lparr>ip_onrb := True\<rparr>)"
    using assms(3) h'(3) by (subst h'(4); simp add: trims_ok_def)+
  with h'(1-3) False show ?thesis by (intro exI [of _ h'] exI [of _ xs']) auto
next
  case True
  then obtain b where b: "b \<in> set xs" "place_of (piece_at h b) = place_of ipo" by blast
  note i = index_okD [OF assms(1)]
  from i(1) obtain t0 where t0: "represents (ih_tree h) [] t0" "inorder t0 = xs" by (auto simp: tree_ok_def)
  have root: "rb_root (ih_tree h) = root t0" using t0(1) by (simp add: represents_def)
  have found: "hist_search h (ip_file ipo) (ip_offset ipo) None Left_side (rb_root (ih_tree h)) = Some (Overlap b)"
  proof -
    have "\<forall>a\<in>set (inorder t0). \<exists>q. ih_pieces h a = Some q" using i(4) t0(2) by blast
    from search_ok [OF t0(1) this, of "ip_file ipo" "ip_offset ipo" Left_side] i(8) t0(2) root consider
      (hit) x where "x \<in> set xs" "place_of (piece_at h x) = place_of ipo"
        "hist_search h (ip_file ipo) (ip_offset ipo) None Left_side (rb_root (ih_tree h)) = Some (Overlap x)"
    | (miss) gs where "t0 = plug gs Leaf" "\<forall>x\<in>set (before gs). place_of (piece_at h x) < place_of ipo"
        "\<forall>x\<in>set (after gs). place_of ipo < place_of (piece_at h x)"
      by auto
    then show ?thesis
    proof cases
      case hit
      then show ?thesis using place_inj [OF assms(1) hit(1) b(1)] b(2) by simp
    next
      case miss
      then have "b \<in> set (before gs) \<union> set (after gs)" using b(1) t0(2) by (auto simp: inorder_plug)
      with miss(2,3) b(2) have "place_of ipo < place_of ipo" by (metis Un_iff)
      then show ?thesis by (simp del: less_prod_simp)
    qed
  qed
  from erase_piece [OF assms(1) b(1) assms(3)] obtain t h1 where e: "rb_erase b (ih_tree h) = Some t"
    "remove_trim_entry b (h\<lparr>ih_len := ih_len h - 1, ih_tree := t\<rparr>) = Some h1"
    "index_ok (free_piece b h1) (filter (\<lambda>x. x \<noteq> b) xs)" "trims_ok (insert a (set xs) - {b}) (free_piece b h1)"
    "ih_pieces (free_piece b h1) = (ih_pieces h)(b := None)" "ih_o (free_piece b h1) = ih_o h" by blast
  let ?h = "free_piece b h1"
  have step: "hist_insert a ipo h = hist_insert a ipo ?h"
    using found e(1,2) by (subst hist_insert.simps) simp
  have at: "piece_at ?h x = piece_at h x" if "x \<noteq> b" for x using that by (simp add: piece_at_def e(5))
  have no: "\<forall>x\<in>set (filter (\<lambda>x. x \<noteq> b) xs). place_of (piece_at ?h x) \<noteq> place_of ipo"
  proof
    fix x assume x: "x \<in> set (filter (\<lambda>x. x \<noteq> b) xs)"
    then have "place_of (piece_at h x) \<noteq> place_of ipo" using place_inj [OF assms(1) _ b(1), of x] b(2) by auto
    with x at show "place_of (piece_at ?h x) \<noteq> place_of ipo" by simp
  qed
  have "a \<notin> set (filter (\<lambda>x. x \<noteq> b) xs)" using assms(2) by simp
  from insert_place [OF e(3) this no assms(4)] obtain h' xs' where h': "hist_insert a ipo ?h = Some h'"
    "index_ok h' xs'" "set xs' = insert a (set (filter (\<lambda>x. x \<noteq> b) xs))"
    "h' = ?h\<lparr>ih_pieces := (ih_pieces ?h)(a \<mapsto> ipo\<lparr>ip_onrb := True\<rparr>), ih_tree := ih_tree h', ih_len := ih_len h'\<rparr>" by blast
  have ab: "a \<noteq> b" using assms(2) b(1) by blast
  have h'_flds: "ih_trim_list h' = ih_trim_list ?h" "ih_trim_entries h' = ih_trim_entries ?h" "ih_o h' = ih_o ?h"
    "ih_pieces h' = (ih_pieces ?h)(a \<mapsto> ipo\<lparr>ip_onrb := True\<rparr>)"
    by (subst h'(4); simp)+
  have same: "x \<in> set xs \<and> place_of (piece_at h x) = place_of ipo \<longleftrightarrow> x = b" for x
    using place_inj [OF assms(1) _ b(1), of x] b by auto
  have "set xs' = insert a {x \<in> set xs. place_of (piece_at h x) \<noteq> place_of ipo}" using h'(3) same by auto
  moreover have "trims_ok (set xs') h'"
    using e(4) h'(3) ab by (auto simp: trims_ok_def h'_flds)
  moreover have "\<forall>x. ih_pieces h' x = (if x = a then Some (ipo\<lparr>ip_onrb := True\<rparr>)
        else if x \<in> set xs \<and> place_of (piece_at h x) = place_of ipo then None else ih_pieces h x)"
    unfolding same h'_flds(4) e(5) by simp
  ultimately show ?thesis using step h'(1,2) h'_flds(3) e(6) by (intro exI [of _ h'] exI [of _ xs']) simp
qed

text \<open>The piece that logging makes of a unit.\<close>

definition logged :: "hist_io_u \<Rightarrow> nat \<Rightarrow> io_piece" where
  "logged u f = \<lparr>ip_file = f, ip_offset = hu_offset u, ip_numberio = hu_numberio u, ip_len = hu_buflen u,
     ip_onrb = True, ip_onlist = False, ip_trimmed = False, ip_in_flight = True\<rparr>"

lemma should_trim_frame:
  "io_u_should_trim h = (h', b) \<Longrightarrow> h' = h\<lparr>ih_trim_state := ih_trim_state h', ih_os_calls := ih_os_calls h'\<rparr>"
  by (auto simp: io_u_should_trim_def Let_def split: if_splits prod.splits)

lemma log_ok:
  assumes "hist_ok h xs" "\<not> in_write_order (ih_o h) f" "hu_file u = Some f" "ih_pieces h a = None"
  shows "\<exists>h' xs'. log_io_piece (Some a) u h = Some (u\<lparr>hu_ipo := Some a\<rparr>, h') \<and> hist_ok h' xs' \<and>
     set xs' = insert a {x \<in> set xs. place_of (piece_at h x) \<noteq> (f, hu_offset u)} \<and> ih_o h' = ih_o h \<and>
     (\<forall>x. ih_pieces h' x = (if x = a then Some (logged u f)
        else if x \<in> set xs \<and> place_of (piece_at h x) = (f, hu_offset u) then None else ih_pieces h x))"
proof -
  have ix: "index_ok h xs" and tr: "trims_ok (set xs) h" using assms(1) by (simp_all add: hist_ok_def)
  note i = index_okD [OF ix]
  have a: "a \<notin> set xs" using i(4) assms(4) by fastforce
  let ?ipo = "(logged u f)\<lparr>ip_onrb := False\<rparr>"
  let ?h0 = "set_piece a ?ipo h"
  obtain h1 b where h1: "io_u_should_trim ?h0 = (h1, b)" by fastforce
  define h2 where "h2 = (if b then h1\<lparr>ih_trim_list := ih_trim_list h1 @ [a], ih_trim_entries := ih_trim_entries h1 + 1\<rparr> else h1)"
  have f1: "ih_pieces h1 = (ih_pieces h)(a \<mapsto> ?ipo)" "ih_tree h1 = ih_tree h" "ih_list h1 = ih_list h" "ih_len h1 = ih_len h"
    "ih_o h1 = ih_o h" "ih_trim_list h1 = ih_trim_list h" "ih_trim_entries h1 = ih_trim_entries h"
    by (subst should_trim_frame [OF h1]; simp add: set_piece_def)+
  have f2: "ih_pieces h2 = (ih_pieces h)(a \<mapsto> ?ipo)" "ih_tree h2 = ih_tree h" "ih_list h2 = ih_list h" "ih_len h2 = ih_len h"
    "ih_o h2 = ih_o h" by (simp_all add: h2_def f1)
  have at: "piece_at h2 x = piece_at h x" if "x \<in> set xs" for x using that a by (auto simp: piece_at_def f2)
  have "index_ok h2 xs"
  proof -
    have m: "map (\<lambda>a. place_of (piece_at h2 a)) xs = map (\<lambda>a. place_of (piece_at h a)) xs" using at by simp
    have "sorted_wrt (<) (map (\<lambda>a. place_of (piece_at h2 a)) xs)" unfolding m by (rule i(8))
    then show ?thesis using i a unfolding index_ok_def by (auto simp: f2)
  qed
  moreover have "trims_ok (insert a (set xs)) h2"
    using tr a by (auto simp: trims_ok_def h2_def f1)
  ultimately obtain h' xs' where h': "hist_insert a ?ipo h2 = Some h'" "index_ok h' xs'" "trims_ok (set xs') h'"
    "set xs' = insert a {x \<in> set xs. place_of (piece_at h2 x) \<noteq> place_of ?ipo}" "ih_o h' = ih_o h2"
    "\<forall>x. ih_pieces h' x = (if x = a then Some (?ipo\<lparr>ip_onrb := True\<rparr>)
        else if x \<in> set xs \<and> place_of (piece_at h2 x) = place_of ?ipo then None else ih_pieces h2 x)"
    using hist_insert_ok [of h2 xs a ?ipo] a by (auto simp: logged_def)
  have pl: "place_of ?ipo = (f, hu_offset u)" "?ipo\<lparr>ip_onrb := True\<rparr> = logged u f" by (simp_all add: logged_def)
  have new: "\<lparr>ip_file = f, ip_offset = hu_offset u, ip_numberio = hu_numberio u, ip_len = hu_buflen u,
     ip_onrb = False, ip_onlist = False, ip_trimmed = False, ip_in_flight = True\<rparr> = ?ipo" by (simp add: logged_def)
  have "log_io_piece (Some a) u h = Some (u\<lparr>hu_ipo := Some a\<rparr>, h')"
    using assms(2,3) h1 h'(1) f2(5) by (simp add: log_io_piece_def new h2_def [symmetric])
  moreover have "{x \<in> set xs. place_of (piece_at h2 x) \<noteq> place_of ?ipo} = {x \<in> set xs. place_of (piece_at h x) \<noteq> (f, hu_offset u)}"
    unfolding pl using at by auto
  moreover have "ih_pieces h' x = (if x = a then Some (logged u f)
        else if x \<in> set xs \<and> place_of (piece_at h x) = (f, hu_offset u) then None else ih_pieces h x)" for x
  proof (cases "x \<in> set xs")
    case True
    then show ?thesis using h'(6) [rule_format, of x] unfolding pl at [OF True] f2(1) by simp
  next
    case False
    then show ?thesis using h'(6) [rule_format, of x] unfolding pl f2(1) by simp
  qed
  ultimately show ?thesis using h'(2-5) f2(5) by (intro exI [of _ h'] exI [of _ xs']) (simp add: hist_ok_def)
qed


lemma log_map:
  assumes "hist_ok h xs" "hist_ok h' xs'" "ih_pieces h a = None"
    "set xs' = insert a {x \<in> set xs. place_of (piece_at h x) \<noteq> (f, hu_offset u)}"
    "\<forall>x. ih_pieces h' x = (if x = a then Some (logged u f)
        else if x \<in> set xs \<and> place_of (piece_at h x) = (f, hu_offset u) then None else ih_pieces h x)"
  shows "hist_map h' xs' = (hist_map h xs)((f, hu_offset u) \<mapsto> (hu_buflen u, hu_numberio u))"
proof (rule ext, rule option_eqI)
  fix k v
  have ix: "index_ok h xs" "index_ok h' xs'" using assms(1,2) by (simp_all add: hist_ok_def)
  have a: "a \<notin> set xs" using index_okD(4) [OF ix(1)] assms(3) by fastforce
  have new: "place_of (piece_at h' a) = (f, hu_offset u)" "said (piece_at h' a) = (hu_buflen u, hu_numberio u)"
    by (simp_all add: piece_at_def assms(5) logged_def said_def)
  have old: "piece_at h' x = piece_at h x" if "x \<in> set xs" "place_of (piece_at h x) \<noteq> (f, hu_offset u)" for x
    using that a unfolding piece_at_def assms(5) [rule_format] by auto
  have "hist_map h' xs' k = Some v \<longleftrightarrow>
      (place_of (piece_at h' a) = k \<and> said (piece_at h' a) = v) \<or>
      (\<exists>x\<in>set xs. place_of (piece_at h x) \<noteq> (f, hu_offset u) \<and> place_of (piece_at h' x) = k \<and> said (piece_at h' x) = v)"
    unfolding hist_map_eq [OF ix(2)] assms(4) by blast
  also have "\<dots> \<longleftrightarrow> ((f, hu_offset u) = k \<and> (hu_buflen u, hu_numberio u) = v) \<or>
      (\<exists>x\<in>set xs. place_of (piece_at h x) \<noteq> (f, hu_offset u) \<and> place_of (piece_at h x) = k \<and> said (piece_at h x) = v)"
  proof -
    have "(\<exists>x\<in>set xs. place_of (piece_at h x) \<noteq> (f, hu_offset u) \<and> place_of (piece_at h' x) = k \<and> said (piece_at h' x) = v) \<longleftrightarrow>
      (\<exists>x\<in>set xs. place_of (piece_at h x) \<noteq> (f, hu_offset u) \<and> place_of (piece_at h x) = k \<and> said (piece_at h x) = v)"
      by (intro bex_cong refl conj_cong) (simp_all only: old not_False_eq_True)
    then show ?thesis unfolding new by (simp only:)
  qed
  also have "\<dots> \<longleftrightarrow> ((hist_map h xs)((f, hu_offset u) \<mapsto> (hu_buflen u, hu_numberio u))) k = Some v"
    using hist_map_eq [OF ix(1), of k v] by auto
  finally show "hist_map h' xs' k = Some v \<longleftrightarrow> ((hist_map h xs)((f, hu_offset u) \<mapsto> (hu_buflen u, hu_numberio u))) k = Some v" .
qed

section \<open>Writes one after the other\<close>

text \<open>A write is logged, issued and completed before the next; \<open>malloc\<close> answers an address that holds no piece.\<close>

fun sync_writes :: "(nat \<times> hist_io_u) list \<Rightarrow> hist \<Rightarrow> hist option" where
  "sync_writes [] h = Some h"
| "sync_writes ((a, u) # ws) h = do {
     (u, h) \<leftarrow> log_io_piece (Some a) u h;
     h \<leftarrow> mark_completed u h;
     sync_writes ws h }"

fun fresh_writes :: "(nat \<times> hist_io_u) list \<Rightarrow> hist \<Rightarrow> bool" where
  "fresh_writes [] h \<longleftrightarrow> True"
| "fresh_writes ((a, u) # ws) h \<longleftrightarrow> ih_pieces h a = None \<and>
     (case sync_writes [(a, u)] h of None \<Rightarrow> True | Some h \<Rightarrow> fresh_writes ws h)"

definition write_of :: "nat \<times> hist_io_u \<Rightarrow> (nat \<times> u64) \<times> (u64 \<times> u16)" where
  "write_of w = ((the (hu_file (snd w)), hu_offset (snd w)), (hu_buflen (snd w), hu_numberio (snd w)))"

definition completed :: "hist \<Rightarrow> nat list \<Rightarrow> bool" where
  "completed h xs \<longleftrightarrow> (\<forall>x\<in>set xs. \<not> ip_in_flight (piece_at h x))"

lemma mark_ok:
  assumes "hist_ok h xs" "hu_ipo u = Some a" "a \<in> set xs"
  shows "\<exists>h'. mark_completed u h = Some h' \<and> hist_ok h' xs \<and> hist_map h' xs = hist_map h xs \<and> ih_o h' = ih_o h \<and>
     \<not> ip_in_flight (piece_at h' a) \<and> (\<forall>x. x \<noteq> a \<longrightarrow> piece_at h' x = piece_at h x)"
proof -
  have ix: "index_ok h xs" and tr: "trims_ok (set xs) h" using assms(1) by (simp_all add: hist_ok_def)
  note i = index_okD [OF ix]
  let ?q = "(piece_at h a)\<lparr>ip_in_flight := False\<rparr>"
  let ?h = "set_piece a ?q h"
  have at: "piece_at ?h x = (if x = a then ?q else piece_at h x)" for x by (simp add: piece_at_def set_piece_def)
  then have m: "map (\<lambda>x. place_of (piece_at ?h x)) xs = map (\<lambda>x. place_of (piece_at h x)) xs"
    "map (\<lambda>x. (place_of (piece_at ?h x), said (piece_at ?h x))) xs = map (\<lambda>x. (place_of (piece_at h x), said (piece_at h x))) xs"
    by (simp_all add: said_def)
  have "sorted_wrt (<) (map (\<lambda>x. place_of (piece_at ?h x)) xs)" unfolding m by (rule i(8))
  then have "index_ok ?h xs" using i assms(3) unfolding index_ok_def by (auto simp: set_piece_def)
  moreover have "trims_ok (set xs) ?h" using tr by (simp add: trims_ok_def set_piece_def)
  moreover have "mark_completed u h = Some ?h" using assms(2) i(4) [OF assms(3)] by (simp add: mark_completed_def)
  moreover have "hist_map ?h xs = hist_map h xs" unfolding hist_map_def m ..
  ultimately show ?thesis using at by (intro exI [of _ ?h]) (simp add: hist_ok_def set_piece_def)
qed

lemma sync_write_ok:
  assumes "hist_ok h xs" "completed h xs" "\<not> in_write_order (ih_o h) f" "hu_file u = Some f" "ih_pieces h a = None"
  shows "\<exists>h' xs'. sync_writes [(a, u)] h = Some h' \<and> hist_ok h' xs' \<and> completed h' xs' \<and> ih_o h' = ih_o h \<and>
     length xs' \<le> Suc (length xs) \<and> hist_map h' xs' = (hist_map h xs)((f, hu_offset u) \<mapsto> (hu_buflen u, hu_numberio u))"
proof -
  from log_ok [OF assms(1,3,4,5)] obtain h1 xs' where h1: "log_io_piece (Some a) u h = Some (u\<lparr>hu_ipo := Some a\<rparr>, h1)"
    "hist_ok h1 xs'" "set xs' = insert a {x \<in> set xs. place_of (piece_at h x) \<noteq> (f, hu_offset u)}" "ih_o h1 = ih_o h"
    "\<forall>x. ih_pieces h1 x = (if x = a then Some (logged u f)
        else if x \<in> set xs \<and> place_of (piece_at h x) = (f, hu_offset u) then None else ih_pieces h x)" by blast
  have "a \<in> set xs'" using h1(3) by simp
  from mark_ok [OF h1(2) _ this, of "u\<lparr>hu_ipo := Some a\<rparr>"] obtain h' where h':
    "mark_completed (u\<lparr>hu_ipo := Some a\<rparr>) h1 = Some h'" "hist_ok h' xs'" "hist_map h' xs' = hist_map h1 xs'"
    "ih_o h' = ih_o h1" "\<not> ip_in_flight (piece_at h' a)" "\<forall>x. x \<noteq> a \<longrightarrow> piece_at h' x = piece_at h1 x" by auto
  have "completed h' xs'"
    unfolding completed_def
  proof
    fix x assume x: "x \<in> set xs'"
    show "\<not> ip_in_flight (piece_at h' x)"
    proof (cases "x = a")
      case False
      then have "piece_at h' x = piece_at h x" "x \<in> set xs"
        using x h1(3) h'(6) h1(5) [rule_format, of x] by (auto simp: piece_at_def)
      then show ?thesis using assms(2) by (simp add: completed_def)
    qed (use h'(5) in simp)
  qed
  moreover have "length xs' \<le> Suc (length xs)"
  proof -
    have "length xs' = card (set xs')" using h1(2) index_okD(2) by (metis distinct_card hist_ok_def)
    also have "\<dots> \<le> card (insert a (set xs))" unfolding h1(3) by (intro card_mono) auto
    also have "\<dots> \<le> Suc (length xs)" using card_length [of xs] by (simp add: card_insert_if)
    finally show ?thesis .
  qed
  moreover have "hist_map h1 xs' = (hist_map h xs)((f, hu_offset u) \<mapsto> (hu_buflen u, hu_numberio u))"
    by (rule log_map [OF assms(1) h1(2) assms(5) h1(3,5)])
  ultimately show ?thesis using h1(1,4) h'(1-4) by (intro exI [of _ h'] exI [of _ xs']) simp
qed

lemma sync_writes_ok:
  assumes "hist_ok h xs" "completed h xs" "fresh_writes ws h"
    "\<forall>w\<in>set ws. \<exists>f. hu_file (snd w) = Some f \<and> \<not> in_write_order (ih_o h) f"
  shows "\<exists>h' xs'. sync_writes ws h = Some h' \<and> hist_ok h' xs' \<and> completed h' xs' \<and>
     length xs' \<le> length xs + length ws \<and> hist_map h' xs' = hist_map h xs ++ map_of (rev (map write_of ws))"
  using assms
proof (induction ws arbitrary: h xs)
  case Nil
  then show ?case by auto
next
  case (Cons w ws)
  obtain a u where w: "w = (a, u)" by (cases w)
  obtain f where f: "hu_file u = Some f" "\<not> in_write_order (ih_o h) f" using Cons.prems(4) w by auto
  have "ih_pieces h a = None" using Cons.prems(3) w by simp
  from sync_write_ok [OF Cons.prems(1,2) f(2,1) this] obtain h1 xs1 where h1: "sync_writes [(a, u)] h = Some h1"
    "hist_ok h1 xs1" "completed h1 xs1" "ih_o h1 = ih_o h" "length xs1 \<le> Suc (length xs)"
    "hist_map h1 xs1 = (hist_map h xs)((f, hu_offset u) \<mapsto> (hu_buflen u, hu_numberio u))" by blast
  have "fresh_writes ws h1" using Cons.prems(3) w h1(1) by simp
  from Cons.IH [OF h1(2,3) this] Cons.prems(4) h1(4) obtain h' xs' where h': "sync_writes ws h1 = Some h'" "hist_ok h' xs'"
    "completed h' xs'" "length xs' \<le> length xs1 + length ws" "hist_map h' xs' = hist_map h1 xs1 ++ map_of (rev (map write_of ws))"
    by auto
  have "sync_writes (w # ws) h = sync_writes ws h1"
    using h1(1) by (auto simp: w split: Option.bind_splits prod.splits)
  moreover have "hist_map h' xs' = hist_map h xs ++ map_of (rev (map write_of (w # ws)))"
    using f(1) by (auto simp: h'(5) h1(6) w write_of_def map_add_def split: option.splits)
  ultimately show ?case using h' h1(5) by (intro exI [of _ h'] exI [of _ xs']) simp
qed


section \<open>Reading back\<close>

lemma free_set [simp]: "free_piece a (set_piece a q h) = free_piece a h"
  by (simp add: free_piece_def set_piece_def)

lemma remove_trim_set:
  "remove_trim_entry a h = Some h1 \<Longrightarrow> remove_trim_entry a (set_piece a q h) = Some (set_piece a q h1)"
  by (auto simp: remove_trim_entry_def set_piece_def split: Option.bind_splits)

lemma seed_frame:
  assumes "verify_seed u h = (u', h')"
  shows "h' = h\<lparr>ih_verify_state := ih_verify_state h'\<rparr>" "u' = u\<lparr>hu_rand_seed := hu_rand_seed u'\<rparr>"
  using assms by (auto simp: verify_seed_def split: if_splits prod.splits)

lemma get_next_empty:
  assumes "hist_ok h []" "hu_file u = None"
  shows "get_next_verify opened u h = Some (u, h, False)"
proof -
  have "index_ok h []" using assms(1) by (simp add: hist_ok_def)
  then have "ih_list h = []" "rb_root (ih_tree h) = None"
    using index_okD [of h "[]"] by (auto simp: tree_ok_def represents_def) (metis inorder.elims list.distinct(1) root.simps(1) append_is_Nil_conv)
  then show ?thesis using assms(2) by (simp add: get_next_verify_def take_verify_def)
qed

lemma first_piece:
  assumes "index_ok h (a # as)"
  shows "rb_root (ih_tree h) \<noteq> None" "rb_first (ih_tree h) = Some (Some a)"
proof -
  have t: "tree_ok (ih_tree h) (a # as)" using index_okD [OF assms] by simp
  then show f: "rb_first (ih_tree h) = Some (Some a)" using first_ok [OF t] by simp
  show "rb_root (ih_tree h) \<noteq> None" using f by (auto simp: rb_first_def split: if_splits)
qed

lemma get_next_in_flight:
  assumes "hist_ok h (a # as)" "hu_file u = None" "ip_in_flight (piece_at h a)"
  shows "get_next_verify opened u h = Some (u, h, False)"
proof -
  have ix: "index_ok h (a # as)" using assms(1) by (simp add: hist_ok_def)
  show ?thesis
    using first_piece [OF ix] index_okD(4) [OF ix, of a] assms(2,3)
    by (simp add: get_next_verify_def take_verify_def)
qed

lemma get_next_ok:
  assumes "hist_ok h (a # as)" "hu_file u = None" "\<not> ip_in_flight (piece_at h a)"
  shows "\<exists>u' h'. get_next_verify True u h = Some (u', h', True) \<and> hist_ok h' as \<and>
     hu_file u' = Some (ip_file (piece_at h a)) \<and> hu_offset u' = ip_offset (piece_at h a) \<and>
     hu_buflen u' = ip_len (piece_at h a) \<and> hu_numberio u' = ip_numberio (piece_at h a) \<and> hu_ddir u' = Ddir_read \<and>
     (\<forall>x\<in>set as. piece_at h' x = piece_at h x) \<and> ih_pieces h' a = None"
proof -
  have ix: "index_ok h (a # as)" and tr: "trims_ok (set (a # as)) h" using assms(1) by (simp_all add: hist_ok_def)
  note i = index_okD [OF ix]
  have fil: "filter (\<lambda>x. x \<noteq> a) (a # as) = as" using i(2) by (auto intro: filter_True)
  from erase_piece [OF ix _ tr, of a] obtain t h1 where e: "rb_erase a (ih_tree h) = Some t"
    "remove_trim_entry a (h\<lparr>ih_len := ih_len h - 1, ih_tree := t\<rparr>) = Some h1"
    "index_ok (free_piece a h1) as" "trims_ok (set as) (free_piece a h1)"
    "ih_pieces (free_piece a h1) = (ih_pieces h)(a := None)" unfolding fil using i(2) by (auto simp: insert_Diff_if)
  let ?q = "(piece_at h a)\<lparr>ip_onrb := False\<rparr>"
  let ?u = "u\<lparr>hu_offset := ip_offset ?q, hu_buflen := ip_len ?q, hu_numberio := ip_numberio ?q,
     hu_file := Some (ip_file ?q), hu_ver_list := True, hu_trimmed := hu_trimmed u \<or> ip_trimmed ?q,
     hu_ddir := Ddir_read, hu_xfer_buflen := ip_len ?q\<rparr>"
  obtain u' h' where s: "verify_seed ?u (free_piece a h1) = (u', h')" by fastforce
  note fr = seed_frame [OF s]
  have tk: "take_verify h = Some (set_piece a ?q (h\<lparr>ih_tree := t\<rparr>), Some (a, ?q))"
    using first_piece [OF ix] i(4) [of a] i(5) [of a] assms(3) e(1) by (simp add: take_verify_def Let_def)
  have "(set_piece a ?q (h\<lparr>ih_tree := t\<rparr>))\<lparr>ih_len := ih_len h - 1\<rparr> =
      set_piece a ?q (h\<lparr>ih_len := ih_len h - 1, ih_tree := t\<rparr>)" by (simp add: set_piece_def)
  then have rt: "remove_trim_entry a ((set_piece a ?q (h\<lparr>ih_tree := t\<rparr>))\<lparr>ih_len := ih_len h - 1\<rparr>) = Some (set_piece a ?q h1)"
    using remove_trim_set [OF e(2), of ?q] by simp
  have len: "ih_len (set_piece a ?q (h\<lparr>ih_tree := t\<rparr>)) = ih_len h" by (simp add: set_piece_def)
  have "get_next_verify True u h = Some (u', h', True)"
    using assms(2) tk rt s by (simp add: get_next_verify_def len Let_def)
  moreover have "hist_ok h' as"
  proof -
    have "ih_tree h' = ih_tree (free_piece a h1)" "ih_pieces h' = ih_pieces (free_piece a h1)"
      "ih_list h' = ih_list (free_piece a h1)" "ih_len h' = ih_len (free_piece a h1)"
      "ih_trim_list h' = ih_trim_list (free_piece a h1)" "ih_trim_entries h' = ih_trim_entries (free_piece a h1)"
      by (subst fr(1); simp)+
    then show ?thesis using e(3,4) unfolding hist_ok_def index_ok_def trims_ok_def piece_at_def by presburger
  qed
  moreover have "ih_pieces h' = (ih_pieces h)(a := None)" by (subst fr(1)) (simp add: e(5))
  moreover have "\<forall>x\<in>set as. x \<noteq> a" using i(2) by auto
  moreover have "hu_file u' = Some (ip_file (piece_at h a))" "hu_offset u' = ip_offset (piece_at h a)"
     "hu_buflen u' = ip_len (piece_at h a)" "hu_numberio u' = ip_numberio (piece_at h a)" "hu_ddir u' = Ddir_read"
    by (subst fr(2); simp)+
  ultimately show ?thesis by (simp add: piece_at_def)
qed


text \<open>Fresh units are filled until none is ready; the bound is a number of turns.\<close>

fun verify_run :: "nat \<Rightarrow> hist_io_u \<Rightarrow> hist \<Rightarrow> (hist_io_u list \<times> hist) option" where
  "verify_run 0 u h = None"
| "verify_run (Suc n) u h = do {
     (u', h, ok) \<leftarrow> get_next_verify True u h;
     if ok then do { (us, h) \<leftarrow> verify_run n u h; Some (u' # us, h) } else Some ([], h) }"

definition read_of :: "hist_io_u \<Rightarrow> (nat \<times> u64) \<times> (u64 \<times> u16)" where
  "read_of u = write_of (0, u)"

lemma verify_run_ok:
  assumes "hist_ok h xs" "completed h xs" "length xs < n" "hu_file u = None"
  shows "\<exists>us h'. verify_run n u h = Some (us, h') \<and> hist_ok h' [] \<and>
     map read_of us = map (\<lambda>a. (place_of (piece_at h a), said (piece_at h a))) xs \<and> (\<forall>v\<in>set us. hu_ddir v = Ddir_read)"
  using assms
proof (induction xs arbitrary: h n)
  case Nil
  then show ?case using get_next_empty [of h u True] by (cases n) auto
next
  case (Cons a as)
  from Cons.prems(3) obtain m where n: "n = Suc m" "length as < m" by (cases n) auto
  have "\<not> ip_in_flight (piece_at h a)" using Cons.prems(2) by (simp add: completed_def)
  from get_next_ok [OF Cons.prems(1,4) this] obtain u' h1 where g: "get_next_verify True u h = Some (u', h1, True)"
    "hist_ok h1 as" "hu_file u' = Some (ip_file (piece_at h a))" "hu_offset u' = ip_offset (piece_at h a)"
    "hu_buflen u' = ip_len (piece_at h a)" "hu_numberio u' = ip_numberio (piece_at h a)" "hu_ddir u' = Ddir_read"
    "\<forall>x\<in>set as. piece_at h1 x = piece_at h x" by blast
  have "completed h1 as" using Cons.prems(2) g(8) by (simp add: completed_def)
  from Cons.IH [OF g(2) this n(2) Cons.prems(4)] obtain us h' where r: "verify_run m u h1 = Some (us, h')" "hist_ok h' []"
    "map read_of us = map (\<lambda>a. (place_of (piece_at h1 a), said (piece_at h1 a))) as" "\<forall>v\<in>set us. hu_ddir v = Ddir_read" by blast
  have "verify_run n u h = Some (u' # us, h')" using g(1) r(1) n(1) by simp
  moreover have "read_of u' = (place_of (piece_at h a), said (piece_at h a))"
    using g(3-6) by (simp add: read_of_def write_of_def said_def)
  ultimately show ?case using r(2-4) g(7,8) by (intro exI [of _ "u' # us"] exI [of _ h']) simp
qed

definition empty_hist :: "hist_options \<Rightarrow> frand_state \<Rightarrow> frand_state \<Rightarrow> hist" where
  "empty_hist opts st vs = \<lparr>ih_o = opts, ih_pieces = Map.empty, ih_tree = \<lparr>rb_mem = Map.empty, rb_root = None\<rparr>, ih_list = [],
     ih_trim_list = [], ih_len = 0, ih_trim_entries = 0, ih_trim_batch = 0, ih_verify_batch = 0, ih_trim_state = st,
     ih_verify_state = vs, ih_os_calls = 0\<rparr>"

lemma empty_hist_ok: "hist_ok (empty_hist opts st vs) []"
proof -
  have "tree_ok \<lparr>rb_mem = Map.empty, rb_root = None\<rparr> []"
    unfolding tree_ok_def by (rule exI [of _ Leaf]) (auto simp: represents_def rb_ok_def)
  then show ?thesis by (simp add: hist_ok_def index_ok_def trims_ok_def empty_hist_def)
qed

text \<open>C12: in the sorted history, after any sequence of writes that complete one after the other, with
  overwriting, reading the history back returns each place (file and offset) that was written exactly once,
  in increasing order, with the length and the number of the last write to it, and leaves the history empty.\<close>

theorem history_returns_last_writes:
  assumes "fresh_writes ws (empty_hist opts st vs)"
    "\<forall>w\<in>set ws. \<exists>f. hu_file (snd w) = Some f \<and> \<not> in_write_order opts f" "hu_file u = None"
  shows "\<exists>h us h'. sync_writes ws (empty_hist opts st vs) = Some h \<and>
    verify_run (Suc (length ws)) u h = Some (us, h') \<and> hist_ok h' [] \<and>
    sorted_wrt (<) (map (fst \<circ> read_of) us) \<and> map_of (map read_of us) = map_of (rev (map write_of ws)) \<and>
    (\<forall>v\<in>set us. hu_ddir v = Ddir_read)"
proof -
  have "completed (empty_hist opts st vs) []" "ih_o (empty_hist opts st vs) = opts" "hist_map (empty_hist opts st vs) [] = Map.empty"
    by (simp_all add: completed_def empty_hist_def hist_map_def)
  with sync_writes_ok [OF empty_hist_ok _ assms(1)] assms(2) obtain h xs where
    h: "sync_writes ws (empty_hist opts st vs) = Some h" "hist_ok h xs" "completed h xs" "length xs \<le> length ws"
      "hist_map h xs = map_of (rev (map write_of ws))" by auto
  from verify_run_ok [OF h(2,3) _ assms(3), of "Suc (length ws)"] h(4) obtain us h' where
    r: "verify_run (Suc (length ws)) u h = Some (us, h')" "hist_ok h' []"
      "map read_of us = map (\<lambda>a. (place_of (piece_at h a), said (piece_at h a))) xs" "\<forall>v\<in>set us. hu_ddir v = Ddir_read" by auto
  have "map (fst \<circ> read_of) us = map (\<lambda>a. place_of (piece_at h a)) xs"
    using arg_cong [OF r(3), of "map fst"] by (simp add: comp_def)
  moreover have "sorted_wrt (<) (map (\<lambda>a. place_of (piece_at h a)) xs)"
    using h(2) by (simp add: hist_ok_def index_ok_def del: less_prod_simp)
  moreover have "map_of (map read_of us) = map_of (rev (map write_of ws))" unfolding r(3) h(5) [symmetric] hist_map_def ..
  ultimately show ?thesis using h(1) r(1,2,4) by (intro exI [of _ h] exI [of _ us] exI [of _ h']) simp
qed

text \<open>A random job that overwrites its file and sorts, with two writes to one block.\<close>

definition example_hist_options :: hist_options where
  "example_hist_options = \<lparr>ho_verifysort = True, ho_random = True, ho_overwrite = True, ho_randommap = (\<lambda>_. False),
     ho_verify_none = False, ho_verify_pattern = True, ho_trim_percentage = 0, ho_trim_zero = False, ho_use_os_rand = False,
     ho_os_rand = (\<lambda>_. 0), ho_trim_backlog = 0, ho_trim_batch = 0, ho_verify_backlog = 0, ho_verify_batch = 0\<rparr>"

definition example_unit :: "nat option \<Rightarrow> u64 \<Rightarrow> u16 \<Rightarrow> hist_io_u" where
  "example_unit f off n = \<lparr>hu_file = f, hu_offset = off, hu_buflen = 512, hu_numberio = n, hu_ipo = None, hu_ver_list = False,
     hu_trimmed = False, hu_ddir = Ddir_write, hu_xfer_buflen = 512, hu_rand_seed = 0\<rparr>"

definition example_writes :: "(nat \<times> hist_io_u) list" where
  "example_writes = [(1, example_unit (Some 0) 512 1), (2, example_unit (Some 0) 0 2), (3, example_unit (Some 0) 512 3)]"

definition example_state :: frand_state where
  "example_state = \<lparr>fr_s1 = 1, fr_s2 = 1, fr_s3 = 1\<rparr>"

lemma example_fresh: "fresh_writes example_writes (empty_hist example_hist_options example_state example_state)"
  by code_simp

theorem history_returns_last_writes_witness:
  "\<exists>h us h'. sync_writes example_writes (empty_hist example_hist_options example_state example_state) = Some h \<and>
     verify_run 4 (example_unit None 0 0) h = Some (us, h') \<and>
     map_of (map read_of us) (0, 512) = Some (512, 3) \<and> map_of (map read_of us) (0, 0) = Some (512, 2)"
proof -
  have "\<forall>w\<in>set example_writes. \<exists>f. hu_file (snd w) = Some f \<and> \<not> in_write_order example_hist_options f"
    by (simp add: example_writes_def example_unit_def in_write_order_def example_hist_options_def)
  from history_returns_last_writes [OF example_fresh this, of "example_unit None 0 0"] obtain h us h' where
    "sync_writes example_writes (empty_hist example_hist_options example_state example_state) = Some h"
    "verify_run (Suc (length example_writes)) (example_unit None 0 0) h = Some (us, h')"
    "map_of (map read_of us) = map_of (rev (map write_of example_writes))"
    by (auto simp: example_unit_def)
  moreover have "Suc (length example_writes) = 4" by (simp add: example_writes_def)
  moreover have "map_of (rev (map write_of example_writes)) (0, 512) = Some (512, 3)"
    "map_of (rev (map write_of example_writes)) (0, 0) = Some (512, 2)"
    by (simp_all add: example_writes_def example_unit_def write_of_def)
  ultimately show ?thesis by auto
qed

text \<open>C19: a write that is logged to a place whose last write is still in flight frees the piece of that
  write, so that the completion of the earlier one accesses freed memory: it has no defined run.\<close>

theorem overlap_frees_piece_in_flight:
  assumes "hist_ok h xs" "b \<in> set xs" "hu_ipo v = Some b" "place_of (piece_at h b) = (f, hu_offset u)"
    "\<not> in_write_order (ih_o h) f" "hu_file u = Some f" "ih_pieces h a = None"
  shows "\<exists>u' h'. log_io_piece (Some a) u h = Some (u', h') \<and> mark_completed u' h' \<noteq> None \<and> mark_completed v h' = None"
proof -
  from log_ok [OF assms(1,5,6,7)] obtain h' where h': "log_io_piece (Some a) u h = Some (u\<lparr>hu_ipo := Some a\<rparr>, h')"
    "\<forall>x. ih_pieces h' x = (if x = a then Some (logged u f)
        else if x \<in> set xs \<and> place_of (piece_at h x) = (f, hu_offset u) then None else ih_pieces h x)" by blast
  have "index_ok h xs" using assms(1) by (simp add: hist_ok_def)
  from index_okD(4) [OF this assms(2)] have "a \<noteq> b" using assms(7) by auto
  then have "ih_pieces h' b = None" "ih_pieces h' a \<noteq> None" using assms(2,4) h'(2) by auto
  then show ?thesis using h'(1) assms(3) by (auto simp: mark_completed_def)
qed


theorem overlap_frees_piece_in_flight_witness:
  "\<exists>v h u' h'. log_io_piece (Some 1) (example_unit (Some 0) 512 1) (empty_hist example_hist_options example_state example_state) = Some (v, h) \<and>
     log_io_piece (Some 2) (example_unit (Some 0) 512 2) h = Some (u', h') \<and> mark_completed v h' = None"
proof -
  let ?u = "example_unit (Some 0) 512"
  have o: "\<not> in_write_order example_hist_options 0" "ih_o (empty_hist example_hist_options example_state example_state) = example_hist_options"
    "ih_pieces (empty_hist example_hist_options example_state example_state) = Map.empty"
    by (simp_all add: in_write_order_def example_hist_options_def empty_hist_def)
  have u: "hu_file (?u n) = Some 0" "hu_offset (?u n) = 512" for n by (simp_all add: example_unit_def)
  from log_ok [OF empty_hist_ok, of example_hist_options example_state example_state 0 "?u 1" 1] o u obtain h xs where
    h: "log_io_piece (Some 1) (?u 1) (empty_hist example_hist_options example_state example_state) = Some ((?u 1)\<lparr>hu_ipo := Some 1\<rparr>, h)"
    "hist_ok h xs" "set xs = {1}" "ih_o h = example_hist_options"
    "\<forall>x. ih_pieces h x = (if x = 1 then Some (logged (?u 1) 0) else None)"
    by auto
  have "place_of (piece_at h 1) = (0, hu_offset (?u 2))" using h(5) u by (simp add: piece_at_def logged_def)
  from overlap_frees_piece_in_flight [OF h(2) _ _ this, of "(?u 1)\<lparr>hu_ipo := Some 1\<rparr>" 2] h(3-5) o(1) u(1)
  obtain u' h' where "log_io_piece (Some 2) (?u 2) h = Some (u', h')" "mark_completed ((?u 1)\<lparr>hu_ipo := Some 1\<rparr>) h' = None"
    by auto
  with h(1) show ?thesis by blast
qed

section \<open>Trimming and pruning\<close>

text \<open>A block that is handed out to be trimmed is freed whether its write has completed or not.\<close>

lemma trim_frees_piece_in_flight:
  assumes "hist_ok h xs" "ih_trim_list h = a # as" "hu_file u = None" "\<not> ho_trim_zero (ih_o h)" "hu_ipo v = Some a"
    "length (a # as) < 2 ^ 64"
  shows "\<exists>u' h'. get_next_trim True u h = Some (u', h', True) \<and> mark_completed v h' = None"
proof -
  have ix: "index_ok h xs" and tr: "trims_ok (set xs) h" using assms(1) by (simp_all add: hist_ok_def)
  have a: "a \<in> set xs" using tr assms(2) by (simp add: trims_ok_def)
  note i = index_okD [OF ix]
  have "of_nat (length (a # as)) \<noteq> (0 :: u64)"
  proof
    assume "of_nat (length (a # as)) = (0 :: u64)"
    from arg_cong [OF this, of unat] show False using assms(6) by (simp only: unat_of_nat unat_0) simp
  qed
  then have ne: "ih_trim_entries h \<noteq> 0" using tr assms(2) by (simp add: trims_ok_def)
  from remove_trim_entry_ok [OF tr i(4) [OF a]] obtain h1 where h1: "remove_trim_entry a h = Some h1"
    "h1 = h\<lparr>ih_trim_list := ih_trim_list h1, ih_trim_entries := ih_trim_entries h1\<rparr>" by blast
  have f: "ih_pieces h1 = ih_pieces h" "ih_tree h1 = ih_tree h" "ih_o h1 = ih_o h" by (subst h1(2); simp)+
  from erase_ok [OF i(1) a] obtain t where t: "rb_erase a (ih_tree h) = Some t" by blast
  have "get_next_trim True u h = Some (u\<lparr>hu_offset := ip_offset (piece_at h a), hu_buflen := ip_len (piece_at h a),
      hu_file := Some (ip_file (piece_at h a)), hu_ddir := Ddir_trim, hu_xfer_buflen := ip_len (piece_at h a)\<rparr>,
      free_piece a (h1\<lparr>ih_tree := t, ih_len := ih_len h1 - 1\<rparr>), True)"
    using assms(2-4) ne h1(1) f i(4,5) [OF a] t by (simp add: get_next_trim_def)
  then show ?thesis using assms(5) by (simp add: mark_completed_def free_piece_def)
qed

text \<open>Pruning ends with an empty history.\<close>

lemma prune_tree_ok:
  assumes "hist_ok h xs"
  shows "\<exists>h'. prune_tree h = Some h' \<and> hist_ok h' [] \<and> (\<forall>x. ih_pieces h' x = (if x \<in> set xs then None else ih_pieces h x))"
  using assms
proof (induction xs arbitrary: h)
  case Nil
  then have "rb_first (ih_tree h) = Some None" using first_ok [of "ih_tree h" "[]"] by (simp add: hist_ok_def index_ok_def)
  then show ?case using Nil by (subst prune_tree.simps) simp
next
  case (Cons a as)
  have ix: "index_ok h (a # as)" and tr: "trims_ok (set (a # as)) h" using Cons.prems by (simp_all add: hist_ok_def)
  have d: "distinct (a # as)" using index_okD(2) [OF ix] .
  then have fil: "filter (\<lambda>x. x \<noteq> a) (a # as) = as" by (auto intro: filter_True)
  from erase_piece [OF ix _ tr, of a] d obtain t h1 where e: "rb_erase a (ih_tree h) = Some t"
    "remove_trim_entry a (h\<lparr>ih_len := ih_len h - 1, ih_tree := t\<rparr>) = Some h1"
    "index_ok (free_piece a h1) as" "trims_ok (set as) (free_piece a h1)"
    "ih_pieces (free_piece a h1) = (ih_pieces h)(a := None)" unfolding fil by (auto simp: insert_Diff_if)
  let ?h = "h\<lparr>ih_tree := t\<rparr>"
  have same: "remove_trim_entry a ?h = Some (h1\<lparr>ih_len := ih_len h\<rparr>)"
    using e(2) by (auto simp: remove_trim_entry_def split: Option.bind_splits if_splits)
  have "ih_len h1 = ih_len h - 1" using e(2) by (auto simp: remove_trim_entry_def split: Option.bind_splits if_splits)
  then have "h1\<lparr>ih_len := ih_len h - 1\<rparr> = h1" by (cases h1) simp
  then have step: "prune_tree h = prune_tree (free_piece a h1)"
    using first_piece(2) [OF ix] e(1) same by (subst prune_tree.simps) simp
  have "hist_ok (free_piece a h1) as" using e(3,4) by (simp add: hist_ok_def)
  from Cons.IH [OF this] step show ?case using e(5) by auto
qed

lemma prune_ok:
  assumes "hist_ok h xs"
  shows "\<exists>h'. prune_io_piece_log h = Some h' \<and> hist_ok h' [] \<and> (\<forall>x\<in>set xs. ih_pieces h' x = None)"
proof -
  from prune_tree_ok [OF assms] obtain h' where h': "prune_tree h = Some h'" "hist_ok h' []" "\<forall>x\<in>set xs. ih_pieces h' x = None" by auto
  then have "ih_list h' = []" by (simp add: hist_ok_def index_ok_def)
  with h' show ?thesis by (auto simp: prune_io_piece_log_def hist_ok_def index_ok_def trims_ok_def)
qed

end
