(* ===== verification/Spec2Isabelle.thy ===== *)
theory Spec2Isabelle
  imports Axmap_Correct Lfsr_Correct Rand Filehash Fifo Crc Md5 Sha1 Sha2 Xxhash Verify_Detect Job_Correct
    Smalloc_Heap Stat_Correct IoHist_Correct
begin

text \<open>
  The repository holds notes on Linux performance work together with the programs they use. The
  program with state and contracts of its own is the I/O tester fio 2.1.7 under
  \<^verbatim>\<open>src/I_benchmark/13-fio/fio_2.1.7/fio-2.1.7/\<close>; file names below are relative to it. A
  fio job picks offsets (at random without repetition, with a map of the blocks already done or with a
  shift register), prepares buffers (random or with patterns), puts headers with checksums into them
  and checks them when they are read back. The development models that path.

  \<^bold>\<open>Conventions.\<close> Machine integers are words of the width they have on a 64-bit host, with
  the wrap-around of the code. Memory is a list of bytes, little endian. An access out of bounds, a
  failed \<open>assert\<close> and a loop that does not end are \<open>None\<close>; where a loop is a
  \<open>partial_function\<close>, the theorems say that it returns. Memory that is not initialised is a
  parameter \<open>junk\<close>, and theorems hold for every such memory.

  \<^bold>\<open>Prelude.\<close> Collections of simplification rules, \<open>get_bytes\<close> and
  \<open>put_bytes\<close>, words and their bytes, lemmas on lists.

  \<^bold>\<open>Bitops\<close> (\<^verbatim>\<open>lib/ffz.h\<close>, \<^verbatim>\<open>lib/fls.h\<close>): the searches for the first
  and the last set bit as the branches of the code, proved to find them.

  \<^bold>\<open>Axmap, Axmap_Correct\<close> (\<^verbatim>\<open>lib/axmap.c\<close>): the multi-level bitmap as a list of
  levels of 64-bit words. The invariant says that a bit of an upper level is set exactly when the word
  below is full; every operation keeps it, and the operations implement a set of blocks: setting,
  clearing, ranges, the first and next free block. The callback of a walk over the levels is a function
  argument; the walks are shared lemmas.

  \<^bold>\<open>Lfsr, Lfsr_Correct\<close> (\<^verbatim>\<open>lib/lfsr.c\<close>): the shift register with its table of
  taps. Shifting is invertible, its period is proved by squaring the matrix of the step, and a cycle
  visits every offset exactly once.

  \<^bold>\<open>Hash, Rand, Filehash\<close> (\<^verbatim>\<open>hash.h\<close>, \<^verbatim>\<open>lib/rand.c\<close>,
  \<^verbatim>\<open>filehash.c\<close>): hashing, the Tausworthe generator with its buffer fills, and the table of open
  files as a map from names.

  \<^bold>\<open>Fifo\<close> (\<^verbatim>\<open>fifo.c\<close>): the ring of bytes with free-running indices, an
  implementation of a queue, stated as a locale and interpreted on the code's functions.

  \<^bold>\<open>Checksum, Crc\<close> (\<^verbatim>\<open>crc/crc7.c\<close>, \<^verbatim>\<open>crc16\<close>, \<^verbatim>\<open>crc32\<close>,
  \<^verbatim>\<open>crc32c\<close>, \<^verbatim>\<open>crc64\<close>): the locale of byte-wise checksums and the tables of the
  files, proved to be the remainders of polynomial division; changes of a byte are detected.

  \<^bold>\<open>Blockhash, Md5, Sha1, Sha2, Xxhash\<close> (\<^verbatim>\<open>crc/md5.c\<close>,
  \<^verbatim>\<open>sha1.c\<close>, \<^verbatim>\<open>sha256.c\<close>, \<^verbatim>\<open>sha512.c\<close>,
  \<^verbatim>\<open>xxhash.c\<close>): the locale of hashes that buffer a block; updating in pieces is absorbing
  the concatenation, for each of them.

  \<^bold>\<open>Verify, Verify_Correct\<close> (\<^verbatim>\<open>verify.c\<close>, \<^verbatim>\<open>verify.h\<close>): headers are
  offsets into the buffer of an \<open>io_u\<close>. The locale \<open>verify_method\<close> is the contract between
  a filling function and its check, interpreted for every checksum; what is populated passes the check.

  \<^bold>\<open>Verify_Detect.\<close> The locale \<open>catching_check\<close> says of a checksum that a changed byte
  changes it; a buffer with such a change is reported. The digests of the code are never finalised, and
  the theory proves which changes they miss.

  \<^bold>\<open>FlistSort\<close> (\<^verbatim>\<open>lib/flist_sort.c\<close>): the merge sort with its array of partial lists,
  equal to the stable sort of the library.

  \<^bold>\<open>Offset, Offset_Correct\<close> (\<^verbatim>\<open>io_u.c\<close>, \<^verbatim>\<open>filesetup.c\<close>): the offset and length
  of the next I/O, from the random generator, the map, the shift register and the sort to
  \<open>fill_io_u\<close>. A product with a fraction of two to a power is computed in doubles as rounding of
  integers. A random job with a map does every block once, a sequential job does them in order, and lengths
  stay within their limits.

  \<^bold>\<open>JobFiles, IoPool, IoPool_Correct\<close> (\<^verbatim>\<open>io_u_queue.h\<close>, \<^verbatim>\<open>io_u.c\<close>,
  \<^verbatim>\<open>filesetup.c\<close>, \<^verbatim>\<open>ioengines.c\<close>, \<^verbatim>\<open>backend.c\<close>): the files of a
  job with their references, and the pool of its units. Stack and ring are two interpretations of the locale
  \<open>unit_bag\<close>; thread data is a record that the later theories extend.

  \<^bold>\<open>Job, Job_Correct\<close> (\<^verbatim>\<open>io_u.c\<close>, \<^verbatim>\<open>backend.c\<close>,
  \<^verbatim>\<open>verify.c\<close>): a unit is filled by the functions of \<open>Offset\<close>, queued, completed and put
  back. The main thread and the verifying threads are a step relation; what the engine answers is a
  parameter of each step. Without asynchronous verification every unit is in one place in every reachable
  state and no assertion fails; with it the relation has a run that puts a unit back twice.

  \<^bold>\<open>Smalloc, Smalloc_Correct, Smalloc_Heap\<close> (\<^verbatim>\<open>smalloc.c\<close>): the allocator of shared
  memory over a memory of bytes: pools with a bitmap of blocks, a header and a guard word round every
  object. What the system answers to \<open>mmap\<close> is an argument. The bitmap operations implement
  operations on sets of blocks; a step relation of what a program does with the heap keeps the invariant
  that live objects are apart. The recursions end by measures, the search by its own lemma.

  \<^bold>\<open>Stat, Stat_Correct\<close> (\<^verbatim>\<open>stat.c\<close>, \<^verbatim>\<open>stat.h\<close>, the marking functions of
  \<^verbatim>\<open>io_u.c\<close>): buckets and percentiles of latencies, distributions, running means and their
  sums over threads. A double is a rational number and the rounding of each operation is an argument of
  the functions; the percentiles are those of the samples for every rounding that keeps the order and is
  exact on integers, the merge of statistics is that of all samples when nothing is rounded.

  \<^bold>\<open>Rbtree, Rbtree_Correct\<close> (\<^verbatim>\<open>lib/rbtree.c\<close>, \<^verbatim>\<open>lib/rbtree.h\<close>): the
  red-black tree as nodes in a memory with their pointers. A relation says which tree the memory holds
  below which path to the root; rotations and paintings move from one to the next, and insertion, deletion,
  first and next are those of the list of nodes in order. The colours and black heights are kept, so the
  height is logarithmic and every loop ends.

  \<^bold>\<open>IoHist, IoHist_Correct\<close> (\<^verbatim>\<open>iolog.c\<close>, \<^verbatim>\<open>trim.c\<close>,
  \<^verbatim>\<open>trim.h\<close>, \<^verbatim>\<open>verify.c\<close>, \<^verbatim>\<open>io_u.c\<close>): the history of
  the writes of a job. In its sorted form it implements a finite map from places to the last write there;
  reading it back gives each place once. A piece that is freed while its write is in flight makes the
  completion of that write undefined.

  \<^bold>\<open>Bounds.\<close> Buffers are shorter than \<open>2 ^ 31\<close> bytes where the code keeps a length
  in an int. The recursion of the axmap goes over its list of levels, that of the digests over the data;
  no fuel is used.

  \<^bold>\<open>Not modelled.\<close> Engines, processes and threads, sockets, user interfaces, clocks and
  everything that is mostly calls of the operating system or floating-point arithmetic; the other
  programs of the repository are third-party (cscope, iometer), numerical kernels or short exercises.
  Of \<^verbatim>\<open>verify.c\<close> the verifying threads appear in the job only, of \<^verbatim>\<open>io_u.c\<close> the
  rates and latency targets, which are computed from clocks.
\<close>

end
